(* ===== verification/Prelude.thy ===== *)
theory Prelude
  imports Main "HOL-Library.Word" "HOL-Library.Monad_Syntax"
begin

unbundle bit_operations_syntax

text \<open>
  Shared vocabulary of the development: the machine types of
  \<^verbatim>\<open>Foundation/Types.hpp\<close>, sizes with their wrap-around, results, and the generic
  lemmas on lists, options and words that the component theories use.

  Two kinds of failure are kept apart. An operation whose result the program reports
  (\<^verbatim>\<open>Expected<T, Error>\<close>, a null pointer, a \<^verbatim>\<open>false\<close>) returns it as a value. An
  operation with no defined result (a read of a destroyed object, a store outside an
  allocation, a loop that never ends) is \<^term>\<open>None\<close> of an option type, so that a
  theorem that an operation is \<^term>\<open>Some r\<close> says that the code reaches a result.
\<close>

type_synonym u8 = "8 word"
type_synonym u16 = "16 word"
type_synonym u32 = "32 word"
type_synonym u64 = "64 word"

section \<open>Sizes\<close>

text \<open>\<^verbatim>\<open>Foundation::Size\<close> is a 64-bit unsigned integer. Sizes are natural numbers here;
  \<open>usz\<close> is the wrap-around of the arithmetic on them and stands wherever a sum or a
  product of the source can exceed the type.\<close>

definition usz :: "nat \<Rightarrow> nat" where
  "usz n = n mod 2 ^ 64"

definition size_max :: nat where
  "size_max = 2 ^ 64 - 1"

abbreviation NotFound :: nat where
  "NotFound \<equiv> size_max"

lemma usz_small [simp]: "n < 2 ^ 64 \<Longrightarrow> usz n = n"
  by (simp add: usz_def)

lemma usz_le_self: "usz n \<le> n"
  by (simp add: usz_def)

lemma usz_bound [simp]: "usz n < 2 ^ 64"
  by (simp add: usz_def)

lemma less_size_max: "n < size_max \<Longrightarrow> n < 2 ^ 64"
  by (simp add: size_max_def)

section \<open>Results\<close>

text \<open>\<open>Expected<T, E>\<close> is the sum \<open>'e + 'a\<close>: \<^term>\<open>Inl\<close> the error, \<^term>\<open>Inr\<close> the value.\<close>

definition is_ok :: "'e + 'a \<Rightarrow> bool" where
  "is_ok r = (case r of Inl _ \<Rightarrow> False | Inr _ \<Rightarrow> True)"

lemma is_ok_simps [simp]: "is_ok (Inl e) = False" "is_ok (Inr x) = True"
  by (simp_all add: is_ok_def)

section \<open>Lists\<close>

lemma take_Suc_nth: "i < length xs \<Longrightarrow> take (Suc i) xs = take i xs @ [xs ! i]"
  by (rule take_Suc_conv_app_nth)

lemma drop_nth_Cons: "i < length xs \<Longrightarrow> drop i xs = xs ! i # drop (Suc i) xs"
  by (simp add: Cons_nth_drop_Suc)

lemma take_drop_rest: "take n (drop p xs) @ drop (p + n) xs = drop p xs"
  by (metis add.commute append_take_drop_id drop_drop)

lemma take_drop_append: "take m xs @ take n (drop m xs) = take (m + n) xs"
  by (simp add: take_add)

text \<open>\<open>overwrite at ys xs\<close>: \<open>xs\<close> with the elements from \<open>at\<close> on replaced by \<open>ys\<close>.\<close>

definition overwrite :: "nat \<Rightarrow> 'a list \<Rightarrow> 'a list \<Rightarrow> 'a list" where
  "overwrite at ys xs = take at xs @ ys @ drop (at + length ys) xs"

lemma length_overwrite [simp]:
  "at + length ys \<le> length xs \<Longrightarrow> length (overwrite at ys xs) = length xs"
  by (simp add: overwrite_def)

lemma overwrite_snoc:
  assumes "at + length ys < length xs"
  shows "(overwrite at ys xs)[at + length ys := y] = overwrite at (ys @ [y]) xs"
  using assms
  by (simp add: overwrite_def list_update_append drop_nth_Cons [of "at + length ys" xs] min_def)

text \<open>\<open>Memory::Copy\<close> into a buffer and \<open>Memory::Move\<close> within one; neither has a result when it leaves the
  buffer.\<close>

definition mem_copy :: "'a list \<Rightarrow> nat \<Rightarrow> 'a list \<Rightarrow> 'a list option" where
  "mem_copy buf at src = (if at + length src \<le> length buf then Some (overwrite at src buf) else None)"

definition mem_move :: "'a list \<Rightarrow> nat \<Rightarrow> nat \<Rightarrow> nat \<Rightarrow> 'a list option" where
  "mem_move buf to from n =
     (if from + n \<le> length buf then mem_copy buf to (take n (drop from buf)) else None)"

lemma mem_copy_Some [simp]:
  "at + length src \<le> length buf \<Longrightarrow> mem_copy buf at src = Some (overwrite at src buf)"
  by (simp add: mem_copy_def)

lemma mem_move_Some [simp]:
  "from + n \<le> length buf \<Longrightarrow> to + n \<le> length buf \<Longrightarrow>
    mem_move buf to from n = Some (overwrite to (take n (drop from buf)) buf)"
  by (simp add: mem_move_def)

lemma take_overwrite:
  "at + length ys = n \<Longrightarrow> n \<le> length xs \<Longrightarrow> take n (overwrite at ys xs) = take at xs @ ys"
  by (auto simp: overwrite_def min_def)

section \<open>Counting loops\<close>

text \<open>\<open>for_each is body s\<close> runs the body for each index in turn, threading the state, and has no
  result as soon as one step has none. \<^verbatim>\<open>for (i = a; i < b; ++i)\<close> runs it over \<open>[a..<b]\<close>,
  \<^verbatim>\<open>for (i = b; i > a; --i)\<close> over the reverse of \<open>[Suc a..<Suc b]\<close>.\<close>

fun for_each :: "'i list \<Rightarrow> ('i \<Rightarrow> 's \<Rightarrow> 's option) \<Rightarrow> 's \<Rightarrow> 's option" where
  "for_each [] body s = Some s"
| "for_each (i # is) body s = Option.bind (body i s) (for_each is body)"

abbreviation for_up :: "nat \<Rightarrow> nat \<Rightarrow> (nat \<Rightarrow> 's \<Rightarrow> 's option) \<Rightarrow> 's \<Rightarrow> 's option" where
  "for_up a b \<equiv> for_each [a..<b]"

abbreviation for_down :: "nat \<Rightarrow> nat \<Rightarrow> (nat \<Rightarrow> 's \<Rightarrow> 's option) \<Rightarrow> 's \<Rightarrow> 's option" where
  "for_down b a \<equiv> for_each (rev [Suc a..<Suc b])"

lemma for_each_append:
  "for_each (is @ js) body s = Option.bind (for_each is body s) (for_each js body)"
  by (induction "is" arbitrary: s) (simp_all split: Option.bind_split)

lemma for_each_preserves:
  assumes "\<And>i s s'. body i s = Some s' \<Longrightarrow> f s' = f s" and "for_each is body s = Some s'"
  shows "f s' = f s"
  using assms(2)
proof (induction "is" arbitrary: s)
  case (Cons i "is")
  from Cons.prems obtain t where t: "body i s = Some t" "for_each is body t = Some s'"
    by (auto split: Option.bind_splits)
  from Cons.IH [OF t(2)] assms(1) [OF t(1)] show ?case by simp
qed simp

text \<open>The loop rules: an invariant indexed by the loop variable. If it holds at the start and each
  step has a result and moves it on, the loop has a result and ends with it.\<close>

lemma for_up_rule:
  assumes "a \<le> b" and "I a s"
    and "\<And>i s. a \<le> i \<Longrightarrow> i < b \<Longrightarrow> I i s \<Longrightarrow> \<exists>s'. body i s = Some s' \<and> I (Suc i) s'"
  shows "\<exists>s'. for_up a b body s = Some s' \<and> I b s'"
  using assms
proof (induction "b - a" arbitrary: a s)
  case 0
  then show ?case by simp
next
  case (Suc d)
  then have ab: "a < b" by simp
  with Suc.prems obtain s1 where s1: "body a s = Some s1" "I (Suc a) s1" by blast
  have "\<exists>s'. for_up (Suc a) b body s1 = Some s' \<and> I b s'"
    using Suc.hyps(2) ab s1(2) Suc.prems(3) by (intro Suc.hyps(1)) auto
  with s1(1) ab show ?case by (simp add: upt_conv_Cons)
qed

lemma for_down_rule:
  assumes "a \<le> b" and "I b s"
    and "\<And>i s. a < i \<Longrightarrow> i \<le> b \<Longrightarrow> I i s \<Longrightarrow> \<exists>s'. body i s = Some s' \<and> I (i - 1) s'"
  shows "\<exists>s'. for_down b a body s = Some s' \<and> I a s'"
  using assms
proof (induction "b - a" arbitrary: b s)
  case 0
  then show ?case by simp
next
  case (Suc d)
  then have ab: "a < b" and ab': "a \<le> b" by simp_all
  with Suc.prems obtain s1 where s1: "body b s = Some s1" "I (b - 1) s1" by blast
  have "\<exists>s'. for_down (b - 1) a body s1 = Some s' \<and> I a s'"
    using Suc.hyps(2) ab s1(2) Suc.prems(3) by (intro Suc.hyps(1)) auto
  with s1(1) ab show ?case by (cases b) auto
qed

text \<open>Loops that leave early: \<open>loop_all\<close> is a loop that returns \<^verbatim>\<open>false\<close> at the first index that fails
  the test and \<^verbatim>\<open>true\<close> at its end, \<open>loop_find\<close> one that returns the first index that passes. The
  test itself may have no result.\<close>

fun loop_all :: "'i list \<Rightarrow> ('i \<Rightarrow> bool option) \<Rightarrow> bool option" where
  "loop_all [] test = Some True"
| "loop_all (i # is) test =
     do { ok \<leftarrow> test i; if ok then loop_all is test else Some False }"

fun loop_find :: "'i list \<Rightarrow> ('i \<Rightarrow> bool option) \<Rightarrow> 'i option option" where
  "loop_find [] test = Some None"
| "loop_find (i # is) test =
     do { ok \<leftarrow> test i; if ok then Some (Some i) else loop_find is test }"

lemma loop_all_eq:
  "(\<And>i. i \<in> set is \<Longrightarrow> test i = Some (P i)) \<Longrightarrow> loop_all is test = Some (\<forall>i \<in> set is. P i)"
  by (induction "is") auto

lemma loop_find_eq:
  "(\<And>i. i \<in> set is \<Longrightarrow> test i = Some (P i)) \<Longrightarrow> loop_find is test = Some (find P is)"
  by (induction "is") auto

text \<open>The index found going up is the least one, going down the greatest.\<close>

lemma find_upt_Some:
  "find P [a..<b] = Some i \<longleftrightarrow> a \<le> i \<and> i < b \<and> P i \<and> (\<forall>k. a \<le> k \<and> k < i \<longrightarrow> \<not> P k)"
proof (induction "b - a" arbitrary: a)
  case (Suc d)
  then have ab: "a < b" by simp
  have IH: "find P [Suc a..<b] = Some i \<longleftrightarrow>
      Suc a \<le> i \<and> i < b \<and> P i \<and> (\<forall>k. Suc a \<le> k \<and> k < i \<longrightarrow> \<not> P k)"
    using Suc.hyps(2) by (intro Suc.hyps(1)) simp
  show ?case
  proof (cases "P a")
    case True
    with ab show ?thesis by (auto simp: upt_conv_Cons)
  next
    case False
    have "(\<forall>k. a \<le> k \<and> k < i \<longrightarrow> \<not> P k) \<longleftrightarrow> (\<forall>k. Suc a \<le> k \<and> k < i \<longrightarrow> \<not> P k)"
      using False by (metis Suc_le_eq le_neq_implies_less less_imp_le)
    moreover have "a \<le> i \<and> P i \<longleftrightarrow> Suc a \<le> i \<and> P i"
      using False by (metis Suc_leD Suc_leI le_neq_implies_less)
    ultimately show ?thesis using False ab IH by (simp add: upt_conv_Cons) blast
  qed
qed auto

lemma find_upt_None: "find P [a..<b] = None \<longleftrightarrow> (\<forall>k. a \<le> k \<and> k < b \<longrightarrow> \<not> P k)"
  by (auto simp: find_None_iff)

lemma find_rev_upt_Some:
  "find P (rev [0..<b]) = Some i \<longleftrightarrow> i < b \<and> P i \<and> (\<forall>k. i < k \<and> k < b \<longrightarrow> \<not> P k)"
proof (induction b)
  case (Suc b)
  then show ?case
    by (auto simp: less_Suc_eq)
qed simp

lemma find_rev_upt_None: "find P (rev [0..<b]) = None \<longleftrightarrow> (\<forall>k < b. \<not> P k)"
  by (auto simp: find_None_iff)

section \<open>Bits of words\<close>

lemma unat_power_two [simp]:
  "k < LENGTH('a) \<Longrightarrow> unat (2 ^ k :: 'a::len word) = 2 ^ k"
  by transfer (simp add: nat_power_eq)

lemma word_unat_eqI: "unat v = unat w \<Longrightarrow> v = w"
  by (simp add: word_unat_eq_iff)

lemma bit_unat [simp]: "bit (unat w) n \<longleftrightarrow> bit w n" for w :: "'a::len word"
  by (simp add: bit_unsigned_iff)

lemma unat_lt2p [simp, intro]: "unat w < 2 ^ LENGTH('a)" for w :: "'a::len word"
  by (rule unsigned_less)

lemma of_nat_unat_word: "of_nat (unat w) = w" for w :: "'a::len word"
  by (rule word_unat_eqI) (simp add: unsigned_of_nat take_bit_nat_eq_self)

lemma unat_of_nat_small: "n < 2 ^ LENGTH('a) \<Longrightarrow> unat (of_nat n :: 'a::len word) = n"
  by (simp add: unsigned_of_nat take_bit_nat_eq_self)

lemma unat_ucast: "unat (ucast w :: 'b::len word) = take_bit LENGTH('b) (unat w)"
  for w :: "'a::len word"
  by (rule bit_eqI) (auto simp: bit_take_bit_iff bit_ucast_iff)

lemma unat_minus_one_word: "w \<noteq> 0 \<Longrightarrow> unat (w - 1) = unat w - 1" for w :: "'a::len word"
  by (simp add: unat_minus_one)

lemma unat_max_word: "unat (- 1 :: 'a::len word) = 2 ^ LENGTH('a) - 1"
  by (simp add: unsigned_minus_1_eq_mask mask_eq_exp_minus_1)

lemma unat_mask_word: "k \<le> LENGTH('a) \<Longrightarrow> unat (mask k :: 'a::len word) = 2 ^ k - 1"
proof -
  assume "k \<le> LENGTH('a)"
  then have "unat (mask k :: 'a word) = mask k"
    by (intro bit_eqI) (auto simp: bit_unat bit_mask_iff)
  then show ?thesis by (simp add: mask_eq_exp_minus_1)
qed

text \<open>Clearing the low bits rounds down to a multiple of the power of two.\<close>

lemma unat_clear_low: "unat (v AND NOT (mask k)) = unat v div 2 ^ k * 2 ^ k"
  for v :: "'a::len word"
proof -
  have "unat (v AND NOT (mask k)) = push_bit k (drop_bit k (unat v))"
    by (rule bit_eqI)
      (auto simp: bit_and_iff bit_not_iff bit_mask_iff bit_push_bit_iff bit_drop_bit_eq
        dest: bit_imp_le_length)
  then show ?thesis by (simp add: push_bit_eq_mult drop_bit_eq_div)
qed

lemma take_bit_word_less: "w < 2 ^ k \<Longrightarrow> take_bit k w = w" for w :: "'a::len word"
proof (cases "k < LENGTH('a)")
  case True
  assume "w < 2 ^ k"
  with True show ?thesis
    by (intro word_unat_eqI) (simp add: word_less_nat_alt unsigned_take_bit_eq take_bit_nat_eq_self)
qed (simp add: take_bit_word_eq_self)

lemma bit_word_less_exp: "w < 2 ^ k \<Longrightarrow> k \<le> n \<Longrightarrow> \<not> bit w n"
  for w :: "'a::len word"
  by (metis bit_take_bit_iff leD take_bit_word_less)

end
