(* ===== verification/IoCore.thy ===== *)
theory IoCore
  imports Prelude
begin

text \<open>
  \<^verbatim>\<open>IO/Core\<close>: the error value of every operation (\<^verbatim>\<open>Error.hpp\<close>), the loops \<open>WriteAll\<close> and \<open>ReadExact\<close>
  over a sink's \<open>WriteSome\<close> and a source's \<open>ReadSome\<close> (\<^verbatim>\<open>Operations.hpp\<close>), the durations of
  \<^verbatim>\<open>Options.hpp\<close>, and what the loops ask of a sink and of a source: the concepts \<^verbatim>\<open>OutputSink\<close> and
  \<^verbatim>\<open>InputSource\<close>, as locales with the laws the loops rely on.

  A sink or a source is a state \<open>'s\<close> that its operations thread. An operation reports
  \<^verbatim>\<open>Result<T>\<close> as a sum, and has no result at all (\<^term>\<open>None\<close>) when its behaviour is undefined or
  it never returns.
\<close>

type_synonym byte = u8

datatype operation =
    NoOperation | Open | Read | Write | Flush | Seek | Truncate | Close | Wait | Encode | Decode
  | Format | Parse | AllocateOp

datatype error_code =
    Firmware | InvalidArgument | Closed | EndOfFile | UnexpectedEndOfFile | WouldBlock | NoProgress
  | OverflowCode | InvalidFormat | InvalidEncoding | OutOfMemory | Unsupported | Cancelled | TimedOut

record io_error =
  code :: error_code
  during :: operation
  status :: u64
  offset :: nat
  transferred :: nat

definition FromStatus :: "operation \<Rightarrow> u64 \<Rightarrow> nat \<Rightarrow> nat \<Rightarrow> io_error" where
  "FromStatus d st off tr =
     \<lparr>code = Firmware, during = d, status = st, offset = off, transferred = tr\<rparr>"

definition Semantic :: "error_code \<Rightarrow> operation \<Rightarrow> nat \<Rightarrow> nat \<Rightarrow> io_error" where
  "Semantic c d off tr = \<lparr>code = c, during = d, status = 0, offset = off, transferred = tr\<rparr>"

text \<open>\<^verbatim>\<open>Error.Transferred += n\<close>.\<close>

definition add_transferred :: "io_error \<Rightarrow> nat \<Rightarrow> io_error" where
  "add_transferred e n = e\<lparr>transferred := usz (transferred e + n)\<rparr>"

type_synonym 's write_some = "'s \<Rightarrow> byte list \<Rightarrow> ('s \<times> (io_error + nat)) option"
type_synonym 's io_action = "'s \<Rightarrow> ('s \<times> (io_error + unit)) option"

text \<open>\<open>ReadSome\<close> fills at most the given number of bytes of the destination: it returns the bytes it has put
  there (\<^verbatim>\<open>Count\<close> is their number) and \<^verbatim>\<open>End\<close>.\<close>

type_synonym 's read_some = "'s \<Rightarrow> nat \<Rightarrow> ('s \<times> (io_error + byte list \<times> bool)) option"

section \<open>WriteAll and ReadExact\<close>

text \<open>The loop of \<open>WriteAll\<close>, from \<open>written\<close> on. It may run forever on a sink that accepts more than it is
  offered (the sum wraps), hence a partial function: \<^term>\<open>None\<close> when it does not return.\<close>

partial_function (option) write_loop ::
  "'s write_some \<Rightarrow> byte list \<Rightarrow> 's \<Rightarrow> nat \<Rightarrow> ('s \<times> (io_error + unit)) option" where
  "write_loop write_some bytes s written =
     (if written < length bytes then
        Option.bind (write_some s (drop written bytes)) (\<lambda>(s, r).
          case r of
            Inl e \<Rightarrow> Some (s, Inl (add_transferred e written))
          | Inr n \<Rightarrow>
              if n = 0 then Some (s, Inl (Semantic NoProgress Write written written))
              else write_loop write_some bytes s (usz (written + n)))
      else Some (s, Inr ()))"

definition WriteAll :: "'s write_some \<Rightarrow> 's \<Rightarrow> byte list \<Rightarrow> ('s \<times> (io_error + unit)) option" where
  "WriteAll write_some s bytes = write_loop write_some bytes s 0"

text \<open>The loop of \<open>ReadExact\<close>; \<open>got\<close> is the part of the destination that is filled, \<^verbatim>\<open>Read\<close> its length.
  The destination is returned with the outcome.\<close>

partial_function (option) read_loop ::
  "'s read_some \<Rightarrow> nat \<Rightarrow> 's \<Rightarrow> byte list \<Rightarrow> ('s \<times> byte list \<times> (io_error + unit)) option" where
  "read_loop read_some n s got =
     (if length got < n then
        Option.bind (read_some s (n - length got)) (\<lambda>(s, r).
          case r of
            Inl e \<Rightarrow> Some (s, got, Inl (add_transferred e (length got)))
          | Inr (bs, at_end) \<Rightarrow>
              let got = got @ bs in
              if at_end \<and> length got < n then
                Some (s, got, Inl (Semantic UnexpectedEndOfFile Read (length got) (length got)))
              else if bs = [] then
                Some (s, got, Inl (Semantic NoProgress Read (length got) (length got)))
              else read_loop read_some n s got)
      else Some (s, got, Inr ()))"

definition ReadExact ::
  "'s read_some \<Rightarrow> 's \<Rightarrow> nat \<Rightarrow> ('s \<times> byte list \<times> (io_error + unit)) option" where
  "ReadExact read_some s n = read_loop read_some n s []"

text \<open>\<^verbatim>\<open>IO::Flush\<close> and \<^verbatim>\<open>IO::Close\<close> of a value without such an operation do nothing and succeed.\<close>

definition no_action :: "'s io_action" where
  "no_action s = Some (s, Inr ())"

section \<open>Sinks\<close>

text \<open>What a sink promises. \<open>sunk s\<close> is every byte it has taken so far: an accepted write takes a prefix
  of what it is offered, and a failed write takes nothing. \<open>ready s\<close> is the sink's own invariant.\<close>

locale sink =
  fixes write_some :: "'s write_some"
    and ready :: "'s \<Rightarrow> bool"
    and sunk :: "'s \<Rightarrow> byte list"
  assumes write_law: "ready s \<Longrightarrow> length bytes < 2 ^ 63 \<Longrightarrow>
      \<exists>s' r. write_some s bytes = Some (s', r) \<and> ready s' \<and>
        (case r of Inl e \<Rightarrow> sunk s' = sunk s
         | Inr n \<Rightarrow> n \<le> length bytes \<and> sunk s' = sunk s @ take n bytes)"
begin

lemma write_loop_law:
  assumes "ready s" and "written \<le> length bytes" and "length bytes < 2 ^ 63"
  shows "\<exists>s' r n. write_loop write_some bytes s written = Some (s', r) \<and> ready s' \<and>
    written \<le> n \<and> n \<le> length bytes \<and> sunk s' = sunk s @ drop written (take n bytes) \<and>
    (case r of Inl e \<Rightarrow> n < length bytes | Inr _ \<Rightarrow> n = length bytes)"
  using assms
proof (induction "length bytes - written" arbitrary: s written rule: less_induct)
  case less
  show ?case
  proof (cases "written < length bytes")
    case False
    with less.prems show ?thesis by (subst write_loop.simps) simp
  next
    case True
    have "length (drop written bytes) < 2 ^ 63" using less.prems(3) by simp
    from write_law [OF less.prems(1) this] obtain s1 r where s1:
      "write_some s (drop written bytes) = Some (s1, r)" "ready s1"
      "case r of Inl e \<Rightarrow> sunk s1 = sunk s
       | Inr n \<Rightarrow> n \<le> length (drop written bytes) \<and> sunk s1 = sunk s @ take n (drop written bytes)"
      by blast
    show ?thesis
    proof (cases r)
      case (Inl e)
      with s1 True show ?thesis by (subst write_loop.simps) (auto intro!: exI [of _ written])
    next
      case (Inr n)
      with s1(3) have n: "n \<le> length bytes - written"
        "sunk s1 = sunk s @ take n (drop written bytes)" by simp_all
      show ?thesis
      proof (cases "n = 0")
        case True
        with s1(1,2) Inr n \<open>written < length bytes\<close> show ?thesis
          by (subst write_loop.simps) (auto intro!: exI [of _ written])
      next
        case False
        have le: "written + n \<le> length bytes" using n(1) less.prems(2) by simp
        with less.prems(3) have u: "usz (written + n) = written + n" by simp
        have "\<exists>s' r k. write_loop write_some bytes s1 (written + n) = Some (s', r) \<and> ready s' \<and>
            written + n \<le> k \<and> k \<le> length bytes \<and> sunk s' = sunk s1 @ drop (written + n) (take k bytes) \<and>
            (case r of Inl e \<Rightarrow> k < length bytes | Inr _ \<Rightarrow> k = length bytes)"
          by (rule less.hyps) (use True False le s1(2) less.prems(3) in auto)
        then obtain s2 r2 k where s2:
          "write_loop write_some bytes s1 (written + n) = Some (s2, r2)" "ready s2"
          "written + n \<le> k" "k \<le> length bytes" "sunk s2 = sunk s1 @ drop (written + n) (take k bytes)"
          "case r2 of Inl e \<Rightarrow> k < length bytes | Inr _ \<Rightarrow> k = length bytes" by blast
        have "take n (drop written bytes) @ drop (written + n) (take k bytes) = drop written (take k bytes)"
        proof -
          have "take n (drop written (take k bytes)) = take n (drop written bytes)"
            using s2(3) by (simp add: drop_take min_def)
          then show ?thesis
            using append_take_drop_id [of n "drop written (take k bytes)"] by (simp add: add.commute)
        qed
        with s2 n(2) have "sunk s2 = sunk s @ drop written (take k bytes)" by simp
        with s2 s1(1) Inr False True u show ?thesis
          by (subst write_loop.simps) (auto intro!: exI [of _ k])
      qed
    qed
  qed
qed

text \<open>\<open>WriteAll\<close> always returns; it takes all of the bytes, or reports an error and has taken a proper
  prefix of them.\<close>

lemma WriteAll_law:
  assumes "ready s" and "length bytes < 2 ^ 63"
  shows "\<exists>s' r n. WriteAll write_some s bytes = Some (s', r) \<and> ready s' \<and>
    sunk s' = sunk s @ take n bytes \<and>
    (case r of Inl e \<Rightarrow> n < length bytes | Inr _ \<Rightarrow> n = length bytes)"
  using write_loop_law [OF assms(1) _ assms(2), of 0] by (auto simp: WriteAll_def)

text \<open>A single byte is taken or not.\<close>

lemma WriteAll_byte:
  assumes "ready s"
  shows "\<exists>s' r. WriteAll write_some s [b] = Some (s', r) \<and> ready s' \<and>
    sunk s' = sunk s @ (case r of Inl e \<Rightarrow> [] | Inr _ \<Rightarrow> [b])"
proof -
  have "length [b] < 2 ^ 63" by simp
  from WriteAll_law [OF assms this] obtain s' r n where w: "WriteAll write_some s [b] = Some (s', r)"
    "ready s'" "sunk s' = sunk s @ take n [b]"
    "case r of Inl e \<Rightarrow> n < length [b] | Inr _ \<Rightarrow> n = length [b]" by blast
  then show ?thesis by (cases r) (rule exI [of _ s'], rule exI [of _ r], simp)+
qed

end

section \<open>Sources\<close>

text \<open>What a source promises: \<open>rest s\<close> is what it still has; a read takes a prefix of it that fits the
  destination, and reports the end only when nothing is left; a failed read takes nothing.\<close>

locale source =
  fixes read_some :: "'s read_some"
    and ready :: "'s \<Rightarrow> bool"
    and rest :: "'s \<Rightarrow> byte list"
  assumes read_law: "ready s \<Longrightarrow>
      \<exists>s' r. read_some s n = Some (s', r) \<and> ready s' \<and>
        (case r of Inl e \<Rightarrow> rest s' = rest s
         | Inr (bs, at_end) \<Rightarrow> length bs \<le> n \<and> rest s = bs @ rest s' \<and> (at_end \<longrightarrow> rest s' = []))"
begin

lemma read_loop_law:
  assumes "ready s" and "length got \<le> n"
  shows "\<exists>s' out r. read_loop read_some n s got = Some (s', out, r) \<and> ready s' \<and>
    got @ rest s = out @ rest s' \<and> length out \<le> n \<and> (is_ok r \<longrightarrow> length out = n)"
  using assms
proof (induction "n - length got" arbitrary: s got rule: less_induct)
  case less
  show ?case
  proof (cases "length got < n")
    case False
    with less.prems show ?thesis by (subst read_loop.simps) simp
  next
    case True
    from read_law [OF less.prems(1), of "n - length got"] obtain s1 r where s1:
      "read_some s (n - length got) = Some (s1, r)" "ready s1"
      "case r of Inl e \<Rightarrow> rest s1 = rest s
       | Inr (bs, at_end) \<Rightarrow> length bs \<le> n - length got \<and> rest s = bs @ rest s1 \<and> (at_end \<longrightarrow> rest s1 = [])"
      by blast
    show ?thesis
    proof (cases r)
      case (Inl e)
      with s1 True show ?thesis by (subst read_loop.simps) auto
    next
      case (Inr p)
      obtain bs at_end where p: "p = (bs, at_end)" by (cases p)
      with s1(3) Inr have bs: "length bs \<le> n - length got" "rest s = bs @ rest s1" by auto
      show ?thesis
      proof (cases "at_end \<and> length (got @ bs) < n \<or> bs = []")
        case False
        have "\<exists>s' out r. read_loop read_some n s1 (got @ bs) = Some (s', out, r) \<and> ready s' \<and>
            (got @ bs) @ rest s1 = out @ rest s' \<and> length out \<le> n \<and> (is_ok r \<longrightarrow> length out = n)"
        proof (rule less.hyps)
          have "0 < length bs" using False by simp
          with True show "n - length (got @ bs) < n - length got" unfolding length_append by linarith
        qed (use False True bs(1) s1(2) in auto)
        with s1 Inr p bs False True show ?thesis
          by (subst read_loop.simps) (auto simp: Let_def)
      next
        case stop: True
        have le: "length (got @ bs) \<le> n" using bs(1) True by simp
        have "\<exists>e. read_loop read_some n s got = Some (s1, got @ bs, Inl e)"
          using stop s1(1) Inr p True by (subst read_loop.simps) (auto simp: Let_def)
        with s1(2) bs(2) le show ?thesis by auto
      qed
    qed
  qed
qed

text \<open>\<open>ReadExact\<close> always returns; what it puts into the destination is the front of what the source had,
  all of the destination when it succeeds.\<close>

lemma ReadExact_law:
  assumes "ready s"
  shows "\<exists>s' out r. ReadExact read_some s n = Some (s', out, r) \<and> ready s' \<and>
    rest s = out @ rest s' \<and> length out \<le> n \<and> (is_ok r \<longrightarrow> length out = n)"
  using read_loop_law [OF assms, of "[]" n] by (simp add: ReadExact_def)

end

section \<open>Timeouts\<close>

text \<open>\<open>Timeout::Milliseconds\<close> and \<open>Timeout::Seconds\<close> convert to timer units of 100 ns and saturate.\<close>

definition Milliseconds :: "u64 \<Rightarrow> u64" where
  "Milliseconds v = (if v > - 1 div 10000 then - 1 else v * 10000)"

definition Seconds :: "u64 \<Rightarrow> u64" where
  "Seconds v = (if v > - 1 div 10000000 then - 1 else v * 10000000)"

lemma saturating_mult:
  fixes v :: u64
  assumes "0 < k" and "k < 2 ^ 64"
  shows "unat (if v > - 1 div of_nat k then - 1 else v * of_nat k) = min (unat v * k) (2 ^ 64 - 1)"
proof -
  have k: "unat (of_nat k :: u64) = k" using assms(2) by (intro unat_of_nat_small) simp
  have m: "unat (- 1 :: u64) = 2 ^ 64 - 1" using unat_max_word [where 'a = 64] by simp
  have d: "unat (- 1 div of_nat k :: u64) = (2 ^ 64 - 1) div k"
    unfolding unat_div k m ..
  show ?thesis
  proof (cases "v > - 1 div of_nat k")
    case True
    then have "(2 ^ 64 - 1) div k < unat v" unfolding word_less_nat_alt d .
    then have "2 ^ 64 - 1 < unat v * k" using assms(1) by (simp add: div_less_iff_less_mult)
    with True m show ?thesis by simp
  next
    case False
    then have "unat v \<le> (2 ^ 64 - 1) div k" unfolding word_less_nat_alt d by simp
    then have le: "unat v * k \<le> 2 ^ 64 - 1" using assms(1) by (simp add: less_eq_div_iff_mult_less_eq)
    then have "unat (v * of_nat k) = unat v * k"
      by (simp add: unat_word_ariths k)
    with False le show ?thesis by simp
  qed
qed

text \<open>\<open>Timeout::Milliseconds\<close> and \<open>Timeout::Seconds\<close> never wrap: they are the product, or the largest
  64-bit value when the product is larger.\<close>

theorem Timeout_saturates:
  "unat (Milliseconds v) = min (unat v * 10000) (2 ^ 64 - 1) \<and>
   unat (Seconds v) = min (unat v * 10000000) (2 ^ 64 - 1)"
proof
  show "unat (Milliseconds v) = min (unat v * 10000) (2 ^ 64 - 1)"
    unfolding Milliseconds_def
    by (rule saturating_mult [of 10000 v, unfolded of_nat_numeral]) simp_all
  show "unat (Seconds v) = min (unat v * 10000000) (2 ^ 64 - 1)"
    unfolding Seconds_def
    by (rule saturating_mult [of 10000000 v, unfolded of_nat_numeral]) simp_all
qed

end
