(* ===== verification/Contract.thy ===== *)
theory Contract
  imports Prelude
begin

text \<open>
  The contract shared by the program's growable objects. Their operations report success or failure as a
  \<^verbatim>\<open>Bool\<close>; a failure has an effect of its own (usually none) and a reason (the arguments, or the
  memory that the operation asked for in the state it was performed in). \<open>run_ops\<close> performs a sequence of
  operations, whatever each reports, and collects the reports; \<open>effects\<close> is the same on the abstract value, given the reports; \<open>explained\<close> says that each
  report is the right one: it follows the states of the run and demands success exactly when the
  arguments are in range and the request of that step is granted.
\<close>

fun run_ops :: "('op \<Rightarrow> 's \<Rightarrow> ('s \<times> bool) option) \<Rightarrow> 'op list \<Rightarrow> 's \<Rightarrow> ('s \<times> bool list) option" where
  "run_ops step [] s = Some (s, [])"
| "run_ops step (op # ops) s =
     do { (s, ok) \<leftarrow> step op s;
          (s, oks) \<leftarrow> run_ops step ops s;
          Some (s, ok # oks) }"

fun effects :: "('op \<Rightarrow> bool \<Rightarrow> 'a \<Rightarrow> 'a) \<Rightarrow> 'op list \<Rightarrow> bool list \<Rightarrow> 'a \<Rightarrow> 'a" where
  "effects effect (op # ops) (ok # oks) a = effects effect ops oks (effect op ok a)"
| "effects effect _ _ a = a"

fun explained ::
  "('op \<Rightarrow> 's \<Rightarrow> ('s \<times> bool) option) \<Rightarrow> ('op \<Rightarrow> 'a \<Rightarrow> bool) \<Rightarrow> ('op \<Rightarrow> 's \<Rightarrow> bool) \<Rightarrow>
    ('op \<Rightarrow> bool \<Rightarrow> 'a \<Rightarrow> 'a) \<Rightarrow> 'op list \<Rightarrow> bool list \<Rightarrow> 's \<Rightarrow> 'a \<Rightarrow> bool" where
  "explained step accepts refuses effect [] oks s a = (oks = [])"
| "explained step accepts refuses effect (op # ops) [] s a = False"
| "explained step accepts refuses effect (op # ops) (ok # oks) s a =
     (ok = (accepts op a \<and> \<not> refuses op s) \<and>
      (case step op s of None \<Rightarrow> False
       | Some (s', _) \<Rightarrow> explained step accepts refuses effect ops oks s' (effect op ok a)))"

text \<open>\<open>rep s a\<close>: the object is in a consistent state \<open>s\<close> of abstract value \<open>a\<close>. \<open>valid op\<close>: the arguments
  are ones the operation may be given. \<open>accepts op a\<close>: the arguments are in range. \<open>refuses op s\<close>: the
  memory refuses the request that the operation makes in the state \<open>s\<close>.\<close>

locale growable =
  fixes rep :: "'s \<Rightarrow> 'a \<Rightarrow> bool"
    and step :: "'op \<Rightarrow> 's \<Rightarrow> ('s \<times> bool) option"
    and valid :: "'op \<Rightarrow> bool"
    and accepts :: "'op \<Rightarrow> 'a \<Rightarrow> bool"
    and refuses :: "'op \<Rightarrow> 's \<Rightarrow> bool"
    and effect :: "'op \<Rightarrow> bool \<Rightarrow> 'a \<Rightarrow> 'a"
  assumes step_defined: "rep s a \<Longrightarrow> valid op \<Longrightarrow>
      \<exists>s'. step op s = Some (s', accepts op a \<and> \<not> refuses op s) \<and>
        rep s' (effect op (accepts op a \<and> \<not> refuses op s) a)"
begin

lemma run_defined:
  assumes "rep s a" and "list_all valid ops"
  shows "\<exists>s' oks. run_ops step ops s = Some (s', oks) \<and> rep s' (effects effect ops oks a) \<and>
    explained step accepts refuses effect ops oks s a"
  using assms
proof (induction ops arbitrary: s a)
  case (Cons op ops)
  let ?ok = "accepts op a \<and> \<not> refuses op s"
  from step_defined [OF Cons.prems(1), of op] Cons.prems(2) obtain s1 where
    s1: "step op s = Some (s1, ?ok)" "rep s1 (effect op ?ok a)" by auto
  from Cons.IH [OF s1(2)] Cons.prems(2) obtain s2 oks where
    "run_ops step ops s1 = Some (s2, oks)" "rep s2 (effects effect ops oks (effect op ?ok a))"
    "explained step accepts refuses effect ops oks s1 (effect op ?ok a)" by auto
  with s1(1) show ?case
    by (intro exI [of _ s2] exI [of _ "?ok # oks"]) (simp del: de_Morgan_conj)
qed simp

end

end
