(* ===== verification/Vector.thy ===== *)
theory Vector
  imports Contract "HOL-Library.Multiset"
begin

text \<open>
  \<^verbatim>\<open>Library/Containers/Vector.hpp\<close> over \<^verbatim>\<open>Library/Containers/Span.hpp\<close> and the allocation
  of \<^verbatim>\<open>Memory/AllocatorStub\<close>.

  A vector is its storage slot by slot, its size and its capacity. A slot is \<^term>\<open>None\<close> while it
  is raw memory and \<open>Some x\<close> while it holds the constructed object \<open>x\<close>: the element operations are
  the source's \<open>Construct\<close>, \<open>Destroy\<close>, read and assignment of one slot, each without a result on a
  slot in the wrong state (a read or an assignment of raw memory, a second destruction, and also a
  construction over a live object, which would leak it). A move leaves the value behind until the
  slot is destroyed or assigned, as it does for a trivially copyable type. The vector operations
  are the source's loops over these, so that a theorem that an operation has a result says that
  it never touches a slot outside the storage or in the wrong state.
\<close>

section \<open>Slots\<close>

definition construct_at :: "'a option list \<Rightarrow> nat \<Rightarrow> 'a \<Rightarrow> 'a option list option" where
  "construct_at sl i x = (if i < length sl \<and> sl ! i = None then Some (sl[i := Some x]) else None)"

definition destroy_at :: "'a option list \<Rightarrow> nat \<Rightarrow> 'a option list option" where
  "destroy_at sl i = (if i < length sl \<and> sl ! i \<noteq> None then Some (sl[i := None]) else None)"

definition read_at :: "'a option list \<Rightarrow> nat \<Rightarrow> 'a option" where
  "read_at sl i = (if i < length sl then sl ! i else None)"

definition assign_at :: "'a option list \<Rightarrow> nat \<Rightarrow> 'a \<Rightarrow> 'a option list option" where
  "assign_at sl i x = (if i < length sl \<and> sl ! i \<noteq> None then Some (sl[i := Some x]) else None)"

text \<open>\<^verbatim>\<open>Construct(to + dst, move(from[src])); Destroy(from + src)\<close> within one storage.\<close>

definition relocate_at :: "'a option list \<Rightarrow> nat \<Rightarrow> nat \<Rightarrow> 'a option list option" where
  "relocate_at sl src dst =
     do { x \<leftarrow> read_at sl src; sl \<leftarrow> construct_at sl dst x; destroy_at sl src }"

section \<open>The vector\<close>

text \<open>\<open>Data_\<close> is null exactly when \<open>Capacity_\<close> is 0. \<open>buffer\<close> names the storage \<open>Data_\<close> points to: it
  changes when the storage does. \<open>esize\<close> is \<^verbatim>\<open>sizeof(T)\<close>, \<open>has_alloc\<close> whether \<open>Allocator_\<close> is valid.\<close>

record 'a vec =
  slots :: "'a option list"
  vsize :: nat
  vcap :: nat
  buffer :: nat
  esize :: nat
  has_alloc :: bool

definition vec_empty :: "nat \<Rightarrow> bool \<Rightarrow> 'a vec" where
  "vec_empty sz al = \<lparr>slots = [], vsize = 0, vcap = 0, buffer = 0, esize = sz, has_alloc = al\<rparr>"

text \<open>A parameter of type \<^verbatim>\<open>const T&\<close> is a temporary or an element of a vector: \<open>Elem b i\<close> is slot \<open>i\<close>
  of storage \<open>b\<close>. Reading a reference into a storage that has been freed has no result.\<close>

datatype 'a cref = Temp 'a | Elem nat nat

fun deref :: "'a vec \<Rightarrow> 'a cref \<Rightarrow> 'a option" where
  "deref v (Temp x) = Some x"
| "deref v (Elem b i) = (if b = buffer v then read_at (slots v) i else None)"

text \<open>\<open>alloc n\<close>: the allocator's backend, or the firmware pool behind \<^verbatim>\<open>operator new\<close>, has \<open>n\<close> bytes.
  \<^verbatim>\<open>operator new\<close> is not checked for overflow and loops forever when there is no memory (no
  result). The inner option is the returned pointer, with the number of elements that fit.\<close>

definition vec_Allocate :: "(nat \<Rightarrow> bool) \<Rightarrow> 'a vec \<Rightarrow> nat \<Rightarrow> nat option option" where
  "vec_Allocate alloc v n =
     (if n = 0 then Some None
      else if has_alloc v then
        (if n > size_max div esize v then Some None
         else if alloc (n * esize v) then Some (Some n) else Some None)
      else
        (let bytes = usz (n * esize v)
         in if bytes \<noteq> 0 \<and> alloc bytes then Some (Some (bytes div esize v)) else None))"

definition destroy_range :: "nat \<Rightarrow> nat \<Rightarrow> 'a option list \<Rightarrow> 'a option list option" where
  "destroy_range first stop = for_up first stop (\<lambda>i sl. destroy_at sl i)"

definition vec_Reallocate :: "(nat \<Rightarrow> bool) \<Rightarrow> 'a vec \<Rightarrow> nat \<Rightarrow> ('a vec \<times> bool) option" where
  "vec_Reallocate alloc v n =
     do { data \<leftarrow> vec_Allocate alloc v n;
          case data of None \<Rightarrow> Some (v, False)
          | Some room \<Rightarrow>
              do { (old, new) \<leftarrow> for_up 0 (vsize v)
                     (\<lambda>i (old, new).
                        do { x \<leftarrow> read_at old i;
                             new \<leftarrow> construct_at new i x;
                             old \<leftarrow> destroy_at old i;
                             Some (old, new) })
                     (slots v, replicate room None);
                   Some (v\<lparr>slots := new, vcap := n, buffer := buffer v + 1\<rparr>, True) } }"

definition vec_Reserve :: "(nat \<Rightarrow> bool) \<Rightarrow> 'a vec \<Rightarrow> nat \<Rightarrow> ('a vec \<times> bool) option" where
  "vec_Reserve alloc v n = (if n \<le> vcap v then Some (v, True) else vec_Reallocate alloc v n)"

definition vec_EnsureCapacityForOneMore ::
  "(nat \<Rightarrow> bool) \<Rightarrow> 'a vec \<Rightarrow> ('a vec \<times> bool) option" where
  "vec_EnsureCapacityForOneMore alloc v =
     (if vsize v < vcap v then Some (v, True)
      else vec_Reserve alloc v (if vcap v \<noteq> 0 then usz (vcap v * 2) else 8))"

definition vec_Clear :: "'a vec \<Rightarrow> 'a vec option" where
  "vec_Clear v =
     do { sl \<leftarrow> destroy_range 0 (vsize v) (slots v); Some (v\<lparr>slots := sl, vsize := 0\<rparr>) }"

definition vec_Release :: "'a vec \<Rightarrow> 'a vec option" where
  "vec_Release v =
     do { v \<leftarrow> vec_Clear v; Some (v\<lparr>slots := [], vcap := 0, buffer := buffer v + 1\<rparr>) }"

text \<open>\<open>Resize(NewSize, Value)\<close>; \<open>Resize(NewSize)\<close> constructs \<^verbatim>\<open>T()\<close>, a temporary.\<close>

definition vec_Resize ::
  "(nat \<Rightarrow> bool) \<Rightarrow> 'a vec \<Rightarrow> nat \<Rightarrow> 'a cref \<Rightarrow> ('a vec \<times> bool) option" where
  "vec_Resize alloc v n r =
     (if n < vsize v then
        do { sl \<leftarrow> destroy_range n (vsize v) (slots v);
             Some (v\<lparr>slots := sl, vsize := n\<rparr>, True) }
      else
        do { (v, ok) \<leftarrow> vec_Reserve alloc v n;
             if \<not> ok then Some (v, False)
             else
               do { v \<leftarrow> for_up (vsize v) n
                      (\<lambda>i v. do { x \<leftarrow> deref v r;
                                  sl \<leftarrow> construct_at (slots v) (vsize v) x;
                                  Some (v\<lparr>slots := sl, vsize := vsize v + 1\<rparr>) }) v;
                    Some (v, True) } })"

definition vec_PushBack :: "(nat \<Rightarrow> bool) \<Rightarrow> 'a vec \<Rightarrow> 'a cref \<Rightarrow> ('a vec \<times> bool) option" where
  "vec_PushBack alloc v r =
     do { (v, ok) \<leftarrow> vec_EnsureCapacityForOneMore alloc v;
          if \<not> ok then Some (v, False)
          else
            do { x \<leftarrow> deref v r;
                 sl \<leftarrow> construct_at (slots v) (vsize v) x;
                 Some (v\<lparr>slots := sl, vsize := vsize v + 1\<rparr>, True) } }"

definition vec_PopBack :: "'a vec \<Rightarrow> ('a vec \<times> bool) option" where
  "vec_PopBack v =
     (if vsize v = 0 then Some (v, False)
      else
        do { sl \<leftarrow> destroy_at (slots v) (vsize v - 1);
             Some (v\<lparr>slots := sl, vsize := vsize v - 1\<rparr>, True) })"

text \<open>A span argument is the list of references to its elements.\<close>

definition vec_Assign ::
  "(nat \<Rightarrow> bool) \<Rightarrow> 'a vec \<Rightarrow> 'a cref list \<Rightarrow> ('a vec \<times> bool) option" where
  "vec_Assign alloc v rs =
     do { v \<leftarrow> vec_Clear v;
          (v, ok) \<leftarrow> vec_Reserve alloc v (length rs);
          if \<not> ok then Some (v, False)
          else
            do { v \<leftarrow> for_up 0 (length rs)
                   (\<lambda>i v. do { x \<leftarrow> deref v (rs ! i);
                               sl \<leftarrow> construct_at (slots v) i x;
                               Some (v\<lparr>slots := sl\<rparr>) }) v;
                 Some (v\<lparr>vsize := length rs\<rparr>, True) } }"

definition vec_Append ::
  "(nat \<Rightarrow> bool) \<Rightarrow> 'a vec \<Rightarrow> 'a cref list \<Rightarrow> ('a vec \<times> bool) option" where
  "vec_Append alloc v rs =
     do { (v, ok) \<leftarrow> vec_Reserve alloc v (usz (vsize v + length rs));
          if \<not> ok then Some (v, False)
          else
            do { v \<leftarrow> for_up 0 (length rs)
                   (\<lambda>i v. do { x \<leftarrow> deref v (rs ! i);
                               sl \<leftarrow> construct_at (slots v) (vsize v) x;
                               Some (v\<lparr>slots := sl, vsize := vsize v + 1\<rparr>) }) v;
                 Some (v, True) } }"

definition vec_Insert ::
  "(nat \<Rightarrow> bool) \<Rightarrow> 'a vec \<Rightarrow> nat \<Rightarrow> 'a cref \<Rightarrow> ('a vec \<times> bool) option" where
  "vec_Insert alloc v index r =
     (if index > vsize v then Some (v, False)
      else
        do { (v, ok) \<leftarrow> vec_EnsureCapacityForOneMore alloc v;
             if \<not> ok then Some (v, False)
             else
               do { sl \<leftarrow> for_down (vsize v) index (\<lambda>i sl. relocate_at sl (i - 1) i) (slots v);
                    x \<leftarrow> deref (v\<lparr>slots := sl\<rparr>) r;
                    sl \<leftarrow> construct_at sl index x;
                    Some (v\<lparr>slots := sl, vsize := vsize v + 1\<rparr>, True) } })"

definition vec_Erase :: "'a vec \<Rightarrow> nat \<Rightarrow> ('a vec \<times> bool) option" where
  "vec_Erase v index =
     (if index \<ge> vsize v then Some (v, False)
      else
        do { sl \<leftarrow> destroy_at (slots v) index;
             sl \<leftarrow> for_up index (vsize v - 1) (\<lambda>i sl. relocate_at sl (i + 1) i) sl;
             Some (v\<lparr>slots := sl, vsize := vsize v - 1\<rparr>, True) })"

definition vec_EraseRange :: "'a vec \<Rightarrow> nat \<Rightarrow> nat \<Rightarrow> ('a vec \<times> bool) option" where
  "vec_EraseRange v index n =
     (if index \<ge> vsize v then Some (v, False)
      else
        let cnt = (if usz (index + n) > vsize v then vsize v - index else n)
        in do { sl \<leftarrow> for_up 0 cnt (\<lambda>i sl. destroy_at sl (index + i)) (slots v);
                sl \<leftarrow> for_up index (vsize v - cnt) (\<lambda>i sl. relocate_at sl (i + cnt) i) sl;
                Some (v\<lparr>slots := sl, vsize := vsize v - cnt\<rparr>, True) })"

definition vec_Swap :: "'a vec \<Rightarrow> 'a vec \<Rightarrow> 'a vec \<times> 'a vec" where
  "vec_Swap v w = (w, v)"

definition vec_ShrinkToFit :: "(nat \<Rightarrow> bool) \<Rightarrow> 'a vec \<Rightarrow> ('a vec \<times> bool) option" where
  "vec_ShrinkToFit alloc v =
     (if vsize v = vcap v then Some (v, True)
      else if vsize v = 0 then do { v \<leftarrow> vec_Release v; Some (v, True) }
      else vec_Reallocate alloc v (vsize v))"

section \<open>Searching, filtering and ordering\<close>

text \<open>\<open>RemoveIf\<close> compacts the kept elements to the front by assignment, then pops the rest.\<close>

definition vec_RemoveIf :: "('a \<Rightarrow> bool) \<Rightarrow> 'a vec \<Rightarrow> ('a vec \<times> nat) option" where
  "vec_RemoveIf p v =
     do { (sl, write) \<leftarrow> for_up 0 (vsize v)
            (\<lambda>rd (sl, write).
               do { x \<leftarrow> read_at sl rd;
                    if \<not> p x then
                      do { sl \<leftarrow> (if write \<noteq> rd then assign_at sl write x else Some sl);
                           Some (sl, write + 1) }
                    else Some (sl, write) })
            (slots v, 0);
          let removed = vsize v - write;
          v \<leftarrow> for_down (vsize v) write
                (\<lambda>_ v. do { (v, _) \<leftarrow> vec_PopBack v; Some v }) (v\<lparr>slots := sl\<rparr>);
          Some (v, removed) }"

definition vec_Remove :: "'a \<Rightarrow> 'a vec \<Rightarrow> ('a vec \<times> nat) option" where
  "vec_Remove x v = vec_RemoveIf (\<lambda>y. y = x) v"

definition vec_Reverse :: "'a vec \<Rightarrow> 'a vec option" where
  "vec_Reverse v =
     do { sl \<leftarrow> for_up 0 (vsize v div 2)
            (\<lambda>i sl. do { temp \<leftarrow> read_at sl i;
                         y \<leftarrow> read_at sl (vsize v - 1 - i);
                         sl \<leftarrow> assign_at sl i y;
                         assign_at sl (vsize v - 1 - i) temp }) (slots v);
          Some (v\<lparr>slots := sl\<rparr>) }"

text \<open>The inner loop of \<open>Sort\<close>: \<^verbatim>\<open>while (j > 0 && Compare(Key, Data_[j - 1]))\<close>.\<close>

fun sort_shift :: "('a \<Rightarrow> 'a \<Rightarrow> bool) \<Rightarrow> 'a \<Rightarrow> nat \<Rightarrow> 'a option list \<Rightarrow> (nat \<times> 'a option list) option" where
  "sort_shift compare key 0 sl = Some (0, sl)"
| "sort_shift compare key (Suc j) sl =
     do { y \<leftarrow> read_at sl j;
          if compare key y then do { sl \<leftarrow> assign_at sl (Suc j) y; sort_shift compare key j sl }
          else Some (Suc j, sl) }"

definition vec_Sort :: "('a \<Rightarrow> 'a \<Rightarrow> bool) \<Rightarrow> 'a vec \<Rightarrow> 'a vec option" where
  "vec_Sort compare v =
     do { sl \<leftarrow> for_up 1 (vsize v)
            (\<lambda>i sl. do { key \<leftarrow> read_at sl i;
                         (j, sl) \<leftarrow> sort_shift compare key i sl;
                         assign_at sl j key }) (slots v);
          Some (v\<lparr>slots := sl\<rparr>) }"

function lower_bound_loop ::
  "('a::linorder) option list \<Rightarrow> 'a \<Rightarrow> nat \<Rightarrow> nat \<Rightarrow> nat option" where
  "lower_bound_loop sl x first cnt =
     (if cnt > 0 then
        do { y \<leftarrow> read_at sl (first + cnt div 2);
             if y < x then lower_bound_loop sl x (first + cnt div 2 + 1) (cnt - (cnt div 2 + 1))
             else lower_bound_loop sl x first (cnt div 2) }
      else Some first)"
  by pat_completeness auto
termination
  by (relation "measure (\<lambda>(sl, x, first, cnt). cnt)") auto

definition vec_LowerBound :: "('a::linorder) vec \<Rightarrow> 'a \<Rightarrow> nat option" where
  "vec_LowerBound v x = lower_bound_loop (slots v) x 0 (vsize v)"

definition vec_BinarySearch :: "('a::linorder) vec \<Rightarrow> 'a \<Rightarrow> bool option" where
  "vec_BinarySearch v x =
     do { index \<leftarrow> vec_LowerBound v x;
          if index < vsize v then
            do { y \<leftarrow> read_at (slots v) index; Some (\<not> x < y \<and> \<not> y < x) }
          else Some False }"

text \<open>\<open>Find\<close> and \<open>==\<close> are the span's, over the elements.\<close>

definition vec_items :: "'a vec \<Rightarrow> 'a list" where
  "vec_items v = map the (take (vsize v) (slots v))"

fun span_find_from :: "'a list \<Rightarrow> 'a \<Rightarrow> nat \<Rightarrow> nat" where
  "span_find_from [] x i = NotFound"
| "span_find_from (y # ys) x i = (if y = x then i else span_find_from ys x (Suc i))"

definition span_Find :: "'a list \<Rightarrow> 'a \<Rightarrow> nat \<Rightarrow> nat" where
  "span_Find xs x pos =
     (if pos \<ge> length xs then NotFound else span_find_from (drop pos xs) x pos)"

definition vec_Find :: "'a vec \<Rightarrow> 'a \<Rightarrow> nat \<Rightarrow> nat" where
  "vec_Find v x pos = span_Find (vec_items v) x pos"

definition vec_Contains :: "'a vec \<Rightarrow> 'a \<Rightarrow> bool" where
  "vec_Contains v x = (vec_Find v x 0 \<noteq> NotFound)"

definition vec_At :: "'a vec \<Rightarrow> nat \<Rightarrow> 'a option" where
  "vec_At v i = (if i \<ge> vsize v then None else read_at (slots v) i)"

section \<open>Slots as functions of the index\<close>

text \<open>Storage with \<open>c\<close> slots is written \<open>map F [0..<c]\<close>; each slot operation updates \<open>F\<close>.\<close>

named_theorems slot_ops

lemma map_upd_slot:
  "i < c \<Longrightarrow> (map F [0..<c])[i := y] = map (F(i := y)) [0..<c]"
  by (rule nth_equalityI) (auto simp: nth_list_update)

lemma construct_slot [slot_ops]:
  "construct_at (map F [0..<c]) i x =
     (if i < c \<and> F i = None then Some (map (F(i := Some x)) [0..<c]) else None)"
  by (auto simp: construct_at_def map_upd_slot)

lemma destroy_slot [slot_ops]:
  "destroy_at (map F [0..<c]) i =
     (if i < c \<and> F i \<noteq> None then Some (map (F(i := None)) [0..<c]) else None)"
  by (auto simp: destroy_at_def map_upd_slot)

lemma read_slot [slot_ops]:
  "read_at (map F [0..<c]) i = (if i < c then F i else None)"
  by (simp add: read_at_def)

lemma assign_slot [slot_ops]:
  "assign_at (map F [0..<c]) i x =
     (if i < c \<and> F i \<noteq> None then Some (map (F(i := Some x)) [0..<c]) else None)"
  by (auto simp: assign_at_def map_upd_slot)

lemma relocate_slot [slot_ops]:
  "F d = None \<Longrightarrow> F s = Some x \<Longrightarrow> s < c \<Longrightarrow> d < c \<Longrightarrow>
     relocate_at (map F [0..<c]) s d = Some (map (F(d := Some x, s := None)) [0..<c])"
  by (auto simp: relocate_at_def slot_ops)

lemma map_slots_cong: "(\<And>i. i < c \<Longrightarrow> F i = G i) \<Longrightarrow> map F [0..<c] = map G [0..<c]"
  by simp

lemma destroy_range_slots:
  assumes "a \<le> b" and "b \<le> c" and "\<And>i. a \<le> i \<Longrightarrow> i < b \<Longrightarrow> F i \<noteq> None"
  shows "destroy_range a b (map F [0..<c]) =
    Some (map (\<lambda>k. if a \<le> k \<and> k < b then None else F k) [0..<c])"
proof -
  let ?I = "\<lambda>i sl. sl = map (\<lambda>k. if a \<le> k \<and> k < i then None else F k) [0..<c]"
  have "\<exists>sl'. for_up a b (\<lambda>i sl. destroy_at sl i) (map F [0..<c]) = Some sl' \<and> ?I b sl'"
  proof (rule for_up_rule [where I = ?I])
    fix i sl assume "a \<le> i" "i < b" "?I i sl"
    with assms show "\<exists>s'. destroy_at sl i = Some s' \<and> ?I (Suc i) s'"
      by (auto simp: slot_ops intro!: map_slots_cong)
  qed (use assms in \<open>auto intro!: map_slots_cong\<close>)
  then show ?thesis by (simp add: destroy_range_def)
qed

section \<open>Representation\<close>

text \<open>\<open>live xs\<close> is the storage content of a vector with the elements \<open>xs\<close>: the elements at the front,
  raw memory behind. \<open>vec_rep v xs\<close> is the class invariant together with the elements.\<close>

definition live :: "'a list \<Rightarrow> nat \<Rightarrow> 'a option" where
  "live xs k = (if k < length xs then Some (xs ! k) else None)"

definition vec_rep :: "'a vec \<Rightarrow> 'a list \<Rightarrow> bool" where
  "vec_rep v xs \<longleftrightarrow> slots v = map (live xs) [0..<vcap v] \<and> vsize v = length xs \<and>
     length xs \<le> vcap v \<and> vcap v < 2 ^ 64 \<and> 0 < esize v"

lemma vec_repD:
  assumes "vec_rep v xs"
  shows "slots v = map (live xs) [0..<vcap v]" "vsize v = length xs" "length xs \<le> vcap v"
    "vcap v < 2 ^ 64" "0 < esize v"
  using assms by (auto simp: vec_rep_def)

lemma vec_rep_empty: "0 < sz \<Longrightarrow> vec_rep (vec_empty sz al) []"
  by (simp add: vec_rep_def vec_empty_def)

lemma vec_rep_items: "vec_rep v xs \<Longrightarrow> vec_items v = xs"
  by (auto simp: vec_rep_def vec_items_def take_map live_def intro!: nth_equalityI)

lemma vec_rep_unique: "vec_rep v xs \<Longrightarrow> vec_rep v ys \<Longrightarrow> xs = ys"
  by (metis vec_rep_items)

section \<open>Allocation\<close>

text \<open>Room for \<open>n\<close> elements does not wrap: \<open>n * sizeof(T)\<close> is a size. The checked allocator path
  refuses anything else, the unchecked one does not.\<close>

definition fits :: "'a vec \<Rightarrow> nat \<Rightarrow> bool" where
  "fits v n \<longleftrightarrow> has_alloc v \<or> n * esize v < 2 ^ 64"

lemma fits_bound: "0 < esize v \<Longrightarrow> n * esize v < 2 ^ 64 \<Longrightarrow> n < 2 ^ 64"
  by (metis le_less_trans less_eq_Suc_le mult.commute mult_le_mono2 mult_numeral_1_right nat_mult_1 numeral_1_eq_Suc_0 numerals(1))

lemma vec_Allocate_cases:
  assumes "0 < esize v" and "n \<noteq> 0" and "fits v n" and "vec_Allocate alloc v n \<noteq> None"
  shows "vec_Allocate alloc v n = Some None \<or>
    vec_Allocate alloc v n = Some (Some n) \<and> n < 2 ^ 64 \<and> alloc (n * esize v)"
proof (cases "has_alloc v")
  case True
  have "n < 2 ^ 64" if "n \<le> size_max div esize v"
  proof (rule fits_bound [OF assms(1)])
    show "n * esize v < 2 ^ 64"
      using that assms(1) by (simp add: less_eq_div_iff_mult_less_eq size_max_def)
  qed
  with True assms(2) show ?thesis
    by (simp add: vec_Allocate_def not_less del: power_numeral)
next
  case False
  with assms(3) have "n * esize v < 2 ^ 64" by (simp add: fits_def)
  with False assms fits_bound [OF assms(1) this] show ?thesis
    by (auto simp: vec_Allocate_def Let_def simp del: power_numeral split: if_splits)
qed

text \<open>An operation asks the allocator at most once, for a number of elements that depends on the vector:
  \<open>request_more v n\<close> when it needs room for \<open>n\<close> elements, \<open>request_one v\<close> when it needs room for one more
  (capacity 8 at first, doubled afterwards). \<open>starved alloc v r\<close>: the request \<open>r\<close> is made and the
  allocator has no memory for it. \<open>vec_same\<close>: same element size, same allocator, and a capacity that
  stays below any bound of the memory.\<close>

definition grown :: "'a vec \<Rightarrow> nat" where
  "grown v = (if vcap v \<noteq> 0 then usz (vcap v * 2) else 8)"

definition request_more :: "'a vec \<Rightarrow> nat \<Rightarrow> nat option" where
  "request_more v n = (if vcap v < n then Some n else None)"

definition request_one :: "'a vec \<Rightarrow> nat option" where
  "request_one v = (if vsize v = vcap v then Some (grown v) else None)"

definition starved :: "(nat \<Rightarrow> bool) \<Rightarrow> 'a vec \<Rightarrow> nat option \<Rightarrow> bool" where
  "starved alloc v r \<longleftrightarrow> (\<exists>n. r = Some n \<and> vec_Allocate alloc v n = Some None)"

lemma starved_simps [simp]:
  "starved alloc v None = False"
  "starved alloc v (Some n) = (vec_Allocate alloc v n = Some None)"
  by (simp_all add: starved_def)

definition vec_same :: "(nat \<Rightarrow> bool) \<Rightarrow> 'a vec \<Rightarrow> 'a vec \<Rightarrow> bool" where
  "vec_same alloc v v' \<longleftrightarrow> esize v' = esize v \<and> has_alloc v' = has_alloc v \<and>
     (\<forall>m. vcap v < m \<longrightarrow> (\<forall>n. alloc n \<longrightarrow> n < m) \<longrightarrow> vcap v' < m)"

lemma vec_same_refl [simp]: "vec_same alloc v v"
  by (simp add: vec_same_def)

lemma vec_same_trans: "vec_same alloc u v \<Longrightarrow> vec_same alloc v w \<Longrightarrow> vec_same alloc u w"
  by (simp add: vec_same_def)

lemma vec_same_cap:
  "esize v' = esize v \<Longrightarrow> has_alloc v' = has_alloc v \<Longrightarrow> vcap v' \<le> vcap v \<Longrightarrow> vec_same alloc v v'"
  by (auto simp: vec_same_def)

text \<open>\<open>vec_kept\<close>: the storage is the same one.\<close>

definition vec_kept :: "'a vec \<Rightarrow> 'a vec \<Rightarrow> bool" where
  "vec_kept v v' \<longleftrightarrow> esize v' = esize v \<and> has_alloc v' = has_alloc v \<and> vcap v' = vcap v"

lemma vec_kept_refl [simp]: "vec_kept v v"
  by (simp add: vec_kept_def)

lemma vec_kept_same: "vec_kept v v' \<Longrightarrow> vec_same alloc v v'"
  by (simp add: vec_kept_def vec_same_def)

lemma vec_same_grow:
  assumes "esize v' = esize v" "has_alloc v' = has_alloc v" "alloc (vcap v' * esize v)" "0 < esize v"
  shows "vec_same alloc v v'"
proof -
  from assms(4) have "vcap v' \<le> vcap v' * esize v" by simp
  with assms(3) have "(\<forall>n. alloc n \<longrightarrow> n < m) \<longrightarrow> vcap v' < m" for m
    using order.strict_trans1 by blast
  with assms(1,2) show ?thesis by (auto simp: vec_same_def)
qed

text \<open>\<open>Reallocate\<close> either reports that there is no memory and changes nothing, or moves the elements
  into fresh storage of the requested capacity and leaves the old storage raw.\<close>

lemma reallocate_moves:
  assumes "length xs \<le> c" and "length xs \<le> n"
  shows "\<exists>st. for_up 0 (length xs)
      (\<lambda>i (old, new).
         do { x \<leftarrow> read_at old i;
              new \<leftarrow> construct_at new i x;
              old \<leftarrow> destroy_at old i;
              Some (old, new) })
      (map (live xs) [0..<c], replicate n None) = Some st \<and>
    st = (replicate c None, map (live xs) [0..<n])"
proof -
  let ?I = "\<lambda>i st. st = (map (\<lambda>k. if k < i then None else live xs k) [0..<c],
      map (\<lambda>k. if k < i then live xs k else None) [0..<n])"
  have "\<exists>st. for_up 0 (length xs)
      (\<lambda>i (old, new).
         do { x \<leftarrow> read_at old i;
              new \<leftarrow> construct_at new i x;
              old \<leftarrow> destroy_at old i;
              Some (old, new) })
      (map (live xs) [0..<c], replicate n None) = Some st \<and> ?I (length xs) st"
  proof (rule for_up_rule [where I = ?I])
    show "?I 0 (map (live xs) [0..<c], replicate n None)"
      by (auto intro!: nth_equalityI)
  next
    fix i st assume "i < length xs" "?I i st"
    then show "\<exists>st'. (case st of (old, new) \<Rightarrow>
         do { x \<leftarrow> read_at old i;
              new \<leftarrow> construct_at new i x;
              old \<leftarrow> destroy_at old i;
              Some (old, new) }) = Some st' \<and> ?I (Suc i) st'"
      using assms by (auto simp: slot_ops live_def intro!: map_slots_cong)
  qed simp
  moreover have "map (\<lambda>k. if k < length xs then None else live xs k) [0..<c] = replicate c None"
    by (auto simp: live_def intro!: nth_equalityI)
  moreover have "map (\<lambda>k. if k < length xs then live xs k else None) [0..<n] = map (live xs) [0..<n]"
    by (auto simp: live_def)
  ultimately show ?thesis by simp
qed

lemma vec_Reallocate_rep:
  assumes "vec_rep v xs" and "length xs \<le> n" and "n \<noteq> 0" and "fits v n"
    and "vec_Allocate alloc v n \<noteq> None"
  shows "vec_Reallocate alloc v n = Some (v, False) \<and> starved alloc v (Some n) \<or>
    (\<exists>v'. vec_Reallocate alloc v n = Some (v', True) \<and> vec_rep v' xs \<and> vcap v' = n \<and>
       vec_same alloc v v' \<and> buffer v' = buffer v + 1 \<and> \<not> starved alloc v (Some n))"
proof -
  note r = vec_repD [OF assms(1)]
  consider "vec_Allocate alloc v n = Some None"
    | "vec_Allocate alloc v n = Some (Some n)" "n < 2 ^ 64" "alloc (n * esize v)"
    using vec_Allocate_cases [OF r(5) assms(3-5)] by blast
  then show ?thesis
  proof cases
    case 1
    with assms(3) show ?thesis by (auto simp: vec_Reallocate_def)
  next
    case 2
    let ?v = "v\<lparr>slots := map (live xs) [0..<n], vcap := n, buffer := buffer v + 1\<rparr>"
    have "vec_Reallocate alloc v n = Some (?v, True)"
      using reallocate_moves [OF r(3) assms(2)] 2 by (simp add: vec_Reallocate_def r(1,2))
    moreover have "vec_same alloc v ?v" by (rule vec_same_grow) (use 2 r(5) in auto)
    ultimately show ?thesis using 2 assms(2) r(2,5) by (auto simp: vec_rep_def)
  qed
qed

section \<open>What the operations do to the elements\<close>

text \<open>\<open>vec_step v r xs ys\<close>: the result \<open>r\<close> of an operation on a vector \<open>v\<close> with the elements \<open>xs\<close> is
  either a reported failure that changes nothing, or a vector with the elements \<open>ys\<close> in the same
  allocator. \<open>room alloc v n\<close>: growing to \<open>n\<close> elements neither wraps \<open>n * sizeof(T)\<close> nor ends in the
  endless loop of \<^verbatim>\<open>operator new\<close>.\<close>

definition room :: "(nat \<Rightarrow> bool) \<Rightarrow> 'a vec \<Rightarrow> nat \<Rightarrow> bool" where
  "room alloc v n \<longleftrightarrow> fits v n \<and> vec_Allocate alloc v n \<noteq> None"

text \<open>With a valid allocator every request is answered: no endless loop, no wrap.\<close>

lemma room_allocator: "has_alloc v \<Longrightarrow> room alloc v n"
  by (simp add: room_def fits_def vec_Allocate_def)

lemma vec_Reserve_rep:
  assumes "vec_rep v xs" and "vcap v < n \<longrightarrow> room alloc v n"
  shows "vec_Reserve alloc v n = Some (v, False) \<and> vcap v < n \<and> starved alloc v (request_more v n) \<or>
    (\<exists>v'. vec_Reserve alloc v n = Some (v', True) \<and> vec_rep v' xs \<and> n \<le> vcap v' \<and>
       vec_same alloc v v' \<and> (n \<le> vcap v \<longrightarrow> v' = v) \<and>
       (vcap v < n \<longrightarrow> vcap v' = n \<and> buffer v' = buffer v + 1) \<and> \<not> starved alloc v (request_more v n))"
proof (cases "n \<le> vcap v")
  case True
  with assms(1) show ?thesis by (simp add: vec_Reserve_def request_more_def)
next
  case False
  with assms vec_repD(3) [OF assms(1)]
  have "length xs \<le> n" "n \<noteq> 0" "fits v n" "vec_Allocate alloc v n \<noteq> None"
    by (auto simp: room_def)
  from vec_Reallocate_rep [OF assms(1) this] False show ?thesis
    by (auto simp: vec_Reserve_def request_more_def)
qed

text \<open>Room for one more: capacity 8 at first, doubled afterwards.\<close>

lemma vec_Ensure_rep:
  assumes "vec_rep v xs" and "length xs = vcap v \<longrightarrow> room alloc v (grown v)"
    and "length xs = vcap v \<longrightarrow> 2 * vcap v < 2 ^ 64"
  shows "vec_EnsureCapacityForOneMore alloc v = Some (v, False) \<and> length xs = vcap v \<and>
      starved alloc v (request_one v) \<or>
    (\<exists>v'. vec_EnsureCapacityForOneMore alloc v = Some (v', True) \<and> vec_rep v' xs \<and>
       length xs < vcap v' \<and> vec_same alloc v v' \<and> (length xs < vcap v \<longrightarrow> v' = v) \<and>
       (length xs = vcap v \<longrightarrow> vcap v' = grown v \<and> buffer v' = buffer v + 1) \<and>
       \<not> starved alloc v (request_one v))"
proof (cases "length xs < vcap v")
  case True
  with assms(1) show ?thesis
    by (simp add: vec_EnsureCapacityForOneMore_def vec_repD request_one_def)
next
  case False
  with vec_repD [OF assms(1)] have full: "vsize v = vcap v" "length xs = vcap v" by auto
  with assms(3) have g: "vcap v < grown v"
    by (auto simp: grown_def mult.commute)
  from full assms(2) have "vcap v < grown v \<longrightarrow> room alloc v (grown v)" by simp
  from vec_Reserve_rep [OF assms(1) this] g full show ?thesis
    by (auto simp: vec_EnsureCapacityForOneMore_def grown_def request_one_def request_more_def)
qed

text \<open>Constructing the next element appends it.\<close>

lemma construct_next:
  assumes "vec_rep v xs" and "length xs < vcap v"
  shows "construct_at (slots v) (vsize v) x = Some (map (live (xs @ [x])) [0..<vcap v])"
  using assms
  by (auto simp: vec_repD slot_ops live_def nth_append intro!: map_slots_cong)

lemma vec_rep_next:
  assumes "vec_rep v xs" and "length xs < vcap v"
  shows "vec_rep (v\<lparr>slots := map (live (xs @ [x])) [0..<vcap v], vsize := Suc (vsize v)\<rparr>) (xs @ [x])"
  using assms by (auto simp: vec_rep_def)

lemma vec_PushBack_rep:
  assumes "vec_rep v xs" and "length xs = vcap v \<longrightarrow> room alloc v (grown v)"
    and "length xs = vcap v \<longrightarrow> 2 * vcap v < 2 ^ 64"
  shows "vec_PushBack alloc v (Temp x) = Some (v, False) \<and> starved alloc v (request_one v) \<or>
    (\<exists>v'. vec_PushBack alloc v (Temp x) = Some (v', True) \<and> vec_rep v' (xs @ [x]) \<and>
       vec_same alloc v v' \<and> \<not> starved alloc v (request_one v))"
  using vec_Ensure_rep [OF assms]
proof (elim disjE exE conjE)
  fix v' assume v': "vec_EnsureCapacityForOneMore alloc v = Some (v', True)" "vec_rep v' xs"
    "length xs < vcap v'" "vec_same alloc v v'" "\<not> starved alloc v (request_one v)"
  then show ?thesis
    using vec_rep_next [OF v'(2,3), of x]
    by (simp add: vec_PushBack_def construct_next vec_same_def)
qed (simp add: vec_PushBack_def)

lemma vec_Clear_rep:
  assumes "vec_rep v xs"
  shows "\<exists>v'. vec_Clear v = Some v' \<and> vec_rep v' [] \<and> vec_kept v v' \<and>
    buffer v' = buffer v"
proof -
  note r = vec_repD [OF assms]
  have "destroy_range 0 (length xs) (map (live xs) [0..<vcap v]) =
      Some (map (\<lambda>k. if 0 \<le> k \<and> k < length xs then None else live xs k) [0..<vcap v])"
    using r by (intro destroy_range_slots) (auto simp: live_def)
  moreover have "(\<lambda>k. if 0 \<le> k \<and> k < length xs then None else live xs k) = live []"
    by (auto simp: live_def)
  ultimately show ?thesis
    using r by (simp add: vec_Clear_def vec_rep_def vec_kept_def)
qed

lemma vec_PopBack_rep:
  assumes "vec_rep v xs" and "xs \<noteq> []"
  shows "\<exists>v'. vec_PopBack v = Some (v', True) \<and> vec_rep v' (butlast xs) \<and> vec_kept v v'"
proof -
  note r = vec_repD [OF assms(1)]
  from assms(2) r(3) have "length xs - Suc 0 < vcap v" "0 < length xs" by (cases xs, auto)
  with assms r show ?thesis
    by (auto simp: vec_PopBack_def vec_rep_def slot_ops live_def vec_kept_def nth_butlast
        intro!: map_slots_cong)
qed

section \<open>Insertion and removal\<close>

text \<open>Shifting the tail up by one leaves a hole at the insertion point.\<close>

lemma shift_up:
  assumes "index \<le> length xs" and "length xs < c"
  shows "for_down (length xs) index (\<lambda>i sl. relocate_at sl (i - 1) i) (map (live xs) [0..<c]) =
    Some (map (\<lambda>k. if k < index then live xs k else if k = index then None else live xs (k - 1)) [0..<c])"
proof -
  let ?G = "\<lambda>i k. if k < i then live xs k else if k = i then None else live xs (k - 1)"
  let ?I = "\<lambda>i sl. sl = map (?G i) [0..<c]"
  have "\<exists>sl'. for_down (length xs) index (\<lambda>i sl. relocate_at sl (i - 1) i)
      (map (live xs) [0..<c]) = Some sl' \<and> ?I index sl'"
  proof (rule for_down_rule [where I = ?I])
    show "?I (length xs) (map (live xs) [0..<c])"
      by (auto simp: live_def intro!: map_slots_cong)
  next
    fix i sl assume i: "index < i" "i \<le> length xs" "?I i sl"
    have G: "?G i i = None" "?G i (i - 1) = Some (xs ! (i - 1))"
      using i by (auto simp: live_def)
    have "relocate_at sl (i - 1) i =
        Some (map ((?G i)(i := Some (xs ! (i - 1)), i - 1 := None)) [0..<c])"
      unfolding i(3) by (rule relocate_slot [OF G]) (use assms i in auto)
    moreover have "(?G i)(i := Some (xs ! (i - 1)), i - 1 := None) = ?G (i - 1)"
      using i(1,2) by (auto simp: fun_eq_iff live_def)
    ultimately show "\<exists>s'. relocate_at sl (i - 1) i = Some s' \<and> ?I (i - 1) s'" by simp
  qed (use assms in auto)
  then show ?thesis by simp
qed

lemma insert_slots:
  assumes "index \<le> length xs" and "length xs < c"
  shows "construct_at (map (\<lambda>k. if k < index then live xs k
      else if k = index then None else live xs (k - 1)) [0..<c]) index x =
    Some (map (live (take index xs @ x # drop index xs)) [0..<c])"
  using assms
  by (auto simp: slot_ops live_def nth_append nth_Cons' intro!: map_slots_cong)

lemma vec_Insert_rep:
  assumes "vec_rep v xs" and "index \<le> length xs"
    and "length xs = vcap v \<longrightarrow> room alloc v (grown v)"
    and "length xs = vcap v \<longrightarrow> 2 * vcap v < 2 ^ 64"
  shows "vec_Insert alloc v index (Temp x) = Some (v, False) \<and> starved alloc v (request_one v) \<or>
    (\<exists>v'. vec_Insert alloc v index (Temp x) = Some (v', True) \<and>
       vec_rep v' (take index xs @ x # drop index xs) \<and> vec_same alloc v v' \<and>
       \<not> starved alloc v (request_one v))"
  using vec_Ensure_rep [OF assms(1,3,4)]
proof (elim disjE exE conjE)
  fix v' assume v': "vec_EnsureCapacityForOneMore alloc v = Some (v', True)" "vec_rep v' xs"
    "length xs < vcap v'" "vec_same alloc v v'" "\<not> starved alloc v (request_one v)"
  note r = vec_repD [OF v'(2)]
  have "vec_Insert alloc v index (Temp x) =
      Some (v'\<lparr>slots := map (live (take index xs @ x # drop index xs)) [0..<vcap v'],
        vsize := Suc (length xs)\<rparr>, True)"
    using assms(2) v'(3) r(1,2) vec_repD(2) [OF assms(1)]
    by (simp add: vec_Insert_def v'(1) shift_up insert_slots del: upt_Suc One_nat_def)
  with v'(3-5) r(4,5) assms(2) show ?thesis by (simp add: vec_rep_def vec_same_def min_def)
qed (use vec_repD(2) [OF assms(1)] assms(2) in \<open>simp add: vec_Insert_def\<close>)

text \<open>Closing a gap of \<open>n\<close> raw slots at \<open>index\<close>.\<close>

lemma shift_down:
  assumes "index + n \<le> length xs" and "length xs \<le> c" and "0 < n"
  shows "for_up index (length xs - n) (\<lambda>i sl. relocate_at sl (i + n) i)
      (map (\<lambda>k. if index \<le> k \<and> k < index + n then None else live xs k) [0..<c]) =
    Some (map (live (take index xs @ drop (index + n) xs)) [0..<c])"
proof -
  let ?G = "\<lambda>i k. if k < index then live xs k else if k < i then live xs (k + n)
      else if k < i + n then None else live xs k"
  let ?I = "\<lambda>i sl. sl = map (?G i) [0..<c]"
  have "\<exists>sl'. for_up index (length xs - n) (\<lambda>i sl. relocate_at sl (i + n) i)
      (map (\<lambda>k. if index \<le> k \<and> k < index + n then None else live xs k) [0..<c]) = Some sl' \<and>
    ?I (length xs - n) sl'"
  proof (rule for_up_rule [where I = ?I])
    show "?I index (map (\<lambda>k. if index \<le> k \<and> k < index + n then None else live xs k) [0..<c])"
      by (auto intro!: map_slots_cong)
  next
    fix i sl assume i: "index \<le> i" "i < length xs - n" "?I i sl"
    have G: "?G i i = None" "?G i (i + n) = Some (xs ! (i + n))"
      using i assms by (auto simp: live_def)
    have "relocate_at sl (i + n) i =
        Some (map ((?G i)(i := Some (xs ! (i + n)), i + n := None)) [0..<c])"
      unfolding i(3) by (rule relocate_slot [OF G]) (use assms i in auto)
    moreover have "(?G i)(i := Some (xs ! (i + n)), i + n := None) = ?G (Suc i)"
      using i(1,2) assms by (auto simp: fun_eq_iff live_def)
    ultimately show "\<exists>s'. relocate_at sl (i + n) i = Some s' \<and> ?I (Suc i) s'" by simp
  qed (use assms in auto)
  moreover have "map (?G (length xs - n)) [0..<c] =
      map (live (take index xs @ drop (index + n) xs)) [0..<c]"
    using assms by (intro map_slots_cong) (auto simp: live_def nth_append add.commute)
  ultimately show ?thesis by simp
qed

lemma destroy_run:
  assumes "index + n \<le> length xs" and "length xs \<le> c"
  shows "for_up 0 n (\<lambda>i sl. destroy_at sl (index + i)) (map (live xs) [0..<c]) =
    Some (map (\<lambda>k. if index \<le> k \<and> k < index + n then None else live xs k) [0..<c])"
proof -
  let ?I = "\<lambda>i sl. sl = map (\<lambda>k. if index \<le> k \<and> k < index + i then None else live xs k) [0..<c]"
  have "\<exists>sl'. for_up 0 n (\<lambda>i sl. destroy_at sl (index + i)) (map (live xs) [0..<c]) = Some sl' \<and>
    ?I n sl'"
  proof (rule for_up_rule [where I = ?I])
    fix i sl assume "i < n" "?I i sl"
    with assms show "\<exists>s'. destroy_at sl (index + i) = Some s' \<and> ?I (Suc i) s'"
      by (auto simp: slot_ops live_def intro!: map_slots_cong)
  qed (auto intro!: map_slots_cong)
  then show ?thesis by simp
qed

lemma shift_nothing:
  "for_up index b (\<lambda>i sl. relocate_at sl (i + 0) i) sl = Some sl'
   \<Longrightarrow> b \<le> index \<Longrightarrow> sl' = sl"
  by simp

lemma vec_EraseRange_rep:
  assumes "vec_rep v xs" and "index < length xs" and "index + n < 2 ^ 64" and "0 < n"
  shows "\<exists>v'. vec_EraseRange v index n = Some (v', True) \<and>
    vec_rep v' (take index xs @ drop (index + n) xs) \<and> vec_kept v v'"
proof -
  note r = vec_repD [OF assms(1)]
  define m where "m = (if index + n > length xs then length xs - index else n)"
  have m: "index + m \<le> length xs" "0 < m" "drop (index + m) xs = drop (index + n) xs"
    using assms(2,4) by (auto simp: m_def)
  have cnt: "(if usz (index + n) > length xs then length xs - index else n) = m"
    using assms(3) by (simp add: m_def)
  have len: "length (take index xs @ drop (index + n) xs) = length xs - m"
    using m assms(2) by (auto simp flip: m(3))
  have "vec_EraseRange v index n =
      Some (v\<lparr>slots := map (live (take index xs @ drop (index + n) xs)) [0..<vcap v],
        vsize := length xs - m\<rparr>, True)"
    using assms(2) r(1,2)
    by (simp only: vec_EraseRange_def Let_def cnt shift_down [OF m(1) r(3) m(2)]
        destroy_run [OF m(1) r(3)] m(3) not_le if_False Option.bind.simps)
      simp
  with r(3-5) len show ?thesis by (simp add: vec_rep_def vec_kept_def del: length_append)
qed

lemma vec_Erase_rep:
  assumes "vec_rep v xs" and "index < length xs"
  shows "\<exists>v'. vec_Erase v index = Some (v', True) \<and>
    vec_rep v' (take index xs @ drop (Suc index) xs) \<and> vec_kept v v'"
proof -
  note r = vec_repD [OF assms(1)]
  have "destroy_at (map (live xs) [0..<vcap v]) index =
      Some (map (\<lambda>k. if index \<le> k \<and> k < index + 1 then None else live xs k) [0..<vcap v])"
    using assms(2) r(3) by (auto simp: slot_ops live_def intro!: map_slots_cong)
  moreover have "index + 1 \<le> length xs" using assms(2) by simp
  note shift_down [OF this r(3)]
  ultimately show ?thesis
    using assms(2) r(3-5)
    by (simp add: vec_Erase_def r(1,2) vec_rep_def vec_kept_def)
qed

section \<open>Growing by many, searching, ordering\<close>

lemma room_same: "vec_same alloc v c \<Longrightarrow> room alloc c n = room alloc v n"
  unfolding room_def fits_def vec_Allocate_def vec_same_def Let_def by (elim conjE) (simp only:)

lemma starved_kept:
  assumes "vec_kept v c"
  shows "starved alloc c (request_more c n) = starved alloc v (request_more v n)"
proof -
  from assms have "vec_Allocate alloc c n = vec_Allocate alloc v n" "vcap c = vcap v"
    unfolding vec_Allocate_def vec_kept_def Let_def by (elim conjE, simp only:)+
  then show ?thesis by (simp add: request_more_def)
qed

lemma bound_next:
  assumes "vec_rep v xs" and "length xs < vcap v"
  shows "\<exists>v'. (do { x \<leftarrow> Some x; sl \<leftarrow> construct_at (slots v) (vsize v) x;
      Some (v\<lparr>slots := sl, vsize := vsize v + 1\<rparr>) }) = Some v' \<and>
    vec_rep v' (xs @ [x]) \<and> vec_kept v v'"
  using vec_rep_next [OF assms, of x] by (simp add: construct_next [OF assms] vec_kept_def)

text \<open>Appending one constructed element after another.\<close>

lemma append_run:
  assumes "vec_rep v xs" and "length xs + length ys \<le> vcap v"
  shows "\<exists>v'. for_up 0 (length ys)
      (\<lambda>i v. do { x \<leftarrow> deref v (map Temp ys ! i);
                  sl \<leftarrow> construct_at (slots v) (vsize v) x;
                  Some (v\<lparr>slots := sl, vsize := vsize v + 1\<rparr>) }) v = Some v' \<and>
    vec_rep v' (xs @ ys) \<and> vec_kept v v'"
proof -
  let ?I = "\<lambda>i v'. vec_rep v' (xs @ take i ys) \<and> vec_kept v v'"
  have "\<exists>v'. for_up 0 (length ys)
      (\<lambda>i v. do { x \<leftarrow> deref v (map Temp ys ! i);
                  sl \<leftarrow> construct_at (slots v) (vsize v) x;
                  Some (v\<lparr>slots := sl, vsize := vsize v + 1\<rparr>) }) v = Some v' \<and>
    ?I (length ys) v'"
  proof (rule for_up_rule [where I = ?I])
    fix i w assume i: "i < length ys" "?I i w"
    then have "length (xs @ take i ys) < vcap w" using assms(2) by (simp add: vec_kept_def)
    from bound_next [OF _ this, of "ys ! i"] i
    show "\<exists>w'. (do { x \<leftarrow> deref w (map Temp ys ! i);
                  sl \<leftarrow> construct_at (slots w) (vsize w) x;
                  Some (w\<lparr>slots := sl, vsize := vsize w + 1\<rparr>) }) = Some w' \<and> ?I (Suc i) w'"
      by (auto simp: take_Suc_nth vec_kept_def)
  qed (use assms in auto)
  then show ?thesis by simp
qed

lemma vec_Append_rep:
  assumes "vec_rep v xs" and "length xs + length ys < 2 ^ 64"
    and "vcap v < length xs + length ys \<longrightarrow> room alloc v (length xs + length ys)"
  shows "vec_Append alloc v (map Temp ys) = Some (v, False) \<and>
      starved alloc v (request_more v (length xs + length ys)) \<or>
    (\<exists>v'. vec_Append alloc v (map Temp ys) = Some (v', True) \<and> vec_rep v' (xs @ ys) \<and>
       vec_same alloc v v' \<and> \<not> starved alloc v (request_more v (length xs + length ys)))"
proof -
  have u: "usz (vsize v + length ys) = length xs + length ys"
    using assms(2) vec_repD(2) [OF assms(1)] by simp
  show ?thesis using vec_Reserve_rep [OF assms(1,3)]
  proof (elim disjE exE conjE)
    fix v' assume v': "vec_Reserve alloc v (length xs + length ys) = Some (v', True)"
      "vec_rep v' xs" "length xs + length ys \<le> vcap v'" "vec_same alloc v v'"
      "\<not> starved alloc v (request_more v (length xs + length ys))"
    from append_run [OF v'(2,3)] obtain w where
      w: "for_up 0 (length ys)
      (\<lambda>i v. do { x \<leftarrow> deref v (map Temp ys ! i);
                  sl \<leftarrow> construct_at (slots v) (vsize v) x;
                  Some (v\<lparr>slots := sl, vsize := vsize v + 1\<rparr>) }) v' = Some w"
      "vec_rep w (xs @ ys)" "vec_kept v' w" by blast
    have "vec_Append alloc v (map Temp ys) = Some (w, True)"
      by (simp only: vec_Append_def u v'(1) length_map w(1) Option.bind.simps prod.case) simp
    with w(2) vec_same_trans [OF v'(4) vec_kept_same [OF w(3)]] v'(5) show ?thesis by blast
  qed (simp add: vec_Append_def u)
qed

lemma vec_Resize_grow_rep:
  assumes "vec_rep v xs" and "length xs \<le> n" and "vcap v < n \<longrightarrow> room alloc v n"
  shows "vec_Resize alloc v n (Temp x) = Some (v, False) \<and> starved alloc v (request_more v n) \<or>
    (\<exists>v'. vec_Resize alloc v n (Temp x) = Some (v', True) \<and>
       vec_rep v' (xs @ replicate (n - length xs) x) \<and> vec_same alloc v v' \<and>
       \<not> starved alloc v (request_more v n))"
  using vec_Reserve_rep [OF assms(1,3)]
proof (elim disjE exE conjE)
  fix v' assume v': "vec_Reserve alloc v n = Some (v', True)"
    "vec_rep v' xs" "n \<le> vcap v'" "vec_same alloc v v'" "\<not> starved alloc v (request_more v n)"
  let ?body = "\<lambda>i v. do { x \<leftarrow> deref v (Temp x);
                          sl \<leftarrow> construct_at (slots v) (vsize v) x;
                          Some (v\<lparr>slots := sl, vsize := vsize v + 1\<rparr>) }"
  let ?I = "\<lambda>i w. vec_rep w (xs @ replicate (i - length xs) x) \<and> vec_kept v' w"
  have "\<exists>w. for_up (length xs) n ?body v' = Some w \<and> ?I n w"
  proof (rule for_up_rule [where I = ?I])
    fix i w assume i: "length xs \<le> i" "i < n" "?I i w"
    then have "length (xs @ replicate (i - length xs) x) < vcap w" using v'(3) by (simp add: vec_kept_def)
    from bound_next [OF _ this, of x] i
    show "\<exists>w'. ?body i w = Some w' \<and> ?I (Suc i) w'"
      by (auto simp: vec_kept_def Suc_diff_le replicate_append_same)
  qed (use assms v' in auto)
  then obtain w where w: "for_up (length xs) n ?body v' = Some w"
    "vec_rep w (xs @ replicate (n - length xs) x)" "vec_kept v' w" by blast
  have "vec_Resize alloc v n (Temp x) = Some (w, True)"
    using assms(2) vec_repD(2) [OF assms(1)] vec_repD(2) [OF v'(2)] w(1)
    by (simp add: vec_Resize_def v'(1))
  with w(2) vec_same_trans [OF v'(4) vec_kept_same [OF w(3)]] v'(5) show ?thesis by blast
qed (use assms(2) vec_repD(2) [OF assms(1)] in \<open>simp add: vec_Resize_def\<close>)

lemma vec_Resize_shrink_rep:
  assumes "vec_rep v xs" and "n < length xs"
  shows "\<exists>v'. vec_Resize alloc v n r = Some (v', True) \<and> vec_rep v' (take n xs) \<and>
    vec_kept v v'"
proof -
  note r = vec_repD [OF assms(1)]
  have "destroy_range n (length xs) (map (live xs) [0..<vcap v]) =
      Some (map (\<lambda>k. if n \<le> k \<and> k < length xs then None else live xs k) [0..<vcap v])"
    using r assms(2) by (intro destroy_range_slots) (auto simp: live_def)
  moreover have "(\<lambda>k. if n \<le> k \<and> k < length xs then None else live xs k) = live (take n xs)"
    using assms(2) by (auto simp: live_def)
  ultimately show ?thesis
    using r assms(2) by (simp add: vec_Resize_def vec_rep_def vec_kept_def)
qed

lemma vec_Assign_rep:
  assumes "vec_rep v xs" and "vcap v < length ys \<longrightarrow> room alloc v (length ys)"
  shows "(\<exists>v'. vec_Assign alloc v (map Temp ys) = Some (v', False) \<and>
       starved alloc v (request_more v (length ys)) \<and> vec_rep v' [] \<and> vec_kept v v') \<or>
    (\<exists>v'. vec_Assign alloc v (map Temp ys) = Some (v', True) \<and> vec_rep v' ys \<and>
       vec_same alloc v v' \<and> \<not> starved alloc v (request_more v (length ys)))"
proof -
  obtain c where c: "vec_Clear v = Some c" "vec_rep c []" "vec_kept v c"
    using vec_Clear_rep [OF assms(1)] by blast
  note sc = vec_kept_same [OF c(3), of alloc]
  from c(3) assms(2) have "vcap c < length ys \<longrightarrow> room alloc c (length ys)"
    by (simp add: room_same [OF sc] vec_kept_def)
  from vec_Reserve_rep [OF c(2) this] show ?thesis
  proof (elim disjE exE conjE)
    fix v' assume v': "vec_Reserve alloc c (length ys) = Some (v', True)"
      "vec_rep v' []" "length ys \<le> vcap v'" "vec_same alloc c v'"
      "\<not> starved alloc c (request_more c (length ys))"
    let ?body = "\<lambda>i v. do { x \<leftarrow> deref v (map Temp ys ! i);
                            sl \<leftarrow> construct_at (slots v) i x;
                            Some (v\<lparr>slots := sl\<rparr>) }"
    let ?I = "\<lambda>i w. w = v'\<lparr>slots := map (live (take i ys)) [0..<vcap v']\<rparr>"
    have "\<exists>w. for_up 0 (length ys) ?body v' = Some w \<and> ?I (length ys) w"
    proof (rule for_up_rule [where I = ?I])
      show "?I 0 v'" using vec_repD(1) [OF v'(2)] by simp
    next
      fix i w assume i: "i < length ys" "?I i w"
      then show "\<exists>w'. ?body i w = Some w' \<and> ?I (Suc i) w'"
        using v'(3)
        by (auto simp: slot_ops live_def take_Suc_nth nth_append intro!: map_slots_cong)
    qed simp
    then have "vec_Assign alloc v (map Temp ys) =
        Some (v'\<lparr>slots := map (live ys) [0..<vcap v'], vsize := length ys\<rparr>, True)"
      by (simp add: vec_Assign_def c(1) v'(1))
    moreover have "vec_same alloc v (v'\<lparr>slots := map (live ys) [0..<vcap v'], vsize := length ys\<rparr>)"
      by (rule vec_same_trans [OF sc vec_same_trans [OF v'(4)]]) (simp add: vec_same_def)
    ultimately show ?thesis using v' by (auto simp: vec_rep_def starved_kept [OF c(3)])
  next
    assume "vec_Reserve alloc c (length ys) = Some (c, False)"
      "starved alloc c (request_more c (length ys))"
    then have "vec_Assign alloc v (map Temp ys) = Some (c, False)"
      by (simp add: vec_Assign_def c(1))
    with c \<open>starved alloc c _\<close> show ?thesis by (auto simp: starved_kept [OF c(3)])
  qed
qed

section \<open>Filtering\<close>

lemma filter_take_bound: "length (filter p (take i xs)) \<le> i"
  by (rule order.trans [OF length_filter_le]) simp

text \<open>The compaction loop: after \<open>i\<close> reads the front holds the kept elements, the slots from \<open>i\<close> on
  are untouched, and everything is still constructed.\<close>

lemma compact:
  assumes "length xs \<le> c"
  shows "\<exists>F. for_up 0 (length xs)
      (\<lambda>rd (sl, write).
         do { x \<leftarrow> read_at sl rd;
              if \<not> p x then
                do { sl \<leftarrow> (if write \<noteq> rd then assign_at sl write x else Some sl);
                     Some (sl, write + 1) }
              else Some (sl, write) })
      (map (live xs) [0..<c], 0) = Some (map F [0..<c], length (filter (\<lambda>x. \<not> p x) xs)) \<and>
    (\<forall>k < length (filter (\<lambda>x. \<not> p x) xs). F k = Some (filter (\<lambda>x. \<not> p x) xs ! k)) \<and>
    (\<forall>k. (F k = None) = (live xs k = None))"
proof -
  let ?q = "\<lambda>x. \<not> p x"
  let ?body = "\<lambda>rd (sl, write).
         do { x \<leftarrow> read_at sl rd;
              if \<not> p x then
                do { sl \<leftarrow> (if write \<noteq> rd then assign_at sl write x else Some sl);
                     Some (sl, write + 1) }
              else Some (sl, write) }"
  let ?I = "\<lambda>i st. \<exists>F. st = (map F [0..<c], length (filter ?q (take i xs))) \<and>
      (\<forall>k < length (filter ?q (take i xs)). F k = Some (filter ?q (take i xs) ! k)) \<and>
      (\<forall>k. i \<le> k \<longrightarrow> F k = live xs k) \<and> (\<forall>k. (F k = None) = (live xs k = None))"
  have "\<exists>st. for_up 0 (length xs) ?body (map (live xs) [0..<c], 0) = Some st \<and> ?I (length xs) st"
  proof (rule for_up_rule [where I = ?I])
    show "?I 0 (map (live xs) [0..<c], 0)" by (rule exI [of _ "live xs"]) simp
  next
    fix i st assume i: "i < length xs" and "?I i st"
    then obtain F where F: "st = (map F [0..<c], length (filter ?q (take i xs)))"
      "\<And>k. k < length (filter ?q (take i xs)) \<Longrightarrow> F k = Some (filter ?q (take i xs) ! k)"
      "\<And>k. i \<le> k \<Longrightarrow> F k = live xs k" "\<And>k. (F k = None) = (live xs k = None)"
      by blast
    let ?w = "length (filter ?q (take i xs))"
    have w: "?w \<le> i" by (rule filter_take_bound)
    have Fi: "F i = Some (xs ! i)" using F(3) [of i] i by (simp add: live_def)
    have Fw: "F ?w \<noteq> None" using F(4) [of ?w] w i by (simp add: live_def)
    let ?F' = "if p (xs ! i) then F else F(?w := Some (xs ! i))"
    have "?body i st = Some (map ?F' [0..<c], length (filter ?q (take (Suc i) xs)))"
      using i w assms Fi Fw
      by (auto simp: F(1) slot_ops take_Suc_nth fun_upd_triv intro!: map_slots_cong)
    moreover have "\<forall>k < length (filter ?q (take (Suc i) xs)).
        ?F' k = Some (filter ?q (take (Suc i) xs) ! k)"
      using F(2) i by (auto simp: take_Suc_nth nth_append)
    moreover have "\<forall>k. Suc i \<le> k \<longrightarrow> ?F' k = live xs k" using F(3) w by auto
    moreover have "(?F' k = None) = (live xs k = None)" for k
      using F(4) [of k] F(4) [of ?w] Fw by (cases "k = ?w") auto
    ultimately show "\<exists>st'. ?body i st = Some st' \<and> ?I (Suc i) st'" by blast
  qed simp
  then show ?thesis by auto
qed

text \<open>Popping down to a given size.\<close>

lemma vec_PopBack_any:
  assumes "vec_rep v xs" and "0 < vsize v"
  shows "\<exists>v'. (do { (v, b) \<leftarrow> vec_PopBack v; Some v }) = Some v' \<and>
    vec_rep v' (take (vsize v - 1) xs) \<and> vec_kept v v'"
  using vec_PopBack_rep [OF assms(1)] assms(2) vec_repD(2) [OF assms(1)]
  by (auto simp: butlast_conv_take)

lemma pop_run:
  assumes "vec_rep v xs" and "n \<le> length xs"
  shows "\<exists>v'. for_down (length xs) n (\<lambda>_ v. do { (v, _) \<leftarrow> vec_PopBack v; Some v }) v = Some v' \<and>
    vec_rep v' (take n xs) \<and> vec_kept v v'"
proof (rule for_down_rule [where I = "\<lambda>i w. vec_rep w (take i xs) \<and> vec_kept v w"])
  fix i w assume i: "n < i" "i \<le> length xs"
    and I: "vec_rep w (take i xs) \<and> vec_kept v w"
  from I have w: "vec_rep w (take i xs)" by simp
  from vec_repD(2) [OF this] i have s: "vsize w = i" by simp
  then have "0 < vsize w" using i by simp
  from vec_PopBack_any [OF w this] s i I
  show "\<exists>w'. (do { (w, _) \<leftarrow> vec_PopBack w; Some w }) = Some w' \<and>
      vec_rep w' (take (i - 1) xs) \<and> vec_kept v w'"
    by (auto simp: vec_kept_def min_def)
qed (use assms in auto)

lemma vec_RemoveIf_rep:
  assumes "vec_rep v xs"
  shows "\<exists>v'. vec_RemoveIf p v = Some (v', length (filter p xs)) \<and>
    vec_rep v' (filter (\<lambda>x. \<not> p x) xs) \<and> vec_kept v v'"
proof -
  note r = vec_repD [OF assms]
  let ?ys = "filter (\<lambda>x. \<not> p x) xs"
  obtain F where F: "for_up 0 (length xs)
      (\<lambda>rd (sl, write).
         do { x \<leftarrow> read_at sl rd;
              if \<not> p x then
                do { sl \<leftarrow> (if write \<noteq> rd then assign_at sl write x else Some sl);
                     Some (sl, write + 1) }
              else Some (sl, write) })
      (map (live xs) [0..<vcap v], 0) = Some (map F [0..<vcap v], length ?ys)"
    "\<And>k. k < length ?ys \<Longrightarrow> F k = Some (?ys ! k)" "\<And>k. (F k = None) = (live xs k = None)"
    using compact [OF r(3)] by blast
  define zs where "zs = map (the \<circ> F) [0..<length xs]"
  have zs: "map F [0..<vcap v] = map (live zs) [0..<vcap v]"
    using F(3) by (auto simp: zs_def live_def intro!: map_slots_cong split: if_splits)
  have len: "length ?ys \<le> length xs" by simp
  have tk: "take (length ?ys) zs = ?ys"
    using F(2) order.strict_trans2 [OF _ len]
    by (intro nth_equalityI) (auto simp: zs_def)
  have rep: "vec_rep (v\<lparr>slots := map F [0..<vcap v]\<rparr>) zs"
    using r zs by (simp add: vec_rep_def zs_def)
  have lz: "length zs = length xs" by (simp add: zs_def)
  obtain v' where v': "for_down (length xs) (length ?ys)
        (\<lambda>_ v. do { (v, _) \<leftarrow> vec_PopBack v; Some v }) (v\<lparr>slots := map F [0..<vcap v]\<rparr>) = Some v'"
    "vec_rep v' ?ys" "vec_kept v v'"
    using pop_run [OF rep, of "length ?ys"] len by (auto simp: lz tk vec_kept_def)
  have "length xs - length ?ys = length (filter p xs)"
    using sum_length_filter_compl [of p xs] by simp
  with v' show ?thesis
    by (simp add: vec_RemoveIf_def r(1,2) F(1) Let_def del: upt_Suc)
qed

section \<open>Sorting\<close>

text \<open>Storage in which every slot below \<open>length xs\<close> is constructed is \<^term>\<open>live xs\<close>; reads and
  assignments of it are list reads and list updates.\<close>

lemma read_live: "i < length xs \<Longrightarrow> length xs \<le> c \<Longrightarrow>
    read_at (map (live xs) [0..<c]) i = Some (xs ! i)"
  by (simp add: slot_ops live_def)

lemma assign_live: "i < length xs \<Longrightarrow> length xs \<le> c \<Longrightarrow>
    assign_at (map (live xs) [0..<c]) i x = Some (map (live (xs[i := x])) [0..<c])"
  by (auto simp: slot_ops live_def nth_list_update intro!: map_slots_cong)

text \<open>The inner loop moves the elements greater than the key up by one, from the right end of the
  sorted prefix, and stops at the key's place.\<close>

fun place :: "('a \<Rightarrow> 'a \<Rightarrow> bool) \<Rightarrow> 'a \<Rightarrow> 'a list \<Rightarrow> nat \<Rightarrow> nat" where
  "place compare key xs 0 = 0"
| "place compare key xs (Suc j) = (if compare key (xs ! j) then place compare key xs j else Suc j)"

lemma place_le: "place compare key xs j \<le> j"
  by (induction j) auto

lemma place_above: "place compare key xs j \<le> k \<Longrightarrow> k < j \<Longrightarrow> compare key (xs ! k)"
  by (induction j) (auto simp: less_Suc_eq split: if_splits)

lemma place_stop: "0 < place compare key xs j \<Longrightarrow> \<not> compare key (xs ! (place compare key xs j - 1))"
  by (induction j) (auto split: if_splits)

lemma sort_shift_slots:
  assumes "j < length xs" and "length xs \<le> c"
  shows "\<exists>ys. sort_shift compare key j (map (live xs) [0..<c]) =
      Some (place compare key xs j, map (live ys) [0..<c]) \<and> length ys = length xs \<and>
    (\<forall>k. ys ! k = (if place compare key xs j < k \<and> k \<le> j then xs ! (k - 1) else xs ! k))"
  using assms
proof (induction j arbitrary: xs)
  case (Suc j)
  show ?case
  proof (cases "compare key (xs ! j)")
    case True
    let ?zs = "xs[Suc j := xs ! j]"
    have pl: "place compare key ?zs j' = place compare key xs j'" if "j' \<le> j" for j'
      using that by (induction j') auto
    obtain ys where ys: "sort_shift compare key j (map (live ?zs) [0..<c]) =
        Some (place compare key ?zs j, map (live ys) [0..<c])" "length ys = length ?zs"
      "\<forall>k. ys ! k = (if place compare key ?zs j < k \<and> k \<le> j then ?zs ! (k - 1) else ?zs ! k)"
      using Suc.IH [of ?zs] Suc.prems by auto
    have "ys ! k = (if place compare key xs (Suc j) < k \<and> k \<le> Suc j then xs ! (k - 1) else xs ! k)" for k
      using ys(3) True Suc.prems place_le [of compare key xs j]
      by (auto simp: pl nth_list_update le_Suc_eq)
    with ys(1,2) True Suc.prems show ?thesis
      by (auto simp: read_live assign_live pl)
  next
    case False
    with Suc.prems show ?thesis by (auto simp: read_live)
  qed
qed auto

text \<open>One round of the outer loop inserts the next element behind the last element that is not
  greater: the list insertion \<open>insort_right\<close>.\<close>

definition insort_at :: "('a \<Rightarrow> 'a \<Rightarrow> bool) \<Rightarrow> 'a list \<Rightarrow> nat \<Rightarrow> 'a list" where
  "insort_at compare xs i =
     (let p = place compare (xs ! i) xs i
      in take p xs @ xs ! i # drop p (take i xs) @ drop (Suc i) xs)"

lemma length_insort_at [simp]: "i < length xs \<Longrightarrow> length (insort_at compare xs i) = length xs"
  using place_le [of compare "xs ! i" xs i] by (simp add: insort_at_def Let_def)

lemma sort_round:
  assumes "i < length xs" and "length xs \<le> c"
  shows "(do { key \<leftarrow> read_at (map (live xs) [0..<c]) i;
               (j, sl) \<leftarrow> sort_shift compare key i (map (live xs) [0..<c]);
               assign_at sl j key }) = Some (map (live (insort_at compare xs i)) [0..<c])"
proof -
  let ?key = "xs ! i"
  let ?p = "place compare ?key xs i"
  have p: "?p \<le> i" by (rule place_le)
  obtain ys where ys: "sort_shift compare ?key i (map (live xs) [0..<c]) =
      Some (?p, map (live ys) [0..<c])" "length ys = length xs"
    "\<forall>k. ys ! k = (if ?p < k \<and> k \<le> i then xs ! (k - 1) else xs ! k)"
    using sort_shift_slots [OF assms] by blast
  have "ys[?p := ?key] = insort_at compare xs i"
  proof (rule nth_equalityI)
    fix k assume "k < length (ys[?p := ?key])"
    with ys(2,3) p assms(1) show "ys[?p := ?key] ! k = insort_at compare xs i ! k"
      by (auto simp: insort_at_def Let_def nth_append nth_list_update nth_Cons' min_def
          intro: arg_cong [where f = "(!) xs"])
  qed (use ys(2) assms(1) in simp)
  with ys(1,2) p assms show ?thesis by (simp add: read_live assign_live)
qed

text \<open>For a comparison of keys the place divides the sorted prefix: not greater before, greater after.\<close>

lemma sorted_place:
  fixes f :: "'a \<Rightarrow> 'k::linorder" and x :: 'a and zs :: "'a list"
  assumes "sorted (map f ys)" and "i = length ys"
  defines "p \<equiv> place (\<lambda>a b. f a < f b) x (ys @ zs) i"
  shows "\<forall>y \<in> set (take p ys). f y \<le> f x" and "\<forall>y \<in> set (drop p ys). f x < f y" and "p \<le> i"
proof -
  show p: "p \<le> i" unfolding p_def by (rule place_le)
  show "\<forall>y \<in> set (drop p ys). f x < f y"
    using place_above [of "\<lambda>a b. f a < f b" x "ys @ zs" i] assms(2)
    by (auto simp: in_set_conv_nth nth_append p_def add.commute less_diff_conv)
  show "\<forall>y \<in> set (take p ys). f y \<le> f x"
  proof (cases p)
    case (Suc q)
    have "\<not> f x < f ((ys @ zs) ! (p - 1))"
      using place_stop [of "\<lambda>a b. f a < f b" x "ys @ zs" i] Suc by (simp add: p_def)
    then have q: "f (ys ! q) \<le> f x" using Suc p assms(2) by (simp add: nth_append)
    have "f (ys ! k) \<le> f x" if "k < p" for k
    proof -
      have "f (ys ! k) \<le> f (ys ! q)"
        using sorted_nth_mono [OF assms(1), of k q] that Suc p assms(2) by simp
      with q show ?thesis by simp
    qed
    then show ?thesis using p assms(2) by (auto simp: in_set_conv_nth)
  qed simp
qed

lemma insort_at_sort_key:
  fixes f :: "'a \<Rightarrow> 'k::linorder"
  assumes "i < length xs"
  shows "insort_at (\<lambda>a b. f a < f b) (sort_key f (take i xs) @ drop i xs) i =
    sort_key f (take (Suc i) xs) @ drop (Suc i) xs"
proof -
  let ?S = "sort_key f (take i xs)"
  let ?x = "xs ! i"
  let ?L = "?S @ drop i xs"
  define p where "p = place (\<lambda>a b. f a < f b) ?x ?L i"
  have len: "length ?S = i" using assms by simp
  have Li: "?L ! i = ?x" using assms len by (simp add: nth_append)
  note sp = sorted_place [OF sorted_sort_key [of f "take i xs"] len [symmetric],
      of ?x "drop i xs", folded p_def]
  have "insort_at (\<lambda>a b. f a < f b) ?L i =
      (take p ?S @ ?x # drop p ?S) @ drop (Suc i) xs"
    using sp(3) assms len by (simp add: insort_at_def Let_def Li p_def min_def)
  moreover have "sort_key f (take (Suc i) xs) = take p ?S @ ?x # drop p ?S"
  proof (rule properties_for_sort_key)
    have split: "mset (take p ?S) + mset (drop p ?S) = mset ?S"
      by (metis append_take_drop_id mset_append)
    show "mset (take p ?S @ ?x # drop p ?S) = mset (take (Suc i) xs)"
      using assms split by (simp add: take_Suc_nth ac_simps)
    show "sorted (map f (take p ?S @ ?x # drop p ?S))"
    proof -
      have "sorted (map f (take p ?S))" "sorted (map f (drop p ?S))"
        using sorted_sort_key [of f "take i xs"]
        by (simp_all add: sorted_wrt_take sorted_wrt_drop flip: take_map drop_map)
      moreover have "f y \<le> f z" if "y \<in> set (take p ?S)" "z \<in> set (drop p ?S)" for y z
        using sp(1,2) that by (meson less_imp_le order.trans)
      ultimately show ?thesis
        using sp(1,2) by (simp add: sorted_append less_imp_le)
    qed
    fix k assume "k \<in> set (take p ?S @ ?x # drop p ?S)"
    have st: "filter (\<lambda>y. f k = f y) ?S = filter (\<lambda>y. f k = f y) (take i xs)"
      using sort_key_stable [of f "f k" "take i xs"] by (simp add: eq_commute)
    have sp': "filter (\<lambda>y. f k = f y) (take p ?S) @ filter (\<lambda>y. f k = f y) (drop p ?S) =
        filter (\<lambda>y. f k = f y) (take i xs)"
      by (metis append_take_drop_id filter_append st)
    have none: "filter (\<lambda>y. f k = f y) (drop p ?S) = []" if "f k = f ?x"
      using sp(2) that by (auto simp: filter_empty_conv)
    from sp' none
    show "filter (\<lambda>y. f k = f y) (take p ?S @ ?x # drop p ?S) =
        filter (\<lambda>y. f k = f y) (take (Suc i) xs)"
      using assms by (cases "f k = f ?x") (simp_all add: take_Suc_nth)
  qed
  ultimately show ?thesis by simp
qed

lemma vec_Sort_rep:
  fixes f :: "'a \<Rightarrow> 'k::linorder"
  assumes "vec_rep v xs"
  shows "\<exists>v'. vec_Sort (\<lambda>a b. f a < f b) v = Some v' \<and> vec_rep v' (sort_key f xs) \<and>
    vec_kept v v'"
proof -
  note r = vec_repD [OF assms]
  let ?body = "\<lambda>i sl. do { key \<leftarrow> read_at sl i;
        (j, sl) \<leftarrow> sort_shift (\<lambda>a b. f a < f b) key i sl; assign_at sl j key }"
  let ?I = "\<lambda>i sl. sl = map (live (sort_key f (take i xs) @ drop i xs)) [0..<vcap v]"
  have run: "for_up 1 (length xs) ?body (map (live xs) [0..<vcap v]) =
      Some (map (live (sort_key f xs)) [0..<vcap v])"
  proof (cases "xs = []")
    case False
    have "\<exists>sl'. for_up 1 (length xs) ?body (map (live xs) [0..<vcap v]) = Some sl' \<and>
      ?I (length xs) sl'"
    proof (rule for_up_rule [where I = ?I])
      show "?I 1 (map (live xs) [0..<vcap v])"
        using False by (cases xs) (simp_all add: sort_key_def)
    next
      fix i sl assume i: "1 \<le> i" "i < length xs" "?I i sl"
      have "i < length (sort_key f (take i xs) @ drop i xs)"
        "length (sort_key f (take i xs) @ drop i xs) \<le> vcap v"
        using i(2) r(3) by auto
      from sort_round [OF this, of "\<lambda>a b. f a < f b"] insort_at_sort_key [OF i(2), of f] i(3)
      show "\<exists>sl'. ?body i sl = Some sl' \<and> ?I (Suc i) sl'" by simp
    qed (use False in \<open>auto simp: Suc_le_eq\<close>)
    then show ?thesis by simp
  qed simp
  show ?thesis
    using run r(3-5) by (simp add: vec_Sort_def r(1,2) vec_rep_def vec_kept_def)
qed

section \<open>Searching\<close>

lemma lower_bound_slots:
  fixes xs :: "'a::linorder list"
  assumes "sorted xs" and "first + cnt \<le> length xs" and "length xs \<le> c"
    and "\<forall>k < first. xs ! k < x" and "\<forall>k. first + cnt \<le> k \<longrightarrow> k < length xs \<longrightarrow> x \<le> xs ! k"
  shows "\<exists>i. lower_bound_loop (map (live xs) [0..<c]) x first cnt = Some i \<and> i \<le> length xs \<and>
    (\<forall>k < i. xs ! k < x) \<and> (\<forall>k. i \<le> k \<longrightarrow> k < length xs \<longrightarrow> x \<le> xs ! k)"
  using assms
proof (induction cnt arbitrary: first rule: less_induct)
  case (less cnt)
  show ?case
  proof (cases "cnt = 0")
    case True
    with less.prems show ?thesis by (subst lower_bound_loop.simps) auto
  next
    case False
    let ?m = "first + cnt div 2"
    have m: "?m < length xs" using less.prems(2) False by linarith
    note unfold = lower_bound_loop.simps [of "map (live xs) [0..<c]" x first cnt]
    show ?thesis
    proof (cases "xs ! ?m < x")
      case True
      have lt: "xs ! k < x" if "k < ?m + 1" for k
        using sorted_nth_mono [OF less.prems(1), of k ?m] that m True by (auto simp: less_Suc_eq_le)
      have e: "?m + 1 + (cnt - (cnt div 2 + 1)) = first + cnt" using False by linarith
      have "\<exists>i. lower_bound_loop (map (live xs) [0..<c]) x (?m + 1) (cnt - (cnt div 2 + 1)) = Some i \<and>
          i \<le> length xs \<and> (\<forall>k < i. xs ! k < x) \<and> (\<forall>k. i \<le> k \<longrightarrow> k < length xs \<longrightarrow> x \<le> xs ! k)"
        by (rule less.IH) (use less.prems False lt e in auto)
      with True False m less.prems(3) unfold show ?thesis by (simp add: read_live)
    next
      case nlt: False
      have ge: "x \<le> xs ! k" if "?m \<le> k" "k < length xs" for k
        using sorted_nth_mono [OF less.prems(1) that] nlt by simp
      have "\<exists>i. lower_bound_loop (map (live xs) [0..<c]) x first (cnt div 2) = Some i \<and>
          i \<le> length xs \<and> (\<forall>k < i. xs ! k < x) \<and> (\<forall>k. i \<le> k \<longrightarrow> k < length xs \<longrightarrow> x \<le> xs ! k)"
        by (rule less.IH) (use less.prems False ge m in auto)
      with nlt False m less.prems(3) unfold show ?thesis by (simp add: read_live)
    qed
  qed
qed

lemma vec_LowerBound_rep:
  fixes xs :: "'a::linorder list"
  assumes "vec_rep v xs" and "sorted xs"
  shows "\<exists>i. vec_LowerBound v x = Some i \<and> i \<le> length xs \<and> (\<forall>k < i. xs ! k < x) \<and>
    (\<forall>k. i \<le> k \<longrightarrow> k < length xs \<longrightarrow> x \<le> xs ! k)"
  using lower_bound_slots [OF assms(2), of 0 "length xs" "vcap v" x] vec_repD [OF assms(1)]
  by (simp add: vec_LowerBound_def)

lemma span_find_from_spec:
  "i + length xs < size_max \<Longrightarrow>
    (span_find_from xs x i = NotFound \<longleftrightarrow> x \<notin> set xs) \<and>
    (x \<in> set xs \<longrightarrow> (\<exists>k < length xs. span_find_from xs x i = i + k \<and> xs ! k = x \<and>
       (\<forall>j < k. xs ! j \<noteq> x)))"
proof (induction xs arbitrary: i)
  case (Cons y ys)
  show ?case
  proof (cases "y = x")
    case True
    with Cons.prems show ?thesis by (auto intro!: exI [of _ 0])
  next
    case False
    from Cons.IH [of "Suc i"] Cons.prems
    have IH: "span_find_from ys x (Suc i) = NotFound \<longleftrightarrow> x \<notin> set ys"
      "x \<in> set ys \<Longrightarrow> \<exists>k < length ys. span_find_from ys x (Suc i) = Suc i + k \<and> ys ! k = x \<and>
         (\<forall>j < k. ys ! j \<noteq> x)" by auto
    have "\<exists>k < length (y # ys). span_find_from (y # ys) x i = i + k \<and> (y # ys) ! k = x \<and>
         (\<forall>j < k. (y # ys) ! j \<noteq> x)" if xin: "x \<in> set ys"
    proof -
      from IH(2) [OF xin] obtain k where "k < length ys" "span_find_from ys x (Suc i) = Suc i + k"
        "ys ! k = x" "\<forall>j < k. ys ! j \<noteq> x" by blast
      then show ?thesis
        using False by (intro exI [of _ "Suc k"]) (auto simp: nth_Cons' less_Suc_eq_0_disj)
    qed
    with IH(1) False show ?thesis by auto
  qed
qed simp

lemma vec_Reverse_rep:
  assumes "vec_rep v xs"
  shows "\<exists>v'. vec_Reverse v = Some v' \<and> vec_rep v' (rev xs) \<and> vec_kept v v'"
proof -
  note r = vec_repD [OF assms]
  let ?n = "length xs"
  let ?body = "\<lambda>i sl. do { temp \<leftarrow> read_at sl i; y \<leftarrow> read_at sl (?n - 1 - i);
      sl \<leftarrow> assign_at sl i y; assign_at sl (?n - 1 - i) temp }"
  let ?mid = "\<lambda>i. map (\<lambda>k. if k < i \<or> ?n - i \<le> k then xs ! (?n - 1 - k) else xs ! k) [0..<?n]"
  let ?I = "\<lambda>i sl. sl = map (live (?mid i)) [0..<vcap v]"
  have "\<exists>sl'. for_up 0 (?n div 2) ?body (map (live xs) [0..<vcap v]) = Some sl' \<and> ?I (?n div 2) sl'"
  proof (rule for_up_rule [where I = ?I])
    have "?mid 0 = xs" by (rule nth_equalityI) auto
    then show "?I 0 (map (live xs) [0..<vcap v])" by simp
  next
    fix i sl assume i: "i < ?n div 2" "?I i sl"
    let ?m = "?mid i"
    let ?j = "?n - 1 - i"
    have len: "length ?m = ?n" "i < ?n" "?j < ?n" using i by simp_all
    have vals: "?m ! i = xs ! i" "?m ! ?j = xs ! ?j" using i(1) by auto
    have "?m[i := xs ! ?j, ?j := xs ! i] = ?mid (Suc i)"
    proof (rule nth_equalityI)
      fix k assume "k < length (?m[i := xs ! ?j, ?j := xs ! i])"
      then have k: "k < ?n" by simp
      with i(1) show "?m[i := xs ! ?j, ?j := xs ! i] ! k = ?mid (Suc i) ! k"
        by (auto simp: nth_list_update less_Suc_eq intro: arg_cong [where f = "(!) xs"])
    qed simp
    with i(2) len vals r(3) show "\<exists>sl'. ?body i sl = Some sl' \<and> ?I (Suc i) sl'"
      by (simp add: read_live assign_live del: upt_Suc)
  qed simp
  moreover have "?mid (?n div 2) = rev xs"
    by (rule nth_equalityI) (auto simp: rev_nth intro: arg_cong [where f = "(!) xs"])
  ultimately show ?thesis
    using r(3-5) by (simp add: vec_Reverse_def r(1,2) vec_rep_def vec_kept_def)
qed

lemma vec_Release_rep:
  assumes "vec_rep v xs"
  shows "\<exists>v'. vec_Release v = Some v' \<and> vec_rep v' [] \<and> vcap v' = 0 \<and> esize v' = esize v \<and>
    has_alloc v' = has_alloc v"
  using vec_Clear_rep [OF assms] by (auto simp: vec_Release_def vec_rep_def vec_kept_def)

definition request_fit :: "'a vec \<Rightarrow> nat option" where
  "request_fit v = (if vsize v = vcap v \<or> vsize v = 0 then None else Some (vsize v))"

lemma vec_ShrinkToFit_rep:
  assumes "vec_rep v xs" and "xs \<noteq> [] \<longrightarrow> room alloc v (length xs)"
  shows "vec_ShrinkToFit alloc v = Some (v, False) \<and> starved alloc v (request_fit v) \<or>
    (\<exists>v'. vec_ShrinkToFit alloc v = Some (v', True) \<and> vec_rep v' xs \<and> vcap v' = length xs \<and>
       vec_same alloc v v' \<and> \<not> starved alloc v (request_fit v))"
proof -
  note r = vec_repD [OF assms(1)]
  consider "vsize v = vcap v" | "vsize v \<noteq> vcap v" "xs = []" | "vsize v \<noteq> vcap v" "xs \<noteq> []" by blast
  then show ?thesis
  proof cases
    case 1
    with assms(1) r(2) show ?thesis by (simp add: vec_ShrinkToFit_def request_fit_def)
  next
    case 2
    with vec_Release_rep [OF assms(1)] r(2) show ?thesis
      by (auto simp: vec_ShrinkToFit_def vec_same_def request_fit_def)
  next
    case 3
    then have "fits v (length xs)" "vec_Allocate alloc v (length xs) \<noteq> None" "length xs \<noteq> 0"
      using assms(2) by (auto simp: room_def)
    from vec_Reallocate_rep [OF assms(1) order.refl this(3,1,2)] 3 r(2) show ?thesis
      by (auto simp: vec_ShrinkToFit_def vec_same_def request_fit_def)
  qed
qed

lemma vec_BinarySearch_rep:
  fixes xs :: "'a::linorder list"
  assumes "vec_rep v xs" and "sorted xs"
  shows "vec_BinarySearch v x = Some (x \<in> set xs)"
proof -
  note r = vec_repD [OF assms(1)]
  obtain i where i: "vec_LowerBound v x = Some i" "i \<le> length xs" "\<forall>k < i. xs ! k < x"
    "\<forall>k. i \<le> k \<longrightarrow> k < length xs \<longrightarrow> x \<le> xs ! k"
    using vec_LowerBound_rep [OF assms] by blast
  show ?thesis
  proof (cases "i < length xs")
    case False
    with i have "x \<notin> set xs" by (auto simp: in_set_conv_nth)
    with False i(1,2) r(2) show ?thesis by (simp add: vec_BinarySearch_def)
  next
    case True
    have "(\<not> x < xs ! i \<and> \<not> xs ! i < x) = (x \<in> set xs)"
    proof
      assume "x \<in> set xs"
      then obtain k where k: "k < length xs" "xs ! k = x" by (auto simp: in_set_conv_nth)
      with i(3) have "i \<le> k" by (metis less_irrefl not_le)
      then have "xs ! i \<le> x" using sorted_nth_mono [OF assms(2)] k by blast
      moreover have "x \<le> xs ! i" using i(4) True by blast
      ultimately show "\<not> x < xs ! i \<and> \<not> xs ! i < x" by simp
    next
      assume "\<not> x < xs ! i \<and> \<not> xs ! i < x"
      then have "x = xs ! i" by (meson linorder_neqE)
      with True show "x \<in> set xs" by (metis nth_mem)
    qed
    with True i(1) r show ?thesis by (simp add: vec_BinarySearch_def read_live)
  qed
qed

lemma vec_Contains_rep:
  assumes "vec_rep v xs" and "length xs < size_max"
  shows "vec_Contains v x = (x \<in> set xs)"
  using span_find_from_spec [of 0 xs x] assms(2)
  by (auto simp: vec_Contains_def vec_Find_def span_Find_def vec_rep_items [OF assms(1)])

section \<open>The vector as a growable object\<close>

datatype 'a vec_op =
    PushBack 'a | PopBack | Insert nat 'a | Erase nat | EraseRange nat nat | Append "'a list"
  | Assign "'a list" | Resize nat 'a | Reserve nat | ShrinkToFit | Clear | Reverse
  | RemoveIf "'a \<Rightarrow> bool"

fun vec_exec :: "(nat \<Rightarrow> bool) \<Rightarrow> 'a vec_op \<Rightarrow> 'a vec \<Rightarrow> ('a vec \<times> bool) option" where
  "vec_exec alloc (PushBack x) v = vec_PushBack alloc v (Temp x)"
| "vec_exec alloc PopBack v = vec_PopBack v"
| "vec_exec alloc (Insert i x) v = vec_Insert alloc v i (Temp x)"
| "vec_exec alloc (Erase i) v = vec_Erase v i"
| "vec_exec alloc (EraseRange i n) v = vec_EraseRange v i n"
| "vec_exec alloc (Append xs) v = vec_Append alloc v (map Temp xs)"
| "vec_exec alloc (Assign xs) v = vec_Assign alloc v (map Temp xs)"
| "vec_exec alloc (Resize n x) v = vec_Resize alloc v n (Temp x)"
| "vec_exec alloc (Reserve n) v = vec_Reserve alloc v n"
| "vec_exec alloc ShrinkToFit v = vec_ShrinkToFit alloc v"
| "vec_exec alloc Clear v = do { v \<leftarrow> vec_Clear v; Some (v, True) }"
| "vec_exec alloc Reverse v = do { v \<leftarrow> vec_Reverse v; Some (v, True) }"
| "vec_exec alloc (RemoveIf p) v = do { (v, removed) \<leftarrow> vec_RemoveIf p v; Some (v, True) }"

text \<open>What an operation does to the elements, when it succeeds and when it fails.\<close>

fun vec_effect :: "'a vec_op \<Rightarrow> bool \<Rightarrow> 'a list \<Rightarrow> 'a list" where
  "vec_effect (Assign ys) False xs = []"
| "vec_effect op False xs = xs"
| "vec_effect (PushBack x) True xs = xs @ [x]"
| "vec_effect PopBack True xs = butlast xs"
| "vec_effect (Insert i x) True xs = take i xs @ x # drop i xs"
| "vec_effect (Erase i) True xs = take i xs @ drop (Suc i) xs"
| "vec_effect (EraseRange i n) True xs = take i xs @ drop (i + n) xs"
| "vec_effect (Append ys) True xs = xs @ ys"
| "vec_effect (Assign ys) True xs = ys"
| "vec_effect (Resize n x) True xs = take n xs @ replicate (n - length xs) x"
| "vec_effect (Reserve n) True xs = xs"
| "vec_effect ShrinkToFit True xs = xs"
| "vec_effect Clear True xs = []"
| "vec_effect Reverse True xs = rev xs"
| "vec_effect (RemoveIf p) True xs = filter (\<lambda>x. \<not> p x) xs"

text \<open>When it succeeds, memory permitting.\<close>

fun vec_accepts :: "'a vec_op \<Rightarrow> 'a list \<Rightarrow> bool" where
  "vec_accepts PopBack xs = (xs \<noteq> [])"
| "vec_accepts (Insert i x) xs = (i \<le> length xs)"
| "vec_accepts (Erase i) xs = (i < length xs)"
| "vec_accepts (EraseRange i n) xs = (i < length xs)"
| "vec_accepts _ xs = True"

text \<open>The arguments it may be given: \<open>EraseRange\<close> with a count of 0 would move every element from the
  index on onto itself and destroy it, and with a wrapping \<^verbatim>\<open>Index + Count\<close> would not see the end.\<close>

fun vec_valid :: "'a vec_op \<Rightarrow> bool" where
  "vec_valid (EraseRange i n) = (0 < n \<and> i + n < 2 ^ 64)"
| "vec_valid (Append xs) = (length xs < 2 ^ 63)"
| "vec_valid _ = True"

text \<open>No machine has \<^term>\<open>2 ^ 63 :: nat\<close> bytes of memory.\<close>

definition machine :: "(nat \<Rightarrow> bool) \<Rightarrow> nat \<Rightarrow> bool" where
  "machine mem n \<longleftrightarrow> n < 2 ^ 63 \<and> mem n"

text \<open>The request an operation makes on a vector, and whether the memory refuses it.\<close>

fun vec_request :: "'a vec_op \<Rightarrow> 'a vec \<Rightarrow> nat option" where
  "vec_request (PushBack x) v = request_one v"
| "vec_request (Insert i x) v = request_one v"
| "vec_request (Append xs) v = request_more v (vsize v + length xs)"
| "vec_request (Assign xs) v = request_more v (length xs)"
| "vec_request (Resize n x) v = request_more v n"
| "vec_request (Reserve n) v = request_more v n"
| "vec_request ShrinkToFit v = request_fit v"
| "vec_request _ v = None"

definition denies :: "(nat \<Rightarrow> bool) \<Rightarrow> 'a vec \<Rightarrow> nat option \<Rightarrow> bool" where
  "denies mem v r = (case r of None \<Rightarrow> False | Some n \<Rightarrow> \<not> machine mem (n * esize v))"

definition vec_refuses :: "(nat \<Rightarrow> bool) \<Rightarrow> 'a vec_op \<Rightarrow> 'a vec \<Rightarrow> bool" where
  "vec_refuses mem op v = denies mem v (vec_request op v)"

definition vec_obj :: "'a vec \<Rightarrow> 'a list \<Rightarrow> bool" where
  "vec_obj v xs \<longleftrightarrow> vec_rep v xs \<and> has_alloc v \<and> vcap v < 2 ^ 63"

lemma vec_obj_next: "vec_obj v xs \<Longrightarrow> vec_rep v' ys \<Longrightarrow> vec_same (machine mem) v v' \<Longrightarrow> vec_obj v' ys"
  by (auto simp: vec_obj_def vec_same_def machine_def)

lemma starved_denies:
  assumes "vec_obj v xs" and "r \<noteq> Some 0"
  shows "starved (machine mem) v r = denies mem v r"
proof (cases r)
  case (Some n)
  have v: "0 < esize v" "has_alloc v" using assms(1) vec_repD(5) by (auto simp: vec_obj_def)
  have "\<not> machine mem (n * esize v)" if "size_max div esize v < n"
  proof -
    from that v(1) have "size_max < n * esize v" by (simp add: div_less_iff_less_mult)
    then show ?thesis by (simp add: machine_def size_max_def)
  qed
  with Some v assms(2) show ?thesis
    by (auto simp: denies_def vec_Allocate_def)
qed (simp add: denies_def)

lemma request_nonzero [simp]:
  "request_more v n \<noteq> Some 0" "request_fit v \<noteq> Some 0"
  by (auto simp: request_more_def request_fit_def)

lemma request_one_nonzero [simp]: "vcap v < 2 ^ 63 \<Longrightarrow> request_one v \<noteq> Some 0"
  by (simp add: request_one_def grown_def)

lemma vec_request_nonzero: "vec_obj v xs \<Longrightarrow> vec_request op v \<noteq> Some 0"
  by (cases op) (simp_all add: vec_obj_def)

text \<open>The three shapes a step takes: refused, accepted with an effect, or rejected.\<close>

definition step_ok :: "(nat \<Rightarrow> bool) \<Rightarrow> 'a vec_op \<Rightarrow> 'a vec \<Rightarrow> 'a list \<Rightarrow> bool" where
  "step_ok mem op v xs \<longleftrightarrow> (\<exists>v'. vec_exec (machine mem) op v =
       Some (v', vec_accepts op xs \<and> \<not> vec_refuses mem op v) \<and>
     vec_obj v' (vec_effect op (vec_accepts op xs \<and> \<not> vec_refuses mem op v) xs))"

lemma step_okI:
  assumes "vec_obj v xs"
    and "vec_exec (machine mem) op v = Some (v', ok)" "vec_rep v' (vec_effect op ok xs)"
      "vec_same (machine mem) v v'"
      "ok = (vec_accepts op xs \<and> \<not> starved (machine mem) v (vec_request op v))"
  shows "step_ok mem op v xs"
  unfolding step_ok_def vec_refuses_def
  using assms(2,5) vec_obj_next [OF assms(1,3,4)] starved_denies [OF assms(1) vec_request_nonzero [OF assms(1)]]
  by simp

lemma step_cases:
  assumes "vec_obj v xs" and "vec_accepts op xs" and "vec_effect op False xs = xs"
    and "vec_exec (machine mem) op v = Some (v, False) \<and> starved (machine mem) v (vec_request op v) \<or>
      (\<exists>v'. vec_exec (machine mem) op v = Some (v', True) \<and> vec_rep v' (vec_effect op True xs) \<and>
        vec_same (machine mem) v v' \<and> \<not> starved (machine mem) v (vec_request op v))"
  shows "step_ok mem op v xs"
  using assms(4)
proof (elim disjE exE conjE)
  assume "vec_exec (machine mem) op v = Some (v, False)" "starved (machine mem) v (vec_request op v)"
  with assms show ?thesis by (intro step_okI [where ok = False and v' = v]) (auto simp: vec_obj_def)
next
  fix v' assume "vec_exec (machine mem) op v = Some (v', True)"
    "vec_rep v' (vec_effect op True xs)" "vec_same (machine mem) v v'"
    "\<not> starved (machine mem) v (vec_request op v)"
  with assms show ?thesis by (intro step_okI [where ok = True]) auto
qed

lemma step_total:
  assumes "vec_obj v xs" and "vec_accepts op xs" and "vec_request op v = None"
    and "\<exists>v'. vec_exec (machine mem) op v = Some (v', True) \<and> vec_rep v' (vec_effect op True xs) \<and>
        vec_kept v v'"
  shows "step_ok mem op v xs"
proof -
  from assms(4) obtain v' where "vec_exec (machine mem) op v = Some (v', True)"
    "vec_rep v' (vec_effect op True xs)" "vec_same (machine mem) v v'" using vec_kept_same by blast
  with assms show ?thesis by (intro step_okI [where ok = True]) simp_all
qed

lemma step_reject:
  assumes "vec_obj v xs" and "\<not> vec_accepts op xs" and "vec_effect op False xs = xs"
    and "vec_exec (machine mem) op v = Some (v, False)"
  shows "step_ok mem op v xs"
  using assms by (intro step_okI [where ok = False and v' = v]) (auto simp: vec_obj_def)

lemma vec_step:
  assumes obj: "vec_obj v xs" and valid: "vec_valid op"
  shows "step_ok mem op v xs"
proof -
  let ?m = "machine mem"
  have rep: "vec_rep v xs" and al: "has_alloc v" and cap: "vcap v < 2 ^ 63"
    using obj by (auto simp: vec_obj_def)
  note r = vec_repD [OF rep]
  note room = room_allocator [OF al, of ?m]
  have dbl: "2 * vcap v < 2 ^ 64" using cap by simp
  show ?thesis
  proof (cases op)
    case (PushBack x)
    show ?thesis using vec_PushBack_rep [OF rep, of ?m x] room dbl
      by (intro step_cases [OF obj]) (simp_all add: PushBack)
  next
    case PopBack
    show ?thesis
    proof (cases "xs = []")
      case True
      with r(2) show ?thesis by (intro step_reject [OF obj]) (simp_all add: PopBack vec_PopBack_def)
    next
      case False
      with vec_PopBack_rep [OF rep] show ?thesis
        by (intro step_total [OF obj]) (simp_all add: PopBack)
    qed
  next
    case (Insert i x)
    show ?thesis
    proof (cases "i \<le> length xs")
      case True
      with vec_Insert_rep [OF rep True, of ?m x] room dbl show ?thesis
        by (intro step_cases [OF obj]) (simp_all add: Insert)
    next
      case False
      with r(2) show ?thesis by (intro step_reject [OF obj]) (simp_all add: Insert vec_Insert_def)
    qed
  next
    case (Erase i)
    show ?thesis
    proof (cases "i < length xs")
      case True
      with vec_Erase_rep [OF rep True] show ?thesis
        by (intro step_total [OF obj]) (simp_all add: Erase)
    next
      case False
      with r(2) show ?thesis by (intro step_reject [OF obj]) (simp_all add: Erase vec_Erase_def)
    qed
  next
    case (EraseRange i n)
    show ?thesis
    proof (cases "i < length xs")
      case True
      with vec_EraseRange_rep [OF rep True, of n] valid show ?thesis
        by (intro step_total [OF obj]) (simp_all add: EraseRange)
    next
      case False
      with r(2) show ?thesis
        by (intro step_reject [OF obj]) (simp_all add: EraseRange vec_EraseRange_def)
    qed
  next
    case (Append ys)
    have "length xs + length ys < 2 ^ 64" using valid cap r(3) by (simp add: Append)
    from vec_Append_rep [OF rep this, of ?m] room show ?thesis
      by (intro step_cases [OF obj]) (simp_all add: Append r(2))
  next
    case (Assign ys)
    have "vcap v < length ys \<longrightarrow> room ?m v (length ys)" using room by simp
    from vec_Assign_rep [OF rep this] show ?thesis
    proof (elim disjE exE conjE)
      fix v' assume "vec_Assign ?m v (map Temp ys) = Some (v', False)"
        "starved ?m v (request_more v (length ys))" "vec_rep v' []" "vec_kept v v'"
      with obj vec_kept_same show ?thesis
        by (intro step_okI [where ok = False and v' = v']) (auto simp: Assign)
    next
      fix v' assume "vec_Assign ?m v (map Temp ys) = Some (v', True)" "vec_rep v' ys"
        "vec_same ?m v v'" "\<not> starved ?m v (request_more v (length ys))"
      with obj show ?thesis by (intro step_okI [where ok = True and v' = v']) (auto simp: Assign)
    qed
  next
    case (Resize n x)
    show ?thesis
    proof (cases "n < length xs")
      case True
      then have "\<not> vcap v < n" using r(3) by simp
      with vec_Resize_shrink_rep [OF rep True, of ?m "Temp x"] True show ?thesis
        by (intro step_total [OF obj]) (simp_all add: Resize request_more_def)
    next
      case False
      with vec_Resize_grow_rep [OF rep, of n ?m x] room show ?thesis
        by (intro step_cases [OF obj]) (simp_all add: Resize)
    qed
  next
    case (Reserve n)
    show ?thesis using vec_Reserve_rep [OF rep, of n ?m] room
      by (intro step_cases [OF obj]) (auto simp: Reserve)
  next
    case ShrinkToFit
    show ?thesis using vec_ShrinkToFit_rep [OF rep, of ?m] room
      by (intro step_cases [OF obj]) (auto simp: ShrinkToFit)
  next
    case Clear
    show ?thesis using vec_Clear_rep [OF rep]
      by (intro step_total [OF obj]) (auto simp: Clear)
  next
    case Reverse
    show ?thesis using vec_Reverse_rep [OF rep]
      by (intro step_total [OF obj]) (auto simp: Reverse)
  next
    case (RemoveIf p)
    show ?thesis using vec_RemoveIf_rep [OF rep, of p]
      by (intro step_total [OF obj]) (auto simp: RemoveIf)
  qed
qed

interpretation vec: growable vec_obj "vec_exec (machine mem)" vec_valid vec_accepts
    "vec_refuses mem" vec_effect for mem
  by unfold_locales (rule vec_step [unfolded step_ok_def])


section \<open>Element access\<close>

text \<open>\<^verbatim>\<open>v[i] = x\<close> and \<^verbatim>\<open>v[i]\<close>.\<close>

definition storage_set :: "'c vec \<Rightarrow> nat \<Rightarrow> 'c \<Rightarrow> 'c vec option" where
  "storage_set v i x = do { sl \<leftarrow> assign_at (slots v) i x; Some (v\<lparr>slots := sl\<rparr>) }"

definition storage_get :: "'c vec \<Rightarrow> nat \<Rightarrow> 'c option" where
  "storage_get v i = read_at (slots v) i"

lemma storage_set_rep:
  assumes "vec_rep v xs" and "i < length xs"
  shows "\<exists>v'. storage_set v i x = Some v' \<and> vec_rep v' (xs[i := x]) \<and> vec_kept v v'"
  using assms vec_repD [OF assms(1)]
  by (auto simp: storage_set_def assign_live vec_rep_def vec_kept_def)

lemma storage_get_rep: "vec_rep v xs \<Longrightarrow> i < length xs \<Longrightarrow> storage_get v i = Some (xs ! i)"
  using vec_repD [of v xs] by (simp add: storage_get_def read_live)

lemma vec_kept_trans: "vec_kept u v \<Longrightarrow> vec_kept v w \<Longrightarrow> vec_kept u w"
  by (simp add: vec_kept_def)

text \<open>A loop of assignments \<^verbatim>\<open>Storage_[at + i] = f(i)\<close>.\<close>

lemma overwrite_run:
  assumes "vec_rep v xs" and "at + length ys \<le> length xs"
    and "\<And>i w. i < length ys \<Longrightarrow> vec_rep w (overwrite at (take i ys) xs) \<Longrightarrow> vec_kept v w \<Longrightarrow>
      body i w = storage_set w (at + i) (ys ! i)"
  shows "\<exists>v'. for_up 0 (length ys) body v = Some v' \<and> vec_rep v' (overwrite at ys xs) \<and> vec_kept v v'"
proof -
  let ?I = "\<lambda>i w. vec_rep w (overwrite at (take i ys) xs) \<and> vec_kept v w"
  have "\<exists>v'. for_up 0 (length ys) body v = Some v' \<and> ?I (length ys) v'"
  proof (rule for_up_rule [where I = ?I])
    show "?I 0 v" using assms(1) by (simp add: overwrite_def)
  next
    fix i w assume i: "i < length ys" "?I i w"
    then have "at + i < length (overwrite at (take i ys) xs)" using assms(2) by simp
    from storage_set_rep [OF conjunct1 [OF i(2)] this, of "ys ! i"] i
    show "\<exists>w'. body i w = Some w' \<and> ?I (Suc i) w'"
      using overwrite_snoc [of at "take i ys" xs "ys ! i"] assms(2)
      by (auto simp: assms(3) take_Suc_nth intro: vec_kept_trans)
  qed simp
  then show ?thesis by simp
qed

lemma vec_obj_kept: "vec_obj v xs \<Longrightarrow> vec_rep v' ys \<Longrightarrow> vec_kept v v' \<Longrightarrow> vec_obj v' ys"
  by (simp add: vec_obj_def vec_kept_def)

lemma vec_obj_rep: "vec_obj v xs \<Longrightarrow> vec_rep v xs"
  by (simp add: vec_obj_def)

lemma resize_obj:
  assumes "vec_obj v xs"
  obtains (refused) "vec_Resize (machine mem) v n (Temp x) = Some (v, False)"
      "denies mem v (request_more v n)" "length xs < n"
    | (ok) v' where "vec_Resize (machine mem) v n (Temp x) = Some (v', True)"
      "vec_obj v' (take n xs @ replicate (n - length xs) x)" "vec_same (machine mem) v v'"
      "\<not> denies mem v (request_more v n)"
proof (cases "n \<le> length xs")
  case False
  have rep: "vec_rep v xs" and al: "has_alloc v" using assms by (auto simp: vec_obj_def)
  have "vcap v < n \<longrightarrow> room (machine mem) v n" using room_allocator [OF al] by blast
  from False have le: "length xs \<le> n" by simp
  from vec_Resize_grow_rep [OF rep le \<open>vcap v < n \<longrightarrow> _\<close>, of x] show ?thesis
  proof (elim disjE exE conjE)
    fix v' assume "vec_Resize (machine mem) v n (Temp x) = Some (v', True)"
      "vec_rep v' (xs @ replicate (n - length xs) x)" "vec_same (machine mem) v v'"
      "\<not> starved (machine mem) v (request_more v n)"
    with le ok [of v'] vec_obj_next [OF assms] show ?thesis by (simp add: starved_denies [OF assms])
  next
    assume "vec_Resize (machine mem) v n (Temp x) = Some (v, False)"
      "starved (machine mem) v (request_more v n)"
    with refused False show ?thesis by (simp add: starved_denies [OF assms])
  qed
next
  case True
  have rep: "vec_rep v xs" using assms by (simp add: vec_obj_def)
  have "\<exists>v'. vec_Resize (machine mem) v n (Temp x) = Some (v', True) \<and> vec_rep v' (take n xs) \<and>
      vec_kept v v'"
  proof (cases "n < length xs")
    case True
    then show ?thesis by (rule vec_Resize_shrink_rep [OF rep])
  next
    case False
    with True vec_repD [OF rep] rep show ?thesis
      by (simp add: vec_Resize_def vec_Reserve_def)
  qed
  moreover have "\<not> denies mem v (request_more v n)"
    using True vec_repD(3) [OF rep] by (simp add: denies_def request_more_def)
  ultimately show ?thesis using True
    by (auto intro!: ok vec_obj_kept [OF assms] intro: vec_kept_same)
qed

section \<open>Properties\<close>

text \<open>A vector of three 8-byte elements in storage for four.\<close>

definition sample :: "nat vec" where
  "sample = \<lparr>slots = [Some 3, Some 1, Some 2, None], vsize = 3, vcap = 4, buffer = 7, esize = 8,
     has_alloc = True\<rparr>"

definition sample_ops :: "nat vec_op list" where
  "sample_ops = [PushBack 5, EraseRange 1 2, Insert 9 4, Reverse]"

lemma sample_rep: "vec_rep sample [3, 1, 2]"
  by (simp add: vec_rep_def sample_def live_def upt_rec)

lemma sample_obj: "vec_obj sample [3, 1, 2]"
  using sample_rep by (simp add: vec_obj_def) (simp add: sample_def)

text \<open>C1: a vector with an allocator simulates a list. Whatever sequence of operations is performed on
  it (all of them with valid arguments), every operation reaches a result, so no slot is ever read,
  assigned or destroyed while raw, constructed twice, or touched outside the storage; the elements
  are those the list operations give, a failed operation changes nothing (a failed \<open>Assign\<close> leaves
  the vector empty). An operation reports success exactly when its arguments are in range and the memory
  grants the one request it makes in the state it is performed in: room for one more doubles a full
  capacity, the others ask for the number of elements they need, and nothing is asked for while the
  capacity suffices.\<close>

theorem vector_simulates_list:
  assumes "vec_obj v xs" and "list_all vec_valid ops"
  shows "\<exists>v' oks. run_ops (vec_exec (machine mem)) ops v = Some (v', oks) \<and>
    vec_obj v' (effects vec_effect ops oks xs) \<and>
    explained (vec_exec (machine mem)) vec_accepts (vec_refuses mem) vec_effect ops oks v xs"
  by (rule vec.run_defined [OF assms])

theorem vector_simulates_list_witness:
  "\<exists>v' oks. run_ops (vec_exec (machine (\<lambda>n. n < 64))) sample_ops sample = Some (v', oks) \<and>
    vec_obj v' (effects vec_effect sample_ops oks [3, 1, 2]) \<and>
    explained (vec_exec (machine (\<lambda>n. n < 64))) vec_accepts (vec_refuses (\<lambda>n. n < 64)) vec_effect
      sample_ops oks sample [3, 1, 2]"
  by (rule vector_simulates_list [OF sample_obj]) (simp add: sample_ops_def)

text \<open>C33: \<open>Sort\<close> with a comparison of keys sorts the elements, stably: the storage ends with
  \<^term>\<open>sort_key f xs\<close>, every slot still constructed, and nothing is allocated.\<close>

theorem Sort_stable:
  fixes f :: "'a \<Rightarrow> 'k::linorder"
  assumes "vec_rep v xs"
  shows "\<exists>v'. vec_Sort (\<lambda>a b. f a < f b) v = Some v' \<and> vec_rep v' (sort_key f xs) \<and> vec_kept v v'"
  by (rule vec_Sort_rep [OF assms])

theorem Sort_stable_witness:
  "\<exists>v'. vec_Sort (\<lambda>a b. a mod 2 < b mod 2) sample = Some v' \<and> vec_rep v' [2, 3, 1] \<and>
    vec_kept sample v'"
  using Sort_stable [OF sample_rep, of "\<lambda>n. n mod 2"] by simp

text \<open>C34: on a sorted vector \<open>LowerBound\<close> ends with the first index whose element is not smaller than
  the value, and \<open>BinarySearch\<close> answers whether the value occurs.\<close>

theorem LowerBound_first:
  fixes xs :: "'a::linorder list"
  assumes "vec_rep v xs" and "sorted xs"
  shows "vec_LowerBound v x = Some (length (takeWhile (\<lambda>y. y < x) xs)) \<and>
    vec_BinarySearch v x = Some (x \<in> set xs)"
proof -
  obtain i where i: "vec_LowerBound v x = Some i" "i \<le> length xs" "\<forall>k < i. xs ! k < x"
    "\<forall>k. i \<le> k \<longrightarrow> k < length xs \<longrightarrow> x \<le> xs ! k"
    using vec_LowerBound_rep [OF assms] by blast
  have "takeWhile (\<lambda>y. y < x) xs = take i xs"
    by (rule takeWhile_eq_take_P_nth) (use i in \<open>auto simp: not_less\<close>)
  with i(1,2) vec_BinarySearch_rep [OF assms] show ?thesis by simp
qed

theorem LowerBound_first_witness:
  "vec_LowerBound \<lparr>slots = [Some 2, Some 5, Some 5, Some (9 :: nat)], vsize = 4, vcap = 4,
     buffer = 1, esize = 4, has_alloc = False\<rparr> 5 = Some 1"
proof -
  have "vec_rep \<lparr>slots = [Some 2, Some 5, Some 5, Some 9], vsize = 4, vcap = 4,
     buffer = 1, esize = 4, has_alloc = False\<rparr> [2, 5, 5, 9 :: nat]"
    by (simp add: vec_rep_def live_def upt_rec)
  from LowerBound_first [OF this, of 5] show ?thesis by simp
qed

lemma Ensure_full_buffer:
  assumes "vec_rep v xs" and "length xs = vcap v" and "2 * vcap v < 2 ^ 64"
    and "vec_EnsureCapacityForOneMore alloc v = Some (w, True)"
  shows "buffer w = Suc (buffer v)"
proof -
  note r = vec_repD [OF assms(1)]
  have "\<not> grown v \<le> vcap v" using assms(3) by (auto simp: grown_def mult.commute)
  with assms(2,4) r(2) have "vec_Reallocate alloc v (grown v) = Some (w, True)"
    by (simp add: vec_EnsureCapacityForOneMore_def vec_Reserve_def grown_def)
  then show ?thesis
    by (auto simp: vec_Reallocate_def split: option.splits Option.bind_splits prod.splits)
qed

text \<open>A value that is an element of the vector itself. When the storage is full and growing it
  succeeds, \<open>PushBack\<close> and \<open>Insert\<close> of an element of the vector have no defined result: the reference
  is read after its storage has been freed.\<close>

theorem own_element_dangles:
  assumes "vec_rep v xs" and "length xs = vcap v" and "2 * vcap v < 2 ^ 64"
    and "vec_EnsureCapacityForOneMore alloc v = Some (w, True)"
  shows "vec_PushBack alloc v (Elem (buffer v) j) = None \<and>
    (i \<le> length xs \<longrightarrow> vec_Insert alloc v i (Elem (buffer v) j) = None)"
  using Ensure_full_buffer [OF assms] assms(4) vec_repD(2) [OF assms(1)]
  by (auto simp: vec_PushBack_def vec_Insert_def split: Option.bind_splits)

definition full :: "nat vec" where
  "full = \<lparr>slots = [Some 3, Some 1], vsize = 2, vcap = 2, buffer = 7, esize = 8, has_alloc = True\<rparr>"

theorem own_element_dangles_witness: "vec_PushBack (\<lambda>_. True) full (Elem (buffer full) 0) = None"
proof -
  have rep: "vec_rep full [3, 1]" by (simp add: vec_rep_def full_def live_def upt_rec)
  have fields: "vcap full = 2" "vsize full = 2" "fits full 4"
    "vec_Allocate (\<lambda>_. True) full 4 = Some (Some 4)"
    by (simp_all add: full_def fits_def vec_Allocate_def size_max_def)
  have "vec_Reallocate (\<lambda>_. True) full 4 \<noteq> Some (full, False)"
    by (auto simp: vec_Reallocate_def fields split: Option.bind_splits)
  with vec_Reallocate_rep [OF rep, of 4 "\<lambda>_. True"] fields
  obtain w where "vec_Reallocate (\<lambda>_. True) full 4 = Some (w, True)" by auto
  then have "vec_EnsureCapacityForOneMore (\<lambda>_. True) full = Some (w, True)"
    by (simp add: vec_EnsureCapacityForOneMore_def vec_Reserve_def fields)
  from own_element_dangles [OF rep _ _ this] show ?thesis by (simp add: fields)
qed

lemma Insert_with_room:
  assumes "vec_rep v xs" and "i \<le> length xs" and "length xs < vcap v"
  shows "vec_Insert alloc v i r =
    (do { x \<leftarrow> deref (v\<lparr>slots := map (\<lambda>k. if k < i then live xs k else if k = i then None
              else live xs (k - 1)) [0..<vcap v]\<rparr>) r;
          Some (v\<lparr>slots := map (live (take i xs @ x # drop i xs)) [0..<vcap v],
            vsize := length xs + 1\<rparr>, True) })"
  using assms
  by (simp add: vec_Insert_def vec_EnsureCapacityForOneMore_def vec_repD [OF assms(1)] shift_up
      insert_slots del: upt_Suc One_nat_def cong: Option.bind_cong)

text \<open>With room left, \<open>Insert\<close> of the vector's own element at the insertion point has no result
  either (the element has been moved away and destroyed before it is read), and an element behind
  the insertion point is not the one inserted: its left neighbour, which has moved into its slot,
  is.\<close>

theorem own_element_shifted:
  assumes "vec_rep v xs" and "length xs < vcap v" and "j < length xs"
  shows "vec_Insert alloc v j (Elem (buffer v) j) = None \<and>
    (i < j \<longrightarrow> (\<exists>v'. vec_Insert alloc v i (Elem (buffer v) j) = Some (v', True) \<and>
      vec_rep v' (take i xs @ xs ! (j - 1) # drop i xs)))"
proof -
  note r = vec_repD [OF assms(1)]
  have "vec_Insert alloc v j (Elem (buffer v) j) = None"
    using Insert_with_room [OF assms(1) _ assms(2), of j] assms(2,3) by (simp add: slot_ops)
  moreover have "\<exists>v'. vec_Insert alloc v i (Elem (buffer v) j) = Some (v', True) \<and>
      vec_rep v' (take i xs @ xs ! (j - 1) # drop i xs)" if "i < j"
    using Insert_with_room [OF assms(1) _ assms(2), of i] assms(2,3) that r(4,5)
    by (auto simp: slot_ops live_def vec_rep_def)
  ultimately show ?thesis by blast
qed

theorem own_element_shifted_witness:
  "\<exists>v'. vec_Insert (\<lambda>_. True) sample 0 (Elem (buffer sample) 2) = Some (v', True) \<and>
    vec_rep v' [1, 3, 1, 2]"
  using own_element_shifted [OF sample_rep, of 2 "\<lambda>_. True" 0] by (simp add: sample_def)

text \<open>The edges of \<open>Erase(Index, Count)\<close>. A count of 0 moves each element from the index on onto
  itself and destroys it, and a count for which \<^verbatim>\<open>Index + Count\<close> wraps destroys past the end of the
  storage: neither has a defined result, for any index of an element.\<close>

theorem EraseRange_edges:
  assumes "vec_rep v xs" and "index < length xs" and "n < 2 ^ 64"
    and "n = 0 \<or> 2 ^ 64 \<le> index + n"
  shows "vec_EraseRange v index n = None"
  using assms(4)
proof
  note r = vec_repD [OF assms(1)]
  assume n: "n = 0"
  have "usz index = index" using assms(2) r(3,4) by simp
  moreover have "[index..<length xs] = index # [Suc index..<length xs]"
    using assms(2) by (simp add: upt_conv_Cons)
  ultimately show ?thesis
    using assms(2) r(3)
    by (simp add: vec_EraseRange_def n r(1,2) relocate_at_def slot_ops live_def del: upt_Suc)
next
  note r = vec_repD [OF assms(1)]
  assume wrap: "2 ^ 64 \<le> index + n"
  have "usz (index + n) = index + n - 2 ^ 64"
    using wrap assms(2,3) r(3,4) by (simp add: usz_def le_mod_geq)
  also have "\<dots> < length xs" using assms(2,3) by linarith
  finally have cnt: "(if usz (index + n) > length xs then length xs - index else n) = n" by simp
  let ?m = "length xs - index"
  have m: "?m < n" using wrap assms(2) r(3,4) by linarith
  have split: "[0..<n] = [0..<?m] @ ?m # [Suc ?m..<n]"
    using m by (metis less_imp_add_positive upt_add_eq_append upt_conv_Cons zero_le)
  have run: "for_up 0 ?m (\<lambda>i sl. destroy_at sl (index + i)) (map (live xs) [0..<vcap v]) =
      Some (map (\<lambda>k. if index \<le> k \<and> k < index + ?m then None else live xs k) [0..<vcap v])"
    by (rule destroy_run) (use assms(2) r(3) in auto)
  have "for_up 0 n (\<lambda>i sl. destroy_at sl (index + i)) (map (live xs) [0..<vcap v]) = None"
    unfolding split for_each_append run using assms(2) by (simp add: slot_ops live_def)
  with assms(2) cnt show ?thesis
    by (simp only: vec_EraseRange_def r(1,2) Let_def not_le if_False Option.bind.simps) simp
qed

theorem EraseRange_edges_witness:
  "vec_EraseRange sample 1 (2 ^ 64 - 1) = None \<and> vec_EraseRange sample 1 0 = None"
  using EraseRange_edges [OF sample_rep, of 1 "2 ^ 64 - 1"] EraseRange_edges [OF sample_rep, of 1 0]
  by simp

end
