(* ===== verification/Sinks.thy ===== *)
theory Sinks
  imports IoCore Vector
begin

text \<open>
  \<^verbatim>\<open>IO/Adapter/Utility.hpp\<close>: the sinks and the source over memory, and \<open>TeeSink\<close>. The fixed buffer and
  the growing buffer keep the sink contract of theory IoCore, the memory source the source contract;
  a tee does not, as its last property shows.
\<close>

section \<open>NullSink and CountingSink\<close>

definition null_write :: "unit write_some" where
  "null_write s bytes = Some (s, Inr (length bytes))"

definition counting_write :: "nat write_some" where
  "counting_write s bytes = Some (usz (s + length bytes), Inr (length bytes))"

section \<open>FixedBufferSink\<close>

record fixed_sink =
  fbuffer :: "byte list"
  fsize :: nat

definition fixed_write :: "fixed_sink write_some" where
  "fixed_write s bytes =
     (let available = length (fbuffer s) - fsize s
      in if available = 0 \<and> bytes \<noteq> [] then Some (s, Inl (Semantic OverflowCode Write (fsize s) (fsize s)))
         else
           (let cnt = (if length bytes < available then length bytes else available)
            in do { buf \<leftarrow> mem_copy (fbuffer s) (fsize s) (take cnt bytes);
                    Some (\<lparr>fbuffer = buf, fsize = fsize s + cnt\<rparr>, Inr cnt) }))"

definition fixed_ready :: "fixed_sink \<Rightarrow> bool" where
  "fixed_ready s \<longleftrightarrow> fsize s \<le> length (fbuffer s) \<and> length (fbuffer s) < 2 ^ 63"

definition fixed_Written :: "fixed_sink \<Rightarrow> byte list" where
  "fixed_Written s = take (fsize s) (fbuffer s)"

section \<open>MemorySink\<close>

text \<open>The bytes are copied into the storage after it has been resized.\<close>

definition memory_write :: "(nat \<Rightarrow> bool) \<Rightarrow> byte vec write_some" where
  "memory_write alloc v bytes =
     (let old_size = vsize v
      in do { (v, ok) \<leftarrow> vec_Resize alloc v (usz (old_size + length bytes)) (Temp 0);
              if \<not> ok then Some (v, Inl (Semantic OutOfMemory AllocateOp 0 0))
              else
                do { v \<leftarrow> for_up 0 (length bytes) (\<lambda>i v. storage_set v (old_size + i) (bytes ! i)) v;
                     Some (v, Inr (length bytes)) } })"

definition memory_Clear :: "byte vec \<Rightarrow> byte vec option" where
  "memory_Clear v = vec_Clear v"

definition memory_ready :: "byte vec \<Rightarrow> bool" where
  "memory_ready v \<longleftrightarrow> (\<exists>xs. vec_obj v xs)"

section \<open>MemorySource\<close>

record memory_source =
  mdata :: "byte list"
  mposition :: nat

definition memory_read :: "memory_source read_some" where
  "memory_read s n =
     (let remaining = length (mdata s) - mposition s;
          cnt = (if n < remaining then n else remaining);
          pos = mposition s + cnt
      in Some (s\<lparr>mposition := pos\<rparr>,
           Inr (take cnt (drop (mposition s) (mdata s)), pos = length (mdata s))))"

definition memory_Seek :: "memory_source \<Rightarrow> nat \<Rightarrow> memory_source \<times> (io_error + nat)" where
  "memory_Seek s position =
     (if position > length (mdata s) then (s, Inl (Semantic InvalidArgument Seek 0 0))
      else (s\<lparr>mposition := position\<rparr>, Inr position))"

definition memory_Tell :: "memory_source \<Rightarrow> nat" where
  "memory_Tell s = mposition s"

definition memory_source_ready :: "memory_source \<Rightarrow> bool" where
  "memory_source_ready s \<longleftrightarrow> mposition s \<le> length (mdata s)"

definition memory_rest :: "memory_source \<Rightarrow> byte list" where
  "memory_rest s = drop (mposition s) (mdata s)"

section \<open>TeeSink\<close>

definition tee_write :: "'s write_some \<Rightarrow> 't write_some \<Rightarrow> ('s \<times> 't) write_some" where
  "tee_write w1 w2 st bytes =
     do { (s, r1) \<leftarrow> WriteAll w1 (fst st) bytes;
          case r1 of
            Inl e \<Rightarrow> Some ((s, snd st), Inl e)
          | Inr _ \<Rightarrow>
              do { (t, r2) \<leftarrow> WriteAll w2 (snd st) bytes;
                   case r2 of
                     Inl e \<Rightarrow> Some ((s, t), Inl e)
                   | Inr _ \<Rightarrow> Some ((s, t), Inr (length bytes)) } }"

text \<open>\<open>Flush\<close> and \<open>Close\<close> run both and report the first failure.\<close>

definition tee_both :: "'s io_action \<Rightarrow> 't io_action \<Rightarrow> ('s \<times> 't) io_action" where
  "tee_both f g st =
     do { (s, r1) \<leftarrow> f (fst st);
          (t, r2) \<leftarrow> g (snd st);
          Some ((s, t), (case r1 of Inl e \<Rightarrow> Inl e | Inr _ \<Rightarrow> r2)) }"

section \<open>The contracts hold\<close>

lemma fixed_write_law:
  assumes "fixed_ready s"
  shows "\<exists>s' r. fixed_write s bytes = Some (s', r) \<and> fixed_ready s' \<and>
    length (fbuffer s') = length (fbuffer s) \<and>
    (case r of
       Inl e \<Rightarrow> s' = s \<and> bytes \<noteq> [] \<and> fsize s = length (fbuffer s) \<and>
         e = Semantic OverflowCode Write (fsize s) (fsize s)
     | Inr n \<Rightarrow> n = min (length bytes) (length (fbuffer s) - fsize s) \<and> fsize s' = fsize s + n \<and>
         fixed_Written s' = fixed_Written s @ take n bytes)"
proof (cases "length (fbuffer s) - fsize s = 0 \<and> bytes \<noteq> []")
  case True
  with assms show ?thesis by (simp add: fixed_write_def fixed_ready_def)
next
  case False
  let ?n = "min (length bytes) (length (fbuffer s) - fsize s)"
  have fits: "fsize s + length (take ?n bytes) \<le> length (fbuffer s)"
    using assms unfolding fixed_ready_def length_take by linarith
  have "(if length bytes < length (fbuffer s) - fsize s then length bytes
      else length (fbuffer s) - fsize s) = ?n" by simp
  with False mem_copy_Some [OF fits]
  have "fixed_write s bytes =
      Some (\<lparr>fbuffer = overwrite (fsize s) (take ?n bytes) (fbuffer s), fsize = fsize s + ?n\<rparr>, Inr ?n)"
    by (simp only: fixed_write_def Let_def if_False Option.bind.simps)
  moreover have "take (fsize s + ?n) (overwrite (fsize s) (take ?n bytes) (fbuffer s)) =
      take (fsize s) (fbuffer s) @ take ?n bytes"
    by (rule take_overwrite) (use fits in auto)
  ultimately show ?thesis
    using assms length_overwrite [OF fits] fits by (simp add: fixed_ready_def fixed_Written_def)
qed

interpretation fixed: sink fixed_write fixed_ready fixed_Written
proof
  fix s :: fixed_sink and bytes :: "byte list" assume "fixed_ready s"
  from fixed_write_law [OF this, of bytes] obtain s' r where
    "fixed_write s bytes = Some (s', r)" "fixed_ready s'"
    "case r of
       Inl e \<Rightarrow> s' = s \<and> bytes \<noteq> [] \<and> fsize s = length (fbuffer s) \<and>
         e = Semantic OverflowCode Write (fsize s) (fsize s)
     | Inr n \<Rightarrow> n = min (length bytes) (length (fbuffer s) - fsize s) \<and> fsize s' = fsize s + n \<and>
         fixed_Written s' = fixed_Written s @ take n bytes" by blast
  then show "\<exists>s' r. fixed_write s bytes = Some (s', r) \<and> fixed_ready s' \<and>
      (case r of Inl e \<Rightarrow> fixed_Written s' = fixed_Written s
       | Inr n \<Rightarrow> n \<le> length bytes \<and> fixed_Written s' = fixed_Written s @ take n bytes)"
    by (cases r) auto
qed

lemma memory_write_law:
  assumes "vec_obj v xs" and "length bytes < 2 ^ 63"
  shows "memory_write (machine mem) v bytes = Some (v, Inl (Semantic OutOfMemory AllocateOp 0 0)) \<and>
      denies mem v (request_more v (length xs + length bytes)) \<or>
    (\<exists>v'. memory_write (machine mem) v bytes = Some (v', Inr (length bytes)) \<and>
      vec_obj v' (xs @ bytes) \<and> vec_same (machine mem) v v' \<and>
      \<not> denies mem v (request_more v (length xs + length bytes)))"
proof -
  note r = vec_repD [OF vec_obj_rep [OF assms(1)]]
  have "vcap v < 2 ^ 63" using assms(1) by (simp add: vec_obj_def)
  with r(3) assms(2) have "length xs + length bytes < 2 ^ 64" by simp
  then have u: "usz (length xs + length bytes) = length xs + length bytes" by simp
  consider (no) "vec_Resize (machine mem) v (length xs + length bytes) (Temp 0) = Some (v, False)"
      "denies mem v (request_more v (length xs + length bytes))"
    | (yes) w where "vec_Resize (machine mem) v (length xs + length bytes) (Temp 0) = Some (w, True)"
      "vec_obj w (xs @ replicate (length bytes) 0)" "vec_same (machine mem) v w"
      "\<not> denies mem v (request_more v (length xs + length bytes))"
    using resize_obj [OF assms(1), of mem "length xs + length bytes" 0] by auto
  then show ?thesis
  proof cases
    case no
    then show ?thesis by (simp add: memory_write_def u r(2) Let_def)
  next
    case (yes w)
    have "\<exists>v'. for_up 0 (length bytes) (\<lambda>i v. storage_set v (length xs + i) (bytes ! i)) w = Some v' \<and>
        vec_rep v' (overwrite (length xs) bytes (xs @ replicate (length bytes) 0)) \<and> vec_kept w v'"
      by (rule overwrite_run [OF vec_obj_rep [OF yes(2)]]) simp_all
    then obtain v' where v': "for_up 0 (length bytes)
        (\<lambda>i v. storage_set v (length xs + i) (bytes ! i)) w = Some v'"
      "vec_rep v' (xs @ bytes)" "vec_kept w v'" by (auto simp: overwrite_def)
    have "vec_obj v' (xs @ bytes)" by (rule vec_obj_kept [OF yes(2) v'(2,3)])
    moreover have "vec_same (machine mem) v v'"
      by (rule vec_same_trans [OF yes(3) vec_kept_same [OF v'(3)]])
    moreover have "memory_write (machine mem) v bytes = Some (v', Inr (length bytes))"
      using yes(1) v'(1) by (simp add: memory_write_def u r(2) Let_def)
    ultimately show ?thesis using yes(4) by blast
  qed
qed

lemma vec_obj_items: "vec_obj v xs \<Longrightarrow> vec_items v = xs"
  by (rule vec_rep_items [OF vec_obj_rep])

interpretation memory: sink "memory_write (machine mem)" memory_ready vec_items for mem
proof
  fix v :: "byte vec" and bytes :: "byte list"
  assume "memory_ready v" and len: "length bytes < 2 ^ 63"
  then obtain xs where xs: "vec_obj v xs" by (auto simp: memory_ready_def)
  from memory_write_law [OF this len, of mem] xs
  show "\<exists>s' r. memory_write (machine mem) v bytes = Some (s', r) \<and> memory_ready s' \<and>
      (case r of Inl e \<Rightarrow> vec_items s' = vec_items v
       | Inr n \<Rightarrow> n \<le> length bytes \<and> vec_items s' = vec_items v @ take n bytes)"
    by (auto simp: memory_ready_def vec_obj_items)
qed

interpretation memory_source: source memory_read memory_source_ready memory_rest
proof
  fix s :: memory_source and n :: nat assume "memory_source_ready s"
  moreover from this have "mposition s + n \<le> length (mdata s)" if "n < length (mdata s) - mposition s"
    using that by (simp add: memory_source_ready_def)
  ultimately show "\<exists>s' r. memory_read s n = Some (s', r) \<and> memory_source_ready s' \<and>
      (case r of Inl e \<Rightarrow> memory_rest s' = memory_rest s
       | Inr (bs, at_end) \<Rightarrow> length bs \<le> n \<and> memory_rest s = bs @ memory_rest s' \<and>
           (at_end \<longrightarrow> memory_rest s' = []))"
    by (simp add: memory_read_def memory_source_ready_def memory_rest_def Let_def take_drop_rest)
qed

section \<open>Properties\<close>

text \<open>\<open>WriteAll\<close> into a fixed buffer. When the bytes fit they are appended and it succeeds. When they
  do not, the buffer is filled with the front of them and the error is \<open>Overflow\<close>, whose \<open>Transferred\<close>
  counts the bytes the buffer held before the call, and those of this call twice: the buffer's own
  error already contains them.\<close>

theorem WriteAll_fixed:
  assumes "fixed_ready s" and "length bytes < 2 ^ 63"
  shows "if length bytes \<le> length (fbuffer s) - fsize s
    then \<exists>s'. WriteAll fixed_write s bytes = Some (s', Inr ()) \<and>
      fixed_Written s' = fixed_Written s @ bytes
    else \<exists>s' e. WriteAll fixed_write s bytes = Some (s', Inl e) \<and>
      fixed_Written s' = fixed_Written s @ take (length (fbuffer s) - fsize s) bytes \<and>
      code e = OverflowCode \<and>
      transferred e = length (fbuffer s) + (length (fbuffer s) - fsize s)"
proof -
  let ?room = "length (fbuffer s) - fsize s"
  from fixed_write_law [OF assms(1), of bytes] obtain s1 r where s1:
    "fixed_write s bytes = Some (s1, r)" "fixed_ready s1" "length (fbuffer s1) = length (fbuffer s)"
    "case r of
       Inl e \<Rightarrow> s1 = s \<and> bytes \<noteq> [] \<and> fsize s = length (fbuffer s) \<and>
         e = Semantic OverflowCode Write (fsize s) (fsize s)
     | Inr n \<Rightarrow> n = min (length bytes) ?room \<and> fsize s1 = fsize s + n \<and>
         fixed_Written s1 = fixed_Written s @ take n bytes" by blast
  have lim: "fsize s \<le> length (fbuffer s)" "length (fbuffer s) < 2 ^ 63"
    using assms(1) by (auto simp: fixed_ready_def)
  note start = write_loop.simps [of fixed_write bytes s 0]
  consider (nothing) "bytes = []" | (full) "bytes \<noteq> []" "?room = 0"
    | (fits) "bytes \<noteq> []" "0 < ?room" "length bytes \<le> ?room"
    | (overflow) "0 < ?room" "?room < length bytes" by force
  then show ?thesis
  proof cases
    case nothing
    then show ?thesis by (simp add: WriteAll_def write_loop.simps)
  next
    case full
    with s1 have "r = Inl (Semantic OverflowCode Write (fsize s) (fsize s))" "s1 = s"
      by (auto simp: fixed_write_def)
    with full s1(1) lim start show ?thesis
      by (simp add: WriteAll_def add_transferred_def Semantic_def)
  next
    case fits
    with s1 have r: "r = Inr (length bytes)" "fixed_Written s1 = fixed_Written s @ bytes"
      by (auto simp: fixed_write_def Let_def mem_copy_def split: if_splits)
    with fits s1(1) start assms(2) show ?thesis
      by (simp add: WriteAll_def write_loop.simps [of fixed_write bytes s1 "length bytes"])
  next
    case overflow
    with s1 have r: "r = Inr ?room" "fixed_Written s1 = fixed_Written s @ take ?room bytes"
      "fsize s1 = length (fbuffer s)"
      by (auto simp: fixed_write_def Let_def mem_copy_def split: if_splits)
    have "drop ?room bytes \<noteq> []" "bytes \<noteq> []" using overflow by auto
    note ne = this(2)
    from overflow(2) r(3) s1(3) have "fixed_write s1 (drop ?room bytes) =
        Some (s1, Inl (Semantic OverflowCode Write (fsize s1) (fsize s1)))"
      by (simp add: fixed_write_def)
    with ne r s1(1,3) start lim overflow assms(2) show ?thesis
      by (simp add: WriteAll_def write_loop.simps [of fixed_write bytes s1 ?room]
          add_transferred_def Semantic_def)
  qed
qed

theorem WriteAll_fixed_witness:
  "\<exists>s' e. WriteAll fixed_write \<lparr>fbuffer = [0, 0, 0, 0], fsize = 0\<rparr> [1, 2, 3, 4, 5, 6] = Some (s', Inl e) \<and>
    fixed_Written s' = [1, 2, 3, 4] \<and> code e = OverflowCode \<and> transferred e = 8"
proof -
  have r: "fixed_ready \<lparr>fbuffer = [0, 0, 0, 0], fsize = 0\<rparr>" by (simp add: fixed_ready_def)
  have "length [1, 2, 3, 4, 5, 6 :: byte] < 2 ^ 63" by simp
  from WriteAll_fixed [OF r this] show ?thesis
    by (simp add: fixed_Written_def eval_nat_numeral)
qed

text \<open>\<open>WriteAll\<close> into a growing memory sink always returns. It appends all of the bytes, or the
  allocator has refused the storage for them and the sink is as it was.\<close>

theorem WriteAll_memory:
  assumes "vec_obj v xs" and "length bytes < 2 ^ 63"
  shows "\<exists>v' r. WriteAll (memory_write (machine mem)) v bytes = Some (v', r) \<and>
    (case r of Inr _ \<Rightarrow> vec_obj v' (xs @ bytes)
     | Inl e \<Rightarrow> code e = OutOfMemory \<and> v' = v \<and>
         denies mem v (request_more v (length xs + length bytes)))"
proof (cases "bytes = []")
  case True
  with assms(1) show ?thesis by (simp add: WriteAll_def write_loop.simps)
next
  case False
  from memory_write_law [OF assms, of mem] show ?thesis
  proof (elim disjE exE conjE)
    fix v' assume "memory_write (machine mem) v bytes = Some (v', Inr (length bytes))"
      "vec_obj v' (xs @ bytes)"
    with False assms(2) show ?thesis
      by (simp add: WriteAll_def write_loop.simps [of _ bytes v 0]
          write_loop.simps [of _ bytes v' "length bytes"])
  next
    assume "memory_write (machine mem) v bytes = Some (v, Inl (Semantic OutOfMemory AllocateOp 0 0))"
      "denies mem v (request_more v (length xs + length bytes))"
    with False show ?thesis
      by (simp add: WriteAll_def write_loop.simps [of _ bytes v 0] add_transferred_def Semantic_def)
  qed
qed

theorem WriteAll_memory_witness:
  "\<exists>v'. WriteAll (memory_write (machine (\<lambda>_. True))) (vec_empty 1 True) [7, 8] = Some (v', Inr ()) \<and>
    vec_obj v' [7, 8]"
proof -
  have obj: "vec_obj (vec_empty 1 True :: byte vec) []"
    by (simp add: vec_obj_def vec_rep_def vec_empty_def)
  have len: "length [7, 8 :: byte] < 2 ^ 63" by simp
  have grant: "\<not> denies (\<lambda>_. True) (vec_empty 1 True :: byte vec)
      (request_more (vec_empty 1 True :: byte vec) (length ([] :: byte list) + length [7, 8 :: byte]))"
    by (simp add: denies_def request_more_def machine_def vec_empty_def)
  from WriteAll_memory [OF obj len, of "\<lambda>_. True"] obtain v' r where
    "WriteAll (memory_write (machine (\<lambda>_. True))) (vec_empty 1 True) [7, 8] = Some (v', r)"
    "case r of Inr _ \<Rightarrow> vec_obj v' ([] @ [7, 8])
     | Inl e \<Rightarrow> code e = OutOfMemory \<and> v' = vec_empty 1 True \<and>
         denies (\<lambda>_. True) (vec_empty 1 True :: byte vec)
           (request_more (vec_empty 1 True :: byte vec) (length ([] :: byte list) + length [7, 8 :: byte]))"
    by blast
  with grant show ?thesis by (cases r) auto
qed

text \<open>\<open>ReadExact\<close> from a memory source always returns. It succeeds exactly when the source has that
  many bytes left, and then the destination holds the next ones and the position moves past them;
  otherwise the error is \<open>UnexpectedEndOfFile\<close>.\<close>

theorem ReadExact_memory:
  assumes "mposition s \<le> length (mdata s)"
  shows "\<exists>s' out r. ReadExact memory_read s n = Some (s', out, r) \<and>
    out = take n (drop (mposition s) (mdata s)) \<and> s' = s\<lparr>mposition := mposition s + length out\<rparr> \<and>
    (case r of Inr _ \<Rightarrow> n \<le> length (mdata s) - mposition s
     | Inl e \<Rightarrow> length (mdata s) - mposition s < n \<and> code e = UnexpectedEndOfFile)"
proof (cases "n = 0")
  case True
  then show ?thesis by (simp add: ReadExact_def read_loop.simps)
next
  case False
  show ?thesis
  proof (cases "n \<le> length (mdata s) - mposition s")
    case True
    let ?bs = "take n (drop (mposition s) (mdata s))"
    have "memory_read s n = Some (s\<lparr>mposition := mposition s + n\<rparr>, Inr (?bs, mposition s + n = length (mdata s)))"
      using True by (auto simp: memory_read_def Let_def)
    moreover have "?bs \<noteq> []" using False True by simp
    ultimately show ?thesis
      using True False by (simp add: ReadExact_def read_loop.simps [of _ _ s] read_loop.simps [of _ _ _ ?bs])
  next
    case short: False
    let ?bs = "drop (mposition s) (mdata s)"
    have "memory_read s n = Some (s\<lparr>mposition := length (mdata s)\<rparr>, Inr (?bs, True))"
      using short assms by (simp add: memory_read_def Let_def)
    then show ?thesis
      using False short assms by (simp add: ReadExact_def read_loop.simps [of _ _ s] Semantic_def)
  qed
qed

theorem ReadExact_memory_witness:
  "\<exists>s' out r. ReadExact memory_read \<lparr>mdata = [1, 2, 3, 4], mposition = 1\<rparr> 2 = Some (s', out, r) \<and>
    out = [2, 3] \<and> mposition s' = 3 \<and> r = Inr ()"
proof -
  let ?s = "\<lparr>mdata = [1, 2, 3, 4], mposition = 1\<rparr>"
  have "mposition ?s \<le> length (mdata ?s)" by simp
  from ReadExact_memory [OF this, of 2] obtain s' out r where
    "ReadExact memory_read ?s 2 = Some (s', out, r)"
    "out = take 2 (drop (mposition ?s) (mdata ?s))" "s' = ?s\<lparr>mposition := mposition ?s + length out\<rparr>"
    "case r of Inr _ \<Rightarrow> 2 \<le> length (mdata ?s) - mposition ?s
     | Inl e \<Rightarrow> length (mdata ?s) - mposition ?s < 2 \<and> code e = UnexpectedEndOfFile" by blast
  then show ?thesis by (cases r) auto
qed

text \<open>A tee does not keep the sink contract. When the first sink takes all of the bytes and the second
  fails, \<open>WriteSome\<close> reports an error although the first has them, so a caller that offers the bytes
  again, as a buffered sink does, duplicates them in the first.\<close>

theorem tee_fails_after_writing:
  assumes "bytes \<noteq> []"
    and "WriteAll w1 s bytes = Some (s', Inr ())" and "WriteAll w2 t bytes = Some (t', Inl e)"
  shows "tee_write w1 w2 (s, t) bytes = Some ((s', t'), Inl e) \<and>
    WriteAll (tee_write w1 w2) (s, t) bytes = Some ((s', t'), Inl (add_transferred e 0))"
proof
  show tee: "tee_write w1 w2 (s, t) bytes = Some ((s', t'), Inl e)"
    using assms(2,3) by (simp add: tee_write_def)
  show "WriteAll (tee_write w1 w2) (s, t) bytes = Some ((s', t'), Inl (add_transferred e 0))"
    unfolding WriteAll_def write_loop.simps [of "tee_write w1 w2" bytes "(s, t)" 0]
    using assms(1) by (simp add: tee)
qed

theorem tee_fails_after_writing_witness:
  "\<exists>s t e. tee_write fixed_write fixed_write
      (\<lparr>fbuffer = [0, 0], fsize = 0\<rparr>, \<lparr>fbuffer = [], fsize = 0\<rparr>) [5, 6] = Some ((s, t), Inl e) \<and>
    fixed_Written s = [5, 6]"
proof -
  have "WriteAll fixed_write \<lparr>fbuffer = [0, 0], fsize = 0\<rparr> [5, 6] =
      Some (\<lparr>fbuffer = [5, 6], fsize = 2\<rparr>, Inr ())"
    by (simp add: WriteAll_def write_loop.simps fixed_write_def mem_copy_def overwrite_def)
  moreover have "WriteAll fixed_write \<lparr>fbuffer = [], fsize = 0\<rparr> [5, 6] =
      Some (\<lparr>fbuffer = [], fsize = 0\<rparr>, Inl (add_transferred (Semantic OverflowCode Write 0 0) 0))"
    by (simp add: WriteAll_def write_loop.simps fixed_write_def)
  ultimately show ?thesis
    using tee_fails_after_writing [of "[5, 6]" fixed_write "\<lparr>fbuffer = [0, 0], fsize = 0\<rparr>"
        "\<lparr>fbuffer = [5, 6], fsize = 2\<rparr>" fixed_write "\<lparr>fbuffer = [], fsize = 0\<rparr>"
        "\<lparr>fbuffer = [], fsize = 0\<rparr>" "add_transferred (Semantic OverflowCode Write 0 0) 0"]
    by (simp add: fixed_Written_def)
qed

end
