(* ===== verification/Buffered.thy ===== *)
theory Buffered
  imports Sinks
begin

text \<open>
  \<^verbatim>\<open>IO/Adapter/Buffered.hpp\<close>: \<open>BufferedSink\<close> over any sink and \<open>BufferedSource\<close> over any source. Their
  buffers are arrays of \<open>Capacity\<close> bytes, of which a part is in use. Over a sink that keeps the
  contract of theory IoCore the buffered sink keeps it too, and over a source the buffered source
  does, so adapters stack.
\<close>

section \<open>BufferedSink\<close>

record 's buffered_sink =
  bsink :: "'s"
  sbuffer :: "byte list"
  slength :: nat

text \<open>The loop of \<open>FlushBuffer\<close>; it returns the sink, \<^verbatim>\<open>Written\<close> and the outcome.\<close>

partial_function (option) flush_loop ::
  "'s write_some \<Rightarrow> byte list \<Rightarrow> nat \<Rightarrow> 's \<Rightarrow> nat \<Rightarrow> ('s \<times> nat \<times> (io_error + unit)) option" where
  "flush_loop write_some buf len s written =
     (if written < len then
        Option.bind (write_some s (take (len - written) (drop written buf))) (\<lambda>(s, r).
          case r of
            Inl e \<Rightarrow> Some (s, written, Inl (add_transferred e written))
          | Inr n \<Rightarrow>
              if n = 0 then Some (s, written, Inl (Semantic NoProgress Write 0 written))
              else flush_loop write_some buf len s (usz (written + n)))
      else Some (s, written, Inr ()))"

definition FlushBuffer :: "'s write_some \<Rightarrow> 's buffered_sink io_action" where
  "FlushBuffer write_some b =
     do { (s, written, r) \<leftarrow> flush_loop write_some (sbuffer b) (slength b) (bsink b) 0;
          case r of
            Inl e \<Rightarrow>
              if written \<noteq> 0 then
                do { buf \<leftarrow> mem_move (sbuffer b) 0 written (slength b - written);
                     Some (\<lparr>bsink = s, sbuffer = buf, slength = slength b - written\<rparr>, Inl e) }
              else Some (b\<lparr>bsink := s\<rparr>, Inl e)
          | Inr _ \<Rightarrow> Some (b\<lparr>bsink := s, slength := 0\<rparr>, Inr ()) }"

text \<open>The loop of \<open>WriteSome\<close>. \<^verbatim>\<open>Capacity\<close> is the length of the buffer array.\<close>

partial_function (option) buffered_loop ::
  "'s write_some \<Rightarrow> byte list \<Rightarrow> 's buffered_sink \<Rightarrow> nat \<Rightarrow>
    ('s buffered_sink \<times> (io_error + nat)) option" where
  "buffered_loop write_some bytes b accepted =
     (if accepted < length bytes then
        Option.bind (if slength b = length (sbuffer b) then FlushBuffer write_some b
                     else Some (b, Inr ())) (\<lambda>(b, r).
          case r of
            Inl e \<Rightarrow> if accepted \<noteq> 0 then Some (b, Inr accepted) else Some (b, Inl e)
          | Inr _ \<Rightarrow>
              let available = length (sbuffer b) - slength b;
                  remaining = length bytes - accepted;
                  cnt = (if available < remaining then available else remaining)
              in Option.bind (mem_copy (sbuffer b) (slength b) (take cnt (drop accepted bytes))) (\<lambda>buf.
                   buffered_loop write_some bytes
                     (b\<lparr>sbuffer := buf, slength := slength b + cnt\<rparr>) (accepted + cnt)))
      else Some (b, Inr accepted))"

definition buffered_write :: "'s write_some \<Rightarrow> 's buffered_sink write_some" where
  "buffered_write write_some b bytes =
     (if bytes = [] then Some (b, Inr 0) else buffered_loop write_some bytes b 0)"

definition buffered_Flush :: "'s write_some \<Rightarrow> 's io_action \<Rightarrow> 's buffered_sink io_action" where
  "buffered_Flush write_some flush b =
     do { (b, r) \<leftarrow> FlushBuffer write_some b;
          case r of
            Inl e \<Rightarrow> Some (b, Inl e)
          | Inr _ \<Rightarrow> do { (s, r) \<leftarrow> flush (bsink b); Some (b\<lparr>bsink := s\<rparr>, r) } }"

definition buffered_Close ::
  "'s write_some \<Rightarrow> 's io_action \<Rightarrow> 's io_action \<Rightarrow> 's buffered_sink io_action" where
  "buffered_Close write_some flush close b =
     do { (b, r) \<leftarrow> buffered_Flush write_some flush b;
          case r of
            Inl e \<Rightarrow> Some (b, Inl e)
          | Inr _ \<Rightarrow> do { (s, r) \<leftarrow> close (bsink b); Some (b\<lparr>bsink := s\<rparr>, r) } }"

text \<open>What has been taken: what the sink has, then what is in use of the buffer.\<close>

definition buffered_sunk :: "('s \<Rightarrow> byte list) \<Rightarrow> 's buffered_sink \<Rightarrow> byte list" where
  "buffered_sunk sunk b = sunk (bsink b) @ take (slength b) (sbuffer b)"

definition buffered_ready :: "('s \<Rightarrow> bool) \<Rightarrow> 's buffered_sink \<Rightarrow> bool" where
  "buffered_ready ready b \<longleftrightarrow> ready (bsink b) \<and> slength b \<le> length (sbuffer b) \<and>
     sbuffer b \<noteq> [] \<and> length (sbuffer b) < 2 ^ 63"

context sink
begin

lemma flush_loop_law:
  assumes "ready s" and "written \<le> len" and "len \<le> length buf" and "len < 2 ^ 63"
  shows "\<exists>s' n r. flush_loop write_some buf len s written = Some (s', n, r) \<and> ready s' \<and>
    written \<le> n \<and> n \<le> len \<and> sunk s' = sunk s @ take (n - written) (drop written buf) \<and>
    (is_ok r \<longrightarrow> n = len)"
  using assms
proof (induction "len - written" arbitrary: s written rule: less_induct)
  case less
  show ?case
  proof (cases "written < len")
    case False
    with less.prems show ?thesis by (subst flush_loop.simps) simp
  next
    case True
    let ?bs = "take (len - written) (drop written buf)"
    have lbs: "length ?bs = len - written" using less.prems(3) by simp
    have "length ?bs < 2 ^ 63" using less.prems(4) unfolding lbs by simp
    from write_law [OF less.prems(1) this] obtain s1 r where s1:
      "write_some s ?bs = Some (s1, r)" "ready s1"
      "case r of Inl e \<Rightarrow> sunk s1 = sunk s
       | Inr n \<Rightarrow> n \<le> length ?bs \<and> sunk s1 = sunk s @ take n ?bs" by blast
    show ?thesis
    proof (cases r)
      case (Inl e)
      with s1 True show ?thesis by (subst flush_loop.simps) simp
    next
      case (Inr n)
      with s1(3) lbs have n: "n \<le> len - written" "sunk s1 = sunk s @ take n (drop written buf)"
        by (auto simp: min_def)
      show ?thesis
      proof (cases "n = 0")
        case True
        with s1(1,2) Inr n \<open>written < len\<close> show ?thesis by (subst flush_loop.simps) simp
      next
        case False
        have le: "written + n \<le> len" using n(1) less.prems(2) by simp
        with less.prems(4) have u: "usz (written + n) = written + n" by simp
        have "\<exists>s' k r. flush_loop write_some buf len s1 (written + n) = Some (s', k, r) \<and> ready s' \<and>
            written + n \<le> k \<and> k \<le> len \<and>
            sunk s' = sunk s1 @ take (k - (written + n)) (drop (written + n) buf) \<and>
            (is_ok r \<longrightarrow> k = len)"
          by (rule less.hyps) (use True False le s1(2) less.prems(3,4) in auto)
        then obtain s2 k r2 where s2:
          "flush_loop write_some buf len s1 (written + n) = Some (s2, k, r2)" "ready s2"
          "written + n \<le> k" "k \<le> len"
          "sunk s2 = sunk s1 @ take (k - (written + n)) (drop (written + n) buf)"
          "is_ok r2 \<longrightarrow> k = len" by blast
        have "take n (drop written buf) @ take (k - (written + n)) (drop (written + n) buf) =
            take (n + (k - (written + n))) (drop written buf)"
          using take_drop_append [of n "drop written buf"] by (simp add: add.commute)
        also have "n + (k - (written + n)) = k - written" using s2(3) by simp
        finally have "sunk s2 = sunk s @ take (k - written) (drop written buf)"
          using s2(5) n(2) by simp
        with s2 s1(1) Inr False True u show ?thesis
          by (subst flush_loop.simps) simp
      qed
    qed
  qed
qed

text \<open>\<open>FlushBuffer\<close> always returns and loses or repeats nothing: the bytes the sink took leave the buffer,
  the others stay in it. It empties the buffer when it succeeds.\<close>

lemma FlushBuffer_law:
  assumes "buffered_ready ready b"
  shows "\<exists>b' r. FlushBuffer write_some b = Some (b', r) \<and> buffered_ready ready b' \<and>
    buffered_sunk sunk b' = buffered_sunk sunk b \<and> length (sbuffer b') = length (sbuffer b) \<and>
    (is_ok r \<longrightarrow> slength b' = 0)"
proof -
  note b = assms [unfolded buffered_ready_def]
  from b have "slength b < 2 ^ 63" by simp
  with flush_loop_law [of "bsink b" 0 "slength b" "sbuffer b"] b obtain s n r where s:
    "flush_loop write_some (sbuffer b) (slength b) (bsink b) 0 = Some (s, n, r)" "ready s"
    "n \<le> slength b" "sunk s = sunk (bsink b) @ take n (sbuffer b)" "is_ok r \<longrightarrow> n = slength b"
    by auto
  have split: "take n (sbuffer b) @ take (slength b - n) (drop n (sbuffer b)) =
      take (slength b) (sbuffer b)"
    using take_drop_append [of n "sbuffer b" "slength b - n"] s(3) by simp
  show ?thesis
  proof (cases r)
    case (Inr u)
    with s b show ?thesis by (simp add: FlushBuffer_def buffered_ready_def buffered_sunk_def)
  next
    case (Inl e)
    show ?thesis
    proof (cases "n = 0")
      case True
      with s b Inl show ?thesis by (simp add: FlushBuffer_def buffered_ready_def buffered_sunk_def)
    next
      case False
      let ?moved = "take (slength b - n) (drop n (sbuffer b))"
      let ?buf = "overwrite 0 ?moved (sbuffer b)"
      have bound: "n + (slength b - n) \<le> length (sbuffer b)" "0 + (slength b - n) \<le> length (sbuffer b)"
        using s(3) b by auto
      have lm: "length ?moved = slength b - n" using bound by simp
      then have lb: "length ?buf = length (sbuffer b)" using bound by (intro length_overwrite) simp
      have tk: "take (slength b - n) ?buf = ?moved"
        using take_overwrite [of 0 ?moved "slength b - n" "sbuffer b"] lm bound by simp
      have "FlushBuffer write_some b =
          Some (\<lparr>bsink = s, sbuffer = ?buf, slength = slength b - n\<rparr>, Inl e)"
        using s(1) Inl False mem_move_Some [OF bound] by (simp add: FlushBuffer_def)
      moreover have "buffered_ready ready \<lparr>bsink = s, sbuffer = ?buf, slength = slength b - n\<rparr>"
      proof -
        have "?buf \<noteq> []" using lb b by (metis length_0_conv)
        with lb b s(2) bound show ?thesis by (simp add: buffered_ready_def)
      qed
      moreover have "buffered_sunk sunk \<lparr>bsink = s, sbuffer = ?buf, slength = slength b - n\<rparr> =
          buffered_sunk sunk b"
        by (simp add: buffered_sunk_def tk s(4) split)
      ultimately show ?thesis using lb by auto
    qed
  qed
qed

lemma buffered_loop_law:
  assumes "buffered_ready ready b" and "accepted \<le> length bytes"
  shows "\<exists>b' r n. buffered_loop write_some bytes b accepted = Some (b', r) \<and> buffered_ready ready b' \<and>
    accepted \<le> n \<and> n \<le> length bytes \<and>
    buffered_sunk sunk b' = buffered_sunk sunk b @ take (n - accepted) (drop accepted bytes) \<and>
    (case r of Inl e \<Rightarrow> n = 0 | Inr m \<Rightarrow> m = n)"
  using assms
proof (induction "length bytes - accepted" arbitrary: b accepted rule: less_induct)
  case less
  show ?case
  proof (cases "accepted < length bytes")
    case False
    with less.prems show ?thesis by (subst buffered_loop.simps) simp
  next
    case True
    have "\<exists>b1 r. (if slength b = length (sbuffer b) then FlushBuffer write_some b else Some (b, Inr ())) =
        Some (b1, r) \<and> buffered_ready ready b1 \<and> buffered_sunk sunk b1 = buffered_sunk sunk b \<and>
        (is_ok r \<longrightarrow> slength b1 < length (sbuffer b1))"
    proof (cases "slength b = length (sbuffer b)")
      case True
      from FlushBuffer_law [OF less.prems(1)] obtain b1 r where b1:
        "FlushBuffer write_some b = Some (b1, r)" "buffered_ready ready b1"
        "buffered_sunk sunk b1 = buffered_sunk sunk b" "is_ok r \<longrightarrow> slength b1 = 0" by blast
      with True show ?thesis by (auto simp: buffered_ready_def)
    next
      case False
      with less.prems(1) show ?thesis by (auto simp: buffered_ready_def)
    qed
    then obtain b1 r where b1:
      "(if slength b = length (sbuffer b) then FlushBuffer write_some b else Some (b, Inr ())) =
        Some (b1, r)" "buffered_ready ready b1" "buffered_sunk sunk b1 = buffered_sunk sunk b"
      "is_ok r \<longrightarrow> slength b1 < length (sbuffer b1)" by blast
    note unfold = buffered_loop.simps [of write_some bytes b accepted]
    show ?thesis
    proof (cases r)
      case (Inl e)
      with b1 True unfold show ?thesis
        by (cases "accepted = 0") (auto intro!: exI [of _ accepted] simp del: if_split)
    next
      case (Inr u)
      define cnt where "cnt = (if length (sbuffer b1) - slength b1 < length bytes - accepted
        then length (sbuffer b1) - slength b1 else length bytes - accepted)"
      let ?src = "take cnt (drop accepted bytes)"
      let ?buf = "overwrite (slength b1) ?src (sbuffer b1)"
      let ?b2 = "b1\<lparr>sbuffer := ?buf, slength := slength b1 + cnt\<rparr>"
      have pos: "0 < cnt" "accepted + cnt \<le> length bytes" "slength b1 + cnt \<le> length (sbuffer b1)"
        using b1(4) Inr True by (auto simp: cnt_def)
      have ls: "length ?src = cnt" using pos(2) by simp
      then have bound: "slength b1 + length ?src \<le> length (sbuffer b1)" using pos(3) by simp
      have ready2: "buffered_ready ready ?b2"
      proof -
        have "sbuffer b1 \<noteq> []" using b1(2) by (simp add: buffered_ready_def)
        then have "?buf \<noteq> []" using length_overwrite [OF bound] by (metis length_0_conv)
        with b1(2) length_overwrite [OF bound] pos(3) show ?thesis by (simp add: buffered_ready_def)
      qed
      have "take (slength b1 + cnt) ?buf = take (slength b1) (sbuffer b1) @ ?src"
        using take_overwrite [OF _ pos(3), of "slength b1" ?src] ls by simp
      then have sunk2: "buffered_sunk sunk ?b2 = buffered_sunk sunk b @ ?src"
        using b1(3) by (simp add: buffered_sunk_def)
      have step: "buffered_loop write_some bytes b accepted =
          buffered_loop write_some bytes ?b2 (accepted + cnt)"
        unfolding unfold using b1(1) True Inr mem_copy_Some [OF bound]
        by (simp add: cnt_def [symmetric] Let_def)
      have "\<exists>b' r n. buffered_loop write_some bytes ?b2 (accepted + cnt) = Some (b', r) \<and>
          buffered_ready ready b' \<and> accepted + cnt \<le> n \<and> n \<le> length bytes \<and>
          buffered_sunk sunk b' = buffered_sunk sunk ?b2 @
            take (n - (accepted + cnt)) (drop (accepted + cnt) bytes) \<and>
          (case r of Inl e \<Rightarrow> n = 0 | Inr m \<Rightarrow> m = n)"
        by (rule less.hyps) (use True pos ready2 in auto)
      then obtain b3 r3 n where b3: "buffered_loop write_some bytes ?b2 (accepted + cnt) = Some (b3, r3)"
        "buffered_ready ready b3" "accepted + cnt \<le> n" "n \<le> length bytes"
        "buffered_sunk sunk b3 = buffered_sunk sunk ?b2 @
            take (n - (accepted + cnt)) (drop (accepted + cnt) bytes)"
        "case r3 of Inl e \<Rightarrow> n = 0 | Inr m \<Rightarrow> m = n" by blast
      have "?src @ take (n - (accepted + cnt)) (drop (accepted + cnt) bytes) =
          take (cnt + (n - (accepted + cnt))) (drop accepted bytes)"
        using take_drop_append [of cnt "drop accepted bytes"] by (simp add: add.commute)
      also have "cnt + (n - (accepted + cnt)) = n - accepted" using b3(3) by simp
      finally have "buffered_sunk sunk b3 =
          buffered_sunk sunk b @ take (n - accepted) (drop accepted bytes)"
        using b3(5) sunk2 by simp
      with b3 step show ?thesis by (intro exI [of _ b3] exI [of _ r3] exI [of _ n]) simp
    qed
  qed
qed

lemma buffered_write_law:
  assumes "buffered_ready ready b"
  shows "\<exists>b' r. buffered_write write_some b bytes = Some (b', r) \<and> buffered_ready ready b' \<and>
    (case r of Inl e \<Rightarrow> buffered_sunk sunk b' = buffered_sunk sunk b
     | Inr n \<Rightarrow> n \<le> length bytes \<and> buffered_sunk sunk b' = buffered_sunk sunk b @ take n bytes)"
proof (cases "bytes = []")
  case True
  with assms show ?thesis by (simp add: buffered_write_def)
next
  case False
  from buffered_loop_law [OF assms, of 0 bytes] obtain b' r n where
    "buffered_loop write_some bytes b 0 = Some (b', r)" "buffered_ready ready b'" "n \<le> length bytes"
    "buffered_sunk sunk b' = buffered_sunk sunk b @ take n bytes"
    "case r of Inl e \<Rightarrow> n = 0 | Inr m \<Rightarrow> m = n" by auto
  with False show ?thesis by (cases r) (simp_all add: buffered_write_def)
qed

text \<open>A buffered sink over a sink is a sink.\<close>

lemma buffered_is_sink: "sink (buffered_write write_some) (buffered_ready ready) (buffered_sunk sunk)"
  by unfold_locales (rule buffered_write_law)

end

interpretation buffered_fixed: sink "buffered_write fixed_write" "buffered_ready fixed_ready"
    "buffered_sunk fixed_Written"
  by (rule fixed.buffered_is_sink)

interpretation buffered_memory: sink "buffered_write (memory_write (machine mem))"
    "buffered_ready memory_ready" "buffered_sunk vec_items" for mem
  by (rule memory.buffered_is_sink)

section \<open>BufferedSource\<close>

record 's buffered_source =
  bsource :: "'s"
  rbuffer :: "byte list"
  rposition :: nat
  rlength :: nat
  rlogical :: nat
  rend :: bool

definition Fill :: "'s read_some \<Rightarrow> 's buffered_source io_action" where
  "Fill read_some b =
     (let b = b\<lparr>rposition := 0, rlength := 0\<rparr>
      in if rend b then Some (b, Inr ())
         else
           do { (s, r) \<leftarrow> read_some (bsource b) (length (rbuffer b));
                case r of
                  Inl e \<Rightarrow> Some (b\<lparr>bsource := s\<rparr>, Inl e)
                | Inr (bs, at_end) \<Rightarrow>
                    do { buf \<leftarrow> mem_copy (rbuffer b) 0 bs;
                         let b = b\<lparr>bsource := s, rbuffer := buf, rlength := length bs, rend := at_end\<rparr>;
                         if bs = [] \<and> \<not> at_end then Some (b, Inl (Semantic NoProgress Read 0 0))
                         else Some (b, Inr ()) } })"

definition buffered_read :: "'s read_some \<Rightarrow> 's buffered_source read_some" where
  "buffered_read read_some b n =
     (if n = 0 then Some (b, Inr ([], False))
      else
        do { (b, r) \<leftarrow> (if rposition b = rlength b then Fill read_some b else Some (b, Inr ()));
             case r of
               Inl e \<Rightarrow> Some (b, Inl e)
             | Inr _ \<Rightarrow>
                 if rposition b = rlength b then Some (b, Inr ([], rend b))
                 else
                   (let available = rlength b - rposition b;
                        cnt = (if n < available then n else available);
                        out = take cnt (drop (rposition b) (rbuffer b));
                        b = b\<lparr>rposition := rposition b + cnt, rlogical := usz (rlogical b + cnt)\<rparr>
                    in Some (b, Inr (out, rend b \<and> rposition b = rlength b))) })"

text \<open>The source tests \<^verbatim>\<open>!Length_\<close> only after a \<open>Fill\<close>, whose position is 0, so the test of the position
  above is the same one: on the other path the position is below the length.\<close>

text \<open>The loop of \<open>Peek\<close>: compact or reset the buffer, then read more behind what is in use.\<close>

definition peek_compact :: "'s buffered_source \<Rightarrow> 's buffered_source option" where
  "peek_compact b =
     (if rposition b \<noteq> 0 \<and> rlength b > rposition b then
        do { buf \<leftarrow> mem_move (rbuffer b) 0 (rposition b) (rlength b - rposition b);
             Some (b\<lparr>rbuffer := buf, rlength := rlength b - rposition b, rposition := 0\<rparr>) }
      else if rposition b = rlength b then Some (b\<lparr>rposition := 0, rlength := 0\<rparr>)
      else Some b)"

partial_function (option) peek_loop ::
  "'s read_some \<Rightarrow> nat \<Rightarrow> 's buffered_source \<Rightarrow> ('s buffered_source \<times> (io_error + byte)) option" where
  "peek_loop read_some lookahead b =
     (if usz (rposition b + lookahead) \<ge> rlength b then
        Option.bind (peek_compact b) (\<lambda>b.
          if rend b \<or> rlength b = length (rbuffer b) then
            Some (b, Inl (Semantic (if rend b then EndOfFile else Unsupported) Read
              (usz (rlogical b + lookahead)) 0))
          else
            Option.bind (read_some (bsource b) (length (rbuffer b) - rlength b)) (\<lambda>(s, r).
              case r of
                Inl e \<Rightarrow> Some (b\<lparr>bsource := s\<rparr>, Inl e)
              | Inr (bs, at_end) \<Rightarrow>
                  Option.bind (mem_copy (rbuffer b) (rlength b) bs) (\<lambda>buf.
                    let b = b\<lparr>bsource := s, rbuffer := buf, rlength := rlength b + length bs,
                              rend := at_end\<rparr>
                    in if bs = [] \<and> \<not> at_end then Some (b, Inl (Semantic NoProgress Read 0 0))
                       else peek_loop read_some lookahead b)))
      else
        (let i = usz (rposition b + lookahead)
         in if i < length (rbuffer b) then Some (b, Inr (rbuffer b ! i)) else None))"

definition Peek ::
  "'s read_some \<Rightarrow> 's buffered_source \<Rightarrow> nat \<Rightarrow> ('s buffered_source \<times> (io_error + byte)) option" where
  "Peek read_some b lookahead = peek_loop read_some lookahead b"

fun Consume :: "'s read_some \<Rightarrow> 's buffered_source \<Rightarrow> nat \<Rightarrow> ('s buffered_source \<times> (io_error + unit)) option" where
  "Consume read_some b 0 = Some (b, Inr ())"
| "Consume read_some b (Suc n) =
     do { (b, r) \<leftarrow> Peek read_some b 0;
          case r of
            Inl e \<Rightarrow> Some (b, Inl e)
          | Inr _ \<Rightarrow>
              Consume read_some
                (b\<lparr>rposition := rposition b + 1, rlogical := usz (rlogical b + 1)\<rparr>) n }"

definition buffered_Tell :: "'s buffered_source \<Rightarrow> nat" where
  "buffered_Tell b = rlogical b"

definition buffered_source_Close :: "'s io_action \<Rightarrow> 's buffered_source io_action" where
  "buffered_source_Close close b =
     do { (s, r) \<leftarrow> close (bsource b);
          Some (b\<lparr>bsource := s, rposition := 0, rlength := 0, rend := True\<rparr>, r) }"

definition buffered_Seek ::
  "('s \<Rightarrow> nat \<Rightarrow> 's \<times> (io_error + nat)) \<Rightarrow> 's buffered_source \<Rightarrow> nat \<Rightarrow>
    's buffered_source \<times> (io_error + nat)" where
  "buffered_Seek seek b position =
     (let (s, r) = seek (bsource b) position
      in case r of
           Inl e \<Rightarrow> (b\<lparr>bsource := s\<rparr>, Inl e)
         | Inr p \<Rightarrow> (b\<lparr>bsource := s, rposition := 0, rlength := 0, rlogical := p, rend := False\<rparr>, Inr p))"

text \<open>What is still to come: the unread part of the buffer, then what the source has left.\<close>

definition buffered_rest :: "('s \<Rightarrow> byte list) \<Rightarrow> 's buffered_source \<Rightarrow> byte list" where
  "buffered_rest rest b = take (rlength b - rposition b) (drop (rposition b) (rbuffer b)) @ rest (bsource b)"

definition buffered_source_ready ::
  "('s \<Rightarrow> bool) \<Rightarrow> ('s \<Rightarrow> byte list) \<Rightarrow> 's buffered_source \<Rightarrow> bool" where
  "buffered_source_ready ready rest b \<longleftrightarrow> ready (bsource b) \<and> rposition b \<le> rlength b \<and>
     rlength b \<le> length (rbuffer b) \<and> rbuffer b \<noteq> [] \<and> length (rbuffer b) < 2 ^ 63 \<and>
     (rend b \<longrightarrow> rest (bsource b) = [])"

text \<open>A source that never fails, and always makes progress.\<close>

locale reliable_source = source +
  assumes no_failure: "ready s \<Longrightarrow> 0 < n \<Longrightarrow>
      \<exists>s' bs at_end. read_some s n = Some (s', Inr (bs, at_end)) \<and> (bs \<noteq> [] \<or> at_end)"
begin

lemma read_reliable:
  assumes "ready s" and "0 < n"
  shows "\<exists>s' bs at_end. read_some s n = Some (s', Inr (bs, at_end)) \<and> ready s' \<and> length bs \<le> n \<and>
    rest s = bs @ rest s' \<and> (at_end \<longrightarrow> rest s' = []) \<and> (bs \<noteq> [] \<or> at_end)"
  using no_failure [OF assms] read_law [OF assms(1), of n] by fastforce

text \<open>Over such a source \<open>ReadExact\<close> succeeds exactly when enough is left.\<close>

lemma read_loop_reliable:
  assumes "ready s" and "length got \<le> n"
  shows "\<exists>s' out r. read_loop read_some n s got = Some (s', out, r) \<and> ready s' \<and>
    got @ rest s = out @ rest s' \<and>
    (case r of Inr _ \<Rightarrow> length out = n
     | Inl e \<Rightarrow> code e = UnexpectedEndOfFile \<and> rest s' = [] \<and> length out < n)"
  using assms
proof (induction "n - length got" arbitrary: s got rule: less_induct)
  case less
  show ?case
  proof (cases "length got < n")
    case False
    with less.prems show ?thesis by (subst read_loop.simps) simp
  next
    case True
    then have "0 < n - length got" by simp
    from read_reliable [OF less.prems(1) this] obtain s1 bs at_end where s1:
      "read_some s (n - length got) = Some (s1, Inr (bs, at_end))" "ready s1"
      "length bs \<le> n - length got" "rest s = bs @ rest s1" "at_end \<longrightarrow> rest s1 = []"
      "bs \<noteq> [] \<or> at_end" by blast
    show ?thesis
    proof (cases "at_end \<and> length (got @ bs) < n")
      case True
      with s1 \<open>length got < n\<close> show ?thesis
        by (subst read_loop.simps) (simp add: Semantic_def Let_def)
    next
      case False
      with s1(6) True have "bs \<noteq> []" by auto
      have "\<exists>s' out r. read_loop read_some n s1 (got @ bs) = Some (s', out, r) \<and> ready s' \<and>
          (got @ bs) @ rest s1 = out @ rest s' \<and>
          (case r of Inr _ \<Rightarrow> length out = n
           | Inl e \<Rightarrow> code e = UnexpectedEndOfFile \<and> rest s' = [] \<and> length out < n)"
      proof (rule less.hyps)
        have "0 < length bs" using \<open>bs \<noteq> []\<close> by simp
        with True show "n - length (got @ bs) < n - length got" unfolding length_append by linarith
      qed (use True s1(2,3) in auto)
      with s1 \<open>bs \<noteq> []\<close> False True show ?thesis
        by (subst read_loop.simps) (auto simp: Let_def)
    qed
  qed
qed

lemma ReadExact_reliable:
  assumes "ready s"
  shows "\<exists>s' out r. ReadExact read_some s n = Some (s', out, r) \<and> ready s' \<and>
    out = take n (rest s) \<and> rest s' = drop n (rest s) \<and>
    (case r of Inr _ \<Rightarrow> n \<le> length (rest s)
     | Inl e \<Rightarrow> length (rest s) < n \<and> code e = UnexpectedEndOfFile)"
proof -
  from read_loop_reliable [OF assms, of "[]" n] obtain s' out r where s':
    "ReadExact read_some s n = Some (s', out, r)" "ready s'" "rest s = out @ rest s'"
    "case r of Inr _ \<Rightarrow> length out = n
     | Inl e \<Rightarrow> code e = UnexpectedEndOfFile \<and> rest s' = [] \<and> length out < n"
    by (auto simp: ReadExact_def)
  then show ?thesis by (cases r) auto
qed

end

interpretation memory_source: reliable_source memory_read memory_source_ready memory_rest
proof
  fix s :: memory_source and n :: nat assume "memory_source_ready s" "0 < n"
  then show "\<exists>s' bs at_end. memory_read s n = Some (s', Inr (bs, at_end)) \<and> (bs \<noteq> [] \<or> at_end)"
    by (auto simp: memory_read_def memory_source_ready_def Let_def)
qed

lemma overwrite_nonempty: "at + length ys \<le> length xs \<Longrightarrow> xs \<noteq> [] \<Longrightarrow> overwrite at ys xs \<noteq> []"
  by (metis length_0_conv length_overwrite)

context source
begin

lemma Fill_law:
  assumes "buffered_source_ready ready rest b" and "rposition b = rlength b"
  shows "\<exists>b' r. Fill read_some b = Some (b', r) \<and> buffered_source_ready ready rest b' \<and>
    buffered_rest rest b' = buffered_rest rest b \<and> (is_ok r \<longrightarrow> rlength b' = 0 \<longrightarrow> rend b') \<and>
    length (rbuffer b') = length (rbuffer b)"
proof (cases "rend b")
  case True
  with assms show ?thesis
    by (auto simp: Fill_def buffered_source_ready_def buffered_rest_def Let_def)
next
  case False
  note b = assms(1) [unfolded buffered_source_ready_def]
  from read_law [of "bsource b" "length (rbuffer b)"] b obtain s r where s:
    "read_some (bsource b) (length (rbuffer b)) = Some (s, r)" "ready s"
    "case r of Inl e \<Rightarrow> rest s = rest (bsource b)
     | Inr (bs, at_end) \<Rightarrow> length bs \<le> length (rbuffer b) \<and> rest (bsource b) = bs @ rest s \<and>
         (at_end \<longrightarrow> rest s = [])" by blast
  show ?thesis
  proof (cases r)
    case (Inl e)
    with s False assms(2) b show ?thesis
      by (simp add: Fill_def buffered_source_ready_def buffered_rest_def Let_def)
  next
    case (Inr p)
    obtain bs at_end where p: "p = (bs, at_end)" by (cases p)
    from s(3) Inr p have bs: "0 + length bs \<le> length (rbuffer b)" "rest (bsource b) = bs @ rest s"
      "at_end \<longrightarrow> rest s = []" by auto
    have tk: "take (length bs) (overwrite 0 bs (rbuffer b)) = bs" by (simp add: overwrite_def)
    have "overwrite 0 bs (rbuffer b) \<noteq> []" using overwrite_nonempty [OF bs(1)] b by blast
    then show ?thesis
      using s(1,2) False Inr p bs assms(2) b mem_copy_Some [OF bs(1)] length_overwrite [OF bs(1)] tk
      by (cases "bs = [] \<and> \<not> at_end")
        (auto simp: Fill_def buffered_source_ready_def buffered_rest_def Let_def)
  qed
qed

lemma buffered_read_law:
  assumes "buffered_source_ready ready rest b"
  shows "\<exists>b' r. buffered_read read_some b n = Some (b', r) \<and> buffered_source_ready ready rest b' \<and>
    (case r of Inl e \<Rightarrow> buffered_rest rest b' = buffered_rest rest b
     | Inr (bs, at_end) \<Rightarrow> length bs \<le> n \<and> buffered_rest rest b = bs @ buffered_rest rest b' \<and>
         (at_end \<longrightarrow> buffered_rest rest b' = []) \<and> (0 < n \<longrightarrow> bs \<noteq> [] \<or> at_end))"
proof (cases "n = 0")
  case True
  with assms show ?thesis by (simp add: buffered_read_def)
next
  case False
  have "\<exists>b1 r. (if rposition b = rlength b then Fill read_some b else Some (b, Inr ())) = Some (b1, r) \<and>
      buffered_source_ready ready rest b1 \<and> buffered_rest rest b1 = buffered_rest rest b \<and>
      (is_ok r \<longrightarrow> rposition b1 = rlength b1 \<longrightarrow> rend b1)"
  proof (cases "rposition b = rlength b")
    case True
    from Fill_law [OF assms True] obtain b1 r where b1: "Fill read_some b = Some (b1, r)"
      "buffered_source_ready ready rest b1" "buffered_rest rest b1 = buffered_rest rest b"
      "is_ok r \<longrightarrow> rlength b1 = 0 \<longrightarrow> rend b1" by auto
    from b1(1) have "rposition b1 = 0"
      by (auto simp: Fill_def Let_def split: if_splits Option.bind_splits sum.splits)
    with b1 True show ?thesis by auto
  next
    case False
    with assms show ?thesis by auto
  qed
  then obtain b1 r where b1:
    "(if rposition b = rlength b then Fill read_some b else Some (b, Inr ())) = Some (b1, r)"
    "buffered_source_ready ready rest b1" "buffered_rest rest b1 = buffered_rest rest b"
    "is_ok r \<longrightarrow> rposition b1 = rlength b1 \<longrightarrow> rend b1" by blast
  note r1 = b1(2) [unfolded buffered_source_ready_def]
  show ?thesis
  proof (cases r)
    case (Inl e)
    with False b1 show ?thesis by (simp add: buffered_read_def)
  next
    case (Inr u)
    show ?thesis
    proof (cases "rposition b1 = rlength b1")
      case True
      with b1(4) Inr have "rend b1" by simp
      with True r1 have "buffered_rest rest b1 = []" by (simp add: buffered_rest_def)
      with True False Inr b1 \<open>rend b1\<close> show ?thesis by (simp add: buffered_read_def)
    next
      case ne: False
      define cnt where "cnt = (if n < rlength b1 - rposition b1 then n else rlength b1 - rposition b1)"
      let ?out = "take cnt (drop (rposition b1) (rbuffer b1))"
      let ?b2 = "b1\<lparr>rposition := rposition b1 + cnt, rlogical := usz (rlogical b1 + cnt)\<rparr>"
      have cnt: "cnt \<le> n" "0 < cnt" "rposition b1 + cnt \<le> rlength b1"
        using ne r1 False by (auto simp: cnt_def)
      have "buffered_read read_some b n =
          Some (?b2, Inr (?out, rend b1 \<and> rposition b1 + cnt = rlength b1))"
        using False b1(1) Inr ne by (simp add: buffered_read_def cnt_def [symmetric] Let_def)
      moreover have "buffered_source_ready ready rest ?b2"
        using r1 cnt(3) by (simp add: buffered_source_ready_def)
      moreover have "buffered_rest rest b1 = ?out @ buffered_rest rest ?b2"
        using take_drop_append [of cnt "drop (rposition b1) (rbuffer b1)"
            "rlength b1 - (rposition b1 + cnt)"] cnt(3)
        by (simp add: buffered_rest_def add.commute)
      moreover have "?out \<noteq> []" using cnt r1 by simp
      moreover have "length ?out \<le> n" using cnt(1) by simp
      moreover have "buffered_rest rest ?b2 = []" if "rend b1" "rposition b1 + cnt = rlength b1"
        using that r1 by (simp add: buffered_rest_def)
      ultimately show ?thesis using b1(3) by auto
    qed
  qed
qed

lemma buffered_is_source:
  "source (buffered_read read_some) (buffered_source_ready ready rest) (buffered_rest rest)"
proof
  fix b n assume "buffered_source_ready ready rest b"
  from buffered_read_law [OF this, of n] obtain b' r where
    "buffered_read read_some b n = Some (b', r)" "buffered_source_ready ready rest b'"
    "case r of Inl e \<Rightarrow> buffered_rest rest b' = buffered_rest rest b
     | Inr (bs, at_end) \<Rightarrow> length bs \<le> n \<and> buffered_rest rest b = bs @ buffered_rest rest b' \<and>
         (at_end \<longrightarrow> buffered_rest rest b' = []) \<and> (0 < n \<longrightarrow> bs \<noteq> [] \<or> at_end)" by blast
  then show "\<exists>b' r. buffered_read read_some b n = Some (b', r) \<and> buffered_source_ready ready rest b' \<and>
      (case r of Inl e \<Rightarrow> buffered_rest rest b' = buffered_rest rest b
       | Inr (bs, at_end) \<Rightarrow> length bs \<le> n \<and> buffered_rest rest b = bs @ buffered_rest rest b' \<and>
           (at_end \<longrightarrow> buffered_rest rest b' = []))"
    by (cases r) auto
qed

lemma peek_compact_law:
  assumes "buffered_source_ready ready rest b"
  shows "\<exists>b'. peek_compact b = Some b' \<and> buffered_source_ready ready rest b' \<and>
    buffered_rest rest b' = buffered_rest rest b \<and> bsource b' = bsource b \<and> rend b' = rend b \<and>
    rposition b' = 0 \<and> rlength b' = rlength b - rposition b \<and> length (rbuffer b') = length (rbuffer b)"
proof -
  note b = assms [unfolded buffered_source_ready_def]
  show ?thesis
  proof (cases "rposition b \<noteq> 0 \<and> rlength b > rposition b")
    case False
    with b show ?thesis
      by (auto simp: peek_compact_def buffered_source_ready_def buffered_rest_def)
  next
    case True
    let ?n = "rlength b - rposition b"
    let ?moved = "take ?n (drop (rposition b) (rbuffer b))"
    have bound: "rposition b + ?n \<le> length (rbuffer b)" "0 + ?n \<le> length (rbuffer b)" using b by auto
    have lm: "length ?moved = ?n" using bound by simp
    have ov: "0 + length ?moved \<le> length (rbuffer b)" using lm bound by simp
    have "take ?n (overwrite 0 ?moved (rbuffer b)) = ?moved"
      using take_overwrite [of 0 ?moved ?n "rbuffer b"] lm bound by simp
    moreover have "overwrite 0 ?moved (rbuffer b) \<noteq> []" using overwrite_nonempty [OF ov] b by blast
    ultimately show ?thesis
      using True b bound mem_move_Some [OF bound] length_overwrite [OF ov]
      by (simp add: peek_compact_def buffered_source_ready_def buffered_rest_def)
  qed
qed

text \<open>\<open>Peek\<close> always returns and takes nothing; a byte it returns is the one at that distance.\<close>

lemma peek_loop_law:
  assumes "buffered_source_ready ready rest b" and "lookahead < 2 ^ 63"
  shows "\<exists>b' r. peek_loop read_some lookahead b = Some (b', r) \<and> buffered_source_ready ready rest b' \<and>
    buffered_rest rest b' = buffered_rest rest b \<and>
    (case r of Inl e \<Rightarrow> True | Inr x \<Rightarrow> lookahead < length (buffered_rest rest b) \<and>
       x = buffered_rest rest b ! lookahead \<and> rposition b' + lookahead < rlength b')"
  using assms(1)
proof (induction "length (rbuffer b) + (if rend b then 0 else 1) - (rlength b - rposition b)"
    arbitrary: b rule: less_induct)
  case less
  note b = less.prems [unfolded buffered_source_ready_def]
  have u: "usz (rposition b + lookahead) = rposition b + lookahead" using b assms(2) by simp
  note unfold = peek_loop.simps [of read_some lookahead b, unfolded u]
  show ?case
  proof (cases "rposition b + lookahead \<ge> rlength b")
    case False
    let ?un = "take (rlength b - rposition b) (drop (rposition b) (rbuffer b))"
    have "lookahead < length ?un" using False b unfolding length_take length_drop by linarith
    moreover have "?un ! lookahead = rbuffer b ! (rposition b + lookahead)"
      using False b by simp
    ultimately have "buffered_rest rest b ! lookahead = rbuffer b ! (rposition b + lookahead)"
      "lookahead < length (buffered_rest rest b)"
      by (auto simp: buffered_rest_def nth_append)
    with False b less.prems unfold show ?thesis by (simp add: Let_def)
  next
    case True
    from peek_compact_law [OF less.prems] obtain c where c: "peek_compact b = Some c"
      "buffered_source_ready ready rest c" "buffered_rest rest c = buffered_rest rest b"
      "bsource c = bsource b" "rend c = rend b" "rposition c = 0"
      "rlength c = rlength b - rposition b" "length (rbuffer c) = length (rbuffer b)" by blast
    note rc = c(2) [unfolded buffered_source_ready_def]
    show ?thesis
    proof (cases "rend c \<or> rlength c = length (rbuffer c)")
      case stop: True
      with True unfold c show ?thesis by simp
    next
      case go: False
      from read_law [of "bsource c" "length (rbuffer c) - rlength c"] rc obtain s r where s:
        "read_some (bsource c) (length (rbuffer c) - rlength c) = Some (s, r)" "ready s"
        "case r of Inl e \<Rightarrow> rest s = rest (bsource c)
         | Inr (bs, at_end) \<Rightarrow> length bs \<le> length (rbuffer c) - rlength c \<and>
             rest (bsource c) = bs @ rest s \<and> (at_end \<longrightarrow> rest s = [])" by blast
      show ?thesis
      proof (cases r)
        case (Inl e)
        with s rc go have "buffered_source_ready ready rest (c\<lparr>bsource := s\<rparr>)"
          "buffered_rest rest (c\<lparr>bsource := s\<rparr>) = buffered_rest rest c"
          by (auto simp: buffered_source_ready_def buffered_rest_def)
        with True unfold c(1,3) go s(1) Inl show ?thesis by simp
      next
        case (Inr p)
        obtain bs at_end where p: "p = (bs, at_end)" by (cases p)
        let ?d = "c\<lparr>bsource := s, rbuffer := overwrite (rlength c) bs (rbuffer c),
            rlength := rlength c + length bs, rend := at_end\<rparr>"
        from s(3) Inr p have bs: "length bs \<le> length (rbuffer c) - rlength c"
          "rest (bsource c) = bs @ rest s" "at_end \<longrightarrow> rest s = []" by auto
        have bound: "rlength c + length bs \<le> length (rbuffer c)" using bs(1) rc by auto
        have "take (rlength c + length bs) (overwrite (rlength c) bs (rbuffer c)) =
            take (rlength c) (rbuffer c) @ bs"
          using take_overwrite [OF _ bound] by simp
        then have restd: "buffered_rest rest ?d = buffered_rest rest c"
          by (simp add: buffered_rest_def c(6) bs(2))
        have "overwrite (rlength c) bs (rbuffer c) \<noteq> []" using overwrite_nonempty [OF bound] rc by blast
        then have readyd: "buffered_source_ready ready rest ?d"
          using rc s(2) bs(3) bound length_overwrite [OF bound] c(6)
          by (simp add: buffered_source_ready_def)
        show ?thesis
        proof (cases "bs = [] \<and> \<not> at_end")
          case stuck: True
          with True unfold c(1,3) go s(1) Inr p mem_copy_Some [OF bound] readyd restd show ?thesis
            by (simp add: Let_def)
        next
          case False
          have step: "peek_loop read_some lookahead b = peek_loop read_some lookahead ?d"
            unfolding unfold using True c(1) go s(1) Inr p mem_copy_Some [OF bound] False
            by (auto simp: Let_def)
          have "\<exists>b' r. peek_loop read_some lookahead ?d = Some (b', r) \<and>
              buffered_source_ready ready rest b' \<and>
              buffered_rest rest b' = buffered_rest rest ?d \<and>
              (case r of Inl e \<Rightarrow> True | Inr x \<Rightarrow> lookahead < length (buffered_rest rest ?d) \<and>
                 x = buffered_rest rest ?d ! lookahead \<and> rposition b' + lookahead < rlength b')"
          proof (rule less.hyps [OF _ readyd])
            have "\<not> rend b" "rlength b - rposition b < length (rbuffer b)"
              using go c rc by auto
            moreover have "0 < length bs \<or> at_end" using False by auto
            ultimately show "length (rbuffer ?d) + (if rend ?d then 0 else 1) - (rlength ?d - rposition ?d)
                < length (rbuffer b) + (if rend b then 0 else 1) - (rlength b - rposition b)"
              using length_overwrite [OF bound] c(6-8) bound by (cases bs) auto
          qed
          then show ?thesis unfolding step restd c(3) .
        qed
      qed
    qed
  qed
qed

end

interpretation buffered_memory_source: source "buffered_read memory_read"
    "buffered_source_ready memory_source_ready memory_rest" "buffered_rest memory_rest"
  by (rule memory_source.buffered_is_source)

context reliable_source
begin

lemma Fill_reliable:
  assumes "buffered_source_ready ready rest b"
  shows "\<exists>b'. Fill read_some b = Some (b', Inr ())"
proof (cases "rend b")
  case True
  then show ?thesis by (simp add: Fill_def Let_def)
next
  case False
  note b = assms [unfolded buffered_source_ready_def]
  then have "0 < length (rbuffer b)" by simp
  with read_reliable [of "bsource b"] b obtain s bs at_end where s:
    "read_some (bsource b) (length (rbuffer b)) = Some (s, Inr (bs, at_end))"
    "length bs \<le> length (rbuffer b)" "bs \<noteq> [] \<or> at_end" by blast
  with False show ?thesis by (auto simp: Fill_def Let_def)
qed

lemma buffered_reliable:
  "reliable_source (buffered_read read_some) (buffered_source_ready ready rest) (buffered_rest rest)"
proof (intro reliable_source.intro buffered_is_source reliable_source_axioms.intro)
  fix b :: "'a buffered_source" and n :: nat
  assume b: "buffered_source_ready ready rest b" and n: "0 < n"
  from buffered_read_law [OF b, of n] obtain b' r where br:
    "buffered_read read_some b n = Some (b', r)"
    "case r of Inl e \<Rightarrow> buffered_rest rest b' = buffered_rest rest b
     | Inr (bs, at_end) \<Rightarrow> length bs \<le> n \<and> buffered_rest rest b = bs @ buffered_rest rest b' \<and>
         (at_end \<longrightarrow> buffered_rest rest b' = []) \<and> (0 < n \<longrightarrow> bs \<noteq> [] \<or> at_end)" by blast
  moreover have "is_ok r"
    using br(1) n Fill_reliable [OF b]
    by (auto simp: buffered_read_def Let_def split: if_splits)
  ultimately show "\<exists>b' bs at_end. buffered_read read_some b n = Some (b', Inr (bs, at_end)) \<and>
      (bs \<noteq> [] \<or> at_end)"
    using n by (cases r) auto
qed

text \<open>\<open>Peek\<close> over such a source finds every byte that is within the capacity of the buffer.\<close>

lemma peek_loop_reliable:
  assumes "buffered_source_ready ready rest b" and "lookahead < length (rbuffer b)"
    and "lookahead < length (buffered_rest rest b)"
  shows "\<exists>b' x. peek_loop read_some lookahead b = Some (b', Inr x)"
  using assms
proof (induction "length (rbuffer b) + (if rend b then 0 else 1) - (rlength b - rposition b)"
    arbitrary: b rule: less_induct)
  case less
  note b = less.prems(1) [unfolded buffered_source_ready_def]
  have u: "usz (rposition b + lookahead) = rposition b + lookahead" using b less.prems(2) by simp
  note unfold = peek_loop.simps [of read_some lookahead b, unfolded u]
  show ?case
  proof (cases "rposition b + lookahead \<ge> rlength b")
    case False
    with b unfold show ?thesis by (simp add: Let_def)
  next
    case True
    from peek_compact_law [OF less.prems(1)] obtain c where c: "peek_compact b = Some c"
      "buffered_source_ready ready rest c" "buffered_rest rest c = buffered_rest rest b"
      "bsource c = bsource b" "rend c = rend b" "rposition c = 0"
      "rlength c = rlength b - rposition b" "length (rbuffer c) = length (rbuffer b)" by blast
    note rc = c(2) [unfolded buffered_source_ready_def]
    have full: "rlength c \<noteq> length (rbuffer c)" using True c(7,8) less.prems(2) by simp
    have "\<not> rend c"
    proof
      assume "rend c"
      with rc have "buffered_rest rest c = take (rlength c) (rbuffer c)"
        by (simp add: buffered_rest_def c(6))
      then have "length (buffered_rest rest b) \<le> rlength c"
        unfolding c(3) by (metis length_take min.cobounded2)
      with c(7) True less.prems(3) show False by linarith
    qed
    then have "0 < length (rbuffer c) - rlength c" using full rc by simp
    with read_reliable [of "bsource c"] rc obtain s bs at_end where s:
      "read_some (bsource c) (length (rbuffer c) - rlength c) = Some (s, Inr (bs, at_end))" "ready s"
      "length bs \<le> length (rbuffer c) - rlength c" "rest (bsource c) = bs @ rest s"
      "at_end \<longrightarrow> rest s = []" "bs \<noteq> [] \<or> at_end" by blast
    let ?d = "c\<lparr>bsource := s, rbuffer := overwrite (rlength c) bs (rbuffer c),
        rlength := rlength c + length bs, rend := at_end\<rparr>"
    have bound: "rlength c + length bs \<le> length (rbuffer c)" using s(3) rc by auto
    have "take (rlength c + length bs) (overwrite (rlength c) bs (rbuffer c)) =
        take (rlength c) (rbuffer c) @ bs"
      using take_overwrite [OF _ bound] by simp
    then have "buffered_rest rest ?d = buffered_rest rest c"
      by (simp add: buffered_rest_def c(6) s(4))
    with c(3) have restd: "buffered_rest rest ?d = buffered_rest rest b" by simp
    have "overwrite (rlength c) bs (rbuffer c) \<noteq> []" using overwrite_nonempty [OF bound] rc by blast
    then have readyd: "buffered_source_ready ready rest ?d"
      using rc s(2,5) bound length_overwrite [OF bound] c(6)
      by (simp add: buffered_source_ready_def)
    have step: "peek_loop read_some lookahead b = peek_loop read_some lookahead ?d"
      unfolding unfold using True c(1) \<open>\<not> rend c\<close> full s(1,6) mem_copy_Some [OF bound]
      by (auto simp: Let_def)
    have "\<exists>b' x. peek_loop read_some lookahead ?d = Some (b', Inr x)"
    proof (rule less.hyps [OF _ readyd])
      have "\<not> rend b" "rlength b - rposition b < length (rbuffer b)"
        using \<open>\<not> rend c\<close> full c rc by auto
      moreover have "0 < length bs \<or> at_end" using s(6) by auto
      ultimately show "length (rbuffer ?d) + (if rend ?d then 0 else 1) - (rlength ?d - rposition ?d)
          < length (rbuffer b) + (if rend b then 0 else 1) - (rlength b - rposition b)"
        using length_overwrite [OF bound] c(6-8) bound by (cases bs) auto
      show "lookahead < length (rbuffer ?d)" using length_overwrite [OF bound] c(8) less.prems(2) by simp
      show "lookahead < length (buffered_rest rest ?d)" using restd less.prems(3) by simp
    qed
    with step show ?thesis by simp
  qed
qed

lemma Peek_reliable:
  assumes "buffered_source_ready ready rest b" and "lookahead < length (rbuffer b)"
    and "lookahead < length (buffered_rest rest b)"
  shows "\<exists>b'. Peek read_some b lookahead = Some (b', Inr (buffered_rest rest b ! lookahead)) \<and>
    buffered_source_ready ready rest b' \<and> buffered_rest rest b' = buffered_rest rest b \<and>
    rposition b' + lookahead < rlength b'"
proof -
  from assms have "lookahead < 2 ^ 63" by (auto simp: buffered_source_ready_def)
  from peek_loop_law [OF assms(1) this] peek_loop_reliable [OF assms] show ?thesis
    by (auto simp: Peek_def)
qed

end

interpretation buffered_memory_source: reliable_source "buffered_read memory_read"
    "buffered_source_ready memory_source_ready memory_rest" "buffered_rest memory_rest"
  by (rule memory_source.buffered_reliable)

text \<open>A sequence of writes, each of which may take a part of its bytes or fail; the result is what they took.\<close>

fun write_each :: "'s write_some \<Rightarrow> 's \<Rightarrow> byte list list \<Rightarrow> ('s \<times> byte list) option" where
  "write_each write_some s [] = Some (s, [])"
| "write_each write_some s (bytes # others) =
     do { (s, r) \<leftarrow> write_some s bytes;
          (s, taken) \<leftarrow> write_each write_some s others;
          Some (s, (case r of Inl e \<Rightarrow> [] | Inr n \<Rightarrow> take n bytes) @ taken) }"

context sink
begin

lemma write_each_law:
  assumes "ready s" and "list_all (\<lambda>bytes. length bytes < 2 ^ 63) writes"
  shows "\<exists>s' taken. write_each write_some s writes = Some (s', taken) \<and> ready s' \<and>
    sunk s' = sunk s @ taken"
  using assms
proof (induction writes arbitrary: s)
  case (Cons bytes others)
  from Cons.prems write_law [of s bytes] obtain s1 r where s1: "write_some s bytes = Some (s1, r)"
    "ready s1" "case r of Inl e \<Rightarrow> sunk s1 = sunk s
       | Inr n \<Rightarrow> n \<le> length bytes \<and> sunk s1 = sunk s @ take n bytes" by auto
  from Cons.IH [OF s1(2)] Cons.prems(2) obtain s2 taken where
    "write_each write_some s1 others = Some (s2, taken)" "ready s2" "sunk s2 = sunk s1 @ taken" by auto
  with s1 show ?case by (cases r) auto
qed simp

end

context reliable_source
begin

lemma Consume_reliable:
  assumes "buffered_source_ready ready rest b" and "n \<le> length (buffered_rest rest b)"
  shows "\<exists>b'. Consume read_some b n = Some (b', Inr ()) \<and> buffered_source_ready ready rest b' \<and>
    buffered_rest rest b' = drop n (buffered_rest rest b)"
  using assms
proof (induction n arbitrary: b)
  case (Suc n)
  have "0 < length (rbuffer b)" using Suc.prems(1) by (simp add: buffered_source_ready_def)
  moreover have "0 < length (buffered_rest rest b)" using Suc.prems(2) by linarith
  ultimately obtain c where c: "Peek read_some b 0 = Some (c, Inr (buffered_rest rest b ! 0))"
    "buffered_source_ready ready rest c" "buffered_rest rest c = buffered_rest rest b"
    "rposition c + 0 < rlength c"
    using Peek_reliable [OF Suc.prems(1), of 0] by blast
  let ?d = "c\<lparr>rposition := rposition c + 1, rlogical := usz (rlogical c + 1)\<rparr>"
  note rc = c(2) [unfolded buffered_source_ready_def]
  have readyd: "buffered_source_ready ready rest ?d"
    using rc c(4) by (simp add: buffered_source_ready_def)
  have "buffered_rest rest c = rbuffer c ! rposition c # buffered_rest rest ?d"
    using rc c(4)
    by (simp add: buffered_rest_def drop_nth_Cons [of "rposition c" "rbuffer c"] Suc_diff_Suc
        take_Cons')
  then have restd: "buffered_rest rest ?d = drop 1 (buffered_rest rest b)"
    unfolding c(3) by (metis drop0 drop_Suc_Cons One_nat_def)
  then have "n \<le> length (buffered_rest rest ?d)" using Suc.prems(2) by simp
  from Suc.IH [OF readyd this] restd c(1) show ?case by auto
qed simp

end

section \<open>Properties\<close>

text \<open>C4: nothing is lost or repeated by a buffered sink. Over any sink that keeps the contract, after any
  sequence of writes, each of which may fail or take only a part of its bytes, and whatever the sink
  did in between, the sink's bytes followed by what is in the buffer are the earlier ones followed by
  exactly the bytes the writes reported as taken; and a \<open>Flush\<close> that succeeds leaves all of them in the
  sink. Every one of these operations returns.\<close>

theorem BufferedSink_preserves:
  assumes "sink w rdy snk" and "buffered_ready rdy b"
    and "list_all (\<lambda>bytes. length bytes < 2 ^ 63) writes"
  shows "\<exists>b1 taken b2 r. write_each (buffered_write w) b writes = Some (b1, taken) \<and>
    buffered_Flush w no_action b1 = Some (b2, r) \<and>
    buffered_sunk snk b2 = buffered_sunk snk b @ taken \<and>
    (is_ok r \<longrightarrow> snk (bsink b2) = buffered_sunk snk b @ taken)"
proof -
  note outer = sink.buffered_is_sink [OF assms(1)]
  from sink.write_each_law [OF outer assms(2,3)] obtain b1 taken where b1:
    "write_each (buffered_write w) b writes = Some (b1, taken)" "buffered_ready rdy b1"
    "buffered_sunk snk b1 = buffered_sunk snk b @ taken" by blast
  from sink.FlushBuffer_law [OF assms(1) b1(2)] obtain b2 r where b2:
    "FlushBuffer w b1 = Some (b2, r)" "buffered_sunk snk b2 = buffered_sunk snk b1"
    "is_ok r \<longrightarrow> slength b2 = 0" by blast
  then have "buffered_Flush w no_action b1 = Some (b2, r)"
    by (cases r) (simp_all add: buffered_Flush_def no_action_def)
  with b1 b2 show ?thesis by (auto simp: buffered_sunk_def)
qed


text \<open>A sink of two bytes behind a buffer of three: the second write does not fit.\<close>

definition small :: "fixed_sink buffered_sink" where
  "small = \<lparr>bsink = \<lparr>fbuffer = [0, 0], fsize = 0\<rparr>, sbuffer = [0, 0, 0], slength = 0\<rparr>"

theorem BufferedSink_preserves_witness:
  "\<exists>b1 taken b2 r. write_each (buffered_write fixed_write) small [[1, 2, 3], [4, 5, 6]] = Some (b1, taken) \<and>
    buffered_Flush fixed_write no_action b1 = Some (b2, r) \<and>
    buffered_sunk fixed_Written b2 = buffered_sunk fixed_Written small @ taken \<and>
    (is_ok r \<longrightarrow> fixed_Written (bsink b2) = buffered_sunk fixed_Written small @ taken)"
proof -
  have "buffered_ready fixed_ready small" by (simp add: buffered_ready_def small_def fixed_ready_def)
  then show ?thesis by (rule BufferedSink_preserves [OF fixed.sink_axioms]) simp
qed

text \<open>C3: reading through a buffered source is reading the source. \<open>ReadExact\<close> over a buffered memory
  source, at any state of the buffer, returns: the destination holds the next bytes still to come
  and they are no longer to come; it succeeds exactly when there are enough, and otherwise reports
  the unexpected end.\<close>

theorem BufferedSource_ReadExact:
  assumes "buffered_source_ready memory_source_ready memory_rest b"
  shows "\<exists>b' out r. ReadExact (buffered_read memory_read) b n = Some (b', out, r) \<and>
    out = take n (buffered_rest memory_rest b) \<and>
    buffered_rest memory_rest b' = drop n (buffered_rest memory_rest b) \<and>
    (case r of Inr _ \<Rightarrow> n \<le> length (buffered_rest memory_rest b)
     | Inl e \<Rightarrow> length (buffered_rest memory_rest b) < n \<and> code e = UnexpectedEndOfFile)"
  using buffered_memory_source.ReadExact_reliable [OF assms, of n] by blast

definition half_read :: "memory_source buffered_source" where
  "half_read = \<lparr>bsource = \<lparr>mdata = [1, 2, 3, 4, 5], mposition = 3\<rparr>, rbuffer = [1, 2, 3], rposition = 1,
     rlength = 3, rlogical = 1, rend = False\<rparr>"

lemma half_read_ready: "buffered_source_ready memory_source_ready memory_rest half_read"
  by (simp add: buffered_source_ready_def half_read_def memory_source_ready_def)

lemma half_read_rest: "buffered_rest memory_rest half_read = [2, 3, 4, 5]"
  by (simp add: buffered_rest_def half_read_def memory_rest_def eval_nat_numeral)

theorem BufferedSource_ReadExact_witness:
  "\<exists>b' out r. ReadExact (buffered_read memory_read) half_read 3 = Some (b', out, r) \<and> out = [2, 3, 4] \<and>
    buffered_rest memory_rest b' = [5]"
  using BufferedSource_ReadExact [OF half_read_ready, of 3] unfolding half_read_rest
  by (auto simp: eval_nat_numeral)

text \<open>\<open>Peek\<close> and \<open>Consume\<close>. Over a memory source \<open>Peek\<close> finds the byte at every distance that is
  within the capacity of the buffer and the bytes still to come, and takes nothing, so the bytes to
  come and the reads that follow are unchanged; \<open>Consume\<close> then drops exactly the number it is given.\<close>

theorem Peek_Consume:
  assumes "buffered_source_ready memory_source_ready memory_rest b"
    and "lookahead < length (rbuffer b)" and "lookahead < length (buffered_rest memory_rest b)"
    and "n \<le> length (buffered_rest memory_rest b)"
  shows "\<exists>b1 b2. Peek memory_read b lookahead =
      Some (b1, Inr (buffered_rest memory_rest b ! lookahead)) \<and>
    buffered_rest memory_rest b1 = buffered_rest memory_rest b \<and>
    Consume memory_read b1 n = Some (b2, Inr ()) \<and>
    buffered_rest memory_rest b2 = drop n (buffered_rest memory_rest b)"
proof -
  from memory_source.Peek_reliable [OF assms(1-3)] obtain b1 where b1:
    "Peek memory_read b lookahead = Some (b1, Inr (buffered_rest memory_rest b ! lookahead))"
    "buffered_source_ready memory_source_ready memory_rest b1"
    "buffered_rest memory_rest b1 = buffered_rest memory_rest b" by blast
  from memory_source.Consume_reliable [OF b1(2), of n] b1 assms(4) show ?thesis by auto
qed

theorem Peek_Consume_witness:
  "\<exists>b1 b2. Peek memory_read half_read 2 = Some (b1, Inr 4) \<and> Consume memory_read b1 3 = Some (b2, Inr ()) \<and>
    buffered_rest memory_rest b2 = [5]"
proof -
  have "2 < length (rbuffer half_read)" by (simp add: half_read_def)
  moreover have "2 < length (buffered_rest memory_rest half_read)"
    "3 \<le> length (buffered_rest memory_rest half_read)" by (simp_all add: half_read_rest)
  moreover have "buffered_rest memory_rest half_read ! 2 = 4"
    "drop 3 (buffered_rest memory_rest half_read) = [5]" by (simp_all add: half_read_rest)
  ultimately show ?thesis using Peek_Consume [OF half_read_ready, of 2 3] by auto
qed

text \<open>A lookahead that makes \<^verbatim>\<open>Position_ + Lookahead\<close> wrap is not refused: \<open>Peek\<close> returns a byte in front
  of the position, one that has been read already, as if it were still to come.\<close>

theorem Peek_wraps:
  assumes "0 < k" and "k \<le> rposition b" and "rposition b \<le> rlength b" and "rlength b \<le> length (rbuffer b)"
    and "length (rbuffer b) < 2 ^ 64"
  shows "Peek read_some b (2 ^ 64 - k) = Some (b, Inr (rbuffer b ! (rposition b - k)))"
proof -
  have eq: "rposition b + (2 ^ 64 - k) = (rposition b - k) + 2 ^ 64" using assms by linarith
  have u: "usz (rposition b + (2 ^ 64 - k)) = rposition b - k"
    unfolding eq usz_def mod_add_self2 by (rule mod_less) (use assms in linarith)
  have "\<not> rlength b \<le> rposition b - k" "rposition b - k < length (rbuffer b)"
    using assms by linarith+
  then show ?thesis
    unfolding Peek_def peek_loop.simps [of read_some "2 ^ 64 - k" b] u by (simp add: Let_def)
qed

theorem Peek_wraps_witness: "Peek memory_read half_read (2 ^ 64 - 1) = Some (half_read, Inr 1)"
  using Peek_wraps [of 1 half_read memory_read] by (simp add: half_read_def)

end
