(* ===== verification/Adapters.thy ===== *)
theory Adapters
  imports Buffered
begin

text \<open>
  \<^verbatim>\<open>IO/Adapter/Newline.hpp\<close> and \<^verbatim>\<open>IO/Adapter/Advanced.hpp\<close>: sinks that change, count, limit or remember
  what goes through them, over any sink.
\<close>

text \<open>A failure after some bytes have been accepted is reported as that number.\<close>

definition partial_result :: "nat \<Rightarrow> io_error \<Rightarrow> io_error + nat" where
  "partial_result accepted e = (if accepted \<noteq> 0 then Inr accepted else Inl e)"

section \<open>NewlineSink\<close>

datatype newline = Preserve | LineFeed | CarriageReturnLineFeed

record 's newline_sink =
  nsink :: "'s"
  previous_cr :: bool
  pending_cr :: bool

text \<open>What happens to a byte before it is written: it is written, or skipped as accepted, or the loop
  stops on an error of the sink.\<close>

datatype 's newline_step = Emit "'s" | Skip "'s" | Stop "'s" io_error

definition newline_before ::
  "newline \<Rightarrow> 's write_some \<Rightarrow> 's newline_sink \<Rightarrow> byte \<Rightarrow> 's newline_sink newline_step option" where
  "newline_before policy w st x =
     (case policy of
        CarriageReturnLineFeed \<Rightarrow>
          if x = 10 \<and> \<not> previous_cr st then
            do { (s, r) \<leftarrow> WriteAll w (nsink st) [13];
                 case r of
                   Inl e \<Rightarrow> Some (Stop (st\<lparr>nsink := s\<rparr>) e)
                 | Inr _ \<Rightarrow> Some (Emit (st\<lparr>nsink := s\<rparr>)) }
          else Some (Emit st)
      | LineFeed \<Rightarrow>
          if pending_cr st then
            do { (s, r) \<leftarrow> WriteAll w (nsink st) [10];
                 case r of
                   Inl e \<Rightarrow> Some (Stop (st\<lparr>nsink := s\<rparr>) e)
                 | Inr _ \<Rightarrow>
                     let st = st\<lparr>nsink := s, pending_cr := False\<rparr>
                     in if x = 10 then Some (Skip st)
                        else if x = 13 then Some (Skip (st\<lparr>pending_cr := True\<rparr>))
                        else Some (Emit st) }
          else if x = 13 then Some (Skip (st\<lparr>pending_cr := True\<rparr>))
          else Some (Emit st)
      | Preserve \<Rightarrow> Some (Emit st))"

fun newline_loop ::
  "newline \<Rightarrow> 's write_some \<Rightarrow> byte list \<Rightarrow> 's newline_sink \<Rightarrow> nat \<Rightarrow>
    ('s newline_sink \<times> (io_error + nat)) option" where
  "newline_loop policy w [] st accepted = Some (st, Inr accepted)"
| "newline_loop policy w (x # xs) st accepted =
     do { step \<leftarrow> newline_before policy w st x;
          case step of
            Stop st e \<Rightarrow> Some (st, partial_result accepted e)
          | Skip st \<Rightarrow> newline_loop policy w xs st (accepted + 1)
          | Emit st \<Rightarrow>
              do { (s, r) \<leftarrow> WriteAll w (nsink st) [x];
                   case r of
                     Inl e \<Rightarrow> Some (st\<lparr>nsink := s\<rparr>, partial_result accepted e)
                   | Inr _ \<Rightarrow>
                       newline_loop policy w xs (st\<lparr>nsink := s, previous_cr := (x = 13)\<rparr>) (accepted + 1) } }"

definition newline_write :: "newline \<Rightarrow> 's write_some \<Rightarrow> 's newline_sink write_some" where
  "newline_write policy w st bytes = newline_loop policy w bytes st 0"

definition newline_Flush :: "newline \<Rightarrow> 's write_some \<Rightarrow> 's io_action \<Rightarrow> 's newline_sink io_action" where
  "newline_Flush policy w flush st =
     do { (st, r) \<leftarrow>
            (if policy = LineFeed \<and> pending_cr st then
               do { (s, r) \<leftarrow> WriteAll w (nsink st) [10];
                    case r of
                      Inl e \<Rightarrow> Some (st\<lparr>nsink := s\<rparr>, Inl e)
                    | Inr _ \<Rightarrow> Some (st\<lparr>nsink := s, pending_cr := False\<rparr>, Inr ()) }
             else Some (st, Inr ()));
          case r of
            Inl e \<Rightarrow> Some (st, Inl e)
          | Inr _ \<Rightarrow> do { (s, r) \<leftarrow> flush (nsink st); Some (st\<lparr>nsink := s\<rparr>, r) } }"

definition newline_Close ::
  "newline \<Rightarrow> 's write_some \<Rightarrow> 's io_action \<Rightarrow> 's io_action \<Rightarrow> 's newline_sink io_action" where
  "newline_Close policy w flush close st =
     do { (st, r) \<leftarrow> newline_Flush policy w flush st;
          case r of
            Inl e \<Rightarrow> Some (st, Inl e)
          | Inr _ \<Rightarrow> do { (s, r) \<leftarrow> close (nsink st); Some (st\<lparr>nsink := s\<rparr>, r) } }"

section \<open>PrefixSink\<close>

record 's prefix_sink =
  psink :: "'s"
  prefix_text :: "byte list"
  at_line_start :: bool

fun prefix_loop ::
  "'s write_some \<Rightarrow> byte list \<Rightarrow> 's prefix_sink \<Rightarrow> nat \<Rightarrow> ('s prefix_sink \<times> (io_error + nat)) option" where
  "prefix_loop w [] st accepted = Some (st, Inr accepted)"
| "prefix_loop w (x # xs) st accepted =
     do { (st, r) \<leftarrow>
            (if at_line_start st then
               do { (s, r) \<leftarrow> WriteAll w (psink st) (prefix_text st);
                    case r of
                      Inl e \<Rightarrow> Some (st\<lparr>psink := s\<rparr>, Inl e)
                    | Inr _ \<Rightarrow> Some (st\<lparr>psink := s, at_line_start := False\<rparr>, Inr ()) }
             else Some (st, Inr ()));
          case r of
            Inl e \<Rightarrow> Some (st, Inl e)
          | Inr _ \<Rightarrow>
              do { (s, r) \<leftarrow> WriteAll w (psink st) [x];
                   case r of
                     Inl e \<Rightarrow> Some (st\<lparr>psink := s\<rparr>, partial_result accepted e)
                   | Inr _ \<Rightarrow>
                       prefix_loop w xs (st\<lparr>psink := s, at_line_start := (x = 10)\<rparr>) (accepted + 1) } }"

definition prefix_write :: "'s write_some \<Rightarrow> 's prefix_sink write_some" where
  "prefix_write w st bytes = prefix_loop w bytes st 0"

section \<open>HashingSink, FaultInjectingSink, RateLimitedSink\<close>

record 's hashing_sink =
  hsink :: "'s"
  hash :: u64

fun fnv1a :: "u64 \<Rightarrow> byte list \<Rightarrow> u64" where
  "fnv1a h [] = h"
| "fnv1a h (x # xs) = fnv1a ((h XOR ucast x) * 1099511628211) xs"

definition hashing_write :: "'s write_some \<Rightarrow> 's hashing_sink write_some" where
  "hashing_write w st bytes =
     do { (s, r) \<leftarrow> w (hsink st) bytes;
          case r of
            Inl e \<Rightarrow> Some (st\<lparr>hsink := s\<rparr>, Inl e)
          | Inr n \<Rightarrow>
              if n \<le> length bytes then
                Some (st\<lparr>hsink := s, hash := fnv1a (hash st) (take n bytes)\<rparr>, Inr n)
              else None }"

record 's fault_sink =
  isink :: "'s"
  fremaining :: nat

definition fault_write :: "'s write_some \<Rightarrow> 's fault_sink write_some" where
  "fault_write w st bytes =
     (if fremaining st = 0 then Some (st, Inl (Semantic Firmware Write 0 0))
      else
        (let limited = (if length bytes < fremaining st then length bytes else fremaining st)
         in do { (s, r) \<leftarrow> w (isink st) (take limited bytes);
                 case r of
                   Inl e \<Rightarrow> Some (st\<lparr>isink := s\<rparr>, Inl e)
                 | Inr n \<Rightarrow> Some (st\<lparr>isink := s, fremaining := fremaining st - n\<rparr>, Inr n) }))"

record 's rate_sink =
  lsink :: "'s"
  per_window :: nat
  lremaining :: nat
  window_ticks :: u64
  window_start :: u64
  started :: bool

text \<open>\<open>now\<close> is what the clock returns during the call (0 without a clock).\<close>

definition rate_write :: "'s write_some \<Rightarrow> u64 \<Rightarrow> 's rate_sink write_some" where
  "rate_write w now st bytes =
     (if bytes = [] then Some (st, Inr 0)
      else
        (let st = (if \<not> started st then st\<lparr>window_start := now, started := True\<rparr>
                   else if window_ticks st \<noteq> 0 \<and> now - window_start st \<ge> window_ticks st
                   then st\<lparr>window_start := now, lremaining := per_window st\<rparr>
                   else st)
         in if lremaining st = 0 then Some (st, Inl (Semantic WouldBlock Write 0 0))
            else
              (let cnt = (if length bytes < lremaining st then length bytes else lremaining st)
               in do { (s, r) \<leftarrow> w (lsink st) (take cnt bytes);
                       case r of
                         Inl e \<Rightarrow> Some (st\<lparr>lsink := s\<rparr>, Inl e)
                       | Inr n \<Rightarrow> Some (st\<lparr>lsink := s, lremaining := lremaining st - n\<rparr>, Inr n) })))"

section \<open>RingBufferSink\<close>

record ring_sink =
  gbuffer :: "byte list"
  gstart :: nat
  gsize :: nat

definition ring_put :: "ring_sink \<Rightarrow> byte \<Rightarrow> ring_sink" where
  "ring_put g x =
     (let cap = length (gbuffer g);
          g = g\<lparr>gbuffer := (gbuffer g)[(gstart g + gsize g) mod cap := x]\<rparr>
      in if gsize g < cap then g\<lparr>gsize := gsize g + 1\<rparr>
         else g\<lparr>gstart := (gstart g + 1) mod cap\<rparr>)"

fun ring_loop :: "byte list \<Rightarrow> ring_sink \<Rightarrow> ring_sink" where
  "ring_loop [] g = g"
| "ring_loop (x # xs) g = ring_loop xs (ring_put g x)"

definition ring_write :: "ring_sink write_some" where
  "ring_write g bytes = Some (ring_loop bytes g, Inr (length bytes))"

fun replay_loop :: "'s write_some \<Rightarrow> ring_sink \<Rightarrow> nat list \<Rightarrow> 's \<Rightarrow> ('s \<times> (io_error + unit)) option" where
  "replay_loop w g [] s = Some (s, Inr ())"
| "replay_loop w g (i # is) s =
     do { (s, r) \<leftarrow> WriteAll w s [gbuffer g ! ((gstart g + i) mod length (gbuffer g))];
          case r of Inl e \<Rightarrow> Some (s, Inl e) | Inr _ \<Rightarrow> replay_loop w g is s }"

definition ring_Replay :: "'s write_some \<Rightarrow> ring_sink \<Rightarrow> 's \<Rightarrow> ('s \<times> (io_error + unit)) option" where
  "ring_Replay w g s = replay_loop w g [0..<gsize g] s"

definition ring_Clear :: "ring_sink \<Rightarrow> ring_sink" where
  "ring_Clear g = g\<lparr>gstart := 0, gsize := 0\<rparr>"

section \<open>AnsiTerminalSink\<close>

datatype ansi_color = Black | Red | Green | Yellow | Blue | Magenta | Cyan | White | DefaultColor

fun ansi_underlying :: "ansi_color \<Rightarrow> nat" where
  "ansi_underlying Black = 0"
| "ansi_underlying Red = 1"
| "ansi_underlying Green = 2"
| "ansi_underlying Yellow = 3"
| "ansi_underlying Blue = 4"
| "ansi_underlying Magenta = 5"
| "ansi_underlying Cyan = 6"
| "ansi_underlying White = 7"
| "ansi_underlying DefaultColor = 8"

record ansi_style =
  foreground :: ansi_color
  background :: ansi_color
  bright :: bool
  underline :: bool

definition ansi_number :: "nat \<Rightarrow> byte list" where
  "ansi_number v = (if v \<ge> 10 then [48 + of_nat (v div 10)] else []) @ [48 + of_nat (v mod 10)]"

definition ansi_sequence :: "ansi_style \<Rightarrow> byte list" where
  "ansi_sequence st =
     [27, 91] @ ansi_number (if bright st then 1 else 22) @ [59] @
     ansi_number (if underline st then 4 else 24) @ [59] @
     ansi_number (if foreground st = DefaultColor then 39 else 30 + ansi_underlying (foreground st)) @ [59] @
     ansi_number (if background st = DefaultColor then 49 else 40 + ansi_underlying (background st)) @ [109]"

definition ansi_SetStyle :: "'s write_some \<Rightarrow> 's \<Rightarrow> ansi_style \<Rightarrow> ('s \<times> (io_error + unit)) option" where
  "ansi_SetStyle w s st = WriteAll w s (ansi_sequence st)"

definition ansi_ClearTerminal :: "'s write_some \<Rightarrow> 's \<Rightarrow> ('s \<times> (io_error + unit)) option" where
  "ansi_ClearTerminal w s = WriteAll w s [27, 91, 50, 74, 27, 91, 72]"

definition ansi_ResetStyle :: "'s write_some \<Rightarrow> 's \<Rightarrow> ('s \<times> (io_error + unit)) option" where
  "ansi_ResetStyle w s = WriteAll w s [27, 91, 48, 109]"

section \<open>Newline translation\<close>

text \<open>What the policies should produce: every line ending \<open>CR LF\<close>, \<open>CR\<close> or \<open>LF\<close> as \<open>LF\<close>; every \<open>LF\<close> that no
  \<open>CR\<close> precedes as \<open>CR LF\<close>.\<close>

fun to_lf :: "byte list \<Rightarrow> byte list" where
  "to_lf [] = []"
| "to_lf (x # xs) =
     (if x = 13 then 10 # (case xs of y # ys \<Rightarrow> if y = 10 then to_lf ys else to_lf xs | [] \<Rightarrow> [])
      else x # to_lf xs)"

fun to_crlf :: "bool \<Rightarrow> byte list \<Rightarrow> byte list" where
  "to_crlf after_cr [] = []"
| "to_crlf after_cr (x # xs) =
     (if x = 10 \<and> \<not> after_cr then [13] else []) @ x # to_crlf (x = 13) xs"

definition pending_bytes :: "bool \<Rightarrow> byte \<Rightarrow> byte list" where
  "pending_bytes p x = (if p then [x] else [])"

context sink
begin

lemma newline_lf_loop:
  assumes "ready (nsink st)"
  shows "\<exists>st' r n. newline_loop LineFeed write_some bytes st accepted = Some (st', r) \<and> ready (nsink st') \<and>
    n \<le> length bytes \<and>
    (case r of Inl e \<Rightarrow> n = 0 \<and> accepted = 0 | Inr m \<Rightarrow> m = accepted + n) \<and>
    sunk (nsink st') @ pending_bytes (pending_cr st') 10 =
      sunk (nsink st) @ to_lf (pending_bytes (pending_cr st) 13 @ take n bytes)"
  using assms
proof (induction bytes arbitrary: st accepted)
  case Nil
  then show ?case by (simp add: pending_bytes_def)
next
  case (Cons x xs)
  have go_on: ?case
    if step: "newline_loop LineFeed write_some (x # xs) st accepted =
        newline_loop LineFeed write_some xs st1 (accepted + 1)"
      and st1: "ready (nsink st1)"
      and out: "\<And>ys. sunk (nsink st1) @ to_lf (pending_bytes (pending_cr st1) 13 @ ys) =
        sunk (nsink st) @ to_lf (pending_bytes (pending_cr st) 13 @ x # ys)" for st1
  proof -
    from Cons.IH [OF st1, of "accepted + 1"] obtain st' r n where
      "newline_loop LineFeed write_some xs st1 (accepted + 1) = Some (st', r)" "ready (nsink st')"
      "n \<le> length xs" "case r of Inl e \<Rightarrow> n = 0 \<and> accepted + 1 = 0 | Inr m \<Rightarrow> m = accepted + 1 + n"
      "sunk (nsink st') @ pending_bytes (pending_cr st') 10 =
        sunk (nsink st1) @ to_lf (pending_bytes (pending_cr st1) 13 @ take n xs)" by blast
    with step out [of "take n xs"] show ?thesis
      by (intro exI [of _ st'] exI [of _ r] exI [of _ "Suc n"]) (auto split: sum.splits)
  qed
  have stop: ?case
    if "newline_loop LineFeed write_some (x # xs) st accepted = Some (st1, partial_result accepted e)"
      and "ready (nsink st1)"
      and "sunk (nsink st1) @ pending_bytes (pending_cr st1) 10 =
        sunk (nsink st) @ to_lf (pending_bytes (pending_cr st) 13)" for st1 e
    using that by (intro exI [of _ st1] exI [of _ "partial_result accepted e"] exI [of _ 0])
      (auto simp: partial_result_def)
  have emit: ?case
    if before: "newline_before LineFeed write_some st x = Some (Emit st1)"
      and st1: "ready (nsink st1)" "\<not> pending_cr st1" and x: "x \<noteq> 13" "x = 10 \<longrightarrow> \<not> pending_cr st"
      and out: "sunk (nsink st1) = sunk (nsink st) @ pending_bytes (pending_cr st) 10" for st1
  proof -
    from WriteAll_byte [OF st1(1), of x] obtain s r where s: "WriteAll write_some (nsink st1) [x] = Some (s, r)"
      "ready s" "sunk s = sunk (nsink st1) @ (case r of Inl e \<Rightarrow> [] | Inr _ \<Rightarrow> [x])" by blast
    show ?thesis
    proof (cases r)
      case (Inl e)
      with before s st1(2) out show ?thesis
        by (intro stop [of "st1\<lparr>nsink := s\<rparr>" e]) (auto simp: pending_bytes_def)
    next
      case (Inr u)
      have "newline_loop LineFeed write_some (x # xs) st accepted =
          newline_loop LineFeed write_some xs (st1\<lparr>nsink := s, previous_cr := (x = 13)\<rparr>) (accepted + 1)"
        using before s(1) Inr by simp
      then show ?thesis
        by (rule go_on) (use s Inr st1(2) x out in \<open>auto simp: pending_bytes_def\<close>)
    qed
  qed
  show ?case
  proof (cases "pending_cr st")
    case False
    then show ?thesis
    proof (cases "x = 13")
      case True
      have "newline_loop LineFeed write_some (x # xs) st accepted =
          newline_loop LineFeed write_some xs (st\<lparr>pending_cr := True\<rparr>) (accepted + 1)"
        using True False by (simp add: newline_before_def)
      then show ?thesis
        by (rule go_on) (use Cons.prems True False in \<open>auto simp: pending_bytes_def\<close>)
    next
      case ne: False
      with False Cons.prems show ?thesis
        by (intro emit [of st]) (auto simp: newline_before_def pending_bytes_def)
    qed
  next
    case True
    from WriteAll_byte [OF Cons.prems, of 10] obtain s r where s:
      "WriteAll write_some (nsink st) [10] = Some (s, r)" "ready s"
      "sunk s = sunk (nsink st) @ (case r of Inl e \<Rightarrow> [] | Inr _ \<Rightarrow> [10])" by blast
    show ?thesis
    proof (cases r)
      case (Inl e)
      with True s show ?thesis
        by (intro stop [of "st\<lparr>nsink := s\<rparr>" e]) (auto simp: newline_before_def pending_bytes_def)
    next
      case (Inr u)
      consider "x = 10" | "x = 13" | "x \<noteq> 10" "x \<noteq> 13" by blast
      then show ?thesis
      proof cases
        case 1
        have "newline_loop LineFeed write_some (x # xs) st accepted =
            newline_loop LineFeed write_some xs (st\<lparr>nsink := s, pending_cr := False\<rparr>) (accepted + 1)"
          using True s(1) Inr 1 by (simp add: newline_before_def Let_def)
        then show ?thesis
          by (rule go_on) (use s Inr True 1 in \<open>auto simp: pending_bytes_def\<close>)
      next
        case 2
        have "newline_loop LineFeed write_some (x # xs) st accepted =
            newline_loop LineFeed write_some xs (st\<lparr>nsink := s, pending_cr := True\<rparr>) (accepted + 1)"
          using True s(1) Inr 2 by (simp add: newline_before_def Let_def)
        then show ?thesis
          by (rule go_on) (use s Inr True 2 in \<open>auto simp: pending_bytes_def\<close>)
      next
        case 3
        with True s Inr show ?thesis
          by (intro emit [of "st\<lparr>nsink := s, pending_cr := False\<rparr>"])
            (auto simp: newline_before_def pending_bytes_def Let_def)
      qed
    qed
  qed
qed

end

context sink
begin

lemma newline_crlf_loop:
  assumes "ready (nsink st)"
  shows "\<exists>st' r n extra. newline_loop CarriageReturnLineFeed write_some bytes st accepted = Some (st', r) \<and>
    ready (nsink st') \<and> n \<le> length bytes \<and>
    (case r of Inl e \<Rightarrow> n = 0 \<and> accepted = 0 | Inr m \<Rightarrow> m = accepted + n) \<and>
    sunk (nsink st') = sunk (nsink st) @ to_crlf (previous_cr st) (take n bytes) @ extra \<and>
    (n = length bytes \<longrightarrow> extra = []) \<and> (extra = [] \<or> extra = [13] \<and> bytes ! n = 10)"
  using assms
proof (induction bytes arbitrary: st accepted)
  case Nil
  then show ?case by simp
next
  case (Cons x xs)
  have emit: ?case
    if before: "newline_before CarriageReturnLineFeed write_some st x = Some (Emit st1)"
      and st1: "ready (nsink st1)" "previous_cr st1 = previous_cr st"
      and out: "sunk (nsink st1) = sunk (nsink st) @ pre"
      and pre: "pre = (if x = 10 \<and> \<not> previous_cr st then [13] else [])" for st1 pre
  proof -
    from WriteAll_byte [OF st1(1), of x] obtain s r where s: "WriteAll write_some (nsink st1) [x] = Some (s, r)"
      "ready s" "sunk s = sunk (nsink st1) @ (case r of Inl e \<Rightarrow> [] | Inr _ \<Rightarrow> [x])" by blast
    show ?thesis
    proof (cases r)
      case (Inl e)
      with before s out pre show ?thesis
        by (intro exI [of _ "st1\<lparr>nsink := s\<rparr>"] exI [of _ "partial_result accepted e"] exI [of _ 0]
            exI [of _ pre]) (auto simp: partial_result_def)
    next
      case (Inr u)
      let ?st2 = "st1\<lparr>nsink := s, previous_cr := (x = 13)\<rparr>"
      from Cons.IH [of ?st2 "accepted + 1"] s(2) obtain st' r' n extra where IH:
        "newline_loop CarriageReturnLineFeed write_some xs ?st2 (accepted + 1) = Some (st', r')"
        "ready (nsink st')" "n \<le> length xs"
        "case r' of Inl e \<Rightarrow> n = 0 \<and> accepted + 1 = 0 | Inr m \<Rightarrow> m = accepted + 1 + n"
        "sunk (nsink st') = sunk s @ to_crlf (x = 13) (take n xs) @ extra"
        "n = length xs \<longrightarrow> extra = []" "extra = [] \<or> extra = [13] \<and> xs ! n = 10" by auto
      with before s out pre Inr show ?thesis
        by (intro exI [of _ st'] exI [of _ r'] exI [of _ "Suc n"] exI [of _ extra])
          (auto split: sum.splits)
    qed
  qed
  show ?case
  proof (cases "x = 10 \<and> \<not> previous_cr st")
    case False
    with Cons.prems show ?thesis
      by (intro emit [of st "[]"]) (auto simp: newline_before_def)
  next
    case True
    from WriteAll_byte [OF Cons.prems, of 13] obtain s r where s:
      "WriteAll write_some (nsink st) [13] = Some (s, r)" "ready s"
      "sunk s = sunk (nsink st) @ (case r of Inl e \<Rightarrow> [] | Inr _ \<Rightarrow> [13])" by blast
    show ?thesis
    proof (cases r)
      case (Inl e)
      with True s show ?thesis
        by (intro exI [of _ "st\<lparr>nsink := s\<rparr>"] exI [of _ "partial_result accepted e"] exI [of _ 0]
            exI [of _ "[]"]) (auto simp: newline_before_def partial_result_def)
    next
      case (Inr u)
      with True s show ?thesis
        by (intro emit [of "st\<lparr>nsink := s\<rparr>" "[13]"]) (auto simp: newline_before_def)
    qed
  qed
qed

end

section \<open>Ring buffer\<close>

definition ring_items :: "ring_sink \<Rightarrow> byte list" where
  "ring_items g = map (\<lambda>i. gbuffer g ! ((gstart g + i) mod length (gbuffer g))) [0..<gsize g]"

definition ring_ready :: "ring_sink \<Rightarrow> bool" where
  "ring_ready g \<longleftrightarrow> gbuffer g \<noteq> [] \<and> gstart g < length (gbuffer g) \<and> gsize g \<le> length (gbuffer g) \<and>
     length (gbuffer g) < 2 ^ 63"

lemma mod_add_inj_le:
  fixes a i j c :: nat
  assumes "(a + i) mod c = (a + j) mod c" and "i \<le> j" and "j < c"
  shows "i = j"
proof -
  have "c dvd (a + j) - (a + i)" using assms(1,2) by (subst mod_eq_dvd_iff_nat [symmetric]) auto
  then have "c dvd j - i" by simp
  moreover have "j - i < c" using assms(3) by simp
  ultimately have "j - i = 0" using nat_dvd_not_less by blast
  with assms(2) show ?thesis by simp
qed

lemma mod_add_inj:
  fixes a i j c :: nat
  assumes "(a + i) mod c = (a + j) mod c" and "i < c" and "j < c"
  shows "i = j"
  using mod_add_inj_le [of a i c j] mod_add_inj_le [of a j c i] assms by (cases "i \<le> j") auto

lemma ring_put_items:
  assumes "ring_ready g"
  shows "ring_ready (ring_put g x) \<and> length (gbuffer (ring_put g x)) = length (gbuffer g) \<and>
    ring_items (ring_put g x) =
      drop (if gsize g < length (gbuffer g) then 0 else 1) (ring_items g) @ [x]"
proof (cases "gsize g < length (gbuffer g)")
  case True
  let ?c = "length (gbuffer g)"
  have "(gbuffer g)[(gstart g + gsize g) mod ?c := x] ! ((gstart g + i) mod ?c) =
      gbuffer g ! ((gstart g + i) mod ?c)" if "i < gsize g" for i
    by (rule nth_list_update_neq) (use mod_add_inj [of "gstart g" "gsize g" ?c i] that True in auto)
  moreover have "(gstart g + gsize g) mod ?c < ?c"
    by (rule mod_less_divisor) (use True in linarith)
  ultimately show ?thesis
    using True assms by (simp add: ring_put_def ring_items_def ring_ready_def Let_def)
next
  case False
  let ?c = "length (gbuffer g)"
  have full: "gsize g = ?c" "0 < ?c" using False assms by (auto simp: ring_ready_def)
  let ?g = "ring_put g x"
  have g: "gbuffer ?g = (gbuffer g)[gstart g := x]" "gstart ?g = (gstart g + 1) mod ?c" "gsize ?g = ?c"
    using full assms by (simp_all add: ring_put_def Let_def ring_ready_def)
  have "ring_items ?g = tl (ring_items g) @ [x]"
  proof (rule nth_equalityI)
    show "length (ring_items ?g) = length (tl (ring_items g) @ [x])"
      using full by (simp add: ring_items_def g)
  next
    fix i assume "i < length (ring_items ?g)"
    then have i: "i < ?c" by (simp add: ring_items_def g)
    have e: "((gstart g + 1) mod ?c + i) mod ?c = (gstart g + Suc i) mod ?c"
      by (simp add: mod_add_left_eq)
    have st: "gstart g mod ?c = gstart g" using assms by (simp add: ring_ready_def)
    show "ring_items ?g ! i = (tl (ring_items g) @ [x]) ! i"
    proof (cases "Suc i = ?c")
      case True
      then have "(gstart g + Suc i) mod ?c = gstart g" using st by simp
      moreover have "i = ?c - Suc 0" using True by simp
      ultimately show ?thesis using full e assms by (simp add: ring_items_def g nth_append ring_ready_def)
    next
      case False
      with i have si: "Suc i < ?c" by simp
      have "(gstart g + Suc i) mod ?c \<noteq> gstart g"
        using mod_add_inj [of "gstart g" "Suc i" ?c 0] si st full(2) by auto
      moreover have "i < ?c - Suc 0" using si by linarith
      ultimately show ?thesis using si full e
        by (simp add: ring_items_def g nth_append nth_tl)
    qed
  qed
  moreover have "ring_ready ?g" using assms full g by (simp add: ring_ready_def)
  ultimately show ?thesis using False g by (simp add: drop_Suc)
qed

lemma length_ring_items [simp]: "length (ring_items g) = gsize g"
  by (simp add: ring_items_def)

lemma ring_loop_items:
  assumes "ring_ready g"
  shows "ring_ready (ring_loop bytes g) \<and> length (gbuffer (ring_loop bytes g)) = length (gbuffer g) \<and>
    ring_items (ring_loop bytes g) =
      drop (gsize g + length bytes - length (gbuffer g)) (ring_items g @ bytes)"
  using assms
proof (induction bytes arbitrary: g)
  case Nil
  then show ?case by (simp add: ring_ready_def)
next
  case (Cons x xs)
  note put = ring_put_items [OF Cons.prems, of x]
  from Cons.IH [of "ring_put g x"] put have IH:
    "ring_ready (ring_loop xs (ring_put g x))"
    "length (gbuffer (ring_loop xs (ring_put g x))) = length (gbuffer g)"
    "ring_items (ring_loop xs (ring_put g x)) =
      drop (gsize (ring_put g x) + length xs - length (gbuffer g)) (ring_items (ring_put g x) @ xs)"
    by auto
  have "drop (gsize (ring_put g x) + length xs - length (gbuffer g)) (ring_items (ring_put g x) @ xs) =
      drop (gsize g + length (x # xs) - length (gbuffer g)) (ring_items g @ x # xs)"
  proof (cases "gsize g < length (gbuffer g)")
    case True
    have "length (ring_items (ring_put g x)) = Suc (gsize g)" using put True by simp
    then have "gsize (ring_put g x) = Suc (gsize g)" by (simp only: length_ring_items)
    with put True show ?thesis by simp
  next
    case False
    have full: "gsize g = length (gbuffer g)" using False Cons.prems by (simp add: ring_ready_def)
    have "0 < gsize g" using full Cons.prems by (simp add: ring_ready_def)
    moreover have "length (ring_items (ring_put g x)) = gsize g"
      using put False \<open>0 < gsize g\<close> by simp
    then have "gsize (ring_put g x) = gsize g" by (simp only: length_ring_items)
    ultimately show ?thesis using put False full
      by (cases "length (gbuffer g)") (simp_all add: drop_append drop_Suc flip: drop_drop)
  qed
  with IH show ?case by simp
qed


section \<open>Properties\<close>

text \<open>The line-feed policy. Over any sink that keeps the contract one \<open>WriteSome\<close> returns, and what
  the sink has received, followed by the line feed that is still owed for a carriage return at the
  end, is what it had followed by the accepted bytes with every \<open>CR LF\<close>, \<open>CR\<close> and \<open>LF\<close> as one \<open>LF\<close>: also when
  the sink fails in the middle, and when a line ending is split over two calls.\<close>

theorem NewlineSink_LineFeed:
  assumes "sink w rdy snk" and "rdy (nsink st)"
  shows "\<exists>st' r. newline_write LineFeed w st bytes = Some (st', r) \<and>
    snk (nsink st') @ (if pending_cr st' then [10] else []) =
      snk (nsink st) @ to_lf ((if pending_cr st then [13] else []) @
        (case r of Inl e \<Rightarrow> [] | Inr n \<Rightarrow> take n bytes))"
proof -
  from sink.newline_lf_loop [OF assms, of bytes 0] obtain st' r n where
    "newline_loop LineFeed w bytes st 0 = Some (st', r)"
    "case r of Inl e \<Rightarrow> n = 0 \<and> (0::nat) = 0 | Inr m \<Rightarrow> m = 0 + n"
    "snk (nsink st') @ pending_bytes (pending_cr st') 10 =
      snk (nsink st) @ to_lf (pending_bytes (pending_cr st) 13 @ take n bytes)" by blast
  then show ?thesis
    by (cases r) (auto simp: newline_write_def pending_bytes_def)
qed

definition dos_text :: "fixed_sink newline_sink" where
  "dos_text = \<lparr>nsink = \<lparr>fbuffer = replicate 9 0, fsize = 0\<rparr>, previous_cr = False, pending_cr = True\<rparr>"

theorem NewlineSink_LineFeed_witness:
  "\<exists>st' r. newline_write LineFeed fixed_write dos_text [10, 65, 13, 10, 13, 66] = Some (st', r) \<and>
    fixed_Written (nsink st') @ (if pending_cr st' then [10] else []) =
      fixed_Written (nsink dos_text) @ to_lf ((if pending_cr dos_text then [13] else []) @
        (case r of Inl e \<Rightarrow> [] | Inr n \<Rightarrow> take n [10, 65, 13, 10, 13, 66]))"
  by (rule NewlineSink_LineFeed [OF fixed.sink_axioms])
    (simp add: dos_text_def fixed_ready_def)

text \<open>C36: the \<open>CR LF\<close> policy. When \<open>WriteSome\<close> takes all of the bytes the sink receives them with every \<open>LF\<close>
  that no \<open>CR\<close> precedes as \<open>CR LF\<close>. When it does not, the sink has that for the accepted bytes, and
  possibly the \<open>CR\<close> of a line feed that was not accepted.\<close>

theorem NewlineSink_CrLf:
  assumes "sink w rdy snk" and "rdy (nsink st)"
  shows "\<exists>st' r n extra. newline_write CarriageReturnLineFeed w st bytes = Some (st', r) \<and>
    (case r of Inl e \<Rightarrow> n = 0 | Inr m \<Rightarrow> m = n) \<and> n \<le> length bytes \<and>
    snk (nsink st') = snk (nsink st) @ to_crlf (previous_cr st) (take n bytes) @ extra \<and>
    (if n < length bytes \<and> bytes ! n = 10 then extra = [] \<or> extra = [13] else extra = [])"
proof -
  from sink.newline_crlf_loop [OF assms, of bytes 0] obtain st' r n extra where
    "newline_loop CarriageReturnLineFeed w bytes st 0 = Some (st', r)" "n \<le> length bytes"
    "case r of Inl e \<Rightarrow> n = 0 \<and> (0::nat) = 0 | Inr m \<Rightarrow> m = 0 + n"
    "snk (nsink st') = snk (nsink st) @ to_crlf (previous_cr st) (take n bytes) @ extra"
    "n = length bytes \<longrightarrow> extra = []" "extra = [] \<or> extra = [13] \<and> bytes ! n = 10" by blast
  then show ?thesis
    by (intro exI [of _ st'] exI [of _ r] exI [of _ n] exI [of _ extra])
      (auto simp: newline_write_def split: sum.splits)
qed

theorem NewlineSink_CrLf_witness:
  "\<exists>st' r n extra. newline_write CarriageReturnLineFeed fixed_write dos_text [65, 10, 66] = Some (st', r) \<and>
    (case r of Inl e \<Rightarrow> n = 0 | Inr m \<Rightarrow> m = n) \<and> n \<le> length [65, 10, 66 :: byte] \<and>
    fixed_Written (nsink st') = fixed_Written (nsink dos_text) @
      to_crlf (previous_cr dos_text) (take n [65, 10, 66]) @ extra \<and>
    (if n < length [65, 10, 66 :: byte] \<and> [65, 10, 66 :: byte] ! n = 10 then extra = [] \<or> extra = [13]
     else extra = [])"
  by (rule NewlineSink_CrLf [OF fixed.sink_axioms]) (simp add: dos_text_def fixed_ready_def)

text \<open>That \<open>CR\<close> is not remembered. When the sink takes the \<open>CR\<close> and fails on the \<open>LF\<close>, the line feed is
  reported as not written, and writing it again, as a caller that retries does, sends a second \<open>CR\<close>.\<close>

theorem CrLf_retry_duplicates:
  assumes "WriteAll w s [13] = Some (s1, Inr ())" and "WriteAll w s1 [10] = Some (s2, Inl e)"
    and "WriteAll w s2 [13] = Some (s3, Inr ())" and "WriteAll w s3 [10] = Some (s4, Inr ())"
  shows "\<exists>st st'. newline_write CarriageReturnLineFeed w
        \<lparr>nsink = s, previous_cr = False, pending_cr = False\<rparr> [10] = Some (st, Inl e) \<and> nsink st = s2 \<and>
      newline_write CarriageReturnLineFeed w st [10] = Some (st', Inr 1) \<and> nsink st' = s4"
  using assms by (simp add: newline_write_def newline_before_def partial_result_def)

text \<open>A sink that fails on its second call only; its state is the number of calls and the bytes it has.\<close>

definition flaky :: "(nat \<times> byte list) write_some" where
  "flaky s bytes = Some (if fst s = 1 then ((2, snd s), Inl (Semantic Firmware Write 0 0))
     else ((fst s + 1, snd s @ bytes), Inr (length bytes)))"

theorem CrLf_retry_duplicates_witness:
  "\<exists>st st' e. newline_write CarriageReturnLineFeed flaky
        \<lparr>nsink = (0, []), previous_cr = False, pending_cr = False\<rparr> [10] = Some (st, Inl e) \<and>
      newline_write CarriageReturnLineFeed flaky st [10] = Some (st', Inr 1) \<and>
      nsink st' = (4, [13, 13, 10])"
proof -
  have "WriteAll flaky (0, []) [13] = Some ((1, [13]), Inr ())"
    "WriteAll flaky (1, [13]) [10] = Some ((2, [13]), Inl (add_transferred (Semantic Firmware Write 0 0) 0))"
    "WriteAll flaky (2, [13]) [13] = Some ((3, [13, 13]), Inr ())"
    "WriteAll flaky (3, [13, 13]) [10] = Some ((4, [13, 13, 10]), Inr ())"
    by (simp_all add: WriteAll_def write_loop.simps flaky_def)
  from CrLf_retry_duplicates [OF this] show ?thesis by blast
qed

text \<open>\<open>PrefixSink\<close> forgets what it has accepted. When it fails to write the prefix of a line after it
  has written bytes of this call, it reports an error and not their number, so a caller cannot tell
  that they were written.\<close>

theorem PrefixSink_forgets:
  assumes "WriteAll w s [10] = Some (s1, Inr ())" and "WriteAll w s1 pre = Some (s2, Inl e)"
  shows "prefix_write w \<lparr>psink = s, prefix_text = pre, at_line_start = False\<rparr> (10 # x # xs) =
    Some (\<lparr>psink = s2, prefix_text = pre, at_line_start = True\<rparr>, Inl e)"
  using assms by (simp add: prefix_write_def)

theorem PrefixSink_forgets_witness:
  "prefix_write flaky \<lparr>psink = (0, []), prefix_text = [62], at_line_start = False\<rparr> [10, 65] =
    Some (\<lparr>psink = (2, [10]), prefix_text = [62], at_line_start = True\<rparr>,
      Inl (add_transferred (Semantic Firmware Write 0 0) 0))"
proof -
  have "WriteAll flaky (0, []) [10] = Some ((1, [10]), Inr ())"
    "WriteAll flaky (1, [10]) [62] = Some ((2, [10]), Inl (add_transferred (Semantic Firmware Write 0 0) 0))"
    by (simp_all add: WriteAll_def write_loop.simps flaky_def)
  from PrefixSink_forgets [OF this] show ?thesis .
qed

text \<open>C37: the ring buffer keeps the last bytes. After any write its content, read from its start, is the
  last \<open>Capacity\<close> bytes of the earlier content followed by the bytes written (all of them when there are
  fewer), and it reports that it took them all.\<close>

theorem RingBuffer_keeps_last:
  assumes "ring_ready g"
  shows "\<exists>g'. ring_write g bytes = Some (g', Inr (length bytes)) \<and> ring_ready g' \<and>
    length (gbuffer g') = length (gbuffer g) \<and>
    ring_items g' =
      drop (length (ring_items g @ bytes) - length (gbuffer g)) (ring_items g @ bytes)"
  using ring_loop_items [OF assms, of bytes] by (simp add: ring_write_def)

theorem RingBuffer_keeps_last_witness:
  "\<exists>g'. ring_write \<lparr>gbuffer = [3, 1, 2], gstart = 1, gsize = 3\<rparr> [4, 5] = Some (g', Inr 2) \<and>
    ring_items g' = [3, 4, 5]"
proof -
  let ?g = "\<lparr>gbuffer = [3, 1, 2], gstart = 1, gsize = 3\<rparr> :: ring_sink"
  have "ring_ready ?g" by (simp add: ring_ready_def)
  moreover have "ring_items ?g = [1, 2, 3]" by (simp add: ring_items_def upt_rec)
  ultimately show ?thesis using RingBuffer_keeps_last [of ?g "[4, 5]"] by auto
qed

end
