(* ===== verification/Instruction.thy ===== *)
theory Instruction
  imports Prelude
begin

text \<open>
  The instructions that the assembler takes (\<^verbatim>\<open>Architecture/X64/Instruction\<close>: \<^verbatim>\<open>Register.hpp\<close>, \<^verbatim>\<open>Operand.hpp\<close>,
  \<^verbatim>\<open>Encoding.hpp\<close>, \<^verbatim>\<open>Instruction.hpp\<close>, \<^verbatim>\<open>Condition.hpp\<close>) as records, with their constructors. The two large
  enumerations, registers and mnemonics, are their 16-bit codes.
\<close>

section \<open>Registers and mnemonics\<close>

type_synonym register = u16
type_synonym mnemonic = u16

definition NoRegister :: register where "NoRegister = 0"
definition Eip :: register where "Eip = 196"
definition Rip :: register where "Rip = 197"

definition register_IsValid :: "register \<Rightarrow> bool" where
  "register_IsValid r \<longleftrightarrow> r \<noteq> NoRegister"

definition MnInvalid :: mnemonic where "MnInvalid = 0"
definition MnAdd :: mnemonic where "MnAdd = 9"
definition MnAnd :: mnemonic where "MnAnd = 31"
definition MnCall :: mnemonic where "MnCall = 71"
definition MnCmp :: mnemonic where "MnCmp = 107"
definition MnDec :: mnemonic where "MnDec = 149"
definition MnInc :: mnemonic where "MnInc = 281"
definition MnJmp :: mnemonic where "MnJmp = 311"
definition MnLea :: mnemonic where "MnLea = 396"
definition MnMov :: mnemonic where "MnMov = 436"
definition MnNop :: mnemonic where "MnNop = 487"
definition MnOr :: mnemonic where "MnOr = 489"
definition MnPop :: mnemonic where "MnPop = 609"
definition MnPush :: mnemonic where "MnPush = 665"
definition MnRet :: mnemonic where "MnRet = 691"
definition MnSub :: mnemonic where "MnSub = 777"
definition MnTest :: mnemonic where "MnTest = 795"
definition MnXor :: mnemonic where "MnXor = 1771"

text \<open>The conditions, and the conditional jump of each.\<close>

datatype condition =
    OnOverflow | NotOverflow | Below | AboveEqual | Equal | NotEqual | BelowEqual | Above | OnSign | NotSign
  | Parity | NotParity | Less | GreaterEqual | LessEqual | Greater

fun ConditionMnemonic :: "condition \<Rightarrow> mnemonic" where
  "ConditionMnemonic OnOverflow = 320"
| "ConditionMnemonic NotOverflow = 316"
| "ConditionMnemonic Below = 303"
| "ConditionMnemonic AboveEqual = 312"
| "ConditionMnemonic Equal = 324"
| "ConditionMnemonic NotEqual = 319"
| "ConditionMnemonic BelowEqual = 304"
| "ConditionMnemonic Above = 313"
| "ConditionMnemonic OnSign = 323"
| "ConditionMnemonic NotSign = 318"
| "ConditionMnemonic Parity = 321"
| "ConditionMnemonic NotParity = 317"
| "ConditionMnemonic Less = 309"
| "ConditionMnemonic GreaterEqual = 314"
| "ConditionMnemonic LessEqual = 310"
| "ConditionMnemonic Greater = 315"

section \<open>Encoding options\<close>

datatype machine_mode = Long64 | LongCompat32 | LongCompat16 | Legacy32 | Legacy16 | Real16

datatype branch_type = AutomaticBranch | ShortBranch | NearBranch | FarBranch

datatype branch_width = AutomaticWidth | Width8 | Width16 | Width32 | Width64

datatype address_size_hint = AutomaticAddress | Address16 | Address32 | Address64

datatype operand_size_hint = AutomaticOperand | Operand8 | Operand16 | Operand32 | Operand64

datatype broadcast_mode =
    NoBroadcast | OneTo2 | OneTo4 | OneTo8 | OneTo16 | OneTo32 | OneTo64 | TwoTo4 | TwoTo8 | TwoTo16
  | FourTo8 | FourTo16 | EightTo16

datatype rounding_mode = NoRounding | Nearest | RoundDown | RoundUp | TowardZero

datatype swizzle_mode = NoSwizzle | Dcba | Cdab | Badc | Dacb | Aaaa | Bbbb | Cccc | Dddd

datatype conversion_mode =
    NoConversion | Float16Conversion | SignedInt8 | UnsignedInt8 | SignedInt16 | UnsignedInt16

record evex_options =
  ev_broadcast :: broadcast_mode
  ev_rounding :: rounding_mode
  ev_suppress :: bool
  ev_zeroing :: bool

record mvex_options =
  mv_broadcast :: broadcast_mode
  mv_conversion :: conversion_mode
  mv_rounding :: rounding_mode
  mv_swizzle :: swizzle_mode
  mv_suppress :: bool
  mv_eviction :: bool

record encoding_options =
  op_mode :: machine_mode
  op_encodings :: u32
  op_prefixes :: u32
  op_branch :: branch_type
  op_branch_size :: branch_width
  op_address_size :: address_size_hint
  op_operand_size :: operand_size_hint
  op_evex :: evex_options
  op_mvex :: mvex_options

definition no_options :: encoding_options where
  "no_options = \<lparr>op_mode = Long64, op_encodings = 0, op_prefixes = 0, op_branch = AutomaticBranch,
     op_branch_size = AutomaticWidth, op_address_size = AutomaticAddress, op_operand_size = AutomaticOperand,
     op_evex = \<lparr>ev_broadcast = NoBroadcast, ev_rounding = NoRounding, ev_suppress = False, ev_zeroing = False\<rparr>,
     op_mvex = \<lparr>mv_broadcast = NoBroadcast, mv_conversion = NoConversion, mv_rounding = NoRounding,
       mv_swizzle = NoSwizzle, mv_suppress = False, mv_eviction = False\<rparr>\<rparr>"

definition HasPrefix :: "u32 \<Rightarrow> u32 \<Rightarrow> bool" where
  "HasPrefix ps p \<longleftrightarrow> ps AND p \<noteq> 0"

section \<open>Operands\<close>

datatype operand_type = Unused | RegisterOperand | MemoryOperand | PointerOperand | ImmediateOperand

record immediate =
  im_unsigned :: u64
  im_signed :: u64
  im_is_signed :: bool
  im_relative :: bool
  im_has_absolute :: bool
  im_absolute :: u64

text \<open>\<open>SignedValue\<close> has the bits of its 64-bit integer.\<close>

definition no_immediate :: immediate where
  "no_immediate = \<lparr>im_unsigned = 0, im_signed = 0, im_is_signed = False, im_relative = False,
     im_has_absolute = False, im_absolute = 0\<rparr>"

definition ImmediateUnsigned :: "u64 \<Rightarrow> immediate" where
  "ImmediateUnsigned v = no_immediate\<lparr>im_unsigned := v, im_signed := v\<rparr>"

definition ImmediateSigned :: "u64 \<Rightarrow> immediate" where
  "ImmediateSigned v = no_immediate\<lparr>im_unsigned := v, im_signed := v, im_is_signed := True\<rparr>"

definition ImmediateRelative :: "u64 \<Rightarrow> immediate" where
  "ImmediateRelative v = (ImmediateUnsigned v)\<lparr>im_relative := True, im_has_absolute := True, im_absolute := v\<rparr>"

definition ImmediateAbsolute :: "u64 \<Rightarrow> immediate" where
  "ImmediateAbsolute v = (ImmediateUnsigned v)\<lparr>im_has_absolute := True, im_absolute := v\<rparr>"

datatype memory_operand_type = NoMemory | PlainMemory | AddressGeneration | Mib | Vsib

record memory_operand =
  mo_type :: memory_operand_type
  mo_segment :: register
  mo_base :: register
  mo_index :: register
  mo_scale :: u8
  mo_displacement :: u64
  mo_has_displacement :: bool
  mo_size :: u16
  mo_has_absolute :: bool
  mo_absolute :: u64

definition no_memory :: memory_operand where
  "no_memory = \<lparr>mo_type = PlainMemory, mo_segment = 0, mo_base = 0, mo_index = 0, mo_scale = 1,
     mo_displacement = 0, mo_has_displacement = False, mo_size = 0, mo_has_absolute = False, mo_absolute = 0\<rparr>"

definition BaseDisplacement :: "register \<Rightarrow> u64 \<Rightarrow> u16 \<Rightarrow> memory_operand" where
  "BaseDisplacement base displacement width =
     no_memory\<lparr>mo_base := base, mo_displacement := displacement, mo_has_displacement := displacement \<noteq> 0,
       mo_size := width\<rparr>"

definition MemoryAddress :: "register \<Rightarrow> register \<Rightarrow> u8 \<Rightarrow> u64 \<Rightarrow> u16 \<Rightarrow> memory_operand" where
  "MemoryAddress base index scale displacement width =
     no_memory\<lparr>mo_base := base, mo_index := index, mo_scale := scale, mo_displacement := displacement,
       mo_has_displacement := displacement \<noteq> 0, mo_size := width\<rparr>"

definition MemoryAbsolute :: "u64 \<Rightarrow> u16 \<Rightarrow> memory_operand" where
  "MemoryAbsolute address width =
     no_memory\<lparr>mo_has_displacement := True, mo_displacement := address, mo_size := width,
       mo_has_absolute := True, mo_absolute := address\<rparr>"

definition RipRelative :: "u64 \<Rightarrow> u16 \<Rightarrow> memory_operand" where
  "RipRelative target width =
     no_memory\<lparr>mo_base := Rip, mo_size := width, mo_has_absolute := True, mo_absolute := target\<rparr>"

record operand =
  od_type :: operand_type
  od_access :: u8
  od_size :: u16
  od_register :: register
  od_memory :: memory_operand
  od_immediate :: immediate
  od_pointer :: "u16 \<times> u32"

text \<open>The fields that only the decoder sets, but for the access mask, are left out.\<close>

definition no_operand :: operand where
  "no_operand = \<lparr>od_type = Unused, od_access = 0, od_size = 0, od_register = NoRegister, od_memory = no_memory,
     od_immediate = no_immediate, od_pointer = (0, 0)\<rparr>"

definition FromRegister :: "register \<Rightarrow> u16 \<Rightarrow> operand" where
  "FromRegister r width = no_operand\<lparr>od_type := RegisterOperand, od_register := r, od_size := width\<rparr>"

definition FromMemory :: "memory_operand \<Rightarrow> operand" where
  "FromMemory m = no_operand\<lparr>od_type := MemoryOperand, od_memory := m, od_size := mo_size m\<rparr>"

definition FromImmediate :: "immediate \<Rightarrow> u16 \<Rightarrow> operand" where
  "FromImmediate v width = no_operand\<lparr>od_type := ImmediateOperand, od_immediate := v, od_size := width\<rparr>"

definition FromPointer :: "u16 \<times> u32 \<Rightarrow> operand" where
  "FromPointer v = no_operand\<lparr>od_type := PointerOperand, od_pointer := v\<rparr>"

definition operand_Reads :: "operand \<Rightarrow> bool" where
  "operand_Reads v \<longleftrightarrow> od_access v AND (1 OR 4) \<noteq> 0"

definition operand_Writes :: "operand \<Rightarrow> bool" where
  "operand_Writes v \<longleftrightarrow> od_access v AND (2 OR 8) \<noteq> 0"

definition Reg :: "register \<Rightarrow> operand" where "Reg r = FromRegister r 0"
definition Mem :: "memory_operand \<Rightarrow> operand" where "Mem m = FromMemory m"
definition Imm :: "u64 \<Rightarrow> operand" where "Imm v = FromImmediate (ImmediateUnsigned v) 0"
definition SImm :: "u64 \<Rightarrow> operand" where "SImm v = FromImmediate (ImmediateSigned v) 0"
definition Relative :: "u64 \<Rightarrow> operand" where "Relative v = FromImmediate (ImmediateRelative v) 0"
definition Absolute :: "u64 \<Rightarrow> operand" where "Absolute v = FromImmediate (ImmediateAbsolute v) 0"
definition Ptr :: "u16 \<Rightarrow> u32 \<Rightarrow> operand" where "Ptr segment offset = FromPointer (segment, offset)"
definition BytePtr :: "register \<Rightarrow> u64 \<Rightarrow> operand" where "BytePtr b d = Mem (BaseDisplacement b d 8)"
definition WordPtr :: "register \<Rightarrow> u64 \<Rightarrow> operand" where "WordPtr b d = Mem (BaseDisplacement b d 16)"
definition DwordPtr :: "register \<Rightarrow> u64 \<Rightarrow> operand" where "DwordPtr b d = Mem (BaseDisplacement b d 32)"
definition QwordPtr :: "register \<Rightarrow> u64 \<Rightarrow> operand" where "QwordPtr b d = Mem (BaseDisplacement b d 64)"
definition AddressPtr :: "register \<Rightarrow> register \<Rightarrow> u8 \<Rightarrow> u64 \<Rightarrow> u16 \<Rightarrow> operand" where
  "AddressPtr b i s d w = Mem (MemoryAddress b i s d w)"
definition AbsolutePtr :: "u64 \<Rightarrow> u16 \<Rightarrow> operand" where "AbsolutePtr t w = Mem (MemoryAbsolute t w)"
definition RipPtr :: "u64 \<Rightarrow> u16 \<Rightarrow> operand" where "RipPtr t w = Mem (RipRelative t w)"

section \<open>Instructions\<close>

text \<open>The operands in use; the array of five has no others that anything reads.\<close>

record instruction =
  in_mnemonic :: mnemonic
  in_options :: encoding_options
  in_operands :: "operand list"

definition MaximumOperandCount :: nat where "MaximumOperandCount = 5"

definition instruction_of :: "mnemonic \<Rightarrow> instruction" where
  "instruction_of m = \<lparr>in_mnemonic = m, in_options = no_options, in_operands = []\<rparr>"

definition AddOperand :: "instruction \<Rightarrow> operand \<Rightarrow> instruction \<times> bool" where
  "AddOperand i v =
     (if length (in_operands i) \<ge> MaximumOperandCount then (i, False)
      else (i\<lparr>in_operands := in_operands i @ [v]\<rparr>, True))"

definition OperandAt :: "instruction \<Rightarrow> nat \<Rightarrow> operand option" where
  "OperandAt i k = (if k < length (in_operands i) then Some (in_operands i ! k) else None)"

definition MaximumLength :: nat where "MaximumLength = 15"

end
