(* ===== verification/Bit.thy ===== *)
theory Bit
  imports Prelude "HOL-Library.While_Combinator"
begin

text \<open>
  \<^verbatim>\<open>Foundation/Bit.hpp\<close>: masks, single-bit and field updates, alignment, powers of two,
  rotations, sign extension, bit counts and byte access, over the unsigned representation of
  the integral or enum argument (\<^verbatim>\<open>Detail::Bit::ToUnsigned\<close> and \<^verbatim>\<open>FromUnsigned\<close> only change
  the C++ type, not the bits), a word of any length. An index, a width or a mask of another
  integral type is an \<open>int\<close>: it may be negative, and the cast to the unsigned type reduces it
  modulo the word's size. The loops of the source are \<open>while\<close> loops over the same variables.
\<close>

section \<open>Masks and tests\<close>

definition MaskToUnsigned :: "int \<Rightarrow> 'a::len word" where
  "MaskToUnsigned m = word_of_int m"

definition IsNegative :: "int \<Rightarrow> bool" where
  "IsNegative i = (i < 0)"

definition Detail_LowMask :: "nat \<Rightarrow> 'a::len word" where
  "Detail_LowMask w =
     (if w = 0 then 0
      else if w \<ge> LENGTH('a) then NOT 0
      else push_bit w 1 - 1)"

definition Bit_Mask :: "int \<Rightarrow> 'a::len word" where
  "Bit_Mask i =
     (if IsNegative i then 0
      else if nat i \<ge> LENGTH('a) then 0
      else push_bit (nat i) 1)"

definition Bit_LowMask :: "int \<Rightarrow> 'a::len word" where
  "Bit_LowMask w = (if IsNegative w then 0 else Detail_LowMask (nat w))"

definition Bit_RangeMask :: "int \<Rightarrow> int \<Rightarrow> 'a::len word" where
  "Bit_RangeMask off w =
     (if IsNegative off \<or> IsNegative w then 0
      else if nat off \<ge> LENGTH('a) \<or> nat w = 0 then 0
      else
        let available = LENGTH('a) - nat off;
            effective = (if nat w < available then nat w else available)
        in push_bit (nat off) (Detail_LowMask effective))"

definition Bit_IsSet :: "'a::len word \<Rightarrow> int \<Rightarrow> bool" where
  "Bit_IsSet v m = (v AND MaskToUnsigned m = MaskToUnsigned m)"

definition Bit_HasAny :: "'a::len word \<Rightarrow> int \<Rightarrow> bool" where
  "Bit_HasAny v m = (v AND MaskToUnsigned m \<noteq> 0)"

definition Bit_HasNone :: "'a::len word \<Rightarrow> int \<Rightarrow> bool" where
  "Bit_HasNone v m = (\<not> Bit_HasAny v m)"

section \<open>Updates\<close>

definition Bit_Set :: "'a::len word \<Rightarrow> int \<Rightarrow> 'a word" where
  "Bit_Set v m = v OR MaskToUnsigned m"

definition Bit_Clear :: "'a::len word \<Rightarrow> int \<Rightarrow> 'a word" where
  "Bit_Clear v m = v AND NOT (MaskToUnsigned m)"

definition Bit_Toggle :: "'a::len word \<Rightarrow> int \<Rightarrow> 'a word" where
  "Bit_Toggle v m = v XOR MaskToUnsigned m"

definition Bit_Assign :: "'a::len word \<Rightarrow> int \<Rightarrow> bool \<Rightarrow> 'a word" where
  "Bit_Assign v m enabled = (if enabled then Bit_Set v m else Bit_Clear v m)"

text \<open>The single-bit forms pass \<open>Mask<T>(BitIndex)\<close>, a value of the word's own type, as the
  mask; \<open>uint\<close> is that value as an integer.\<close>

definition Bit_IsBitSet :: "'a::len word \<Rightarrow> int \<Rightarrow> bool" where
  "Bit_IsBitSet v i =
     (let m = (Bit_Mask i :: 'a word) in m \<noteq> 0 \<and> Bit_HasAny v (uint m))"

definition Bit_SetBit :: "'a::len word \<Rightarrow> int \<Rightarrow> 'a word" where
  "Bit_SetBit v i = Bit_Set v (uint (Bit_Mask i :: 'a word))"

definition Bit_ClearBit :: "'a::len word \<Rightarrow> int \<Rightarrow> 'a word" where
  "Bit_ClearBit v i = Bit_Clear v (uint (Bit_Mask i :: 'a word))"

definition Bit_ToggleBit :: "'a::len word \<Rightarrow> int \<Rightarrow> 'a word" where
  "Bit_ToggleBit v i = Bit_Toggle v (uint (Bit_Mask i :: 'a word))"

definition Bit_AssignBit :: "'a::len word \<Rightarrow> int \<Rightarrow> bool \<Rightarrow> 'a word" where
  "Bit_AssignBit v i enabled = Bit_Assign v (uint (Bit_Mask i :: 'a word)) enabled"

definition Bit_ClearAndSet :: "'a::len word \<Rightarrow> int \<Rightarrow> int \<Rightarrow> 'a word" where
  "Bit_ClearAndSet v clear_mask set_mask = Bit_Set (Bit_Clear v clear_mask) set_mask"

definition Bit_Replace :: "'a::len word \<Rightarrow> int \<Rightarrow> int \<Rightarrow> 'a word" where
  "Bit_Replace v m r =
     (v AND NOT (MaskToUnsigned m)) OR (MaskToUnsigned r AND MaskToUnsigned m)"

definition Bit_Extract :: "'a::len word \<Rightarrow> int \<Rightarrow> int \<Rightarrow> 'a word" where
  "Bit_Extract v off w =
     (if IsNegative off \<or> IsNegative w then 0
      else if nat off \<ge> LENGTH('a) \<or> nat w = 0 then 0
      else drop_bit (nat off) v AND Detail_LowMask (nat w))"

definition Bit_Insert :: "'a::len word \<Rightarrow> int \<Rightarrow> int \<Rightarrow> int \<Rightarrow> 'a word" where
  "Bit_Insert v field off w =
     (if IsNegative off \<or> IsNegative w then v
      else if nat off \<ge> LENGTH('a) \<or> nat w = 0 then v
      else
        let available = LENGTH('a) - nat off;
            effective = (if nat w < available then nat w else available);
            raw_mask = push_bit (nat off) (Detail_LowMask effective);
            shifted_field = push_bit (nat off) (MaskToUnsigned field)
        in (v AND NOT raw_mask) OR (shifted_field AND raw_mask))"

section \<open>Powers of two and alignment\<close>

definition Bit_IsPowerOfTwo :: "'a::len word \<Rightarrow> bool" where
  "Bit_IsPowerOfTwo v = (v \<noteq> 0 \<and> v AND (v - 1) = 0)"

definition Bit_IsValidAlignment :: "'a::len word \<Rightarrow> bool" where
  "Bit_IsValidAlignment a = Bit_IsPowerOfTwo a"

text \<open>\<open>alignment_too_wide\<close> is the \<^verbatim>\<open>if constexpr (sizeof(U) > sizeof(T))\<close> test shared by
  \<open>TryAlignDown\<close>, \<open>TryAlignUp\<close> and \<open>IsAligned\<close>: an alignment of a wider type that the value's
  type cannot represent.\<close>

definition alignment_too_wide :: "'a::len word itself \<Rightarrow> 'b::len word \<Rightarrow> bool" where
  "alignment_too_wide T a = (LENGTH('b) > LENGTH('a) \<and> a > ucast (NOT (0 :: 'a word)))"

text \<open>The result is \<open>Some\<close> of the value stored through the reference \<^verbatim>\<open>Result\<close> when the function
  returns true, \<open>None\<close> (nothing stored) when it returns false.\<close>

definition Bit_TryAlignDown :: "'a::len word \<Rightarrow> 'b::len word \<Rightarrow> 'a word option" where
  "Bit_TryAlignDown v alignment =
     (if alignment_too_wide TYPE('a word) alignment then None
      else
        let a = (ucast alignment :: 'a word)
        in if \<not> Bit_IsValidAlignment a then None
           else Some (v AND NOT (a - 1)))"

definition Bit_TryAlignUp :: "'a::len word \<Rightarrow> 'b::len word \<Rightarrow> 'a word option" where
  "Bit_TryAlignUp v alignment =
     (if alignment_too_wide TYPE('a word) alignment then None
      else
        let a = (ucast alignment :: 'a word)
        in if \<not> Bit_IsValidAlignment a then None
           else
             let adjustment = a - 1; maximum = NOT (0 :: 'a word)
             in if v > maximum - adjustment then None
                else Some ((v + adjustment) AND NOT adjustment))"

definition Bit_AlignDown :: "'a::len word \<Rightarrow> 'b::len word \<Rightarrow> 'a word" where
  "Bit_AlignDown v a = (case Bit_TryAlignDown v a of Some r \<Rightarrow> r | None \<Rightarrow> 0)"

definition Bit_AlignUp :: "'a::len word \<Rightarrow> 'b::len word \<Rightarrow> 'a word" where
  "Bit_AlignUp v a = (case Bit_TryAlignUp v a of Some r \<Rightarrow> r | None \<Rightarrow> 0)"

definition Bit_IsAligned :: "'a::len word \<Rightarrow> 'b::len word \<Rightarrow> bool" where
  "Bit_IsAligned v alignment =
     (if alignment_too_wide TYPE('a word) alignment then False
      else
        let a = (ucast alignment :: 'a word)
        in Bit_IsValidAlignment a \<and> v AND (a - 1) = 0)"

definition Bit_FloorPowerOfTwo :: "'a::len word \<Rightarrow> 'a word" where
  "Bit_FloorPowerOfTwo v =
     (if v = 0 then 0
      else
        let (shift, raw) =
              while (\<lambda>(shift, raw). shift < LENGTH('a))
                    (\<lambda>(shift, raw). (2 * shift, raw OR drop_bit shift raw)) (1, v)
        in raw - drop_bit 1 raw)"

definition Bit_CeilPowerOfTwo :: "'a::len word \<Rightarrow> 'a word" where
  "Bit_CeilPowerOfTwo v =
     (if v \<le> 1 then 1
      else
        let floor = Bit_FloorPowerOfTwo v
        in if floor > drop_bit 1 (NOT 0) then 0 else push_bit 1 floor)"

section \<open>Rotations, sign extension, counts, bytes\<close>

definition Bit_RotateLeft :: "'a::len word \<Rightarrow> int \<Rightarrow> 'a word" where
  "Bit_RotateLeft v c =
     (if IsNegative c then v
      else
        let count = nat c mod LENGTH('a)
        in if count = 0 then v
           else push_bit count v OR drop_bit (LENGTH('a) - count) v)"

definition Bit_RotateRight :: "'a::len word \<Rightarrow> int \<Rightarrow> 'a word" where
  "Bit_RotateRight v c =
     (if IsNegative c then v
      else
        let count = nat c mod LENGTH('a)
        in if count = 0 then v
           else drop_bit count v OR push_bit (LENGTH('a) - count) v)"

definition Bit_SignExtend :: "'a::len word \<Rightarrow> int \<Rightarrow> 'a word" where
  "Bit_SignExtend v w =
     (if IsNegative w then 0
      else if nat w = 0 then 0
      else if nat w \<ge> LENGTH('a) then v
      else
        let field_mask = Detail_LowMask (nat w);
            raw = v AND field_mask;
            sign_bit = push_bit (nat w - 1) 1
        in if raw AND sign_bit \<noteq> 0 then raw OR NOT field_mask else raw)"

definition Bit_CountOnes :: "'a::len word \<Rightarrow> nat" where
  "Bit_CountOnes v =
     snd (while (\<lambda>(raw, count). raw \<noteq> 0)
                (\<lambda>(raw, count). (raw AND (raw - 1), count + 1)) (v, 0))"

definition Bit_CountTrailingZeros :: "'a::len word \<Rightarrow> nat" where
  "Bit_CountTrailingZeros v =
     (if v = 0 then LENGTH('a)
      else snd (while (\<lambda>(raw, count). raw AND 1 = 0)
                      (\<lambda>(raw, count). (drop_bit 1 raw, count + 1)) (v, 0)))"

definition Bit_CountLeadingZeros :: "'a::len word \<Rightarrow> nat" where
  "Bit_CountLeadingZeros v =
     (if v = 0 then LENGTH('a)
      else snd (while (\<lambda>(test_mask, count). v AND test_mask = 0)
                      (\<lambda>(test_mask, count). (drop_bit 1 test_mask, count + 1))
                      (push_bit (LENGTH('a) - 1) 1, 0)))"

definition Bit_Byte :: "'a::len word \<Rightarrow> int \<Rightarrow> u8" where
  "Bit_Byte v i =
     (if IsNegative i then 0
      else if nat i \<ge> LENGTH('a) div 8 then 0
      else ucast (drop_bit (nat i * 8) v AND 0xFF))"

definition Bit_FromByte :: "u8 \<Rightarrow> int \<Rightarrow> 'a::len word" where
  "Bit_FromByte b i =
     (if IsNegative i then 0
      else if nat i \<ge> LENGTH('a) div 8 then 0
      else push_bit (nat i * 8) (ucast b))"

section \<open>Bit-level meaning of the masks and the field operations\<close>

named_theorems bit_ops

lemma bit_push_one: "bit (push_bit k 1 :: 'a::len word) n \<longleftrightarrow> n = k \<and> k < LENGTH('a)"
  by (auto simp: bit_exp_iff)

lemma Detail_LowMask_mask: "Detail_LowMask w = (mask w :: 'a::len word)"
proof (cases "w < LENGTH('a)")
  case True
  then show ?thesis
    by (auto simp: Detail_LowMask_def mask_eq_decr_exp)
next
  case False
  then have "bit (mask w :: 'a word) n = bit (NOT 0 :: 'a word) n" if "n < LENGTH('a)" for n
    using that by (simp add: bit_mask_iff bit_not_iff)
  then have "(mask w :: 'a word) = NOT 0"
    by (rule bit_word_eqI)
  with False show ?thesis
    by (auto simp: Detail_LowMask_def not_less intro: less_le_trans [OF len_gt_0])
qed

lemma bit_Detail_LowMask [bit_ops]:
  "bit (Detail_LowMask w :: 'a::len word) n \<longleftrightarrow> n < w \<and> n < LENGTH('a)"
  by (auto simp: Detail_LowMask_mask bit_mask_iff)

lemma bit_MaskToUnsigned [bit_ops]:
  "bit (MaskToUnsigned m :: 'a::len word) n \<longleftrightarrow> n < LENGTH('a) \<and> bit m n"
  by (simp add: MaskToUnsigned_def bit_word_of_int_iff)

lemma bit_Bit_Mask [bit_ops]:
  "bit (Bit_Mask i :: 'a::len word) n \<longleftrightarrow> 0 \<le> i \<and> n = nat i \<and> n < LENGTH('a)"
  by (auto simp: Bit_Mask_def IsNegative_def bit_exp_iff)

lemma bit_Bit_Extract [bit_ops]:
  "bit (Bit_Extract v off w) n \<longleftrightarrow>
     0 \<le> off \<and> 0 \<le> w \<and> n < nat w \<and> bit v (nat off + n)"
  for v :: "'a::len word"
  by (auto simp: Bit_Extract_def IsNegative_def bit_and_iff bit_drop_bit_eq bit_Detail_LowMask
      dest: bit_imp_le_length)

lemma bit_Bit_Insert [bit_ops]:
  "bit (Bit_Insert v field off w) n \<longleftrightarrow>
     (if 0 \<le> off \<and> 0 \<le> w \<and> nat off \<le> n \<and> n < nat off + nat w
      then n < LENGTH('a) \<and> bit field (n - nat off) else bit v n)"
  for v :: "'a::len word"
proof (cases "0 \<le> off \<and> 0 \<le> w \<and> nat off < LENGTH('a) \<and> nat w \<noteq> 0 \<and> n < LENGTH('a)")
  case True
  define o' where "o' = nat off"
  define e where "e = (if nat w < LENGTH('a) - o' then nat w else LENGTH('a) - o')"
  have e: "n - o' < e \<longleftrightarrow> n < o' + nat w" if "o' \<le> n"
    using that True by (auto simp: e_def)
  have "Bit_Insert v field off w =
      (v AND NOT (push_bit o' (Detail_LowMask e))) OR
      (push_bit o' (MaskToUnsigned field) AND push_bit o' (Detail_LowMask e))"
    using True by (simp add: Bit_Insert_def IsNegative_def Let_def o'_def e_def not_le)
  then have "bit (Bit_Insert v field off w) n \<longleftrightarrow>
      (if o' \<le> n \<and> n - o' < e then bit field (n - o') else bit v n)"
    using True by (auto simp: bit_and_iff bit_or_iff bit_not_iff bit_push_bit_iff bit_ops)
  also have "\<dots> \<longleftrightarrow> (if o' \<le> n \<and> n < o' + nat w then bit field (n - o') else bit v n)"
    using e by auto
  finally show ?thesis
    using True by (simp add: o'_def)
next
  case False
  then show ?thesis
    by (auto simp: Bit_Insert_def IsNegative_def dest: bit_imp_le_length)
qed

lemma bit_rotated_left:
  assumes "k < LENGTH('a)" and "n < LENGTH('a)"
  shows "bit (push_bit k v OR drop_bit (LENGTH('a) - k) v :: 'a::len word) n \<longleftrightarrow>
    bit v ((n + (LENGTH('a) - k)) mod LENGTH('a))"
proof (cases "n < k")
  case True
  with assms show ?thesis
    by (simp add: bit_or_iff bit_push_bit_iff bit_drop_bit_eq add.commute)
next
  case False
  then have "(n + (LENGTH('a) - k)) mod LENGTH('a) = n - k"
    using assms by (simp add: mod_if)
  moreover have "\<not> bit v (LENGTH('a) - k + n)"
    using False assms by (auto dest!: bit_imp_le_length)
  ultimately show ?thesis
    using False assms by (simp add: bit_or_iff bit_push_bit_iff bit_drop_bit_eq)
qed

lemma bit_rotated_right:
  assumes "k < LENGTH('a)" and "n < LENGTH('a)" and "0 < k"
  shows "bit (drop_bit k v OR push_bit (LENGTH('a) - k) v :: 'a::len word) n \<longleftrightarrow>
    bit v ((n + k) mod LENGTH('a))"
proof (cases "n + k < LENGTH('a)")
  case True
  then have "\<not> (LENGTH('a) - k \<le> n)" by linarith
  with True assms show ?thesis
    by (simp add: bit_or_iff bit_push_bit_iff bit_drop_bit_eq add.commute)
next
  case False
  then have "(n + k) mod LENGTH('a) = n - (LENGTH('a) - k)"
    using assms by (simp add: mod_if)
  moreover have "\<not> bit v (k + n)"
    using False by (auto dest!: bit_imp_le_length)
  moreover have "LENGTH('a) - k \<le> n" using False by linarith
  ultimately show ?thesis
    using assms by (simp add: bit_or_iff bit_push_bit_iff bit_drop_bit_eq)
qed

lemma bit_Bit_RotateLeft [bit_ops]:
  assumes "0 \<le> c" and "n < LENGTH('a)"
  shows "bit (Bit_RotateLeft v c :: 'a::len word) n \<longleftrightarrow>
    bit v ((n + (LENGTH('a) - nat c mod LENGTH('a))) mod LENGTH('a))"
proof -
  define k where "k = nat c mod LENGTH('a)"
  have k: "k < LENGTH('a)" by (simp add: k_def)
  have "Bit_RotateLeft v c =
      (if k = 0 then v else push_bit k v OR drop_bit (LENGTH('a) - k) v)"
    using assms(1) by (simp add: Bit_RotateLeft_def IsNegative_def k_def Let_def)
  then show ?thesis
    using bit_rotated_left [OF k assms(2), of v] assms(2) by (simp add: k_def [symmetric])
qed

lemma bit_Bit_RotateRight [bit_ops]:
  assumes "0 \<le> c" and "n < LENGTH('a)"
  shows "bit (Bit_RotateRight v c :: 'a::len word) n \<longleftrightarrow>
    bit v ((n + nat c mod LENGTH('a)) mod LENGTH('a))"
proof -
  define k where "k = nat c mod LENGTH('a)"
  have k: "k < LENGTH('a)" by (simp add: k_def)
  have "Bit_RotateRight v c =
      (if k = 0 then v else drop_bit k v OR push_bit (LENGTH('a) - k) v)"
    using assms(1) by (simp add: Bit_RotateRight_def IsNegative_def k_def Let_def)
  then show ?thesis
    using bit_rotated_right [OF k assms(2), of v] assms(2)
    unfolding k_def [symmetric] by (cases "k = 0") auto
qed

section \<open>Powers of two\<close>

lemma and_pred_even: "0 < m \<Longrightarrow> (2 * m) AND (2 * m - 1) = 2 * (m AND (m - 1))" for m :: nat
proof -
  assume "0 < m"
  then have "(2 * m - 1) div 2 = m - 1" by linarith
  then show ?thesis
    by (subst and_rec) simp
qed

lemma and_pred_odd: "Suc (2 * m) AND (Suc (2 * m) - 1) = 2 * m" for m :: nat
  by (subst and_rec) simp

lemma and_pred_zero_iff: "0 < m \<Longrightarrow> m AND (m - 1) = 0 \<longleftrightarrow> (\<exists>k. m = 2 ^ k)" for m :: nat
proof (induction m rule: less_induct)
  case (less m)
  show ?case
  proof (cases "even m")
    case True
    then obtain h where h: "m = 2 * h" by (rule evenE)
    with less.prems have "0 < h" "h < m" by simp_all
    then have "m AND (m - 1) = 0 \<longleftrightarrow> (\<exists>k. h = 2 ^ k)"
      using less.IH [of h] and_pred_even [of h] by (simp add: h)
    also have "\<dots> \<longleftrightarrow> (\<exists>k. m = 2 ^ k)"
    proof
      assume "\<exists>k. h = 2 ^ k"
      then obtain k where "h = 2 ^ k" ..
      then have "m = 2 ^ Suc k" by (simp add: h)
      then show "\<exists>k. m = 2 ^ k" ..
    next
      assume "\<exists>k. m = 2 ^ k"
      then obtain k where k: "m = 2 ^ k" ..
      show "\<exists>k. h = 2 ^ k"
      proof (cases k)
        case 0
        with k h show ?thesis by simp
      next
        case (Suc j)
        with k h have "h = 2 ^ j" by simp
        then show ?thesis ..
      qed
    qed
    finally show ?thesis .
  next
    case False
    then obtain h where h: "m = Suc (2 * h)" by (auto elim: oddE)
    have "m AND (m - 1) = 2 * h" using and_pred_odd [of h] by (simp add: h)
    moreover have "(\<exists>k. m = 2 ^ k) \<longleftrightarrow> h = 0"
    proof
      assume "\<exists>k. m = 2 ^ k"
      then obtain k where k: "m = 2 ^ k" ..
      with False have "k = 0" by (cases k) auto
      with k h show "h = 0" by simp
    next
      assume "h = 0"
      then have "m = 2 ^ 0" by (simp add: h)
      then show "\<exists>k. m = 2 ^ k" ..
    qed
    ultimately show ?thesis by simp
  qed
qed

lemma unat_and_pred: "w \<noteq> 0 \<Longrightarrow> unat (w AND (w - 1)) = unat w AND (unat w - 1)"
  for w :: "'a::len word"
  by (simp add: unsigned_and_eq unat_minus_one_word)

lemma Bit_IsPowerOfTwo_iff: "Bit_IsPowerOfTwo v \<longleftrightarrow> (\<exists>k. unat v = 2 ^ k)"
  for v :: "'a::len word"
proof (cases "v = 0")
  case True
  then show ?thesis by (simp add: Bit_IsPowerOfTwo_def)
next
  case False
  then have "0 < unat v" by (simp add: unat_gt_0)
  have "v AND (v - 1) = 0 \<longleftrightarrow> unat (v AND (v - 1)) = 0" by (simp add: unat_eq_0)
  with False \<open>0 < unat v\<close> show ?thesis
    using and_pred_zero_iff [of "unat v"] by (simp add: Bit_IsPowerOfTwo_def unat_and_pred)
qed

lemma power_of_two_bound: "unat v = 2 ^ k \<Longrightarrow> k < LENGTH('a)" for v :: "'a::len word"
  using unat_lt2p [of v] by simp

section \<open>Alignment\<close>

lemma less_exp_diff: "m < n \<Longrightarrow> 2 ^ m - Suc 0 < 2 ^ n"
  by (meson diff_le_self le_less_trans one_less_numeral_iff power_strict_increasing semiring_norm(76))

lemma alignment_narrow:
  "\<not> alignment_too_wide TYPE('a::len word) (a :: 'b::len word) \<Longrightarrow>
     unat (ucast a :: 'a word) = unat a"
proof (cases "LENGTH('b) > LENGTH('a)")
  case True
  assume "\<not> alignment_too_wide TYPE('a word) a"
  with True have "unat a \<le> unat (ucast (- 1 :: 'a word) :: 'b word)"
    by (simp add: alignment_too_wide_def word_le_nat_alt not_less)
  also have "\<dots> = 2 ^ LENGTH('a) - 1"
    using True by (simp add: unat_ucast unat_max_word take_bit_nat_eq_self less_exp_diff)
  finally have "unat a < 2 ^ LENGTH('a)"
    using zero_less_power [of "2::nat" "LENGTH('a)"] by linarith
  then show ?thesis by (simp add: unat_ucast take_bit_nat_eq_self)
next
  case False
  then have "unat a < 2 ^ LENGTH('a)"
    by (meson le_less_trans less_le_trans not_less one_le_numeral power_increasing unat_lt2p)
  then show ?thesis by (simp add: unat_ucast take_bit_nat_eq_self)
qed

lemma alignment_wide:
  "alignment_too_wide TYPE('a::len word) (a :: 'b::len word) \<Longrightarrow> 2 ^ LENGTH('a) \<le> unat a"
proof -
  assume w: "alignment_too_wide TYPE('a word) a"
  then have l: "LENGTH('b) > LENGTH('a)" by (simp add: alignment_too_wide_def)
  with w have "unat (ucast (- 1 :: 'a word) :: 'b word) < unat a"
    by (simp add: alignment_too_wide_def word_less_nat_alt)
  moreover have "unat (ucast (- 1 :: 'a word) :: 'b word) = 2 ^ LENGTH('a) - 1"
    using l by (simp add: unat_ucast unat_max_word take_bit_nat_eq_self less_exp_diff)
  ultimately show ?thesis by linarith
qed


lemma power_of_two_pred_mask: "unat a = 2 ^ k \<Longrightarrow> a - 1 = mask k" for a :: "'a::len word"
proof -
  assume a: "unat a = 2 ^ k"
  then have "a = 2 ^ k" by (metis word_unat_eqI unat_power_two power_of_two_bound)
  then show ?thesis by (simp add: mask_eq_decr_exp)
qed

text \<open>The code's alignment, when it applies, on the numbers.\<close>

lemma Bit_TryAlignDown_eq:
  assumes "\<not> alignment_too_wide TYPE('a::len word) (a :: 'b::len word)"
    and "unat a = 2 ^ k"
  shows "\<exists>r. Bit_TryAlignDown (v :: 'a word) a = Some r \<and> unat r = unat v div unat a * unat a"
proof -
  have c: "unat (ucast a :: 'a word) = 2 ^ k"
    using alignment_narrow [OF assms(1)] assms(2) by simp
  then have "Bit_IsPowerOfTwo (ucast a :: 'a word)" by (auto simp: Bit_IsPowerOfTwo_iff)
  then show ?thesis
    using assms power_of_two_pred_mask [OF c]
    by (simp add: Bit_TryAlignDown_def Bit_IsValidAlignment_def Let_def unat_clear_low)
qed

lemma Bit_TryAlignUp_eq:
  assumes "\<not> alignment_too_wide TYPE('a::len word) (a :: 'b::len word)"
    and "unat a = 2 ^ k"
  shows "Bit_TryAlignUp (v :: 'a word) a =
     (if unat v + unat a - 1 < 2 ^ LENGTH('a)
      then Some (of_nat ((unat v + unat a - 1) div unat a * unat a)) else None)"
proof -
  have c: "unat (ucast a :: 'a word) = 2 ^ k"
    using alignment_narrow [OF assms(1)] assms(2) by simp
  then have k: "k < LENGTH('a)" by (rule power_of_two_bound)
  let ?m = "mask k :: 'a word"
  have m: "unat ?m = 2 ^ k - 1"
    using k by (simp add: unat_mask_word)
  have le: "2 ^ k \<le> (2::nat) ^ LENGTH('a)" using k by (simp add: power_increasing)
  have d: "unat (- 1 - ?m) = 2 ^ LENGTH('a) - 1 - (2 ^ k - 1)"
    by (simp add: unat_sub word_le_nat_alt unat_max_word m diff_le_mono le)
  have "v > - 1 - ?m \<longleftrightarrow> 2 ^ LENGTH('a) - 1 - (2 ^ k - 1) < unat v"
    by (simp only: word_less_nat_alt d)
  also have "\<dots> \<longleftrightarrow> \<not> (unat v + 2 ^ k - 1 < 2 ^ LENGTH('a))"
    using le zero_less_power [of "2::nat" k] by linarith
  finally have *: "v > - 1 - ?m \<longleftrightarrow> \<not> (unat v + unat a - 1 < 2 ^ LENGTH('a))"
    by (simp only: assms(2))
  show ?thesis
  proof (cases "unat v + unat a - 1 < 2 ^ LENGTH('a)")
    case True
    then have "unat (v + ?m) = unat v + unat a - 1"
      by (simp add: unat_add_lem [THEN iffD1] m assms(2))
    then have "unat ((v + ?m) AND NOT ?m) = (unat v + unat a - 1) div unat a * unat a"
      by (simp add: unat_clear_low assms(2))
    then have "(v + ?m) AND NOT ?m = of_nat ((unat v + unat a - 1) div unat a * unat a)"
      by (metis of_nat_unat_word)
    with True c * assms(1) power_of_two_pred_mask [OF c] show ?thesis
      by (auto simp: Bit_TryAlignUp_def Bit_IsValidAlignment_def Bit_IsPowerOfTwo_iff Let_def)
  next
    case False
    with c * assms(1) power_of_two_pred_mask [OF c] show ?thesis
      by (auto simp: Bit_TryAlignUp_def Let_def)
  qed
qed

lemma highest_bit:
  fixes v :: "'a::len word"
  assumes "v \<noteq> 0"
  obtains h where "h < LENGTH('a)" and "2 ^ h \<le> unat v" and "unat v < 2 ^ Suc h"
    and "bit v h" and "\<forall>n. h < n \<longrightarrow> \<not> bit v n"
proof -
  have "1 \<le> unat v" using assms by (simp add: Suc_leI unat_gt_0)
  then obtain h where h: "2 ^ h \<le> unat v" "unat v < 2 ^ Suc h"
    using ex_power_ivl1 [of 2 "unat v"] by auto
  then have "(2::nat) ^ h < 2 ^ LENGTH('a)" using unat_lt2p [of v] by linarith
  then have l: "h < LENGTH('a)" by simp
  have "unat v div 2 ^ h = 1"
    using h by (intro div_nat_eqI) (auto simp: mult.commute)
  then have "bit (unat v) h" by (simp add: bit_iff_odd)
  then have b: "bit v h" by (simp only: bit_unat)
  have "\<not> bit v n" if "h < n" for n
  proof -
    have "unat v < 2 ^ n"
      using h(2) that by (meson Suc_leI less_le_trans one_le_numeral power_increasing)
    then have "\<not> bit (unat v) n" by (simp add: bit_iff_odd)
    then show ?thesis by simp
  qed
  then show thesis using that l h b by blast
qed

text \<open>The loop of \<open>FloorPowerOfTwo\<close> smears every set bit downwards: after the step with shift
  \<open>s\<close>, a bit is set when the input has a set bit among the \<open>2 * s\<close> bits from it upwards.\<close>

lemma smear_step:
  fixes v raw :: "'a::len word"
  assumes "\<forall>i. bit raw i \<longleftrightarrow> (\<exists>d < s. bit v (i + d))"
  shows "\<forall>i. bit (raw OR drop_bit s raw) i \<longleftrightarrow> (\<exists>d < 2 * s. bit v (i + d))"
proof
  fix i
  have "bit (raw OR drop_bit s raw) i \<longleftrightarrow>
      (\<exists>d < s. bit v (i + d)) \<or> (\<exists>d < s. bit v (s + i + d))"
    using assms by (simp add: bit_or_iff bit_drop_bit_eq)
  also have "\<dots> \<longleftrightarrow> (\<exists>d < 2 * s. bit v (i + d))"
  proof (intro iffI; elim disjE exE conjE)
    fix d assume "d < s" "bit v (i + d)"
    then show "\<exists>d < 2 * s. bit v (i + d)" by (intro exI [of _ d]) simp
  next
    fix d assume "d < s" "bit v (s + i + d)"
    then show "\<exists>d < 2 * s. bit v (i + d)" by (intro exI [of _ "s + d"]) (simp add: ac_simps)
  next
    fix d assume d: "d < 2 * s" "bit v (i + d)"
    show "(\<exists>d < s. bit v (i + d)) \<or> (\<exists>d < s. bit v (s + i + d))"
    proof (cases "d < s")
      case True
      with d show ?thesis by blast
    next
      case False
      with d have "d - s < s" "bit v (s + i + (d - s))" by simp_all
      then show ?thesis by blast
    qed
  qed
  finally show "bit (raw OR drop_bit s raw) i \<longleftrightarrow> (\<exists>d < 2 * s. bit v (i + d))" .
qed

lemma smear_result:
  fixes v :: "'a::len word"
  assumes "h < LENGTH('a)" and "bit v h" and "\<And>n. h < n \<Longrightarrow> \<not> bit v n"
  shows "snd (while (\<lambda>(shift, raw). shift < LENGTH('a))
      (\<lambda>(shift, raw). (2 * shift, raw OR drop_bit shift raw)) (1, v)) = mask (Suc h)"
proof (rule while_rule [where
      P = "\<lambda>(s, raw). 0 < s \<and> (\<forall>i. bit raw i \<longleftrightarrow> (\<exists>d < s. bit v (i + d)))" and
      r = "measure (\<lambda>(s, raw). LENGTH('a) - s)"])
  show "case (1 :: nat, v) of (s, raw) \<Rightarrow> 0 < s \<and> (\<forall>i. bit raw i \<longleftrightarrow> (\<exists>d < s. bit v (i + d)))"
    by simp
next
  fix st :: "nat \<times> 'a word"
  assume inv: "case st of (s, raw) \<Rightarrow> 0 < s \<and> (\<forall>i. bit raw i \<longleftrightarrow> (\<exists>d < s. bit v (i + d)))"
  obtain s raw where st: "st = (s, raw)" by (cases st)
  with inv smear_step [of raw s v]
  show "case (case st of (shift, raw) \<Rightarrow> (2 * shift, raw OR drop_bit shift raw)) of
      (s, raw) \<Rightarrow> 0 < s \<and> (\<forall>i. bit raw i \<longleftrightarrow> (\<exists>d < s. bit v (i + d)))"
    by simp
next
  fix st :: "nat \<times> 'a word"
  assume inv: "case st of (s, raw) \<Rightarrow> 0 < s \<and> (\<forall>i. bit raw i \<longleftrightarrow> (\<exists>d < s. bit v (i + d)))"
    and stop: "\<not> (case st of (shift, raw) \<Rightarrow> shift < LENGTH('a))"
  obtain s raw where st: "st = (s, raw)" by (cases st)
  have s: "LENGTH('a) \<le> s" using stop st by simp
  have "bit raw i \<longleftrightarrow> bit (mask (Suc h) :: 'a word) i" if "i < LENGTH('a)" for i
  proof -
    have "bit raw i \<longleftrightarrow> (\<exists>d < s. bit v (i + d))" using inv st by simp
    also have "\<dots> \<longleftrightarrow> i \<le> h"
    proof
      assume "\<exists>d < s. bit v (i + d)"
      then show "i \<le> h" using assms(3) by (meson le_add1 le_trans not_less)
    next
      assume "i \<le> h"
      then have "h - i < s" "bit v (i + (h - i))" using assms(1,2) s by simp_all
      then show "\<exists>d < s. bit v (i + d)" by blast
    qed
    also have "\<dots> \<longleftrightarrow> bit (mask (Suc h) :: 'a word) i" using that by (simp add: bit_mask_iff less_Suc_eq_le)
    finally show ?thesis .
  qed
  then show "snd st = mask (Suc h)" by (simp add: st bit_word_eqI)
next
  fix st :: "nat \<times> 'a word"
  assume "case st of (s, raw) \<Rightarrow> 0 < s \<and> (\<forall>i. bit raw i \<longleftrightarrow> (\<exists>d < s. bit v (i + d)))"
    and "case st of (shift, raw) \<Rightarrow> shift < LENGTH('a)"
  then show "((case st of (shift, raw) \<Rightarrow> (2 * shift, raw OR drop_bit shift raw)), st)
      \<in> measure (\<lambda>(s, raw). LENGTH('a) - s)"
    by (cases st) auto
qed simp

lemma Bit_FloorPowerOfTwo_eq:
  fixes v :: "'a::len word"
  assumes "h < LENGTH('a)" and "bit v h" and "\<And>n. h < n \<Longrightarrow> \<not> bit v n"
  shows "Bit_FloorPowerOfTwo v = 2 ^ h"
proof -
  have "v \<noteq> 0" using assms(2) by auto
  moreover have "mask (Suc h) - drop_bit 1 (mask (Suc h)) = (2 ^ h :: 'a word)"
  proof -
    have "drop_bit 1 (mask (Suc h)) = (mask h :: 'a word)"
      using assms(1) by (intro bit_word_eqI) (auto simp: bit_drop_bit_eq bit_mask_iff)
    then show ?thesis by (simp add: mask_eq_decr_exp)
  qed
  ultimately show ?thesis
    using smear_result [OF assms] by (auto simp: Bit_FloorPowerOfTwo_def split: prod.split)
qed


lemma Bit_CeilPowerOfTwo_eq:
  fixes v :: "'a::len word"
  assumes "h < LENGTH('a)" and "bit v h" and "\<And>n. h < n \<Longrightarrow> \<not> bit v n" and "1 < v"
  shows "Bit_CeilPowerOfTwo v = 2 ^ Suc h"
proof -
  have f: "Bit_FloorPowerOfTwo v = 2 ^ h" by (rule Bit_FloorPowerOfTwo_eq [OF assms(1-3)])
  have nv: "\<not> v \<le> 1" using assms(4) by (simp add: not_le)
  obtain l where l: "LENGTH('a) = Suc l"
    using len_not_eq_0 [where 'a = 'a] not0_implies_Suc by blast
  then have d: "unat (drop_bit 1 (- 1 :: 'a word)) = 2 ^ l - 1"
    by (simp add: unat_mask_word)
  show ?thesis
  proof (cases "h = l")
    case True
    then have "(2 ^ h :: 'a word) > drop_bit 1 (- 1)"
      using assms(1) d by (simp add: word_less_nat_alt)
    moreover have "(2 ^ Suc h :: 'a word) = 0"
      by (simp only: exp_eq_zero_iff) (simp add: True l)
    ultimately show ?thesis
      by (simp add: Bit_CeilPowerOfTwo_def f Let_def nv)
  next
    case False
    then have "h < l" using assms(1) l by simp
    then have "(2::nat) ^ h \<le> 2 ^ l - 1"
      by (metis One_nat_def Suc_diff_1 less_Suc_eq_le power_strict_increasing_iff one_less_numeral_iff
          semiring_norm(76) zero_less_numeral zero_less_power)
    then have "\<not> (2 ^ h :: 'a word) > drop_bit 1 (- 1)"
      using assms(1) d by (simp add: word_less_nat_alt not_less)
    then show ?thesis
      by (simp add: Bit_CeilPowerOfTwo_def f Let_def nv push_bit_eq_mult)
  qed
qed

section \<open>Bit counts\<close>

lemma finite_bits_nat: "finite {n. bit (m::nat) n}"
proof (rule finite_subset)
  show "{n. bit m n} \<subseteq> {..<Suc m}"
  proof
    fix n assume "n \<in> {n. bit m n}"
    then have "2 ^ n \<le> m" by (auto simp: bit_iff_odd not_le intro: ccontr)
    then show "n \<in> {..<Suc m}" by (metis lessThan_iff less_Suc_eq_le less_exp order_less_imp_le order_trans)
  qed
qed simp

lemma card_bits_double: "card {n. bit (2 * m) n} = card {n. bit (m::nat) n}"
proof -
  have "{n. bit (2 * m) n} = Suc ` {n. bit m n}"
  proof (rule set_eqI)
    fix n show "n \<in> {n. bit (2 * m) n} \<longleftrightarrow> n \<in> Suc ` {n. bit m n}"
      by (cases n) (auto simp: bit_0 bit_Suc)
  qed
  then show ?thesis by (simp add: card_image)
qed

lemma card_bits_Suc_double: "card {n. bit (Suc (2 * m)) n} = Suc (card {n. bit (m::nat) n})"
proof -
  have "{n. bit (Suc (2 * m)) n} = insert 0 (Suc ` {n. bit m n})"
  proof (rule set_eqI)
    fix n show "n \<in> {n. bit (Suc (2 * m)) n} \<longleftrightarrow> n \<in> insert 0 (Suc ` {n. bit m n})"
      by (cases n) (auto simp: bit_0 bit_Suc)
  qed
  then show ?thesis by (simp add: card_image finite_bits_nat)
qed

lemma card_bits_clear_lowest:
  "0 < m \<Longrightarrow> card {n. bit m n} = Suc (card {n. bit (m AND (m - 1)) n})" for m :: nat
proof (induction m rule: less_induct)
  case (less m)
  show ?case
  proof (cases "even m")
    case True
    then obtain h where h: "m = 2 * h" by (rule evenE)
    with less show ?thesis
      using and_pred_even [of h] by (simp add: card_bits_double)
  next
    case False
    then obtain h where h: "m = Suc (2 * h)" by (auto elim: oddE)
    then show ?thesis
      using and_pred_odd [of h] by (simp add: card_bits_Suc_double card_bits_double)
  qed
qed

lemma and_pred_less: "0 < m \<Longrightarrow> m AND (m - 1) < m" for m :: nat
proof (induction m rule: less_induct)
  case (less m)
  show ?case
  proof (cases "even m")
    case True
    then obtain h where h: "m = 2 * h" by (rule evenE)
    with less show ?thesis using and_pred_even [of h] by simp
  next
    case False
    then obtain h where h: "m = Suc (2 * h)" by (auto elim: oddE)
    then show ?thesis using and_pred_odd [of h] by simp
  qed
qed

lemma Bit_CountOnes_card: "Bit_CountOnes v = card {n. bit v n}" for v :: "'a::len word"
  unfolding Bit_CountOnes_def
proof (rule while_rule [where
      P = "\<lambda>(raw, count). count + card {n. bit (unat (raw :: 'a word)) n} = card {n. bit v n}" and
      r = "measure (\<lambda>(raw, count). unat raw)"])
  fix st :: "'a word \<times> nat"
  assume inv: "case st of (raw, count) \<Rightarrow> count + card {n. bit (unat raw) n} = card {n. bit v n}"
    and go: "case st of (raw, count) \<Rightarrow> raw \<noteq> 0"
  obtain raw count where st: "st = (raw, count)" by (cases st)
  then have nz: "raw \<noteq> 0" "0 < unat raw" using go by (simp_all add: unat_gt_0)
  then show "case (case st of (raw, count) \<Rightarrow> (raw AND (raw - 1), count + 1)) of
      (raw, count) \<Rightarrow> count + card {n. bit (unat raw) n} = card {n. bit v n}"
    using inv st card_bits_clear_lowest [of "unat raw"] unat_and_pred [of raw] by (simp del: bit_unat)
  show "((case st of (raw, count) \<Rightarrow> (raw AND (raw - 1), count + 1)), st)
      \<in> measure (\<lambda>(raw, count). unat raw)"
    using nz st and_pred_less [of "unat raw"] unat_and_pred [of raw] by simp
qed (auto split: prod.splits)

lemma ctz_loop:
  fixes v :: "'a::len word"
  assumes "bit v k" and "\<And>n. n < k \<Longrightarrow> \<not> bit v n"
  shows "snd (while (\<lambda>(raw, count). raw AND 1 = 0)
      (\<lambda>(raw, count). (drop_bit 1 raw, count + 1)) (v, 0)) = k"
proof (rule while_rule [where
      P = "\<lambda>(raw, count). count \<le> k \<and> raw = drop_bit count v" and
      r = "measure (\<lambda>(raw, count). k - count)"])
  fix st :: "'a word \<times> nat"
  assume inv: "case st of (raw, count) \<Rightarrow> count \<le> k \<and> raw = drop_bit count v"
  obtain raw count where st: "st = (raw, count)" by (cases st)
  have low: "raw AND 1 = 0 \<longleftrightarrow> \<not> bit v count"
    using inv st by (simp add: and_one_eq mod2_eq_if bit_iff_odd_drop_bit)
  have less: "raw AND 1 = 0 \<Longrightarrow> count < k"
    using low inv st assms(1) by (cases "count = k") auto
  {
    assume "case st of (raw, count) \<Rightarrow> raw AND 1 = 0"
    then have "count < k" using less st by simp
    then show "case (case st of (raw, count) \<Rightarrow> (drop_bit 1 raw, count + 1)) of
        (raw, count) \<Rightarrow> count \<le> k \<and> raw = drop_bit count v"
      and "((case st of (raw, count) \<Rightarrow> (drop_bit 1 raw, count + 1)), st)
        \<in> measure (\<lambda>(raw, count). k - count)"
      using inv st by simp_all
  next
    assume "\<not> (case st of (raw, count) \<Rightarrow> raw AND 1 = 0)"
    then have "bit v count" using low st by simp
    then show "snd st = k" using inv st assms(2) by (simp add: le_neq_implies_less) (meson le_neq_implies_less)
  }
qed simp_all

lemma clz_loop:
  fixes v :: "'a::len word"
  assumes "bit v k" and "\<And>n. k < n \<Longrightarrow> \<not> bit v n" and "k < LENGTH('a)"
  shows "snd (while (\<lambda>(test_mask, count). v AND test_mask = 0)
      (\<lambda>(test_mask, count). (drop_bit 1 test_mask, count + 1))
      (push_bit (LENGTH('a) - 1) 1, 0)) = LENGTH('a) - 1 - k"
proof (rule while_rule [where
      P = "\<lambda>(m, count). count \<le> LENGTH('a) - 1 - k \<and> m = 2 ^ (LENGTH('a) - 1 - count)" and
      r = "measure (\<lambda>(m, count). LENGTH('a) - 1 - k - count)"])
  fix st :: "'a word \<times> nat"
  assume inv: "case st of (m, count) \<Rightarrow> count \<le> LENGTH('a) - 1 - k \<and> m = 2 ^ (LENGTH('a) - 1 - count)"
  obtain m count where st: "st = (m, count)" by (cases st)
  let ?p = "LENGTH('a) - 1 - count"
  have low: "v AND m = 0 \<longleftrightarrow> \<not> bit v ?p"
    using inv st by (simp add: and_exp_eq_0_iff_not_bit)
  have less: "count < LENGTH('a) - 1 - k" if "v AND m = 0"
  proof (rule ccontr)
    assume "\<not> count < LENGTH('a) - 1 - k"
    then have "?p = k" using inv st assms(3) by simp
    with that low assms(1) show False by simp
  qed
  {
    assume "case st of (m, count) \<Rightarrow> v AND m = 0"
    then have c: "count < LENGTH('a) - 1 - k" using less st by simp
    moreover from c have "drop_bit 1 (2 ^ ?p :: 'a word) = 2 ^ (LENGTH('a) - 1 - (count + 1))"
      by (intro bit_word_eqI) (auto simp: bit_drop_bit_eq bit_exp_iff)
    ultimately show "case (case st of (m, count) \<Rightarrow> (drop_bit 1 m, count + 1)) of
        (m, count) \<Rightarrow> count \<le> LENGTH('a) - 1 - k \<and> m = 2 ^ (LENGTH('a) - 1 - count)"
      using inv st by simp
    from c show "((case st of (m, count) \<Rightarrow> (drop_bit 1 m, count + 1)), st)
        \<in> measure (\<lambda>(m, count). LENGTH('a) - 1 - k - count)"
      using st by simp
  next
    assume "\<not> (case st of (m, count) \<Rightarrow> v AND m = 0)"
    then have "bit v ?p" using low st by simp
    then have "\<not> k < ?p" using assms(2) by blast
    then show "snd st = LENGTH('a) - 1 - k" using inv st assms(3) by simp linarith
  }
qed simp_all

section \<open>Properties\<close>

lemma round_up_least:
  fixes a v m :: nat
  assumes "0 < a" and "a dvd m" and "v \<le> m"
  shows "(v + a - 1) div a * a \<le> m"
proof -
  obtain q where q: "m = a * q" using assms(2) by (rule dvdE)
  have "v + a - 1 < (q + 1) * a" using assms q by (simp add: algebra_simps)
  then have "(v + a - 1) div a < q + 1" by (simp add: less_mult_imp_div_less)
  then show ?thesis by (simp add: q mult.commute)
qed

lemma round_up_ge: "0 < a \<Longrightarrow> v \<le> (v + a - 1) div a * a" for a v :: nat
proof -
  assume "0 < a"
  then have "v + a - 1 < a + (v + a - 1) div a * a"
    by (rule dividend_less_div_times)
  then show ?thesis by linarith
qed

lemma no_multiple_left:
  fixes a v m N :: nat
  assumes "a dvd N" and "a dvd m" and "v \<le> m" and "\<not> v + a - 1 < N" and "0 < a"
  shows "N \<le> m"
proof (rule ccontr)
  assume "\<not> N \<le> m"
  moreover from this assms(1,2) have "a dvd N - m" by (simp add: dvd_diff_nat)
  ultimately have "a \<le> N - m" by (simp add: dvd_imp_le)
  with assms(3-5) \<open>\<not> N \<le> m\<close> show False by linarith
qed

lemma Bit_TryAlignUp_not_power:
  fixes v :: "'a::len word" and a :: "'b::len word"
  assumes "\<nexists>k. unat a = 2 ^ k"
  shows "Bit_TryAlignUp v a = None"
proof (cases "alignment_too_wide TYPE('a word) a")
  case True
  then show ?thesis by (simp add: Bit_TryAlignUp_def)
next
  case False
  with assms show ?thesis
    by (simp add: Bit_TryAlignUp_def Bit_IsValidAlignment_def Bit_IsPowerOfTwo_iff
        alignment_narrow Let_def)
qed

text \<open>\<open>TryAlignUp\<close> succeeds with the least multiple of the alignment that is not below
  the value; it fails only when the alignment is no power of two, is not representable in the
  value's type, or every such multiple is out of the type's range (so the code never wraps).\<close>

theorem TryAlignUp_least:
  fixes v :: "'a::len word" and a :: "'b::len word"
  shows "case Bit_TryAlignUp v a of
      Some r \<Rightarrow> (\<exists>k. unat a = 2 ^ k) \<and> unat a dvd unat r \<and> unat v \<le> unat r \<and>
        (\<forall>m. unat a dvd m \<longrightarrow> unat v \<le> m \<longrightarrow> unat r \<le> m)
    | None \<Rightarrow> (\<nexists>k. unat a = 2 ^ k) \<or> 2 ^ LENGTH('a) \<le> unat a \<or>
        (\<forall>m. unat a dvd m \<longrightarrow> unat v \<le> m \<longrightarrow> 2 ^ LENGTH('a) \<le> m)"
proof (cases "alignment_too_wide TYPE('a word) a \<or> (\<nexists>k. unat a = 2 ^ k)")
  case True
  then show ?thesis
  proof
    assume w: "alignment_too_wide TYPE('a word) a"
    then show ?thesis using alignment_wide [OF w] by (simp add: Bit_TryAlignUp_def)
  next
    assume "\<nexists>k. unat a = 2 ^ k"
    then show ?thesis by (simp add: Bit_TryAlignUp_not_power)
  qed
next
  case False
  then obtain k where k: "unat a = 2 ^ k" and n: "\<not> alignment_too_wide TYPE('a word) a" by blast
  let ?r = "(unat v + unat a - 1) div unat a * unat a"
  have p: "0 < unat a" by (simp add: k)
  have "k < LENGTH('a)"
    using alignment_narrow [OF n] k power_of_two_bound [of "ucast a :: 'a word" k] by simp
  then have d: "unat a dvd 2 ^ LENGTH('a)" by (simp add: k le_imp_power_dvd)
  show ?thesis
  proof (cases "unat v + unat a - 1 < 2 ^ LENGTH('a)")
    case True
    then have "?r < 2 ^ LENGTH('a)"
      by (metis div_times_less_eq_dividend le_less_trans)
    then have "unat (of_nat ?r :: 'a word) = ?r" by (rule unat_of_nat_small)
    then show ?thesis
      using True p round_up_ge [OF p, of "unat v"] round_up_least [OF p] k
      by (simp add: Bit_TryAlignUp_eq [OF n k])
  next
    case False
    then show ?thesis
      using no_multiple_left [OF d _ _ False p] by (auto simp: Bit_TryAlignUp_eq [OF n k])
  qed
qed

theorem TryAlignUp_least_witness:
  "Bit_TryAlignUp (13 :: u64) (8 :: u32) = Some 16 \<and>
   unat (13 :: u64) \<le> unat (16 :: u64)"
proof -
  have "Bit_TryAlignUp (13 :: u64) (8 :: u32) = Some 16"
    by (simp add: Bit_TryAlignUp_def alignment_too_wide_def Bit_IsValidAlignment_def
        Bit_IsPowerOfTwo_def Let_def)
  then show ?thesis
    using TryAlignUp_least [of "13 :: u64" "8 :: u32"] by simp
qed

text \<open>\<open>CeilPowerOfTwo\<close> of a value above one is the least power of two \<^emph>\<open>strictly\<close> above
  it, and 0 when that power is out of range: a value that is a power of two already is doubled,
  and the top power of two gives 0.\<close>

theorem CeilPowerOfTwo_strict:
  fixes v :: "'a::len word"
  assumes "1 < v"
  shows "\<exists>k. 2 ^ k \<le> unat v \<and> unat v < 2 ^ Suc k \<and>
    unat (Bit_CeilPowerOfTwo v) = (if Suc k < LENGTH('a) then 2 ^ Suc k else 0)"
proof -
  have "v \<noteq> 0" using assms by auto
  then obtain h where h: "h < LENGTH('a)" "2 ^ h \<le> unat v" "unat v < 2 ^ Suc h" "bit v h"
    and top: "\<forall>n. h < n \<longrightarrow> \<not> bit v n"
    by (rule highest_bit)
  have "Bit_CeilPowerOfTwo v = 2 ^ Suc h"
    using Bit_CeilPowerOfTwo_eq [OF h(1,4) _ assms] top by blast
  moreover have "unat (2 ^ Suc h :: 'a word) = (if Suc h < LENGTH('a) then 2 ^ Suc h else 0)"
  proof (cases "Suc h < LENGTH('a)")
    case False
    then have "(2 ^ Suc h :: 'a word) = 0" by (simp only: exp_eq_zero_iff not_less)
    then show ?thesis by (simp only: False if_False unsigned_0)
  qed (simp del: power_Suc)
  ultimately show ?thesis using h(2,3) by auto
qed

theorem CeilPowerOfTwo_strict_witness:
  "\<exists>k. 2 ^ k \<le> unat (4 :: u8) \<and> unat (4 :: u8) < 2 ^ Suc k \<and>
    unat (Bit_CeilPowerOfTwo (4 :: u8)) = (if Suc k < LENGTH(8) then 2 ^ Suc k else 0)"
  by (rule CeilPowerOfTwo_strict) simp

text \<open>The counting loops end with the number of set bits, the index of the lowest set bit
  and the distance of the highest set bit from the top; on 0 the two zero counts are the width.\<close>

theorem bit_counts:
  fixes v :: "'a::len word"
  shows "Bit_CountOnes v = card {n. bit v n} \<and>
    (if v = 0 then Bit_CountTrailingZeros v = LENGTH('a) \<and> Bit_CountLeadingZeros v = LENGTH('a)
     else bit v (Bit_CountTrailingZeros v) \<and> {n. n < Bit_CountTrailingZeros v \<and> bit v n} = {} \<and>
       Bit_CountLeadingZeros v < LENGTH('a) \<and> bit v (LENGTH('a) - 1 - Bit_CountLeadingZeros v) \<and>
       {n. LENGTH('a) - 1 - Bit_CountLeadingZeros v < n \<and> bit v n} = {})"
proof (cases "v = 0")
  case True
  then show ?thesis
    by (simp add: Bit_CountOnes_card Bit_CountTrailingZeros_def Bit_CountLeadingZeros_def)
next
  case False
  then obtain h where "2 ^ h \<le> unat v" "unat v < 2 ^ Suc h" and h: "h < LENGTH('a)" "bit v h"
    and top: "\<forall>n. h < n \<longrightarrow> \<not> bit v n"
    by (rule highest_bit)
  define l where "l = (LEAST n. bit v n)"
  have l: "bit v l" "\<And>n. n < l \<Longrightarrow> \<not> bit v n"
    unfolding l_def by (rule LeastI [of "bit v", OF h(2)], rule not_less_Least)
  have "Bit_CountTrailingZeros v = l"
    using False ctz_loop [OF l] by (simp add: Bit_CountTrailingZeros_def)
  moreover have "Bit_CountLeadingZeros v = LENGTH('a) - 1 - h"
    using False clz_loop [OF h(2) _ h(1)] top by (simp add: Bit_CountLeadingZeros_def)
  moreover have "LENGTH('a) - 1 - (LENGTH('a) - 1 - h) = h" using h(1) by simp
  ultimately show ?thesis
    using False h l top by (auto simp: Bit_CountOnes_card)
qed

text \<open>A field written by \<open>Insert\<close> is read back by \<open>Extract\<close>, truncated to its width, and
  \<open>Insert\<close> changes no bit outside the field.\<close>

theorem insert_extract:
  fixes v :: "'a::len word"
  assumes "0 \<le> off" and "0 \<le> w" and "nat off + nat w \<le> LENGTH('a)"
  shows "Bit_Extract (Bit_Insert v field off w) off w = word_of_int (take_bit (nat w) field) \<and>
    (\<forall>n. n < nat off \<or> nat off + nat w \<le> n \<longrightarrow> bit (Bit_Insert v field off w) n = bit v n)"
proof (intro conjI allI impI)
  show "Bit_Extract (Bit_Insert v field off w) off w = word_of_int (take_bit (nat w) field)"
    using assms by (intro bit_word_eqI) (auto simp: bit_ops bit_word_of_int_iff bit_take_bit_iff)
next
  fix n assume "n < nat off \<or> nat off + nat w \<le> n"
  then show "bit (Bit_Insert v field off w) n = bit v n"
    by (auto simp: bit_ops)
qed

theorem insert_extract_witness:
  "Bit_Extract (Bit_Insert (0xFF :: u8) 5 2 3) 2 3 = 5 \<and> bit (Bit_Insert (0xFF :: u8) 5 2 3) 7"
proof -
  have "nat 2 + nat 3 \<le> LENGTH(8)" by simp
  from insert_extract [OF _ _ this, of "0xFF :: u8" 5]
  have "Bit_Extract (Bit_Insert (0xFF :: u8) 5 2 3) 2 3 = word_of_int (take_bit 3 5)"
    and "bit (Bit_Insert (0xFF :: u8) 5 2 3) 7 = bit (0xFF :: u8) 7" by auto
  then show ?thesis by simp
qed

text \<open>\<open>RotateLeft\<close> and \<open>RotateRight\<close> by the same count undo each other, for every count
  (a negative count rotates nothing, a larger one is reduced modulo the width).\<close>

theorem rotate_inverse:
  fixes v :: "'a::len word"
  shows "Bit_RotateRight (Bit_RotateLeft v c) c = v \<and> Bit_RotateLeft (Bit_RotateRight v c) c = v"
proof (cases "0 \<le> c")
  case False
  then show ?thesis by (simp add: Bit_RotateLeft_def Bit_RotateRight_def IsNegative_def)
next
  case True
  define k where "k = nat c mod LENGTH('a)"
  have k: "k < LENGTH('a)" by (simp add: k_def)
  have "((n + k) mod LENGTH('a) + (LENGTH('a) - k)) mod LENGTH('a) = n"
    and "((n + (LENGTH('a) - k)) mod LENGTH('a) + k) mod LENGTH('a) = n"
    if "n < LENGTH('a)" for n
    using that k by (simp_all only: mod_add_left_eq) simp_all
  then show ?thesis
    using True unfolding k_def
    by (intro conjI bit_word_eqI) (simp_all only: bit_Bit_RotateLeft bit_Bit_RotateRight mod_less_divisor len_gt_0)
qed

end
