(* ===== verification/Assembly.thy ===== *)
theory Assembly
  imports Instruction Bit
begin

unbundle bit_operations_syntax

text \<open>
  The assembler (\<^verbatim>\<open>Architecture/X64/Assembly\<close>): a program of sections, each a list of nodes, with labels
  (\<^verbatim>\<open>Program.cpp\<close>, \<^verbatim>\<open>Section.cpp\<close>, \<^verbatim>\<open>Node.cpp\<close>), and \<open>Assemble\<close> (\<^verbatim>\<open>Assembler.cpp\<close>), which lays the nodes out again
  and again until the sizes of the instructions no longer change, and then encodes them. The encoder and
  the decoder, which call Zydis, are parameters. A vector is the list of its elements, and \<open>grows t n\<close>
  says whether the allocator lets the vectors of kind \<open>t\<close> hold \<open>n\<close> elements; offsets are sizes, with their
  wrap-around written out.
\<close>

section \<open>The data of a program\<close>

datatype store =
    SectionStore | NameStore | LabelStore | NodeStore | DataStore | LayoutStore | CodeStore | AssembledStore
  | RelocationStore

type_synonym room_for = "store \<Rightarrow> nat \<Rightarrow> bool"

datatype encode_error =
    BadArgument | TooManyOperands | InvalidOperand | ImpossibleInstruction | BufferTooSmall | BackendFailure

datatype assembly_error =
    InvalidArgument | AllocationFailure | InvalidLabel | LabelAlreadyBound | UnboundLabel | InvalidSection
  | EncodingFailure | LayoutDidNotConverge | InternalError

definition InvalidLabelId :: nat where "InvalidLabelId = 0xFFFFFFFF"
definition InvalidSectionId :: nat where "InvalidSectionId = 0xFFFFFFFF"

datatype section_kind = TextSection | ReadOnlyData | DataSection | CustomSection

datatype node_type = InstructionNode | LabelNode | DataNode | AlignNode

record node =
  nd_type :: node_type
  nd_instruction :: instruction
  nd_label :: nat
  nd_data :: "u8 list"
  nd_alignment :: nat
  nd_fill :: u8
  nd_has_target :: bool
  nd_target :: nat
  nd_target_index :: nat

definition no_node :: node where
  "no_node = \<lparr>nd_type = InstructionNode, nd_instruction = instruction_of MnInvalid, nd_label = InvalidLabelId,
     nd_data = [], nd_alignment = 1, nd_fill = 0, nd_has_target = False, nd_target = InvalidLabelId,
     nd_target_index = 0\<rparr>"

definition node_Instruction :: "instruction \<Rightarrow> node" where
  "node_Instruction i = no_node\<lparr>nd_type := InstructionNode, nd_instruction := i\<rparr>"

definition node_Label :: "nat \<Rightarrow> node" where
  "node_Label l = no_node\<lparr>nd_type := LabelNode, nd_label := l\<rparr>"

text \<open>\<open>DataNode\<close> ignores that the copy was refused: its node is empty then.\<close>

definition node_Data :: "room_for \<Rightarrow> u8 list \<Rightarrow> node" where
  "node_Data grows bs =
     no_node\<lparr>nd_type := DataNode, nd_data := (if grows DataStore (length bs) then bs else [])\<rparr>"

definition node_Align :: "nat \<Rightarrow> u8 \<Rightarrow> node" where
  "node_Align a fill = no_node\<lparr>nd_type := AlignNode, nd_alignment := a, nd_fill := fill\<rparr>"

definition SetLabelTarget :: "node \<Rightarrow> nat \<Rightarrow> nat \<Rightarrow> node" where
  "SetLabelTarget nd target k = nd\<lparr>nd_has_target := True, nd_target := target, nd_target_index := k\<rparr>"

record code_section =
  cs_id :: nat
  cs_kind :: section_kind
  cs_name :: "int list"
  cs_alignment :: nat
  cs_nodes :: "node list"

definition section_new :: "nat \<Rightarrow> section_kind \<Rightarrow> nat \<Rightarrow> code_section" where
  "section_new i kind a =
     \<lparr>cs_id = i, cs_kind = kind, cs_name = [], cs_alignment = (if a \<noteq> 0 then a else 1), cs_nodes = []\<rparr>"

definition SetName :: "room_for \<Rightarrow> code_section \<Rightarrow> int list \<Rightarrow> code_section \<times> bool" where
  "SetName grows s v = (if grows NameStore (length v) then (s\<lparr>cs_name := v\<rparr>, True) else (s, False))"

definition section_Append :: "room_for \<Rightarrow> code_section \<Rightarrow> node \<Rightarrow> code_section \<times> bool" where
  "section_Append grows s nd =
     (if grows NodeStore (length (cs_nodes s) + 1) then (s\<lparr>cs_nodes := cs_nodes s @ [nd]\<rparr>, True) else (s, False))"

record label_state =
  lb_bound :: bool
  lb_section :: nat

record program =
  pg_sections :: "code_section list"
  pg_labels :: "label_state list"
  pg_current :: nat

section \<open>Building a program\<close>

definition program_new :: "room_for \<Rightarrow> program" where
  "program_new grows =
     (if grows SectionStore 1 then
        (case SetName grows (section_new 0 TextSection 16) [46, 116, 101, 120, 116] of
           (s, True) \<Rightarrow> \<lparr>pg_sections = [s], pg_labels = [], pg_current = 0\<rparr>
         | (s, False) \<Rightarrow> \<lparr>pg_sections = [], pg_labels = [], pg_current = InvalidSectionId\<rparr>)
      else \<lparr>pg_sections = [], pg_labels = [], pg_current = InvalidSectionId\<rparr>)"

definition SectionById :: "program \<Rightarrow> nat \<Rightarrow> code_section option" where
  "SectionById p i =
     (if i = InvalidSectionId \<or> i \<ge> length (pg_sections p) then None else Some (pg_sections p ! i))"

definition IsLabelValid :: "program \<Rightarrow> nat \<Rightarrow> bool" where
  "IsLabelValid p l \<longleftrightarrow> l \<noteq> InvalidLabelId \<and> l < length (pg_labels p)"

definition IsLabelBound :: "program \<Rightarrow> nat \<Rightarrow> bool" where
  "IsLabelBound p l \<longleftrightarrow> IsLabelValid p l \<and> lb_bound (pg_labels p ! l)"

definition CreateSection ::
  "room_for \<Rightarrow> program \<Rightarrow> section_kind \<Rightarrow> int list \<Rightarrow> u64 \<Rightarrow> program \<times> (assembly_error + nat)" where
  "CreateSection grows p kind v a =
     (if a = 0 \<or> \<not> Bit_IsPowerOfTwo a \<or> length (pg_sections p) \<ge> InvalidSectionId
      then (p, Inl InvalidArgument)
      else
        (let i = length (pg_sections p)
         in if \<not> grows SectionStore (i + 1) then (p, Inl AllocationFailure)
            else (case SetName grows (section_new i kind (unat a)) v of
                (s, True) \<Rightarrow> (p\<lparr>pg_sections := pg_sections p @ [s]\<rparr>, Inr i)
              | (s, False) \<Rightarrow> (p, Inl AllocationFailure))))"

definition SwitchSection :: "program \<Rightarrow> nat \<Rightarrow> program \<times> bool" where
  "SwitchSection p i = (if SectionById p i = None then (p, False) else (p\<lparr>pg_current := i\<rparr>, True))"

definition CreateLabel :: "room_for \<Rightarrow> program \<Rightarrow> program \<times> (assembly_error + nat)" where
  "CreateLabel grows p =
     (let l = length (pg_labels p)
      in if l \<ge> InvalidLabelId \<or> \<not> grows LabelStore (l + 1) then (p, Inl AllocationFailure)
         else (p\<lparr>pg_labels := pg_labels p @ [\<lparr>lb_bound = False, lb_section = InvalidSectionId\<rparr>]\<rparr>, Inr l))"

text \<open>A node at the end of the current section, which exists.\<close>

definition append_node :: "room_for \<Rightarrow> program \<Rightarrow> node \<Rightarrow> program \<times> (assembly_error + nat)" where
  "append_node grows p nd =
     (let k = pg_current p; s = pg_sections p ! k
      in case section_Append grows s nd of
           (s', True) \<Rightarrow> (p\<lparr>pg_sections := (pg_sections p)[k := s']\<rparr>, Inr (length (cs_nodes s)))
         | (s', False) \<Rightarrow> (p, Inl AllocationFailure))"

definition Bind :: "room_for \<Rightarrow> program \<Rightarrow> nat \<Rightarrow> program \<times> (assembly_error + unit)" where
  "Bind grows p l =
     (if \<not> IsLabelValid p l then (p, Inl InvalidLabel)
      else if lb_bound (pg_labels p ! l) then (p, Inl LabelAlreadyBound)
      else if SectionById p (pg_current p) = None then (p, Inl InvalidSection)
      else (case append_node grows p (node_Label l) of
          (p, Inl e) \<Rightarrow> (p, Inl e)
        | (p, Inr i) \<Rightarrow>
            (p\<lparr>pg_labels := (pg_labels p)[l := \<lparr>lb_bound = True, lb_section = pg_current p\<rparr>]\<rparr>, Inr ())))"

definition AppendInstruction :: "room_for \<Rightarrow> program \<Rightarrow> instruction \<Rightarrow> program \<times> (assembly_error + nat)" where
  "AppendInstruction grows p i =
     (if SectionById p (pg_current p) = None then (p, Inl InvalidSection)
      else append_node grows p (node_Instruction i))"

definition AppendInstructionTo ::
  "room_for \<Rightarrow> program \<Rightarrow> instruction \<Rightarrow> nat \<Rightarrow> nat \<Rightarrow> program \<times> (assembly_error + nat)" where
  "AppendInstructionTo grows p i target k =
     (if \<not> IsLabelValid p target then (p, Inl InvalidLabel)
      else if SectionById p (pg_current p) = None then (p, Inl InvalidSection)
      else if k \<ge> length (in_operands i) then (p, Inl InvalidArgument)
      else append_node grows p (SetLabelTarget (node_Instruction i) target k))"

text \<open>A span is a list of bytes, or the null pointer.\<close>

definition AppendData :: "room_for \<Rightarrow> program \<Rightarrow> u8 list option \<Rightarrow> program \<times> (assembly_error + nat)" where
  "AppendData grows p data =
     (case data of
        None \<Rightarrow> (p, Inl InvalidArgument)
      | Some bs \<Rightarrow>
          if SectionById p (pg_current p) = None then (p, Inl InvalidSection)
          else if length (nd_data (node_Data grows bs)) \<noteq> length bs then (p, Inl AllocationFailure)
          else append_node grows p (node_Data grows bs))"

definition program_Align :: "room_for \<Rightarrow> program \<Rightarrow> u64 \<Rightarrow> u8 \<Rightarrow> program \<times> (assembly_error + nat)" where
  "program_Align grows p a fill =
     (if a = 0 \<or> \<not> Bit_IsPowerOfTwo a then (p, Inl InvalidArgument)
      else if SectionById p (pg_current p) = None then (p, Inl InvalidSection)
      else append_node grows p (node_Align (unat a) fill))"

section \<open>Instructions by name\<close>

fun add_operands :: "instruction \<Rightarrow> operand list \<Rightarrow> instruction \<times> bool" where
  "add_operands i [] = (i, True)"
| "add_operands i (v # vs) = (case AddOperand i v of (i, ok) \<Rightarrow> if ok then add_operands i vs else (i, False))"

definition Emit :: "room_for \<Rightarrow> program \<Rightarrow> mnemonic \<Rightarrow> operand list \<Rightarrow> program \<times> (assembly_error + nat)" where
  "Emit grows p m vs =
     (case add_operands (instruction_of m) vs of
        (i, ok) \<Rightarrow> if ok then AppendInstruction grows p i else (p, Inl InvalidArgument))"

definition asm_Mov where "asm_Mov grows p d s = Emit grows p MnMov [d, s]"
definition asm_Lea where "asm_Lea grows p d s = Emit grows p MnLea [Reg d, Mem s]"
definition asm_Add where "asm_Add grows p d s = Emit grows p MnAdd [d, s]"
definition asm_Sub where "asm_Sub grows p d s = Emit grows p MnSub [d, s]"
definition asm_And where "asm_And grows p d s = Emit grows p MnAnd [d, s]"
definition asm_Or where "asm_Or grows p d s = Emit grows p MnOr [d, s]"
definition asm_Xor where "asm_Xor grows p d s = Emit grows p MnXor [d, s]"
definition asm_Cmp where "asm_Cmp grows p d s = Emit grows p MnCmp [d, s]"
definition asm_Test where "asm_Test grows p d s = Emit grows p MnTest [d, s]"
definition asm_Push where "asm_Push grows p v = Emit grows p MnPush [v]"
definition asm_Pop where "asm_Pop grows p v = Emit grows p MnPop [v]"
definition asm_Inc where "asm_Inc grows p v = Emit grows p MnInc [v]"
definition asm_Dec where "asm_Dec grows p v = Emit grows p MnDec [v]"
definition asm_Ret where "asm_Ret grows p = Emit grows p MnRet []"
definition asm_Nop where "asm_Nop grows p = Emit grows p MnNop []"

definition with_operand :: "mnemonic \<Rightarrow> branch_width \<Rightarrow> operand \<Rightarrow> instruction" where
  "with_operand m w v = (instruction_of m)\<lparr>in_options := no_options\<lparr>op_branch_size := w\<rparr>, in_operands := [v]\<rparr>"

text \<open>The operand of a branch to a label, which \<open>Assemble\<close> replaces.\<close>

definition label_operand :: operand where
  "label_operand = FromImmediate (no_immediate\<lparr>im_is_signed := True, im_relative := True\<rparr>) 0"

definition asm_Call where
  "asm_Call grows p t = AppendInstruction grows p (with_operand MnCall AutomaticWidth (Relative t))"
definition asm_CallTo where
  "asm_CallTo grows p l = AppendInstructionTo grows p (with_operand MnCall AutomaticWidth label_operand) l 0"
definition asm_Jmp where "asm_Jmp grows p t w = AppendInstruction grows p (with_operand MnJmp w (Relative t))"
definition asm_JmpTo where
  "asm_JmpTo grows p l w = AppendInstructionTo grows p (with_operand MnJmp w label_operand) l 0"
definition asm_Jcc where
  "asm_Jcc grows p c t w = AppendInstruction grows p (with_operand (ConditionMnemonic c) w (Relative t))"
definition asm_JccTo where
  "asm_JccTo grows p c l w = AppendInstructionTo grows p (with_operand (ConditionMnemonic c) w label_operand) l 0"

end
