(* ===== verification/Assembler.thy ===== *)
theory Assembler
  imports Assembly
begin

unbundle bit_operations_syntax

text \<open>
  \<open>Assembler::Assemble\<close> (\<^verbatim>\<open>Architecture/X64/Assembly/Assembler.cpp\<close>). The nodes of all sections are one
  list, as the flat vectors of the code have them; \<open>layout_sections\<close> is \<^verbatim>\<open>ComputeLayout\<close>, \<open>settle\<close> the passes
  that measure the instructions until no size changes, \<open>emit_nodes\<close> the last loop, which writes the bytes
  and the relocations.

  \<open>encode i out a\<close> is what \<^verbatim>\<open>ZydisBackend::Encode\<close> does with the instruction \<open>i\<close>, the output bytes \<open>out\<close>
  and the address \<open>a\<close>: the output afterwards, and the size or an error. \<open>decode\<close> gives the raw encoding of
  the instruction at the start of the bytes, if it can be decoded: its immediates (an array of two) are a list.
  A write outside the buffer has no result.
\<close>

section \<open>Results and parameters\<close>

datatype relocation_kind =
    Relative8 | Relative16 | Relative32 | Relative64 | RipRelative32 | Absolute8 | Absolute16 | Absolute32
  | Absolute64

datatype relocation_target = InternalLabel | AbsoluteAddress

record relocation =
  rl_offset :: nat
  rl_kind :: relocation_kind
  rl_target_kind :: relocation_target
  rl_target :: u64
  rl_addend :: u64

record assembled_section =
  as_id :: nat
  as_kind :: section_kind
  as_offset :: nat
  as_size :: nat
  as_alignment :: nat

record assembled =
  ac_bytes :: "u8 list"
  ac_sections :: "assembled_section list"
  ac_relocations :: "relocation list"
  ac_base :: u64

record raw_immediate =
  ri_relative :: bool
  ri_offset :: nat
  ri_size :: nat

record raw_encoding =
  rw_displacement_offset :: nat
  rw_displacement_size :: nat
  rw_immediates :: "raw_immediate list"

type_synonym encoder = "instruction \<Rightarrow> u8 list \<Rightarrow> u64 \<Rightarrow> u8 list \<times> (encode_error + nat)"
type_synonym decoder = "u8 list \<Rightarrow> u64 \<Rightarrow> raw_encoding option"

definition InvalidAddress :: u64 where "InvalidAddress = - 1"

fun RelativeRelocationKind :: "nat \<Rightarrow> relocation_kind" where
  "RelativeRelocationKind n =
     (if n = 8 then Relative8 else if n = 16 then Relative16 else if n = 64 then Relative64 else Relative32)"

fun AbsoluteRelocationKind :: "nat \<Rightarrow> relocation_kind" where
  "AbsoluteRelocationKind n =
     (if n = 8 then Absolute8 else if n = 16 then Absolute16 else if n = 32 then Absolute32 else Absolute64)"

section \<open>Labels\<close>

definition ResolveInstruction :: "node \<Rightarrow> u64 list \<Rightarrow> assembly_error + instruction" where
  "ResolveInstruction nd labels =
     (let i = nd_instruction nd; l = nd_target nd
      in if \<not> nd_has_target nd then Inr i
         else if l = InvalidLabelId \<or> l \<ge> length labels \<or> labels ! l = InvalidAddress then Inl UnboundLabel
         else
           (case OperandAt i (nd_target_index nd) of
              None \<Rightarrow> Inl InternalError
            | Some v \<Rightarrow>
                if od_type v \<noteq> ImmediateOperand then Inl InternalError
                else Inr (i\<lparr>in_operands := (in_operands i)[nd_target_index nd :=
                       FromImmediate (ImmediateRelative (labels ! l)) (od_size v)]\<rparr>)))"

definition all_nodes :: "code_section list \<Rightarrow> node list" where
  "all_nodes ss = concat (map cs_nodes ss)"

fun maximum_label :: "node list \<Rightarrow> nat \<Rightarrow> nat" where
  "maximum_label [] m = m"
| "maximum_label (nd # nds) m =
     (let m = (if nd_type nd = LabelNode \<and> nd_label nd \<noteq> InvalidLabelId then max m (nd_label nd + 1) else m);
          m = (if nd_has_target nd \<and> nd_target nd \<noteq> InvalidLabelId then max m (nd_target nd + 1) else m)
      in maximum_label nds m)"

definition FindMaximumLabelId :: "code_section list \<Rightarrow> nat" where
  "FindMaximumLabelId ss = maximum_label (all_nodes ss) 0"

section \<open>The layout\<close>

text \<open>\<^verbatim>\<open>Bit::AlignUp\<close> of a size: zero when the aligned size does not fit.\<close>

definition align_offset :: "nat \<Rightarrow> nat \<Rightarrow> nat" where
  "align_offset c a = unat (Bit_AlignUp (of_nat c :: u64) (of_nat a :: u64))"

definition laid_size :: "nat list \<Rightarrow> nat \<Rightarrow> nat \<Rightarrow> node \<Rightarrow> nat" where
  "laid_size sizes i c nd =
     (case nd_type nd of
        LabelNode \<Rightarrow> 0
      | AlignNode \<Rightarrow> usz (align_offset c (nd_alignment nd) + 2 ^ 64 - c)
      | _ \<Rightarrow> sizes ! i)"

definition place_label :: "u64 \<Rightarrow> nat \<Rightarrow> node \<Rightarrow> u64 list \<Rightarrow> u64 list" where
  "place_label base c nd labels =
     (if nd_type nd = LabelNode \<and> nd_label nd \<noteq> InvalidLabelId \<and> nd_label nd < length labels
      then labels[nd_label nd := base + of_nat c] else labels)"

text \<open>The offsets and sizes of the nodes from index \<open>i\<close> on, the end, and the addresses of the labels.\<close>

fun layout_nodes ::
  "u64 \<Rightarrow> nat list \<Rightarrow> nat \<Rightarrow> node list \<Rightarrow> nat \<Rightarrow> u64 list \<Rightarrow> (nat \<times> nat) list \<times> nat \<times> u64 list" where
  "layout_nodes base sizes i [] c labels = ([], c, labels)"
| "layout_nodes base sizes i (nd # nds) c labels =
     (let n = laid_size sizes i c nd
      in case layout_nodes base sizes (i + 1) nds (usz (c + n)) (place_label base c nd labels) of
           (ls, out) \<Rightarrow> ((c, n) # ls, out))"

fun layout_sections ::
  "u64 \<Rightarrow> nat list \<Rightarrow> nat \<Rightarrow> code_section list \<Rightarrow> nat \<Rightarrow> u64 list \<Rightarrow>
    (nat \<times> nat) list \<times> (nat \<times> nat) list \<times> nat \<times> u64 list" where
  "layout_sections base sizes i [] c labels = ([], [], c, labels)"
| "layout_sections base sizes i (s # ss) c labels =
     (let start = align_offset c (cs_alignment s)
      in case layout_nodes base sizes i (cs_nodes s) start labels of
           (ls, c, labels) \<Rightarrow>
             (case layout_sections base sizes (i + length (cs_nodes s)) ss c labels of
                (sls, nls, out) \<Rightarrow> ((start, usz (c + 2 ^ 64 - start)) # sls, ls @ nls, out)))"

definition ComputeLayout ::
  "u64 \<Rightarrow> nat list \<Rightarrow> code_section list \<Rightarrow> (nat \<times> nat) list \<times> (nat \<times> nat) list \<times> nat \<times> u64 list" where
  "ComputeLayout base sizes ss =
     layout_sections base sizes 0 ss 0 (replicate (FindMaximumLabelId ss) InvalidAddress)"

definition initial_size :: "node \<Rightarrow> nat" where
  "initial_size nd =
     (case nd_type nd of InstructionNode \<Rightarrow> MaximumLength | DataNode \<Rightarrow> length (nd_data nd) | _ \<Rightarrow> 0)"

section \<open>The passes\<close>

definition EncodeSize :: "encoder \<Rightarrow> instruction \<Rightarrow> u64 \<Rightarrow> encode_error + nat" where
  "EncodeSize encode i a = snd (encode i (replicate MaximumLength 0) a)"

fun measure_nodes ::
  "encoder \<Rightarrow> u64 \<Rightarrow> (nat \<times> nat) list \<Rightarrow> u64 list \<Rightarrow> nat \<Rightarrow> node list \<Rightarrow> nat list \<Rightarrow> bool \<Rightarrow>
    assembly_error + nat list \<times> bool" where
  "measure_nodes encode base ls labels i [] sizes changed = Inr (sizes, changed)"
| "measure_nodes encode base ls labels i (nd # nds) sizes changed =
     (if nd_type nd \<noteq> InstructionNode then measure_nodes encode base ls labels (i + 1) nds sizes changed
      else
        (case ResolveInstruction nd labels of
           Inl e \<Rightarrow> Inl e
         | Inr ins \<Rightarrow>
             (case EncodeSize encode ins (base + of_nat (fst (ls ! i))) of
                Inl e \<Rightarrow> Inl EncodingFailure
              | Inr n \<Rightarrow>
                  if sizes ! i \<noteq> n then measure_nodes encode base ls labels (i + 1) nds (sizes[i := n]) True
                  else measure_nodes encode base ls labels (i + 1) nds sizes changed)))"

definition MaximumPasses :: nat where "MaximumPasses = 32"

fun settle :: "encoder \<Rightarrow> u64 \<Rightarrow> code_section list \<Rightarrow> nat \<Rightarrow> nat list \<Rightarrow> assembly_error + nat list" where
  "settle encode base ss 0 sizes = Inl LayoutDidNotConverge"
| "settle encode base ss (Suc k) sizes =
     (case ComputeLayout base sizes ss of
        (sls, ls, c, labels) \<Rightarrow>
          (case measure_nodes encode base ls labels 0 (all_nodes ss) sizes False of
             Inl e \<Rightarrow> Inl e
           | Inr (sizes, changed) \<Rightarrow> if changed then settle encode base ss k sizes else Inr sizes))"

section \<open>The bytes and the relocations\<close>

type_synonym emitted = "u8 list \<times> relocation list"

definition add_relocation :: "room_for \<Rightarrow> relocation \<Rightarrow> relocation list \<Rightarrow> assembly_error + relocation list" where
  "add_relocation grows r rs =
     (if grows RelocationStore (length rs + 1) then Inr (rs @ [r]) else Inl AllocationFailure)"

definition label_relocation ::
  "room_for \<Rightarrow> raw_encoding \<Rightarrow> nat \<Rightarrow> u64 \<Rightarrow> relocation list \<Rightarrow> assembly_error + relocation list" where
  "label_relocation grows raw off target rs =
     (case find (\<lambda>m. ri_relative m \<and> ri_size m \<noteq> 0) (rw_immediates raw) of
        None \<Rightarrow> Inr rs
      | Some m \<Rightarrow> add_relocation grows
          \<lparr>rl_offset = usz (off + ri_offset m), rl_kind = RelativeRelocationKind (ri_size m),
           rl_target_kind = InternalLabel, rl_target = target, rl_addend = 0\<rparr> rs)"

definition immediate_relocation ::
  "room_for \<Rightarrow> raw_encoding \<Rightarrow> nat \<Rightarrow> nat \<Rightarrow> immediate \<Rightarrow> relocation list \<Rightarrow> assembly_error + relocation list" where
  "immediate_relocation grows raw off k v rs =
     (if im_has_absolute v \<and> k < length (rw_immediates raw) \<and> ri_size (rw_immediates raw ! k) \<noteq> 0 then
        (let m = rw_immediates raw ! k
         in add_relocation grows
              \<lparr>rl_offset = usz (off + ri_offset m),
               rl_kind = (if im_relative v then RelativeRelocationKind (ri_size m)
                 else AbsoluteRelocationKind (ri_size m)),
               rl_target_kind = AbsoluteAddress, rl_target = im_absolute v, rl_addend = 0\<rparr> rs)
      else Inr rs)"

definition memory_relocation ::
  "room_for \<Rightarrow> raw_encoding \<Rightarrow> nat \<Rightarrow> memory_operand \<Rightarrow> relocation list \<Rightarrow> assembly_error + relocation list" where
  "memory_relocation grows raw off m rs =
     (let r = \<lambda>kind. \<lparr>rl_offset = usz (off + rw_displacement_offset raw), rl_kind = kind,
                rl_target_kind = AbsoluteAddress, rl_target = mo_absolute m, rl_addend = 0\<rparr>
      in if mo_base m = Rip \<or> mo_base m = Eip then add_relocation grows (r RipRelative32) rs
         else if \<not> register_IsValid (mo_base m) \<and> \<not> register_IsValid (mo_index m)
         then add_relocation grows (r (AbsoluteRelocationKind (rw_displacement_size raw))) rs
         else Inr rs)"

fun operand_relocations ::
  "room_for \<Rightarrow> raw_encoding \<Rightarrow> nat \<Rightarrow> nat \<Rightarrow> operand list \<Rightarrow> relocation list \<Rightarrow> assembly_error + relocation list"
where
  "operand_relocations grows raw off k [] rs = Inr rs"
| "operand_relocations grows raw off k (v # vs) rs =
     (if od_type v = ImmediateOperand then
        (case immediate_relocation grows raw off k (od_immediate v) rs of
           Inl e \<Rightarrow> Inl e
         | Inr rs \<Rightarrow> operand_relocations grows raw off (k + 1) vs rs)
      else if od_type v = MemoryOperand \<and> mo_has_absolute (od_memory v) \<and> rw_displacement_size raw \<noteq> 0 then
        (case memory_relocation grows raw off (od_memory v) rs of
           Inl e \<Rightarrow> Inl e
         | Inr rs \<Rightarrow> operand_relocations grows raw off k vs rs)
      else operand_relocations grows raw off k vs rs)"

text \<open>\<^verbatim>\<open>Span::Subspan\<close>: the part of the buffer that an instruction may write.\<close>

definition subspan :: "u8 list \<Rightarrow> nat \<Rightarrow> nat \<Rightarrow> u8 list" where
  "subspan buf off n = (if off \<ge> length buf then [] else take n (drop off buf))"

definition emit_instruction ::
  "encoder \<Rightarrow> decoder \<Rightarrow> room_for \<Rightarrow> u64 \<Rightarrow> u64 list \<Rightarrow> node \<Rightarrow> nat \<Rightarrow> nat \<Rightarrow> emitted \<Rightarrow> assembly_error + emitted" where
  "emit_instruction encode decode grows base labels nd off n out =
     (case ResolveInstruction nd labels of
        Inl e \<Rightarrow> Inl e
      | Inr i \<Rightarrow>
          (case encode i (subspan (fst out) off n) (base + of_nat off) of
             (bs, Inl e) \<Rightarrow> Inl EncodingFailure
           | (bs, Inr k) \<Rightarrow>
               if k \<noteq> n then Inl EncodingFailure
               else
                 (case decode bs (base + of_nat off) of
                    None \<Rightarrow> Inr (overwrite off bs (fst out), snd out)
                  | Some raw \<Rightarrow>
                      map_sum id (Pair (overwrite off bs (fst out)))
                        (if nd_has_target nd then label_relocation grows raw off (labels ! nd_target nd) (snd out)
                         else operand_relocations grows raw off 0 (in_operands i) (snd out)))))"

text \<open>The bytes of a data and of an alignment node, stored one by one.\<close>

definition store_bytes :: "nat \<Rightarrow> u8 list \<Rightarrow> u8 list \<Rightarrow> u8 list option" where
  "store_bytes off bs buf =
     (if bs = [] then Some buf
      else if off + length bs \<le> length buf then Some (overwrite off bs buf) else None)"

definition fill_bytes :: "nat \<Rightarrow> nat \<Rightarrow> u8 \<Rightarrow> u8 list \<Rightarrow> u8 list option" where
  "fill_bytes off n b buf =
     (if n = 0 then Some buf
      else if off + n \<le> length buf then Some (overwrite off (replicate n b) buf) else None)"

definition emit_node ::
  "encoder \<Rightarrow> decoder \<Rightarrow> room_for \<Rightarrow> u64 \<Rightarrow> u64 list \<Rightarrow> node \<Rightarrow> nat \<Rightarrow> nat \<Rightarrow> emitted \<Rightarrow>
    (assembly_error + emitted) option" where
  "emit_node encode decode grows base labels nd off n out =
     (case nd_type nd of
        InstructionNode \<Rightarrow> Some (emit_instruction encode decode grows base labels nd off n out)
      | DataNode \<Rightarrow> map_option (\<lambda>buf. Inr (buf, snd out)) (store_bytes off (nd_data nd) (fst out))
      | AlignNode \<Rightarrow> map_option (\<lambda>buf. Inr (buf, snd out)) (fill_bytes off n (nd_fill nd) (fst out))
      | LabelNode \<Rightarrow> Some (Inr out))"

fun emit_nodes ::
  "encoder \<Rightarrow> decoder \<Rightarrow> room_for \<Rightarrow> u64 \<Rightarrow> u64 list \<Rightarrow> node list \<Rightarrow> (nat \<times> nat) list \<Rightarrow> emitted \<Rightarrow>
    (assembly_error + emitted) option" where
  "emit_nodes encode decode grows base labels (nd # nds) ((off, n) # ls) out =
     do { r \<leftarrow> emit_node encode decode grows base labels nd off n out;
          case r of
            Inl e \<Rightarrow> Some (Inl e)
          | Inr out \<Rightarrow> emit_nodes encode decode grows base labels nds ls out }"
| "emit_nodes encode decode grows base labels nds ls out = Some (Inr out)"

fun assembled_sections :: "code_section list \<Rightarrow> (nat \<times> nat) list \<Rightarrow> assembled_section list" where
  "assembled_sections (s # ss) ((off, n) # ls) =
     \<lparr>as_id = cs_id s, as_kind = cs_kind s, as_offset = off, as_size = n, as_alignment = cs_alignment s\<rparr>
       # assembled_sections ss ls"
| "assembled_sections ss ls = []"

section \<open>Assemble\<close>

text \<open>A vector of \<open>n\<close> elements, made at once; none is needed for \<open>n\<close> zero.\<close>

definition vector_of :: "room_for \<Rightarrow> store \<Rightarrow> nat \<Rightarrow> bool" where
  "vector_of grows t n \<longleftrightarrow> n = 0 \<or> grows t n"

definition Assemble ::
  "encoder \<Rightarrow> decoder \<Rightarrow> room_for \<Rightarrow> program \<Rightarrow> u64 \<Rightarrow> (assembly_error + assembled) option" where
  "Assemble encode decode grows p base =
     (let ss = pg_sections p; nds = all_nodes ss
      in if ss = [] then Some (Inl InvalidSection)
         else if \<not> (vector_of grows LayoutStore (length ss) \<and> vector_of grows LayoutStore (length nds) \<and>
              vector_of grows LabelStore (FindMaximumLabelId ss)) then Some (Inl AllocationFailure)
         else
           (case settle encode base ss MaximumPasses (map initial_size nds) of
              Inl e \<Rightarrow> Some (Inl e)
            | Inr sizes \<Rightarrow>
                (case ComputeLayout base sizes ss of
                   (sls, ls, stop, labels) \<Rightarrow>
                     if \<not> vector_of grows CodeStore stop \<or> \<not> vector_of grows AssembledStore (length ss)
                     then Some (Inl AllocationFailure)
                     else
                       map_option (map_sum id (\<lambda>(bs, rs).
                         \<lparr>ac_bytes = bs, ac_sections = assembled_sections ss sls, ac_relocations = rs,
                          ac_base = base\<rparr>))
                         (emit_nodes encode decode grows base labels nds ls (replicate stop 0, [])))))"

end
