(* ===== verification/Assembled.thy ===== *)
theory Assembled
  imports Assembler
begin

unbundle bit_operations_syntax

text \<open>
  What \<open>Assemble\<close> produces. \<open>code_image\<close> describes the code in one pass over the sections, from the addresses of
  the labels; the theorems say that a program that is assembled gives that image, with every label at the
  address of the bytes behind it, and that the sections are aligned and do not overlap.
\<close>

section \<open>The image of a program\<close>

definition padding :: "nat \<Rightarrow> nat \<Rightarrow> nat" where
  "padding c a = (a - c mod a) mod a"

type_synonym coder = "instruction \<Rightarrow> u64 \<Rightarrow> u8 list"

definition node_image :: "coder \<Rightarrow> u64 \<Rightarrow> u64 list \<Rightarrow> nat \<Rightarrow> node \<Rightarrow> u8 list" where
  "node_image code base labels c nd =
     (case nd_type nd of
        InstructionNode \<Rightarrow>
          (case ResolveInstruction nd labels of Inl e \<Rightarrow> [] | Inr i \<Rightarrow> code i (base + of_nat c))
      | LabelNode \<Rightarrow> []
      | DataNode \<Rightarrow> nd_data nd
      | AlignNode \<Rightarrow> replicate (padding c (nd_alignment nd)) (nd_fill nd))"

fun nodes_image :: "coder \<Rightarrow> u64 \<Rightarrow> u64 list \<Rightarrow> nat \<Rightarrow> node list \<Rightarrow> u8 list" where
  "nodes_image code base labels c [] = []"
| "nodes_image code base labels c (nd # nds) =
     (let b = node_image code base labels c nd in b @ nodes_image code base labels (c + length b) nds)"

fun code_image :: "coder \<Rightarrow> u64 \<Rightarrow> u64 list \<Rightarrow> nat \<Rightarrow> code_section list \<Rightarrow> u8 list" where
  "code_image code base labels c [] = []"
| "code_image code base labels c (s # ss) =
     (let start = c + padding c (cs_alignment s); b = nodes_image code base labels start (cs_nodes s)
      in replicate (padding c (cs_alignment s)) 0 @ b @ code_image code base labels (start + length b) ss)"

text \<open>The labels that are bound, with the offsets of the bytes behind them.\<close>

fun labels_in :: "coder \<Rightarrow> u64 \<Rightarrow> u64 list \<Rightarrow> nat \<Rightarrow> node list \<Rightarrow> (nat \<times> nat) list" where
  "labels_in code base labels c [] = []"
| "labels_in code base labels c (nd # nds) =
     (if nd_type nd = LabelNode then [(nd_label nd, c)] else []) @
     labels_in code base labels (c + length (node_image code base labels c nd)) nds"

fun label_offsets :: "coder \<Rightarrow> u64 \<Rightarrow> u64 list \<Rightarrow> nat \<Rightarrow> code_section list \<Rightarrow> (nat \<times> nat) list" where
  "label_offsets code base labels c [] = []"
| "label_offsets code base labels c (s # ss) =
     (let start = c + padding c (cs_alignment s)
      in labels_in code base labels start (cs_nodes s) @
         label_offsets code base labels (start + length (nodes_image code base labels start (cs_nodes s))) ss)"

text \<open>The offset and the size of each section.\<close>

fun section_spans :: "coder \<Rightarrow> u64 \<Rightarrow> u64 list \<Rightarrow> nat \<Rightarrow> code_section list \<Rightarrow> (nat \<times> nat) list" where
  "section_spans code base labels c [] = []"
| "section_spans code base labels c (s # ss) =
     (let start = c + padding c (cs_alignment s); n = length (nodes_image code base labels start (cs_nodes s))
      in (start, n) # section_spans code base labels (start + n) ss)"

text \<open>The encoder writes the code of the instruction at the start of its output, and leaves the rest.\<close>

definition writes_code :: "encoder \<Rightarrow> coder \<Rightarrow> bool" where
  "writes_code encode code \<longleftrightarrow>
     (\<forall>i buf a out n. encode i buf a = (out, Inr n) \<longrightarrow>
        n \<le> length buf \<and> n = length (code i a) \<and> out = code i a @ drop n buf)"

lemma writes_codeD:
  assumes "writes_code encode code" and "encode i buf a = (out, Inr n)"
  shows "n \<le> length buf" and "n = length (code i a)" and "out = code i a @ drop n buf"
  using assms by (auto simp: writes_code_def)

section \<open>Room\<close>

definition power_of_two :: "nat \<Rightarrow> bool" where
  "power_of_two a \<longleftrightarrow> (\<exists>k. a = 2 ^ k)"

definition node_room :: "node \<Rightarrow> nat" where
  "node_room nd =
     (case nd_type nd of
        InstructionNode \<Rightarrow> MaximumLength | LabelNode \<Rightarrow> 0 | DataNode \<Rightarrow> length (nd_data nd)
      | AlignNode \<Rightarrow> nd_alignment nd)"

definition nodes_room :: "node list \<Rightarrow> nat" where
  "nodes_room nds = sum_list (map node_room nds)"

definition sections_room :: "code_section list \<Rightarrow> nat" where
  "sections_room ss = sum_list (map (\<lambda>s. cs_alignment s + nodes_room (cs_nodes s)) ss)"

definition aligned_nodes :: "node list \<Rightarrow> bool" where
  "aligned_nodes nds \<longleftrightarrow> (\<forall>nd \<in> set nds. nd_type nd = AlignNode \<longrightarrow> power_of_two (nd_alignment nd))"

definition aligned_sections :: "code_section list \<Rightarrow> bool" where
  "aligned_sections ss \<longleftrightarrow> (\<forall>s \<in> set ss. power_of_two (cs_alignment s) \<and> aligned_nodes (cs_nodes s))"

lemma room_simps [simp]:
  "nodes_room [] = 0" "nodes_room (nd # nds) = node_room nd + nodes_room nds"
  "sections_room [] = 0" "sections_room (s # ss) = cs_alignment s + nodes_room (cs_nodes s) + sections_room ss"
  "aligned_nodes []" "aligned_sections []"
  "aligned_nodes (nd # nds) \<longleftrightarrow> (nd_type nd = AlignNode \<longrightarrow> power_of_two (nd_alignment nd)) \<and> aligned_nodes nds"
  "aligned_sections (s # ss) \<longleftrightarrow>
     power_of_two (cs_alignment s) \<and> aligned_nodes (cs_nodes s) \<and> aligned_sections ss"
  by (auto simp: nodes_room_def sections_room_def aligned_nodes_def aligned_sections_def)

lemma padding_less: "0 < a \<Longrightarrow> padding c a < a"
  by (simp add: padding_def)

lemma padding_aligns: "0 < a \<Longrightarrow> a dvd c + padding c a"
proof (cases "c mod a = 0")
  case False
  assume a: "0 < a"
  then have "padding c a = a - c mod a" using False by (simp add: padding_def)
  moreover have "c = a * (c div a) + c mod a" by simp
  ultimately have "c + padding c a = a * (c div a) + a" using a mod_less_divisor [OF a, of c] by linarith
  then show ?thesis by simp
qed (auto simp: padding_def)

lemma align_div: "0 < (a::nat) \<Longrightarrow> (c + a - 1) div a * a = c + padding c a"
proof -
  assume a: "0 < a"
  obtain q r where c: "c = q * a + r" and r: "r < a"
    using a by (metis div_mult_mod_eq mod_less_divisor)
  show ?thesis
  proof (cases "r = 0")
    case True
    have "c + a - 1 = (a - 1) + q * a" using c True a by simp
    then have "(c + a - 1) div a = q" using a by (simp only: div_mult_self1) simp
    with True c show ?thesis by (simp add: padding_def)
  next
    case False
    have "c + a - 1 = (r - 1) + (q + 1) * a" using c False by simp
    moreover have "r - 1 < a" using r by simp
    ultimately have "(c + a - 1) div a = q + 1" using a by (simp only: div_mult_self1) simp
    moreover have "padding c a = a - r" using c r False by (simp add: padding_def)
    ultimately show ?thesis using c r by simp
  qed
qed

lemma align_offset_eq:
  assumes "power_of_two a" and "c + a < 2 ^ 64"
  shows "align_offset c a = c + padding c a"
proof -
  obtain k where a: "a = 2 ^ k" using assms(1) by (auto simp: power_of_two_def)
  have a0: "0 < a" using a by simp
  have w: "unat (of_nat a :: u64) = 2 ^ k" "unat (of_nat c :: u64) = c"
    using assms(2) unat_of_nat_small [of a, where 'a = 64] unat_of_nat_small [of c, where 'a = 64] a by simp_all
  have n: "\<not> alignment_too_wide TYPE(64 word) (of_nat a :: u64)" by (simp add: alignment_too_wide_def)
  define r where "r = (c + a - 1) div a * a"
  have r: "r = c + padding c a" unfolding r_def by (rule align_div [OF a0])
  have "r \<le> c + a - 1" by (simp add: r_def)
  then have l: "r < 2 ^ 64" using assms(2) by linarith
  have "Bit_TryAlignUp (of_nat c :: u64) (of_nat a :: u64) = Some (of_nat r)"
    using assms(2) Bit_TryAlignUp_eq [OF n w(1), of "of_nat c"] w a by (simp add: r_def)
  then have "align_offset c a = r" using l by (simp add: align_offset_def Bit_AlignUp_def unat_of_nat_small)
  then show ?thesis by (simp only: r)
qed

section \<open>Layouts and images\<close>

text \<open>The sizes in use: an instruction has at most its maximal length, a data node its size.\<close>

definition sizes_fit :: "nat list \<Rightarrow> nat \<Rightarrow> node list \<Rightarrow> bool" where
  "sizes_fit sizes i nds \<longleftrightarrow>
     (\<forall>j < length nds. (nd_type (nds ! j) = InstructionNode \<longrightarrow> sizes ! (i + j) \<le> MaximumLength) \<and>
        (nd_type (nds ! j) = DataNode \<longrightarrow> sizes ! (i + j) = length (nd_data (nds ! j))))"

lemma sizes_fit_Cons:
  "sizes_fit sizes i (nd # nds) \<longleftrightarrow>
     (nd_type nd = InstructionNode \<longrightarrow> sizes ! i \<le> MaximumLength) \<and>
     (nd_type nd = DataNode \<longrightarrow> sizes ! i = length (nd_data nd)) \<and> sizes_fit sizes (i + 1) nds"
  by (auto simp: sizes_fit_def less_Suc_eq_0_disj)

lemma sizes_fit_append:
  "sizes_fit sizes i (xs @ ys) \<longleftrightarrow> sizes_fit sizes i xs \<and> sizes_fit sizes (i + length xs) ys"
  by (induction xs arbitrary: i) (auto simp: sizes_fit_Cons sizes_fit_def [of _ _ "[]"])

lemma laid_size_room:
  assumes "sizes_fit sizes i (nd # nds)" and "nd_type nd = AlignNode \<longrightarrow> power_of_two (nd_alignment nd)"
    and "c + node_room nd < 2 ^ 64"
  shows "laid_size sizes i c nd \<le> node_room nd"
    and "nd_type nd = AlignNode \<Longrightarrow> laid_size sizes i c nd = padding c (nd_alignment nd)"
proof -
  have p: "laid_size sizes i c nd = padding c (nd_alignment nd) \<and> laid_size sizes i c nd \<le> node_room nd"
    if t: "nd_type nd = AlignNode"
  proof -
    have a: "power_of_two (nd_alignment nd)" "c + nd_alignment nd < 2 ^ 64"
      using assms(2,3) t by (simp_all add: node_room_def)
    then have "0 < nd_alignment nd" by (auto simp: power_of_two_def)
    then have "padding c (nd_alignment nd) < nd_alignment nd" by (rule padding_less)
    moreover have "laid_size sizes i c nd = usz (c + padding c (nd_alignment nd) + 2 ^ 64 - c)"
      by (simp only: laid_size_def t node_type.case align_offset_eq [OF a])
    moreover have "usz (c + padding c (nd_alignment nd) + 2 ^ 64 - c) = padding c (nd_alignment nd)"
      using a(2) calculation(1) by (simp add: usz_def)
    ultimately show ?thesis using t by (simp add: node_room_def)
  qed
  then show "laid_size sizes i c nd \<le> node_room nd"
    using assms(1) by (cases "nd_type nd") (auto simp: sizes_fit_Cons laid_size_def node_room_def)
  show "nd_type nd = AlignNode \<Longrightarrow> laid_size sizes i c nd = padding c (nd_alignment nd)" using p by simp
qed

lemma layout_nodes_bounds:
  assumes "layout_nodes base sizes i nds c labels = (ls, c', labels')" and "sizes_fit sizes i nds"
    and "aligned_nodes nds" and "c + nodes_room nds < 2 ^ 64"
  shows "c \<le> c' \<and> c' \<le> c + nodes_room nds \<and> length ls = length nds"
  using assms
proof (induction nds arbitrary: i c labels ls)
  case (Cons nd nds)
  let ?n = "laid_size sizes i c nd"
  have r: "c + node_room nd < 2 ^ 64" using Cons.prems(4) by simp
  have n: "?n \<le> node_room nd" by (rule laid_size_room [OF Cons.prems(2) _ r]) (use Cons.prems(3) in simp)
  then have u: "usz (c + ?n) = c + ?n" using r by simp
  obtain ls' where ls: "layout_nodes base sizes (i + 1) nds (c + ?n) (place_label base c nd labels) = (ls', c', labels')"
    "ls = (c, ?n) # ls'"
    using Cons.prems(1) by (simp only: layout_nodes.simps Let_def u) (auto split: prod.splits)
  have "c + ?n \<le> c' \<and> c' \<le> c + ?n + nodes_room nds \<and> length ls' = length nds"
    using Cons.IH [OF ls(1)] Cons.prems(2-4) n by (simp add: sizes_fit_Cons)
  then show ?case using ls(2) n by simp
qed simp

text \<open>The labels as they are placed one after the other.\<close>

fun place_all :: "u64 \<Rightarrow> (nat \<times> nat) list \<Rightarrow> u64 list \<Rightarrow> u64 list" where
  "place_all base [] labels = labels"
| "place_all base ((l, c) # ps) labels = place_all base ps (place_label base c (node_Label l) labels)"

lemma place_all_append: "place_all base (ps @ qs) labels = place_all base qs (place_all base ps labels)"
  by (induction base ps labels rule: place_all.induct) simp_all

lemma place_label_Label: "nd_type nd = LabelNode \<Longrightarrow> place_label base c (node_Label (nd_label nd)) = place_label base c nd"
  by (rule ext) (simp add: place_label_def node_Label_def no_node_def)

lemma place_label_other: "nd_type nd \<noteq> LabelNode \<Longrightarrow> place_label base c nd labels = labels"
  by (simp add: place_label_def)

lemma overwrite_behind:
  "overwrite (length done) bs (done @ rest) = done @ bs @ drop (length bs) rest"
  by (simp add: overwrite_def)

lemma subspan_behind:
  "n \<le> m \<Longrightarrow> subspan (done @ replicate m 0) (length done) n = replicate n 0"
  by (auto simp: subspan_def min_def)

lemma map_sum_Inr: "map_sum id f x = Inr y \<longleftrightarrow> (\<exists>z. x = Inr z \<and> y = f z)"
  by (cases x) auto

text \<open>What is written for one node, when the buffer behind it is still zero.\<close>

lemma emit_node_image:
  assumes "writes_code encode code"
    and "emit_node encode decode grows base labels nd (length done) n (done @ replicate m 0, rs) = Some (Inr out)"
    and "n = laid_size sizes i (length done) nd" and "sizes_fit sizes i (nd # nds)"
    and "nd_type nd = AlignNode \<longrightarrow> power_of_two (nd_alignment nd)"
    and "length done + node_room nd < 2 ^ 64" and "n \<le> m"
  shows "fst out = done @ node_image code base labels (length done) nd @ replicate (m - n) 0 \<and>
    length (node_image code base labels (length done) nd) = n \<and>
    (nd_type nd = InstructionNode \<longrightarrow> is_ok (ResolveInstruction nd labels))"
proof (cases "nd_type nd")
  case InstructionNode
  with assms(2) have e: "emit_instruction encode decode grows base labels nd (length done) n
      (done @ replicate m 0, rs) = Inr out"
    by (simp add: emit_node_def)
  then obtain ins where ins: "ResolveInstruction nd labels = Inr ins"
    by (auto simp: emit_instruction_def split: sum.splits)
  obtain bs k where enc: "encode ins (replicate n 0) (base + of_nat (length done)) = (bs, k)"
    by (cases "encode ins (replicate n 0) (base + of_nat (length done))")
  have k: "k = Inr n" and out: "fst out = overwrite (length done) bs (done @ replicate m 0)"
    using e by (auto simp: emit_instruction_def ins enc subspan_behind [OF assms(7)] map_sum_Inr
        split: sum.splits if_splits option.splits)
  note wr = writes_codeD [OF assms(1) enc [unfolded k]]
  have "bs = code ins (base + of_nat (length done))" using wr by simp
  moreover have "length bs = n" using wr by simp
  ultimately show ?thesis
    using InstructionNode ins out by (simp add: node_image_def overwrite_behind)
next
  case LabelNode
  with assms(2,3) show ?thesis by (auto simp: emit_node_def node_image_def laid_size_def)
next
  case DataNode
  with assms(3,4) have n: "n = length (nd_data nd)" by (simp add: laid_size_def sizes_fit_Cons)
  from DataNode assms(2) n show ?thesis
    by (auto simp: emit_node_def node_image_def store_bytes_def overwrite_behind split: if_splits)
next
  case AlignNode
  with laid_size_room(2) [OF assms(4-6)] assms(3) have n: "n = padding (length done) (nd_alignment nd)" by simp
  from AlignNode assms(2) n show ?thesis
    by (auto simp: emit_node_def node_image_def fill_bytes_def overwrite_behind split: if_splits)
qed

lemma emit_nodes_image:
  assumes "writes_code encode code"
    and "emit_nodes encode decode grows base labels nds ls (done @ replicate m 0, rs) = Some (Inr out)"
    and "layout_nodes base sizes i nds (length done) labs = (ls, c, labs')"
    and "sizes_fit sizes i nds" and "aligned_nodes nds" and "length done + nodes_room nds < 2 ^ 64"
    and "c \<le> length done + m"
  shows "fst out = done @ nodes_image code base labels (length done) nds @ replicate (length done + m - c) 0 \<and>
    c = length done + length (nodes_image code base labels (length done) nds) \<and>
    labs' = place_all base (labels_in code base labels (length done) nds) labs \<and>
    (\<forall>nd \<in> set nds. nd_type nd = InstructionNode \<longrightarrow> is_ok (ResolveInstruction nd labels))"
  using assms(2-)
proof (induction nds arbitrary: i ls "done" m rs labs)
  case Nil
  then show ?case by auto
next
  case (Cons nd nds)
  let ?n = "laid_size sizes i (length done) nd" and ?b = "node_image code base labels (length done) nd"
  have al: "nd_type nd = AlignNode \<longrightarrow> power_of_two (nd_alignment nd)" and al': "aligned_nodes nds"
    using Cons.prems(4) by simp_all
  have r: "length done + node_room nd < 2 ^ 64" using Cons.prems(5) by simp
  have n: "?n \<le> node_room nd" by (rule laid_size_room [OF Cons.prems(3) al r])
  then have u: "usz (length done + ?n) = length done + ?n" using r by simp
  obtain ls' where ls: "layout_nodes base sizes (i + 1) nds (length done + ?n)
        (place_label base (length done) nd labs) = (ls', c, labs')" "ls = (length done, ?n) # ls'"
    using Cons.prems(2) by (simp only: layout_nodes.simps Let_def u) (auto split: prod.splits)
  have fit: "sizes_fit sizes (i + 1) nds" using Cons.prems(3) by (simp add: sizes_fit_Cons)
  have r': "length done + ?n + nodes_room nds < 2 ^ 64" using Cons.prems(5) n by simp
  have c: "length done + ?n \<le> c" using layout_nodes_bounds [OF ls(1) fit al' r'] by simp
  then have nm: "?n \<le> m" using Cons.prems(6) by simp
  obtain out1 where e1: "emit_node encode decode grows base labels nd (length done) ?n (done @ replicate m 0, rs) =
        Some (Inr out1)"
    and e2: "emit_nodes encode decode grows base labels nds ls' out1 = Some (Inr out)"
    using Cons.prems(1) ls(2) by (auto split: Option.bind_splits sum.splits)
  have o1: "fst out1 = done @ ?b @ replicate (m - ?n) 0" "length ?b = ?n"
    "nd_type nd = InstructionNode \<longrightarrow> is_ok (ResolveInstruction nd labels)"
    using emit_node_image [OF assms(1) e1 refl Cons.prems(3) al r nm] by simp_all
  have d: "length (done @ ?b) = length done + ?n" using o1(2) by simp
  have e2': "emit_nodes encode decode grows base labels nds ls' ((done @ ?b) @ replicate (m - ?n) 0, snd out1) =
      Some (Inr out)"
    using e2 o1(1) by (metis append.assoc prod.collapse)
  have "c \<le> length (done @ ?b) + (m - ?n)" using Cons.prems(6) d nm by simp
  note IH = Cons.IH [OF e2' _ fit al' _ this]
  have p: "place_all base (if nd_type nd = LabelNode then [(nd_label nd, length done)] else []) labs =
      place_label base (length done) nd labs"
    by (simp add: place_label_Label place_label_other)
  show ?case
    using IH [of "place_label base (length done) nd labs"] ls(1) r' o1 d nm
    by (simp add: Let_def place_all_append p)
qed

lemma emit_nodes_append:
  assumes "length ls = length nds"
  shows "emit_nodes encode decode grows base labels (nds @ nds') (ls @ ls') out =
    do { r \<leftarrow> emit_nodes encode decode grows base labels nds ls out;
         case r of
           Inl e \<Rightarrow> Some (Inl e)
         | Inr out \<Rightarrow> emit_nodes encode decode grows base labels nds' ls' out }"
  using assms
proof (induction nds arbitrary: ls out)
  case (Cons nd nds)
  then obtain off n ls1 where "ls = (off, n) # ls1" by (cases ls) auto
  with Cons show ?case by (auto split: Option.bind_split sum.split)
qed simp

lemma layout_sections_bounds:
  assumes "layout_sections base sizes i ss c labels = (sls, nls, c', labels')" and "sizes_fit sizes i (all_nodes ss)"
    and "aligned_sections ss" and "c + sections_room ss < 2 ^ 64"
  shows "c \<le> c' \<and> c' \<le> c + sections_room ss \<and> length nls = length (all_nodes ss)"
  using assms
proof (induction ss arbitrary: i c labels sls nls)
  case Nil
  then show ?case by (simp add: all_nodes_def)
next
  case (Cons s ss)
  let ?start = "c + padding c (cs_alignment s)"
  have p: "power_of_two (cs_alignment s)" "c + cs_alignment s < 2 ^ 64" using Cons.prems(3,4) by simp_all
  then have less: "padding c (cs_alignment s) < cs_alignment s"
    by (intro padding_less) (auto simp: power_of_two_def)
  obtain ls c1 l1 where l: "layout_nodes base sizes i (cs_nodes s) ?start labels = (ls, c1, l1)"
    by (cases "layout_nodes base sizes i (cs_nodes s) ?start labels") auto
  obtain sls' nls' where s: "layout_sections base sizes (i + length (cs_nodes s)) ss c1 l1 = (sls', nls', c', labels')"
    "nls = ls @ nls'"
    using Cons.prems(1) l by (auto simp: Let_def align_offset_eq [OF p] split: prod.splits)
  have fit: "sizes_fit sizes i (cs_nodes s)" "sizes_fit sizes (i + length (cs_nodes s)) (all_nodes ss)"
    using Cons.prems(2) by (simp_all add: all_nodes_def sizes_fit_append)
  have "?start \<le> c1 \<and> c1 \<le> ?start + nodes_room (cs_nodes s) \<and> length ls = length (cs_nodes s)"
    using layout_nodes_bounds [OF l fit(1)] Cons.prems(3,4) less by simp
  moreover have "c1 \<le> c' \<and> c' \<le> c1 + sections_room ss \<and> length nls' = length (all_nodes ss)"
    using Cons.IH [OF s(1) fit(2)] Cons.prems(3,4) less calculation by simp
  ultimately show ?case using s(2) less by (simp add: all_nodes_def)
qed

text \<open>The last loop over all sections writes the image, and the layout is that of the image.\<close>

lemma emit_sections_image:
  assumes "writes_code encode code"
    and "emit_nodes encode decode grows base labels (all_nodes ss) nls (done @ replicate m 0, rs) = Some (Inr out)"
    and "layout_sections base sizes i ss (length done) labs = (sls, nls, c, labs')"
    and "sizes_fit sizes i (all_nodes ss)" and "aligned_sections ss"
    and "length done + sections_room ss < 2 ^ 64" and "c \<le> length done + m"
  shows "fst out = done @ code_image code base labels (length done) ss @ replicate (length done + m - c) 0 \<and>
    c = length done + length (code_image code base labels (length done) ss) \<and>
    labs' = place_all base (label_offsets code base labels (length done) ss) labs \<and>
    sls = section_spans code base labels (length done) ss \<and>
    (\<forall>nd \<in> set (all_nodes ss). nd_type nd = InstructionNode \<longrightarrow> is_ok (ResolveInstruction nd labels))"
  using assms(2-)
proof (induction ss arbitrary: i nls sls "done" m rs labs)
  case Nil
  then show ?case by (auto simp: all_nodes_def)
next
  case (Cons s ss)
  let ?a = "padding (length done) (cs_alignment s)"
  let ?done = "done @ replicate ?a (0 :: u8)"
  let ?b = "nodes_image code base labels (length ?done) (cs_nodes s)"
  have p: "power_of_two (cs_alignment s)" "length done + cs_alignment s < 2 ^ 64" using Cons.prems(4,5) by simp_all
  then have less: "?a < cs_alignment s"
    by (intro padding_less) (auto simp: power_of_two_def)
  obtain ls c1 l1 where l: "layout_nodes base sizes i (cs_nodes s) (length ?done) labs = (ls, c1, l1)"
    by (cases "layout_nodes base sizes i (cs_nodes s) (length ?done) labs") auto
  obtain sls' nls' where s: "layout_sections base sizes (i + length (cs_nodes s)) ss c1 l1 = (sls', nls', c, labs')"
    "nls = ls @ nls'" "sls = (length ?done, usz (c1 + 2 ^ 64 - length ?done)) # sls'"
    using Cons.prems(2) l by (auto simp: Let_def align_offset_eq [OF p] split: prod.splits)
  have fit: "sizes_fit sizes i (cs_nodes s)" "sizes_fit sizes (i + length (cs_nodes s)) (all_nodes ss)"
    using Cons.prems(3) by (simp_all add: all_nodes_def sizes_fit_append)
  have al: "aligned_nodes (cs_nodes s)" "aligned_sections ss" using Cons.prems(4) by simp_all
  have r: "length ?done + nodes_room (cs_nodes s) < 2 ^ 64" using Cons.prems(5) less by simp
  have b: "length ?done \<le> c1 \<and> c1 \<le> length ?done + nodes_room (cs_nodes s) \<and> length ls = length (cs_nodes s)"
    by (rule layout_nodes_bounds [OF l fit(1) al(1) r])
  have r2: "c1 + sections_room ss < 2 ^ 64" using Cons.prems(5) b less by simp
  have c: "c1 \<le> c" using layout_sections_bounds [OF s(1) fit(2) al(2) r2] by simp
  have m: "?a \<le> m" "c1 \<le> length ?done + (m - ?a)" using c b Cons.prems(6) by simp_all
  have buf: "done @ replicate m 0 = ?done @ replicate (m - ?a) 0"
    using m(1) by (simp add: replicate_add [symmetric])
  have "emit_nodes encode decode grows base labels (cs_nodes s @ all_nodes ss) (ls @ nls')
      (?done @ replicate (m - ?a) 0, rs) = Some (Inr out)"
    using Cons.prems(1) s(2) buf by (simp add: all_nodes_def)
  then obtain out1 where
    e1: "emit_nodes encode decode grows base labels (cs_nodes s) ls (?done @ replicate (m - ?a) 0, rs) = Some (Inr out1)"
    and e2: "emit_nodes encode decode grows base labels (all_nodes ss) nls' out1 = Some (Inr out)"
    using b by (auto simp: emit_nodes_append split: Option.bind_splits sum.splits)
  have o1: "fst out1 = ?done @ ?b @ replicate (length ?done + (m - ?a) - c1) 0"
    "c1 = length ?done + length ?b" "l1 = place_all base (labels_in code base labels (length ?done) (cs_nodes s)) labs"
    "\<forall>nd \<in> set (cs_nodes s). nd_type nd = InstructionNode \<longrightarrow> is_ok (ResolveInstruction nd labels)"
    using emit_nodes_image [OF assms(1) e1 l fit(1) al(1) r m(2)] by simp_all
  let ?m2 = "length ?done + (m - ?a) - c1"
  have d: "length (?done @ ?b) = c1" using o1(2) by simp
  have e2': "emit_nodes encode decode grows base labels (all_nodes ss) nls' ((?done @ ?b) @ replicate ?m2 0, snd out1) =
      Some (Inr out)"
    using e2 o1(1) by (metis append.assoc prod.collapse)
  have "c \<le> length (?done @ ?b) + ?m2" using Cons.prems(6) d m by simp
  note IH = Cons.IH [OF e2' s(1) [folded d] fit(2) al(2) r2 [folded d] this]
  have "usz (c1 + 2 ^ 64 - length ?done) = length ?b"
    using o1(2) b r by (simp add: usz_def)
  then show ?case
    using IH o1 d m s(3) by (auto simp: Let_def place_all_append all_nodes_def add.assoc)
qed

section \<open>The passes\<close>

lemma measure_nodes_fit:
  assumes "measure_nodes encode base ls labels i nds sizes changed = Inr (sizes', changed')"
    and "writes_code encode code" and "i + length nds \<le> length sizes"
    and "sizes_fit sizes 0 (pre @ nds)" and "length pre = i"
  shows "sizes_fit sizes' 0 (pre @ nds) \<and> length sizes' = length sizes"
  using assms
proof (induction nds arbitrary: i sizes changed pre)
  case (Cons nd nds)
  have step: "sizes_fit sizes' 0 (pre @ nd # nds) \<and> length sizes' = length sizes"
    if "measure_nodes encode base ls labels (i + 1) nds ss ch = Inr (sizes', changed')"
      and "length ss = length sizes" and "sizes_fit ss 0 (pre @ nd # nds)" for ss ch
    using Cons.IH [OF that(1) Cons.prems(2), of "pre @ [nd]"] that(2,3) Cons.prems(3,5) by simp
  show ?case
  proof (cases "nd_type nd = InstructionNode")
    case False
    with Cons.prems(1) have "measure_nodes encode base ls labels (i + 1) nds sizes changed = Inr (sizes', changed')"
      by simp
    from step [OF this refl Cons.prems(4)] show ?thesis .
  next
    case True
    with Cons.prems(1) obtain ins n where e: "EncodeSize encode ins (base + of_nat (fst (ls ! i))) = Inr n"
      and rest: "measure_nodes encode base ls labels (i + 1) nds (if sizes ! i \<noteq> n then sizes[i := n] else sizes)
        (if sizes ! i \<noteq> n then True else changed) = Inr (sizes', changed')"
      by (auto split: sum.splits if_splits)
    have n: "n \<le> MaximumLength"
      using e writes_codeD(1) [OF Cons.prems(2), of ins "replicate MaximumLength 0"
          "base + of_nat (fst (ls ! i))"]
      by (cases "encode ins (replicate MaximumLength 0) (base + of_nat (fst (ls ! i)))")
        (auto simp: EncodeSize_def)
    show ?thesis
      by (rule step [OF rest]) (use Cons.prems(3-5) True n in \<open>auto simp: sizes_fit_def nth_list_update nth_append\<close>)
  qed
qed simp

lemma settle_fit:
  assumes "settle encode base ss k sizes = Inr sizes'" and "writes_code encode code"
    and "length sizes = length (all_nodes ss)" and "sizes_fit sizes 0 (all_nodes ss)"
  shows "sizes_fit sizes' 0 (all_nodes ss) \<and> length sizes' = length sizes"
  using assms
proof (induction k arbitrary: sizes)
  case (Suc k)
  obtain sls ls c labels where l: "ComputeLayout base sizes ss = (sls, ls, c, labels)"
    by (cases "ComputeLayout base sizes ss") auto
  from Suc.prems(1) l obtain sizes1 changed where
    m: "measure_nodes encode base ls labels 0 (all_nodes ss) sizes False = Inr (sizes1, changed)"
    and rest: "(if changed then settle encode base ss k sizes1 else Inr sizes1) = Inr sizes'"
    by (auto split: sum.splits prod.splits)
  have "sizes_fit sizes1 0 (all_nodes ss) \<and> length sizes1 = length sizes"
    using measure_nodes_fit [OF m Suc.prems(2), of "[]"] Suc.prems(3,4) by simp
  then show ?case
    using rest Suc.IH [of sizes1] Suc.prems by (auto split: if_splits)
qed simp

lemma initial_fit: "sizes_fit (map initial_size nds) 0 nds"
  by (auto simp: sizes_fit_def initial_size_def)

section \<open>The labels\<close>

lemma place_all_length [simp]: "length (place_all base ps labels) = length labels"
  by (induction base ps labels rule: place_all.induct) (simp_all add: place_label_def)

lemma place_all_nth:
  assumes "distinct (map fst ps)" and "\<forall>(l, c) \<in> set ps. l \<noteq> InvalidLabelId \<and> l < length labels"
  shows "(l, c) \<in> set ps \<Longrightarrow> place_all base ps labels ! l = base + of_nat c"
    and "l \<notin> fst ` set ps \<Longrightarrow> place_all base ps labels ! l = labels ! l"
  using assms
proof (induction base ps labels rule: place_all.induct)
  case (2 base l0 c0 ps labels)
  { case 1
    then show ?case using 2 by (auto simp: place_label_def node_Label_def no_node_def) }
  { case 2
    then show ?case using "2.IH"(2) by (auto simp: place_label_def node_Label_def no_node_def) }
qed simp_all

lemma maximum_label_le: "m \<le> maximum_label nds m"
proof (induction nds arbitrary: m)
  case (Cons nd nds)
  define m1 where "m1 = (if nd_type nd = LabelNode \<and> nd_label nd \<noteq> InvalidLabelId then max m (nd_label nd + 1) else m)"
  define m2 where "m2 = (if nd_has_target nd \<and> nd_target nd \<noteq> InvalidLabelId then max m1 (nd_target nd + 1) else m1)"
  have "m \<le> m1" "m1 \<le> m2" by (simp_all add: m1_def m2_def)
  moreover have "maximum_label (nd # nds) m = maximum_label nds m2" by (simp add: m1_def m2_def Let_def)
  ultimately show ?case using Cons.IH [of m2] by simp
qed simp

lemma maximum_label_less:
  assumes "nd \<in> set nds" and "nd_type nd = LabelNode" and "nd_label nd \<noteq> InvalidLabelId"
  shows "nd_label nd < maximum_label nds m"
  using assms
proof (induction nds arbitrary: m)
  case (Cons a nds)
  show ?case
  proof (cases "nd = a")
    case True
    with Cons.prems show ?thesis
      using maximum_label_le [of "max m (nd_label nd + 1)" nds]
        maximum_label_le [of "max (max m (nd_label nd + 1)) (nd_target nd + 1)" nds]
      by (auto simp: Let_def)
  next
    case False
    with Cons show ?thesis by (simp add: Let_def)
  qed
qed simp

lemma labels_in_fst: "map fst (labels_in code base labels c nds) = map nd_label (filter (\<lambda>nd. nd_type nd = LabelNode) nds)"
  by (induction nds arbitrary: c) simp_all

lemma label_offsets_fst:
  "map fst (label_offsets code base labels c ss) =
     map nd_label (filter (\<lambda>nd. nd_type nd = LabelNode) (all_nodes ss))"
  by (induction ss arbitrary: c) (simp_all add: Let_def all_nodes_def labels_in_fst)

end
