(* ===== verification/AssembledProperties.thy ===== *)
theory AssembledProperties
  imports Assembled
begin

unbundle bit_operations_syntax

text \<open>
  The programs that the operations build (\<open>built_program\<close>), what always holds of them, and the properties
  of \<open>Assemble\<close> on them.
\<close>

section \<open>Programs that are built\<close>

inductive built_program :: "program \<Rightarrow> bool" where
  NewProgram: "built_program (program_new grows)"
| SectionAdded: "built_program p \<Longrightarrow> built_program (fst (CreateSection grows p kind v a))"
| SectionSwitched: "built_program p \<Longrightarrow> built_program (fst (SwitchSection p i))"
| LabelAdded: "built_program p \<Longrightarrow> built_program (fst (CreateLabel grows p))"
| LabelBound: "built_program p \<Longrightarrow> built_program (fst (Bind grows p l))"
| InstructionAdded: "built_program p \<Longrightarrow> built_program (fst (AppendInstruction grows p ins))"
| BranchAdded: "built_program p \<Longrightarrow> built_program (fst (AppendInstructionTo grows p ins target k))"
| DataAdded: "built_program p \<Longrightarrow> built_program (fst (AppendData grows p bs))"
| AlignAdded: "built_program p \<Longrightarrow> built_program (fst (program_Align grows p a fill))"

definition bound_labels :: "node list \<Rightarrow> nat list" where
  "bound_labels nds = map nd_label (filter (\<lambda>nd. nd_type nd = LabelNode) nds)"

lemma bound_labels_simps [simp]:
  "bound_labels [] = []"
  "bound_labels (nd # nds) = (if nd_type nd = LabelNode then [nd_label nd] else []) @ bound_labels nds"
  "bound_labels (xs @ ys) = bound_labels xs @ bound_labels ys"
  by (simp_all add: bound_labels_def)

text \<open>A node that refers to a label is an instruction with the operand that the label replaces.\<close>

definition node_ok :: "nat \<Rightarrow> node \<Rightarrow> bool" where
  "node_ok n nd \<longleftrightarrow>
     (nd_type nd = LabelNode \<longrightarrow> nd_label nd < n) \<and>
     (nd_type nd = AlignNode \<longrightarrow> power_of_two (nd_alignment nd)) \<and>
     (nd_has_target nd \<longrightarrow> nd_type nd = InstructionNode \<and> nd_target nd < n \<and>
        nd_target_index nd < length (in_operands (nd_instruction nd)))"

definition program_ok :: "program \<Rightarrow> bool" where
  "program_ok p \<longleftrightarrow>
     length (pg_labels p) \<le> InvalidLabelId \<and>
     map cs_id (pg_sections p) = [0..<length (pg_sections p)] \<and>
     (\<forall>a \<in> set (map cs_alignment (pg_sections p)). power_of_two a) \<and>
     (\<forall>nd \<in> set (all_nodes (pg_sections p)). node_ok (length (pg_labels p)) nd) \<and>
     distinct (bound_labels (all_nodes (pg_sections p))) \<and>
     (\<forall>l < length (pg_labels p). lb_bound (pg_labels p ! l) \<longleftrightarrow> l \<in> set (bound_labels (all_nodes (pg_sections p))))"

lemma node_ok_mono: "node_ok n nd \<Longrightarrow> n \<le> m \<Longrightarrow> node_ok m nd"
  by (auto simp: node_ok_def)

lemma all_nodes_append [simp]: "all_nodes (xs @ ys) = all_nodes xs @ all_nodes ys"
  by (simp add: all_nodes_def)

lemma all_nodes_simps [simp]: "all_nodes [] = []" "all_nodes (s # ss) = cs_nodes s @ all_nodes ss"
  by (simp_all add: all_nodes_def)

lemma aligned_sections_iff:
  "aligned_sections ss \<longleftrightarrow> (\<forall>a \<in> set (map cs_alignment ss). power_of_two a) \<and> aligned_nodes (all_nodes ss)"
  by (auto simp: aligned_sections_def aligned_nodes_def all_nodes_def)

lemma program_ok_aligned: "program_ok p \<Longrightarrow> aligned_sections (pg_sections p)"
  by (auto simp: program_ok_def aligned_sections_iff aligned_nodes_def node_ok_def)

lemma append_node_cases:
  assumes "SectionById p (pg_current p) \<noteq> None"
  obtains (refused) "append_node grows p nd = (p, Inl AllocationFailure)"
  | (added) A B i p' where "append_node grows p nd = (p', Inr i)" and "pg_labels p' = pg_labels p"
      and "pg_current p' = pg_current p"
      and "all_nodes (pg_sections p) = A @ B" and "all_nodes (pg_sections p') = A @ nd # B"
      and "map cs_id (pg_sections p') = map cs_id (pg_sections p)"
      and "map cs_alignment (pg_sections p') = map cs_alignment (pg_sections p)"
      and "length (pg_sections p') = length (pg_sections p)"
proof (cases "grows NodeStore (length (cs_nodes (pg_sections p ! pg_current p)) + 1)")
  case False
  then show ?thesis by (intro refused) (simp add: append_node_def section_Append_def Let_def)
next
  case True
  let ?ss = "pg_sections p" and ?k = "pg_current p"
  let ?s' = "(?ss ! ?k)\<lparr>cs_nodes := cs_nodes (?ss ! ?k) @ [nd]\<rparr>"
  let ?p' = "p\<lparr>pg_sections := ?ss[?k := ?s']\<rparr>"
  have k: "?k < length ?ss" using assms by (auto simp: SectionById_def split: if_splits)
  have ss: "?ss = take ?k ?ss @ ?ss ! ?k # drop (Suc ?k) ?ss" by (rule id_take_nth_drop [OF k])
  have ss': "?ss[?k := ?s'] = take ?k ?ss @ ?s' # drop (Suc ?k) ?ss" by (rule upd_conv_take_nth_drop [OF k])
  show ?thesis
  proof (rule added)
    show "append_node grows p nd = (?p', Inr (length (cs_nodes (?ss ! ?k))))"
      using True by (simp add: append_node_def section_Append_def Let_def)
    show "all_nodes ?ss = (all_nodes (take ?k ?ss) @ cs_nodes (?ss ! ?k)) @ all_nodes (drop (Suc ?k) ?ss)"
      by (subst ss) simp
    show "all_nodes (pg_sections ?p') =
        (all_nodes (take ?k ?ss) @ cs_nodes (?ss ! ?k)) @ nd # all_nodes (drop (Suc ?k) ?ss)"
      by (simp add: ss')
    show "map cs_id (pg_sections ?p') = map cs_id ?ss"
      using k by (simp add: map_update list_update_same_conv)
    show "map cs_alignment (pg_sections ?p') = map cs_alignment ?ss"
      using k by (simp add: map_update list_update_same_conv)
  qed simp_all
qed

text \<open>A node that is no label keeps a well-formed program so.\<close>

lemma append_node_ok:
  assumes "program_ok p" and "SectionById p (pg_current p) \<noteq> None" and "nd_type nd \<noteq> LabelNode"
    and "node_ok (length (pg_labels p)) nd"
  shows "program_ok (fst (append_node grows p nd))"
  using assms(2)
proof (cases rule: append_node_cases [of p grows nd])
  case (added A B i p')
  with assms show ?thesis by (auto simp: program_ok_def)
qed (use assms in simp_all)

lemma IsPowerOfTwo_power: "Bit_IsPowerOfTwo a \<Longrightarrow> power_of_two (unat a)"
  by (auto simp: Bit_IsPowerOfTwo_iff power_of_two_def)

lemma program_new_ok: "program_ok (program_new grows)"
  by (auto simp: program_new_def program_ok_def SetName_def section_new_def power_of_two_def InvalidLabelId_def
      intro: exI [of _ 4])

lemma CreateSection_ok:
  assumes "program_ok p" shows "program_ok (fst (CreateSection grows p kind v a))"
  using assms
  by (auto simp: CreateSection_def Let_def SetName_def section_new_def program_ok_def unat_eq_0
      dest: IsPowerOfTwo_power)

lemma CreateLabel_ok:
  assumes "program_ok p" shows "program_ok (fst (CreateLabel grows p))"
proof (cases "length (pg_labels p) \<ge> InvalidLabelId \<or> \<not> grows LabelStore (length (pg_labels p) + 1)")
  case False
  have "l < length (pg_labels p)" if "l \<in> set (bound_labels (all_nodes (pg_sections p)))" for l
    using assms that by (auto simp: program_ok_def node_ok_def bound_labels_def)
  with assms False show ?thesis
    by (auto simp: CreateLabel_def Let_def program_ok_def nth_append less_Suc_eq intro: node_ok_mono)
qed (use assms in \<open>simp add: CreateLabel_def Let_def\<close>)

lemma Bind_ok:
  assumes "program_ok p" shows "program_ok (fst (Bind grows p l))"
proof (cases "IsLabelValid p l \<and> \<not> lb_bound (pg_labels p ! l) \<and> SectionById p (pg_current p) \<noteq> None")
  case True
  then have l: "l < length (pg_labels p)" and nb: "l \<notin> set (bound_labels (all_nodes (pg_sections p)))"
    using assms by (auto simp: IsLabelValid_def program_ok_def)
  have nd: "nd_type (node_Label l) = LabelNode" "nd_label (node_Label l) = l" "\<not> nd_has_target (node_Label l)"
    by (simp_all add: node_Label_def no_node_def)
  from True have "SectionById p (pg_current p) \<noteq> None" by simp
  then show ?thesis
  proof (cases rule: append_node_cases [of p grows "node_Label l"])
    case (added A B i p')
    then have "fst (Bind grows p l) =
        p'\<lparr>pg_labels := (pg_labels p)[l := \<lparr>lb_bound = True, lb_section = pg_current p\<rparr>]\<rparr>"
      using True by (auto simp: Bind_def)
    with added assms l nb nd show ?thesis
      by (auto simp: program_ok_def nth_list_update node_ok_def)
  qed (use assms True in \<open>simp_all add: Bind_def\<close>)
qed (use assms in \<open>auto simp: Bind_def\<close>)

lemma built_program_ok: "built_program p \<Longrightarrow> program_ok p"
proof (induction rule: built_program.induct)
  case (NewProgram grows) show ?case by (rule program_new_ok)
next
  case (SectionAdded p grows kind v a) then show ?case by (intro CreateSection_ok)
next
  case (SectionSwitched p i)
  then show ?case by (simp add: SwitchSection_def program_ok_def)
next
  case (LabelAdded p grows) then show ?case by (intro CreateLabel_ok)
next
  case (LabelBound p grows l) then show ?case by (intro Bind_ok)
next
  case (InstructionAdded p grows ins)
  then show ?case
    by (auto simp: AppendInstruction_def node_ok_def node_Instruction_def no_node_def intro!: append_node_ok)
next
  case (BranchAdded p grows ins target k)
  then show ?case
    by (auto simp: AppendInstructionTo_def IsLabelValid_def node_ok_def SetLabelTarget_def node_Instruction_def
        no_node_def intro!: append_node_ok)
next
  case (DataAdded p grows bs)
  then show ?case
    by (auto simp: AppendData_def node_ok_def node_Data_def no_node_def split: option.splits intro!: append_node_ok)
next
  case (AlignAdded p grows a fill)
  then show ?case
    by (auto simp: program_Align_def node_ok_def node_Align_def no_node_def intro!: append_node_ok IsPowerOfTwo_power)
qed

text \<open>C20: the programs that the operations build. Section ids are positions; alignments are powers of two; a label
  is marked as bound exactly when it stands in some section, and then once; and a branch names a label and an
  operand that exist.\<close>

theorem built_program_well_formed:
  assumes "built_program p"
  shows "map cs_id (pg_sections p) = [0..<length (pg_sections p)] \<and>
    aligned_sections (pg_sections p) \<and>
    distinct (bound_labels (all_nodes (pg_sections p))) \<and>
    (\<forall>l. IsLabelBound p l \<longleftrightarrow> l \<in> set (bound_labels (all_nodes (pg_sections p)))) \<and>
    (\<forall>nd \<in> set (all_nodes (pg_sections p)). nd_has_target nd \<longrightarrow> nd_type nd = InstructionNode \<and>
       IsLabelValid p (nd_target nd) \<and> OperandAt (nd_instruction nd) (nd_target_index nd) \<noteq> None)"
proof -
  have ok: "program_ok p" using assms by (rule built_program_ok)
  have "l < length (pg_labels p) \<and> l \<noteq> InvalidLabelId" if "l \<in> set (bound_labels (all_nodes (pg_sections p)))" for l
    using ok that by (fastforce simp: program_ok_def node_ok_def bound_labels_def)
  then have "IsLabelBound p l \<longleftrightarrow> l \<in> set (bound_labels (all_nodes (pg_sections p)))" for l
    using ok by (auto simp: program_ok_def IsLabelBound_def IsLabelValid_def)
  with ok program_ok_aligned [OF ok] show ?thesis
    by (auto simp: program_ok_def node_ok_def IsLabelValid_def OperandAt_def)
qed

section \<open>A sample\<close>

text \<open>An encoder of instructions of one byte, and of branches as a byte and the distance to the next
  instruction.\<close>

definition sample_code :: coder where
  "sample_code i a =
     (case in_operands i of
        [] \<Rightarrow> [ucast (in_mnemonic i)]
      | v # vs \<Rightarrow> [ucast (in_mnemonic i), ucast (im_absolute (od_immediate v) - (a + 2))])"

definition sample_encode :: encoder where
  "sample_encode i buf a =
     (let bs = sample_code i a
      in if length bs \<le> length buf then (bs @ drop (length bs) buf, Inr (length bs)) else (buf, Inl BufferTooSmall))"

definition sample_decode :: decoder where
  "sample_decode bs a =
     (if length bs < 2 then None
      else Some \<lparr>rw_displacement_offset = 0, rw_displacement_size = 0,
        rw_immediates = [\<lparr>ri_relative = True, ri_offset = 1, ri_size = 8\<rparr>]\<rparr>)"

abbreviation plenty :: room_for where "plenty \<equiv> \<lambda>t n. True"

text \<open>A label, an instruction, two bytes of data, an alignment to four and a branch back to the label.\<close>

definition sample_program :: program where
  "sample_program =
     (let p = program_new plenty; p = fst (CreateLabel plenty p); p = fst (asm_Nop plenty p);
          p = fst (Bind plenty p 0); p = fst (AppendData plenty p (Some [7, 9])); p = fst (program_Align plenty p 4 0xCC)
      in fst (asm_JmpTo plenty p 0 AutomaticWidth))"

lemma sample_writes: "writes_code sample_encode sample_code"
  by (auto simp: writes_code_def sample_encode_def Let_def split: if_splits)

lemma assembly_built: "built_program sample_program"
  unfolding sample_program_def Let_def asm_JmpTo_def asm_Nop_def Emit_def add_operands.simps
  by (simp only: prod.case if_True)
    (intro built_program.intros)

definition sample_branch :: node where
  "sample_branch = SetLabelTarget (node_Instruction (with_operand MnJmp AutomaticWidth label_operand)) 0 0"

definition sample_nodes :: "node list" where
  "sample_nodes =
     [node_Instruction (instruction_of MnNop), node_Label 0, node_Data plenty [7, 9], node_Align 4 0xCC, sample_branch]"

definition sample_section :: code_section where
  "sample_section = \<lparr>cs_id = 0, cs_kind = TextSection, cs_name = [46, 116, 101, 120, 116], cs_alignment = 16,
     cs_nodes = sample_nodes\<rparr>"

lemma sample_program_eq:
  "sample_program = \<lparr>pg_sections = [sample_section],
     pg_labels = [\<lparr>lb_bound = True, lb_section = 0\<rparr>], pg_current = 0\<rparr>"
  by (simp add: sample_program_def program_new_def SetName_def section_new_def CreateLabel_def asm_Nop_def Emit_def
      AppendInstruction_def SectionById_def InvalidSectionId_def InvalidLabelId_def append_node_def section_Append_def
      Bind_def IsLabelValid_def AppendData_def node_Data_def program_Align_def Bit_IsPowerOfTwo_def asm_JmpTo_def
      AppendInstructionTo_def with_operand_def sample_branch_def sample_section_def sample_nodes_def)

lemmas sample_data = sample_nodes_def sample_branch_def SetLabelTarget_def node_Instruction_def
  node_Label_def node_Data_def node_Align_def no_node_def with_operand_def label_operand_def instruction_of_def
  FromImmediate_def no_operand_def InvalidLabelId_def

lemma sample_section_simps: "cs_nodes sample_section = sample_nodes" "cs_alignment sample_section = 16"
  by (simp_all add: sample_section_def)

lemma sample_power: "power_of_two 16" "power_of_two 4"
  by (auto simp: power_of_two_def intro: exI [of _ 4] exI [of _ 2])

lemma sample_align: "align_offset 0 16 = 0" "align_offset 3 4 = 4" "align_offset 17 4 = 20"
  by (simp_all add: align_offset_eq sample_power padding_def)

lemma sample_labels: "FindMaximumLabelId [sample_section] = 1"
  by (simp add: FindMaximumLabelId_def sample_section_simps sample_data)

lemma sample_usz: "usz 18446744073709551619 = 3" "usz 18446744073709551617 = 1" "usz 18446744073709551651 = 35"
  "usz 18446744073709551622 = 6"
  by (simp_all add: usz_def)

lemma sample_layout:
  "ComputeLayout 0x1000 [15, 0, 2, 0, 15] [sample_section] =
     ([(0, 35)], [(0, 15), (15, 0), (15, 2), (17, 3), (20, 15)], 35, [0x100F])"
  "ComputeLayout 0x1000 [1, 0, 2, 0, 2] [sample_section] =
     ([(0, 6)], [(0, 1), (1, 0), (1, 2), (3, 1), (4, 2)], 6, [0x1001])"
  unfolding ComputeLayout_def sample_labels
  by (simp_all add: sample_section_simps sample_data laid_size_def place_label_def sample_align
      sample_align(2) [unfolded numeral_3_eq_3] sample_usz)

lemma sample_measures:
  "measure_nodes sample_encode 0x1000 [(0, 15), (15, 0), (15, 2), (17, 3), (20, 15)] [0x100F] 0
     sample_nodes [15, 0, 2, 0, 15] False = Inr ([1, 0, 2, 0, 2], True)"
  "measure_nodes sample_encode 0x1000 [(0, 1), (1, 0), (1, 2), (3, 1), (4, 2)] [0x1001] 0
     sample_nodes [1, 0, 2, 0, 2] False = Inr ([1, 0, 2, 0, 2], False)"
  by (simp_all add: sample_data ResolveInstruction_def InvalidAddress_def OperandAt_def EncodeSize_def
      sample_encode_def sample_code_def MaximumLength_def Let_def)

lemma sample_all_nodes: "all_nodes [sample_section] = sample_nodes"
  by (simp add: sample_section_simps)

lemma sample_settles: "settle sample_encode 0x1000 [sample_section] MaximumPasses (map initial_size sample_nodes) =
  Inr [1, 0, 2, 0, 2]"
proof -
  have i: "map initial_size sample_nodes = [15, 0, 2, 0, 15]"
    by (simp add: sample_data initial_size_def MaximumLength_def)
  have m: "MaximumPasses = Suc (Suc 30)" by (simp add: MaximumPasses_def)
  show ?thesis
    unfolding i m settle.simps sample_layout prod.case sample_all_nodes sample_measures sum.case if_True if_False
    by (rule refl)
qed

lemma sample_emits:
  "emit_nodes sample_encode sample_decode plenty 0x1000 [0x1001] sample_nodes
     [(0, 1), (1, 0), (1, 2), (3, 1), (4, 2)] ([0, 0, 0, 0, 0, 0], []) =
   Some (Inr ([0xE7, 7, 9, 0xCC, 0x37, 0xFB], [\<lparr>rl_offset = 5, rl_kind = Relative8,
     rl_target_kind = InternalLabel, rl_target = 0x1001, rl_addend = 0\<rparr>]))"
  by (simp add: sample_data emit_node_def emit_instruction_def ResolveInstruction_def InvalidAddress_def OperandAt_def
      sample_encode_def sample_code_def sample_decode_def subspan_def Let_def overwrite_def store_bytes_def
      fill_bytes_def label_relocation_def add_relocation_def usz_def MnNop_def MnJmp_def ImmediateRelative_def)

lemma sample_assembles:
  "Assemble sample_encode sample_decode plenty sample_program 0x1000 =
     Some (Inr \<lparr>ac_bytes = [0xE7, 7, 9, 0xCC, 0x37, 0xFB],
       ac_sections = [\<lparr>as_id = 0, as_kind = TextSection, as_offset = 0, as_size = 6, as_alignment = 16\<rparr>],
       ac_relocations = [\<lparr>rl_offset = 5, rl_kind = Relative8, rl_target_kind = InternalLabel, rl_target = 0x1001,
         rl_addend = 0\<rparr>], ac_base = 0x1000\<rparr>)"
proof -
  have z: "replicate 6 (0 :: u8) = [0, 0, 0, 0, 0, 0]" by (simp add: numeral_eq_Suc)
  have s: "pg_sections sample_program = [sample_section]" by (simp add: sample_program_eq)
  show ?thesis
    unfolding Assemble_def Let_def s sample_all_nodes sample_settles sum.case sample_layout prod.case sample_emits z
    by (simp add: vector_of_def sample_section_def)
qed

section \<open>What is assembled\<close>

lemma label_offsets_bound: "map fst (label_offsets code base labels c ss) = bound_labels (all_nodes ss)"
  by (simp add: label_offsets_fst bound_labels_def)

lemma ResolveInstruction_ok:
  "is_ok (ResolveInstruction nd labels) \<Longrightarrow> nd_has_target nd \<Longrightarrow>
     nd_target nd < length labels \<and> labels ! nd_target nd \<noteq> InvalidAddress"
  by (auto simp: ResolveInstruction_def Let_def split: if_splits)

lemma Assemble_emitted:
  assumes "program_ok p" and "writes_code encode code" and "sections_room (pg_sections p) < 2 ^ 64"
    and "Assemble encode decode grows p base = Some (Inr ac)"
  obtains labels where "ac_bytes ac = code_image code base labels 0 (pg_sections p)"
    and "ac_sections ac = assembled_sections (pg_sections p) (section_spans code base labels 0 (pg_sections p))"
    and "labels = place_all base (label_offsets code base labels 0 (pg_sections p))
      (replicate (FindMaximumLabelId (pg_sections p)) InvalidAddress)"
    and "\<forall>nd \<in> set (all_nodes (pg_sections p)). nd_type nd = InstructionNode \<longrightarrow> is_ok (ResolveInstruction nd labels)"
proof -
  let ?ss = "pg_sections p"
  from assms(4) obtain sizes where st: "settle encode base ?ss MaximumPasses (map initial_size (all_nodes ?ss)) = Inr sizes"
    by (auto simp: Assemble_def Let_def split: if_splits sum.splits)
  obtain sls nls c labels where l: "ComputeLayout base sizes ?ss = (sls, nls, c, labels)"
    by (cases "ComputeLayout base sizes ?ss") auto
  from assms(4) obtain out where
    e: "emit_nodes encode decode grows base labels (all_nodes ?ss) nls ([] @ replicate c 0, []) = Some (Inr out)"
    and ac: "ac_bytes ac = fst out" "ac_sections ac = assembled_sections ?ss sls"
    by (auto simp: Assemble_def Let_def st l map_sum_Inr split: if_splits)
  have fit: "sizes_fit sizes 0 (all_nodes ?ss)"
    using settle_fit [OF st assms(2) _ initial_fit] by simp
  have al: "aligned_sections ?ss" by (rule program_ok_aligned [OF assms(1)])
  have l': "layout_sections base sizes 0 ?ss (length ([] :: u8 list))
      (replicate (FindMaximumLabelId ?ss) InvalidAddress) = (sls, nls, c, labels)"
    using l by (simp add: ComputeLayout_def)
  have r: "length ([] :: u8 list) + sections_room ?ss < 2 ^ 64" using assms(3) by simp
  have c: "c \<le> length ([] :: u8 list) + c" by simp
  note img = emit_sections_image [OF assms(2) e l' fit al r c]
  show ?thesis by (rule that [of labels]) (use img ac in auto)
qed

text \<open>The labels of the code, which the theorems below speak of.\<close>

definition code_labels :: "coder \<Rightarrow> program \<Rightarrow> u64 \<Rightarrow> u64 list \<Rightarrow> bool" where
  "code_labels code p base labels \<longleftrightarrow>
     (\<forall>(l, c) \<in> set (label_offsets code base labels 0 (pg_sections p)). labels ! l = base + of_nat c)"

lemma Assemble_labels:
  assumes "built_program p" and "writes_code encode code" and "sections_room (pg_sections p) < 2 ^ 64"
    and "Assemble encode decode grows p base = Some (Inr ac)"
  shows "\<exists>labels. ac_bytes ac = code_image code base labels 0 (pg_sections p) \<and>
    ac_sections ac = assembled_sections (pg_sections p) (section_spans code base labels 0 (pg_sections p)) \<and>
    code_labels code p base labels \<and>
    (\<forall>nd \<in> set (all_nodes (pg_sections p)). nd_type nd = InstructionNode \<longrightarrow>
       is_ok (ResolveInstruction nd labels) \<and>
       (nd_has_target nd \<longrightarrow> nd_target nd \<in> fst ` set (label_offsets code base labels 0 (pg_sections p))))"
proof -
  let ?ss = "pg_sections p"
  have ok: "program_ok p" by (rule built_program_ok [OF assms(1)])
  obtain labels where b: "ac_bytes ac = code_image code base labels 0 ?ss"
    and sec: "ac_sections ac = assembled_sections ?ss (section_spans code base labels 0 ?ss)"
    and l: "labels = place_all base (label_offsets code base labels 0 ?ss)
      (replicate (FindMaximumLabelId ?ss) InvalidAddress)"
    and r: "\<forall>nd \<in> set (all_nodes ?ss). nd_type nd = InstructionNode \<longrightarrow> is_ok (ResolveInstruction nd labels)"
    by (rule Assemble_emitted [OF ok assms(2-4)])
  let ?ps = "label_offsets code base labels 0 ?ss"
  have d: "distinct (map fst ?ps)" using ok by (simp add: label_offsets_bound program_ok_def)
  have v': "l \<noteq> InvalidLabelId \<and> l < FindMaximumLabelId ?ss" if "(l, c) \<in> set ?ps" for l c
  proof -
    have "l \<in> set (map fst ?ps)" using that by force
    then obtain nd where nd: "nd \<in> set (all_nodes ?ss)" "nd_type nd = LabelNode" "nd_label nd = l"
      by (auto simp only: label_offsets_bound) (auto simp: bound_labels_def)
    then have "node_ok (length (pg_labels p)) nd" using ok by (simp add: program_ok_def)
    then have "l < length (pg_labels p)" using nd by (simp add: node_ok_def)
    then have i: "l \<noteq> InvalidLabelId" using ok by (auto simp: program_ok_def)
    with maximum_label_less [OF nd(1,2), of 0] nd(3) show ?thesis by (simp add: FindMaximumLabelId_def)
  qed
  have v: "\<forall>(l, c) \<in> set ?ps. l \<noteq> InvalidLabelId \<and> l < length (replicate (FindMaximumLabelId ?ss) InvalidAddress)"
    using v' by auto
  have at: "labels ! l = base + of_nat c" if "(l, c) \<in> set ?ps" for l c
    by (subst l) (rule place_all_nth(1) [OF d v that])
  have named: "nd_target nd \<in> fst ` set ?ps"
    if nd: "is_ok (ResolveInstruction nd labels)" "nd_has_target nd" for nd
  proof (rule ccontr)
    assume no: "nd_target nd \<notin> fst ` set ?ps"
    have t: "nd_target nd < length labels" "labels ! nd_target nd \<noteq> InvalidAddress"
      using ResolveInstruction_ok [OF nd] by simp_all
    have "labels ! nd_target nd = replicate (FindMaximumLabelId ?ss) InvalidAddress ! nd_target nd"
      by (subst l) (rule place_all_nth(2) [OF d v no])
    moreover have "length labels = FindMaximumLabelId ?ss" by (subst l) simp
    ultimately show False using t by simp
  qed
  from at have "code_labels code p base labels" unfolding code_labels_def by blast
  with b sec r named show ?thesis by blast
qed

text \<open>C19: the code that \<open>Assemble\<close> produces. For an encoder that writes the code of each instruction at the start
  of its output, the bytes are the image of the sections, in which each instruction is encoded at its own
  address and for the addresses of the labels it names; every label that is named is bound, and its address
  is that of the bytes behind it.\<close>

theorem Assemble_image:
  assumes "built_program p" and "writes_code encode code" and "sections_room (pg_sections p) < 2 ^ 64"
    and "Assemble encode decode grows p base = Some (Inr ac)"
  shows "\<exists>labels. ac_bytes ac = code_image code base labels 0 (pg_sections p) \<and>
    (\<forall>(l, c) \<in> set (label_offsets code base labels 0 (pg_sections p)). labels ! l = base + of_nat c) \<and>
    (\<forall>nd \<in> set (all_nodes (pg_sections p)). nd_type nd = InstructionNode \<longrightarrow>
       is_ok (ResolveInstruction nd labels) \<and>
       (nd_has_target nd \<longrightarrow> nd_target nd \<in> fst ` set (label_offsets code base labels 0 (pg_sections p))))"
  using Assemble_labels [OF assms] unfolding code_labels_def by blast

lemma sample_room: "sections_room (pg_sections sample_program) = 52"
  by (simp add: sample_program_eq sample_section_simps sample_data node_room_def MaximumLength_def)

theorem Assemble_image_witness:
  "\<exists>labels. [0xE7, 7, 9, 0xCC, 0x37, 0xFB] = code_image sample_code 0x1000 labels 0 (pg_sections sample_program)"
  using Assemble_image [OF assembly_built sample_writes _ sample_assembles] by (auto simp: sample_room)

theorem built_program_well_formed_witness:
  "distinct (bound_labels (all_nodes (pg_sections sample_program))) \<and> IsLabelBound sample_program 0"
  using built_program_well_formed [OF assembly_built] by (simp add: IsLabelBound_def IsLabelValid_def sample_program_eq InvalidLabelId_def)

section \<open>Sections\<close>

lemma section_spans_length [simp]: "length (section_spans code base labels c ss) = length ss"
  by (induction ss arbitrary: c) (simp_all add: Let_def)

lemma assembled_sections_nth:
  "length ls = length ss \<Longrightarrow> length (assembled_sections ss ls) = length ss \<and>
     (\<forall>k < length ss. assembled_sections ss ls ! k =
        \<lparr>as_id = cs_id (ss ! k), as_kind = cs_kind (ss ! k), as_offset = fst (ls ! k), as_size = snd (ls ! k),
         as_alignment = cs_alignment (ss ! k)\<rparr>)"
  by (induction ss ls rule: assembled_sections.induct) (auto simp: less_Suc_eq_0_disj)

lemma section_spans_nth:
  fixes code :: coder and c :: nat and labels :: "u64 list" and base :: u64
  assumes "aligned_sections ss" and "k < length ss"
  defines "span \<equiv> \<lambda>k. section_spans code base labels c ss ! k"
  shows "cs_alignment (ss ! k) dvd fst (span k) \<and> c \<le> fst (span k) \<and>
    fst (span k) + snd (span k) \<le> c + length (code_image code base labels c ss) \<and>
    (\<forall>j < k. fst (span j) + snd (span j) \<le> fst (span k)) \<and>
    take (snd (span k)) (drop (fst (span k) - c) (code_image code base labels c ss)) =
      nodes_image code base labels (fst (span k)) (cs_nodes (ss ! k))"
  using assms(1,2) unfolding span_def
proof (induction ss arbitrary: c k)
  case (Cons s ss)
  let ?pad = "padding c (cs_alignment s)"
  let ?start = "c + ?pad"
  let ?b = "nodes_image code base labels ?start (cs_nodes s)"
  let ?next = "?start + length ?b"
  have sp: "section_spans code base labels c (s # ss) = (?start, length ?b) # section_spans code base labels ?next ss"
    and im: "code_image code base labels c (s # ss) = replicate ?pad 0 @ ?b @ code_image code base labels ?next ss"
    by (simp_all add: Let_def)
  have a: "cs_alignment s dvd ?start"
    using Cons.prems(1) by (intro padding_aligns) (auto simp: power_of_two_def)
  show ?case
  proof (cases k)
    case 0
    then show ?thesis using a by (simp add: sp im del: section_spans.simps code_image.simps)
  next
    case (Suc k')
    let ?q = "section_spans code base labels ?next ss ! k'"
    have IH: "cs_alignment (ss ! k') dvd fst ?q" "?next \<le> fst ?q"
      "fst ?q + snd ?q \<le> ?next + length (code_image code base labels ?next ss)"
      "\<forall>j < k'. fst (section_spans code base labels ?next ss ! j) + snd (section_spans code base labels ?next ss ! j)
         \<le> fst ?q"
      "take (snd ?q) (drop (fst ?q - ?next) (code_image code base labels ?next ss)) =
        nodes_image code base labels (fst ?q) (cs_nodes (ss ! k'))"
      using Cons.IH [of k' ?next] Cons.prems Suc by simp_all
    have "drop (fst ?q - c) (code_image code base labels c (s # ss)) =
        drop (fst ?q - ?next) (code_image code base labels ?next ss)"
      using IH(2) by (simp add: im del: code_image.simps)
    with IH Suc show ?thesis
      by (auto simp: sp im less_Suc_eq_0_disj simp del: section_spans.simps code_image.simps)
  qed
qed simp

text \<open>C22: the sections of the code that is assembled. The table has one entry for each section of the program, in
  the order of the program, with its identifier, kind and alignment; each is at an offset that is a multiple
  of its alignment, behind the ones before it and inside the code, and the bytes there are the image of its
  nodes, encoded for the addresses that the labels of the program have in this code.\<close>

theorem Assemble_sections:
  assumes "built_program p" and "writes_code encode code" and "sections_room (pg_sections p) < 2 ^ 64"
    and "Assemble encode decode grows p base = Some (Inr ac)"
  shows "length (ac_sections ac) = length (pg_sections p) \<and>
    (\<exists>labels. code_labels code p base labels \<and> (\<forall>k < length (pg_sections p).
       let s = ac_sections ac ! k
       in as_id s = k \<and> as_kind s = cs_kind (pg_sections p ! k) \<and> as_alignment s = cs_alignment (pg_sections p ! k) \<and>
          as_alignment s dvd as_offset s \<and> as_offset s + as_size s \<le> length (ac_bytes ac) \<and>
          (\<forall>j < k. as_offset (ac_sections ac ! j) + as_size (ac_sections ac ! j) \<le> as_offset s) \<and>
          take (as_size s) (drop (as_offset s) (ac_bytes ac)) =
            nodes_image code base labels (as_offset s) (cs_nodes (pg_sections p ! k))))"
proof -
  let ?ss = "pg_sections p"
  have ok: "program_ok p" by (rule built_program_ok [OF assms(1)])
  obtain labels where b: "ac_bytes ac = code_image code base labels 0 ?ss"
    and s: "ac_sections ac = assembled_sections ?ss (section_spans code base labels 0 ?ss)"
    and l: "code_labels code p base labels"
    using Assemble_labels [OF assms] by blast
  have n: "length (ac_sections ac) = length ?ss \<and> (\<forall>k < length ?ss. ac_sections ac ! k =
      \<lparr>as_id = cs_id (?ss ! k), as_kind = cs_kind (?ss ! k),
       as_offset = fst (section_spans code base labels 0 ?ss ! k),
       as_size = snd (section_spans code base labels 0 ?ss ! k), as_alignment = cs_alignment (?ss ! k)\<rparr>)"
    unfolding s by (rule assembled_sections_nth) simp
  have i: "cs_id (?ss ! k) = k" if "k < length ?ss" for k
  proof -
    have "map cs_id ?ss ! k = k" using ok that by (simp add: program_ok_def)
    then show ?thesis using that by simp
  qed
  show ?thesis
    using n l i section_spans_nth [OF program_ok_aligned [OF ok], of _ code base labels 0] b
    by (intro conjI exI [of _ labels]) (auto simp: Let_def)
qed

theorem Assemble_sections_witness:
  "\<exists>ac. Assemble sample_encode sample_decode plenty sample_program 0x1000 = Some (Inr ac) \<and>
    length (ac_sections ac) = length (pg_sections sample_program) \<and>
    (\<exists>labels. code_labels sample_code sample_program 0x1000 labels \<and>
       take 6 (ac_bytes ac) = nodes_image sample_code 0x1000 labels 0 (cs_nodes (pg_sections sample_program ! 0)))"
proof -
  have "sections_room (pg_sections sample_program) < 2 ^ 64" by (simp add: sample_room)
  from Assemble_sections [OF assembly_built sample_writes this sample_assembles] sample_assembles show ?thesis
    by (auto simp: sample_program_eq)
qed

section \<open>Alignments that do not fit\<close>

text \<open>Two bytes of data, each before an alignment to \<^term>\<open>2 ^ 63 :: nat\<close>.\<close>

definition wrapping_program :: program where
  "wrapping_program =
     (let p = program_new plenty; p = fst (AppendData plenty p (Some [1]));
          p = fst (program_Align plenty p 0x8000000000000000 0); p = fst (AppendData plenty p (Some [2]))
      in fst (program_Align plenty p 0x8000000000000000 0))"

definition wrapping_nodes :: "node list" where
  "wrapping_nodes = [node_Data plenty [1], node_Align 0x8000000000000000 0, node_Data plenty [2],
     node_Align 0x8000000000000000 0]"

lemma wrapping_built: "built_program wrapping_program"
  unfolding wrapping_program_def Let_def by (intro built_program.intros)

lemma wrapping_sections: "pg_sections wrapping_program =
    [\<lparr>cs_id = 0, cs_kind = TextSection, cs_name = [46, 116, 101, 120, 116], cs_alignment = 16, cs_nodes = wrapping_nodes\<rparr>]"
  by (simp add: wrapping_program_def program_new_def SetName_def section_new_def SectionById_def InvalidSectionId_def
      append_node_def section_Append_def AppendData_def node_Data_def program_Align_def Bit_IsPowerOfTwo_def
      wrapping_nodes_def no_node_def)

text \<open>C40: alignments are not bounded, and the aligned offset that does not fit is zero. A program of four nodes that
  the operations accept makes \<open>Assemble\<close> write outside its buffer, whatever the encoder: the second alignment
  takes the cursor back to zero, so the buffer is empty when the data are stored.\<close>

theorem Align_wraps:
  "built_program wrapping_program \<and> Assemble encode decode plenty wrapping_program base = None"
proof -
  let ?ss = "pg_sections wrapping_program"
  have nds: "all_nodes ?ss = wrapping_nodes" by (simp add: wrapping_sections)
  have k: "FindMaximumLabelId ?ss = 0"
    unfolding FindMaximumLabelId_def nds
    by (simp add: wrapping_nodes_def node_Data_def node_Align_def no_node_def)
  have sizes: "map initial_size wrapping_nodes = [1, 0, 1, 0]"
    by (simp add: wrapping_nodes_def node_Data_def node_Align_def no_node_def initial_size_def)
  have al: "align_offset 0 16 = 0" "align_offset (Suc 0) 0x8000000000000000 = 0x8000000000000000"
    "align_offset 0x8000000000000001 0x8000000000000000 = 0"
    by (simp_all add: align_offset_def Bit_AlignUp_def Bit_TryAlignUp_def alignment_too_wide_def
        Bit_IsValidAlignment_def Bit_IsPowerOfTwo_def Let_def)
  have us: "usz 27670116110564327423 = 0x7FFFFFFFFFFFFFFF" "usz 0x8000000000000000 = 0x8000000000000000"
    "usz 0x8000000000000001 = 0x8000000000000001" "usz 0x10000000000000000 = 0" "usz 9223372036854775807 = 9223372036854775807"
    by (simp_all add: usz_def)
  have lay: "ComputeLayout base [1, 0, 1, 0] ?ss =
      ([(0, 0)], [(0, 1), (1, 0x7FFFFFFFFFFFFFFF), (0x8000000000000000, 1), (0x8000000000000001, 0x7FFFFFFFFFFFFFFF)], 0, [])"
    unfolding ComputeLayout_def k unfolding wrapping_sections
    by (simp add: wrapping_nodes_def node_Data_def node_Align_def no_node_def laid_size_def place_label_def al us)
  have st: "settle encode base ?ss MaximumPasses [1, 0, 1, 0] = Inr [1, 0, 1, 0]"
  proof -
    have m: "MaximumPasses = Suc 31" by (simp add: MaximumPasses_def)
    have "measure_nodes encode base ls [] 0 wrapping_nodes [1, 0, 1, 0] False = Inr ([1, 0, 1, 0], False)" for ls
      by (simp add: wrapping_nodes_def node_Data_def node_Align_def no_node_def)
    then show ?thesis unfolding m settle.simps lay prod.case nds by simp
  qed
  have "emit_nodes encode decode plenty base [] wrapping_nodes
      [(0, 1), (1, 0x7FFFFFFFFFFFFFFF), (0x8000000000000000, 1), (0x8000000000000001, 0x7FFFFFFFFFFFFFFF)]
      (replicate 0 0, []) = None"
    by (simp add: wrapping_nodes_def node_Data_def no_node_def emit_node_def store_bytes_def)
  then have "Assemble encode decode plenty wrapping_program base = None"
    unfolding Assemble_def Let_def nds sizes st sum.case lay prod.case
    by (simp add: wrapping_sections vector_of_def)
  with wrapping_built show ?thesis by simp
qed

end
