(* ===== verification/AssembledPasses.thy ===== *)
theory AssembledPasses
  imports AssembledProperties
begin

unbundle bit_operations_syntax

text \<open>
  A program whose labels are all bound is assembled, when each instruction has one size of encoding at all
  addresses and for all targets inside the program: the second pass finds the sizes that the first has
  measured.
\<close>

section \<open>Programs that are assembled\<close>

text \<open>The addresses of a program of at most \<open>m\<close> bytes.\<close>

definition within :: "u64 \<Rightarrow> nat \<Rightarrow> u64 \<Rightarrow> bool" where
  "within base m a \<longleftrightarrow> (\<exists>k \<le> m. a = base + of_nat k)"

lemma withinI: "k \<le> m \<Longrightarrow> within base m (base + of_nat k)"
  by (auto simp: within_def)

text \<open>An instruction node whose label is known, at an address of the program.\<close>

definition resolved :: "u64 \<Rightarrow> nat \<Rightarrow> node \<Rightarrow> u64 list \<Rightarrow> bool" where
  "resolved base m nd labels \<longleftrightarrow>
     is_ok (ResolveInstruction nd labels) \<and> (nd_has_target nd \<longrightarrow> within base m (labels ! nd_target nd))"

text \<open>All encodings of an instruction node have the size \<open>n\<close>, at each address of the program and for each
  address of the program that its label may have. The encoder may fail for an address or a target outside:
  a near branch, say, meets this in a program of less than two gigabytes, a short one in one of less than
  128 bytes.\<close>

definition fixed_width :: "encoder \<Rightarrow> u64 \<Rightarrow> nat \<Rightarrow> node \<Rightarrow> nat \<Rightarrow> bool" where
  "fixed_width encode base m nd n \<longleftrightarrow> n \<le> MaximumLength \<and>
     (\<forall>labels ins buf a. ResolveInstruction nd labels = Inr ins \<longrightarrow>
        (nd_has_target nd \<longrightarrow> within base m (labels ! nd_target nd)) \<longrightarrow> within base m a \<longrightarrow> n \<le> length buf \<longrightarrow>
        (\<exists>out. length out = length buf \<and> encode ins buf a = (out, Inr n)))"

lemma fixed_widthD:
  assumes "fixed_width encode base m nd n" and "ResolveInstruction nd labels = Inr ins"
    and "resolved base m nd labels" and "within base m a" and "n \<le> length buf"
  obtains out where "encode ins buf a = (out, Inr n)" and "length out = length buf"
  using assms unfolding fixed_width_def resolved_def by metis

lemma fixed_width_size:
  assumes "fixed_width encode base m nd n" and "ResolveInstruction nd labels = Inr ins"
    and "resolved base m nd labels" and "within base m a"
  shows "EncodeSize encode ins a = Inr n"
proof -
  have "n \<le> length (replicate MaximumLength (0 :: u8))" using assms(1) by (simp add: fixed_width_def)
  then obtain out where "encode ins (replicate MaximumLength 0) a = (out, Inr n)"
    using fixed_widthD [OF assms] by blast
  then show ?thesis by (simp add: EncodeSize_def)
qed

section \<open>Where labels are\<close>

lemma layout_nodes_places:
  assumes "layout_nodes base sizes i nds c labs = (ls, c', labs')" and "sizes_fit sizes i nds"
    and "aligned_nodes nds" and "c + nodes_room nds < 2 ^ 64"
  shows "\<exists>ps. labs' = place_all base ps labs \<and> map fst ps = bound_labels nds \<and> (\<forall>q \<in> set ps. snd q \<le> c')"
  using assms
proof (induction nds arbitrary: i c labs ls)
  case Nil
  then show ?case by (intro exI [of _ "[]"]) simp
next
  case (Cons nd nds)
  let ?n = "laid_size sizes i c nd"
  have r: "c + node_room nd < 2 ^ 64" using Cons.prems(4) by simp
  have n: "?n \<le> node_room nd" by (rule laid_size_room [OF Cons.prems(2) _ r]) (use Cons.prems(3) in simp)
  then have u: "usz (c + ?n) = c + ?n" using r by simp
  obtain ls' where ls: "layout_nodes base sizes (i + 1) nds (c + ?n) (place_label base c nd labs) = (ls', c', labs')"
    using Cons.prems(1) by (simp only: layout_nodes.simps Let_def u) (auto split: prod.splits)
  have fit: "sizes_fit sizes (i + 1) nds" and al: "aligned_nodes nds" and r': "c + ?n + nodes_room nds < 2 ^ 64"
    using Cons.prems(2-4) n by (simp_all add: sizes_fit_Cons)
  obtain ps where ps: "labs' = place_all base ps (place_label base c nd labs)" "map fst ps = bound_labels nds"
    "\<forall>q \<in> set ps. snd q \<le> c'"
    using Cons.IH [OF ls fit al r'] by blast
  have "c \<le> c'" using layout_nodes_bounds [OF ls fit al r'] by simp
  then show ?case
    using ps by (intro exI [of _ "(if nd_type nd = LabelNode then [(nd_label nd, c)] else []) @ ps"])
      (simp add: place_label_Label place_label_other)
qed

lemma layout_sections_places:
  assumes "layout_sections base sizes i ss c labs = (sls, nls, c', labs')" and "sizes_fit sizes i (all_nodes ss)"
    and "aligned_sections ss" and "c + sections_room ss < 2 ^ 64"
  shows "\<exists>ps. labs' = place_all base ps labs \<and> map fst ps = bound_labels (all_nodes ss) \<and> (\<forall>q \<in> set ps. snd q \<le> c')"
  using assms
proof (induction ss arbitrary: i c labs sls nls)
  case Nil
  then show ?case by (intro exI [of _ "[]"]) simp
next
  case (Cons s ss)
  let ?start = "c + padding c (cs_alignment s)"
  have p: "power_of_two (cs_alignment s)" "c + cs_alignment s < 2 ^ 64" using Cons.prems(3,4) by simp_all
  then have less: "padding c (cs_alignment s) < cs_alignment s"
    by (intro padding_less) (auto simp: power_of_two_def)
  obtain ls c1 l1 where l: "layout_nodes base sizes i (cs_nodes s) ?start labs = (ls, c1, l1)"
    by (cases "layout_nodes base sizes i (cs_nodes s) ?start labs") auto
  obtain sls' nls' where s: "layout_sections base sizes (i + length (cs_nodes s)) ss c1 l1 = (sls', nls', c', labs')"
    using Cons.prems(1) l by (auto simp: Let_def align_offset_eq [OF p] split: prod.splits)
  have fit: "sizes_fit sizes i (cs_nodes s)" "sizes_fit sizes (i + length (cs_nodes s)) (all_nodes ss)"
    using Cons.prems(2) by (simp_all add: sizes_fit_append)
  have al: "aligned_nodes (cs_nodes s)" "aligned_sections ss" using Cons.prems(3) by simp_all
  have r: "?start + nodes_room (cs_nodes s) < 2 ^ 64" using Cons.prems(4) less by simp
  have b: "c1 \<le> ?start + nodes_room (cs_nodes s)" using layout_nodes_bounds [OF l fit(1) al(1) r] by simp
  have r2: "c1 + sections_room ss < 2 ^ 64" using Cons.prems(4) b less by simp
  have c1: "c1 \<le> c'" using layout_sections_bounds [OF s fit(2) al(2) r2] by simp
  obtain ps where ps: "l1 = place_all base ps labs" "map fst ps = bound_labels (cs_nodes s)" "\<forall>q \<in> set ps. snd q \<le> c1"
    using layout_nodes_places [OF l fit(1) al(1) r] by blast
  obtain qs where qs: "labs' = place_all base qs l1" "map fst qs = bound_labels (all_nodes ss)" "\<forall>q \<in> set qs. snd q \<le> c'"
    using Cons.IH [OF s fit(2) al(2) r2] by blast
  show ?case
    using ps qs c1 by (intro exI [of _ "ps @ qs"]) (auto simp: place_all_append intro: order_trans)
qed

lemma layout_nodes_offsets:
  assumes "layout_nodes base sizes i nds c labs = (ls, c', labs')" and "sizes_fit sizes i nds"
    and "aligned_nodes nds" and "c + nodes_room nds < 2 ^ 64"
  shows "\<forall>x \<in> set ls. fst x \<le> c'"
  using assms
proof (induction nds arbitrary: i c labs ls)
  case (Cons nd nds)
  let ?n = "laid_size sizes i c nd"
  have r: "c + node_room nd < 2 ^ 64" using Cons.prems(4) by simp
  have n: "?n \<le> node_room nd" by (rule laid_size_room [OF Cons.prems(2) _ r]) (use Cons.prems(3) in simp)
  then have u: "usz (c + ?n) = c + ?n" using r by simp
  obtain ls' where ls: "layout_nodes base sizes (i + 1) nds (c + ?n) (place_label base c nd labs) = (ls', c', labs')"
    "ls = (c, ?n) # ls'"
    using Cons.prems(1) by (simp only: layout_nodes.simps Let_def u) (auto split: prod.splits)
  have fit: "sizes_fit sizes (i + 1) nds" and al: "aligned_nodes nds" and r': "c + ?n + nodes_room nds < 2 ^ 64"
    using Cons.prems(2-4) n by (simp_all add: sizes_fit_Cons)
  show ?case
    using Cons.IH [OF ls(1) fit al r'] layout_nodes_bounds [OF ls(1) fit al r'] ls(2) by simp
qed simp

lemma layout_sections_offsets:
  assumes "layout_sections base sizes i ss c labs = (sls, nls, c', labs')" and "sizes_fit sizes i (all_nodes ss)"
    and "aligned_sections ss" and "c + sections_room ss < 2 ^ 64"
  shows "\<forall>x \<in> set nls. fst x \<le> c'"
  using assms
proof (induction ss arbitrary: i c labs sls nls)
  case (Cons s ss)
  let ?start = "c + padding c (cs_alignment s)"
  have p: "power_of_two (cs_alignment s)" "c + cs_alignment s < 2 ^ 64" using Cons.prems(3,4) by simp_all
  then have less: "padding c (cs_alignment s) < cs_alignment s"
    by (intro padding_less) (auto simp: power_of_two_def)
  obtain ls c1 l1 where l: "layout_nodes base sizes i (cs_nodes s) ?start labs = (ls, c1, l1)"
    by (cases "layout_nodes base sizes i (cs_nodes s) ?start labs") auto
  obtain sls' nls' where s: "layout_sections base sizes (i + length (cs_nodes s)) ss c1 l1 = (sls', nls', c', labs')"
    "nls = ls @ nls'"
    using Cons.prems(1) l by (auto simp: Let_def align_offset_eq [OF p] split: prod.splits)
  have fit: "sizes_fit sizes i (cs_nodes s)" "sizes_fit sizes (i + length (cs_nodes s)) (all_nodes ss)"
    using Cons.prems(2) by (simp_all add: sizes_fit_append)
  have al: "aligned_nodes (cs_nodes s)" "aligned_sections ss" using Cons.prems(3) by simp_all
  have r: "?start + nodes_room (cs_nodes s) < 2 ^ 64" using Cons.prems(4) less by simp
  have b: "c1 \<le> ?start + nodes_room (cs_nodes s)" using layout_nodes_bounds [OF l fit(1) al(1) r] by simp
  have r2: "c1 + sections_room ss < 2 ^ 64" using Cons.prems(4) b less by simp
  have "c1 \<le> c'" using layout_sections_bounds [OF s(1) fit(2) al(2) r2] by simp
  then show ?case
    using layout_nodes_offsets [OF l fit(1) al(1) r] Cons.IH [OF s(1) fit(2) al(2) r2] s(2) by fastforce
qed simp

section \<open>The sizes\<close>

definition measured :: "(node \<Rightarrow> nat) \<Rightarrow> node list \<Rightarrow> nat list \<Rightarrow> nat list" where
  "measured width nds ns = map2 (\<lambda>nd n. if nd_type nd = InstructionNode then width nd else n) nds ns"

lemma measured_simps [simp]:
  "measured width [] ns = []"
  "measured width (nd # nds) (n # ns) =
     (if nd_type nd = InstructionNode then width nd else n) # measured width nds ns"
  by (simp_all add: measured_def)

lemma measured_length [simp]: "length ns = length nds \<Longrightarrow> length (measured width nds ns) = length nds"
  by (simp add: measured_def)

lemma measured_again [simp]:
  "length ns = length nds \<Longrightarrow> measured width nds (measured width nds ns) = measured width nds ns"
  by (induction nds ns rule: list_induct2') simp_all

lemma measure_nodes_widths:
  assumes "\<forall>nd \<in> set nds. nd_type nd = InstructionNode \<longrightarrow>
      fixed_width encode base m nd (width nd) \<and> resolved base m nd labels"
    and "length ns = length nds" and "\<forall>j < length nds. fst (ls ! (length pre + j)) \<le> m"
  shows "measure_nodes encode base ls labels (length pre) nds (pre @ ns) changed =
    Inr (pre @ measured width nds ns, changed \<or> measured width nds ns \<noteq> ns)"
  using assms
proof (induction nds arbitrary: pre ns changed)
  case (Cons nd nds)
  obtain n ns' where ns: "ns = n # ns'" "length ns' = length nds" using Cons.prems(2) by (cases ns) auto
  have rest: "measure_nodes encode base ls labels (length pre + 1) nds (pre @ k # ns') ch =
      Inr (pre @ k # measured width nds ns', ch \<or> measured width nds ns' \<noteq> ns')" for k ch
    using Cons.IH [of ns' "pre @ [k]" ch] Cons.prems(1) ns(2) Cons.prems(3) [THEN spec, of "Suc j" for j] by simp
  show ?case
  proof (cases "nd_type nd = InstructionNode")
    case False
    with rest ns show ?thesis by simp
  next
    case True
    with Cons.prems(1) obtain ins where f: "fixed_width encode base m nd (width nd)" "resolved base m nd labels"
      and ins: "ResolveInstruction nd labels = Inr ins"
      by (cases "ResolveInstruction nd labels") (auto simp: resolved_def)
    have at: "within base m (base + of_nat (fst (ls ! length pre)))"
      using Cons.prems(3) by (intro withinI) auto
    show ?thesis
      using rest [of n changed] rest [of "width nd" True] True ins fixed_width_size [OF f(1) ins f(2) at] ns(1)
      by (cases "n = width nd") simp_all
  qed
qed simp

lemma operand_relocations_room:
  assumes "\<forall>t n. grows t n"
  shows "\<exists>rs'. operand_relocations grows raw off k vs rs = Inr rs'"
proof (induction vs arbitrary: k rs)
  case (Cons v vs)
  have "\<exists>r. immediate_relocation grows raw off k (od_immediate v) rs = Inr r"
    "\<exists>r. memory_relocation grows raw off (od_memory v) rs = Inr r"
    using assms by (simp_all add: immediate_relocation_def memory_relocation_def add_relocation_def Let_def)
  then show ?case using Cons.IH by fastforce
qed simp

lemma label_relocation_room:
  "\<forall>t n. grows t n \<Longrightarrow> \<exists>rs'. label_relocation grows raw off t rs = Inr rs'"
  by (simp add: label_relocation_def add_relocation_def split: option.split)

section \<open>Labels are resolved\<close>

text \<open>A branch whose label is bound somewhere and whose operand is an immediate.\<close>

definition branch_ok :: "node list \<Rightarrow> node \<Rightarrow> bool" where
  "branch_ok nds nd \<longleftrightarrow>
     (nd_has_target nd \<longrightarrow> nd_target nd \<in> set (bound_labels nds) \<and>
        (\<exists>v. OperandAt (nd_instruction nd) (nd_target_index nd) = Some v \<and> od_type v = ImmediateOperand))"

lemma placed_labels:
  assumes "ComputeLayout base sizes ss = (sls, ls, c, labels)" and "sizes_fit sizes 0 (all_nodes ss)"
    and "aligned_sections ss" and "distinct (bound_labels (all_nodes ss))"
    and "\<forall>l \<in> set (bound_labels (all_nodes ss)). l \<noteq> InvalidLabelId"
    and "unat base + sections_room ss < 2 ^ 64 - 1" and "l \<in> set (bound_labels (all_nodes ss))"
  shows "l < length labels \<and> labels ! l \<noteq> InvalidAddress \<and> within base (sections_room ss) (labels ! l)"
proof -
  let ?k = "FindMaximumLabelId ss"
  note lay = assms(1) [unfolded ComputeLayout_def]
  have r: "0 + sections_room ss < 2 ^ 64" using assms(6) by simp
  obtain ps where ps: "labels = place_all base ps (replicate ?k InvalidAddress)" "map fst ps = bound_labels (all_nodes ss)"
    "\<forall>q \<in> set ps. snd q \<le> c"
    using layout_sections_places [OF lay assms(2,3) r] by blast
  have c: "c \<le> sections_room ss" using layout_sections_bounds [OF lay assms(2,3) r] by simp
  have known: "m \<noteq> InvalidLabelId \<and> m < ?k" if "m \<in> set (bound_labels (all_nodes ss))" for m
    using that assms(5) maximum_label_less [of _ "all_nodes ss" 0]
    by (auto simp: FindMaximumLabelId_def bound_labels_def)
  have "l \<in> fst ` set ps" using assms(7) ps(2) by (metis list.set_map)
  then obtain x where x: "(l, x) \<in> set ps" by auto
  have "\<forall>(l, c) \<in> set ps. l \<noteq> InvalidLabelId \<and> l < length (replicate ?k InvalidAddress)"
  proof (clarify)
    fix m x assume "(m, x) \<in> set ps"
    then have "m \<in> set (map fst ps)" by force
    then show "m \<noteq> InvalidLabelId \<and> m < length (replicate ?k InvalidAddress)" using known ps(2) by simp
  qed
  then have e: "labels ! l = base + of_nat x"
    unfolding ps(1) using ps(2) assms(4) by (intro place_all_nth(1) x) simp_all
  have "x \<le> sections_room ss" using ps(3) x c by fastforce
  then have "unat base + x < 2 ^ 64 - 1" using assms(6) by simp
  then have "unat (base + of_nat x) = unat base + x"
    using unat_add_lem [of base "of_nat x"] by (simp add: unat_of_nat_small)
  moreover have "unat InvalidAddress = 2 ^ 64 - 1" by (simp add: InvalidAddress_def unsigned_minus_1_eq_mask mask_eq_exp_minus_1)
  ultimately have "base + of_nat x \<noteq> InvalidAddress" using \<open>unat base + x < 2 ^ 64 - 1\<close> by auto
  with e ps(1) known [OF assms(7)] withinI [OF \<open>x \<le> sections_room ss\<close>, of base] show ?thesis by simp
qed

lemma branch_resolves:
  assumes "branch_ok nds nd" and "\<forall>l \<in> set (bound_labels nds). l \<noteq> InvalidLabelId"
    and "\<And>l. l \<in> set (bound_labels nds) \<Longrightarrow> l < length labels \<and> labels ! l \<noteq> InvalidAddress \<and> within base m (labels ! l)"
  shows "resolved base m nd labels"
proof (cases "nd_has_target nd")
  case True
  with assms(1) have "nd_target nd \<in> set (bound_labels nds)" by (simp add: branch_ok_def)
  with assms(2,3) have "nd_target nd \<noteq> InvalidLabelId" "nd_target nd < length labels"
    "labels ! nd_target nd \<noteq> InvalidAddress" "within base m (labels ! nd_target nd)" by blast+
  with assms(1) True show ?thesis by (auto simp: branch_ok_def resolved_def ResolveInstruction_def Let_def)
qed (simp add: resolved_def ResolveInstruction_def)

section \<open>Two passes are enough\<close>

lemma measured_fit:
  assumes "length ns = length nds" and "sizes_fit ns 0 nds"
    and "\<forall>nd \<in> set nds. nd_type nd = InstructionNode \<longrightarrow> width nd \<le> MaximumLength"
  shows "sizes_fit (measured width nds ns) 0 nds"
  using assms by (auto simp: sizes_fit_def measured_def)

lemma settle_widths:
  assumes "\<And>ns sls ls c labels. length ns = length (all_nodes ss) \<Longrightarrow> sizes_fit ns 0 (all_nodes ss) \<Longrightarrow>
      ComputeLayout base ns ss = (sls, ls, c, labels) \<Longrightarrow>
      \<forall>nd \<in> set (all_nodes ss). nd_type nd = InstructionNode \<longrightarrow>
        fixed_width encode base m nd (width nd) \<and> resolved base m nd labels"
    and "length ns = length (all_nodes ss)" and "sizes_fit ns 0 (all_nodes ss)" and "aligned_sections ss"
    and "sections_room ss < 2 ^ 64" and "m = sections_room ss"
  shows "settle encode base ss MaximumPasses ns = Inr (measured width (all_nodes ss) ns)"
proof -
  let ?m = "measured width (all_nodes ss)"
  have pass: "settle encode base ss (Suc k) ms = (if ?m ms \<noteq> ms then settle encode base ss k (?m ms) else Inr (?m ms))"
    if ms: "length ms = length (all_nodes ss)" "sizes_fit ms 0 (all_nodes ss)" for k ms
  proof -
    obtain sls ls c labels where l: "ComputeLayout base ms ss = (sls, ls, c, labels)"
      by (cases "ComputeLayout base ms ss") auto
    have r: "0 + sections_room ss < 2 ^ 64" using assms(5) by simp
    have "c \<le> sections_room ss \<and> length ls = length (all_nodes ss)" "\<forall>x \<in> set ls. fst x \<le> c"
      using layout_sections_bounds [OF l [unfolded ComputeLayout_def] ms(2) assms(4) r]
        layout_sections_offsets [OF l [unfolded ComputeLayout_def] ms(2) assms(4) r] by simp_all
    then have at: "\<forall>j < length (all_nodes ss). fst (ls ! j) \<le> m" using assms(6) by (metis nth_mem order_trans)
    show ?thesis
      using measure_nodes_widths [OF assms(1) [OF ms l] ms(1), of ls "[]" False] at by (simp add: l)
  qed
  obtain sls ls c labels where "ComputeLayout base ns ss = (sls, ls, c, labels)"
    by (cases "ComputeLayout base ns ss") auto
  from assms(1) [OF assms(2,3) this] have "sizes_fit (?m ns) 0 (all_nodes ss)"
    by (intro measured_fit assms(2,3)) (auto simp: fixed_width_def)
  then have again: "settle encode base ss (Suc 30) (?m ns) = Inr (?m ns)"
    using pass [of "?m ns" 30] assms(2) by (simp only: measured_again measured_length) simp
  have "settle encode base ss (Suc (Suc 30)) ns = Inr (?m ns)"
    unfolding pass [OF assms(2,3)] using again by simp
  then show ?thesis by (simp add: MaximumPasses_def)
qed

section \<open>Every node is written\<close>

definition exact :: "(node \<Rightarrow> nat) \<Rightarrow> nat list \<Rightarrow> nat \<Rightarrow> node list \<Rightarrow> bool" where
  "exact width sizes i nds \<longleftrightarrow>
     (\<forall>j < length nds. nd_type (nds ! j) = InstructionNode \<longrightarrow> sizes ! (i + j) = width (nds ! j))"

lemma exact_Cons:
  "exact width sizes i (nd # nds) \<longleftrightarrow>
     (nd_type nd = InstructionNode \<longrightarrow> sizes ! i = width nd) \<and> exact width sizes (i + 1) nds"
  by (auto simp: exact_def less_Suc_eq_0_disj)

lemma exact_append:
  "exact width sizes i (xs @ ys) \<longleftrightarrow> exact width sizes i xs \<and> exact width sizes (i + length xs) ys"
  by (induction xs arbitrary: i) (auto simp: exact_Cons exact_def [of _ _ _ "[]"])

lemma measured_exact: "length ns = length nds \<Longrightarrow> exact width (measured width nds ns) 0 nds"
  by (simp add: exact_def measured_def)

lemma length_subspan: "off + n \<le> length buf \<Longrightarrow> length (subspan buf off n) = n"
  by (auto simp: subspan_def)

lemma emit_instruction_fits:
  assumes "fixed_width encode base m nd n" and "resolved base m nd labels" and "off + n \<le> length buf"
    and "\<forall>t k. grows t k" and "off \<le> m"
  obtains buf' rs' where "emit_instruction encode decode grows base labels nd off n (buf, rs) = Inr (buf', rs')"
    and "length buf' = length buf"
proof -
  obtain ins where ins: "ResolveInstruction nd labels = Inr ins"
    using assms(2) by (cases "ResolveInstruction nd labels") (auto simp: resolved_def)
  have "n \<le> length (subspan buf off n)" using length_subspan [OF assms(3)] by simp
  then obtain out where out: "encode ins (subspan buf off n) (base + of_nat off) = (out, Inr n)" "length out = n"
    using fixed_widthD [OF assms(1) ins assms(2) withinI [OF assms(5)]] length_subspan [OF assms(3)] by metis
  let ?buf = "overwrite off out buf"
  have "\<exists>rs'. emit_instruction encode decode grows base labels nd off n (buf, rs) = Inr (?buf, rs')"
  proof (cases "decode out (base + of_nat off)")
    case None
    then show ?thesis by (simp add: emit_instruction_def ins out)
  next
    case (Some raw)
    obtain r1 r2 where "label_relocation grows raw off (labels ! nd_target nd) rs = Inr r1"
      "operand_relocations grows raw off 0 (in_operands ins) rs = Inr r2"
      using label_relocation_room [OF assms(4)] operand_relocations_room [OF assms(4)] by metis
    then show ?thesis by (simp add: emit_instruction_def ins out Some)
  qed
  then show ?thesis using that [of ?buf] out(2) assms(3) by auto
qed

lemma emit_nodes_fits:
  assumes "\<forall>nd \<in> set nds. nd_type nd = InstructionNode \<longrightarrow>
      fixed_width encode base m nd (width nd) \<and> resolved base m nd labels"
    and "\<forall>t k. grows t k" and "layout_nodes base sizes i nds c labs = (ls, c', labs')"
    and "sizes_fit sizes i nds" and "exact width sizes i nds" and "aligned_nodes nds"
    and "c + nodes_room nds < 2 ^ 64" and "c' \<le> length buf" and "c' \<le> m"
  shows "\<exists>buf' rs'. emit_nodes encode decode grows base labels nds ls (buf, rs) = Some (Inr (buf', rs')) \<and>
    length buf' = length buf"
  using assms(1,3-)
proof (induction nds arbitrary: i c labs ls buf rs)
  case (Cons nd nds)
  let ?n = "laid_size sizes i c nd"
  have r: "c + node_room nd < 2 ^ 64" using Cons.prems(6) by simp
  have n: "?n \<le> node_room nd" by (rule laid_size_room [OF Cons.prems(3) _ r]) (use Cons.prems(5) in simp)
  then have u: "usz (c + ?n) = c + ?n" using r by simp
  obtain ls' where ls: "layout_nodes base sizes (i + 1) nds (c + ?n) (place_label base c nd labs) = (ls', c', labs')"
    "ls = (c, ?n) # ls'"
    using Cons.prems(2) by (simp only: layout_nodes.simps Let_def u) (auto split: prod.splits)
  have fit: "sizes_fit sizes (i + 1) nds" and al: "aligned_nodes nds" and r': "c + ?n + nodes_room nds < 2 ^ 64"
    and ex: "exact width sizes (i + 1) nds" using Cons.prems(3-6) n by (simp_all add: sizes_fit_Cons exact_Cons)
  have l: "c + ?n \<le> length buf" "c \<le> m" using layout_nodes_bounds [OF ls(1) fit al r'] Cons.prems(7,8) by simp_all
  obtain b1 r1 where e: "emit_node encode decode grows base labels nd c ?n (buf, rs) = Some (Inr (b1, r1))"
    and b1: "length b1 = length buf"
  proof (cases "nd_type nd")
    case InstructionNode
    then have w: "?n = width nd" using Cons.prems(4) by (simp add: laid_size_def exact_Cons)
    have "fixed_width encode base m nd ?n" "resolved base m nd labels"
      using Cons.prems(1) InstructionNode w by simp_all
    from emit_instruction_fits [OF this l(1) assms(2) l(2)] show ?thesis
      using that InstructionNode by (metis emit_node_def node_type.simps(13))
  next
    case LabelNode then show ?thesis using that by (simp add: emit_node_def)
  next
    case DataNode
    then have "?n = length (nd_data nd)" using Cons.prems(3) by (simp add: laid_size_def sizes_fit_Cons)
    then show ?thesis
      using that DataNode l by (cases "nd_data nd = []") (simp_all add: emit_node_def store_bytes_def)
  next
    case AlignNode
    then show ?thesis using that l by (cases "?n = 0") (simp_all add: emit_node_def fill_bytes_def)
  qed
  show ?case
    using Cons.IH [OF _ ls(1) fit ex al r', of b1 r1] Cons.prems(1,7,8) b1 e ls(2) by auto
qed simp

lemma emit_sections_fits:
  assumes "\<forall>nd \<in> set (all_nodes ss). nd_type nd = InstructionNode \<longrightarrow>
      fixed_width encode base m nd (width nd) \<and> resolved base m nd labels"
    and "\<forall>t k. grows t k" and "layout_sections base sizes i ss c labs = (sls, nls, c', labs')"
    and "sizes_fit sizes i (all_nodes ss)" and "exact width sizes i (all_nodes ss)" and "aligned_sections ss"
    and "c + sections_room ss < 2 ^ 64" and "c' \<le> length buf" and "c' \<le> m"
  shows "\<exists>buf' rs'. emit_nodes encode decode grows base labels (all_nodes ss) nls (buf, rs) = Some (Inr (buf', rs'))"
  using assms(1,3-)
proof (induction ss arbitrary: i c labs sls nls buf rs)
  case (Cons s ss)
  let ?start = "c + padding c (cs_alignment s)"
  have p: "power_of_two (cs_alignment s)" "c + cs_alignment s < 2 ^ 64" using Cons.prems(5,6) by simp_all
  then have less: "padding c (cs_alignment s) < cs_alignment s"
    by (intro padding_less) (auto simp: power_of_two_def)
  obtain ls c1 l1 where l: "layout_nodes base sizes i (cs_nodes s) ?start labs = (ls, c1, l1)"
    by (cases "layout_nodes base sizes i (cs_nodes s) ?start labs") auto
  obtain sls' nls' where s: "layout_sections base sizes (i + length (cs_nodes s)) ss c1 l1 = (sls', nls', c', labs')"
    "nls = ls @ nls'"
    using Cons.prems(2) l by (auto simp: Let_def align_offset_eq [OF p] split: prod.splits)
  have fit: "sizes_fit sizes i (cs_nodes s)" "sizes_fit sizes (i + length (cs_nodes s)) (all_nodes ss)"
    and ex: "exact width sizes i (cs_nodes s)" "exact width sizes (i + length (cs_nodes s)) (all_nodes ss)"
    and al: "aligned_nodes (cs_nodes s)" "aligned_sections ss"
    using Cons.prems(3-5) by (simp_all add: sizes_fit_append exact_append)
  have ok: "\<forall>nd \<in> set (cs_nodes s). nd_type nd = InstructionNode \<longrightarrow>
      fixed_width encode base m nd (width nd) \<and> resolved base m nd labels"
    "\<forall>nd \<in> set (all_nodes ss). nd_type nd = InstructionNode \<longrightarrow>
      fixed_width encode base m nd (width nd) \<and> resolved base m nd labels"
    using Cons.prems(1) by simp_all
  have r: "?start + nodes_room (cs_nodes s) < 2 ^ 64" using Cons.prems(6) less by simp
  have b: "c1 \<le> ?start + nodes_room (cs_nodes s) \<and> length ls = length (cs_nodes s)"
    using layout_nodes_bounds [OF l fit(1) al(1) r] by simp
  have r2: "c1 + sections_room ss < 2 ^ 64" using Cons.prems(6) b less by simp
  have c1: "c1 \<le> c'" using layout_sections_bounds [OF s(1) fit(2) al(2) r2] by simp
  obtain b1 r1 where e: "emit_nodes encode decode grows base labels (cs_nodes s) ls (buf, rs) = Some (Inr (b1, r1))"
    "length b1 = length buf"
    using emit_nodes_fits [OF ok(1) assms(2) l fit(1) ex(1) al(1) r, of buf decode rs] Cons.prems(7,8) c1 by auto
  show ?case
    using Cons.IH [OF ok(2) s(1) fit(2) ex(2) al(2) r2, of b1 r1] Cons.prems(7,8) e b
    by (simp add: s(2) emit_nodes_append)
qed simp

section \<open>Assemble succeeds\<close>

text \<open>C21: a program is assembled when its branches are to labels that are bound, with an immediate operand to
  replace, each instruction has one size of encoding at all addresses inside the program (of as many bytes as
  \<open>sections_room\<close> allows for, from \<open>base\<close> on) and for all targets inside it, as near branches have in a program of
  less than two gigabytes, and addresses and memory suffice: the second pass finds the sizes of the first. A
  branch whose size depends on the distance, within the program, is not covered.\<close>

theorem Assemble_succeeds:
  assumes "built_program p" and "pg_sections p \<noteq> []" and "\<forall>t k. grows t k"
    and "\<forall>nd \<in> set (all_nodes (pg_sections p)). nd_has_target nd \<longrightarrow> IsLabelBound p (nd_target nd) \<and>
      (\<exists>v. OperandAt (nd_instruction nd) (nd_target_index nd) = Some v \<and> od_type v = ImmediateOperand)"
    and "\<forall>nd \<in> set (all_nodes (pg_sections p)). nd_type nd = InstructionNode \<longrightarrow>
      (\<exists>n. fixed_width encode base (sections_room (pg_sections p)) nd n)"
    and "unat base + sections_room (pg_sections p) < 2 ^ 64 - 1"
  shows "\<exists>ac. Assemble encode decode grows p base = Some (Inr ac)"
proof -
  let ?ss = "pg_sections p" and ?nds = "all_nodes (pg_sections p)" and ?m = "sections_room (pg_sections p)"
  have ok: "program_ok p" by (rule built_program_ok [OF assms(1)])
  note al = program_ok_aligned [OF ok]
  have r: "?m < 2 ^ 64" "0 + ?m < 2 ^ 64" using assms(6) by simp_all
  obtain width where w: "fixed_width encode base ?m nd (width nd)" if "nd \<in> set ?nds" "nd_type nd = InstructionNode" for nd
    using assms(5) by metis
  have valid: "\<forall>l \<in> set (bound_labels ?nds). l \<noteq> InvalidLabelId"
    using ok by (fastforce simp: program_ok_def node_ok_def bound_labels_def)
  have br: "branch_ok ?nds nd" if "nd \<in> set ?nds" for nd
    using assms(4) that ok by (auto simp: branch_ok_def IsLabelBound_def IsLabelValid_def program_ok_def)
  have dist: "distinct (bound_labels ?nds)" using ok by (simp add: program_ok_def)
  have ready: "\<forall>nd \<in> set ?nds. nd_type nd = InstructionNode \<longrightarrow>
      fixed_width encode base ?m nd (width nd) \<and> resolved base ?m nd labels"
    if "length ns = length ?nds" and "sizes_fit ns 0 ?nds" and "ComputeLayout base ns ?ss = (sls, ls, c, labels)"
    for ns sls ls c labels
    using w branch_resolves [OF br valid placed_labels [OF that(3,2) al dist valid assms(6)]] by blast
  let ?ns = "measured width ?nds (map initial_size ?nds)"
  have st: "settle encode base ?ss MaximumPasses (map initial_size ?nds) = Inr ?ns"
    by (rule settle_widths [OF ready _ _ al r(1) refl]) (simp_all add: initial_fit)
  have fit: "sizes_fit ?ns 0 ?nds"
    by (rule measured_fit) (use w in \<open>auto simp: initial_fit fixed_width_def\<close>)
  obtain sls ls c labels where l: "ComputeLayout base ?ns ?ss = (sls, ls, c, labels)"
    by (cases "ComputeLayout base ?ns ?ss") auto
  have c: "c \<le> ?m" using layout_sections_bounds [OF l [unfolded ComputeLayout_def] fit al r(2)] by simp
  obtain buf rs where "emit_nodes encode decode grows base labels ?nds ls (replicate c 0, []) = Some (Inr (buf, rs))"
    using emit_sections_fits [OF ready [OF _ fit l] assms(3) l [unfolded ComputeLayout_def] fit measured_exact al,
        of "replicate c 0" decode "[]"] r(2) c by auto
  then show ?thesis using assms(2,3) by (simp add: Assemble_def st l vector_of_def)
qed

text \<open>An encoder of near branches, which fails when the distance does not fit into 32 bits with its sign.\<close>

definition near_encode :: encoder where
  "near_encode i buf a =
     (let put = \<lambda>bs. if length bs \<le> length buf then (bs @ drop (length bs) buf, Inr (length bs))
                     else (buf, Inl BufferTooSmall)
      in case in_operands i of
           [] \<Rightarrow> put [0x90]
         | v # vs \<Rightarrow>
             (let d = im_absolute (od_immediate v) - (a + 5)
              in if - (2 ^ 31) \<le> sint d \<and> sint d < 2 ^ 31
                 then put [0xE9, ucast d, ucast (drop_bit 8 d), ucast (drop_bit 16 d), ucast (drop_bit 24 d)]
                 else (buf, Inl ImpossibleInstruction)))"

lemma near_distance:
  assumes "within base 52 a" and "within base 52 t"
  shows "- (2 ^ 31) \<le> sint (t - (a + 5) :: u64) \<and> sint (t - (a + 5)) < 2 ^ 31"
proof -
  obtain j k where jk: "j \<le> 52" "k \<le> 52" "a = base + of_nat j" "t = base + of_nat k"
    using assms by (auto simp: within_def)
  then have d: "t - (a + 5) = of_int (int k - int j - 5)" by simp
  have s: "sint (of_int (int k - int j - 5) :: u64) = int k - int j - 5"
    unfolding signed_of_int using jk(1,2) by (simp only: of_int_eq_id id_apply, intro signed_take_bit_int_eq_self) simp_all
  show ?thesis unfolding d s using jk(1,2) by simp
qed

lemma sample_widths:
  "fixed_width near_encode base 52 (node_Instruction (instruction_of MnNop)) 1"
  "fixed_width near_encode base 52 sample_branch 5"
  using near_distance [of base]
  by (auto simp: fixed_width_def MaximumLength_def ResolveInstruction_def near_encode_def
      sample_data OperandAt_def Let_def ImmediateRelative_def split: if_splits)

theorem Assemble_succeeds_witness: "\<exists>ac. Assemble near_encode sample_decode plenty sample_program 0x1000 = Some (Inr ac)"
proof (rule Assemble_succeeds [OF assembly_built])
  have nds: "all_nodes (pg_sections sample_program) = sample_nodes"
    by (simp add: sample_program_eq sample_section_simps)
  show "pg_sections sample_program \<noteq> []" by (simp add: sample_program_eq)
  show "\<forall>nd \<in> set (all_nodes (pg_sections sample_program)). nd_has_target nd \<longrightarrow> IsLabelBound sample_program (nd_target nd) \<and>
      (\<exists>v. OperandAt (nd_instruction nd) (nd_target_index nd) = Some v \<and> od_type v = ImmediateOperand)"
    unfolding nds by (simp add: sample_program_eq sample_data IsLabelBound_def IsLabelValid_def OperandAt_def)
  show "\<forall>nd \<in> set (all_nodes (pg_sections sample_program)). nd_type nd = InstructionNode \<longrightarrow>
      (\<exists>n. fixed_width near_encode 0x1000 (sections_room (pg_sections sample_program)) nd n)"
    unfolding nds sample_room using sample_widths by (auto simp: sample_nodes_def node_Label_def node_Data_def node_Align_def no_node_def)
  show "unat (0x1000 :: u64) + sections_room (pg_sections sample_program) < 2 ^ 64 - 1" by (simp add: sample_room)
qed simp

end
