(* ===== verification/StringView.thy ===== *)
theory StringView
  imports Prelude
begin

text \<open>
  \<^verbatim>\<open>Library/String/StringView.hpp\<close>. A view is a null pointer or a run of characters; the constructor
  makes the size of a null view 0. \<open>view_read\<close> is \<^verbatim>\<open>Data_[i]\<close>, without a result on a null pointer or
  past the end of the run, so that the theorems that a search has a result say that it stays inside
  both texts. The character type is any linear order: the loops compare with \<^verbatim>\<open><\<close> and \<^verbatim>\<open>==\<close> only.
\<close>

type_synonym 'c view = "'c list option"

definition chars :: "'c view \<Rightarrow> 'c list" where
  "chars v = (case v of None \<Rightarrow> [] | Some cs \<Rightarrow> cs)"

definition view_size :: "'c view \<Rightarrow> nat" where
  "view_size v = length (chars v)"

definition view_read :: "'c view \<Rightarrow> nat \<Rightarrow> 'c option" where
  "view_read v i = (if i < view_size v then Some (chars v ! i) else None)"

text \<open>\<open>Length\<close> counts up to the terminator of the text in memory; it leaves the memory when there is none.\<close>

fun cstr_length :: "'c::zero list \<Rightarrow> nat \<Rightarrow> nat option" where
  "cstr_length [] n = None"
| "cstr_length (c # memory) n = (if c \<noteq> 0 then cstr_length memory (n + 1) else Some n)"

definition view_Length :: "'c::zero view \<Rightarrow> nat option" where
  "view_Length text = (case text of None \<Rightarrow> Some 0 | Some memory \<Rightarrow> cstr_length memory 0)"

definition view_of_cstr :: "'c::zero view \<Rightarrow> 'c view option" where
  "view_of_cstr text = do { n \<leftarrow> view_Length text; Some (map_option (take n) text) }"

definition view_Front :: "'c::zero view \<Rightarrow> 'c option" where
  "view_Front v = (if view_size v \<noteq> 0 then view_read v 0 else Some 0)"

definition view_Back :: "'c::zero view \<Rightarrow> 'c option" where
  "view_Back v = (if view_size v \<noteq> 0 then view_read v (view_size v - 1) else Some 0)"

definition view_At :: "'c::zero view \<Rightarrow> nat \<Rightarrow> 'c option" where
  "view_At v i = (if v = None \<or> i \<ge> view_size v then Some 0 else view_read v i)"

definition view_RemovePrefix :: "'c view \<Rightarrow> nat \<Rightarrow> 'c view" where
  "view_RemovePrefix v n =
     (let cnt = (if n > view_size v then view_size v else n)
      in case v of None \<Rightarrow> None | Some cs \<Rightarrow> Some (drop cnt cs))"

definition view_RemoveSuffix :: "'c view \<Rightarrow> nat \<Rightarrow> 'c view" where
  "view_RemoveSuffix v n =
     (let cnt = (if n > view_size v then view_size v else n)
      in map_option (take (view_size v - cnt)) v)"

definition view_Substr :: "'c view \<Rightarrow> nat \<Rightarrow> nat \<Rightarrow> 'c view" where
  "view_Substr v position n =
     (if v = None \<or> position \<ge> view_size v then None
      else
        (let available = view_size v - position;
             cnt = (if n = NotFound \<or> n > available then available else n)
         in Some (take cnt (drop position (chars v)))))"

definition view_StartsWith :: "'c view \<Rightarrow> 'c view \<Rightarrow> bool option" where
  "view_StartsWith v prefix =
     (if view_size prefix > view_size v then Some False
      else loop_all [0..<view_size prefix]
        (\<lambda>i. do { x \<leftarrow> view_read v i; y \<leftarrow> view_read prefix i; Some (x = y) }))"

definition view_EndsWith :: "'c view \<Rightarrow> 'c view \<Rightarrow> bool option" where
  "view_EndsWith v suffix =
     (if view_size suffix > view_size v then Some False
      else
        (let offset = view_size v - view_size suffix
         in loop_all [0..<view_size suffix]
              (\<lambda>i. do { x \<leftarrow> view_read v (offset + i); y \<leftarrow> view_read suffix i; Some (x = y) })))"

definition view_FindChar :: "'c view \<Rightarrow> 'c \<Rightarrow> nat \<Rightarrow> nat option" where
  "view_FindChar v c position =
     (if v = None \<or> position \<ge> view_size v then Some NotFound
      else
        do { found \<leftarrow> loop_find [position..<view_size v] (\<lambda>i. do { x \<leftarrow> view_read v i; Some (x = c) });
             Some (case found of None \<Rightarrow> NotFound | Some i \<Rightarrow> i) })"

text \<open>The inner loop of the text searches: whether \<open>text\<close> stands at index \<open>i\<close>.\<close>

definition match_at :: "'c view \<Rightarrow> 'c view \<Rightarrow> nat \<Rightarrow> bool option" where
  "match_at v text i =
     loop_all [0..<view_size text]
       (\<lambda>j. do { x \<leftarrow> view_read v (i + j); y \<leftarrow> view_read text j; Some (x = y) })"

definition view_Find :: "'c view \<Rightarrow> 'c view \<Rightarrow> nat \<Rightarrow> nat option" where
  "view_Find v text position =
     (if v = None \<or> text = None \<or> position > view_size v then Some NotFound
      else if view_size text = 0 then Some position
      else if view_size text > view_size v \<or> position > view_size v - view_size text
      then Some NotFound
      else
        do { found \<leftarrow> loop_find [position..<view_size v - view_size text + 1] (match_at v text);
             Some (case found of None \<Rightarrow> NotFound | Some i \<Rightarrow> i) })"

definition view_Contains :: "'c view \<Rightarrow> 'c view \<Rightarrow> bool option" where
  "view_Contains v text = do { i \<leftarrow> view_Find v text 0; Some (i \<noteq> NotFound) }"

definition view_FindLastChar :: "'c view \<Rightarrow> 'c \<Rightarrow> nat \<Rightarrow> nat option" where
  "view_FindLastChar v c position =
     (if view_size v = 0 then Some NotFound
      else
        (let start = (if position = NotFound \<or> position \<ge> view_size v then view_size v
                      else position + 1)
         in do { found \<leftarrow> loop_find (rev [0..<start]) (\<lambda>i. do { x \<leftarrow> view_read v i; Some (x = c) });
                 Some (case found of None \<Rightarrow> NotFound | Some i \<Rightarrow> i) }))"

definition view_FindLast :: "'c view \<Rightarrow> 'c view \<Rightarrow> nat \<Rightarrow> nat option" where
  "view_FindLast v text position =
     (if view_size text = 0 then Some (if position < view_size v then position else view_size v)
      else if view_size text > view_size v then Some NotFound
      else
        (let start = view_size v - view_size text;
             start = (if position \<noteq> NotFound \<and> position < start then position else start)
         in do { found \<leftarrow> loop_find (rev [0..<start + 1]) (match_at v text);
                 Some (case found of None \<Rightarrow> NotFound | Some i \<Rightarrow> i) }))"

text \<open>The loop of \<open>Compare\<close> returns from its middle; \<open>compare_from is\<close> is the rest of it over the
  indices \<open>is\<close>, and then the comparison of the sizes.\<close>

fun compare_from :: "nat list \<Rightarrow> ('c::linorder) view \<Rightarrow> 'c view \<Rightarrow> int option" where
  "compare_from [] v w =
     Some (if view_size v < view_size w then - 1 else if view_size v > view_size w then 1 else 0)"
| "compare_from (i # is) v w =
     do { x \<leftarrow> view_read v i;
          y \<leftarrow> view_read w i;
          if x < y then Some (- 1) else if x > y then Some 1 else compare_from is v w }"

definition view_Compare :: "('c::linorder) view \<Rightarrow> 'c view \<Rightarrow> int option" where
  "view_Compare v w =
     compare_from [0..<(if view_size v < view_size w then view_size v else view_size w)] v w"

section \<open>Lemmas\<close>

lemma view_read_Some [simp]: "i < view_size v \<Longrightarrow> view_read v i = Some (chars v ! i)"
  by (simp add: view_read_def)

lemma view_size_chars: "view_size v = length (chars v)"
  by (simp add: view_size_def)

definition occurs_at :: "'c list \<Rightarrow> nat \<Rightarrow> 'c list \<Rightarrow> bool" where
  "occurs_at cs i ts \<longleftrightarrow> take (length ts) (drop i cs) = ts"

lemma occurs_at_nth:
  "i + length ts \<le> length cs \<Longrightarrow> occurs_at cs i ts \<longleftrightarrow> (\<forall>j < length ts. cs ! (i + j) = ts ! j)"
  unfolding occurs_at_def by (auto simp: list_eq_iff_nth_eq)

lemma occurs_at_bound: "occurs_at cs i ts \<Longrightarrow> ts \<noteq> [] \<Longrightarrow> i + length ts \<le> length cs"
  unfolding occurs_at_def by (drule arg_cong [where f = length]) (cases ts, auto simp: min_def split: if_splits)

lemma match_at_occurs:
  assumes "i + view_size text \<le> view_size v"
  shows "match_at v text i = Some (occurs_at (chars v) i (chars text))"
proof -
  have "match_at v text i = Some (\<forall>j \<in> set [0..<view_size text]. chars v ! (i + j) = chars text ! j)"
    unfolding match_at_def by (rule loop_all_eq) (use assms in auto)
  then show ?thesis using assms by (auto simp: occurs_at_nth view_size_chars)
qed

lemma view_StartsWith_take:
  "view_StartsWith v prefix = Some (take (view_size prefix) (chars v) = chars prefix)"
proof (cases "view_size prefix \<le> view_size v")
  case True
  with match_at_occurs [of 0 prefix v] show ?thesis
    by (simp add: view_StartsWith_def match_at_def occurs_at_def view_size_chars)
next
  case False
  then show ?thesis
    by (auto simp: view_StartsWith_def view_size_chars dest!: arg_cong [where f = length])
qed

lemma view_EndsWith_drop:
  "view_EndsWith v suffix = Some (\<exists>cs. chars v = cs @ chars suffix)"
proof (cases "view_size suffix \<le> view_size v")
  case True
  then have "view_EndsWith v suffix =
      Some (occurs_at (chars v) (view_size v - view_size suffix) (chars suffix))"
    using match_at_occurs [of "view_size v - view_size suffix" suffix v]
    by (simp add: view_EndsWith_def match_at_def)
  moreover have "occurs_at (chars v) (view_size v - view_size suffix) (chars suffix) \<longleftrightarrow>
      (\<exists>cs. chars v = cs @ chars suffix)"
  proof
    assume "occurs_at (chars v) (view_size v - view_size suffix) (chars suffix)"
    with True have "drop (view_size v - view_size suffix) (chars v) = chars suffix"
      by (simp add: occurs_at_def view_size_chars)
    then show "\<exists>cs. chars v = cs @ chars suffix" by (metis append_take_drop_id)
  qed (use True in \<open>auto simp: occurs_at_def view_size_chars\<close>)
  ultimately show ?thesis by simp
next
  case False
  then show ?thesis by (auto simp: view_EndsWith_def view_size_chars)
qed

lemma case_found:
  "(case f of None \<Rightarrow> NotFound | Some i \<Rightarrow> i) = r \<longleftrightarrow> (f = None \<and> r = NotFound) \<or> f = Some r"
  by (auto split: option.splits)

lemma view_Find_search:
  assumes "v \<noteq> None" "text \<noteq> None" and "chars text \<noteq> []"
    and "view_size text \<le> view_size v" and "p \<le> view_size v - view_size text"
  shows "view_Find v text p = Some (case find (\<lambda>i. occurs_at (chars v) i (chars text))
      [p..<view_size v - view_size text + 1] of None \<Rightarrow> NotFound | Some i \<Rightarrow> i)"
proof -
  have "loop_find [p..<view_size v - view_size text + 1] (match_at v text) =
      Some (find (\<lambda>i. occurs_at (chars v) i (chars text)) [p..<view_size v - view_size text + 1])"
    by (rule loop_find_eq, rule match_at_occurs) (use assms in auto)
  with assms show ?thesis by (auto simp: view_Find_def view_size_chars simp del: upt_Suc)
qed

lemma view_FindLast_search:
  fixes p :: nat
  assumes "chars text \<noteq> []" and "view_size text \<le> view_size v"
  defines "start \<equiv> (if p \<noteq> NotFound \<and> p < view_size v - view_size text then p
                    else view_size v - view_size text)"
  shows "view_FindLast v text p = Some (case find (\<lambda>i. occurs_at (chars v) i (chars text))
      (rev [0..<start + 1]) of None \<Rightarrow> NotFound | Some i \<Rightarrow> i)"
proof -
  have "start + view_size text \<le> view_size v" using assms(2) by (auto simp: start_def)
  then have "loop_find (rev [0..<start + 1]) (match_at v text) =
      Some (find (\<lambda>i. occurs_at (chars v) i (chars text)) (rev [0..<start + 1]))"
    by (intro loop_find_eq match_at_occurs) (auto simp: less_Suc_eq_le simp del: upt_Suc)
  with assms(1,2) show ?thesis
    unfolding view_FindLast_def Let_def start_def [symmetric]
    by (simp add: view_size_chars del: upt_Suc)
qed

lemma compare_from_drop:
  assumes "view_size v < size_max" "view_size w < size_max"
    and "n = min (view_size v) (view_size w)" and "i \<le> n"
  shows "compare_from [i..<n] v w = Some (if ord_class.lexordp (drop i (chars v)) (drop i (chars w)) then - 1
      else if ord_class.lexordp (drop i (chars w)) (drop i (chars v)) then 1 else 0)"
  using assms(4)
proof (induction "n - i" arbitrary: i)
  case 0
  with assms(3) have "i = n" "drop i (chars v) = [] \<or> drop i (chars w) = []"
    by (auto simp: view_size_chars)
  with assms(3) show ?case
    by (auto simp: view_size_chars lexordp_simps neq_Nil_conv min_def split: if_splits)
next
  case (Suc d)
  then have i: "i < n" "i < view_size v" "i < view_size w" using assms(3) by auto
  have IH: "compare_from [Suc i..<n] v w = Some (if ord_class.lexordp (drop (Suc i) (chars v)) (drop (Suc i) (chars w))
      then - 1 else if ord_class.lexordp (drop (Suc i) (chars w)) (drop (Suc i) (chars v)) then 1 else 0)"
    using Suc.hyps(2) i(1) by (intro Suc.hyps(1)) auto
  have d: "drop i (chars v) = chars v ! i # drop (Suc i) (chars v)"
    "drop i (chars w) = chars w ! i # drop (Suc i) (chars w)"
    using i by (simp_all add: Cons_nth_drop_Suc view_size_chars)
  show ?case
    using i IH by (auto simp: upt_conv_Cons d lexordp_simps)
qed

section \<open>Properties\<close>

text \<open>C35: \<open>Find\<close> and \<open>FindLast\<close> of a text. Neither reads outside the two texts. For a text that is not
  empty, \<open>Find\<close> returns the least index from \<open>position\<close> on at which it occurs and \<open>NotFound\<close> when
  there is none; \<open>FindLast\<close> returns the greatest index up to \<open>position\<close> (\<open>NotFound\<close>, the default,
  meaning no limit) and \<open>NotFound\<close> when there is none.\<close>

theorem Find_occurrences:
  assumes "v \<noteq> None" and "text \<noteq> None" and "chars text \<noteq> []" and "view_size v < size_max"
  shows "\<exists>r s. view_Find v text p = Some r \<and> view_FindLast v text p = Some s \<and>
    (if \<exists>i \<ge> p. occurs_at (chars v) i (chars text)
     then occurs_at (chars v) r (chars text) \<and> p \<le> r \<and>
       (\<forall>i. p \<le> i \<and> i < r \<longrightarrow> \<not> occurs_at (chars v) i (chars text))
     else r = NotFound) \<and>
    (if \<exists>i \<le> p. occurs_at (chars v) i (chars text)
     then occurs_at (chars v) s (chars text) \<and> s \<le> p \<and>
       (\<forall>i. s < i \<and> i \<le> p \<longrightarrow> \<not> occurs_at (chars v) i (chars text))
     else s = NotFound)"
proof -
  let ?occ = "\<lambda>i. occurs_at (chars v) i (chars text)"
  have bound: "i + view_size text \<le> view_size v" if "?occ i" for i
    using occurs_at_bound [OF that assms(3)] by (simp add: view_size_chars)
  show ?thesis
  proof (cases "view_size text \<le> view_size v")
    case False
    with bound have none: "\<not> ?occ i" for i using add_leE by blast
    have "view_Find v text p = Some NotFound" "view_FindLast v text p = Some NotFound"
      using False assms(1-3) by (auto simp: view_Find_def view_FindLast_def view_size_chars)
    with none show ?thesis by auto
  next
    case True
    let ?last = "view_size v - view_size text"
    have "\<exists>r. view_Find v text p = Some r \<and> (if \<exists>i \<ge> p. ?occ i
        then ?occ r \<and> p \<le> r \<and> (\<forall>i. p \<le> i \<and> i < r \<longrightarrow> \<not> ?occ i) else r = NotFound)"
    proof (cases "p \<le> ?last")
      case False
      with bound have "\<not> (\<exists>i \<ge> p. ?occ i)" by (metis le_diff_conv2 True le_trans)
      moreover have "view_Find v text p = Some NotFound"
        using False True assms(1-3) by (auto simp: view_Find_def view_size_chars)
      ultimately show ?thesis by auto
    next
      case p: True
      show ?thesis
      proof (cases "find ?occ [p..<?last + 1]")
        case None
        then have "\<not> (\<exists>i \<ge> p. ?occ i)"
          using bound True unfolding find_upt_None
          by (metis less_Suc_eq_le Suc_eq_plus1 le_diff_conv2)
        with None view_Find_search [OF assms(1-3) True p] show ?thesis by auto
      next
        case (Some r)
        then have "p \<le> r" "?occ r" "\<forall>k. p \<le> k \<and> k < r \<longrightarrow> \<not> ?occ k"
          unfolding find_upt_Some by blast+
        with Some view_Find_search [OF assms(1-3) True p] show ?thesis by auto
      qed
    qed
    moreover have "\<exists>s. view_FindLast v text p = Some s \<and> (if \<exists>i \<le> p. ?occ i
        then ?occ s \<and> s \<le> p \<and> (\<forall>i. s < i \<and> i \<le> p \<longrightarrow> \<not> ?occ i) else s = NotFound)"
    proof -
      define start where "start = (if p \<noteq> NotFound \<and> p < ?last then p else ?last)"
      have lim: "i \<le> start \<longleftrightarrow> i \<le> p" if "?occ i" for i
        using bound [OF that] assms(4) by (auto simp: start_def)
      have sp: "start \<le> p" using assms(4) by (auto simp: start_def)
      note res = view_FindLast_search [OF assms(3) True, of p, folded start_def]
      show ?thesis
      proof (cases "find ?occ (rev [0..<start + 1])")
        case None
        then have "\<not> (\<exists>i \<le> p. ?occ i)"
          unfolding find_rev_upt_None using lim by (metis less_Suc_eq_le Suc_eq_plus1)
        with None res show ?thesis by auto
      next
        case (Some s)
        then have s: "s < start + 1" "?occ s" "\<forall>k. s < k \<and> k < start + 1 \<longrightarrow> \<not> ?occ k"
          unfolding find_rev_upt_Some by blast+
        then have "s \<le> p" "\<forall>i. s < i \<and> i \<le> p \<longrightarrow> \<not> ?occ i"
          using lim sp by (auto simp: less_Suc_eq_le)
        with Some s(2) res show ?thesis by auto
      qed
    qed
    ultimately show ?thesis by blast
  qed
qed

theorem Find_occurrences_witness:
  "\<exists>r s. view_Find (Some ''banana'') (Some ''an'') 2 = Some r \<and>
    view_FindLast (Some ''banana'') (Some ''an'') 2 = Some s \<and>
    (if \<exists>i \<ge> 2. occurs_at ''banana'' i ''an''
     then occurs_at ''banana'' r ''an'' \<and> 2 \<le> r \<and>
       (\<forall>i. 2 \<le> i \<and> i < r \<longrightarrow> \<not> occurs_at ''banana'' i ''an'')
     else r = NotFound) \<and>
    (if \<exists>i \<le> 2. occurs_at ''banana'' i ''an''
     then occurs_at ''banana'' s ''an'' \<and> s \<le> 2 \<and>
       (\<forall>i. s < i \<and> i \<le> 2 \<longrightarrow> \<not> occurs_at ''banana'' i ''an'')
     else s = NotFound)"
  by (rule Find_occurrences [of "Some ''banana''" "Some ''an''" 2, unfolded chars_def option.case])
    (simp_all add: chars_def view_size_def size_max_def)

lemma view_Compare_eq:
  assumes "view_size v < size_max" and "view_size w < size_max"
  shows "view_Compare v w = Some (if ord_class.lexordp (chars v) (chars w) then - 1
      else if ord_class.lexordp (chars w) (chars v) then 1 else 0)"
proof -
  have "view_Compare v w = compare_from [0..<min (view_size v) (view_size w)] v w"
    by (simp add: view_Compare_def min_def)
  also have "\<dots> = Some (if ord_class.lexordp (chars v) (chars w) then - 1
      else if ord_class.lexordp (chars w) (chars v) then 1 else 0)"
    using compare_from_drop [OF assms refl, of 0] by simp
  finally show ?thesis .
qed

text \<open>\<open>Compare\<close> is the lexicographic order of the characters: \<open>- 1\<close> when the first text is smaller,
  \<open>1\<close> when the second is, and 0 exactly when the characters are the same (a null view compares as
  the empty text).\<close>

theorem Compare_lexicographic:
  assumes "view_size v < size_max" and "view_size w < size_max"
  shows "view_Compare v w = Some (if ord_class.lexordp (chars v) (chars w) then - 1
      else if chars v = chars w then 0 else 1)"
  unfolding view_Compare_eq [OF assms]
  using lexordp_linear [of "chars v" "chars w"] lexordp_irreflexive' [of "chars v"] by auto

theorem Compare_lexicographic_witness: "view_Compare (Some [3, 1]) (Some [3 :: nat]) = Some 1"
  using Compare_lexicographic [of "Some [3, 1]" "Some [3 :: nat]"]
  by (simp add: chars_def view_size_def size_max_def lexordp_simps)

end
