(* ===== verification/BasicString.thy ===== *)
theory BasicString
  imports Vector StringView
begin

text \<open>
  \<^verbatim>\<open>Library/String/BasicString.hpp\<close>: a string is a vector of characters, ended by the character 0,
  and a size that does not count it. A default-constructed string has no storage at all. The
  operations are the source's, over the vector operations of theory Vector. An argument of type
  \<^verbatim>\<open>ViewType\<close> is the list of references to its characters, so that a view of the string itself can be
  told from a view of other memory.
\<close>

record 'c bstr =
  storage :: "'c vec"
  bsize :: nat

definition str_empty :: "nat \<Rightarrow> bool \<Rightarrow> 'c bstr" where
  "str_empty sz al = \<lparr>storage = vec_empty sz al, bsize = 0\<rparr>"

definition str_EnsureNullTerminated ::
  "(nat \<Rightarrow> bool) \<Rightarrow> 'c::zero bstr \<Rightarrow> ('c bstr \<times> bool) option" where
  "str_EnsureNullTerminated alloc s =
     (if vcap (storage s) = 0 then Some (s, True)
      else
        do { (v, ok) \<leftarrow> (if vsize (storage s) < bsize s + 1
                       then vec_Resize alloc (storage s) (bsize s + 1) (Temp 0)
                       else Some (storage s, True));
             if \<not> ok then Some (s\<lparr>storage := v\<rparr>, False)
             else do { v \<leftarrow> storage_set v (bsize s) 0; Some (s\<lparr>storage := v\<rparr>, True) } })"

definition str_Reserve :: "(nat \<Rightarrow> bool) \<Rightarrow> 'c::zero bstr \<Rightarrow> nat \<Rightarrow> ('c bstr \<times> bool) option" where
  "str_Reserve alloc s n =
     do { (v, ok) \<leftarrow> vec_Reserve alloc (storage s) n;
          if \<not> ok then Some (s\<lparr>storage := v\<rparr>, False)
          else str_EnsureNullTerminated alloc (s\<lparr>storage := v\<rparr>) }"

definition str_Resize ::
  "(nat \<Rightarrow> bool) \<Rightarrow> 'c::zero bstr \<Rightarrow> nat \<Rightarrow> 'c \<Rightarrow> ('c bstr \<times> bool) option" where
  "str_Resize alloc s n c =
     do { (v, ok) \<leftarrow> vec_Resize alloc (storage s) (usz (n + 1)) (Temp 0);
          if \<not> ok then Some (s\<lparr>storage := v\<rparr>, False)
          else
            do { v \<leftarrow> (if n > bsize s then for_up (bsize s) n (\<lambda>i v. storage_set v i c) v else Some v);
                 v \<leftarrow> storage_set v n 0;
                 Some (\<lparr>storage = v, bsize = n\<rparr>, True) } }"

definition str_Clear :: "(nat \<Rightarrow> bool) \<Rightarrow> 'c::zero bstr \<Rightarrow> 'c bstr option" where
  "str_Clear alloc s =
     do { v \<leftarrow> (if vcap (storage s) \<noteq> 0 then
                 do { (v, _) \<leftarrow> vec_Resize alloc (storage s) 1 (Temp 0); storage_set v 0 0 }
               else Some (storage s));
          Some \<lparr>storage = v, bsize = 0\<rparr> }"

text \<open>\<^verbatim>\<open>Storage_[at + i] = View[i]\<close> for each \<open>i\<close>. The reference is read after the storage has been
  resized.\<close>

definition copy_view :: "nat \<Rightarrow> 'c cref list \<Rightarrow> 'c vec \<Rightarrow> 'c vec option" where
  "copy_view at view v =
     for_up 0 (length view) (\<lambda>i v. do { x \<leftarrow> deref v (view ! i); storage_set v (at + i) x }) v"

definition str_Assign ::
  "(nat \<Rightarrow> bool) \<Rightarrow> 'c::zero bstr \<Rightarrow> 'c cref list \<Rightarrow> ('c bstr \<times> bool) option" where
  "str_Assign alloc s view =
     do { (v, ok) \<leftarrow> vec_Resize alloc (storage s) (usz (length view + 1)) (Temp 0);
          if \<not> ok then Some (s\<lparr>storage := v\<rparr>, False)
          else
            do { v \<leftarrow> copy_view 0 view v;
                 v \<leftarrow> storage_set v (length view) 0;
                 Some (\<lparr>storage = v, bsize = length view\<rparr>, True) } }"

definition str_Append ::
  "(nat \<Rightarrow> bool) \<Rightarrow> 'c::zero bstr \<Rightarrow> 'c cref list \<Rightarrow> ('c bstr \<times> bool) option" where
  "str_Append alloc s view =
     (if view = [] then Some (s, True)
      else
        (let new_size = usz (bsize s + length view)
         in do { (v, ok) \<leftarrow> vec_Resize alloc (storage s) (usz (new_size + 1)) (Temp 0);
                 if \<not> ok then Some (s\<lparr>storage := v\<rparr>, False)
                 else
                   do { v \<leftarrow> copy_view (bsize s) view v;
                        v \<leftarrow> storage_set v new_size 0;
                        Some (\<lparr>storage = v, bsize = new_size\<rparr>, True) } }))"

definition str_AppendChar ::
  "(nat \<Rightarrow> bool) \<Rightarrow> 'c::zero bstr \<Rightarrow> 'c \<Rightarrow> ('c bstr \<times> bool) option" where
  "str_AppendChar alloc s c =
     do { (v, ok) \<leftarrow> vec_Resize alloc (storage s) (usz (bsize s + 2)) (Temp 0);
          if \<not> ok then Some (s\<lparr>storage := v\<rparr>, False)
          else
            do { v \<leftarrow> storage_set v (bsize s) c;
                 v \<leftarrow> storage_set v (bsize s + 1) 0;
                 Some (\<lparr>storage = v, bsize = bsize s + 1\<rparr>, True) } }"

definition str_PushBack ::
  "(nat \<Rightarrow> bool) \<Rightarrow> 'c::zero bstr \<Rightarrow> 'c \<Rightarrow> ('c bstr \<times> bool) option" where
  "str_PushBack alloc s c = str_AppendChar alloc s c"

definition str_Insert ::
  "(nat \<Rightarrow> bool) \<Rightarrow> 'c::zero bstr \<Rightarrow> nat \<Rightarrow> 'c cref list \<Rightarrow> ('c bstr \<times> bool) option" where
  "str_Insert alloc s position view =
     (if position > bsize s then Some (s, False)
      else if view = [] then Some (s, True)
      else
        do { (v, ok) \<leftarrow> vec_Resize alloc (storage s) (usz (bsize s + length view + 1)) (Temp 0);
             if \<not> ok then Some (s\<lparr>storage := v\<rparr>, False)
             else
               do { v \<leftarrow> for_down (bsize s + 1) position
                      (\<lambda>i v. do { x \<leftarrow> storage_get v (i - 1); storage_set v (i + length view - 1) x }) v;
                    v \<leftarrow> copy_view position view v;
                    v \<leftarrow> storage_set v (bsize s + length view) 0;
                    Some (\<lparr>storage = v, bsize = bsize s + length view\<rparr>, True) } })"

definition str_InsertChar ::
  "(nat \<Rightarrow> bool) \<Rightarrow> 'c::zero bstr \<Rightarrow> nat \<Rightarrow> 'c \<Rightarrow> ('c bstr \<times> bool) option" where
  "str_InsertChar alloc s position c = str_Insert alloc s position [Temp c]"

definition str_Erase ::
  "(nat \<Rightarrow> bool) \<Rightarrow> 'c::zero bstr \<Rightarrow> nat \<Rightarrow> nat \<Rightarrow> ('c bstr \<times> bool) option" where
  "str_Erase alloc s position n =
     (if position > bsize s then Some (s, False)
      else
        (let available = bsize s - position;
             cnt = (if n > available then available else n)
         in do { v \<leftarrow> for_up position (bsize s - cnt + 1)
                   (\<lambda>i v. do { x \<leftarrow> storage_get v (i + cnt); storage_set v i x }) (storage s);
                 (v, _) \<leftarrow> vec_Resize alloc v (bsize s - cnt + 1) (Temp 0);
                 v \<leftarrow> storage_set v (bsize s - cnt) 0;
                 Some (\<lparr>storage = v, bsize = bsize s - cnt\<rparr>, True) }))"

definition str_PopBack :: "(nat \<Rightarrow> bool) \<Rightarrow> 'c::zero bstr \<Rightarrow> 'c bstr option" where
  "str_PopBack alloc s =
     (if bsize s = 0 then Some s
      else
        do { (v, _) \<leftarrow> vec_Resize alloc (storage s) (bsize s - 1 + 1) (Temp 0);
             v \<leftarrow> storage_set v (bsize s - 1) 0;
             Some \<lparr>storage = v, bsize = bsize s - 1\<rparr> })"

text \<open>\<open>Data() const\<close> points to a static terminator when there is no storage, so the view of a string is
  never null; \<open>CStr\<close> is that memory.\<close>

definition str_CStr :: "'c::zero bstr \<Rightarrow> 'c list" where
  "str_CStr s = (if vcap (storage s) \<noteq> 0 then vec_items (storage s) else [0])"

definition str_View :: "'c::zero bstr \<Rightarrow> 'c view" where
  "str_View s = Some (take (bsize s) (str_CStr s))"

definition str_Front :: "'c::zero bstr \<Rightarrow> 'c option" where
  "str_Front s = (if bsize s \<noteq> 0 then storage_get (storage s) 0 else Some 0)"

definition str_Back :: "'c::zero bstr \<Rightarrow> 'c option" where
  "str_Back s = (if bsize s \<noteq> 0 then storage_get (storage s) (bsize s - 1) else Some 0)"

definition str_Substr :: "(nat \<Rightarrow> bool) \<Rightarrow> 'c::zero bstr \<Rightarrow> nat \<Rightarrow> nat \<Rightarrow> 'c bstr option" where
  "str_Substr alloc s position n =
     do { (t, _) \<leftarrow> str_Assign alloc (str_empty (esize (storage s)) (has_alloc (storage s)))
                     (map Temp (chars (view_Substr (str_View s) position n)));
          Some t }"

definition str_Compare :: "('c::{zero,linorder}) bstr \<Rightarrow> 'c view \<Rightarrow> int option" where
  "str_Compare s other = view_Compare (str_View s) other"

definition str_Find :: "'c::zero bstr \<Rightarrow> 'c view \<Rightarrow> nat \<Rightarrow> nat option" where
  "str_Find s text position = view_Find (str_View s) text position"

definition str_FindLast :: "'c::zero bstr \<Rightarrow> 'c view \<Rightarrow> nat \<Rightarrow> nat option" where
  "str_FindLast s text position = view_FindLast (str_View s) text position"

lemma copy_view_rep:
  assumes "vec_rep v xs" and "at + length ys \<le> length xs"
  shows "\<exists>v'. copy_view at (map Temp ys) v = Some v' \<and> vec_rep v' (overwrite at ys xs) \<and> vec_kept v v'"
  unfolding copy_view_def length_map by (rule overwrite_run [OF assms]) simp

lemma fill_rep:
  assumes "vec_rep v xs" and "at \<le> n" and "n \<le> length xs"
  shows "\<exists>v'. for_up at n (\<lambda>i v. storage_set v i c) v = Some v' \<and>
    vec_rep v' (overwrite at (replicate (n - at) c) xs) \<and> vec_kept v v'"
proof -
  let ?I = "\<lambda>i w. vec_rep w (overwrite at (replicate (i - at) c) xs) \<and> vec_kept v w"
  have "\<exists>v'. for_up at n (\<lambda>i v. storage_set v i c) v = Some v' \<and> ?I n v'"
  proof (rule for_up_rule [where I = ?I])
    show "?I at v" using assms(1) by (simp add: overwrite_def)
  next
    fix i w assume i: "at \<le> i" "i < n" "?I i w"
    then have "i < length (overwrite at (replicate (i - at) c) xs)" using assms(3) by simp
    from storage_set_rep [OF conjunct1 [OF i(3)] this, of c] i
    show "\<exists>w'. storage_set w i c = Some w' \<and> ?I (Suc i) w'"
      using overwrite_snoc [of at "replicate (i - at) c" xs c] assms(3)
      by (auto simp: Suc_diff_le replicate_append_same intro: vec_kept_trans)
  qed (use assms in auto)
  then show ?thesis by simp
qed

text \<open>Shifting the tail up by \<open>n\<close> within the storage, from its end.\<close>

lemma shift_tail_up:
  assumes "vec_rep v (xs @ zs)" and "position \<le> length xs" and "length zs = n" and "0 < n"
  shows "\<exists>v' ys. for_down (length xs) position
      (\<lambda>i v. do { x \<leftarrow> storage_get v (i - 1); storage_set v (i + n - 1) x }) v = Some v' \<and>
    vec_rep v' ys \<and> length ys = length xs + n \<and> take position ys = take position xs \<and>
    drop (position + n) ys = drop position xs \<and> vec_kept v v'"
proof -
  let ?I = "\<lambda>i w. \<exists>ys. vec_rep w ys \<and> length ys = length xs + n \<and> take i ys = take i xs \<and>
      drop (i + n) ys = drop i xs \<and> vec_kept v w"
  let ?body = "\<lambda>i v. do { x \<leftarrow> storage_get v (i - 1); storage_set v (i + n - 1) x }"
  have "\<exists>v'. for_down (length xs) position ?body v = Some v' \<and> ?I position v'"
  proof (rule for_down_rule [where I = ?I])
    show "?I (length xs) v" using assms by (intro exI [of _ "xs @ zs"]) simp
  next
    fix i w assume i: "position < i" "i \<le> length xs" "?I i w"
    then obtain ys where ys: "vec_rep w ys" "length ys = length xs + n" "take i ys = take i xs"
      "drop (i + n) ys = drop i xs" "vec_kept v w" by blast
    have get: "storage_get w (i - 1) = Some (xs ! (i - 1))"
      using storage_get_rep [OF ys(1), of "i - 1"] i(1,2) ys(2)
        nth_take [of "i - 1" i ys] nth_take [of "i - 1" i xs] ys(3) by simp
    have "i + n - 1 < length ys" using i ys(2) assms(4) by simp
    from storage_set_rep [OF ys(1) this, of "xs ! (i - 1)"] obtain w' where
      w': "storage_set w (i + n - 1) (xs ! (i - 1)) = Some w'"
        "vec_rep w' (ys[i + n - 1 := xs ! (i - 1)])" "vec_kept w w'" by blast
    have "take (i - 1) (ys[i + n - 1 := xs ! (i - 1)]) = take (i - 1) xs"
      using ys(3) i(1) assms(4) by (simp add: take_update_cancel) (metis Suc_diff_1 diff_le_self min.absorb1 not_gr_zero not_less_zero take_take)
    moreover have "drop (i - 1 + n) (ys[i + n - 1 := xs ! (i - 1)]) = drop (i - 1) xs"
      using i(1,2) ys(2,4) assms(4)
      by (cases i) (simp_all add: drop_update_swap drop_nth_Cons)
    ultimately show "\<exists>w'. ?body i w = Some w' \<and> ?I (i - 1) w'"
      using get w' ys(2,5) by (auto intro!: exI [of _ "ys[i + n - 1 := xs ! (i - 1)]"] intro: vec_kept_trans)
  qed (use assms(2) in auto)
  then show ?thesis by blast
qed

text \<open>Moving the tail down by \<open>n\<close>, from its start.\<close>

lemma shift_tail_down:
  assumes "vec_rep v xs" and "position + n \<le> length xs"
  shows "\<exists>v' ys. for_up position (length xs - n)
      (\<lambda>i v. do { x \<leftarrow> storage_get v (i + n); storage_set v i x }) v = Some v' \<and>
    vec_rep v' ys \<and> length ys = length xs \<and>
    take (length xs - n) ys = take position xs @ drop (position + n) xs \<and> vec_kept v v'"
proof -
  let ?I = "\<lambda>i w. \<exists>ys. vec_rep w ys \<and> length ys = length xs \<and>
      take i ys = take position xs @ take (i - position) (drop (position + n) xs) \<and>
      drop i ys = drop i xs \<and> vec_kept v w"
  let ?body = "\<lambda>i v. do { x \<leftarrow> storage_get v (i + n); storage_set v i x }"
  have "\<exists>v'. for_up position (length xs - n) ?body v = Some v' \<and> ?I (length xs - n) v'"
  proof (rule for_up_rule [where I = ?I])
    show "?I position v" using assms by (intro exI [of _ xs]) simp
  next
    fix i w assume i: "position \<le> i" "i < length xs - n" "?I i w"
    then obtain ys where ys: "vec_rep w ys" "length ys = length xs"
      "take i ys = take position xs @ take (i - position) (drop (position + n) xs)"
      "drop i ys = drop i xs" "vec_kept v w" by blast
    have "ys ! (i + n) = drop i ys ! n" using i ys(2) by simp
    also have "\<dots> = xs ! (i + n)" using i ys(4) by simp
    finally have get: "storage_get w (i + n) = Some (xs ! (i + n))"
      using storage_get_rep [OF ys(1), of "i + n"] i ys(2) by simp
    have "i < length ys" using i ys(2) by simp
    from storage_set_rep [OF ys(1) this, of "xs ! (i + n)"] obtain w' where
      w': "storage_set w i (xs ! (i + n)) = Some w'"
        "vec_rep w' (ys[i := xs ! (i + n)])" "vec_kept w w'" by blast
    have "drop (position + n) xs ! (i - position) = xs ! (i + n)"
      using i assms(2) by (simp add: add.commute)
    moreover have "i - position < length (drop (position + n) xs)" using i by simp
    ultimately have "take (Suc i) (ys[i := xs ! (i + n)]) =
        take position xs @ take (Suc i - position) (drop (position + n) xs)"
      using i ys(2,3) by (simp add: take_Suc_nth Suc_diff_le)
    moreover have "drop (Suc i) (ys[i := xs ! (i + n)]) = drop (Suc i) xs"
    proof -
      have "drop (Suc i) (ys[i := xs ! (i + n)]) = drop 1 (drop i ys)" by simp
      also have "\<dots> = drop (Suc i) xs" unfolding ys(4) by simp
      finally show ?thesis .
    qed
    ultimately show "\<exists>w'. ?body i w = Some w' \<and> ?I (Suc i) w'"
      using get w' ys(2,5)
      by (auto intro!: exI [of _ "ys[i := xs ! (i + n)]"] intro: vec_kept_trans)
  qed (use assms(2) in auto)
  then obtain v' ys where v': "for_up position (length xs - n) ?body v = Some v'"
    "vec_rep v' ys" "length ys = length xs"
    "take (length xs - n) ys =
      take position xs @ take (length xs - n - position) (drop (position + n) xs)"
    "vec_kept v v'" by blast
  moreover have "take (length xs - n - position) (drop (position + n) xs) = drop (position + n) xs"
    using assms(2) by simp
  ultimately show ?thesis by (intro exI [of _ v'] exI [of _ ys]) simp
qed

section \<open>The operations on a terminated string\<close>

text \<open>\<open>str_obj s cs\<close>: the string has storage, the storage holds the characters \<open>cs\<close> and the terminator,
  and the size counts the characters.\<close>

definition str_obj :: "'c::zero bstr \<Rightarrow> 'c list \<Rightarrow> bool" where
  "str_obj s cs \<longleftrightarrow> vec_obj (storage s) (cs @ [0]) \<and> bsize s = length cs"

text \<open>A default-constructed string: no storage.\<close>

definition str_null :: "'c::zero bstr \<Rightarrow> bool" where
  "str_null s \<longleftrightarrow> vec_obj (storage s) [] \<and> vcap (storage s) = 0 \<and> bsize s = 0"

lemma str_obj_cap: "str_obj s cs \<Longrightarrow> length cs + 1 < 2 ^ 63 \<and> 0 < vcap (storage s)"
  using vec_repD(3) by (fastforce simp: str_obj_def vec_obj_def)

text \<open>A shape every growing operation has: resize for \<open>m\<close> characters and the terminator, let a body fill
  the storage, write the terminator. It fails, with no effect, exactly when the memory denies its request
  \<open>q\<close>.\<close>

definition finished ::
  "(nat \<Rightarrow> bool) \<Rightarrow> 'c::zero bstr \<Rightarrow> nat option \<Rightarrow> ('c bstr \<times> bool) option \<Rightarrow> 'c list \<Rightarrow> bool" where
  "finished mem s q r ds \<longleftrightarrow> r = Some (s, False) \<and> denies mem (storage s) q \<or>
     (\<exists>s'. r = Some (s', True) \<and> str_obj s' ds \<and> vec_same (machine mem) (storage s) (storage s') \<and>
       \<not> denies mem (storage s) q)"

lemma resize_fill:
  assumes "vec_obj (storage s) xs"
    and "\<And>v. vec_rep v (take (length ds + 1) xs @ replicate (length ds + 1 - length xs) 0) \<Longrightarrow>
      \<exists>v' ys. body v = Some v' \<and> vec_rep v' ys \<and> length ys = length ds + 1 \<and>
        take (length ds) ys = ds \<and> vec_kept v v'"
  shows "finished mem s (request_more (storage s) (length ds + 1))
    (do { (v, ok) \<leftarrow> vec_Resize (machine mem) (storage s) (length ds + 1) (Temp 0);
          if \<not> ok then Some (s\<lparr>storage := v\<rparr>, False)
          else
            do { v \<leftarrow> body v;
                 v \<leftarrow> storage_set v (length ds) 0;
                 Some (\<lparr>storage = v, bsize = length ds\<rparr>, True) } }) ds"
proof -
  consider (refused) "vec_Resize (machine mem) (storage s) (Suc (length ds)) (Temp 0) =
        Some (storage s, False)" "denies mem (storage s) (request_more (storage s) (Suc (length ds)))"
    | (ok) v where "vec_Resize (machine mem) (storage s) (Suc (length ds)) (Temp 0) = Some (v, True)"
      "vec_obj v (take (length ds + 1) xs @ replicate (length ds + 1 - length xs) 0)"
      "vec_same (machine mem) (storage s) v"
      "\<not> denies mem (storage s) (request_more (storage s) (Suc (length ds)))"
    using resize_obj [OF assms(1), of mem "Suc (length ds)" 0] by auto
  then show ?thesis
proof cases
  case refused
  then show ?thesis by (simp add: finished_def)
next
  case (ok v)
  from assms(2) [OF vec_obj_rep [OF ok(2)]] obtain w ys where
    w: "body v = Some w" "vec_rep w ys" "length ys = length ds + 1" "take (length ds) ys = ds"
      "vec_kept v w" by blast
  from storage_set_rep [OF w(2), of "length ds" 0] w(3) obtain u where
    u: "storage_set w (length ds) 0 = Some u" "vec_rep u (ys[length ds := 0])" "vec_kept w u"
    by auto
  have "ys[length ds := 0] = take (length ds) ys @ [0]"
    using w(3) by (simp add: upd_conv_take_nth_drop)
  with u(2) w(4) have "vec_rep u (ds @ [0])" by simp
  moreover have "vec_kept v u" using w(5) u(3) by (rule vec_kept_trans)
  ultimately have "vec_obj u (ds @ [0])" "vec_same (machine mem) (storage s) u"
    using vec_obj_kept [OF ok(2)] vec_same_trans [OF ok(3) vec_kept_same] by auto
  with ok(4) show ?thesis
    by (simp add: finished_def str_obj_def ok(1) w(1) u(1))
qed
qed

lemma str_Assign_obj:
  assumes "vec_obj (storage s) xs" and "length ds + 1 < 2 ^ 64"
  shows "finished mem s (request_more (storage s) (length ds + 1)) (str_Assign (machine mem) s (map Temp ds)) ds"
proof -
  have "finished mem s (request_more (storage s) (length ds + 1))
    (do { (v, ok) \<leftarrow> vec_Resize (machine mem) (storage s) (length ds + 1) (Temp 0);
          if \<not> ok then Some (s\<lparr>storage := v\<rparr>, False)
          else
            do { v \<leftarrow> copy_view 0 (map Temp ds) v;
                 v \<leftarrow> storage_set v (length ds) 0;
                 Some (\<lparr>storage = v, bsize = length ds\<rparr>, True) } }) ds"
  proof (rule resize_fill [OF assms(1)])
    fix v
    let ?xs = "take (length ds + 1) xs @ replicate (length ds + 1 - length xs) 0"
    assume "vec_rep v ?xs"
    from copy_view_rep [OF this, of 0 ds]
    show "\<exists>v' ys. copy_view 0 (map Temp ds) v = Some v' \<and> vec_rep v' ys \<and>
        length ys = length ds + 1 \<and> take (length ds) ys = ds \<and> vec_kept v v'"
      using take_overwrite [of 0 ds "length ds" ?xs] length_overwrite [of 0 ds ?xs]
      by fastforce
  qed
  with assms(2) show ?thesis by (simp add: str_Assign_def cong: if_cong)
qed

lemma str_AppendChar_obj:
  assumes "str_obj s cs"
  shows "finished mem s (request_more (storage s) (bsize s + 2)) (str_AppendChar (machine mem) s c) (cs @ [c])"
proof -
  have obj: "vec_obj (storage s) (cs @ [0])" and sz: "bsize s = length cs"
    and cap: "length cs + 2 < 2 ^ 64"
    using assms str_obj_cap [OF assms] by (auto simp: str_obj_def)
  have "finished mem s (request_more (storage s) (length (cs @ [c]) + 1))
    (do { (v, ok) \<leftarrow> vec_Resize (machine mem) (storage s) (length (cs @ [c]) + 1) (Temp 0);
          if \<not> ok then Some (s\<lparr>storage := v\<rparr>, False)
          else
            do { v \<leftarrow> storage_set v (length cs) c;
                 v \<leftarrow> storage_set v (length (cs @ [c])) 0;
                 Some (\<lparr>storage = v, bsize = length (cs @ [c])\<rparr>, True) } }) (cs @ [c])"
  proof (rule resize_fill [OF obj])
    fix v assume "vec_rep v (take (length (cs @ [c]) + 1) (cs @ [0]) @
        replicate (length (cs @ [c]) + 1 - length (cs @ [0])) 0)"
    then have "vec_rep v (cs @ [0, 0])" by simp
    from storage_set_rep [OF this, of "length cs" c]
    show "\<exists>v' ys. storage_set v (length cs) c = Some v' \<and> vec_rep v' ys \<and>
        length ys = length (cs @ [c]) + 1 \<and> take (length (cs @ [c])) ys = cs @ [c] \<and> vec_kept v v'"
      by fastforce
  qed
  with cap sz show ?thesis by (simp add: str_AppendChar_def cong: if_cong)
qed

lemma str_Append_obj:
  assumes "str_obj s cs" and "length ds < 2 ^ 63"
  shows "finished mem s
    (if ds = [] then None else request_more (storage s) (bsize s + length ds + 1)) (str_Append (machine mem) s (map Temp ds)) (cs @ ds)"
proof (cases "ds = []")
  case True
  with assms(1) show ?thesis by (simp add: str_Append_def finished_def denies_def)
next
  case False
  have obj: "vec_obj (storage s) (cs @ [0])" and sz: "bsize s = length cs"
    and cap: "length cs + length ds + 1 < 2 ^ 64"
    using assms str_obj_cap [OF assms(1)] by (auto simp: str_obj_def)
  have "finished mem s (request_more (storage s) (length (cs @ ds) + 1))
    (do { (v, ok) \<leftarrow> vec_Resize (machine mem) (storage s) (length (cs @ ds) + 1) (Temp 0);
          if \<not> ok then Some (s\<lparr>storage := v\<rparr>, False)
          else
            do { v \<leftarrow> copy_view (length cs) (map Temp ds) v;
                 v \<leftarrow> storage_set v (length (cs @ ds)) 0;
                 Some (\<lparr>storage = v, bsize = length (cs @ ds)\<rparr>, True) } }) (cs @ ds)"
  proof (rule resize_fill [OF obj])
    fix v
    let ?xs = "take (length (cs @ ds) + 1) (cs @ [0]) @
        replicate (length (cs @ ds) + 1 - length (cs @ [0])) 0"
    assume "vec_rep v ?xs"
    from copy_view_rep [OF this, of "length cs" ds]
    show "\<exists>v' ys. copy_view (length cs) (map Temp ds) v = Some v' \<and> vec_rep v' ys \<and>
        length ys = length (cs @ ds) + 1 \<and> take (length (cs @ ds)) ys = cs @ ds \<and> vec_kept v v'"
      using take_overwrite [of "length cs" ds "length (cs @ ds)" ?xs]
        length_overwrite [of "length cs" ds ?xs] False
      by fastforce
  qed
  with cap sz False show ?thesis by (simp add: str_Append_def Let_def cong: if_cong)
qed

lemma str_Insert_obj:
  assumes "str_obj s cs" and "length ds < 2 ^ 63" and "position \<le> length cs"
  shows "finished mem s
    (if ds = [] then None else request_more (storage s) (bsize s + length ds + 1)) (str_Insert (machine mem) s position (map Temp ds))
    (take position cs @ ds @ drop position cs)"
proof (cases "ds = []")
  case True
  with assms show ?thesis by (simp add: str_Insert_def finished_def denies_def str_obj_def)
next
  case False
  let ?r = "take position cs @ ds @ drop position cs"
  have obj: "vec_obj (storage s) (cs @ [0])" and sz: "bsize s = length cs"
    and cap: "length cs + length ds + 1 < 2 ^ 64"
    using assms str_obj_cap [OF assms(1)] by (auto simp: str_obj_def)
  have len: "length ?r = length cs + length ds" using assms(3) by simp
  let ?shift = "for_down (length cs + 1) position
      (\<lambda>i v. do { x \<leftarrow> storage_get v (i - 1); storage_set v (i + length ds - 1) x })"
  have "finished mem s (request_more (storage s) (length ?r + 1))
    (do { (v, ok) \<leftarrow> vec_Resize (machine mem) (storage s) (length ?r + 1) (Temp 0);
          if \<not> ok then Some (s\<lparr>storage := v\<rparr>, False)
          else
            do { v \<leftarrow> do { v \<leftarrow> ?shift v; copy_view position (map Temp ds) v };
                 v \<leftarrow> storage_set v (length ?r) 0;
                 Some (\<lparr>storage = v, bsize = length ?r\<rparr>, True) } }) ?r"
  proof (rule resize_fill [OF obj])
    fix v
    assume "vec_rep v (take (length ?r + 1) (cs @ [0]) @
        replicate (length ?r + 1 - length (cs @ [0])) 0)"
    then have rep: "vec_rep v ((cs @ [0]) @ replicate (length ds) 0)" unfolding len by simp
    obtain w ys where w: "?shift v = Some w" "vec_rep w ys" "length ys = length cs + 1 + length ds"
      "take position ys = take position (cs @ [0])"
      "drop (position + length ds) ys = drop position (cs @ [0])" "vec_kept v w"
      using shift_tail_up [OF rep, of position "length ds"] assms(3) False by auto
    have "position + length ds \<le> length ys" using w(3) assms(3) by simp
    from copy_view_rep [OF w(2) this] obtain u where
      u: "copy_view position (map Temp ds) w = Some u" "vec_rep u (overwrite position ds ys)"
        "vec_kept w u" by blast
    have ov: "overwrite position ds ys = ?r @ [0]"
      using w(4,5) assms(3) by (simp add: overwrite_def)
    show "\<exists>v' ys. do { v \<leftarrow> ?shift v; copy_view position (map Temp ds) v } = Some v' \<and>
        vec_rep v' ys \<and> length ys = length ?r + 1 \<and> take (length ?r) ys = ?r \<and> vec_kept v v'"
    proof (intro exI conjI)
      show "do { v \<leftarrow> ?shift v; copy_view position (map Temp ds) v } = Some u"
        by (simp only: w(1) Option.bind.simps u(1))
      show "vec_rep u (?r @ [0])" using u(2) by (simp only: ov)
      show "vec_kept v u" by (rule vec_kept_trans [OF w(6) u(3)])
      show "take (length ?r) (?r @ [0]) = ?r" by (rule append_eq_conv_conj [THEN iffD1, THEN conjunct1, symmetric]) (rule refl)
    qed simp
  qed
  with cap sz False assms(3) len show ?thesis
    by (simp add: str_Insert_def Option.bind_assoc add.commute [of "length ds"] del: upt_Suc cong: if_cong)
qed

lemma str_Resize_obj:
  assumes "str_obj s cs" and "n + 1 < 2 ^ 64"
  shows "finished mem s (request_more (storage s) (n + 1)) (str_Resize (machine mem) s n c) (take n cs @ replicate (n - length cs) c)"
proof -
  let ?r = "take n cs @ replicate (n - length cs) c"
  have obj: "vec_obj (storage s) (cs @ [0])" and sz: "bsize s = length cs"
    using assms by (auto simp: str_obj_def)
  have len: "length ?r = n" by simp
  let ?fill = "\<lambda>v. if n > length cs then for_up (length cs) n (\<lambda>i v. storage_set v i c) v else Some v"
  have "finished mem s (request_more (storage s) (length ?r + 1))
    (do { (v, ok) \<leftarrow> vec_Resize (machine mem) (storage s) (length ?r + 1) (Temp 0);
          if \<not> ok then Some (s\<lparr>storage := v\<rparr>, False)
          else
            do { v \<leftarrow> ?fill v;
                 v \<leftarrow> storage_set v (length ?r) 0;
                 Some (\<lparr>storage = v, bsize = length ?r\<rparr>, True) } }) ?r"
  proof (rule resize_fill [OF obj])
    fix v
    let ?xs = "take (length ?r + 1) (cs @ [0]) @ replicate (length ?r + 1 - length (cs @ [0])) 0"
    assume rep: "vec_rep v ?xs"
    show "\<exists>v' ys. ?fill v = Some v' \<and> vec_rep v' ys \<and> length ys = length ?r + 1 \<and>
        take (length ?r) ys = ?r \<and> vec_kept v v'"
    proof (cases "n > length cs")
      case False
      with rep show ?thesis by (intro exI [of _ v] exI [of _ ?xs]) (simp add: min_def)
    next
      case True
      from fill_rep [OF rep, of "length cs" n c] True
      show ?thesis
        using take_overwrite [of "length cs" "replicate (n - length cs) c" n ?xs]
          length_overwrite [of "length cs" "replicate (n - length cs) c" ?xs]
        by (auto simp del: length_overwrite)
    qed
  qed
  with assms(2) sz len show ?thesis by (simp add: str_Resize_def cong: if_cong)
qed

lemma str_Erase_obj:
  assumes "str_obj s cs" and "position \<le> length cs"
  shows "\<exists>s'. str_Erase (machine mem) s position n = Some (s', True) \<and>
    str_obj s' (take position cs @ drop (position + n) cs) \<and>
    vec_same (machine mem) (storage s) (storage s')"
proof -
  have obj: "vec_obj (storage s) (cs @ [0])" and sz: "bsize s = length cs"
    using assms by (auto simp: str_obj_def)
  define m where "m = (if n > length cs - position then length cs - position else n)"
  let ?r = "take position cs @ drop (position + n) cs"
  have m: "position + m \<le> length cs" "drop (position + m) cs = drop (position + n) cs"
    using assms(2) by (auto simp: m_def)
  have len: "length ?r = length cs - m" using m by (auto simp flip: m(2))
  obtain v ys where v: "for_up position (length cs + 1 - m)
      (\<lambda>i v. do { x \<leftarrow> storage_get v (i + m); storage_set v i x }) (storage s) = Some v"
    "vec_rep v ys" "length ys = length cs + 1"
    "take (length cs + 1 - m) ys = take position (cs @ [0]) @ drop (position + m) (cs @ [0])"
    "vec_kept (storage s) v"
    using shift_tail_down [OF vec_obj_rep [OF obj], of position m] m(1) by auto
  have ys: "take (length cs - m + 1) ys = ?r @ [0]"
    using v(4) m assms(2) by (simp add: Suc_diff_le)
  have vobj: "vec_obj v ys" by (rule vec_obj_kept [OF obj v(2,5)])
  obtain w where w: "vec_Resize (machine mem) v (length cs - m + 1) (Temp 0) = Some (w, True)"
    "vec_obj w (?r @ [0])" "vec_same (machine mem) v w"
  proof (cases rule: resize_obj [OF vobj, of mem "length cs - m + 1" 0])
    case 1
    with v(3) show ?thesis by linarith
  next
    case (2 w)
    have "length cs - m + 1 - length ys = 0" using v(3) by simp
    with 2 ys that show ?thesis by simp
  qed
  from storage_set_rep [OF vec_obj_rep [OF w(2)], of "length cs - m" 0] len obtain u where
    u: "storage_set w (length cs - m) 0 = Some u" "vec_rep u ((?r @ [0])[length cs - m := 0])"
      "vec_kept w u" by auto
  have "(?r @ [0])[length cs - m := 0] = ?r @ [0]" using len by (metis list_update_length)
  with u(2,3) have "vec_obj u (?r @ [0])" using vec_obj_kept [OF w(2)] by simp
  moreover have "vec_same (machine mem) (storage s) u"
    by (rule vec_same_trans [OF vec_kept_same [OF v(5)]
          vec_same_trans [OF w(3) vec_kept_same [OF u(3)]]])
  moreover have "str_Erase (machine mem) s position n =
      Some (\<lparr>storage = u, bsize = length cs - m\<rparr>, True)"
    using assms(2) m(1) v(1) w(1) u(1)
    by (simp add: str_Erase_def sz Let_def m_def [symmetric] Suc_diff_le del: upt_Suc)
  ultimately show ?thesis using len by (simp add: str_obj_def del: length_append)
qed

lemma str_set_last:
  assumes "vec_obj v (ds @ [0])" 
  shows "\<exists>u. storage_set v (length ds) 0 = Some u \<and> vec_obj u (ds @ [0]) \<and> vec_kept v u"
  using storage_set_rep [OF vec_obj_rep [OF assms], of "length ds" 0] vec_obj_kept [OF assms] by fastforce

lemma shrink_obj:
  assumes "vec_obj v xs" and "n \<le> length xs"
  shows "\<exists>w. vec_Resize (machine mem) v n (Temp x) = Some (w, True) \<and> vec_obj w (take n xs) \<and>
    vec_same (machine mem) v w"
  by (cases rule: resize_obj [OF assms(1), of mem n x]) (use assms(2) in auto)

lemma str_PopBack_obj:
  assumes "str_obj s cs"
  shows "\<exists>s'. str_PopBack (machine mem) s = Some s' \<and> str_obj s' (butlast cs) \<and>
    vec_same (machine mem) (storage s) (storage s')"
proof (cases "cs = []")
  case True
  with assms show ?thesis by (simp add: str_PopBack_def str_obj_def)
next
  case False
  then have len: "length (butlast cs) = length cs - 1" "0 < length cs" by auto
  have obj: "vec_obj (storage s) (cs @ [0])" and sz: "bsize s = length cs"
    using assms by (auto simp: str_obj_def)
  obtain w where w: "vec_Resize (machine mem) (storage s) (length cs) (Temp 0) = Some (w, True)"
    "vec_obj w cs" "vec_same (machine mem) (storage s) w"
    using shrink_obj [OF obj, of "length cs" mem 0] by auto
  from storage_set_rep [OF vec_obj_rep [OF w(2)], of "length cs - 1" 0] len(2) obtain u where
    u: "storage_set w (length cs - 1) 0 = Some u" "vec_rep u (cs[length cs - 1 := 0])"
      "vec_kept w u" by auto
  have "cs[length cs - 1 := 0] = butlast cs @ [0]"
    using False by (metis append_butlast_last_id len(1) list_update_length)
  with u(2,3) w have "vec_obj u (butlast cs @ [0])" "vec_same (machine mem) (storage s) u"
    using vec_obj_kept [OF w(2)] vec_same_trans [OF w(3) vec_kept_same] by auto
  with False len w(1) u(1) show ?thesis by (simp add: str_PopBack_def sz str_obj_def)
qed

lemma str_Clear_obj:
  assumes "str_obj s cs"
  shows "\<exists>s'. str_Clear (machine mem) s = Some s' \<and> str_obj s' [] \<and>
    vec_same (machine mem) (storage s) (storage s')"
proof -
  have obj: "vec_obj (storage s) (cs @ [0])" using assms by (auto simp: str_obj_def)
  obtain w where w: "vec_Resize (machine mem) (storage s) 1 (Temp 0) = Some (w, True)"
    "vec_obj w (take 1 (cs @ [0]))" "vec_same (machine mem) (storage s) w"
    using shrink_obj [OF obj, of 1 mem 0] by auto
  have "length (take 1 (cs @ [0])) = 1" by simp
  with storage_set_rep [OF vec_obj_rep [OF w(2)], of 0 0] obtain u where
    u: "storage_set w 0 0 = Some u" "vec_rep u ((take 1 (cs @ [0]))[0 := 0])" "vec_kept w u"
    by fastforce
  have "(take 1 (cs @ [0]))[0 := 0] = [0]" by (cases cs) auto
  with u(2,3) have "vec_obj u [0]" using vec_obj_kept [OF w(2)] by simp
  moreover have "vec_same (machine mem) (storage s) u"
    by (rule vec_same_trans [OF w(3) vec_kept_same [OF u(3)]])
  ultimately show ?thesis
    using w(1) u(1) str_obj_cap [OF assms] by (simp add: str_Clear_def str_obj_def)
qed

lemma str_Reserve_obj:
  assumes "str_obj s cs"
  shows "finished mem s (request_more (storage s) n) (str_Reserve (machine mem) s n) cs"
proof -
  have obj: "vec_obj (storage s) (cs @ [0])" and sz: "bsize s = length cs"
    using assms by (auto simp: str_obj_def)
  have al: "has_alloc (storage s)" using obj by (simp add: vec_obj_def)
  have "vcap (storage s) < n \<longrightarrow> room (machine mem) (storage s) n" using room_allocator [OF al] by blast
  from vec_Reserve_rep [OF vec_obj_rep [OF obj] this] show ?thesis
  proof (elim disjE exE conjE)
    fix v assume v: "vec_Reserve (machine mem) (storage s) n = Some (v, True)"
      "vec_rep v (cs @ [0])" "vec_same (machine mem) (storage s) v"
      "\<not> starved (machine mem) (storage s) (request_more (storage s) n)"
    have vobj: "vec_obj v (cs @ [0])" by (rule vec_obj_next [OF obj v(2,3)])
    from str_set_last [OF vobj] obtain u where
      u: "storage_set v (length cs) 0 = Some u" "vec_obj u (cs @ [0])" "vec_kept v u" by blast
    have "vcap v \<noteq> 0" "vsize v = length cs + 1" using vec_repD(2,3) [OF v(2)] by auto
    with u(1) v(1) sz have "str_Reserve (machine mem) s n = Some (s\<lparr>storage := u\<rparr>, True)"
      by (simp add: str_Reserve_def str_EnsureNullTerminated_def)
    with u(2) sz vec_same_trans [OF v(3) vec_kept_same [OF u(3)]] v(4) show ?thesis
      by (simp add: finished_def str_obj_def starved_denies [OF obj])
  qed (simp add: str_Reserve_def finished_def starved_denies [OF obj])
qed

section \<open>The string as a growable object\<close>

datatype 'c str_op =
    StrAssign "'c list" | StrAppend "'c list" | StrPushBack 'c | StrInsert nat "'c list"
  | StrErase nat nat | StrResize nat 'c | StrReserve nat | StrClear | StrPopBack

fun str_exec :: "(nat \<Rightarrow> bool) \<Rightarrow> 'c::zero str_op \<Rightarrow> 'c bstr \<Rightarrow> ('c bstr \<times> bool) option" where
  "str_exec alloc (StrAssign ds) s = str_Assign alloc s (map Temp ds)"
| "str_exec alloc (StrAppend ds) s = str_Append alloc s (map Temp ds)"
| "str_exec alloc (StrPushBack c) s = str_PushBack alloc s c"
| "str_exec alloc (StrInsert i ds) s = str_Insert alloc s i (map Temp ds)"
| "str_exec alloc (StrErase i n) s = str_Erase alloc s i n"
| "str_exec alloc (StrResize n c) s = str_Resize alloc s n c"
| "str_exec alloc (StrReserve n) s = str_Reserve alloc s n"
| "str_exec alloc StrClear s = do { s \<leftarrow> str_Clear alloc s; Some (s, True) }"
| "str_exec alloc StrPopBack s = do { s \<leftarrow> str_PopBack alloc s; Some (s, True) }"

fun str_effect :: "'c str_op \<Rightarrow> bool \<Rightarrow> 'c list \<Rightarrow> 'c list" where
  "str_effect op False cs = cs"
| "str_effect (StrAssign ds) True cs = ds"
| "str_effect (StrAppend ds) True cs = cs @ ds"
| "str_effect (StrPushBack c) True cs = cs @ [c]"
| "str_effect (StrInsert i ds) True cs = take i cs @ ds @ drop i cs"
| "str_effect (StrErase i n) True cs = take i cs @ drop (i + n) cs"
| "str_effect (StrResize n c) True cs = take n cs @ replicate (n - length cs) c"
| "str_effect (StrReserve n) True cs = cs"
| "str_effect StrClear True cs = []"
| "str_effect StrPopBack True cs = butlast cs"

fun str_accepts :: "'c str_op \<Rightarrow> 'c list \<Rightarrow> bool" where
  "str_accepts (StrInsert i ds) cs = (i \<le> length cs)"
| "str_accepts (StrErase i n) cs = (i \<le> length cs)"
| "str_accepts _ cs = True"

text \<open>The arguments: sizes that leave room for the terminator.\<close>

fun str_valid :: "'c str_op \<Rightarrow> bool" where
  "str_valid (StrAssign ds) = (length ds < 2 ^ 63)"
| "str_valid (StrAppend ds) = (length ds < 2 ^ 63)"
| "str_valid (StrInsert i ds) = (length ds < 2 ^ 63)"
| "str_valid (StrResize n c) = (n + 1 < 2 ^ 64)"
| "str_valid _ = True"

text \<open>The request an operation makes of the memory, and whether the memory refuses it.\<close>

fun str_request :: "'c str_op \<Rightarrow> 'c bstr \<Rightarrow> nat option" where
  "str_request (StrAssign ds) s = request_more (storage s) (length ds + 1)"
| "str_request (StrAppend ds) s =
     (if ds = [] then None else request_more (storage s) (bsize s + length ds + 1))"
| "str_request (StrPushBack c) s = request_more (storage s) (bsize s + 2)"
| "str_request (StrInsert i ds) s =
     (if ds = [] then None else request_more (storage s) (bsize s + length ds + 1))"
| "str_request (StrResize n c) s = request_more (storage s) (n + 1)"
| "str_request (StrReserve n) s = request_more (storage s) n"
| "str_request _ s = None"

definition str_refuses :: "(nat \<Rightarrow> bool) \<Rightarrow> 'c str_op \<Rightarrow> 'c bstr \<Rightarrow> bool" where
  "str_refuses mem op s = denies mem (storage s) (str_request op s)"

definition str_ok :: "(nat \<Rightarrow> bool) \<Rightarrow> 'c::zero str_op \<Rightarrow> 'c bstr \<Rightarrow> 'c list \<Rightarrow> bool" where
  "str_ok mem op s cs \<longleftrightarrow> (\<exists>s'. str_exec (machine mem) op s =
       Some (s', str_accepts op cs \<and> \<not> str_refuses mem op s) \<and>
     str_obj s' (str_effect op (str_accepts op cs \<and> \<not> str_refuses mem op s) cs))"

lemma str_ok_finished:
  assumes "str_obj s cs" and "str_accepts op cs"
    and "finished mem s (str_request op s) (str_exec (machine mem) op s) (str_effect op True cs)"
  shows "str_ok mem op s cs"
  using assms(3) unfolding finished_def
proof (elim disjE exE conjE)
  assume "str_exec (machine mem) op s = Some (s, False)" "denies mem (storage s) (str_request op s)"
  with assms(1) show ?thesis by (simp add: str_ok_def str_refuses_def)
next
  fix s' assume "str_exec (machine mem) op s = Some (s', True)" "str_obj s' (str_effect op True cs)"
    "\<not> denies mem (storage s) (str_request op s)"
  with assms(2) show ?thesis by (simp add: str_ok_def str_refuses_def)
qed

lemma str_ok_done:
  assumes "str_accepts op cs" and "str_request op s = None"
    and "\<exists>s'. str_exec (machine mem) op s = Some (s', True) \<and> str_obj s' (str_effect op True cs) \<and>
      vec_same (machine mem) (storage s) (storage s')"
  shows "str_ok mem op s cs"
  using assms by (auto simp: str_ok_def str_refuses_def denies_def)

lemma str_step:
  assumes obj: "str_obj s cs" and valid: "str_valid op"
  shows "str_ok mem op s cs"
proof (cases op)
  case (StrAssign ds)
  have "vec_obj (storage s) (cs @ [0])" using obj by (simp add: str_obj_def)
  from str_Assign_obj [OF this, of ds mem] valid show ?thesis
    by (intro str_ok_finished [OF obj]) (simp_all add: StrAssign)
next
  case (StrAppend ds)
  with str_Append_obj [OF obj, of ds mem] valid show ?thesis
    by (intro str_ok_finished [OF obj]) simp_all
next
  case (StrPushBack c)
  with str_AppendChar_obj [OF obj, of mem c] show ?thesis
    by (intro str_ok_finished [OF obj]) (simp_all add: str_PushBack_def)
next
  case (StrInsert i ds)
  show ?thesis
  proof (cases "i \<le> length cs")
    case True
    with StrInsert str_Insert_obj [OF obj, of ds i mem] valid show ?thesis
      by (intro str_ok_finished [OF obj]) simp_all
  next
    case False
    with obj StrInsert show ?thesis by (auto simp: str_ok_def str_Insert_def str_obj_def)
  qed
next
  case (StrErase i n)
  show ?thesis
  proof (cases "i \<le> length cs")
    case True
    with StrErase str_Erase_obj [OF obj, of i mem n] show ?thesis
      by (intro str_ok_done) simp_all
  next
    case False
    with obj StrErase show ?thesis by (auto simp: str_ok_def str_Erase_def str_obj_def)
  qed
next
  case (StrResize n c)
  with str_Resize_obj [OF obj, of n mem c] valid show ?thesis
    by (intro str_ok_finished [OF obj]) simp_all
next
  case (StrReserve n)
  with str_Reserve_obj [OF obj, of mem n] show ?thesis
    by (intro str_ok_finished [OF obj]) simp_all
next
  case StrClear
  with str_Clear_obj [OF obj, of mem] show ?thesis by (intro str_ok_done) auto
next
  case StrPopBack
  with str_PopBack_obj [OF obj, of mem] show ?thesis by (intro str_ok_done) auto
qed

interpretation str: growable str_obj "str_exec (machine mem)" str_valid str_accepts
    "str_refuses mem" str_effect for mem
  by unfold_locales (rule str_step [unfolded str_ok_def])

lemma str_obj_CStr: "str_obj s cs \<Longrightarrow> str_CStr s = cs @ [0]"
  using str_obj_cap [of s cs] vec_rep_items [OF vec_obj_rep, of "storage s"]
  by (auto simp: str_CStr_def str_obj_def)

lemma str_obj_View: "str_obj s cs \<Longrightarrow> str_View s = Some cs"
  using str_obj_CStr [of s cs] by (simp add: str_View_def str_obj_def)

section \<open>Properties\<close>

definition hello :: "nat bstr" where
  "hello = \<lparr>storage = \<lparr>slots = [Some 104, Some 105, Some 0], vsize = 3, vcap = 3, buffer = 1, esize = 1,
     has_alloc = True\<rparr>, bsize = 2\<rparr>"

lemma hello_obj: "str_obj hello [104, 105]"
  by (simp add: str_obj_def vec_obj_def vec_rep_def hello_def live_def upt_rec)


definition hello_ops :: "nat str_op list" where
  "hello_ops = [StrAppend [33, 33], StrInsert 1 [101], StrErase 0 2, StrPopBack, StrResize 5 46]"


text \<open>A default-constructed string has no storage, and \<open>Erase\<close> at position 0 dereferences it: the
  operation has no defined result although its position and count are accepted, whereas \<open>Assign\<close>
  gives the string its storage and terminator or changes nothing.\<close>

theorem default_string:
  assumes "str_null s" and "length ds < 2 ^ 63"
  shows "str_Erase (machine mem) s 0 n = None \<and>
    (str_Assign (machine mem) s (map Temp ds) = Some (s, False) \<or>
     (\<exists>s'. str_Assign (machine mem) s (map Temp ds) = Some (s', True) \<and> str_obj s' ds))"
proof -
  have obj: "vec_obj (storage s) []" and z: "vcap (storage s) = 0" "bsize s = 0"
    using assms(1) by (auto simp: str_null_def)
  then have "slots (storage s) = []" using vec_repD(1) [OF vec_obj_rep [OF obj]] by simp
  then have "str_Erase (machine mem) s 0 n = None"
    by (simp add: str_Erase_def z storage_get_def read_at_def)
  moreover from str_Assign_obj [OF obj, of ds mem] assms(2)
  have "finished mem s (request_more (storage s) (length ds + 1)) (str_Assign (machine mem) s (map Temp ds)) ds"
    by simp
  ultimately show ?thesis by (auto simp: finished_def)
qed

theorem default_string_witness:
  "str_Erase (machine (\<lambda>_. True)) (str_empty 1 True :: nat bstr) 0 1 = None"
  using default_string [of "str_empty 1 True :: nat bstr" "[]" "\<lambda>_. True" 1]
  by (simp add: str_null_def str_empty_def vec_empty_def vec_obj_def vec_rep_def)

lemma Resize_moves:
  assumes "vec_rep v xs" and "vcap v < n" and "vec_Resize alloc v n (Temp x) = Some (w, True)"
  shows "buffer w = Suc (buffer v)"
proof -
  note r = vec_repD [OF assms(1)]
  have grow: "\<not> n < vsize v" "\<not> n \<le> vcap v" using assms(2) r(2,3) by auto
  let ?body = "\<lambda>i v. do { x \<leftarrow> deref v (Temp x); sl \<leftarrow> construct_at (slots v) (vsize v) x;
      Some (v\<lparr>slots := sl, vsize := vsize v + 1\<rparr>) }"
  from assms(3) grow obtain u where u: "vec_Reallocate alloc v n = Some (u, True)"
    "for_up (vsize u) n ?body u = Some w"
    by (auto simp: vec_Resize_def vec_Reserve_def split: Option.bind_splits if_splits)
  have "buffer w = buffer u"
    by (rule for_each_preserves [OF _ u(2)]) (auto split: Option.bind_splits)
  moreover have "buffer u = Suc (buffer v)"
    using u(1) by (auto simp: vec_Reallocate_def split: option.splits Option.bind_splits prod.splits)
  ultimately show ?thesis by simp
qed

lemma copy_dangling:
  assumes "view \<noteq> []" and "hd view = Elem b i" and "buffer v \<noteq> b"
  shows "copy_view at view v = None"
  using assms by (cases view) (simp_all add: copy_view_def upt_conv_Cons del: upt_Suc)

text \<open>Appending to a string, or inserting into it, a view that starts in the string itself has no
  defined result when the storage has to grow and the allocation succeeds: the view is read after
  the storage it points into has been freed. Every string whose last change was an \<open>Append\<close> that grew
  it has no spare capacity, so \<^verbatim>\<open>s += s\<close> is such a call.\<close>

theorem own_view_dangles:
  assumes "str_obj s cs" and "view \<noteq> []" and "hd view = Elem (buffer (storage s)) i"
    and "vcap (storage s) < length cs + length view + 1" and "length view < 2 ^ 63"
    and "vec_Resize alloc (storage s) (length cs + length view + 1) (Temp 0) = Some (w, True)"
  shows "str_Append alloc s view = None \<and>
    (position \<le> length cs \<longrightarrow> str_Insert alloc s position view = None)"
proof -
  have obj: "vec_obj (storage s) (cs @ [0])" and sz: "bsize s = length cs"
    and cap: "length cs + length view + 1 < 2 ^ 64"
    using assms(1,5) str_obj_cap [OF assms(1)] by (auto simp: str_obj_def)
  have moved: "buffer w \<noteq> buffer (storage s)"
    using Resize_moves [OF vec_obj_rep [OF obj] assms(4,6)] by simp
  have "copy_view at view w = None" for at
    by (rule copy_dangling [OF assms(2,3) moved])
  then have "str_Append alloc s view = None"
    using assms(2,6) cap by (simp add: str_Append_def sz Let_def)
  moreover have "str_Insert alloc s position view = None" if "position \<le> length cs"
  proof -
    let ?body = "\<lambda>i v. do { x \<leftarrow> storage_get v (i - 1); storage_set v (i + length view - 1) x }"
    have "copy_view position view u = None"
      if "for_down (length cs + 1) position ?body w = Some u" for u
    proof (rule copy_dangling [OF assms(2,3)])
      have "buffer u = buffer w"
        by (rule for_each_preserves [OF _ that])
          (auto simp: storage_set_def split: Option.bind_splits)
      with moved show "buffer u \<noteq> buffer (storage s)" by simp
    qed
    with that assms(2,6) cap show ?thesis
      by (auto simp: str_Insert_def sz simp del: upt_Suc split: Option.bind_splits)
  qed
  ultimately show ?thesis by blast
qed

lemma hello_grows:
  "\<exists>w. vec_Resize (\<lambda>_. True) (storage hello) 5 (Temp 0) = Some (w, True)"
proof -
  have rep: "vec_rep (storage hello) [104, 105, 0]"
    using hello_obj by (simp add: str_obj_def vec_obj_def)
  have fields: "vcap (storage hello) = 3" "vsize (storage hello) = 3" "has_alloc (storage hello)"
    "vec_Allocate (\<lambda>_. True) (storage hello) 5 = Some (Some 5)"
    by (simp_all add: hello_def vec_Allocate_def size_max_def)
  have "vec_Resize (\<lambda>_. True) (storage hello) 5 (Temp 0) \<noteq> Some (storage hello, False)"
    by (auto simp: vec_Resize_def vec_Reserve_def vec_Reallocate_def fields
        split: Option.bind_splits if_splits)
  with vec_Resize_grow_rep [OF rep, of 5 "\<lambda>_. True" 0] room_allocator [OF fields(3)]
  show ?thesis by auto
qed

theorem own_view_dangles_witness:
  "str_Append (\<lambda>_. True) hello [Elem (buffer (storage hello)) 0, Elem (buffer (storage hello)) 1] = None"
proof -
  let ?view = "[Elem (buffer (storage hello)) 0, Elem (buffer (storage hello)) 1] :: nat cref list"
  obtain w where "vec_Resize (\<lambda>_. True) (storage hello) 5 (Temp 0) = Some (w, True)"
    using hello_grows by blast
  then have "vec_Resize (\<lambda>_. True) (storage hello) (length [104, 105 :: nat] + length ?view + 1) (Temp 0) =
      Some (w, True)" by (simp add: numeral_eq_Suc)
  from own_view_dangles [OF hello_obj _ _ _ _ this, of 0 0]
  show ?thesis by (simp add: hello_def)
qed

end
