(* ===== verification/Utf.thy ===== *)
theory Utf
  imports IoCore BasicString
begin

text \<open>
  \<^verbatim>\<open>IO/Text/Utf.hpp\<close>: the byte-by-byte UTF-8 decoder, the UTF-8 and UTF-16 encoders, and the two
  conversions between strings, which append to a \<open>BasicString\<close>.
\<close>

datatype policy = Reject | Replace

record utf8_decoder =
  code_point :: u32
  minimum :: u32
  remaining :: nat

definition Reset :: utf8_decoder where
  "Reset = \<lparr>code_point = 0, minimum = 0, remaining = 0\<rparr>"

definition Complete :: "utf8_decoder \<Rightarrow> bool" where
  "Complete d \<longleftrightarrow> remaining d = 0"

definition ReplacementCharacter :: u32 where
  "ReplacementCharacter = 0xFFFD"

definition IsValidCodePoint :: "u32 \<Rightarrow> bool" where
  "IsValidCodePoint v \<longleftrightarrow> v \<le> 0x10FFFF \<and> \<not> (v \<ge> 0xD800 \<and> v \<le> 0xDFFF)"

definition decode_error :: io_error where
  "decode_error = Semantic InvalidEncoding Decode 0 0"

text \<open>A step delivers a code point or none yet, and whether the byte has been consumed.\<close>

definition invalid_step :: "policy \<Rightarrow> bool \<Rightarrow> io_error + u32 option \<times> bool" where
  "invalid_step p consumed =
     (if p = Replace then Inr (Some ReplacementCharacter, consumed) else Inl decode_error)"

definition Feed :: "policy \<Rightarrow> byte \<Rightarrow> utf8_decoder \<Rightarrow> utf8_decoder \<times> (io_error + u32 option \<times> bool)" where
  "Feed p b d =
     (if remaining d = 0 then
        if b \<le> 0x7F then (d, Inr (Some (ucast b), True))
        else if b \<ge> 0xC2 \<and> b \<le> 0xDF then
          (\<lparr>code_point = ucast (b AND 0x1F), minimum = 0x80, remaining = 1\<rparr>, Inr (None, True))
        else if b \<ge> 0xE0 \<and> b \<le> 0xEF then
          (\<lparr>code_point = ucast (b AND 0x0F), minimum = 0x800, remaining = 2\<rparr>, Inr (None, True))
        else if b \<ge> 0xF0 \<and> b \<le> 0xF4 then
          (\<lparr>code_point = ucast (b AND 0x07), minimum = 0x10000, remaining = 3\<rparr>, Inr (None, True))
        else (d, invalid_step p True)
      else if b AND 0xC0 \<noteq> 0x80 then (Reset, invalid_step p False)
      else
        (let d = d\<lparr>code_point := push_bit 6 (code_point d) OR ucast (b AND 0x3F),
                   remaining := remaining d - 1\<rparr>
         in if remaining d \<noteq> 0 then (d, Inr (None, True))
            else
              (let value = code_point d;
                   valid = value \<ge> minimum d \<and> IsValidCodePoint value
               in if \<not> valid then (Reset, invalid_step p True)
                  else (Reset, Inr (Some value, True)))))"

definition Finish :: "policy \<Rightarrow> utf8_decoder \<Rightarrow> utf8_decoder \<times> (io_error + u32 option)" where
  "Finish p d =
     (if Complete d then (d, Inr None)
      else if p = Replace then (Reset, Inr (Some ReplacementCharacter))
      else (Reset, Inl decode_error))"

section \<open>Encoders\<close>

definition encode_error :: io_error where
  "encode_error = Semantic InvalidEncoding Encode 0 0"

definition EncodeUtf8 :: "u32 \<Rightarrow> io_error + byte list" where
  "EncodeUtf8 c =
     (if \<not> IsValidCodePoint c then Inl encode_error
      else if c \<le> 0x7F then Inr [ucast c]
      else if c \<le> 0x7FF then
        Inr [ucast (0xC0 OR drop_bit 6 c), ucast (0x80 OR (c AND 0x3F))]
      else if c \<le> 0xFFFF then
        Inr [ucast (0xE0 OR drop_bit 12 c), ucast (0x80 OR (drop_bit 6 c AND 0x3F)),
             ucast (0x80 OR (c AND 0x3F))]
      else
        Inr [ucast (0xF0 OR drop_bit 18 c), ucast (0x80 OR (drop_bit 12 c AND 0x3F)),
             ucast (0x80 OR (drop_bit 6 c AND 0x3F)), ucast (0x80 OR (c AND 0x3F))])"

definition EncodeUtf16 :: "u32 \<Rightarrow> io_error + u16 list" where
  "EncodeUtf16 c =
     (if \<not> IsValidCodePoint c then Inl encode_error
      else if c \<le> 0xFFFF then Inr [ucast c]
      else
        (let c = c - 0x10000
         in Inr [ucast (0xD800 + drop_bit 10 c), ucast (0xDC00 + (c AND 0x3FF))]))"

section \<open>Conversions\<close>

definition no_room :: io_error where
  "no_room = Semantic OutOfMemory AllocateOp 0 0"

text \<open>Appending the units of a code point to the output, one \<open>PushBack\<close> each.\<close>

fun push_units ::
  "(nat \<Rightarrow> bool) \<Rightarrow> 'c::zero list \<Rightarrow> 'c bstr \<Rightarrow> ('c bstr \<times> (io_error + unit)) option" where
  "push_units alloc [] out = Some (out, Inr ())"
| "push_units alloc (u # us) out =
     do { (out, ok) \<leftarrow> str_PushBack alloc out u;
          if ok then push_units alloc us out else Some (out, Inl no_room) }"

text \<open>\<open>Utf16ToUtf8\<close>: the code point at the front of the source, or the reason that there is none, and how
  many units it takes.\<close>

definition next_utf16 :: "policy \<Rightarrow> nat \<Rightarrow> u16 list \<Rightarrow> io_error + u32 \<times> nat" where
  "next_utf16 p index src =
     (let u = hd src
      in if u \<ge> 0xD800 \<and> u \<le> 0xDBFF then
           if 1 < length src \<and> src ! 1 \<ge> 0xDC00 \<and> src ! 1 \<le> 0xDFFF then
             Inr (0x10000 + push_bit 10 (ucast u - 0xD800) + (ucast (src ! 1) - 0xDC00), 2)
           else if p = Replace then Inr (ReplacementCharacter, 1)
           else Inl (Semantic InvalidEncoding Decode index 0)
         else if u \<ge> 0xDC00 \<and> u \<le> 0xDFFF then
           if p = Replace then Inr (ReplacementCharacter, 1)
           else Inl (Semantic InvalidEncoding Decode index 0)
         else Inr (ucast u, 1))"

lemma next_utf16_units: "next_utf16 p index src = Inr (c, k) \<Longrightarrow> 0 < k"
  by (auto simp: next_utf16_def Let_def split: if_splits)

function utf16_loop ::
  "(nat \<Rightarrow> bool) \<Rightarrow> policy \<Rightarrow> nat \<Rightarrow> u16 list \<Rightarrow> byte bstr \<Rightarrow> (byte bstr \<times> (io_error + unit)) option" where
  "utf16_loop alloc p index src out =
     (if src = [] then Some (out, Inr ())
      else
        case next_utf16 p index src of
          Inl e \<Rightarrow> Some (out, Inl e)
        | Inr (c, k) \<Rightarrow>
            (case EncodeUtf8 c of
               Inl e \<Rightarrow> Some (out, Inl e)
             | Inr bytes \<Rightarrow>
                 do { (out, r) \<leftarrow> push_units alloc bytes out;
                      case r of
                        Inl e \<Rightarrow> Some (out, Inl e)
                      | Inr _ \<Rightarrow> utf16_loop alloc p (index + k) (drop k src) out }))"
  by pat_completeness auto
termination
  by (relation "measure (\<lambda>(alloc, p, index, src, out). length src)")
    (auto dest!: next_utf16_units simp: length_greater_0_conv [symmetric] simp del: length_greater_0_conv)

definition Utf16ToUtf8 ::
  "(nat \<Rightarrow> bool) \<Rightarrow> bool \<Rightarrow> policy \<Rightarrow> u16 list \<Rightarrow> (io_error + byte bstr) option" where
  "Utf16ToUtf8 alloc has p src =
     do { (out, ok) \<leftarrow> str_Reserve alloc (str_empty 1 has) (usz (length src + 1));
          if \<not> ok then Some (Inl no_room)
          else
            do { (out, r) \<leftarrow> utf16_loop alloc p 0 src out;
                 Some (case r of Inl e \<Rightarrow> Inl e | Inr _ \<Rightarrow> Inr out) } }"

text \<open>\<open>Utf8ToUtf16\<close>. The inner loop feeds one byte until the decoder has consumed it: a byte that ends an
  incomplete sequence is fed again to the decoder that has been reset, so twice is enough.\<close>

definition append_code_point ::
  "(nat \<Rightarrow> bool) \<Rightarrow> u32 \<Rightarrow> u16 bstr \<Rightarrow> (u16 bstr \<times> (io_error + unit)) option" where
  "append_code_point alloc c out =
     (case EncodeUtf16 c of Inl e \<Rightarrow> Some (out, Inl e) | Inr units \<Rightarrow> push_units alloc units out)"

partial_function (option) feed_loop ::
  "(nat \<Rightarrow> bool) \<Rightarrow> policy \<Rightarrow> nat \<Rightarrow> byte \<Rightarrow> utf8_decoder \<Rightarrow> u16 bstr \<Rightarrow>
    (utf8_decoder \<times> u16 bstr \<times> (io_error + unit)) option" where
  "feed_loop alloc p index b d out =
     (let (d, r) = Feed p b d
      in case r of
           Inl e \<Rightarrow> Some (d, out, Inl (e\<lparr>offset := index\<rparr>))
         | Inr (cp, consumed) \<Rightarrow>
             Option.bind
               (case cp of None \<Rightarrow> Some (out, Inr ()) | Some c \<Rightarrow> append_code_point alloc c out)
               (\<lambda>(out, r).
                  case r of
                    Inl e \<Rightarrow> Some (d, out, Inl e)
                  | Inr _ \<Rightarrow>
                      if consumed then Some (d, out, Inr ())
                      else feed_loop alloc p index b d out))"

fun utf8_loop ::
  "(nat \<Rightarrow> bool) \<Rightarrow> policy \<Rightarrow> nat \<Rightarrow> byte list \<Rightarrow> utf8_decoder \<Rightarrow> u16 bstr \<Rightarrow>
    (utf8_decoder \<times> u16 bstr \<times> (io_error + unit)) option" where
  "utf8_loop alloc p index [] d out = Some (d, out, Inr ())"
| "utf8_loop alloc p index (b # bs) d out =
     do { (d, out, r) \<leftarrow> feed_loop alloc p index b d out;
          case r of
            Inl e \<Rightarrow> Some (d, out, Inl e)
          | Inr _ \<Rightarrow> utf8_loop alloc p (index + 1) bs d out }"

definition Utf8ToUtf16 ::
  "(nat \<Rightarrow> bool) \<Rightarrow> bool \<Rightarrow> policy \<Rightarrow> byte list \<Rightarrow> (io_error + u16 bstr) option" where
  "Utf8ToUtf16 alloc has p src =
     do { (out, ok) \<leftarrow> str_Reserve alloc (str_empty 2 has) (usz (length src + 1));
          if \<not> ok then Some (Inl no_room)
          else
            do { (d, out, r) \<leftarrow> utf8_loop alloc p 0 src Reset out;
                 case r of
                   Inl e \<Rightarrow> Some (Inl e)
                 | Inr _ \<Rightarrow>
                     (case snd (Finish p d) of
                        Inl e \<Rightarrow> Some (Inl e)
                      | Inr None \<Rightarrow> Some (Inr out)
                      | Inr (Some c) \<Rightarrow>
                          do { (out, r) \<leftarrow> append_code_point alloc c out;
                               Some (case r of Inl e \<Rightarrow> Inl e | Inr _ \<Rightarrow> Inr out) }) } }"

definition Utf8ToWide ::
  "(nat \<Rightarrow> bool) \<Rightarrow> bool \<Rightarrow> policy \<Rightarrow> byte list \<Rightarrow> (io_error + u16 bstr) option" where
  "Utf8ToWide alloc has p src =
     do { r \<leftarrow> Utf8ToUtf16 alloc has p src;
          case r of
            Inl e \<Rightarrow> Some (Inl e)
          | Inr converted \<Rightarrow>
              do { (out, ok) \<leftarrow> str_Assign alloc (str_empty 2 has)
                     (map Temp (take (bsize converted) (str_CStr converted)));
                   Some (if ok then Inr out else Inl no_room) } }"

section \<open>Bits of the encodings\<close>

lemma join_bits: "push_bit k (drop_bit k x) OR take_bit k x = x" for x :: "'a::len word"
  by (rule bit_word_eqI) (auto simp: bit_or_iff bit_push_bit_iff bit_drop_bit_eq bit_take_bit_iff)

lemma mask_numerals:
  "0x07 = (mask 3 :: 'a::len word)" "0x0F = (mask 4 :: 'a word)" "0x1F = (mask 5 :: 'a word)"
  "0x3F = (mask 6 :: 'a word)" "0x3FF = (mask 10 :: 'a word)"
  by (simp_all add: mask_eq_exp_minus_1 mask_Suc_rec numeral_eq_Suc)

lemma bit_push_mask: "bit (push_bit k (mask m) :: 'a::len word) n \<longleftrightarrow> k \<le> n \<and> n < k + m \<and> n < LENGTH('a)"
  by (auto simp: bit_push_bit_iff bit_mask_iff)

lemma high_numerals:
  "0x80 = (push_bit 7 (mask 1) :: 'a::len word)" "0xC0 = (push_bit 6 (mask 2) :: 'a word)"
  "0xE0 = (push_bit 5 (mask 3) :: 'a word)" "0xF0 = (push_bit 4 (mask 4) :: 'a word)"
  by (simp_all add: mask_eq_exp_minus_1 push_bit_eq_mult)

lemma bit_high:
  "bit (0x80 :: 'a::len word) n \<longleftrightarrow> n = 7 \<and> n < LENGTH('a)"
  "bit (0xC0 :: 'a word) n \<longleftrightarrow> 6 \<le> n \<and> n < 8 \<and> n < LENGTH('a)"
  "bit (0xE0 :: 'a word) n \<longleftrightarrow> 5 \<le> n \<and> n < 8 \<and> n < LENGTH('a)"
  "bit (0xF0 :: 'a word) n \<longleftrightarrow> 4 \<le> n \<and> n < 8 \<and> n < LENGTH('a)"
  unfolding high_numerals bit_push_mask by auto

lemma bit_low:
  "bit (0x07 :: 'a::len word) n \<longleftrightarrow> n < 3 \<and> n < LENGTH('a)"
  "bit (0x0F :: 'a word) n \<longleftrightarrow> n < 4 \<and> n < LENGTH('a)"
  "bit (0x1F :: 'a word) n \<longleftrightarrow> n < 5 \<and> n < LENGTH('a)"
  "bit (0x3F :: 'a word) n \<longleftrightarrow> n < 6 \<and> n < LENGTH('a)"
  unfolding mask_numerals by (auto simp: bit_mask_iff)

lemmas word_bits = bit_and_iff bit_or_iff bit_ucast_iff bit_take_bit_iff bit_high bit_low

text \<open>A continuation byte carries the low six bits of \<open>x\<close>.\<close>

definition cont_byte :: "u32 \<Rightarrow> byte" where
  "cont_byte x = ucast (0x80 OR (x AND 0x3F))"

lemma cont_byte_tag: "cont_byte x AND 0xC0 = 0x80"
  by (rule bit_word_eqI, simp only: word_bits cont_byte_def, auto)

lemma cont_byte_value: "ucast (cont_byte x AND 0x3F) = take_bit 6 x"
  by (rule bit_word_eqI, simp only: word_bits cont_byte_def, auto)

lemma lead_value:
  fixes x :: u32
  shows "x < 2 ^ 5 \<Longrightarrow> ucast (ucast (0xC0 OR x) AND 0x1F :: byte) = x"
    and "x < 2 ^ 4 \<Longrightarrow> ucast (ucast (0xE0 OR x) AND 0x0F :: byte) = x"
    and "x < 2 ^ 3 \<Longrightarrow> ucast (ucast (0xF0 OR x) AND 0x07 :: byte) = x"
proof -
  have nb: "n < k" if "x < 2 ^ k" "bit x n" for k n
    using bit_word_less_exp [OF that(1), of n] that(2) by (cases "k \<le> n") auto
  show "ucast (ucast (0xC0 OR x) AND 0x1F :: byte) = x" if x: "x < 2 ^ 5"
    by (rule bit_word_eqI, simp only: word_bits, auto dest: nb [OF x])
  show "ucast (ucast (0xE0 OR x) AND 0x0F :: byte) = x" if x: "x < 2 ^ 4"
    by (rule bit_word_eqI, simp only: word_bits, auto dest: nb [OF x])
  show "ucast (ucast (0xF0 OR x) AND 0x07 :: byte) = x" if x: "x < 2 ^ 3"
    by (rule bit_word_eqI, simp only: word_bits, auto dest: nb [OF x])
qed

text \<open>The lead byte as a sum.\<close>

lemma or_is_plus: "x AND y = 0 \<Longrightarrow> x OR y = x + y" for x y :: "'a::len word"
  by (metis add.left_neutral word_plus_and_or)

lemma lead_unat:
  fixes x :: u32
  shows "x < 2 ^ 5 \<Longrightarrow> unat (ucast (0xC0 OR x) :: byte) = 0xC0 + unat x"
    and "x < 2 ^ 4 \<Longrightarrow> unat (ucast (0xE0 OR x) :: byte) = 0xE0 + unat x"
    and "x < 2 ^ 3 \<Longrightarrow> unat (ucast (0xF0 OR x) :: byte) = 0xF0 + unat x"
proof -
  have nb: "n < k" if "x < 2 ^ k" "bit x n" for k n
    using bit_word_less_exp [OF that(1), of n] that(2) by (cases "k \<le> n") auto
  have sum: "unat (ucast (c OR x) :: byte) = unat c + unat x"
    if "c AND x = 0" "unat c + unat x < 256" for c
  proof -
    have "unat (c + x) = unat c + unat x" using that(2) by (simp add: unat_word_ariths)
    with that show ?thesis by (simp add: or_is_plus unat_ucast take_bit_nat_eq_self)
  qed
  show "unat (ucast (0xC0 OR x) :: byte) = 0xC0 + unat x" if x: "x < 2 ^ 5"
  proof -
    have "0xC0 AND x = 0" by (rule bit_word_eqI, simp only: word_bits bit_0_eq bot_apply, auto dest!: nb [OF x])
    then show ?thesis using sum [of "0xC0"] x by (simp add: word_less_nat_alt)
  qed
  show "unat (ucast (0xE0 OR x) :: byte) = 0xE0 + unat x" if x: "x < 2 ^ 4"
  proof -
    have "0xE0 AND x = 0" by (rule bit_word_eqI, simp only: word_bits bit_0_eq bot_apply, auto dest!: nb [OF x])
    then show ?thesis using sum [of "0xE0"] x by (simp add: word_less_nat_alt)
  qed
  show "unat (ucast (0xF0 OR x) :: byte) = 0xF0 + unat x" if x: "x < 2 ^ 3"
  proof -
    have "0xF0 AND x = 0" by (rule bit_word_eqI, simp only: word_bits bit_0_eq bot_apply, auto dest!: nb [OF x])
    then show ?thesis using sum [of "0xF0"] x by (simp add: word_less_nat_alt)
  qed
qed

section \<open>Decoding what has been encoded\<close>

text \<open>\<open>feeds p bs d\<close>: feed bytes one after another, each consumed at once; \<^term>\<open>None\<close> when a byte is refused or
  not consumed. The result is the code points delivered.\<close>

fun feeds :: "byte list \<Rightarrow> utf8_decoder \<Rightarrow> (utf8_decoder \<times> u32 list) option" where
  "feeds [] d = Some (d, [])"
| "feeds (b # bs) d =
     (case Feed Reject b d of
        (d, Inr (cp, True)) \<Rightarrow>
          do { (d, cps) \<leftarrow> feeds bs d;
               Some (d, (case cp of None \<Rightarrow> cps | Some c \<Rightarrow> c # cps)) }
      | _ \<Rightarrow> None)"

lemma Feed_cont:
  assumes "0 < remaining d"
  shows "Feed p (cont_byte x) d =
    (let v = push_bit 6 (code_point d) OR take_bit 6 x
     in if 1 < remaining d then (d\<lparr>code_point := v, remaining := remaining d - 1\<rparr>, Inr (None, True))
        else if v \<ge> minimum d \<and> IsValidCodePoint v then (Reset, Inr (Some v, True))
        else (Reset, invalid_step p True))"
  using assms by (auto simp: Feed_def cont_byte_tag cont_byte_value Let_def)

lemma unat_drop_bit_div: "unat (drop_bit k c) = unat c div 2 ^ k" for c :: "'a::len word"
  unfolding unat_drop_bit_eq by (rule drop_bit_eq_div)

lemma drop_bit_less:
  fixes c :: u32
  assumes "c < 2 ^ (k + m)" and "k + m < 32"
  shows "drop_bit k c < 2 ^ m"
proof -
  have "unat (2 ^ (k + m) :: u32) = 2 ^ (k + m)" using assms(2) by simp
  then have "unat c < 2 ^ m * 2 ^ k"
    using assms(1) unfolding word_less_nat_alt by (simp add: power_add mult.commute)
  then have "unat c div 2 ^ k < 2 ^ m" by (simp add: less_mult_imp_div_less)
  with assms(2) show ?thesis by (simp add: word_less_nat_alt unat_drop_bit_div)
qed

lemma drop_bit_ge:
  fixes c :: u32
  assumes "2 ^ (k + m) \<le> c" and "k + m < 32"
  shows "2 ^ m \<le> drop_bit k c"
proof -
  have "unat (2 ^ (k + m) :: u32) = 2 ^ (k + m)" using assms(2) by simp
  then have "2 ^ m * 2 ^ k \<le> unat c"
    using assms(1) unfolding word_le_nat_alt by (simp add: power_add mult.commute)
  then have "2 ^ m \<le> unat c div 2 ^ k" by (simp add: less_eq_div_iff_mult_less_eq)
  with assms(2) show ?thesis by (simp add: word_le_nat_alt unat_drop_bit_div)
qed

lemma join_next:
  "push_bit 6 (drop_bit 12 c) OR take_bit 6 (drop_bit 6 c) = drop_bit 6 c"
  "push_bit 6 (drop_bit 18 c) OR take_bit 6 (drop_bit 12 c) = drop_bit 12 c" for c :: u32
  using join_bits [of 6 "drop_bit 6 c"] join_bits [of 6 "drop_bit 12 c"] by (simp_all add: drop_bit_drop_bit)

lemma EncodeUtf8_valid:
  assumes "IsValidCodePoint c"
  shows "EncodeUtf8 c = Inr (if c \<le> 0x7F then [ucast c]
    else if c \<le> 0x7FF then [ucast (0xC0 OR drop_bit 6 c), cont_byte c]
    else if c \<le> 0xFFFF then [ucast (0xE0 OR drop_bit 12 c), cont_byte (drop_bit 6 c), cont_byte c]
    else [ucast (0xF0 OR drop_bit 18 c), cont_byte (drop_bit 12 c), cont_byte (drop_bit 6 c), cont_byte c])"
  using assms by (simp add: EncodeUtf8_def cont_byte_def)

lemma lead_Feed:
  fixes x :: u32
  shows "2 \<le> x \<Longrightarrow> x < 2 ^ 5 \<Longrightarrow> Feed p (ucast (0xC0 OR x)) Reset =
      (\<lparr>code_point = x, minimum = 0x80, remaining = 1\<rparr>, Inr (None, True))"
    and "x < 2 ^ 4 \<Longrightarrow> Feed p (ucast (0xE0 OR x)) Reset =
      (\<lparr>code_point = x, minimum = 0x800, remaining = 2\<rparr>, Inr (None, True))"
    and "x \<le> 4 \<Longrightarrow> Feed p (ucast (0xF0 OR x)) Reset =
      (\<lparr>code_point = x, minimum = 0x10000, remaining = 3\<rparr>, Inr (None, True))"
proof -
  show "Feed p (ucast (0xC0 OR x)) Reset =
      (\<lparr>code_point = x, minimum = 0x80, remaining = 1\<rparr>, Inr (None, True))" if x: "2 \<le> x" "x < 2 ^ 5"
    using x lead_unat(1) [OF x(2)] lead_value(1) [OF x(2)]
    by (simp add: Feed_def Reset_def word_le_nat_alt word_less_nat_alt)
  show "Feed p (ucast (0xE0 OR x)) Reset =
      (\<lparr>code_point = x, minimum = 0x800, remaining = 2\<rparr>, Inr (None, True))" if x: "x < 2 ^ 4"
    using x lead_unat(2) [OF x] lead_value(2) [OF x]
    by (simp add: Feed_def Reset_def word_le_nat_alt word_less_nat_alt)
  show "Feed p (ucast (0xF0 OR x)) Reset =
      (\<lparr>code_point = x, minimum = 0x10000, remaining = 3\<rparr>, Inr (None, True))" if x4: "x \<le> 4"
  proof -
    have x: "x < 2 ^ 3" using x4 by (simp add: word_le_nat_alt word_less_nat_alt)
    show ?thesis
      using x4 lead_unat(3) [OF x] lead_value(3) [OF x]
      by (simp add: Feed_def Reset_def word_le_nat_alt word_less_nat_alt)
  qed
qed

lemma feeds_encode:
  assumes "IsValidCodePoint c" and "EncodeUtf8 c = Inr bs"
  shows "feeds bs Reset = Some (Reset, [c])"
proof -
  have r: "remaining Reset = 0" by (simp add: Reset_def)
  have max: "c \<le> 0x10FFFF" using assms(1) by (simp add: IsValidCodePoint_def)
  note enc = EncodeUtf8_valid [OF assms(1)] assms(2)
  consider "c \<le> 0x7F" | "0x7F < c" "c \<le> 0x7FF" | "0x7FF < c" "c \<le> 0xFFFF" | "0xFFFF < c"
    by fastforce
  then show ?thesis
  proof cases
    case 1
    have "ucast (ucast c :: byte) = c" and "(ucast c :: byte) \<le> 0x7F"
    proof -
      have "unat c < 128" using 1 by (simp add: word_le_nat_alt)
      then have u: "unat (ucast c :: byte) = unat c" by (simp add: unat_ucast take_bit_nat_eq_self)
      then show "(ucast c :: byte) \<le> 0x7F" using \<open>unat c < 128\<close> by (simp add: word_le_nat_alt)
      show "ucast (ucast c :: byte) = c"
        by (rule word_unat_eqI) (use u \<open>unat c < 128\<close> in \<open>simp add: unat_ucast take_bit_nat_eq_self\<close>)
    qed
    moreover have "bs = [ucast c]" using 1 enc by simp
    ultimately show ?thesis by (simp add: Feed_def r)
  next
    case 2
    have bs: "bs = [ucast (0xC0 OR drop_bit 6 c), cont_byte c]" using 2 enc by simp
    have "drop_bit 6 c < 2 ^ 5" "2 ^ 1 \<le> drop_bit 6 c"
      using drop_bit_less [of c 6 5] drop_bit_ge [of 6 1 c] 2
      by (simp_all add: word_le_nat_alt word_less_nat_alt)
    with lead_Feed(1) [of "drop_bit 6 c" Reject] have
      "Feed Reject (ucast (0xC0 OR drop_bit 6 c)) Reset =
        (\<lparr>code_point = drop_bit 6 c, minimum = 0x80, remaining = 1\<rparr>, Inr (None, True))" by simp
    moreover have "0x80 \<le> c" using 2 by (simp add: word_le_nat_alt word_less_nat_alt)
    ultimately show ?thesis
      using assms(1) by (simp add: bs Feed_cont Let_def join_bits)
  next
    case 3
    have bs: "bs = [ucast (0xE0 OR drop_bit 12 c), cont_byte (drop_bit 6 c), cont_byte c]"
      using 3 enc by (auto simp: word_le_nat_alt word_less_nat_alt)
    have "drop_bit 12 c < 2 ^ 4"
      using drop_bit_less [of c 12 4] 3 by (simp add: word_le_nat_alt word_less_nat_alt)
    with lead_Feed(2) [of "drop_bit 12 c" Reject] have
      "Feed Reject (ucast (0xE0 OR drop_bit 12 c)) Reset =
        (\<lparr>code_point = drop_bit 12 c, minimum = 0x800, remaining = 2\<rparr>, Inr (None, True))" by simp
    moreover have "0x800 \<le> c" using 3 by (simp add: word_le_nat_alt word_less_nat_alt)
    ultimately show ?thesis
      using assms(1) by (simp add: bs Feed_cont Let_def join_bits join_next)
  next
    case 4
    have bs: "bs = [ucast (0xF0 OR drop_bit 18 c), cont_byte (drop_bit 12 c), cont_byte (drop_bit 6 c),
        cont_byte c]"
      using 4 enc by (auto simp: word_le_nat_alt word_less_nat_alt)
    have "drop_bit 18 c \<le> 4"
    proof -
      have "unat c div 2 ^ 18 \<le> 0x10FFFF div 2 ^ 18"
        by (rule div_le_mono) (use max in \<open>simp add: word_le_nat_alt\<close>)
      then show ?thesis by (simp add: word_le_nat_alt unat_drop_bit_div)
    qed
    with lead_Feed(3) [of "drop_bit 18 c" Reject] have
      "Feed Reject (ucast (0xF0 OR drop_bit 18 c)) Reset =
        (\<lparr>code_point = drop_bit 18 c, minimum = 0x10000, remaining = 3\<rparr>, Inr (None, True))" by simp
    moreover have "0x10000 \<le> c" using 4 by (simp add: word_le_nat_alt word_less_nat_alt)
    ultimately show ?thesis
      using assms(1) by (simp add: bs Feed_cont Let_def join_bits join_next)
  qed
qed

section \<open>What decodes has been encoded\<close>

lemma bit_take_less: "x < 2 ^ k \<Longrightarrow> bit x n \<Longrightarrow> n < k" for x :: "'a::len word"
  using bit_word_less_exp [of x k n] by (cases "k \<le> n") auto

lemma take_bit_word_bound: "m < LENGTH('a) \<Longrightarrow> take_bit m w < 2 ^ m" for w :: "'a::len word"
  by (simp add: word_less_nat_alt unsigned_take_bit_eq take_bit_nat_less_exp)

lemma unat_byte_up [simp]: "unat (ucast b :: u32) = unat b" for b :: byte
proof -
  have "unat b < 2 ^ 32" using unat_lt2p [of b] by simp
  then show ?thesis by (simp add: unat_ucast take_bit_nat_eq_self)
qed

lemma split6:
  fixes y z :: u32
  assumes y: "y < 2 ^ 6" and z: "z < 2 ^ k" and k: "k + 6 < 32"
  shows "drop_bit 6 (push_bit 6 z OR y) = z" and "take_bit 6 (push_bit 6 z OR y) = y"
    and "push_bit 6 z OR y < 2 ^ (k + 6)"
proof -
  show "drop_bit 6 (push_bit 6 z OR y) = z"
    using k by (intro bit_word_eqI, simp only: bit_drop_bit_eq bit_or_iff bit_push_bit_iff comp_apply,
        auto dest: bit_take_less [OF z] bit_take_less [OF y])
  show "take_bit 6 (push_bit 6 z OR y) = y"
    by (intro bit_word_eqI, simp only: bit_take_bit_iff bit_or_iff bit_push_bit_iff,
        auto dest: bit_take_less [OF y])
  show "push_bit 6 z OR y < 2 ^ (k + 6)"
  proof -
    have "take_bit (k + 6) (push_bit 6 z OR y) = push_bit 6 z OR y"
      by (intro bit_word_eqI, simp only: bit_take_bit_iff bit_or_iff bit_push_bit_iff,
          auto dest: bit_take_less [OF z] bit_take_less [OF y])
    moreover have "take_bit (k + 6) (push_bit 6 z OR y) < 2 ^ (k + 6)"
      by (rule take_bit_word_bound) (use k in simp)
    ultimately show ?thesis by simp
  qed
qed

lemma cont_inverse:
  assumes "b AND 0xC0 = 0x80"
  shows "b = cont_byte (ucast (b AND 0x3F))" and "(ucast (b AND 0x3F) :: u32) < 2 ^ 6"
proof -
  have high: "bit b 7" "\<not> bit b 6"
    using arg_cong [OF assms, of "\<lambda>w. bit w 7"] arg_cong [OF assms, of "\<lambda>w. bit w 6"]
    by (simp_all only: word_bits) auto
  show "b = cont_byte (ucast (b AND 0x3F))"
  proof (rule bit_word_eqI)
    fix n assume "n < LENGTH(8)"
    then have "n < 6 \<or> n = 6 \<or> n = 7" by auto
    with high show "bit b n = bit (cont_byte (ucast (b AND 0x3F))) n"
      unfolding cont_byte_def by (simp only: word_bits) auto
  qed
  have "unat (b AND 0x3F) < 64"
    using take_bit_nat_less_exp [of 6 "unat b"]
    unfolding mask_numerals take_bit_eq_mask [symmetric] by (simp add: unsigned_take_bit_eq)
  then show "(ucast (b AND 0x3F) :: u32) < 2 ^ 6"
    by (simp add: word_less_nat_alt unat_ucast take_bit_nat_eq_self)
qed


lemma mod_block: "q * m \<le> n \<Longrightarrow> n < q * m + m \<Longrightarrow> n mod m = n - q * m" for n q m :: nat
proof -
  assume a: "q * m \<le> n" "n < q * m + m"
  then have "n mod m = ((n - q * m) + q * m) mod m" by simp
  also have "\<dots> = (n - q * m) mod m" by (rule mod_mult_self1)
  also have "\<dots> = n - q * m" by (rule mod_less) (use a in linarith)
  finally show ?thesis .
qed

lemma lead_inverse:
  fixes b :: byte
  shows "0xC2 \<le> b \<Longrightarrow> b \<le> 0xDF \<Longrightarrow>
      b = ucast (0xC0 OR (ucast (b AND 0x1F) :: u32)) \<and> 2 \<le> (ucast (b AND 0x1F) :: u32) \<and>
      (ucast (b AND 0x1F) :: u32) < 2 ^ 5"
    and "0xE0 \<le> b \<Longrightarrow> b \<le> 0xEF \<Longrightarrow>
      b = ucast (0xE0 OR (ucast (b AND 0x0F) :: u32)) \<and> (ucast (b AND 0x0F) :: u32) < 2 ^ 4"
    and "0xF0 \<le> b \<Longrightarrow> b \<le> 0xF4 \<Longrightarrow>
      b = ucast (0xF0 OR (ucast (b AND 0x07) :: u32)) \<and> (ucast (b AND 0x07) :: u32) \<le> 4"
proof -
  have low: "unat (ucast (b AND mask k) :: u32) = unat b mod 2 ^ k" for k
    unfolding unat_byte_up take_bit_eq_mask [symmetric] unsigned_take_bit_eq by (rule take_bit_eq_mod)
  show "b = ucast (0xC0 OR (ucast (b AND 0x1F) :: u32)) \<and> 2 \<le> (ucast (b AND 0x1F) :: u32) \<and>
      (ucast (b AND 0x1F) :: u32) < 2 ^ 5" if b: "0xC2 \<le> b" "b \<le> 0xDF"
  proof -
    have u: "unat (ucast (b AND 0x1F) :: u32) = unat b mod 32"
      unfolding mask_numerals low by simp
    have m: "unat b mod 32 = unat b - 192"
      using mod_block [of 6 32 "unat b"] b by (simp add: word_le_nat_alt)
    then have r: "2 \<le> (ucast (b AND 0x1F) :: u32)" "(ucast (b AND 0x1F) :: u32) < 2 ^ 5"
      using b u by (simp_all add: word_le_nat_alt word_less_nat_alt)
    have "unat (ucast (0xC0 OR (ucast (b AND 0x1F) :: u32)) :: byte) = 0xC0 + (unat b - 192)"
      unfolding lead_unat(1) [OF r(2)] u m ..
    then have "b = ucast (0xC0 OR (ucast (b AND 0x1F) :: u32))"
      using b by (intro word_unat_eqI) (simp add: word_le_nat_alt)
    with r show ?thesis by blast
  qed
  show "b = ucast (0xE0 OR (ucast (b AND 0x0F) :: u32)) \<and> (ucast (b AND 0x0F) :: u32) < 2 ^ 4"
    if b: "0xE0 \<le> b" "b \<le> 0xEF"
  proof -
    have u: "unat (ucast (b AND 0x0F) :: u32) = unat b mod 16"
      unfolding mask_numerals low by simp
    have m: "unat b mod 16 = unat b - 224"
      using mod_block [of 14 16 "unat b"] b by (simp add: word_le_nat_alt)
    then have r: "(ucast (b AND 0x0F) :: u32) < 2 ^ 4"
      using b u by (simp add: word_le_nat_alt word_less_nat_alt)
    have "unat (ucast (0xE0 OR (ucast (b AND 0x0F) :: u32)) :: byte) = 0xE0 + (unat b - 224)"
      unfolding lead_unat(2) [OF r] u m ..
    then have "b = ucast (0xE0 OR (ucast (b AND 0x0F) :: u32))"
      using b by (intro word_unat_eqI) (simp add: word_le_nat_alt)
    with r show ?thesis by blast
  qed
  show "b = ucast (0xF0 OR (ucast (b AND 0x07) :: u32)) \<and> (ucast (b AND 0x07) :: u32) \<le> 4"
    if b: "0xF0 \<le> b" "b \<le> 0xF4"
  proof -
    have u: "unat (ucast (b AND 0x07) :: u32) = unat b mod 8"
      unfolding mask_numerals low by simp
    have m: "unat b mod 8 = unat b - 240"
      using mod_block [of 30 8 "unat b"] b by (simp add: word_le_nat_alt)
    then have r: "(ucast (b AND 0x07) :: u32) \<le> 4" "(ucast (b AND 0x07) :: u32) < 2 ^ 3"
      using b u by (simp_all add: word_le_nat_alt word_less_nat_alt)
    have "unat (ucast (0xF0 OR (ucast (b AND 0x07) :: u32)) :: byte) = 0xF0 + (unat b - 240)"
      unfolding lead_unat(3) [OF r(2)] u m ..
    then have "b = ucast (0xF0 OR (ucast (b AND 0x07) :: u32))"
      using b by (intro word_unat_eqI) (simp add: word_le_nat_alt)
    with r show ?thesis by blast
  qed
qed


text \<open>The bytes and the code points that decode from the reset state: each lead byte is followed by its
  continuation bytes, so the bytes are encodings of the code points.\<close>

lemma Feed_not_cont:
  assumes "0 < remaining d" and "b AND 0xC0 \<noteq> 0x80"
  shows "feeds (b # bs) d = None"
  using assms by (simp add: Feed_def invalid_step_def)

lemma feeds_cont:
  assumes "1 < remaining d" and "feeds bs d = Some (e, cps)" and "Complete e"
  obtains y ys where "bs = cont_byte y # ys" "y < 2 ^ 6"
    "feeds ys (d\<lparr>code_point := push_bit 6 (code_point d) OR y, remaining := remaining d - 1\<rparr>) = Some (e, cps)"
proof (cases bs)
  case Nil
  with assms show ?thesis by (simp add: Complete_def)
next
  case (Cons b ys)
  with assms(1,2) Feed_not_cont [of d b ys] have tag: "b AND 0xC0 = 0x80" by auto
  define y :: u32 where "y = ucast (b AND 0x3F)"
  note inv = cont_inverse [OF tag, folded y_def]
  have "take_bit 6 y = y" using inv(2) by (rule take_bit_word_less)
  with assms(1,2) Cons inv(1) Feed_cont [of d Reject y] have
    "feeds ys (d\<lparr>code_point := push_bit 6 (code_point d) OR y, remaining := remaining d - 1\<rparr>) = Some (e, cps)"
    by (auto simp: Let_def split: Option.bind_splits)
  with Cons inv that show ?thesis by blast
qed

lemma feeds_last:
  assumes "remaining d = 1" and "feeds bs d = Some (e, cps)" and "Complete e"
  obtains y ys cps' where "bs = cont_byte y # ys" "y < 2 ^ 6" "cps = (push_bit 6 (code_point d) OR y) # cps'"
    "feeds ys Reset = Some (e, cps')" "minimum d \<le> push_bit 6 (code_point d) OR y"
    "IsValidCodePoint (push_bit 6 (code_point d) OR y)"
proof (cases bs)
  case Nil
  with assms show ?thesis by (simp add: Complete_def)
next
  case (Cons b ys)
  with assms(1,2) Feed_not_cont [of d b ys] have tag: "b AND 0xC0 = 0x80" by auto
  define y :: u32 where "y = ucast (b AND 0x3F)"
  note inv = cont_inverse [OF tag, folded y_def]
  have "take_bit 6 y = y" using inv(2) by (rule take_bit_word_less)
  with assms(1,2) Cons inv(1) Feed_cont [of d Reject y] obtain cps' where
    "cps = (push_bit 6 (code_point d) OR y) # cps'" "feeds ys Reset = Some (e, cps')"
    "minimum d \<le> push_bit 6 (code_point d) OR y" "IsValidCodePoint (push_bit 6 (code_point d) OR y)"
    by (auto simp: Let_def invalid_step_def split: Option.bind_splits if_splits)
  with Cons inv that show ?thesis by blast
qed

definition utf8_of :: "u32 list \<Rightarrow> byte list" where
  "utf8_of cps = concat (map (\<lambda>c. case EncodeUtf8 c of Inl _ \<Rightarrow> [] | Inr bs \<Rightarrow> bs) cps)"

lemma utf8_of_simps [simp]:
  "utf8_of [] = []"
  "utf8_of (c # cps) = (case EncodeUtf8 c of Inl _ \<Rightarrow> [] | Inr bs \<Rightarrow> bs) @ utf8_of cps"
  by (simp_all add: utf8_of_def)

text \<open>What decodes starts with the encoding of the first code point that is delivered.\<close>

definition head_decoded :: "byte list \<Rightarrow> utf8_decoder \<Rightarrow> u32 list \<Rightarrow> bool" where
  "head_decoded bs e cps \<longleftrightarrow>
     (\<exists>v enc ys cps'. IsValidCodePoint v \<and> EncodeUtf8 v = Inr enc \<and> enc \<noteq> [] \<and> bs = enc @ ys \<and>
       cps = v # cps' \<and> feeds ys Reset = Some (e, cps'))"

lemma head_decodedI:
  assumes "IsValidCodePoint v" and "EncodeUtf8 v = Inr enc"
    and "bs = enc @ ys" and "cps = v # cps'" and "feeds ys Reset = Some (e, cps')"
  shows "head_decoded bs e cps"
proof -
  have "enc \<noteq> []" using assms(1,2) by (auto simp: EncodeUtf8_def split: if_splits)
  with assms show ?thesis unfolding head_decoded_def by blast
qed

lemma head_ascii:
  assumes "feeds (b # rest) Reset = Some (e, cps)" and "Complete e" and "b \<le> 0x7F"
  shows "head_decoded (b # rest) e cps"
proof -
  obtain cps' where c: "cps = ucast b # cps'" "feeds rest Reset = Some (e, cps')"
    using assms(1,3) by (auto simp: Feed_def Reset_def split: Option.bind_splits)
  have ub: "unat b \<le> 127" using assms(3) by (simp add: word_le_nat_alt)
  then have v: "IsValidCodePoint (ucast b)" "(ucast b :: u32) \<le> 0x7F"
    by (simp_all add: IsValidCodePoint_def word_le_nat_alt)
  have "ucast (ucast b :: u32) = b"
    by (rule word_unat_eqI) (use ub in \<open>simp add: unat_ucast take_bit_nat_eq_self\<close>)
  then have enc: "EncodeUtf8 (ucast b) = Inr [b]" using v by (simp add: EncodeUtf8_def)
  show ?thesis by (rule head_decodedI [OF v(1) enc _ _ c(2)]) (simp_all add: c)
qed

lemma head_two:
  assumes "feeds (b # rest) Reset = Some (e, cps)" and "Complete e" and "0xC2 \<le> b" and "b \<le> 0xDF"
  shows "head_decoded (b # rest) e cps"
proof -
  define x :: u32 where "x = ucast (b AND 0x1F)"
  have x: "b = ucast (0xC0 OR x)" "2 \<le> x" "x < 2 ^ 5"
    using lead_inverse(1) [OF assms(3,4)] unfolding x_def by auto
  from assms(1) lead_Feed(1) [OF x(2,3), of Reject] x(1)
  have "feeds rest \<lparr>code_point = x, minimum = 0x80, remaining = 1\<rparr> = Some (e, cps)"
    by (auto split: Option.bind_splits)
  then obtain y ys cps' where y: "rest = cont_byte y # ys" "y < 2 ^ 6"
    "cps = (push_bit 6 x OR y) # cps'" "feeds ys Reset = Some (e, cps')"
    "0x80 \<le> push_bit 6 x OR y" "IsValidCodePoint (push_bit 6 x OR y)"
    by (rule feeds_last [OF _ _ assms(2), rotated]) simp_all
  let ?v = "push_bit 6 x OR y"
  have v: "drop_bit 6 ?v = x" "take_bit 6 ?v = y" "?v < 2 ^ 11"
    using split6 [OF y(2) x(3)] by simp_all
  have "cont_byte ?v = cont_byte y"
    unfolding cont_byte_def mask_numerals take_bit_eq_mask [symmetric] v(2)
      take_bit_word_less [OF y(2)] ..
  with v y(5,6) x(1) have enc: "EncodeUtf8 ?v = Inr [b, cont_byte y]"
    by (simp add: EncodeUtf8_valid word_le_nat_alt word_less_nat_alt)
  show ?thesis by (rule head_decodedI [OF y(6) enc _ _ y(4)]) (simp_all add: y(1,3))
qed

lemma head_three:
  assumes "feeds (b # rest) Reset = Some (e, cps)" and "Complete e" and "0xE0 \<le> b" and "b \<le> 0xEF"
  shows "head_decoded (b # rest) e cps"
proof -
  define x :: u32 where "x = ucast (b AND 0x0F)"
  have x: "b = ucast (0xE0 OR x)" "x < 2 ^ 4"
    using lead_inverse(2) [OF assms(3,4)] unfolding x_def by auto
  from assms(1) lead_Feed(2) [OF x(2), of Reject] x(1)
  have f: "feeds rest \<lparr>code_point = x, minimum = 0x800, remaining = 2\<rparr> = Some (e, cps)"
    by (auto split: Option.bind_splits)
  obtain y1 ys1 where y1: "rest = cont_byte y1 # ys1" "y1 < 2 ^ 6"
    "feeds ys1 \<lparr>code_point = push_bit 6 x OR y1, minimum = 0x800, remaining = 1\<rparr> = Some (e, cps)"
    by (rule feeds_cont [OF _ f assms(2)]) simp_all
  obtain y ys cps' where y: "ys1 = cont_byte y # ys" "y < 2 ^ 6"
    "cps = (push_bit 6 (push_bit 6 x OR y1) OR y) # cps'" "feeds ys Reset = Some (e, cps')"
    "0x800 \<le> push_bit 6 (push_bit 6 x OR y1) OR y"
    "IsValidCodePoint (push_bit 6 (push_bit 6 x OR y1) OR y)"
    by (rule feeds_last [OF _ y1(3) assms(2)]) simp_all
  let ?w = "push_bit 6 x OR y1"
  let ?v = "push_bit 6 ?w OR y"
  have w: "drop_bit 6 ?w = x" "take_bit 6 ?w = y1" "?w < 2 ^ 10"
    using split6 [OF y1(2) x(2)] by simp_all
  have v: "drop_bit 6 ?v = ?w" "take_bit 6 ?v = y" "?v < 2 ^ 16"
    using split6 [OF y(2) w(3)] by simp_all
  have v12: "drop_bit 12 ?v = x"
    using arg_cong [OF v(1), of "drop_bit 6"] w(1) by (simp add: drop_bit_drop_bit)
  have c: "cont_byte ?v = cont_byte y" "cont_byte ?w = cont_byte y1"
    unfolding cont_byte_def mask_numerals take_bit_eq_mask [symmetric] v(2) w(2)
      take_bit_word_less [OF y(2)] take_bit_word_less [OF y1(2)] by (rule refl)+
  have enc: "EncodeUtf8 ?v = Inr [b, cont_byte y1, cont_byte y]"
    using EncodeUtf8_valid [OF y(6)] y(5) v(3) unfolding v12 v(1) c x(1)
    by (auto simp: word_le_nat_alt word_less_nat_alt)
  show ?thesis by (rule head_decodedI [OF y(6) enc _ _ y(4)]) (simp_all add: y1(1) y(1,3))
qed

lemma head_four:
  assumes "feeds (b # rest) Reset = Some (e, cps)" and "Complete e" and "0xF0 \<le> b" and "b \<le> 0xF4"
  shows "head_decoded (b # rest) e cps"
proof -
  define x :: u32 where "x = ucast (b AND 0x07)"
  have x: "b = ucast (0xF0 OR x)" "x \<le> 4"
    using lead_inverse(3) [OF assms(3,4)] unfolding x_def by auto
  then have x3: "x < 2 ^ 3" by (simp add: word_le_nat_alt word_less_nat_alt)
  from assms(1) lead_Feed(3) [OF x(2), of Reject] x(1)
  have f: "feeds rest \<lparr>code_point = x, minimum = 0x10000, remaining = 3\<rparr> = Some (e, cps)"
    by (auto split: Option.bind_splits)
  obtain y2 ys2 where y2: "rest = cont_byte y2 # ys2" "y2 < 2 ^ 6"
    "feeds ys2 \<lparr>code_point = push_bit 6 x OR y2, minimum = 0x10000, remaining = 2\<rparr> = Some (e, cps)"
    by (rule feeds_cont [OF _ f assms(2)]) simp_all
  obtain y1 ys1 where y1: "ys2 = cont_byte y1 # ys1" "y1 < 2 ^ 6"
    "feeds ys1 \<lparr>code_point = push_bit 6 (push_bit 6 x OR y2) OR y1, minimum = 0x10000,
      remaining = 1\<rparr> = Some (e, cps)"
    by (rule feeds_cont [OF _ y2(3) assms(2)]) simp_all
  let ?u = "push_bit 6 x OR y2"
  let ?w = "push_bit 6 ?u OR y1"
  obtain y ys cps' where y: "ys1 = cont_byte y # ys" "y < 2 ^ 6"
    "cps = (push_bit 6 ?w OR y) # cps'" "feeds ys Reset = Some (e, cps')"
    "0x10000 \<le> push_bit 6 ?w OR y" "IsValidCodePoint (push_bit 6 ?w OR y)"
    by (rule feeds_last [OF _ y1(3) assms(2)]) simp_all
  let ?v = "push_bit 6 ?w OR y"
  have u: "drop_bit 6 ?u = x" "take_bit 6 ?u = y2" "?u < 2 ^ 9"
    using split6 [OF y2(2) x3] by simp_all
  have w: "drop_bit 6 ?w = ?u" "take_bit 6 ?w = y1" "?w < 2 ^ 15"
    using split6 [OF y1(2) u(3)] by simp_all
  have v: "drop_bit 6 ?v = ?w" "take_bit 6 ?v = y"
    using split6 [OF y(2) w(3)] by simp_all
  have v12: "drop_bit 12 ?v = ?u"
    using arg_cong [OF v(1), of "drop_bit 6"] w(1) by (simp add: drop_bit_drop_bit)
  have v18: "drop_bit 18 ?v = x"
    using arg_cong [OF v12, of "drop_bit 6"] u(1) by (simp add: drop_bit_drop_bit)
  have c: "cont_byte ?v = cont_byte y" "cont_byte ?w = cont_byte y1" "cont_byte ?u = cont_byte y2"
    unfolding cont_byte_def mask_numerals take_bit_eq_mask [symmetric] v(2) w(2) u(2)
      take_bit_word_less [OF y(2)] take_bit_word_less [OF y1(2)] take_bit_word_less [OF y2(2)]
    by (rule refl)+
  have enc: "EncodeUtf8 ?v = Inr [b, cont_byte y2, cont_byte y1, cont_byte y]"
    using EncodeUtf8_valid [OF y(6)] y(5) unfolding v18 v12 v(1) c x(1)
    by (auto simp: word_le_nat_alt)
  show ?thesis by (rule head_decodedI [OF y(6) enc _ _ y(4)]) (simp_all add: y2(1) y1(1) y(1,3))
qed

lemma head_decodes:
  assumes "feeds (b # rest) Reset = Some (e, cps)" and "Complete e"
  shows "head_decoded (b # rest) e cps"
proof -
  have "b \<le> 0x7F \<or> 0xC2 \<le> b \<and> b \<le> 0xDF \<or> 0xE0 \<le> b \<and> b \<le> 0xEF \<or> 0xF0 \<le> b \<and> b \<le> 0xF4"
    using assms(1) by (auto simp: Feed_def Reset_def invalid_step_def split: if_splits)
  then show ?thesis using head_ascii head_two head_three head_four assms by blast
qed

lemma feeds_sound:
  assumes "feeds bs Reset = Some (e, cps)" and "Complete e"
  shows "bs = utf8_of cps \<and> list_all IsValidCodePoint cps \<and> e = Reset"
  using assms
proof (induction "length bs" arbitrary: bs cps rule: less_induct)
  case less
  show ?case
  proof (cases bs)
    case Nil
    with less.prems show ?thesis by simp
  next
    case (Cons b rest)
    with head_decodes less.prems obtain v enc ys cps' where h: "IsValidCodePoint v" "EncodeUtf8 v = Inr enc"
      "enc \<noteq> []" "bs = enc @ ys" "cps = v # cps'" "feeds ys Reset = Some (e, cps')"
      unfolding head_decoded_def by metis
    have "ys = utf8_of cps' \<and> list_all IsValidCodePoint cps' \<and> e = Reset"
      by (rule less.hyps) (use h less.prems(2) in auto)
    with h show ?thesis by simp
  qed
qed

end
