(* ===== verification/Conversion.thy ===== *)
theory Conversion
  imports Utf
begin

text \<open>
  The conversions of \<^verbatim>\<open>IO/Text/Utf.hpp\<close> proved against the encoders of theory Utf: \<open>feeds\<close> and
  \<open>decode16\<close> say what a sequence of bytes or units means without any output, and the loops of the
  code are explained by them.
\<close>

section \<open>Decoding is inverse to encoding\<close>

lemma feeds_append:
  "feeds (xs @ ys) d =
    (case feeds xs d of
       None \<Rightarrow> None
     | Some (d', cs) \<Rightarrow> (case feeds ys d' of None \<Rightarrow> None | Some (e, ds) \<Rightarrow> Some (e, cs @ ds)))"
proof (induction xs arbitrary: d)
  case (Cons x xs)
  then show ?case by (auto split: prod.splits sum.splits option.splits bool.splits Option.bind_splits)
qed (auto split: option.splits)

lemma feeds_utf8_of:
  assumes "list_all IsValidCodePoint cps"
  shows "feeds (utf8_of cps) Reset = Some (Reset, cps)"
  using assms
proof (induction cps)
  case (Cons c cps)
  then have "IsValidCodePoint c" by simp
  from EncodeUtf8_valid [OF this] obtain bs where bs: "EncodeUtf8 c = Inr bs" by blast
  from feeds_encode [OF \<open>IsValidCodePoint c\<close> bs] Cons bs show ?case by (simp add: feeds_append)
qed simp

lemma Complete_Reset [simp]: "Complete Reset"
  by (simp add: Complete_def Reset_def)

section \<open>Appending to the output\<close>

text \<open>\<open>wrote cs r\<close>: the output holds \<open>cs\<close>, or there was no room for all of it.\<close>

definition wrote :: "'c::zero list \<Rightarrow> ('c bstr \<times> (io_error + unit)) option \<Rightarrow> bool" where
  "wrote cs r \<longleftrightarrow> (\<exists>s x. r = Some (s, x) \<and> (x = Inl no_room \<or> x = Inr () \<and> str_obj s cs))"

lemma wrote_cases:
  assumes "wrote cs r"
  obtains (full) s where "r = Some (s, Inl no_room)" | (ready) s where "r = Some (s, Inr ())" "str_obj s cs"
  using assms by (auto simp: wrote_def)

lemma push_units_wrote:
  assumes "str_obj s cs"
  shows "wrote (cs @ us) (push_units (machine mem) us s)"
  using assms
proof (induction us arbitrary: s cs)
  case Nil
  then show ?case by (simp add: wrote_def)
next
  case (Cons u us)
  from str_AppendChar_obj [OF Cons.prems, of mem u] show ?case
    unfolding finished_def
  proof (elim disjE exE conjE)
    fix s' assume "str_AppendChar (machine mem) s u = Some (s', True)" "str_obj s' (cs @ [u])"
    with Cons.IH [of s' "cs @ [u]"] show ?thesis by (simp add: str_PushBack_def)
  qed (simp add: str_PushBack_def wrote_def)
qed

lemma new_string:
  assumes "0 < n" and "n < 2 ^ 64" and "0 < sz" and "sz < 2 ^ 64"
  shows "\<exists>s ok. str_Reserve (machine mem) (str_empty sz True :: 'c::zero bstr) n = Some (s, ok) \<and>
    (ok \<longrightarrow> str_obj s [])"
proof -
  let ?e = "vec_empty sz True :: 'c vec"
  have e: "vec_obj ?e []" "vcap ?e = 0"
    using assms(3,4) by (simp_all add: vec_obj_def vec_rep_def vec_empty_def)
  then have rep: "vec_rep ?e []" and room: "vcap ?e < n \<longrightarrow> room (machine mem) ?e n"
    by (simp_all add: vec_obj_def room_allocator)
  from vec_Reserve_rep [OF rep room] show ?thesis
  proof (elim disjE exE conjE)
    fix v assume v: "vec_Reserve (machine mem) ?e n = Some (v, True)" "vec_rep v []"
      "vec_same (machine mem) ?e v" "n \<le> vcap v"
    have vobj: "vec_obj v []" by (rule vec_obj_next [OF e(1) v(2,3)])
    let ?s = "\<lparr>storage = v, bsize = 0\<rparr>"
    have cap: "vcap v \<noteq> 0" "vsize v = 0" using assms(1) v(4) vec_repD(2) [OF v(2)] by auto
    have eq: "str_Reserve (machine mem) (str_empty sz True) n =
      str_EnsureNullTerminated (machine mem) ?s"
      using v(1) by (simp add: str_Reserve_def str_empty_def)
    show ?thesis
    proof (cases rule: resize_obj [OF vobj, of mem 1 0])
      case 1
      with eq cap show ?thesis by (auto simp: str_EnsureNullTerminated_def)
    next
      case (2 w)
      then have "vec_obj w ([] @ [0])" by simp
      from str_set_last [OF this] obtain u where
        "storage_set w 0 0 = Some u" "vec_obj u [0]" by auto
      with 2(1) eq cap show ?thesis by (auto simp: str_EnsureNullTerminated_def str_obj_def)
    qed
  qed (auto simp: str_Reserve_def str_empty_def)
qed

section \<open>UTF-16 units\<close>

definition utf16_of :: "u32 list \<Rightarrow> u16 list" where
  "utf16_of cps = concat (map (\<lambda>c. case EncodeUtf16 c of Inl _ \<Rightarrow> [] | Inr us \<Rightarrow> us) cps)"

lemma utf16_of_simps [simp]:
  "utf16_of [] = []"
  "utf16_of (c # cps) = (case EncodeUtf16 c of Inl _ \<Rightarrow> [] | Inr us \<Rightarrow> us) @ utf16_of cps"
  by (simp_all add: utf16_of_def)

lemma unat_unit_up [simp]: "unat (ucast u :: u32) = unat u" for u :: u16
proof -
  have "unat u < 2 ^ 32" using unat_lt2p [of u] by simp
  then show ?thesis by (simp add: unat_ucast take_bit_nat_eq_self)
qed

lemma unat_unit_down: "unat c < 2 ^ 16 \<Longrightarrow> unat (ucast c :: u16) = unat c" for c :: u32
  by (simp add: unat_ucast take_bit_nat_eq_self)

text \<open>The units of a surrogate pair as sums.\<close>

lemma pair_units:
  fixes c :: u32
  assumes "0xFFFF < c" and "c \<le> 0x10FFFF"
  defines "n \<equiv> unat c - 0x10000"
  shows "unat (ucast (0xD800 + drop_bit 10 (c - 0x10000)) :: u16) = 0xD800 + n div 1024"
    and "unat (ucast (0xDC00 + ((c - 0x10000) AND 0x3FF)) :: u16) = 0xDC00 + n mod 1024"
    and "n < 0x100000"
proof -
  have c: "0x10000 \<le> unat c" "unat c \<le> 0x10FFFF"
    using assms(1,2) by (auto simp: word_le_nat_alt word_less_nat_alt)
  then have n: "unat (c - 0x10000) = n"
    unfolding n_def by (simp add: unat_sub word_le_nat_alt)
  show less: "n < 0x100000" using c unfolding n_def by simp
  have high: "unat (drop_bit 10 (c - 0x10000)) = n div 1024" unfolding unat_drop_bit_div n by simp
  have hb: "n div 1024 < 1024" using less by simp
  have "unat (0xD800 + drop_bit 10 (c - 0x10000)) = 0xD800 + n div 1024"
    using hb by (simp add: unat_word_ariths high)
  with hb show "unat (ucast (0xD800 + drop_bit 10 (c - 0x10000)) :: u16) = 0xD800 + n div 1024"
    by (simp add: unat_unit_down)
  have low: "unat ((c - 0x10000) AND 0x3FF) = n mod 1024"
    unfolding mask_numerals take_bit_eq_mask [symmetric] unsigned_take_bit_eq n by (simp add: take_bit_eq_mod)
  have lb: "n mod 1024 < 1024" by simp
  have "unat (0xDC00 + ((c - 0x10000) AND 0x3FF)) = 0xDC00 + n mod 1024"
    using lb by (simp add: unat_word_ariths low)
  with lb show "unat (ucast (0xDC00 + ((c - 0x10000) AND 0x3FF)) :: u16) = 0xDC00 + n mod 1024"
    by (simp add: unat_unit_down)
qed

lemma pair_value:
  fixes a b :: u16
  assumes "0xD800 \<le> a" and "a \<le> 0xDBFF" and "0xDC00 \<le> b" and "b \<le> 0xDFFF"
  defines "v \<equiv> 0x10000 + push_bit 10 (ucast a - 0xD800) + (ucast b - 0xDC00) :: u32"
  shows "unat v = 0x10000 + 1024 * (unat a - 0xD800) + (unat b - 0xDC00)"
proof -
  have r: "0xD800 \<le> unat a" "unat a \<le> 0xDBFF" "0xDC00 \<le> unat b" "unat b \<le> 0xDFFF"
    using assms(1-4) by (auto simp: word_le_nat_alt)
  have a: "unat (ucast a - 0xD800 :: u32) = unat a - 0xD800"
    using r by (simp add: unat_sub word_le_nat_alt)
  have b: "unat (ucast b - 0xDC00 :: u32) = unat b - 0xDC00"
    using r by (simp add: unat_sub word_le_nat_alt)
  have "unat (push_bit 10 x) = 1024 * unat x" if "unat x < 1024" for x :: u32
    using that unfolding push_bit_eq_mult by (simp add: unat_word_ariths mult.commute)
  from this [of "ucast a - 0xD800"] r have "unat (push_bit 10 (ucast a - 0xD800) :: u32) = 1024 * (unat a - 0xD800)"
    unfolding a by linarith
  with r show ?thesis unfolding v_def by (simp add: unat_word_ariths b)
qed

lemma next_pair:
  assumes "0xD800 \<le> a" and "a \<le> 0xDBFF" and "0xDC00 \<le> b" and "b \<le> 0xDFFF"
  shows "next_utf16 p i (a # b # rest) = Inr (0x10000 + push_bit 10 (ucast a - 0xD800) + (ucast b - 0xDC00), 2)"
  using assms by (simp add: next_utf16_def del: push_bit_numeral)

lemma next_encode:
  assumes "IsValidCodePoint c" and "EncodeUtf16 c = Inr us"
  shows "next_utf16 p i (us @ rest) = Inr (c, length us) \<and> us \<noteq> []"
proof (cases "c \<le> 0xFFFF")
  case True
  have us: "us = [ucast c]" using assms True by (simp add: EncodeUtf16_def)
  have "unat c < 2 ^ 16" using True by (simp add: word_le_nat_alt)
  then have u: "unat (ucast c :: u16) = unat c" by (rule unat_unit_down)
  have "ucast (ucast c :: u16) = c" by (rule word_unat_eqI) (simp add: u)
  moreover have "\<not> (0xD800 \<le> unat c \<and> unat c \<le> 0xDFFF)"
    using assms(1) by (simp add: IsValidCodePoint_def word_le_nat_alt)
  ultimately show ?thesis
    by (auto simp: us next_utf16_def word_le_nat_alt u)
next
  case False
  then have c: "0xFFFF < c" "c \<le> 0x10FFFF" using assms(1) by (auto simp: IsValidCodePoint_def)
  let ?a = "ucast (0xD800 + drop_bit 10 (c - 0x10000)) :: u16"
  let ?b = "ucast (0xDC00 + ((c - 0x10000) AND 0x3FF)) :: u16"
  let ?n = "unat c - 0x10000"
  have us: "us = [?a, ?b]" using assms False by (simp add: EncodeUtf16_def Let_def)
  note p = pair_units [OF c]
  have "?n div 1024 < 1024" "?n mod 1024 < 1024" using p(3) by simp_all
  then have r: "0xD800 \<le> ?a" "?a \<le> 0xDBFF" "0xDC00 \<le> ?b" "?b \<le> 0xDFFF"
    unfolding word_le_nat_alt p by simp_all
  have ge: "0x10000 \<le> unat c" using c(1) by (simp add: word_less_nat_alt)
  have "unat (0x10000 + push_bit 10 (ucast ?a - 0xD800) + (ucast ?b - 0xDC00) :: u32) =
      0x10000 + (1024 * (?n div 1024) + ?n mod 1024)"
    unfolding pair_value [OF r] p(1,2) diff_add_inverse by (rule add.assoc)
  also have "\<dots> = 0x10000 + ?n" by (simp only: mult_div_mod_eq)
  also have "\<dots> = unat c" using ge by simp
  finally have "0x10000 + push_bit 10 (ucast ?a - 0xD800) + (ucast ?b - 0xDC00) = c"
    by (rule word_unat_eqI)
  then show ?thesis unfolding us using next_pair [OF r, of p i rest] by simp
qed

lemma next_decode:
  assumes "next_utf16 Reject i src = Inr (c, k)" and "src \<noteq> []"
  shows "IsValidCodePoint c \<and> EncodeUtf16 c = Inr (take k src) \<and> k \<le> length src"
proof -
  from assms(2) obtain u rest where src: "src = u # rest" by (cases src) auto
  consider (pair) w rest' where "0xD800 \<le> u" "u \<le> 0xDBFF" "0xDC00 \<le> w" "w \<le> 0xDFFF" "rest = w # rest'"
      "c = 0x10000 + push_bit 10 (ucast u - 0xD800) + (ucast w - 0xDC00)" "k = 2"
    | (single) "\<not> (0xD800 \<le> u \<and> u \<le> 0xDFFF)" "c = ucast u" "k = 1"
    using assms(1) src unfolding word_le_nat_alt
      by (cases rest) (auto simp: next_utf16_def Let_def word_le_nat_alt split: if_splits)
  then show ?thesis
  proof cases
    case single
    have "unat u < 2 ^ 16" using unat_lt2p [of u] by simp
    then have "c \<le> 0xFFFF" "IsValidCodePoint c"
      using single(1) by (auto simp: single(2) IsValidCodePoint_def word_le_nat_alt)
    moreover have "ucast (ucast u :: u32) = u"
      by (rule word_unat_eqI) (use \<open>unat u < 2 ^ 16\<close> in \<open>simp add: unat_unit_down\<close>)
    ultimately show ?thesis using single by (simp add: EncodeUtf16_def src)
  next
    case pair
    have v: "unat c = 0x10000 + 1024 * (unat u - 0xD800) + (unat w - 0xDC00)"
      unfolding pair(6) by (rule pair_value [OF pair(1-4)])
    have r: "0xD800 \<le> unat u" "unat u \<le> 0xDBFF" "0xDC00 \<le> unat w" "unat w \<le> 0xDFFF"
      using pair(1-4) by (auto simp: word_le_nat_alt)
    let ?n = "1024 * (unat u - 0xD800) + (unat w - 0xDC00)"
    have n: "unat c - 0x10000 = ?n" using v by simp
    have "unat c \<le> 0x10FFFF" "0xFFFF < unat c" using v r by linarith+
    then have c: "0xFFFF < c" "c \<le> 0x10FFFF" by (simp_all add: word_le_nat_alt word_less_nat_alt)
    then have valid: "IsValidCodePoint c"
      by (auto simp: IsValidCodePoint_def word_le_nat_alt word_less_nat_alt)
    note p = pair_units [OF c, unfolded n]
    have "unat w - 0xDC00 < 1024" using r by linarith
    then have q: "?n div 1024 = unat u - 0xD800" "?n mod 1024 = unat w - 0xDC00" by simp_all
    have "ucast (0xD800 + drop_bit 10 (c - 0x10000)) = u"
      by (rule word_unat_eqI) (use p(1) r q in simp)
    moreover have "ucast (0xDC00 + ((c - 0x10000) AND 0x3FF)) = w"
      by (rule word_unat_eqI) (use p(2) r q in simp)
    ultimately have "EncodeUtf16 c = Inr [u, w]"
      using valid c(1) by (simp add: EncodeUtf16_def Let_def)
    with valid pair show ?thesis by (simp add: src)
  qed
qed

section \<open>The conversions\<close>

text \<open>What the UTF-16 loop reads, without the output: the code points, or the first error.\<close>

function decode16 :: "nat \<Rightarrow> u16 list \<Rightarrow> io_error + u32 list" where
  "decode16 i src =
     (if src = [] then Inr []
      else
        case next_utf16 Reject i src of
          Inl e \<Rightarrow> Inl e
        | Inr (c, k) \<Rightarrow> (case decode16 (i + k) (drop k src) of Inl e \<Rightarrow> Inl e | Inr cps \<Rightarrow> Inr (c # cps)))"
  by pat_completeness auto
termination
  by (relation "measure (\<lambda>(i, src). length src)")
    (auto dest!: next_utf16_units simp: length_greater_0_conv [symmetric] simp del: length_greater_0_conv)

declare decode16.simps [simp del]

lemma EncodeUtf16_valid: "IsValidCodePoint c \<Longrightarrow> \<exists>us. EncodeUtf16 c = Inr us"
  unfolding EncodeUtf16_def by metis

lemma decode16_utf16_of: "list_all IsValidCodePoint cps \<Longrightarrow> decode16 i (utf16_of cps) = Inr cps"
proof (induction cps arbitrary: i)
  case Nil
  then show ?case by (simp add: decode16.simps)
next
  case (Cons c cps)
  then have valid: "IsValidCodePoint c" by simp
  with EncodeUtf16_valid obtain us where us: "EncodeUtf16 c = Inr us" by blast
  from next_encode [OF valid us, of Reject i "utf16_of cps"] us Cons show ?case
    by (simp add: decode16.simps [of i "us @ utf16_of cps"])
qed

lemma decode16_sound:
  "case decode16 i src of
     Inl e \<Rightarrow> \<exists>k < length src. e = decode_error\<lparr>offset := i + k\<rparr>
   | Inr cps \<Rightarrow> list_all IsValidCodePoint cps \<and> src = utf16_of cps"
proof (induction i src rule: decode16.induct)
  case (1 i src)
  show ?case
  proof (cases "src = []")
    case True
    then show ?thesis by (simp add: decode16.simps)
  next
    case False
    show ?thesis
    proof (cases "next_utf16 Reject i src")
      case (Inl e)
      then have "e = decode_error\<lparr>offset := i + 0\<rparr>"
        by (auto simp: next_utf16_def decode_error_def Semantic_def Let_def split: if_splits)
      with Inl False show ?thesis by (auto simp: decode16.simps [of i src])
    next
      case (Inr ck)
      then obtain c k where ck: "next_utf16 Reject i src = Inr (c, k)" by (cases ck) auto
      note d = next_decode [OF ck False]
      note IH = 1 [OF False ck refl]
      show ?thesis
      proof (cases "decode16 (i + k) (drop k src)")
        case (Inl e)
        with IH obtain j where "j < length src - k" "e = decode_error\<lparr>offset := i + k + j\<rparr>" by auto
        then have "k + j < length src \<and> e = decode_error\<lparr>offset := i + (k + j)\<rparr>" by (simp add: add.assoc)
        with Inl ck False show ?thesis by (auto simp: decode16.simps [of i src])
      next
        case (Inr cps)
        with IH have "list_all IsValidCodePoint cps" "drop k src = utf16_of cps" by auto
        moreover have "src = take k src @ drop k src" by simp
        ultimately show ?thesis using d ck False Inr by (simp add: decode16.simps [of i src])
      qed
    qed
  qed
qed

text \<open>\<open>explains cs target run\<close>: the run of a loop that appends to \<open>cs\<close> is explained by \<open>target\<close>, the
  result of decoding the source.\<close>

definition explains :: "'c::zero list \<Rightarrow> io_error + 'c list \<Rightarrow> ('c bstr \<times> (io_error + unit)) option \<Rightarrow> bool" where
  "explains cs target run \<longleftrightarrow> (\<exists>out r. run = Some (out, r) \<and>
     (r = Inl no_room \<or>
      (case target of Inl e \<Rightarrow> r = Inl e | Inr ds \<Rightarrow> r = Inr () \<and> str_obj out (cs @ ds))))"

lemma utf16_loop_explained:
  "str_obj out bs \<Longrightarrow>
    explains bs (map_sum id utf8_of (decode16 i src)) (utf16_loop (machine mem) Reject i src out)"
proof (induction i src arbitrary: out bs rule: decode16.induct)
  case (1 i src)
  show ?case
  proof (cases "src = []")
    case True
    with 1(2) show ?thesis by (simp add: decode16.simps explains_def)
  next
    case False
    show ?thesis
    proof (cases "next_utf16 Reject i src")
      case (Inl e)
      with False show ?thesis by (simp add: decode16.simps [of i src] explains_def)
    next
      case (Inr ck)
      then obtain c k where ck: "next_utf16 Reject i src = Inr (c, k)" by (cases ck) auto
      from next_decode [OF ck False] EncodeUtf8_valid obtain bytes where
        bytes: "EncodeUtf8 c = Inr bytes" by blast
      from push_units_wrote [OF 1(2), of bytes mem] show ?thesis
      proof (cases rule: wrote_cases)
        case (full s)
        with ck bytes False show ?thesis by (simp add: explains_def)
      next
        case (ready s)
        have "utf16_loop (machine mem) Reject i src out =
            utf16_loop (machine mem) Reject (i + k) (drop k src) s"
          using ck bytes False ready by simp
        with 1(1) [OF False ck refl ready(2)] show ?thesis
          using ck bytes False
          by (cases "decode16 (i + k) (drop k src)")
            (auto simp: decode16.simps [of i src] explains_def simp del: utf16_loop.simps)
      qed
    qed
  qed
qed

lemma Feed_Reject:
  "Feed Reject b d = (d', r) \<Longrightarrow>
    r = Inl decode_error \<or> (\<exists>cp. r = Inr (cp, True) \<and> (\<forall>c. cp = Some c \<longrightarrow> IsValidCodePoint c))"
proof -
  have "IsValidCodePoint (ucast b)" if "b \<le> 0x7F" for b :: byte
    using that by (simp add: IsValidCodePoint_def word_le_nat_alt)
  then show "Feed Reject b d = (d', r) \<Longrightarrow> ?thesis"
    by (auto simp: Feed_def invalid_step_def Let_def split: if_splits)
qed

lemma utf8_loop_explained:
  assumes "str_obj out cs"
  shows "\<exists>d' out' r. utf8_loop (machine mem) Reject i bs d out = Some (d', out', r) \<and>
    (r = Inl no_room \<or>
     (case feeds bs d of
        None \<Rightarrow> \<exists>k < length bs. r = Inl (decode_error\<lparr>offset := i + k\<rparr>)
      | Some (e, cps) \<Rightarrow> r = Inr () \<and> d' = e \<and> str_obj out' (cs @ utf16_of cps)))"
  using assms
proof (induction bs arbitrary: i d out cs)
  case Nil
  then show ?case by simp
next
  case (Cons b bs)
  obtain d1 r1 where feed: "Feed Reject b d = (d1, r1)" by (cases "Feed Reject b d") auto
  note loop = feed_loop.simps [of "machine mem" Reject i b d out]
  from Feed_Reject [OF feed] show ?case
  proof (elim disjE exE conjE)
    assume "r1 = Inl decode_error"
    with feed show ?thesis by (auto simp: loop intro: exI [of _ 0])
  next
    fix cp assume cp: "r1 = Inr (cp, True)" "\<forall>c. cp = Some c \<longrightarrow> IsValidCodePoint c"
    let ?units = "case cp of None \<Rightarrow> [] | Some c \<Rightarrow> utf16_of [c]"
    have "wrote (cs @ ?units)
        (case cp of None \<Rightarrow> Some (out, Inr ()) | Some c \<Rightarrow> append_code_point (machine mem) c out)"
    proof (cases cp)
      case None
      with Cons.prems show ?thesis by (simp add: wrote_def)
    next
      case (Some c)
      with cp(2) EncodeUtf16_valid obtain us where "EncodeUtf16 c = Inr us" by blast
      with push_units_wrote [OF Cons.prems, of us mem] Some show ?thesis
        by (simp add: append_code_point_def)
    qed
    then show ?thesis
    proof (cases rule: wrote_cases)
      case (full s)
      with feed cp(1) show ?thesis by (simp add: loop)
    next
      case (ready s)
      then have step: "utf8_loop (machine mem) Reject i (b # bs) d out =
          utf8_loop (machine mem) Reject (i + 1) bs d1 s"
        using feed cp(1) by (simp add: loop)
      from Cons.IH [OF ready(2), of "i + 1" d1] obtain d' out' r where
        r: "utf8_loop (machine mem) Reject (i + 1) bs d1 s = Some (d', out', r)"
        "r = Inl no_room \<or>
         (case feeds bs d1 of
            None \<Rightarrow> \<exists>k < length bs. r = Inl (decode_error\<lparr>offset := i + 1 + k\<rparr>)
          | Some (e, cps) \<Rightarrow> r = Inr () \<and> d' = e \<and> str_obj out' ((cs @ ?units) @ utf16_of cps))" by blast
      show ?thesis
      proof (cases "feeds bs d1")
        case None
        with r(2) have "r = Inl no_room \<or> (\<exists>k < length (b # bs). r = Inl (decode_error\<lparr>offset := i + k\<rparr>))"
          by (auto intro: exI [of _ "Suc _"])
        with None r(1) feed cp(1) show ?thesis unfolding step by simp
      next
        case (Some ecps)
        then obtain e cps where "feeds bs d1 = Some (e, cps)" by (cases ecps) auto
        moreover from this r(2) have "r = Inl no_room \<or>
            r = Inr () \<and> d' = e \<and> str_obj out' (cs @ ?units @ utf16_of cps)" by simp
        ultimately show ?thesis using r(1) feed cp(1) unfolding step
          by (cases cp) simp_all
      qed
    qed
  qed
qed

text \<open>In replacement mode a byte is fed at most twice, and neither the decoder nor the encoder fails.\<close>

lemma Feed_Replace:
  "\<exists>d' cp consumed. Feed Replace b d = (d', Inr (cp, consumed)) \<and> (\<forall>c. cp = Some c \<longrightarrow> IsValidCodePoint c) \<and>
     (consumed \<or> d' = Reset \<and> 0 < remaining d)"
proof -
  have "IsValidCodePoint (ucast b)" if "b \<le> 0x7F" for b :: byte
    using that by (simp add: IsValidCodePoint_def word_le_nat_alt)
  moreover have "IsValidCodePoint ReplacementCharacter"
    by (simp add: IsValidCodePoint_def ReplacementCharacter_def)
  ultimately show ?thesis by (auto simp: Feed_def invalid_step_def Let_def)
qed

lemma append_wrote:
  assumes "str_obj out cs" and "\<forall>c. cp = Some c \<longrightarrow> IsValidCodePoint c"
  shows "\<exists>ds. wrote ds
    (case cp of None \<Rightarrow> Some (out, Inr ()) | Some c \<Rightarrow> append_code_point (machine mem) c out)"
proof (cases cp)
  case None
  with assms(1) show ?thesis by (auto simp: wrote_def)
next
  case (Some c)
  with assms(2) EncodeUtf16_valid obtain us where "EncodeUtf16 c = Inr us" by blast
  with push_units_wrote [OF assms(1), of us mem] Some show ?thesis
    by (auto simp: append_code_point_def)
qed

definition stays_ok :: "(utf8_decoder \<times> u16 bstr \<times> (io_error + unit)) option \<Rightarrow> bool" where
  "stays_ok run \<longleftrightarrow> (\<exists>d out r. run = Some (d, out, r) \<and>
     (r = Inl no_room \<or> r = Inr () \<and> (\<exists>cs. str_obj out cs)))"

lemma feed_loop_once:
  assumes "str_obj out cs" and "\<And>out cs. str_obj out cs \<Longrightarrow> 0 < remaining d \<Longrightarrow>
    stays_ok (feed_loop (machine mem) Replace i b Reset out)"
  shows "stays_ok (feed_loop (machine mem) Replace i b d out)"
proof -
  obtain d' cp consumed where feed: "Feed Replace b d = (d', Inr (cp, consumed))"
    "\<forall>c. cp = Some c \<longrightarrow> IsValidCodePoint c" "consumed \<or> d' = Reset \<and> 0 < remaining d"
    using Feed_Replace by blast
  note loop = feed_loop.simps [of "machine mem" Replace i b d out]
  obtain ds where "wrote ds
      (case cp of None \<Rightarrow> Some (out, Inr ()) | Some c \<Rightarrow> append_code_point (machine mem) c out)"
    using append_wrote [OF assms(1) feed(2)] by blast
  then show ?thesis
  proof (cases rule: wrote_cases)
    case (full s)
    with feed(1) show ?thesis by (simp add: loop stays_ok_def)
  next
    case (ready s)
    show ?thesis
    proof (cases consumed)
      case True
      with ready feed(1) show ?thesis by (auto simp: loop stays_ok_def)
    next
      case False
      with feed(3) assms(2) [OF ready(2)] ready(1) feed(1) show ?thesis by (simp add: loop)
    qed
  qed
qed

lemma feed_loop_Replace:
  assumes "str_obj out cs"
  shows "stays_ok (feed_loop (machine mem) Replace i b d out)"
proof (rule feed_loop_once [OF assms])
  fix out' :: "u16 bstr" and cs' assume "str_obj out' cs'"
  then show "stays_ok (feed_loop (machine mem) Replace i b Reset out')"
    by (rule feed_loop_once) (simp add: Reset_def)
qed

lemma utf8_loop_Replace:
  assumes "str_obj out cs"
  shows "stays_ok (utf8_loop (machine mem) Replace i bs d out)"
  using assms
proof (induction bs arbitrary: i d out cs)
  case Nil
  then show ?case by (auto simp: stays_ok_def)
next
  case (Cons b bs)
  from feed_loop_Replace [OF Cons.prems, of mem i b d] obtain d' out' r where
    r: "feed_loop (machine mem) Replace i b d out = Some (d', out', r)"
    "r = Inl no_room \<or> r = Inr () \<and> (\<exists>cs. str_obj out' cs)" by (auto simp: stays_ok_def)
  then show ?case using Cons.IH [of out' _ "i + 1" d'] by (auto simp: stays_ok_def)
qed

lemma Finish_Reject: "snd (Finish Reject d) = (if Complete d then Inr None else Inl decode_error)"
  by (simp add: Finish_def)

text \<open>The whole conversion from UTF-8: the outcome is decided by \<^const>\<open>feeds\<close> alone, unless memory runs out.\<close>

lemma Utf8ToUtf16_outcome:
  assumes "length src + 1 < 2 ^ 64"
  shows "\<exists>r. Utf8ToUtf16 (machine mem) True Reject src = Some r \<and>
    (r = Inl no_room \<or>
     (case feeds src Reset of
        None \<Rightarrow> \<exists>k < length src. r = Inl (decode_error\<lparr>offset := k\<rparr>)
      | Some (e, cps) \<Rightarrow>
          if Complete e then \<exists>out. r = Inr out \<and> str_obj out (utf16_of cps) else r = Inl decode_error))"
proof -
  have n: "usz (length src + 1) = length src + 1" using assms by simp
  obtain out ok where new: "str_Reserve (machine mem) (str_empty 2 True) (length src + 1) = Some (out, ok)"
    "ok \<longrightarrow> str_obj out ([] :: u16 list)"
    using new_string [of "length src + 1" 2 mem, where 'c = u16] assms by auto
  show ?thesis
  proof (cases ok)
    case False
    with new(1) n show ?thesis by (simp add: Utf8ToUtf16_def)
  next
    case True
    with new(2) have "str_obj out []" by simp
    from utf8_loop_explained [OF this, of mem 0 src Reset, unfolded append_Nil add_0] obtain d' out' r where
      loop: "utf8_loop (machine mem) Reject 0 src Reset out = Some (d', out', r)"
      "r = Inl no_room \<or>
       (case feeds src Reset of
          None \<Rightarrow> \<exists>k < length src. r = Inl (decode_error\<lparr>offset := k\<rparr>)
        | Some (e, cps) \<Rightarrow> r = Inr () \<and> d' = e \<and> str_obj out' (utf16_of cps))" by blast
    show ?thesis
    proof (cases r)
      case (Inl e)
      with loop new(1) n True show ?thesis by (auto simp: Utf8ToUtf16_def split: option.splits)
    next
      case (Inr u)
      with loop obtain cps where "feeds src Reset = Some (d', cps)" "str_obj out' (utf16_of cps)"
        by (auto split: option.splits)
      with loop(1) Inr new(1) n True show ?thesis by (simp add: Utf8ToUtf16_def Finish_Reject)
    qed
  qed
qed

lemma Utf16ToUtf8_outcome:
  assumes "length src + 1 < 2 ^ 64"
  shows "\<exists>r. Utf16ToUtf8 (machine mem) True Reject src = Some r \<and>
    (r = Inl no_room \<or>
     (case decode16 0 src of
        Inl e \<Rightarrow> r = Inl e
      | Inr cps \<Rightarrow> \<exists>out. r = Inr out \<and> str_obj out (utf8_of cps)))"
proof -
  have n: "usz (length src + 1) = length src + 1" using assms by simp
  obtain out ok where new: "str_Reserve (machine mem) (str_empty 1 True) (length src + 1) = Some (out, ok)"
    "ok \<longrightarrow> str_obj out ([] :: byte list)"
    using new_string [of "length src + 1" 1 mem, where 'c = byte] assms by auto
  show ?thesis
  proof (cases ok)
    case False
    with new(1) n show ?thesis by (simp add: Utf16ToUtf8_def)
  next
    case True
    with new(2) have "str_obj out []" by simp
    from utf16_loop_explained [OF this, of 0 src mem] obtain out' r where
      loop: "utf16_loop (machine mem) Reject 0 src out = Some (out', r)"
      "r = Inl no_room \<or>
       (case decode16 0 src of Inl e \<Rightarrow> r = Inl e | Inr cps \<Rightarrow> r = Inr () \<and> str_obj out' (utf8_of cps))"
      by (cases "decode16 0 src") (auto simp: explains_def)
    with new(1) n True show ?thesis
      by (cases r) (auto simp: Utf16ToUtf8_def simp del: utf16_loop.simps split: sum.splits)
  qed
qed

text \<open>A code point never takes more UTF-8 bytes than four, nor more units than two.\<close>

lemma length_utf8_of: "length (utf8_of cps) \<le> 4 * length cps"
  by (induction cps) (auto simp: EncodeUtf8_def split: sum.splits)

lemma length_utf16_of: "list_all IsValidCodePoint cps \<Longrightarrow> length cps \<le> length (utf16_of cps)"
  by (induction cps) (auto simp: EncodeUtf16_def Let_def)

section \<open>Properties\<close>

text \<open>C5: the byte-wise decoder accepts exactly the UTF-8 encodings of sequences of code points. Fed one byte
  after another from its initial state, it consumes every byte and is complete at the end if and
  only if the bytes are the concatenated encodings of the code points it delivered, and these are
  all valid: no overlong form, no surrogate, nothing above \<^verbatim>\<open>0x10FFFF\<close> is ever decoded, and nothing
  that the encoder writes is refused.\<close>

theorem decoder_inverts_encoder:
  "(\<exists>d. feeds bs Reset = Some (d, cps) \<and> Complete d) = (bs = utf8_of cps \<and> list_all IsValidCodePoint cps)"
  using feeds_sound [of bs _ cps] feeds_utf8_of [of cps] Complete_Reset by blast

text \<open>C6: \<open>Utf8ToUtf16\<close> with the policy \<open>Reject\<close> always returns. Unless memory runs out, it returns the UTF-16
  units of the code points when the source is the UTF-8 encoding of valid code points, and
  \<open>InvalidEncoding\<close> otherwise.\<close>

theorem Utf8ToUtf16_decodes:
  assumes "length src + 1 < 2 ^ 64"
  shows "\<exists>r. Utf8ToUtf16 (machine mem) True Reject src = Some r \<and>
    (r = Inl no_room \<or>
     (\<exists>cps out. src = utf8_of cps \<and> list_all IsValidCodePoint cps \<and> r = Inr out \<and>
        str_obj out (utf16_of cps)) \<or>
     (\<forall>cps. src = utf8_of cps \<longrightarrow> \<not> list_all IsValidCodePoint cps) \<and>
       (\<exists>k. r = Inl (decode_error\<lparr>offset := k\<rparr>)))"
proof -
  from Utf8ToUtf16_outcome [OF assms] obtain r where
    r: "Utf8ToUtf16 (machine mem) True Reject src = Some r"
    "r = Inl no_room \<or>
     (case feeds src Reset of
        None \<Rightarrow> \<exists>k < length src. r = Inl (decode_error\<lparr>offset := k\<rparr>)
      | Some (e, cps) \<Rightarrow>
          if Complete e then \<exists>out. r = Inr out \<and> str_obj out (utf16_of cps) else r = Inl decode_error)"
    by blast
  have zero: "decode_error = decode_error\<lparr>offset := 0\<rparr>" by (simp add: decode_error_def Semantic_def)
  have bad: "\<forall>cps. src = utf8_of cps \<longrightarrow> \<not> list_all IsValidCodePoint cps"
    if "\<nexists>e cps. feeds src Reset = Some (e, cps) \<and> Complete e"
    using that feeds_utf8_of by fastforce
  show ?thesis
  proof (cases "\<exists>e cps. feeds src Reset = Some (e, cps) \<and> Complete e")
    case True
    then obtain e cps where f: "feeds src Reset = Some (e, cps)" "Complete e" by blast
    with feeds_sound [OF f] r show ?thesis by auto
  next
    case False
    with r bad zero show ?thesis by (fastforce split: option.splits)
  qed
qed

definition grinning :: "byte list" where
  "grinning = [0x24, 0xC3, 0xA9, 0xF0, 0x9F, 0x98, 0x80]"

theorem Utf8ToUtf16_decodes_witness:
  "\<exists>r. Utf8ToUtf16 (machine (\<lambda>_. True)) True Reject grinning = Some r \<and>
    (r = Inl no_room \<or>
     (\<exists>cps out. grinning = utf8_of cps \<and> list_all IsValidCodePoint cps \<and> r = Inr out \<and>
        str_obj out (utf16_of cps)) \<or>
     (\<forall>cps. grinning = utf8_of cps \<longrightarrow> \<not> list_all IsValidCodePoint cps) \<and>
       (\<exists>k. r = Inl (decode_error\<lparr>offset := k\<rparr>)))"
  by (rule Utf8ToUtf16_decodes) (simp add: grinning_def)

text \<open>C7: converting to UTF-8 and back is the identity on well-formed UTF-16. \<open>Utf16ToUtf8\<close> of the units of valid
  code points gives their UTF-8 bytes or runs out of memory; \<open>Utf8ToUtf16\<close> of these bytes gives the
  units back or runs out of memory. No other outcome is possible.\<close>

theorem Utf16_round_trip:
  assumes "list_all IsValidCodePoint cps" and "src = utf16_of cps" and "4 * length src + 1 < 2 ^ 64"
  shows "(\<exists>r. Utf16ToUtf8 (machine mem) True Reject src = Some r \<and>
      (r = Inl no_room \<or> (\<exists>out. r = Inr out \<and> str_View out = Some (utf8_of cps)))) \<and>
    (\<exists>r. Utf8ToUtf16 (machine mem) True Reject (utf8_of cps) = Some r \<and>
      (r = Inl no_room \<or> (\<exists>out. r = Inr out \<and> str_View out = Some src)))"
proof (rule conjI)
  have "length src + 1 < 2 ^ 64" using assms(3) by simp
  from Utf16ToUtf8_outcome [OF this, of mem] show "\<exists>r. Utf16ToUtf8 (machine mem) True Reject src = Some r \<and>
      (r = Inl no_room \<or> (\<exists>out. r = Inr out \<and> str_View out = Some (utf8_of cps)))"
    unfolding assms(2) decode16_utf16_of [OF assms(1)] using str_obj_View by fastforce
  have "length (utf8_of cps) + 1 < 2 ^ 64"
    using length_utf8_of [of cps] length_utf16_of [OF assms(1)] assms(2,3) by simp
  from Utf8ToUtf16_outcome [OF this, of mem] show "\<exists>r. Utf8ToUtf16 (machine mem) True Reject (utf8_of cps) = Some r \<and>
      (r = Inl no_room \<or> (\<exists>out. r = Inr out \<and> str_View out = Some src))"
    unfolding feeds_utf8_of [OF assms(1)] assms(2) using str_obj_View by fastforce
qed

theorem Utf16_round_trip_witness:
  "\<exists>r. Utf8ToUtf16 (machine (\<lambda>_. True)) True Reject (utf8_of [0x24, 0x1F600]) = Some r \<and>
     (r = Inl no_room \<or> (\<exists>out. r = Inr out \<and> str_View out = Some [0x24, 0xD83D, 0xDE00]))"
proof -
  have "utf16_of [0x24, 0x1F600] = [0x24, 0xD83D, 0xDE00]" by (simp add: EncodeUtf16_def IsValidCodePoint_def)
  moreover have "list_all IsValidCodePoint [0x24, 0x1F600]" by (simp add: IsValidCodePoint_def)
  ultimately show ?thesis
    by (intro conjunct2 [OF Utf16_round_trip [of "[0x24, 0x1F600]" "[0x24, 0xD83D, 0xDE00]" "\<lambda>_. True"]]) simp_all
qed

text \<open>C8: with the policy \<open>Replace\<close> no byte sequence is refused: \<open>Utf8ToUtf16\<close> always returns, also for the bytes
  that are fed to the decoder twice, and the only error it can report is that memory ran out.\<close>

theorem Utf8ToUtf16_replaces:
  assumes "length src + 1 < 2 ^ 64"
  shows "\<exists>r. Utf8ToUtf16 (machine mem) True Replace src = Some r \<and>
    (r = Inl no_room \<or> (\<exists>out units. r = Inr out \<and> str_obj out units))"
proof -
  have n: "usz (length src + 1) = length src + 1" using assms by simp
  obtain out ok where new: "str_Reserve (machine mem) (str_empty 2 True) (length src + 1) = Some (out, ok)"
    "ok \<longrightarrow> str_obj out ([] :: u16 list)"
    using new_string [of "length src + 1" 2 mem, where 'c = u16] assms by auto
  show ?thesis
  proof (cases ok)
    case False
    with new(1) n show ?thesis by (simp add: Utf8ToUtf16_def)
  next
    case True
    with new(2) have "str_obj out []" by simp
    from utf8_loop_Replace [OF this, of mem 0 src Reset] obtain d' out' r where
      loop: "utf8_loop (machine mem) Replace 0 src Reset out = Some (d', out', r)"
      "r = Inl no_room \<or> r = Inr () \<and> (\<exists>cs. str_obj out' cs)" by (auto simp: stays_ok_def)
    have valid: "IsValidCodePoint ReplacementCharacter"
      by (simp add: IsValidCodePoint_def ReplacementCharacter_def)
    show ?thesis
    proof (cases "r = Inr () \<and> \<not> Complete d'")
      case False
      with loop new(1) n True show ?thesis by (auto simp: Utf8ToUtf16_def Finish_def)
    next
      case unfinished: True
      with loop(2) obtain cs where "str_obj out' cs" by auto
      from append_wrote [OF this, of "Some ReplacementCharacter" mem] valid obtain ds where
        "wrote ds (append_code_point (machine mem) ReplacementCharacter out')" by auto
      with loop(1) unfinished new(1) n True show ?thesis
        by (auto simp: Utf8ToUtf16_def Finish_def wrote_def)
    qed
  qed
qed

theorem Utf8ToUtf16_replaces_witness:
  "\<exists>r. Utf8ToUtf16 (machine (\<lambda>_. True)) True Replace [0xE2, 0x28, 0xFF] = Some r \<and>
    (r = Inl no_room \<or> (\<exists>out units. r = Inr out \<and> str_obj out units))"
  by (rule Utf8ToUtf16_replaces) simp

end
