(* ===== verification/Database.thy ===== *)
theory Database
  imports Vector StringView "HOL-Library.List_Lexorder" "HOL-Library.Product_Lexorder"
begin

unbundle bit_operations_syntax

text \<open>
  \<^verbatim>\<open>Reverse/SymbolDatabase.cpp\<close>: the symbols, types and source lines of a program, with the indices by
  name, type name and address that \<open>Finalize\<close> builds and the searches in them. A vector is the list of
  its elements, and \<open>grows t n\<close> says whether the allocator lets table \<open>t\<close> grow to \<open>n\<close> elements; the sort is
  the insertion sort of theory Vector. Identifiers and addresses are natural numbers, a name is the list
  of its characters, which are signed. An index outside a vector has no result.
\<close>

section \<open>Data\<close>

type_synonym name = "int list"

datatype table =
    StringTable | TextOf nat | SymbolTable | ModuleTable | TypeTable | FieldTable | ParameterTable
  | LineTable | SectionTable | ToSourceTable | FromSourceTable | SiteTable | LocalTable | NameTable
  | TypeNameTable | AddressTable | ResultTable | ScopeTable | ChecksumTable | InlineeTable

definition InvalidId :: nat where "InvalidId = 0xFFFFFFFF"
definition EmptyStringId :: nat where "EmptyStringId = 0"
definition IpiTypeIndexMask :: u32 where "IpiTypeIndexMask = 0x80000000"

definition MakeIpiTypeIndex :: "nat \<Rightarrow> nat" where
  "MakeIpiTypeIndex i = (if i = InvalidId then i else unat (of_nat i OR IpiTypeIndexMask))"

definition IsIpiTypeIndex :: "nat \<Rightarrow> bool" where
  "IsIpiTypeIndex i \<longleftrightarrow> i \<noteq> InvalidId \<and> of_nat i AND IpiTypeIndexMask \<noteq> 0"

definition RawTypeIndex :: "nat \<Rightarrow> nat" where
  "RawTypeIndex i = (if IsIpiTypeIndex i then unat (of_nat i AND NOT IpiTypeIndexMask) else i)"

datatype symbol_kind =
    UnknownSymbol | Function | PublicFunction | Thunk | GlobalVariable | StaticVariable | ThreadLocal | Label
  | Constant | UserDefinedType | LocalVariable | Parameter

fun kind_code :: "symbol_kind \<Rightarrow> nat" where
  "kind_code UnknownSymbol = 0" | "kind_code Function = 1" | "kind_code PublicFunction = 2"
| "kind_code Thunk = 3" | "kind_code GlobalVariable = 4" | "kind_code StaticVariable = 5"
| "kind_code ThreadLocal = 6" | "kind_code Label = 7" | "kind_code Constant = 8"
| "kind_code UserDefinedType = 9" | "kind_code LocalVariable = 10" | "kind_code Parameter = 11"

datatype visibility = UnknownVisibility | PublicVisibility | GlobalVisibility | LocalVisibility

datatype resolution = UnknownSource | ExactPdb | PeExport | Signature | Heuristic

datatype type_kind =
    UnknownType | Primitive | Modifier | Pointer | ArrayType | Procedure | MemberFunction | ArgumentList
  | FieldList | Struct | Class | UnionType | Enum | Alias | BitField | FunctionId | MemberFunctionId
  | StringIdType

record location =
  lfile :: nat
  lline :: nat
  lcolumn :: nat

definition no_location :: location where
  "no_location = \<lparr>lfile = 0, lline = 0, lcolumn = 0\<rparr>"

definition location_Valid :: "location \<Rightarrow> bool" where
  "location_Valid l \<longleftrightarrow> lfile l \<noteq> EmptyStringId \<or> lline l \<noteq> 0"

record module =
  mod_id :: nat
  mod_name :: nat
  mod_object :: nat
  mod_stream :: nat
  mod_symbol_bytes :: nat
  mod_c11_bytes :: nat
  mod_c13_bytes :: nat

definition HasSource :: u32 where "HasSource = 128"

record symbol =
  sy_id :: nat
  sy_name :: nat
  sy_decorated :: nat
  sy_qualified :: nat
  sy_base :: nat
  sy_kind :: symbol_kind
  sy_visibility :: visibility
  sy_source :: resolution
  sy_flags :: u32
  sy_rva :: nat
  sy_size :: nat
  sy_semantic :: u64
  sy_type :: nat
  sy_module :: nat
  sy_parent :: nat
  sy_declaration :: location

record local_variable =
  lv_name :: nat
  lv_type :: nat
  lv_function :: nat
  lv_offset :: int
  lv_register :: nat
  lv_flags :: nat
  lv_register_relative :: bool
  lv_frame_relative :: bool
  lv_is_parameter :: bool

record field =
  fd_name :: nat
  fd_type :: nat
  fd_offset :: nat
  fd_value :: nat
  fd_attributes :: nat
  fd_static :: bool
  fd_base_class :: bool
  fd_enumerator :: bool

record type_info =
  ty_index :: nat
  ty_kind :: type_kind
  ty_name :: nat
  ty_unique :: nat
  ty_size :: nat
  ty_options :: u32
  ty_attributes :: u32
  ty_referent :: nat
  ty_element :: nat
  ty_index_type :: nat
  ty_return :: nat
  ty_class :: nat
  ty_this :: nat
  ty_underlying :: nat
  ty_field_list :: nat
  ty_derivation :: nat
  ty_vtable :: nat
  ty_continuation :: nat
  ty_argument_list :: nat
  ty_parent_scope :: nat
  ty_convention :: nat
  ty_members :: nat
  ty_parameters :: nat
  ty_this_adjustment :: int
  ty_field_begin :: nat
  ty_field_count :: nat
  ty_parameter_begin :: nat
  ty_parameter_type_count :: nat

record omap =
  om_rva :: nat
  om_mapped :: nat

record section_map =
  sm_flags :: nat
  sm_overlay :: nat
  sm_group :: nat
  sm_frame :: nat
  sm_section_name :: nat
  sm_class_name :: nat
  sm_offset :: nat
  sm_length :: nat

record source_line =
  sl_rva :: nat
  sl_end :: nat
  sl_location :: location
  sl_module :: nat
  sl_statement :: bool

record inline_site =
  is_id :: nat
  is_function :: nat
  is_parent :: nat
  is_inlinee :: nat
  is_name :: nat
  is_declaration :: location
  is_start :: nat
  is_end :: nat

record name_entry =
  ne_hash :: u64
  ne_name :: nat
  ne_symbol :: nat

record type_name_entry =
  te_hash :: u64
  te_name :: nat
  te_type :: nat

type_synonym guid = "u32 \<times> u16 \<times> u16 \<times> u8 list"

record pdb_identity =
  id_guid :: guid
  id_age :: u32

definition guid_IsValid :: "guid \<Rightarrow> bool" where
  "guid_IsValid g \<longleftrightarrow> g \<noteq> (0, 0, 0, replicate 8 0)"

definition identity_Valid :: "pdb_identity \<Rightarrow> bool" where
  "identity_Valid i \<longleftrightarrow> guid_IsValid (id_guid i) \<and> id_age i \<noteq> 0"

record database =
  image_base :: "nat option"
  image_size :: nat
  identity :: pdb_identity
  ready :: bool
  strings :: "name list"
  symbols :: "symbol list"
  modules :: "module list"
  types :: "type_info list"
  type_fields :: "field list"
  parameter_types :: "nat list"
  source_lines :: "source_line list"
  sections :: "section_map list"
  omap_to_source :: "omap list"
  omap_from_source :: "omap list"
  inline_sites :: "inline_site list"
  local_variables :: "local_variable list"
  name_index :: "name_entry list"
  type_name_index :: "type_name_entry list"
  address_index :: "nat list"

datatype db_error = AllocationFailure | InvalidArgument | InvalidSymbol | InvalidType

type_synonym growth = "table \<Rightarrow> nat \<Rightarrow> bool"

text \<open>\<open>id32\<close> is the cast of a size to a 32-bit identifier.\<close>

definition id32 :: "nat \<Rightarrow> nat" where
  "id32 n = n mod 2 ^ 32"

section \<open>Construction, strings and tables\<close>

text \<open>The constructor stores the empty string under identifier 0, and does not check that it could.\<close>

definition db_empty :: database where
  "db_empty = \<lparr>image_base = None, image_size = 0,
     identity = \<lparr>id_guid = (0, 0, 0, replicate 8 0), id_age = 0\<rparr>, ready = False, strings = [], symbols = [],
     modules = [], types = [], type_fields = [], parameter_types = [], source_lines = [], sections = [],
     omap_to_source = [], omap_from_source = [], inline_sites = [], local_variables = [], name_index = [],
     type_name_index = [], address_index = []\<rparr>"

definition db_new :: "growth \<Rightarrow> database" where
  "db_new grows = (if grows StringTable 1 then db_empty\<lparr>strings := [[]]\<rparr> else db_empty)"

definition db_Reset :: "growth \<Rightarrow> database \<Rightarrow> database" where
  "db_Reset grows d = db_new grows"

definition SetReady :: "database \<Rightarrow> bool \<Rightarrow> database" where
  "SetReady d v = d\<lparr>ready := v\<rparr>"

definition SetImage :: "database \<Rightarrow> nat option \<Rightarrow> nat \<Rightarrow> database" where
  "SetImage d base n = d\<lparr>image_base := base, image_size := n\<rparr>"

definition SetIdentity :: "database \<Rightarrow> pdb_identity \<Rightarrow> database" where
  "SetIdentity d v = d\<lparr>identity := v\<rparr>"

definition db_String :: "database \<Rightarrow> nat \<Rightarrow> name" where
  "db_String d i = (if i < length (strings d) then strings d ! i else [])"

definition SymbolById :: "database \<Rightarrow> nat \<Rightarrow> nat option" where
  "SymbolById d i = (if i < length (symbols d) then Some i else None)"

definition ModuleById :: "database \<Rightarrow> nat \<Rightarrow> module option" where
  "ModuleById d i = (if i < length (modules d) then Some (modules d ! i) else None)"

text \<open>\<open>Intern\<close> compares from identifier 1 on. The string's constructor ignores a failed allocation of its
  characters and leaves the string empty.\<close>

definition stored_text :: "growth \<Rightarrow> name \<Rightarrow> name" where
  "stored_text grows v = (if grows (TextOf (length v)) 1 then v else [])"

definition Intern :: "growth \<Rightarrow> database \<Rightarrow> name \<Rightarrow> database \<times> (db_error + nat)" where
  "Intern grows d v =
     (if v = [] then (d, Inr EmptyStringId)
      else
        case find (\<lambda>i. strings d ! i = v) [1..<length (strings d)] of
          Some i \<Rightarrow> (d, Inr (id32 i))
        | None \<Rightarrow>
            if grows StringTable (length (strings d) + 1)
            then (d\<lparr>strings := strings d @ [stored_text grows v]\<rparr>, Inr (id32 (length (strings d))))
            else (d, Inl AllocationFailure))"

definition AddModule :: "growth \<Rightarrow> database \<Rightarrow> module \<Rightarrow> database \<times> (db_error + nat)" where
  "AddModule grows d v =
     (let v = v\<lparr>mod_id := id32 (length (modules d))\<rparr>
      in if grows ModuleTable (length (modules d) + 1)
         then (d\<lparr>modules := modules d @ [v]\<rparr>, Inr (mod_id v)) else (d, Inl AllocationFailure))"

definition AddSymbol :: "growth \<Rightarrow> database \<Rightarrow> symbol \<Rightarrow> database \<times> (db_error + nat)" where
  "AddSymbol grows d v =
     (let v = v\<lparr>sy_id := id32 (length (symbols d))\<rparr>
      in if grows SymbolTable (length (symbols d) + 1)
         then (d\<lparr>symbols := symbols d @ [v]\<rparr>, Inr (sy_id v)) else (d, Inl AllocationFailure))"

definition AddType :: "growth \<Rightarrow> database \<Rightarrow> type_info \<Rightarrow> database \<times> (db_error + unit)" where
  "AddType grows d v =
     (if ty_index v = InvalidId then (d, Inl InvalidType)
      else if grows TypeTable (length (types d) + 1)
      then (d\<lparr>types := types d @ [v]\<rparr>, Inr ()) else (d, Inl AllocationFailure))"

definition AddField :: "growth \<Rightarrow> database \<Rightarrow> field \<Rightarrow> database \<times> (db_error + nat)" where
  "AddField grows d v =
     (if grows FieldTable (length (type_fields d) + 1)
      then (d\<lparr>type_fields := type_fields d @ [v]\<rparr>, Inr (id32 (length (type_fields d)))) else (d, Inl AllocationFailure))"

definition AddParameterType :: "growth \<Rightarrow> database \<Rightarrow> nat \<Rightarrow> database \<times> (db_error + nat)" where
  "AddParameterType grows d v =
     (if grows ParameterTable (length (parameter_types d) + 1)
      then (d\<lparr>parameter_types := parameter_types d @ [v]\<rparr>, Inr (id32 (length (parameter_types d))))
      else (d, Inl AllocationFailure))"

definition AddSectionMap :: "growth \<Rightarrow> database \<Rightarrow> section_map \<Rightarrow> database \<times> (db_error + unit)" where
  "AddSectionMap grows d v =
     (if grows SectionTable (length (sections d) + 1)
      then (d\<lparr>sections := sections d @ [v]\<rparr>, Inr ()) else (d, Inl AllocationFailure))"

definition AddOmapToSource :: "growth \<Rightarrow> database \<Rightarrow> omap \<Rightarrow> database \<times> (db_error + unit)" where
  "AddOmapToSource grows d v =
     (if grows ToSourceTable (length (omap_to_source d) + 1)
      then (d\<lparr>omap_to_source := omap_to_source d @ [v]\<rparr>, Inr ()) else (d, Inl AllocationFailure))"

definition AddOmapFromSource :: "growth \<Rightarrow> database \<Rightarrow> omap \<Rightarrow> database \<times> (db_error + unit)" where
  "AddOmapFromSource grows d v =
     (if grows FromSourceTable (length (omap_from_source d) + 1)
      then (d\<lparr>omap_from_source := omap_from_source d @ [v]\<rparr>, Inr ()) else (d, Inl AllocationFailure))"

definition AddSourceLine :: "growth \<Rightarrow> database \<Rightarrow> source_line \<Rightarrow> database \<times> (db_error + unit)" where
  "AddSourceLine grows d v =
     (if grows LineTable (length (source_lines d) + 1)
      then (d\<lparr>source_lines := source_lines d @ [v]\<rparr>, Inr ()) else (d, Inl AllocationFailure))"

definition AddInlineSite :: "growth \<Rightarrow> database \<Rightarrow> inline_site \<Rightarrow> database \<times> (db_error + nat)" where
  "AddInlineSite grows d v =
     (let v = v\<lparr>is_id := id32 (length (inline_sites d))\<rparr>
      in if grows SiteTable (length (inline_sites d) + 1)
         then (d\<lparr>inline_sites := inline_sites d @ [v]\<rparr>, Inr (is_id v)) else (d, Inl AllocationFailure))"

definition AddLocal :: "growth \<Rightarrow> database \<Rightarrow> local_variable \<Rightarrow> database \<times> (db_error + unit)" where
  "AddLocal grows d v =
     (if grows LocalTable (length (local_variables d) + 1)
      then (d\<lparr>local_variables := local_variables d @ [v]\<rparr>, Inr ()) else (d, Inl AllocationFailure))"

section \<open>Hashes and searches\<close>

definition FnvOffset :: u64 where "FnvOffset = 0xCBF29CE484222325"
definition FnvPrime :: u64 where "FnvPrime = 0x100000001B3"

definition HashName :: "name \<Rightarrow> u64" where
  "HashName v =
     (if v = [] then 0
      else foldl (\<lambda>h c. (h XOR ucast (word_of_int c :: u8)) * FnvPrime) FnvOffset v)"

text \<open>The binary search that every query runs: to the right of the middle when the element there passes
  the test, else to the left.\<close>

function halve :: "('a \<Rightarrow> bool option) \<Rightarrow> 'a list \<Rightarrow> nat \<Rightarrow> nat \<Rightarrow> nat option" where
  "halve test xs left right =
     (if left < right then
        (let middle = left + (right - left) div 2
         in if middle < length xs then
              do { ok \<leftarrow> test (xs ! middle);
                   if ok then halve test xs (middle + 1) right else halve test xs left middle }
            else None)
      else Some left)"
  by pat_completeness auto
termination
  by (relation "measure (\<lambda>(test, xs, left, right). right - left)") auto

declare halve.simps [simp del]

definition FindTypeStorageIndex :: "database \<Rightarrow> nat \<Rightarrow> nat option" where
  "FindTypeStorageIndex d i = halve (\<lambda>t. Some (ty_index t < i)) (types d) 0 (length (types d))"

text \<open>A type is given by its place in the vector.\<close>

definition TypeByIndex :: "database \<Rightarrow> nat \<Rightarrow> nat option option" where
  "TypeByIndex d i =
     (if i = InvalidId \<or> types d = [] then Some None
      else if \<not> ready d then Some (find (\<lambda>k. ty_index (types d ! k) = i) [0..<length (types d)])
      else
        do { k \<leftarrow> FindTypeStorageIndex d i;
             Some (if k < length (types d) \<and> ty_index (types d ! k) = i then Some k else None) })"

section \<open>Finalizing\<close>

definition IsFunctionKind :: "symbol_kind \<Rightarrow> bool" where
  "IsFunctionKind k \<longleftrightarrow> k = Function \<or> k = PublicFunction \<or> k = Thunk"

definition IsGlobalKind :: "symbol_kind \<Rightarrow> bool" where
  "IsGlobalKind k \<longleftrightarrow> k = GlobalVariable \<or> k = StaticVariable \<or> k = ThreadLocal"

definition AddNameIndex :: "growth \<Rightarrow> database \<Rightarrow> nat \<Rightarrow> nat \<Rightarrow> database \<times> bool" where
  "AddNameIndex grows d name owner =
     (if name = EmptyStringId \<or> owner = InvalidId then (d, True)
      else if grows NameTable (length (name_index d) + 1)
      then (d\<lparr>name_index := name_index d @
               [\<lparr>ne_hash = HashName (db_String d name), ne_name = name, ne_symbol = owner\<rparr>]\<rparr>, True)
      else (d, False))"

fun AddNames :: "growth \<Rightarrow> database \<Rightarrow> nat \<Rightarrow> nat list \<Rightarrow> database \<times> bool" where
  "AddNames grows d owner [] = (d, True)"
| "AddNames grows d owner (name # names) =
     (case AddNameIndex grows d name owner of
        (d, False) \<Rightarrow> (d, False) | (d, True) \<Rightarrow> AddNames grows d owner names)"

text \<open>The names of a symbol that \<open>Finalize\<close> adds, in its order.\<close>

definition names_to_index :: "symbol \<Rightarrow> nat list" where
  "names_to_index v =
     [sy_name v] @
     (if sy_decorated v \<noteq> sy_name v then [sy_decorated v] else []) @
     (if sy_qualified v \<noteq> sy_name v \<and> sy_qualified v \<noteq> sy_decorated v then [sy_qualified v] else []) @
     (if sy_base v \<noteq> sy_name v \<and> sy_base v \<noteq> sy_decorated v \<and> sy_base v \<noteq> sy_qualified v
      then [sy_base v] else [])"

definition semantic_id :: "database \<Rightarrow> symbol \<Rightarrow> u64" where
  "semantic_id d v =
     (let canonical = (if sy_decorated v \<noteq> EmptyStringId then db_String d (sy_decorated v)
                       else if sy_qualified v \<noteq> EmptyStringId then db_String d (sy_qualified v)
                       else db_String d (sy_name v));
          kind = (if IsFunctionKind (sy_kind v) then Function else sy_kind v);
          h = HashName canonical XOR (of_nat (kind_code kind) * 0x9E3779B185EBCA87)
      in if sy_visibility v = LocalVisibility \<and> sy_module v \<noteq> InvalidId then
           case ModuleById d (sy_module v) of
             None \<Rightarrow> h | Some m \<Rightarrow> h XOR (HashName (db_String d (mod_name m)) * 0xC2B2AE3D27D4EB4F)
         else h)"

definition index_symbol :: "growth \<Rightarrow> database \<Rightarrow> nat \<Rightarrow> database \<times> bool" where
  "index_symbol grows d i =
     (let v = symbols d ! i;
          v = (if sy_semantic v = 0 then v\<lparr>sy_semantic := semantic_id d v\<rparr> else v)
      in case AddNames grows (d\<lparr>symbols := (symbols d)[i := v]\<rparr>) (sy_id v) (names_to_index v) of
           (d, False) \<Rightarrow> (d, False)
         | (d, True) \<Rightarrow>
             if sy_rva v \<noteq> 0 then
               if grows AddressTable (length (address_index d) + 1)
               then (d\<lparr>address_index := address_index d @ [sy_id v]\<rparr>, True) else (d, False)
             else (d, True))"

fun index_symbols :: "growth \<Rightarrow> database \<Rightarrow> nat list \<Rightarrow> database \<times> bool" where
  "index_symbols grows d [] = (d, True)"
| "index_symbols grows d (i # is) =
     (case index_symbol grows d i of (d, False) \<Rightarrow> (d, False) | (d, True) \<Rightarrow> index_symbols grows d is)"

fun index_types :: "growth \<Rightarrow> database \<Rightarrow> type_info list \<Rightarrow> database \<times> bool" where
  "index_types grows d [] = (d, True)"
| "index_types grows d (t # ts) =
     (if ty_name t = EmptyStringId then index_types grows d ts
      else if grows TypeNameTable (length (type_name_index d) + 1)
      then index_types grows
             (d\<lparr>type_name_index := type_name_index d @
                 [\<lparr>te_hash = HashName (db_String d (ty_name t)), te_name = ty_name t, te_type = ty_index t\<rparr>]\<rparr>) ts
      else (d, False))"

text \<open>The comparisons. \<open>Compare\<close> is the one of theory StringView.\<close>

definition text_compare :: "name \<Rightarrow> name \<Rightarrow> int" where
  "text_compare a b = the (view_Compare (Some a) (Some b))"

definition name_less :: "database \<Rightarrow> name_entry \<Rightarrow> name_entry \<Rightarrow> bool" where
  "name_less d a b =
     (if ne_hash a \<noteq> ne_hash b then ne_hash a < ne_hash b
      else
        (let c = text_compare (db_String d (ne_name a)) (db_String d (ne_name b))
         in if c \<noteq> 0 then c < 0 else ne_symbol a < ne_symbol b))"

definition type_name_less :: "database \<Rightarrow> type_name_entry \<Rightarrow> type_name_entry \<Rightarrow> bool" where
  "type_name_less d a b =
     (if te_hash a \<noteq> te_hash b then te_hash a < te_hash b
      else
        (let c = text_compare (db_String d (te_name a)) (db_String d (te_name b))
         in if c \<noteq> 0 then c < 0 else te_type a < te_type b))"

definition address_less :: "database \<Rightarrow> nat \<Rightarrow> nat \<Rightarrow> bool" where
  "address_less d a b =
     (let v = symbols d ! a; w = symbols d ! b
      in if sy_rva v \<noteq> sy_rva w then sy_rva v < sy_rva w
         else if sy_size v \<noteq> sy_size w then sy_size v > sy_size w
         else kind_code (sy_kind v) < kind_code (sy_kind w))"

definition site_less :: "inline_site \<Rightarrow> inline_site \<Rightarrow> bool" where
  "site_less a b = (if is_start a \<noteq> is_start b then is_start a < is_start b else is_end a > is_end b)"

text \<open>\<open>Sort\<close> of a vector that holds the elements of a list.\<close>

definition vec_holding :: "'a list \<Rightarrow> 'a vec" where
  "vec_holding xs = \<lparr>slots = map Some xs, vsize = length xs, vcap = length xs, buffer = 0, esize = 1,
     has_alloc = True\<rparr>"

definition Sort :: "('a \<Rightarrow> 'a \<Rightarrow> bool) \<Rightarrow> 'a list \<Rightarrow> 'a list option" where
  "Sort before xs = map_option (\<lambda>v. map the (take (vsize v) (slots v))) (vec_Sort before (vec_holding xs))"

text \<open>The comparison of addresses reads the symbols of all entries as soon as there are two.\<close>

definition SortAddresses :: "database \<Rightarrow> nat list option" where
  "SortAddresses d =
     (if length (address_index d) > 1 \<and> (\<exists>i \<in> set (address_index d). i \<ge> length (symbols d)) then None
      else Sort (address_less d) (address_index d))"

definition line_before :: "database \<Rightarrow> nat \<Rightarrow> nat option" where
  "line_before d rva = halve (\<lambda>l. Some (sl_rva l \<le> rva)) (source_lines d) 0 (length (source_lines d))"

definition SourceForRva :: "database \<Rightarrow> nat \<Rightarrow> location option" where
  "SourceForRva d rva =
     (if source_lines d = [] then Some no_location
      else
        do { k \<leftarrow> line_before d rva;
             if k = 0 then Some no_location
             else
               (let l = source_lines d ! (k - 1)
                in Some (if sl_end l \<noteq> 0 \<and> rva \<ge> sl_end l then no_location else sl_location l)) })"

fun declare_symbols :: "database \<Rightarrow> nat list \<Rightarrow> database option" where
  "declare_symbols d [] = Some d"
| "declare_symbols d (i # is) =
     (let v = symbols d ! i
      in if sy_rva v = 0 then declare_symbols d is
         else
           do { l \<leftarrow> SourceForRva d (sy_rva v);
                declare_symbols
                  (if location_Valid l
                   then d\<lparr>symbols := (symbols d)
                            [i := v\<lparr>sy_declaration := l, sy_flags := sy_flags v OR HasSource\<rparr>]\<rparr>
                   else d) is })"

text \<open>The sorts, in the order of the code, and the declarations between them.\<close>

definition sort_indices :: "database \<Rightarrow> database option" where
  "sort_indices d =
     do { ni \<leftarrow> Sort (name_less d) (name_index d);
          ti \<leftarrow> Sort (type_name_less d) (type_name_index d);
          ai \<leftarrow> SortAddresses d;
          ty \<leftarrow> Sort (\<lambda>a b. ty_index a < ty_index b) (types d);
          ots \<leftarrow> Sort (\<lambda>a b. om_rva a < om_rva b) (omap_to_source d);
          ofs \<leftarrow> Sort (\<lambda>a b. om_rva a < om_rva b) (omap_from_source d);
          sl \<leftarrow> Sort (\<lambda>a b. sl_rva a < sl_rva b) (source_lines d);
          d \<leftarrow> declare_symbols
                 (d\<lparr>name_index := ni, type_name_index := ti, address_index := ai, types := ty,
                    omap_to_source := ots, omap_from_source := ofs, source_lines := sl\<rparr>)
                 [0..<length (symbols d)];
          si \<leftarrow> Sort site_less (inline_sites d);
          Some (d\<lparr>inline_sites := si\<rparr>) }"

definition Finalize :: "growth \<Rightarrow> database \<Rightarrow> (database \<times> (db_error + unit)) option" where
  "Finalize grows d =
     (case index_symbols grows (d\<lparr>name_index := [], type_name_index := [], address_index := []\<rparr>)
             [0..<length (symbols d)] of
        (d, False) \<Rightarrow> Some (d, Inl AllocationFailure)
      | (d, True) \<Rightarrow>
          (case index_types grows d (types d) of
             (d, False) \<Rightarrow> Some (d, Inl AllocationFailure)
           | (d, True) \<Rightarrow> do { d \<leftarrow> sort_indices d; Some (d\<lparr>ready := True\<rparr>, Inr ()) }))"

section \<open>Queries by name\<close>

definition NameMatches :: "database \<Rightarrow> name_entry \<Rightarrow> name \<Rightarrow> bool" where
  "NameMatches d e v \<longleftrightarrow> ne_hash e = HashName v \<and> db_String d (ne_name e) = v"

definition TypeNameMatches :: "database \<Rightarrow> type_name_entry \<Rightarrow> name \<Rightarrow> bool" where
  "TypeNameMatches d e v \<longleftrightarrow> te_hash e = HashName v \<and> db_String d (te_name e) = v"

text \<open>The loop over the entries of one hash; the flag is whether it ran to its end.\<close>

fun collect :: "growth \<Rightarrow> database \<Rightarrow> name \<Rightarrow> name_entry list \<Rightarrow> nat list \<Rightarrow> nat list \<times> bool" where
  "collect grows d v [] results = (results, True)"
| "collect grows d v (e # es) results =
     (if ne_hash e \<noteq> HashName v then (results, True)
      else if NameMatches d e v \<and> ne_symbol e \<notin> set results then
        if grows ResultTable (length results + 1) then collect grows d v es (results @ [ne_symbol e])
        else (results, False)
      else collect grows d v es results)"

definition FindExact :: "growth \<Rightarrow> database \<Rightarrow> name \<Rightarrow> (nat list \<times> bool) option" where
  "FindExact grows d v =
     (if v = [] \<or> name_index d = [] then Some ([], False)
      else
        do { k \<leftarrow> halve (\<lambda>e. Some (ne_hash e < HashName v)) (name_index d) 0 (length (name_index d));
             Some (case collect grows d v (drop k (name_index d)) [] of
                     (results, done) \<Rightarrow> (results, done \<and> results \<noteq> [])) })"

definition FindFirstExact :: "growth \<Rightarrow> database \<Rightarrow> name \<Rightarrow> nat option option" where
  "FindFirstExact grows d v =
     do { (results, found) \<leftarrow> FindExact grows d v;
          Some (if \<not> found \<or> results = [] then None else SymbolById d (results ! 0)) }"

definition function_score :: "symbol \<Rightarrow> nat" where
  "function_score v =
     (if sy_kind v = Function then 8 else 0) + (if sy_size v \<noteq> 0 then 4 else 0) +
     (if sy_type v \<noteq> InvalidId then 2 else 0) + (if sy_module v \<noteq> InvalidId then 1 else 0) +
     (if sy_source v = ExactPdb then 2 else 0)"

fun best_function :: "database \<Rightarrow> nat list \<Rightarrow> (nat \<times> nat) option \<Rightarrow> (nat \<times> nat) option" where
  "best_function d [] best = best"
| "best_function d (i # is) best =
     (case SymbolById d i of
        None \<Rightarrow> best_function d is best
      | Some i \<Rightarrow>
          if \<not> IsFunctionKind (sy_kind (symbols d ! i)) then best_function d is best
          else
            (let score = function_score (symbols d ! i)
             in best_function d is
                  (case best of
                     None \<Rightarrow> Some (i, score)
                   | Some (b, s) \<Rightarrow> if score > s then Some (i, score) else Some (b, s))))"

definition FindFunction :: "growth \<Rightarrow> database \<Rightarrow> name \<Rightarrow> nat option option" where
  "FindFunction grows d v =
     do { (results, found) \<leftarrow> FindExact grows d v;
          Some (if \<not> found then None else map_option fst (best_function d results None)) }"

definition FindGlobal :: "growth \<Rightarrow> database \<Rightarrow> name \<Rightarrow> nat option option" where
  "FindGlobal grows d v =
     do { (results, found) \<leftarrow> FindExact grows d v;
          Some (if \<not> found then None
                else find (\<lambda>i. i < length (symbols d) \<and> IsGlobalKind (sy_kind (symbols d ! i))) results) }"

definition type_score :: "type_info \<Rightarrow> nat" where
  "type_score t =
     (if ty_kind t = Struct \<or> ty_kind t = Class \<or> ty_kind t = UnionType \<or> ty_kind t = Enum then
        (if ty_attributes t AND 0x80 = 0 then 16 else 0) +
        (if ty_field_list t \<noteq> InvalidId \<and> ty_field_list t \<noteq> 0 then 8 else 0) +
        (if ty_size t \<noteq> 0 then 4 else 0) + (if ty_members t \<noteq> 0 then 2 else 0)
      else 0) + (if ty_unique t \<noteq> EmptyStringId then 1 else 0)"

fun best_type :: "database \<Rightarrow> name \<Rightarrow> type_name_entry list \<Rightarrow> (nat \<times> nat) option \<Rightarrow> (nat \<times> nat) option option" where
  "best_type d v [] best = Some best"
| "best_type d v (e # es) best =
     (if te_hash e \<noteq> HashName v then Some best
      else if \<not> TypeNameMatches d e v then best_type d v es best
      else
        do { t \<leftarrow> TypeByIndex d (te_type e);
             case t of
               None \<Rightarrow> best_type d v es best
             | Some k \<Rightarrow>
                 (let score = type_score (types d ! k)
                  in best_type d v es
                       (case best of
                          None \<Rightarrow> Some (k, score)
                        | Some (b, s) \<Rightarrow> if score > s then Some (k, score) else Some (b, s))) })"

definition FindType :: "database \<Rightarrow> name \<Rightarrow> nat option option" where
  "FindType d v =
     (if v = [] \<or> type_name_index d = [] then Some None
      else
        do { k \<leftarrow> halve (\<lambda>e. Some (te_hash e < HashName v)) (type_name_index d) 0 (length (type_name_index d));
             best \<leftarrow> best_type d v (drop k (type_name_index d)) None;
             Some (map_option fst best) })"

section \<open>Queries by address\<close>

text \<open>The first entry of the address index above \<open>rva\<close>; the symbols are read through it.\<close>

definition rva_of :: "database \<Rightarrow> nat \<Rightarrow> nat option" where
  "rva_of d i = (if i < length (symbols d) then Some (sy_rva (symbols d ! i)) else None)"

definition addresses_up_to :: "database \<Rightarrow> nat \<Rightarrow> nat option" where
  "addresses_up_to d rva =
     halve (\<lambda>i. do { r \<leftarrow> rva_of d i; Some (r \<le> rva) }) (address_index d) 0 (length (address_index d))"

definition SymbolAtOrBeforeRva :: "database \<Rightarrow> nat \<Rightarrow> nat option option" where
  "SymbolAtOrBeforeRva d rva =
     (if address_index d = [] then Some None
      else
        do { k \<leftarrow> addresses_up_to d rva;
             if k = 0 then Some None
             else do { r \<leftarrow> rva_of d (address_index d ! (k - 1)); Some (Some (address_index d ! (k - 1))) } })"

fun scan_back :: "database \<Rightarrow> nat \<Rightarrow> nat \<Rightarrow> nat option option" where
  "scan_back d rva 0 = Some None"
| "scan_back d rva (Suc left) =
     (let i = address_index d ! left
      in do { r \<leftarrow> rva_of d i;
              let v = symbols d ! i;
              if \<not> IsFunctionKind (sy_kind v) then scan_back d rva left
              else if r > rva then scan_back d rva left
              else if sy_size v = 0 then
                if rva = r then Some (Some i) else scan_back d rva left
              else if rva - r < sy_size v then Some (Some i)
              else if rva - r > 0x100000 then Some None
              else scan_back d rva left })"

definition FunctionContainingRva :: "database \<Rightarrow> nat \<Rightarrow> nat option option" where
  "FunctionContainingRva d rva =
     (if address_index d = [] then Some None
      else do { k \<leftarrow> addresses_up_to d rva; scan_back d rva k })"

definition map_rva :: "omap list \<Rightarrow> nat \<Rightarrow> nat option" where
  "map_rva entries rva =
     (if entries = [] then Some rva
      else
        do { k \<leftarrow> halve (\<lambda>e. Some (om_rva e \<le> rva)) entries 0 (length entries);
             if k = 0 then Some 0
             else
               (let e = entries ! (k - 1)
                in Some (if om_mapped e \<noteq> 0 then id32 (om_mapped e + (rva - om_rva e)) else 0)) })"

definition MapRvaToSource :: "database \<Rightarrow> nat \<Rightarrow> nat option" where
  "MapRvaToSource d = map_rva (omap_to_source d)"

definition MapRvaFromSource :: "database \<Rightarrow> nat \<Rightarrow> nat option" where
  "MapRvaFromSource d = map_rva (omap_from_source d)"

fun collect_sites :: "growth \<Rightarrow> nat \<Rightarrow> inline_site list \<Rightarrow> inline_site list \<Rightarrow> inline_site list option" where
  "collect_sites grows rva [] frames = Some frames"
| "collect_sites grows rva (s # ss) frames =
     (if is_start s = 0 \<and> is_end s = 0 then collect_sites grows rva ss frames
      else if is_start s \<le> rva \<and> (is_end s = 0 \<or> rva < is_end s) then
        if grows ResultTable (length frames + 1) then collect_sites grows rva ss (frames @ [s]) else None
      else collect_sites grows rva ss frames)"

definition site_span :: "inline_site \<Rightarrow> nat" where
  "site_span s = (if is_end s > is_start s then is_end s - is_start s else size_max)"

definition InlineStack :: "growth \<Rightarrow> database \<Rightarrow> nat \<Rightarrow> (inline_site list \<times> bool) option" where
  "InlineStack grows d rva =
     (case collect_sites grows rva (inline_sites d) [] of
        None \<Rightarrow> Some ([], False)
      | Some frames \<Rightarrow>
          do { frames \<leftarrow> Sort (\<lambda>a b. site_span a > site_span b) frames; Some (frames, frames \<noteq> []) })"

record symbolized =
  sz_symbol :: "nat option"
  sz_address :: nat
  sz_rva :: nat
  sz_offset :: nat
  sz_source :: location
  sz_frames :: "inline_site list"

definition symbolized_rva :: "database \<Rightarrow> nat \<Rightarrow> bool \<Rightarrow> nat \<times> nat" where
  "symbolized_rva d a is_rva =
     (if is_rva then (case image_base d of None \<Rightarrow> (a, a) | Some b \<Rightarrow> (usz (b + a), a))
      else
        case image_base d of
          None \<Rightarrow> (a, a)
        | Some b \<Rightarrow> if a \<ge> b \<and> a < usz (b + image_size d) then (a, a - b) else (a, a))"

definition Symbolize :: "growth \<Rightarrow> database \<Rightarrow> nat \<Rightarrow> bool \<Rightarrow> symbolized option" where
  "Symbolize grows d a is_rva =
     (case symbolized_rva d a is_rva of (address, rva) \<Rightarrow>
        do { f \<leftarrow> FunctionContainingRva d rva;
             s \<leftarrow> (case f of None \<Rightarrow> SymbolAtOrBeforeRva d rva | Some i \<Rightarrow> Some (Some i));
             l \<leftarrow> SourceForRva d rva;
             (frames, _) \<leftarrow> InlineStack grows d rva;
             Some \<lparr>sz_symbol = s, sz_address = address, sz_rva = rva,
               sz_offset = (case s of None \<Rightarrow> 0
                            | Some i \<Rightarrow> if rva \<ge> sy_rva (symbols d ! i) then rva - sy_rva (symbols d ! i) else 0),
               sz_source = l, sz_frames = frames\<rparr> })"

section \<open>Types\<close>

definition TypeFields :: "database \<Rightarrow> type_info \<Rightarrow> field list" where
  "TypeFields d t =
     (if ty_field_begin t \<ge> length (type_fields d) \<or>
         usz (ty_field_begin t + ty_field_count t) > length (type_fields d) then []
      else take (ty_field_count t) (drop (ty_field_begin t) (type_fields d)))"

definition TypeParameters :: "database \<Rightarrow> type_info \<Rightarrow> nat list" where
  "TypeParameters d t =
     (if ty_parameter_begin t \<ge> length (parameter_types d) \<or>
         usz (ty_parameter_begin t + ty_parameter_type_count t) > length (parameter_types d) then []
      else take (ty_parameter_type_count t) (drop (ty_parameter_begin t) (parameter_types d)))"

text \<open>The walk along the continuations of a field list, for at most 64 of them.\<close>

fun field_walk :: "database \<Rightarrow> name \<Rightarrow> nat \<Rightarrow> nat option \<Rightarrow> nat option option" where
  "field_walk d v 0 owner = Some None"
| "field_walk d v (Suc left) owner =
     (case owner of
        None \<Rightarrow> Some None
      | Some k \<Rightarrow>
          (case find (\<lambda>f. db_String d (fd_name f) = v \<and> \<not> fd_static f \<and> \<not> fd_enumerator f)
                  (TypeFields d (types d ! k)) of
             Some f \<Rightarrow> Some (Some (fd_offset f))
           | None \<Rightarrow>
               if ty_continuation (types d ! k) \<noteq> InvalidId
               then do { owner \<leftarrow> TypeByIndex d (ty_continuation (types d ! k)); field_walk d v left owner }
               else Some None))"

text \<open>\<open>Offset\<close> is 0 when the field is not found.\<close>

definition FieldOffset :: "database \<Rightarrow> name \<Rightarrow> name \<Rightarrow> nat option option" where
  "FieldOffset d type_name field_name =
     do { t \<leftarrow> FindType d type_name;
          case t of
            None \<Rightarrow> Some None
          | Some k \<Rightarrow>
              do { owner \<leftarrow>
                     (if ty_field_count (types d ! k) = 0 \<and> ty_field_list (types d ! k) \<noteq> InvalidId
                      then do { l \<leftarrow> TypeByIndex d (ty_field_list (types d ! k));
                                Some (case l of None \<Rightarrow> k | Some j \<Rightarrow> j) }
                      else Some k);
                   field_walk d field_name 64 (Some owner) } }"

end
