(* ===== verification/Lookup.thy ===== *)
theory Lookup
  imports Database
begin

text \<open>
  What the symbol database of theory Database promises: interned strings keep their identifiers, and after
  \<open>Finalize\<close> the searches by name, by type and by address find what a look at every element would find.
\<close>

section \<open>The binary search and the sort\<close>

lemma halve_spec:
  assumes "left \<le> right" and "right \<le> length xs"
    and "\<And>i. left \<le> i \<Longrightarrow> i < right \<Longrightarrow> test (xs ! i) = Some (P (xs ! i))"
    and "\<And>i j. left \<le> i \<Longrightarrow> i < j \<Longrightarrow> j < right \<Longrightarrow> P (xs ! j) \<Longrightarrow> P (xs ! i)"
  shows "\<exists>k. halve test xs left right = Some k \<and> left \<le> k \<and> k \<le> right \<and>
    (\<forall>i. left \<le> i \<and> i < k \<longrightarrow> P (xs ! i)) \<and> (\<forall>i. k \<le> i \<and> i < right \<longrightarrow> \<not> P (xs ! i))"
  using assms
proof (induction "right - left" arbitrary: left right rule: less_induct)
  case less
  show ?case
  proof (cases "left < right")
    case False
    then show ?thesis using less.prems(1) by (subst halve.simps) auto
  next
    case True
    define m where "m = left + (right - left) div 2"
    have m: "left \<le> m" "m < right" using True by (auto simp: m_def)
    have step: "halve test xs left right =
        (if P (xs ! m) then halve test xs (m + 1) right else halve test xs left m)"
      using True m less.prems(2) less.prems(3) [OF m] by (subst halve.simps) (simp add: m_def [symmetric] Let_def)
    show ?thesis
    proof (cases "P (xs ! m)")
      case p: True
      have "\<exists>k. halve test xs (m + 1) right = Some k \<and> m + 1 \<le> k \<and> k \<le> right \<and>
          (\<forall>i. m + 1 \<le> i \<and> i < k \<longrightarrow> P (xs ! i)) \<and> (\<forall>i. k \<le> i \<and> i < right \<longrightarrow> \<not> P (xs ! i))"
        using m less.prems by (intro less.hyps) (auto intro: less.prems(4))
      then obtain k where k: "halve test xs (m + 1) right = Some k" "m + 1 \<le> k" "k \<le> right"
        "\<forall>i. m + 1 \<le> i \<and> i < k \<longrightarrow> P (xs ! i)" "\<forall>i. k \<le> i \<and> i < right \<longrightarrow> \<not> P (xs ! i)" by blast
      have "P (xs ! i)" if "left \<le> i" "i < k" for i
        using k(4) that p less.prems(4) [of i m] m by (cases "i < m"; cases "i = m") auto
      then show ?thesis using k m step p by auto
    next
      case n: False
      have "\<exists>k. halve test xs left m = Some k \<and> left \<le> k \<and> k \<le> m \<and>
          (\<forall>i. left \<le> i \<and> i < k \<longrightarrow> P (xs ! i)) \<and> (\<forall>i. k \<le> i \<and> i < m \<longrightarrow> \<not> P (xs ! i))"
        using m less.prems by (intro less.hyps) (auto intro: less.prems(4))
      then obtain k where k: "halve test xs left m = Some k" "left \<le> k" "k \<le> m"
        "\<forall>i. left \<le> i \<and> i < k \<longrightarrow> P (xs ! i)" "\<forall>i. k \<le> i \<and> i < m \<longrightarrow> \<not> P (xs ! i)" by blast
      have "\<not> P (xs ! i)" if "k \<le> i" "i < right" for i
        using k(2,5) that n less.prems(4) [of m i] m by (cases "m < i"; cases "i = m") auto
      then show ?thesis using k m step n by auto
    qed
  qed
qed

text \<open>On a list that is sorted by a key, the search for the elements that are smaller, or not greater.\<close>

lemma halve_sorted:
  fixes f :: "'a \<Rightarrow> 'k::linorder"
  assumes s: "sorted (map f xs)" and t: "\<And>x. x \<in> set xs \<Longrightarrow> test x = Some (P (f x))"
    and down: "\<And>a b. a \<le> b \<Longrightarrow> P b \<Longrightarrow> P a"
  shows "\<exists>k. halve test xs 0 (length xs) = Some k \<and> k \<le> length xs \<and>
    (\<forall>x \<in> set (take k xs). P (f x)) \<and> (\<forall>x \<in> set (drop k xs). \<not> P (f x))"
proof -
  have "P (f (xs ! i))" if "i < j" "j < length xs" "P (f (xs ! j))" for i j
    using sorted_nth_mono [OF s, of i j] that down by simp
  then obtain k where k: "halve test xs 0 (length xs) = Some k" "k \<le> length xs"
    "\<forall>i. i < k \<longrightarrow> P (f (xs ! i))" "\<forall>i. k \<le> i \<and> i < length xs \<longrightarrow> \<not> P (f (xs ! i))"
    using halve_spec [of 0 "length xs" xs test "\<lambda>x. P (f x)"] t by auto
  then show ?thesis by (auto simp: in_set_conv_nth)
qed

lemma halve_less:
  fixes f :: "'a \<Rightarrow> 'k::linorder"
  assumes "sorted (map f xs)"
  obtains k where "halve (\<lambda>x. Some (f x < c)) xs 0 (length xs) = Some k" "k \<le> length xs"
    "\<forall>x \<in> set (take k xs). f x < c" "\<forall>x \<in> set (drop k xs). c \<le> f x"
proof -
  have "\<exists>k. halve (\<lambda>x. Some (f x < c)) xs 0 (length xs) = Some k \<and> k \<le> length xs \<and>
      (\<forall>x \<in> set (take k xs). f x < c) \<and> (\<forall>x \<in> set (drop k xs). \<not> f x < c)"
    by (rule halve_sorted [OF assms, where P = "\<lambda>y. y < c"]) (auto intro: order_le_less_trans)
  then show ?thesis using that by (auto simp: linorder_not_less)
qed

lemma halve_le:
  fixes f :: "'a \<Rightarrow> 'k::linorder"
  assumes "sorted (map f xs)"
  obtains k where "halve (\<lambda>x. Some (f x \<le> c)) xs 0 (length xs) = Some k" "k \<le> length xs"
    "\<forall>x \<in> set (take k xs). f x \<le> c" "\<forall>x \<in> set (drop k xs). c < f x"
proof -
  have "\<exists>k. halve (\<lambda>x. Some (f x \<le> c)) xs 0 (length xs) = Some k \<and> k \<le> length xs \<and>
      (\<forall>x \<in> set (take k xs). f x \<le> c) \<and> (\<forall>x \<in> set (drop k xs). \<not> f x \<le> c)"
    by (rule halve_sorted [OF assms, where P = "\<lambda>y. y \<le> c"]) (auto intro: order_trans)
  then show ?thesis using that by (auto simp: linorder_not_le)
qed

lemma in_take_or_drop: "x \<in> set xs \<Longrightarrow> x \<in> set (take k xs) \<or> x \<in> set (drop k xs)"
  by (metis Un_iff append_take_drop_id set_append)

lemma vec_rep_holding: "length xs < 2 ^ 64 \<Longrightarrow> vec_rep (vec_holding xs) xs"
  by (auto simp: vec_rep_def vec_holding_def live_def intro!: nth_equalityI)

lemma Sort_eq:
  fixes f :: "'a \<Rightarrow> 'k::linorder"
  assumes "length xs < 2 ^ 64" and "\<And>a b. before a b = (f a < f b)"
  shows "Sort before xs = Some (sort_key f xs)"
proof -
  have b: "before = (\<lambda>a b. f a < f b)" using assms(2) by (intro ext) simp
  obtain v where v: "vec_Sort (\<lambda>a b. f a < f b) (vec_holding xs) = Some v" "vec_rep v (sort_key f xs)"
    using vec_Sort_rep [OF vec_rep_holding [OF assms(1)], of f] by auto
  note r = vec_repD [OF v(2)]
  have "map the (take (vsize v) (slots v)) = sort_key f xs"
    using r(3) by (intro nth_equalityI) (simp_all add: r(1,2) live_def)
  with v(1) show ?thesis by (simp add: Sort_def b)
qed

section \<open>Strings\<close>

definition strings_ok :: "name list \<Rightarrow> bool" where
  "strings_ok ss \<longleftrightarrow> ss \<noteq> [] \<and> hd ss = [] \<and> distinct ss \<and> length ss < 2 ^ 32 \<and> (\<forall>s \<in> set ss. length s < size_max)"

lemma find_string:
  assumes "strings_ok ss" and "v \<noteq> []"
  shows "find (\<lambda>i. ss ! i = v) [1..<length ss] = Some i \<longleftrightarrow> i < length ss \<and> ss ! i = v"
    and "find (\<lambda>i. ss ! i = v) [1..<length ss] = None \<longleftrightarrow> v \<notin> set ss"
proof -
  have h: "ss ! 0 = []" "0 < length ss" using assms(1) by (auto simp: strings_ok_def hd_conv_nth)
  have d: "distinct ss" using assms(1) by (simp add: strings_ok_def)
  show "find (\<lambda>i. ss ! i = v) [1..<length ss] = Some i \<longleftrightarrow> i < length ss \<and> ss ! i = v"
    unfolding find_upt_Some using h d assms(2) by (auto simp: nth_eq_iff_index_eq Suc_le_eq intro: gr0I)
  show "find (\<lambda>i. ss ! i = v) [1..<length ss] = None \<longleftrightarrow> v \<notin> set ss"
    unfolding find_upt_None in_set_conv_nth using h assms(2) by (metis One_nat_def Suc_leI gr0I)
qed

section \<open>What Finalize leaves\<close>

text \<open>The part of a symbol that \<open>Finalize\<close> does not change, and the databases that agree on it.\<close>

definition core :: "symbol \<Rightarrow> symbol" where
  "core v = v\<lparr>sy_semantic := 0, sy_flags := 0, sy_declaration := no_location\<rparr>"

lemma core_fields:
  "core v = core w \<Longrightarrow> sy_id v = sy_id w \<and> sy_name v = sy_name w \<and> sy_decorated v = sy_decorated w \<and>
    sy_qualified v = sy_qualified w \<and> sy_base v = sy_base w \<and> sy_kind v = sy_kind w \<and> sy_rva v = sy_rva w \<and>
    sy_size v = sy_size w \<and> sy_type v = sy_type w \<and> sy_module v = sy_module w \<and> sy_source v = sy_source w"
  by (cases v; cases w) (simp add: core_def)

lemma core_updates [simp]:
  "core (v\<lparr>sy_semantic := s\<rparr>) = core v" "core (v\<lparr>sy_declaration := l, sy_flags := f\<rparr>) = core v"
  by (simp_all add: core_def)

definition same_symbols :: "symbol list \<Rightarrow> symbol list \<Rightarrow> bool" where
  "same_symbols vs ws \<longleftrightarrow> map core vs = map core ws"

lemma same_symbols_nth:
  "same_symbols vs ws \<Longrightarrow> length vs = length ws \<and> (\<forall>i < length ws. core (vs ! i) = core (ws ! i))"
  unfolding same_symbols_def by (metis length_map nth_map)

lemma same_symbols_update:
  "same_symbols vs ws \<Longrightarrow> core x = core (vs ! i) \<Longrightarrow> same_symbols (vs[i := x]) ws"
  unfolding same_symbols_def by (metis list_update_id map_update)

lemma same_symbols_trans: "same_symbols us vs \<Longrightarrow> same_symbols vs ws \<Longrightarrow> same_symbols us ws"
  by (simp add: same_symbols_def)

lemma same_symbols_refl [simp]: "same_symbols vs vs"
  by (simp add: same_symbols_def)

definition entry_of :: "database \<Rightarrow> nat \<Rightarrow> nat \<Rightarrow> name_entry" where
  "entry_of d i n = \<lparr>ne_hash = HashName (db_String d n), ne_name = n, ne_symbol = i\<rparr>"

definition entries_of :: "database \<Rightarrow> symbol \<Rightarrow> name_entry list" where
  "entries_of d v = map (entry_of d (sy_id v)) (filter (\<lambda>n. n \<noteq> EmptyStringId \<and> sy_id v \<noteq> InvalidId) (names_to_index v))"

lemma AddNames_True:
  "AddNames grows d i ns = (d', True) \<Longrightarrow>
    d' = d\<lparr>name_index := name_index d @
      map (entry_of d i) (filter (\<lambda>n. n \<noteq> EmptyStringId \<and> i \<noteq> InvalidId) ns)\<rparr>"
proof (induction ns arbitrary: d)
  case (Cons n ns)
  have s: "entry_of (d\<lparr>name_index := x\<rparr>) = entry_of d" for x by (intro ext) (simp add: entry_of_def db_String_def)
  show ?case using Cons.prems
    by (auto simp: AddNameIndex_def entry_of_def [symmetric] s split: if_splits dest!: Cons.IH)
qed simp

lemma names_to_index_core: "core v = core w \<Longrightarrow> names_to_index v = names_to_index w"
  using core_fields [of v w] by (simp add: names_to_index_def)

lemma entries_of_core:
  "core v = core w \<Longrightarrow> strings d = strings e \<Longrightarrow> entries_of d v = entries_of e w"
  using core_fields [of v w] names_to_index_core [of v w]
  by (simp add: entries_of_def entry_of_def db_String_def)

lemma index_symbol_True:
  assumes "index_symbol grows d i = (d', True)"
  shows "\<exists>vs. d' = d\<lparr>symbols := vs, name_index := name_index d @ entries_of d (symbols d ! i),
      address_index := address_index d @ (if sy_rva (symbols d ! i) \<noteq> 0 then [sy_id (symbols d ! i)] else [])\<rparr> \<and>
    same_symbols vs (symbols d)"
proof -
  define v where "v = (if sy_semantic (symbols d ! i) = 0
    then (symbols d ! i)\<lparr>sy_semantic := semantic_id d (symbols d ! i)\<rparr> else symbols d ! i)"
  define e where "e = d\<lparr>symbols := (symbols d)[i := v]\<rparr>"
  have v: "core v = core (symbols d ! i)" by (simp add: v_def)
  note f = core_fields [OF v]
  have eo: "map (entry_of e (sy_id v)) (filter (\<lambda>n. n \<noteq> EmptyStringId \<and> sy_id v \<noteq> InvalidId) (names_to_index v)) =
      entries_of d (symbols d ! i)"
    using entries_of_core [OF v, of e d] by (simp add: entries_of_def e_def)
  obtain g b where g: "AddNames grows e (sy_id v) (names_to_index v) = (g, b)" by fastforce
  have b: "b = True" using assms g
    by (cases b) (simp_all add: index_symbol_def Let_def v_def [symmetric] e_def [symmetric])
  have g': "g = e\<lparr>name_index := name_index e @ entries_of d (symbols d ! i)\<rparr>"
    using AddNames_True [of grows e "sy_id v" "names_to_index v" g] g b eo by simp
  have ss: "same_symbols ((symbols d)[i := v]) (symbols d)" using v by (intro same_symbols_update) simp_all
  have "index_symbol grows d i =
      (if sy_rva v \<noteq> 0 then
         if grows AddressTable (length (address_index g) + 1)
         then (g\<lparr>address_index := address_index g @ [sy_id v]\<rparr>, True) else (g, False)
       else (g, True))"
    using g b by (simp add: index_symbol_def Let_def v_def [symmetric] e_def [symmetric])
  then have "d' = (if sy_rva v \<noteq> 0 then g\<lparr>address_index := address_index g @ [sy_id v]\<rparr> else g)"
    using assms by (auto split: if_splits)
  then have "d' = d\<lparr>symbols := (symbols d)[i := v], name_index := name_index d @ entries_of d (symbols d ! i),
      address_index := address_index d @ (if sy_rva (symbols d ! i) \<noteq> 0 then [sy_id (symbols d ! i)] else [])\<rparr>"
    using f by (simp add: g' e_def)
  with ss show ?thesis by blast
qed

lemma index_symbols_True:
  assumes "index_symbols grows d is = (d', True)" and "\<forall>i \<in> set is. i < length (symbols d)"
  shows "\<exists>vs. d' = d\<lparr>symbols := vs,
      name_index := name_index d @ concat (map (\<lambda>i. entries_of d (symbols d ! i)) is),
      address_index := address_index d @
        map (\<lambda>i. sy_id (symbols d ! i)) (filter (\<lambda>i. sy_rva (symbols d ! i) \<noteq> 0) is)\<rparr> \<and>
    same_symbols vs (symbols d)"
  using assms
proof (induction "is" arbitrary: d)
  case Nil
  then show ?case by (intro exI [of _ "symbols d"]) simp
next
  case (Cons i "is")
  obtain e b where e: "index_symbol grows d i = (e, b)" by fastforce
  with Cons.prems(1) have b: "b = True" by (cases b) simp_all
  with index_symbol_True [of grows d i e] e obtain vs where vs:
    "e = d\<lparr>symbols := vs, name_index := name_index d @ entries_of d (symbols d ! i),
      address_index := address_index d @ (if sy_rva (symbols d ! i) \<noteq> 0 then [sy_id (symbols d ! i)] else [])\<rparr>"
    "same_symbols vs (symbols d)" by auto
  have rest: "index_symbols grows e is = (d', True)" using Cons.prems(1) e b by simp
  have len: "length vs = length (symbols d)" using same_symbols_nth [OF vs(2)] by simp
  obtain ws where ws: "d' = e\<lparr>symbols := ws,
      name_index := name_index e @ concat (map (\<lambda>i. entries_of e (symbols e ! i)) is),
      address_index := address_index e @
        map (\<lambda>i. sy_id (symbols e ! i)) (filter (\<lambda>i. sy_rva (symbols e ! i) \<noteq> 0) is)\<rparr>"
    "same_symbols ws (symbols e)"
    using Cons.IH [OF rest] Cons.prems(2) len vs(1) by auto
  have c: "core (vs ! j) = core (symbols d ! j)" if "j \<in> set is" for j
    using same_symbols_nth [OF vs(2)] Cons.prems(2) that by auto
  have "entries_of e (symbols e ! j) = entries_of d (symbols d ! j)" if "j \<in> set is" for j
    using entries_of_core [OF c [OF that], of e d] vs(1) by simp
  then have 1: "map (\<lambda>i. entries_of e (symbols e ! i)) is = map (\<lambda>i. entries_of d (symbols d ! i)) is" by simp
  have 2: "filter (\<lambda>i. sy_rva (symbols e ! i) \<noteq> 0) is = filter (\<lambda>i. sy_rva (symbols d ! i) \<noteq> 0) is"
    using core_fields [OF c] vs(1) by (intro filter_cong) auto
  have 3: "map (\<lambda>i. sy_id (symbols e ! i)) (filter (\<lambda>i. sy_rva (symbols d ! i) \<noteq> 0) is) =
      map (\<lambda>i. sy_id (symbols d ! i)) (filter (\<lambda>i. sy_rva (symbols d ! i) \<noteq> 0) is)"
    using core_fields [OF c] vs(1) by (intro map_cong) auto
  have "same_symbols ws (symbols d)" using ws(2) vs same_symbols_trans by simp
  then show ?case using ws(1) unfolding 1 2 3 by (intro exI [of _ ws]) (simp add: vs(1))
qed

definition type_entry :: "database \<Rightarrow> type_info \<Rightarrow> type_name_entry" where
  "type_entry d t = \<lparr>te_hash = HashName (db_String d (ty_name t)), te_name = ty_name t, te_type = ty_index t\<rparr>"

lemma index_types_True:
  "index_types grows d ts = (d', True) \<Longrightarrow>
    d' = d\<lparr>type_name_index := type_name_index d @ map (type_entry d) (filter (\<lambda>t. ty_name t \<noteq> EmptyStringId) ts)\<rparr>"
proof (induction ts arbitrary: d)
  case (Cons t ts)
  have s: "type_entry (d\<lparr>type_name_index := x\<rparr>) = type_entry d" for x
    by (intro ext) (simp add: type_entry_def db_String_def)
  show ?case using Cons.prems by (auto simp: type_entry_def [symmetric] s split: if_splits dest!: Cons.IH)
qed simp

text \<open>The comparisons are comparisons of keys.\<close>

lemma db_String_short: "strings_ok (strings d) \<Longrightarrow> length (db_String d i) < size_max"
  by (auto simp: db_String_def strings_ok_def size_max_def)

lemma text_compare_order:
  assumes "length a < size_max" and "length b < size_max"
  shows "text_compare a b < 0 \<longleftrightarrow> a < b" and "text_compare a b = 0 \<longleftrightarrow> a = b"
proof -
  have less: "ord_class.lexordp x y \<longleftrightarrow> x < y" for x y :: "int list"
    by (simp add: list_less_def lexordp_conv_lexord)
  have "view_Compare (Some a) (Some b) = Some (if a < b then - 1 else if b < a then 1 else 0)"
    using view_Compare_eq [of "Some a" "Some b"] assms by (simp add: less view_size_def chars_def)
  then have "text_compare a b = (if a < b then - 1 else if b < a then 1 else 0)" by (simp add: text_compare_def)
  then show "text_compare a b < 0 \<longleftrightarrow> a < b" "text_compare a b = 0 \<longleftrightarrow> a = b" by auto
qed

definition name_key :: "database \<Rightarrow> name_entry \<Rightarrow> u64 \<times> name \<times> nat" where
  "name_key d e = (ne_hash e, db_String d (ne_name e), ne_symbol e)"

definition type_name_key :: "database \<Rightarrow> type_name_entry \<Rightarrow> u64 \<times> name \<times> nat" where
  "type_name_key d e = (te_hash e, db_String d (te_name e), te_type e)"

definition address_key :: "database \<Rightarrow> nat \<Rightarrow> nat \<times> int \<times> nat" where
  "address_key d i = (sy_rva (symbols d ! i), - int (sy_size (symbols d ! i)), kind_code (sy_kind (symbols d ! i)))"

definition site_key :: "inline_site \<Rightarrow> nat \<times> int" where
  "site_key s = (is_start s, - int (is_end s))"

lemma less_by_keys:
  "strings_ok (strings d) \<Longrightarrow> name_less d a b = (name_key d a < name_key d b)"
  "strings_ok (strings d) \<Longrightarrow> type_name_less d x y = (type_name_key d x < type_name_key d y)"
  "address_less d i j = (address_key d i < address_key d j)"
  "site_less s t = (site_key s < site_key t)"
  using text_compare_order [OF db_String_short db_String_short, of d d "ne_name a" "ne_name b"]
    text_compare_order [OF db_String_short db_String_short, of d d "te_name x" "te_name y"]
  by (auto simp: name_less_def name_key_def type_name_less_def type_name_key_def address_less_def address_key_def
      site_less_def site_key_def Let_def less_le)

text \<open>What the callers must keep: strings without repetition, symbols under their own index, and vectors
  within the sizes of the machine.\<close>

definition db_ok :: "database \<Rightarrow> bool" where
  "db_ok d \<longleftrightarrow> strings_ok (strings d) \<and> length (symbols d) < InvalidId \<and>
     (\<forall>i < length (symbols d). sy_id (symbols d ! i) = i) \<and> length (types d) < 2 ^ 64 \<and>
     length (source_lines d) < 2 ^ 64 \<and> length (omap_to_source d) < 2 ^ 64 \<and>
     length (omap_from_source d) < 2 ^ 64 \<and> length (inline_sites d) < 2 ^ 64"

text \<open>The state of a finalized database.\<close>

definition db_final :: "database \<Rightarrow> bool" where
  "db_final d \<longleftrightarrow> ready d \<and> strings_ok (strings d) \<and>
     sorted (map ne_hash (name_index d)) \<and>
     set (name_index d) = (\<Union>i < length (symbols d). set (entries_of d (symbols d ! i))) \<and>
     sorted (map te_hash (type_name_index d)) \<and>
     set (type_name_index d) = type_entry d ` {t \<in> set (types d). ty_name t \<noteq> EmptyStringId} \<and>
     sorted (map (\<lambda>i. sy_rva (symbols d ! i)) (address_index d)) \<and>
     set (address_index d) = {i. i < length (symbols d) \<and> sy_rva (symbols d ! i) \<noteq> 0} \<and>
     sorted (map ty_index (types d)) \<and> sorted (map om_rva (omap_to_source d)) \<and>
     sorted (map om_rva (omap_from_source d)) \<and> sorted (map sl_rva (source_lines d)) \<and>
     length (inline_sites d) < 2 ^ 64 \<and> (\<forall>i < length (symbols d). sy_id (symbols d ! i) = i)"

lemma sorted_by:
  fixes k :: "'a \<Rightarrow> 'k::linorder" and f :: "'a \<Rightarrow> 'l::linorder"
  assumes "\<And>x y. k x \<le> k y \<Longrightarrow> f x \<le> f y"
  shows "sorted (map f (sort_key k xs))"
proof -
  have "sorted (map k (sort_key k xs))" by (rule sorted_sort_key)
  then show ?thesis unfolding sorted_map using assms by (rule sorted_wrt_mono_rel [rotated]) blast
qed

lemma keys_refine:
  "name_key d a \<le> name_key d b \<Longrightarrow> ne_hash a \<le> ne_hash b"
  "type_name_key d x \<le> type_name_key d y \<Longrightarrow> te_hash x \<le> te_hash y"
  "address_key d i \<le> address_key d j \<Longrightarrow> sy_rva (symbols d ! i) \<le> sy_rva (symbols d ! j)"
  by (auto simp: name_key_def type_name_key_def address_key_def)

lemma SourceForRva_total:
  assumes "sorted (map sl_rva (source_lines d))"
  shows "\<exists>l. SourceForRva d rva = Some l"
proof (cases "source_lines d = []")
  case False
  obtain k where "line_before d rva = Some k"
    using halve_sorted [OF assms, of "\<lambda>l. Some (sl_rva l \<le> rva)" "\<lambda>r. r \<le> rva"]
    by (auto simp: line_before_def)
  with False show ?thesis by (simp add: SourceForRva_def Let_def)
qed (simp add: SourceForRva_def)

lemma declare_symbols_ok:
  assumes "sorted (map sl_rva (source_lines d))"
  shows "\<exists>vs. declare_symbols d is = Some (d\<lparr>symbols := vs\<rparr>) \<and> same_symbols vs (symbols d)"
  using assms
proof (induction "is" arbitrary: d)
  case Nil
  then show ?case by (intro exI [of _ "symbols d"]) simp
next
  case (Cons i "is")
  obtain l where l: "SourceForRva d (sy_rva (symbols d ! i)) = Some l"
    using SourceForRva_total [OF Cons.prems] by blast
  define us where "us = (if sy_rva (symbols d ! i) \<noteq> 0 \<and> location_Valid l
    then (symbols d)[i := (symbols d ! i)\<lparr>sy_declaration := l, sy_flags := sy_flags (symbols d ! i) OR HasSource\<rparr>]
    else symbols d)"
  have us: "same_symbols us (symbols d)" by (auto simp: us_def intro: same_symbols_update)
  have step: "declare_symbols d (i # is) = declare_symbols (d\<lparr>symbols := us\<rparr>) is"
    using l by (simp add: us_def Let_def)
  obtain vs where "declare_symbols (d\<lparr>symbols := us\<rparr>) is = Some (d\<lparr>symbols := vs\<rparr>)" "same_symbols vs us"
    using Cons.IH [of "d\<lparr>symbols := us\<rparr>"] Cons.prems by auto
  then show ?case using step us same_symbols_trans by auto
qed

lemma sort_indices_ok:
  assumes "strings_ok (strings d)" and "length (name_index d) < 2 ^ 64" and "length (type_name_index d) < 2 ^ 64"
    and "length (address_index d) < 2 ^ 64" and "set (address_index d) \<subseteq> {..<length (symbols d)}"
    and "length (types d) < 2 ^ 64" and "length (source_lines d) < 2 ^ 64"
    and "length (omap_to_source d) < 2 ^ 64" and "length (omap_from_source d) < 2 ^ 64"
    and "length (inline_sites d) < 2 ^ 64"
  shows "\<exists>vs. sort_indices d = Some (d\<lparr>symbols := vs, name_index := sort_key (name_key d) (name_index d),
      type_name_index := sort_key (type_name_key d) (type_name_index d),
      address_index := sort_key (address_key d) (address_index d), types := sort_key ty_index (types d),
      omap_to_source := sort_key om_rva (omap_to_source d),
      omap_from_source := sort_key om_rva (omap_from_source d),
      source_lines := sort_key sl_rva (source_lines d), inline_sites := sort_key site_key (inline_sites d)\<rparr>) \<and>
    same_symbols vs (symbols d)"
proof -
  have a: "SortAddresses d = Some (sort_key (address_key d) (address_index d))"
    using assms(4,5) Sort_eq [OF assms(4), of "address_less d" "address_key d"]
    by (auto simp: SortAddresses_def less_by_keys(3) linorder_not_le)
  define e where "e = d\<lparr>name_index := sort_key (name_key d) (name_index d),
      type_name_index := sort_key (type_name_key d) (type_name_index d),
      address_index := sort_key (address_key d) (address_index d), types := sort_key ty_index (types d),
      omap_to_source := sort_key om_rva (omap_to_source d),
      omap_from_source := sort_key om_rva (omap_from_source d),
      source_lines := sort_key sl_rva (source_lines d)\<rparr>"
  obtain vs where vs: "declare_symbols e [0..<length (symbols d)] = Some (e\<lparr>symbols := vs\<rparr>)"
    "same_symbols vs (symbols e)"
    using declare_symbols_ok [of e "[0..<length (symbols d)]"] by (auto simp: e_def)
  have "sort_indices d = do { d \<leftarrow> declare_symbols e [0..<length (symbols d)];
      si \<leftarrow> Sort site_less (inline_sites d); Some (d\<lparr>inline_sites := si\<rparr>) }"
    using a Sort_eq [OF assms(2), of "name_less d" "name_key d"]
      Sort_eq [OF assms(3), of "type_name_less d" "type_name_key d"]
      Sort_eq [OF assms(6), of "\<lambda>a b. ty_index a < ty_index b" ty_index]
      Sort_eq [OF assms(8), of "\<lambda>a b. om_rva a < om_rva b" om_rva]
      Sort_eq [OF assms(9), of "\<lambda>a b. om_rva a < om_rva b" om_rva]
      Sort_eq [OF assms(7), of "\<lambda>a b. sl_rva a < sl_rva b" sl_rva] less_by_keys(1,2) [OF assms(1)]
    by (simp add: sort_indices_def e_def)
  then have "sort_indices d = Some (e\<lparr>symbols := vs, inline_sites := sort_key site_key (inline_sites d)\<rparr>)"
    using vs Sort_eq [OF assms(10), of site_less site_key] by (simp add: less_by_keys(4) e_def)
  with vs(2) show ?thesis by (intro exI [of _ vs]) (simp add: e_def)
qed

lemma length_entries_of: "length (entries_of d v) \<le> 4"
proof -
  have "length (names_to_index v) \<le> 4" by (simp add: names_to_index_def)
  then show ?thesis unfolding entries_of_def by (simp add: order_trans [OF length_filter_le])
qed

lemma length_all_entries: "length (concat (map (\<lambda>i. entries_of d (f i)) is)) \<le> 4 * length is"
  by (induction "is") (simp_all add: add_mono length_entries_of)

text \<open>The database before the sorts, when nothing was refused.\<close>

definition indexed :: "database \<Rightarrow> symbol list \<Rightarrow> database" where
  "indexed d vs = d\<lparr>symbols := vs,
     name_index := concat (map (\<lambda>i. entries_of d (symbols d ! i)) [0..<length (symbols d)]),
     type_name_index := map (type_entry d) (filter (\<lambda>t. ty_name t \<noteq> EmptyStringId) (types d)),
     address_index := filter (\<lambda>i. sy_rva (symbols d ! i) \<noteq> 0) [0..<length (symbols d)]\<rparr>"

lemma indexed_reached:
  assumes "db_ok d"
    and "index_symbols grows (d\<lparr>name_index := [], type_name_index := [], address_index := []\<rparr>)
      [0..<length (symbols d)] = (e, True)"
    and "index_types grows e (types e) = (f, True)"
  shows "\<exists>vs. f = indexed d vs \<and> same_symbols vs (symbols d)"
proof -
  define z where "z = d\<lparr>name_index := [], type_name_index := [], address_index := []\<rparr>"
  have ez: "entries_of z v = entries_of d v" for v by (rule entries_of_core) (simp_all add: z_def)
  have zs: "symbols z = symbols d" "name_index z = []" "address_index z = []" "type_name_index z = []"
    by (simp_all add: z_def)
  obtain vs where e: "e = z\<lparr>symbols := vs,
      name_index := concat (map (\<lambda>i. entries_of d (symbols d ! i)) [0..<length (symbols d)]),
      address_index := map (\<lambda>i. sy_id (symbols d ! i))
        (filter (\<lambda>i. sy_rva (symbols d ! i) \<noteq> 0) [0..<length (symbols d)])\<rparr>"
    "same_symbols vs (symbols d)"
    using index_symbols_True [OF assms(2) [folded z_def]] by (auto simp: zs ez)
  have ids: "map (\<lambda>i. sy_id (symbols d ! i)) (filter (\<lambda>i. sy_rva (symbols d ! i) \<noteq> 0) [0..<length (symbols d)]) =
      filter (\<lambda>i. sy_rva (symbols d ! i) \<noteq> 0) [0..<length (symbols d)]"
    using assms(1) by (intro map_idI) (auto simp: db_ok_def)
  have te: "type_entry e = type_entry d" by (intro ext) (simp add: type_entry_def db_String_def e(1) z_def)
  have "f = indexed d vs"
    using index_types_True [OF assms(3)] ids te by (simp add: e(1) indexed_def z_def)
  with e(2) show ?thesis by blast
qed

lemma indexed_fields [simp]:
  "strings (indexed d vs) = strings d" "types (indexed d vs) = types d" "symbols (indexed d vs) = vs"
  "source_lines (indexed d vs) = source_lines d" "omap_to_source (indexed d vs) = omap_to_source d"
  "omap_from_source (indexed d vs) = omap_from_source d" "inline_sites (indexed d vs) = inline_sites d"
  "image_base (indexed d vs) = image_base d" "image_size (indexed d vs) = image_size d"
  "identity (indexed d vs) = identity d"
  "set (name_index (indexed d vs)) = (\<Union>i < length (symbols d). set (entries_of d (symbols d ! i)))"
  "set (type_name_index (indexed d vs)) = type_entry d ` {t \<in> set (types d). ty_name t \<noteq> EmptyStringId}"
  "set (address_index (indexed d vs)) = {i. i < length (symbols d) \<and> sy_rva (symbols d ! i) \<noteq> 0}"
  by (auto simp: indexed_def)

definition sorted_db :: "database \<Rightarrow> symbol list \<Rightarrow> database" where
  "sorted_db d ws = d\<lparr>symbols := ws, name_index := sort_key (name_key d) (name_index d),
     type_name_index := sort_key (type_name_key d) (type_name_index d),
     address_index := sort_key (address_key d) (address_index d), types := sort_key ty_index (types d),
     omap_to_source := sort_key om_rva (omap_to_source d),
     omap_from_source := sort_key om_rva (omap_from_source d),
     source_lines := sort_key sl_rva (source_lines d), inline_sites := sort_key site_key (inline_sites d)\<rparr>"

lemma sorted_db_fields [simp]:
  "strings (sorted_db d ws) = strings d" "symbols (sorted_db d ws) = ws"
  "types (sorted_db d ws) = sort_key ty_index (types d)"
  "source_lines (sorted_db d ws) = sort_key sl_rva (source_lines d)"
  "omap_to_source (sorted_db d ws) = sort_key om_rva (omap_to_source d)"
  "omap_from_source (sorted_db d ws) = sort_key om_rva (omap_from_source d)"
  "name_index (sorted_db d ws) = sort_key (name_key d) (name_index d)"
  "type_name_index (sorted_db d ws) = sort_key (type_name_key d) (type_name_index d)"
  "address_index (sorted_db d ws) = sort_key (address_key d) (address_index d)"
  "inline_sites (sorted_db d ws) = sort_key site_key (inline_sites d)"
  "image_base (sorted_db d ws) = image_base d" "image_size (sorted_db d ws) = image_size d"
  "identity (sorted_db d ws) = identity d"
  by (simp_all add: sorted_db_def)

lemma sort_indexed:
  assumes "db_ok d" and "same_symbols vs (symbols d)"
  shows "\<exists>ws. sort_indices (indexed d vs) = Some (sorted_db (indexed d vs) ws) \<and> same_symbols ws vs"
proof -
  define n where "n = length (symbols d)"
  have n: "n < 2 ^ 32" using assms(1) by (simp add: db_ok_def n_def InvalidId_def)
  have len: "length vs = n" using same_symbols_nth [OF assms(2)] by (simp add: n_def)
  have 1: "length (name_index (indexed d vs)) < 2 ^ 64"
    using length_all_entries [of d "\<lambda>i. symbols d ! i" "[0..<n]"] n by (simp add: indexed_def n_def)
  have 2: "length (type_name_index (indexed d vs)) < 2 ^ 64"
    using assms(1) order_le_less_trans [OF length_filter_le, of "types d" "2 ^ 64" "\<lambda>t. ty_name t \<noteq> EmptyStringId"]
    by (simp add: indexed_def db_ok_def)
  have 3: "length (address_index (indexed d vs)) < 2 ^ 64"
    using length_filter_le [of "\<lambda>i. sy_rva (symbols d ! i) \<noteq> 0" "[0..<n]"] n by (simp add: indexed_def n_def)
  have 4: "set (address_index (indexed d vs)) \<subseteq> {..<length (symbols (indexed d vs))}"
    using len by (auto simp: n_def)
  show ?thesis
    using sort_indices_ok [of "indexed d vs", OF _ 1 2 3 4] assms(1) by (simp add: db_ok_def sorted_db_def)
qed

lemma Finalize_cases:
  assumes "db_ok d"
  shows "(\<exists>e. Finalize grows d = Some (e, Inl AllocationFailure)) \<or>
    (\<exists>vs ws. Finalize grows d = Some ((sorted_db (indexed d vs) ws)\<lparr>ready := True\<rparr>, Inr ()) \<and>
      same_symbols vs (symbols d) \<and> same_symbols ws vs)"
proof -
  obtain e b where e: "index_symbols grows (d\<lparr>name_index := [], type_name_index := [], address_index := []\<rparr>)
      [0..<length (symbols d)] = (e, b)" by fastforce
  obtain f c where f: "index_types grows e (types e) = (f, c)" by fastforce
  show ?thesis
  proof (cases "b \<and> c")
    case True
    then obtain vs where vs: "f = indexed d vs" "same_symbols vs (symbols d)"
      using indexed_reached [OF assms, of grows e f] e f by auto
    obtain ws where "sort_indices f = Some (sorted_db f ws)" "same_symbols ws vs"
      using sort_indexed [OF assms vs(2)] vs(1) by blast
    then show ?thesis using e f True vs by (auto simp: Finalize_def)
  next
    case False
    then show ?thesis using e f by (cases b) (auto simp: Finalize_def)
  qed
qed

lemma Finalize_final:
  assumes "db_ok d" and "Finalize grows d = Some (d', Inr u)"
  shows "db_final d' \<and> strings d' = strings d \<and> same_symbols (symbols d') (symbols d) \<and>
    mset (types d') = mset (types d) \<and> mset (source_lines d') = mset (source_lines d) \<and>
    image_base d' = image_base d \<and> image_size d' = image_size d \<and> identity d' = identity d"
proof -
  obtain vs ws where vs: "same_symbols vs (symbols d)" "same_symbols ws vs"
    and d': "d' = (sorted_db (indexed d vs) ws)\<lparr>ready := True\<rparr>"
    using Finalize_cases [OF assms(1), of grows] assms(2) by auto
  have wd: "same_symbols ws (symbols d)" using vs same_symbols_trans by blast
  have len: "length ws = length (symbols d)" "length vs = length (symbols d)"
    using same_symbols_nth [OF wd] same_symbols_nth [OF vs(1)] by simp_all
  have wc: "core (ws ! i) = core (symbols d ! i)" "core (vs ! i) = core (ws ! i)" if "i < length (symbols d)" for i
    using same_symbols_nth [OF wd] same_symbols_nth [OF vs(2)] that len by simp_all
  have names: "sorted (map ne_hash (name_index d'))"
    unfolding d' by (simp add: sorted_by [OF keys_refine(1)])
  have tnames: "sorted (map te_hash (type_name_index d'))"
    unfolding d' by (simp add: sorted_by [OF keys_refine(2)])
  have "entries_of d' (ws ! i) = entries_of d (symbols d ! i)" if "i < length (symbols d)" for i
    using wc(1) [OF that] by (rule entries_of_core) (simp add: d')
  then have nset: "set (name_index d') = (\<Union>i < length (symbols d'). set (entries_of d' (symbols d' ! i)))"
    by (simp add: d' len)
  have "type_entry d' = type_entry d" by (intro ext) (simp add: type_entry_def db_String_def d')
  then have tset: "set (type_name_index d') = type_entry d' ` {t \<in> set (types d'). ty_name t \<noteq> EmptyStringId}"
    by (simp add: d')
  have rva: "sy_rva (vs ! i) = sy_rva (ws ! i)" "sy_rva (symbols d ! i) = sy_rva (ws ! i)"
    "sy_id (ws ! i) = i" if "i < length (symbols d)" for i
    using core_fields [OF wc(1) [OF that]] core_fields [OF wc(2) [OF that]] assms(1) that
    by (simp_all add: db_ok_def)
  have aset: "set (address_index d') = {i. i < length (symbols d') \<and> sy_rva (symbols d' ! i) \<noteq> 0}"
    using rva(2) by (auto simp: d' len)
  have "sorted (map (\<lambda>i. sy_rva (vs ! i)) (address_index d'))"
    using sorted_by [OF keys_refine(3) [of "indexed d vs"]] unfolding d' by simp
  moreover have "map (\<lambda>i. sy_rva (vs ! i)) (address_index d') = map (\<lambda>i. sy_rva (symbols d' ! i)) (address_index d')"
    using rva(1) aset len by (intro map_cong) (auto simp: d')
  ultimately have addresses: "sorted (map (\<lambda>i. sy_rva (symbols d' ! i)) (address_index d'))" by simp
  have rest: "ready d'" "strings_ok (strings d')" "sorted (map ty_index (types d'))"
    "sorted (map om_rva (omap_to_source d'))" "sorted (map om_rva (omap_from_source d'))"
    "sorted (map sl_rva (source_lines d'))" "length (inline_sites d') < 2 ^ 64" "\<forall>i < length (symbols d'). sy_id (symbols d' ! i) = i"
    using assms(1) rva(3) by (simp_all add: d' len db_ok_def)
  have "db_final d'"
    unfolding db_final_def by (intro conjI rest names tnames nset tset addresses aset)
  then show ?thesis using wd by (simp add: d')
qed

section \<open>Searches in a finalized database\<close>

text \<open>The loop over the entries of one hash, on entries that are sorted and start at the hash.\<close>

lemma collect_finds:
  assumes "\<forall>n. grows ResultTable n" and "sorted (map ne_hash es)" and "\<forall>e \<in> set es. HashName v \<le> ne_hash e"
    and "distinct results"
  shows "\<exists>ids. collect grows d v es results = (ids, True) \<and> distinct ids \<and>
    set ids = set results \<union> {ne_symbol e | e. e \<in> set es \<and> NameMatches d e v}"
  using assms
proof (induction es arbitrary: results)
  case (Cons e es)
  show ?case
  proof (cases "ne_hash e = HashName v")
    case False
    then have "\<not> NameMatches d x v" if "x \<in> set (e # es)" for x
      using Cons.prems(2,3) that by (auto simp: NameMatches_def)
    with False Cons.prems(4) show ?thesis by auto
  next
    case True
    define rs where "rs = (if NameMatches d e v \<and> ne_symbol e \<notin> set results then results @ [ne_symbol e] else results)"
    have "collect grows d v (e # es) results = collect grows d v es rs"
      using True Cons.prems(1) by (simp add: rs_def)
    moreover have "distinct rs" using Cons.prems(4) by (simp add: rs_def)
    moreover have "set rs = set results \<union> (if NameMatches d e v then {ne_symbol e} else {})"
      by (auto simp: rs_def)
    ultimately show ?thesis using Cons.IH [of rs] Cons.prems by auto
  qed
qed simp

text \<open>The texts under which a symbol can be found.\<close>

definition symbol_names :: "database \<Rightarrow> symbol \<Rightarrow> name set" where
  "symbol_names d v = db_String d ` {sy_name v, sy_decorated v, sy_qualified v, sy_base v}"

lemma set_names_to_index: "set (names_to_index v) = {sy_name v, sy_decorated v, sy_qualified v, sy_base v}"
  by (auto simp: names_to_index_def)

lemma matching_entries:
  assumes "db_final d" and "v \<noteq> []" and "length (symbols d) < InvalidId"
  shows "{ne_symbol e | e. e \<in> set (name_index d) \<and> NameMatches d e v} =
    {i. i < length (symbols d) \<and> v \<in> symbol_names d (symbols d ! i)}"
proof -
  have e0: "db_String d EmptyStringId = []"
    using assms(1) by (auto simp: db_final_def strings_ok_def db_String_def EmptyStringId_def hd_conv_nth)
  have ids: "sy_id (symbols d ! i) = i" "i \<noteq> InvalidId" if "i < length (symbols d)" for i
    using assms(1,3) that by (auto simp: db_final_def)
  have entries: "e \<in> set (name_index d) \<longleftrightarrow> (\<exists>i n. i < length (symbols d) \<and>
      n \<in> set (names_to_index (symbols d ! i)) \<and> n \<noteq> EmptyStringId \<and> e = entry_of d i n)" for e
    using assms(1) ids by (auto simp: db_final_def entries_of_def)
  have matches: "NameMatches d (entry_of d i n) v \<longleftrightarrow> db_String d n = v" "ne_symbol (entry_of d i n) = i" for i n
    by (auto simp: NameMatches_def entry_of_def)
  have "(\<exists>e. i = ne_symbol e \<and> e \<in> set (name_index d) \<and> NameMatches d e v) \<longleftrightarrow>
      i < length (symbols d) \<and> (\<exists>n \<in> set (names_to_index (symbols d ! i)). db_String d n = v)" for i
  proof -
    have "(\<exists>e. i = ne_symbol e \<and> e \<in> set (name_index d) \<and> NameMatches d e v) \<longleftrightarrow>
        i < length (symbols d) \<and>
        (\<exists>n \<in> set (names_to_index (symbols d ! i)). n \<noteq> EmptyStringId \<and> db_String d n = v)"
      unfolding entries using matches by (metis (no_types, lifting))
    then show ?thesis using e0 assms(2) by auto
  qed
  then show ?thesis by (auto simp: symbol_names_def set_names_to_index)
qed

lemma FindExact_final:
  assumes "db_final d" and "length (symbols d) < InvalidId" and "\<forall>n. grows ResultTable n"
  shows "\<exists>ids. FindExact grows d v = Some (ids, ids \<noteq> []) \<and> distinct ids \<and>
    set ids = {i. i < length (symbols d) \<and> v \<noteq> [] \<and> v \<in> symbol_names d (symbols d ! i)}"
proof (cases "v = [] \<or> name_index d = []")
  case True
  then show ?thesis using matching_entries [OF assms(1) _ assms(2), of v] by (auto simp: FindExact_def)
next
  case False
  have s: "sorted (map ne_hash (name_index d))" using assms(1) by (simp add: db_final_def)
  obtain k where k: "halve (\<lambda>e. Some (ne_hash e < HashName v)) (name_index d) 0 (length (name_index d)) = Some k"
    "k \<le> length (name_index d)" "\<forall>e \<in> set (take k (name_index d)). ne_hash e < HashName v"
    "\<forall>e \<in> set (drop k (name_index d)). HashName v \<le> ne_hash e"
    by (rule halve_less [OF s])
  have sd: "sorted (map ne_hash (drop k (name_index d)))" 
    using sorted_wrt_drop [OF s, of k] by (simp only: drop_map)
  from collect_finds [of grows "drop k (name_index d)" v "[]" d, OF assms(3) sd k(4)]
  have "\<exists>ids. collect grows d v (drop k (name_index d)) [] = (ids, True) \<and> distinct ids \<and>
      set ids = {ne_symbol e | e. e \<in> set (drop k (name_index d)) \<and> NameMatches d e v}" by simp
  then obtain ids where ids: "collect grows d v (drop k (name_index d)) [] = (ids, True)" "distinct ids"
    "set ids = {ne_symbol e | e. e \<in> set (drop k (name_index d)) \<and> NameMatches d e v}" by blast
  have "e \<in> set (drop k (name_index d))" if "e \<in> set (name_index d)" "NameMatches d e v" for e
    using in_take_or_drop [OF that(1), of k] k(3) that(2) by (auto simp: NameMatches_def)
  then have "set ids = {ne_symbol e | e. e \<in> set (name_index d) \<and> NameMatches d e v}"
    unfolding ids(3) by (blast dest: in_set_dropD)
  then have "set ids = {i. i < length (symbols d) \<and> v \<in> symbol_names d (symbols d ! i)}"
    using matching_entries [OF assms(1) _ assms(2)] False by simp
  then show ?thesis using False k(1) ids(1,2) by (simp add: FindExact_def)
qed

lemma symbol_names_core:
  "core v = core w \<Longrightarrow> strings d = strings e \<Longrightarrow> symbol_names d v = symbol_names e w"
  using core_fields [of v w] by (simp add: symbol_names_def db_String_def)

text \<open>Types.\<close>

lemma TypeByIndex_final:
  assumes "db_final d" and "i \<noteq> InvalidId"
  shows "\<exists>r. TypeByIndex d i = Some r \<and> (case r of
      None \<Rightarrow> i \<notin> ty_index ` set (types d)
    | Some k \<Rightarrow> k < length (types d) \<and> ty_index (types d ! k) = i)"
proof (cases "types d = []")
  case False
  have s: "sorted (map ty_index (types d))" and r: "ready d" using assms(1) by (simp_all add: db_final_def)
  obtain k where k: "FindTypeStorageIndex d i = Some k" "k \<le> length (types d)"
    "\<forall>t \<in> set (take k (types d)). ty_index t < i" "\<forall>t \<in> set (drop k (types d)). i \<le> ty_index t"
    using halve_less [OF s, of i] by (auto simp: FindTypeStorageIndex_def)
  show ?thesis
  proof (cases "k < length (types d) \<and> ty_index (types d ! k) = i")
    case True
    then show ?thesis using False assms(2) r k(1) by (simp add: TypeByIndex_def)
  next
    case no: False
    have "ty_index t \<noteq> i" if t: "t \<in> set (types d)" for t
    proof
      assume i: "ty_index t = i"
      have "t \<in> set (drop k (types d))"
        using in_take_or_drop [OF t, of k] k(3) i by auto
      then obtain j where j: "j < length (drop k (types d))" "drop k (types d) ! j = t" by (auto simp: in_set_conv_nth)
      then have "ty_index (types d ! k) \<le> i" using sorted_nth_mono [OF s, of k "k + j"] i by simp
      moreover have "i \<le> ty_index (types d ! k)" using k(4) j by (auto simp: drop_nth_Cons)
      ultimately show False using no j by simp
    qed
    then show ?thesis using False no assms(2) r k(1) by (auto simp: TypeByIndex_def)
  qed
qed (simp add: TypeByIndex_def)

text \<open>Source lines: the last one that begins at the address or before it decides.\<close>

lemma SourceForRva_final:
  assumes "db_final d"
  shows "\<exists>l. SourceForRva d rva = Some l \<and>
    (l \<noteq> no_location \<longrightarrow> (\<exists>x \<in> set (source_lines d). sl_location x = l \<and> sl_rva x \<le> rva \<and>
      (sl_end x = 0 \<or> rva < sl_end x) \<and> (\<forall>y \<in> set (source_lines d). sl_rva y \<le> rva \<longrightarrow> sl_rva y \<le> sl_rva x)))"
proof (cases "source_lines d = []")
  case False
  have s: "sorted (map sl_rva (source_lines d))" using assms by (simp add: db_final_def)
  obtain k where k: "line_before d rva = Some k" "k \<le> length (source_lines d)"
    "\<forall>l \<in> set (take k (source_lines d)). sl_rva l \<le> rva" "\<forall>l \<in> set (drop k (source_lines d)). rva < sl_rva l"
    using halve_le [OF s, of rva] by (auto simp: line_before_def)
  show ?thesis
  proof (cases "k = 0")
    case True
    then show ?thesis using False k(1) by (simp add: SourceForRva_def)
  next
    case k0: False
    define x where "x = source_lines d ! (k - Suc 0)"
    have "x \<in> set (take k (source_lines d))"
      using k(2) k0 unfolding in_set_conv_nth by (intro exI [of _ "k - 1"]) (simp add: x_def)
    then have x: "x \<in> set (source_lines d)" "sl_rva x \<le> rva" using k(3) by (auto dest: in_set_takeD)
    have "sl_rva y \<le> sl_rva x" if "y \<in> set (source_lines d)" "sl_rva y \<le> rva" for y
    proof -
      have "y \<in> set (take k (source_lines d))"
        using in_take_or_drop [OF that(1), of k] k(4) that(2) by auto
      then obtain j where "j < k" "source_lines d ! j = y" by (auto simp: in_set_conv_nth)
      then show ?thesis using sorted_nth_mono [OF s, of j "k - 1"] k(2) by (auto simp: x_def)
    qed
    then show ?thesis using False k(1) k0 x by (auto simp: SourceForRva_def Let_def x_def [symmetric])
  qed
qed (simp add: SourceForRva_def)

text \<open>Addresses. \<open>function_at d rva i\<close>: symbol \<open>i\<close> is a function that contains the address, or begins there
  when its size is not known.\<close>

definition function_at :: "database \<Rightarrow> nat \<Rightarrow> nat \<Rightarrow> bool" where
  "function_at d rva i \<longleftrightarrow> i < length (symbols d) \<and> sy_rva (symbols d ! i) \<noteq> 0 \<and>
     IsFunctionKind (sy_kind (symbols d ! i)) \<and> sy_rva (symbols d ! i) \<le> rva \<and>
     (if sy_size (symbols d ! i) = 0 then rva = sy_rva (symbols d ! i)
      else rva - sy_rva (symbols d ! i) < sy_size (symbols d ! i))"

lemma addresses_final:
  assumes "db_final d"
  obtains k where "addresses_up_to d rva = Some k" "k \<le> length (address_index d)"
    "\<forall>i \<in> set (take k (address_index d)). sy_rva (symbols d ! i) \<le> rva"
    "\<forall>i \<in> set (drop k (address_index d)). rva < sy_rva (symbols d ! i)"
proof -
  have s: "sorted (map (\<lambda>i. sy_rva (symbols d ! i)) (address_index d))" using assms by (simp add: db_final_def)
  have "\<exists>k. halve (\<lambda>i. do { r \<leftarrow> rva_of d i; Some (r \<le> rva) }) (address_index d) 0 (length (address_index d)) = Some k \<and>
      k \<le> length (address_index d) \<and> (\<forall>i \<in> set (take k (address_index d)). sy_rva (symbols d ! i) \<le> rva) \<and>
      (\<forall>i \<in> set (drop k (address_index d)). \<not> sy_rva (symbols d ! i) \<le> rva)"
    by (rule halve_sorted [OF s, where P = "\<lambda>r. r \<le> rva"])
      (use assms in \<open>auto simp: db_final_def rva_of_def\<close>)
  then show ?thesis using that by (auto simp: addresses_up_to_def linorder_not_le)
qed

lemma address_order:
  assumes "db_final d" and "i < j" and "j < length (address_index d)"
  shows "sy_rva (symbols d ! (address_index d ! i)) \<le> sy_rva (symbols d ! (address_index d ! j))"
proof -
  have s: "sorted (map (\<lambda>i. sy_rva (symbols d ! i)) (address_index d))" using assms(1) by (simp add: db_final_def)
  show ?thesis using sorted_nth_mono [OF s, of i j] assms(2,3) by simp
qed

lemma in_address_index:
  "db_final d \<Longrightarrow> i \<in> set (address_index d) \<longleftrightarrow> i < length (symbols d) \<and> sy_rva (symbols d ! i) \<noteq> 0"
  by (simp add: db_final_def)

lemma SymbolAtOrBeforeRva_final:
  assumes "db_final d"
  shows "\<exists>r. SymbolAtOrBeforeRva d rva = Some r \<and> (case r of
      None \<Rightarrow> \<forall>i < length (symbols d). sy_rva (symbols d ! i) \<noteq> 0 \<longrightarrow> rva < sy_rva (symbols d ! i)
    | Some i \<Rightarrow> i < length (symbols d) \<and> sy_rva (symbols d ! i) \<noteq> 0 \<and> sy_rva (symbols d ! i) \<le> rva \<and>
        (\<forall>j < length (symbols d). sy_rva (symbols d ! j) \<le> rva \<longrightarrow> sy_rva (symbols d ! j) \<le> sy_rva (symbols d ! i)))"
proof (cases "address_index d = []")
  case True
  then show ?thesis using in_address_index [OF assms] by (auto simp: SymbolAtOrBeforeRva_def)
next
  case False
  obtain k where k: "addresses_up_to d rva = Some k" "k \<le> length (address_index d)"
    "\<forall>i \<in> set (take k (address_index d)). sy_rva (symbols d ! i) \<le> rva"
    "\<forall>i \<in> set (drop k (address_index d)). rva < sy_rva (symbols d ! i)"
    by (rule addresses_final [OF assms])
  show ?thesis
  proof (cases k)
    case 0
    then show ?thesis using False k in_address_index [OF assms] by (auto simp: SymbolAtOrBeforeRva_def)
  next
    case (Suc m)
    define i where "i = address_index d ! m"
    have m: "m < length (address_index d)" using k(2) Suc by simp
    then have "i \<in> set (take k (address_index d))" using Suc unfolding i_def in_set_conv_nth by (intro exI [of _ m]) simp
    then have i: "i < length (symbols d)" "sy_rva (symbols d ! i) \<noteq> 0" "sy_rva (symbols d ! i) \<le> rva"
      using k(3) in_address_index [OF assms, of i] by (auto dest: in_set_takeD)
    have "sy_rva (symbols d ! j) \<le> sy_rva (symbols d ! i)" if j: "j < length (symbols d)" "sy_rva (symbols d ! j) \<le> rva" for j
    proof (cases "sy_rva (symbols d ! j) = 0")
      case nz: False
      then have "j \<in> set (address_index d)" using in_address_index [OF assms] j by simp
      then have "j \<in> set (take k (address_index d))"
        using in_take_or_drop [of j "address_index d" k] k(4) j(2) by auto
      then obtain n where n: "n \<le> m" "address_index d ! n = j" using Suc by (auto simp: in_set_conv_nth less_Suc_eq_le)
      then show ?thesis using address_order [OF assms, of n m] m by (cases "n = m") (auto simp: i_def)
    qed simp
    then show ?thesis
      using False k(1) Suc i by (simp add: SymbolAtOrBeforeRva_def rva_of_def i_def [symmetric])
  qed
qed

lemma scan_back_spec:
  assumes "db_final d" and "k \<le> length (address_index d)"
    and "\<forall>i \<in> set (take k (address_index d)). sy_rva (symbols d ! i) \<le> rva"
  shows "\<exists>r. scan_back d rva k = Some r \<and> (case r of
      None \<Rightarrow> \<forall>j \<in> set (take k (address_index d)). function_at d rva j \<longrightarrow> 0x100000 < rva - sy_rva (symbols d ! j)
    | Some i \<Rightarrow> function_at d rva i \<and> (\<forall>j \<in> set (take k (address_index d)). function_at d rva j \<longrightarrow>
        sy_rva (symbols d ! j) \<le> sy_rva (symbols d ! i)))"
  using assms(2,3)
proof (induction k)
  case (Suc k)
  define i where "i = address_index d ! k"
  have k: "k < length (address_index d)" using Suc.prems(1) by simp
  then have tk: "take (Suc k) (address_index d) = take k (address_index d) @ [i]" by (simp add: i_def take_Suc_nth)
  have "i \<in> set (address_index d)" using k by (simp add: i_def)
  then have i: "i < length (symbols d)" "sy_rva (symbols d ! i) \<noteq> 0" using in_address_index [OF assms(1)] by simp_all
  have le: "sy_rva (symbols d ! i) \<le> rva" using Suc.prems(2) tk by simp
  have before: "sy_rva (symbols d ! j) \<le> sy_rva (symbols d ! i)" if "j \<in> set (take k (address_index d))" for j
    using that address_order [OF assms(1) _ k] by (auto simp: in_set_conv_nth i_def)
  obtain r where r: "scan_back d rva k = Some r" "case r of
      None \<Rightarrow> \<forall>j \<in> set (take k (address_index d)). function_at d rva j \<longrightarrow> 0x100000 < rva - sy_rva (symbols d ! j)
    | Some i \<Rightarrow> function_at d rva i \<and> (\<forall>j \<in> set (take k (address_index d)). function_at d rva j \<longrightarrow>
        sy_rva (symbols d ! j) \<le> sy_rva (symbols d ! i))"
    using Suc.IH Suc.prems tk by auto
  have step: "scan_back d rva (Suc k) =
      (if function_at d rva i then Some (Some i)
       else if IsFunctionKind (sy_kind (symbols d ! i)) \<and> sy_size (symbols d ! i) \<noteq> 0 \<and>
         rva - sy_rva (symbols d ! i) > 0x100000 then Some None
       else scan_back d rva k)"
    using i le by (auto simp: Let_def i_def [symmetric] rva_of_def function_at_def)
  show ?case
  proof (cases "function_at d rva i")
    case True
    then show ?thesis using step before tk by auto
  next
    case no: False
    show ?thesis
    proof (cases "IsFunctionKind (sy_kind (symbols d ! i)) \<and> sy_size (symbols d ! i) \<noteq> 0 \<and>
        rva - sy_rva (symbols d ! i) > 0x100000")
      case True
      have "0x100000 < rva - sy_rva (symbols d ! j)" if "j \<in> set (take k (address_index d))" for j
        using before [OF that] True by linarith
      then show ?thesis using step no True tk by auto
    next
      case False
      have "scan_back d rva (Suc k) = Some r" unfolding step by (simp only: no False r(1) if_False)
      then show ?thesis using r(2) no tk by (cases r) auto
    qed
  qed
qed simp

lemma FunctionContainingRva_final:
  assumes "db_final d"
  shows "\<exists>r. FunctionContainingRva d rva = Some r \<and> (case r of
      None \<Rightarrow> \<forall>j. function_at d rva j \<longrightarrow> 0x100000 < rva - sy_rva (symbols d ! j)
    | Some i \<Rightarrow> function_at d rva i \<and> (\<forall>j. function_at d rva j \<longrightarrow> sy_rva (symbols d ! j) \<le> sy_rva (symbols d ! i)))"
proof (cases "address_index d = []")
  case True
  then have "\<not> function_at d rva j" for j using in_address_index [OF assms, of j] by (auto simp: function_at_def)
  then show ?thesis using True by (simp add: FunctionContainingRva_def)
next
  case False
  obtain k where k: "addresses_up_to d rva = Some k" "k \<le> length (address_index d)"
    "\<forall>i \<in> set (take k (address_index d)). sy_rva (symbols d ! i) \<le> rva"
    "\<forall>i \<in> set (drop k (address_index d)). rva < sy_rva (symbols d ! i)"
    by (rule addresses_final [OF assms])
  have all: "j \<in> set (take k (address_index d))" if "function_at d rva j" for j
    using in_take_or_drop [of j "address_index d" k] k(4) that in_address_index [OF assms, of j]
    by (auto simp: function_at_def)
  obtain r where r: "scan_back d rva k = Some r" "case r of
      None \<Rightarrow> \<forall>j \<in> set (take k (address_index d)). function_at d rva j \<longrightarrow> 0x100000 < rva - sy_rva (symbols d ! j)
    | Some i \<Rightarrow> function_at d rva i \<and> (\<forall>j \<in> set (take k (address_index d)). function_at d rva j \<longrightarrow>
        sy_rva (symbols d ! j) \<le> sy_rva (symbols d ! i))"
    using scan_back_spec [OF assms k(2,3)] by blast
  then show ?thesis using False k(1) all by (auto simp: FunctionContainingRva_def split: option.splits)
qed

lemma InlineStack_total:
  assumes "length (inline_sites d) < 2 ^ 64"
  shows "\<exists>out. InlineStack grows d rva = Some out"
proof -
  have "length fs \<le> length frames + length ss" if "collect_sites grows rva ss frames = Some fs" for ss frames fs
    using that by (induction ss arbitrary: frames) (auto split: if_splits, fastforce+)
  then have "length fs < 2 ^ 64" if "collect_sites grows rva (inline_sites d) [] = Some fs" for fs
    using that assms by fastforce
  moreover have "Sort (\<lambda>a b. site_span a > site_span b) fs = Some (sort_key (\<lambda>s. - int (site_span s)) fs)"
    if "length fs < 2 ^ 64" for fs
    using that by (rule Sort_eq) auto
  ultimately show ?thesis by (cases "collect_sites grows rva (inline_sites d) []") (auto simp: InlineStack_def)
qed

section \<open>Databases as the reader builds them\<close>

text \<open>The states a reader reaches from a new database by its operations, while the texts it interns are stored
  and the tables stay within the bounds that the steps name: the operations check neither (\<open>id32\<close> is the
  identifier of a place, which wraps).\<close>

inductive built :: "growth \<Rightarrow> database \<Rightarrow> bool" for grows where
  new: "grows StringTable 1 \<Longrightarrow> built grows (db_new grows)"
| Intern: "built grows d \<Longrightarrow> length (strings d) < 2 ^ 32 - 1 \<Longrightarrow> length v < size_max \<Longrightarrow>
    grows (TextOf (length v)) 1 \<Longrightarrow> built grows (fst (Intern grows d v))"
| AddSymbol: "built grows d \<Longrightarrow> Suc (length (symbols d)) < InvalidId \<Longrightarrow> built grows (fst (AddSymbol grows d s))"
| AddModule: "built grows d \<Longrightarrow> built grows (fst (AddModule grows d m))"
| AddType: "built grows d \<Longrightarrow> length (types d) < 2 ^ 64 - 1 \<Longrightarrow> built grows (fst (AddType grows d t))"
| AddField: "built grows d \<Longrightarrow> built grows (fst (AddField grows d f))"
| AddParameterType: "built grows d \<Longrightarrow> built grows (fst (AddParameterType grows d i))"
| AddSectionMap: "built grows d \<Longrightarrow> built grows (fst (AddSectionMap grows d e))"
| AddOmapToSource: "built grows d \<Longrightarrow> length (omap_to_source d) < 2 ^ 64 - 1 \<Longrightarrow>
    built grows (fst (AddOmapToSource grows d e'))"
| AddOmapFromSource: "built grows d \<Longrightarrow> length (omap_from_source d) < 2 ^ 64 - 1 \<Longrightarrow>
    built grows (fst (AddOmapFromSource grows d e'))"
| AddSourceLine: "built grows d \<Longrightarrow> length (source_lines d) < 2 ^ 64 - 1 \<Longrightarrow> built grows (fst (AddSourceLine grows d l))"
| AddInlineSite: "built grows d \<Longrightarrow> length (inline_sites d) < 2 ^ 64 - 1 \<Longrightarrow> built grows (fst (AddInlineSite grows d x))"
| AddLocal: "built grows d \<Longrightarrow> built grows (fst (AddLocal grows d y))"
| FlagSymbol: "built grows d \<Longrightarrow> i < length (symbols d) \<Longrightarrow>
    built grows (d\<lparr>symbols := (symbols d)[i := (symbols d ! i)\<lparr>sy_flags := w\<rparr>]\<rparr>)"
| UpdateSites: "built grows d \<Longrightarrow> map is_id ss = map is_id (inline_sites d) \<Longrightarrow> built grows (d\<lparr>inline_sites := ss\<rparr>)"
| SetImage: "built grows d \<Longrightarrow> built grows (SetImage d base n)"
| SetIdentity: "built grows d \<Longrightarrow> built grows (SetIdentity d k)"

lemma Intern_stored:
  assumes "strings_ok (strings d)" and "v \<in> set (strings d) \<or> grows (TextOf (length v)) 1"
    and "length (strings d) < 2 ^ 32 - 1" and "length v < size_max"
  shows "Intern grows d v = (d, Inl AllocationFailure) \<and> v \<notin> set (strings d) \<and>
      \<not> grows StringTable (length (strings d) + 1) \<or>
    (\<exists>i. Intern grows d v = (d, Inr i) \<and> i < length (strings d) \<and> strings d ! i = v) \<or>
    Intern grows d v = (d\<lparr>strings := strings d @ [v]\<rparr>, Inr (length (strings d))) \<and> v \<notin> set (strings d)"
proof (cases "v = []")
  case True
  then show ?thesis using assms(1) by (auto simp: Intern_def EmptyStringId_def strings_ok_def hd_conv_nth)
next
  case False
  show ?thesis
  proof (cases "find (\<lambda>i. strings d ! i = v) [1..<length (strings d)]")
    case None
    then show ?thesis using find_string(2) [OF assms(1) False] False assms(2,3)
      by (auto simp: Intern_def id32_def stored_text_def)
  next
    case (Some i)
    then have "i < length (strings d)" "strings d ! i = v" using find_string(1) [OF assms(1) False, of i] by blast+
    then show ?thesis using Some False assms(3) by (auto simp: Intern_def id32_def)
  qed
qed

lemma strings_ok_snoc:
  "strings_ok ss \<Longrightarrow> v \<notin> set ss \<Longrightarrow> length ss < 2 ^ 32 - 1 \<Longrightarrow> length v < size_max \<Longrightarrow> strings_ok (ss @ [v])"
  by (auto simp: strings_ok_def hd_append)

lemma built_ok: "built grows d \<Longrightarrow> db_ok d"
proof (induction rule: built.induct)
  case new
  then show ?case
    by (auto simp: db_new_def db_empty_def db_ok_def strings_ok_def size_max_def InvalidId_def)
next
  case (Intern d v)
  then have "strings_ok (strings d)" by (simp add: db_ok_def)
  from Intern_stored [where grows = grows and d = d and v = v, OF this disjI2 [OF Intern.hyps(4)] Intern.hyps(2,3)] this Intern show ?case
    by (auto simp: db_ok_def strings_ok_snoc)
next
  case (AddSymbol d s)
  then show ?case by (auto simp: db_ok_def AddSymbol_def id32_def InvalidId_def nth_append less_Suc_eq Let_def)
next
  case (UpdateSites d ss)
  moreover have "length ss = length (inline_sites d)" using UpdateSites.hyps(2) map_eq_imp_length_eq by blast
  ultimately show ?case by (simp add: db_ok_def)
qed (auto simp: db_ok_def AddModule_def AddType_def AddField_def AddParameterType_def AddSectionMap_def
    AddOmapToSource_def AddOmapFromSource_def AddSourceLine_def AddInlineSite_def AddLocal_def SetImage_def
    SetIdentity_def Let_def nth_list_update)

text \<open>Modules and inline sites carry their place as identifier, too.\<close>

lemma map_snoc_ids: "map f xs = map id32 [0..<length xs] \<Longrightarrow> f x = id32 (length xs) \<Longrightarrow>
    map f (xs @ [x]) = map id32 [0..<length (xs @ [x])]"
  by simp

lemma built_ids: "built grows d \<Longrightarrow>
    map mod_id (modules d) = map id32 [0..<length (modules d)] \<and>
    map is_id (inline_sites d) = map id32 [0..<length (inline_sites d)]"
proof (induction rule: built.induct)
  case (UpdateSites d ss)
  moreover have "length ss = length (inline_sites d)" using UpdateSites.hyps(2) map_eq_imp_length_eq by blast
  ultimately show ?case by simp
qed (auto simp: db_new_def db_empty_def Intern_def AddSymbol_def AddModule_def AddType_def AddField_def
    AddParameterType_def AddSectionMap_def AddOmapToSource_def AddOmapFromSource_def AddSourceLine_def
    AddInlineSite_def AddLocal_def SetImage_def SetIdentity_def Let_def split: option.splits)

lemma built_not_ready: "built grows d \<Longrightarrow> \<not> ready d"
  by (induction rule: built.induct)
    (auto simp: db_new_def db_empty_def Intern_def AddSymbol_def AddModule_def AddType_def AddField_def
      AddParameterType_def AddSectionMap_def AddOmapToSource_def AddOmapFromSource_def AddSourceLine_def
      AddInlineSite_def AddLocal_def SetImage_def SetIdentity_def Let_def split: option.splits)

text \<open>With an allocator that never refuses, \<open>Finalize\<close> succeeds.\<close>

lemma index_symbols_granted: "snd (index_symbols (\<lambda>t n. True) d is)"
proof (induction "is" arbitrary: d)
  case (Cons i "is")
  have "snd (AddNames (\<lambda>t n. True) e j ns)" for e j ns
    by (induction ns arbitrary: e) (auto simp: AddNameIndex_def)
  then have "snd (index_symbol (\<lambda>t n. True) d i)"
    by (auto simp: index_symbol_def Let_def split: prod.splits bool.splits) (metis snd_conv)+
  then show ?case using Cons by (auto split: prod.splits bool.splits)
qed simp

lemma index_types_granted: "snd (index_types (\<lambda>t n. True) d ts)"
  by (induction ts arbitrary: d) auto

lemma Finalize_granted:
  assumes "db_ok d"
  shows "\<exists>d'. Finalize (\<lambda>t n. True) d = Some (d', Inr ())"
proof -
  obtain e where e: "index_symbols (\<lambda>t n. True) (d\<lparr>name_index := [], type_name_index := [], address_index := []\<rparr>)
      [0..<length (symbols d)] = (e, True)"
    using index_symbols_granted by (metis prod.collapse)
  obtain f where f: "index_types (\<lambda>t n. True) e (types e) = (f, True)"
    using index_types_granted by (metis prod.collapse)
  then show ?thesis
    using Finalize_cases [OF assms, of "\<lambda>t n. True"] e by (auto simp: Finalize_def Option.bind_eq_Some_conv)
qed

lemma function_at_core:
  "same_symbols (symbols d) (symbols e) \<Longrightarrow> function_at d rva i = function_at e rva i"
  using same_symbols_nth [of "symbols d" "symbols e"] core_fields [of "symbols d ! i" "symbols e ! i"]
  by (auto simp: function_at_def)

section \<open>Properties of the database\<close>

text \<open>C18: every database that the operations build from a new one, with fewer symbols and strings than there are
  identifiers and with memory for the characters of each text, is well formed: its strings are distinct with
  the empty one first; each symbol, module and inline site carries as identifier its own place in its table
  (modules and inline sites the low 32 bits of it), so that looking an identifier up gives the entry that
  carries it; the identifiers for \<open>no string\<close> and \<open>no symbol\<close> name nothing; and it does not claim to be ready
  for the queries that rely on the indices.\<close>

theorem built_well_formed:
  assumes "built grows d"
  shows "distinct (strings d) \<and> db_String d EmptyStringId = [] \<and>
    (\<forall>i < length (symbols d). SymbolById d i = Some i \<and> sy_id (symbols d ! i) = i) \<and>
    SymbolById d InvalidId = None \<and>
    (\<forall>i < length (modules d). mod_id (modules d ! i) = id32 i) \<and>
    (\<forall>i m. ModuleById d i = Some m \<longrightarrow> mod_id m = id32 i) \<and>
    (\<forall>i < length (inline_sites d). is_id (inline_sites d ! i) = id32 i) \<and> \<not> ready d"
proof -
  have "map mod_id (modules d) ! i = id32 i" if "i < length (modules d)" for i
    unfolding conjunct1 [OF built_ids [OF assms]] using that by simp
  then have mods: "\<forall>i < length (modules d). mod_id (modules d ! i) = id32 i" by simp
  have "map is_id (inline_sites d) ! i = id32 i" if "i < length (inline_sites d)" for i
    unfolding conjunct2 [OF built_ids [OF assms]] using that by simp
  then have sites: "\<forall>i < length (inline_sites d). is_id (inline_sites d ! i) = id32 i" by simp
  show ?thesis
    using built_ok [OF assms] built_not_ready [OF assms] mods sites
    by (auto simp: db_ok_def strings_ok_def db_String_def EmptyStringId_def SymbolById_def ModuleById_def
        hd_conv_nth)
qed

text \<open>C15: \<open>Intern\<close> on a database so built, with fewer than 2^32 - 1 strings. It fails only with
  \<open>AllocationFailure\<close>, for a new text whose entry in the table the allocator refuses, and then changes nothing.
  Otherwise every identifier given before names the text it named. A text that is already there gets its
  identifier and nothing changes; a new text whose characters the allocator has memory for gets an identifier
  under which \<open>String\<close> returns it; in both cases no other identifier has the text. A new text whose characters
  the allocator refuses is lost: the identifier is a new one and names an empty text.\<close>

theorem Intern_identifies:
  assumes "built grows d" and "length (strings d) < 2 ^ 32 - 1" and "length v < size_max"
  shows "case Intern grows d v of
      (d', Inl e) \<Rightarrow> e = AllocationFailure \<and> d' = d \<and> v \<notin> set (strings d) \<and>
        \<not> grows StringTable (length (strings d) + 1)
    | (d', Inr i) \<Rightarrow> (\<forall>j < length (strings d). db_String d' j = db_String d j) \<and>
        (v \<in> set (strings d) \<longrightarrow> d' = d) \<and>
        (if v \<in> set (strings d) \<or> grows (TextOf (length v)) 1
         then db_String d' i = v \<and> (\<forall>j < length (strings d'). db_String d' j = v \<longrightarrow> j = i)
         else i = length (strings d) \<and> db_String d' i = [])"
proof -
  have ok: "strings_ok (strings d)" using built_ok [OF assms(1)] by (simp add: db_ok_def)
  then have dist: "distinct (strings d)" by (simp add: strings_ok_def)
  show ?thesis
  proof (cases "v \<in> set (strings d) \<or> grows (TextOf (length v)) 1")
    case True
    from Intern_stored [where grows = grows and d = d and v = v, OF ok True assms(2,3)] dist True show ?thesis
      by (auto simp: db_String_def nth_append nth_eq_iff_index_eq in_set_conv_nth split: if_splits)
  next
    case False
    then have none: "find (\<lambda>i. strings d ! i = v) [1..<length (strings d)] = None"
      by (auto simp: find_None_iff)
    have "v \<noteq> []" using False ok hd_in_set [of "strings d"] by (auto simp: strings_ok_def)
    with none False assms(2) show ?thesis
      by (auto simp: Intern_def stored_text_def id32_def db_String_def nth_append)
  qed
qed

text \<open>When the allocator refuses the characters of a new text but not the entry for it, \<open>Intern\<close> reports
  success with an identifier whose string is empty: the constructor of the string ignores the failure.\<close>

theorem Intern_loses_text:
  assumes "v \<noteq> []" and "v \<notin> set (strings d)" and "length (strings d) < 2 ^ 32"
    and "grows StringTable (length (strings d) + 1)" and "\<not> grows (TextOf (length v)) 1"
  shows "\<exists>d'. Intern grows d v = (d', Inr (length (strings d))) \<and> db_String d' (length (strings d)) = []"
proof -
  have "find (\<lambda>i. strings d ! i = v) [1..<length (strings d)] = None"
    using assms(2) by (auto simp: find_None_iff)
  then show ?thesis using assms by (simp add: Intern_def stored_text_def id32_def db_String_def)
qed

theorem Intern_loses_text_witness:
  "\<exists>d'. Intern (\<lambda>t n. t = StringTable) (db_empty\<lparr>strings := [[]]\<rparr>) [97] = (d', Inr 1) \<and> db_String d' 1 = []"
  using Intern_loses_text [of "[97]" "db_empty\<lparr>strings := [[]]\<rparr>" "\<lambda>t n. t = StringTable"] by simp

text \<open>C14: on every database a reader can build, \<open>Finalize\<close> returns. Unless the allocator refuses an index, it
  leaves the sorted indices of \<open>db_final\<close> over the same strings and the same symbols, up to their
  semantic identifier, flags and place of declaration, and only reorders the types and source lines.\<close>

theorem Finalize_indexes:
  assumes "built grows d"
  shows "\<exists>d' r. Finalize grows d = Some (d', r) \<and> (case r of
      Inl e \<Rightarrow> e = AllocationFailure
    | Inr u \<Rightarrow> db_final d' \<and> strings d' = strings d \<and> same_symbols (symbols d') (symbols d) \<and>
        mset (types d') = mset (types d) \<and> mset (source_lines d') = mset (source_lines d))"
proof -
  note ok = built_ok [OF assms]
  from Finalize_cases [OF ok, of grows] show ?thesis
  proof
    assume "\<exists>e. Finalize grows d = Some (e, Inl AllocationFailure)"
    then show ?thesis by auto
  next
    assume "\<exists>vs ws. Finalize grows d = Some ((sorted_db (indexed d vs) ws)\<lparr>ready := True\<rparr>, Inr ()) \<and>
      same_symbols vs (symbols d) \<and> same_symbols ws vs"
    then obtain d' where "Finalize grows d = Some (d', Inr ())" by blast
    with Finalize_final [OF ok this] show ?thesis by auto
  qed
qed

text \<open>C12: after \<open>Finalize\<close>, \<open>FindExact\<close> gives each symbol that has the text among its four names once, and no
  other, whatever collisions of the hash there are.\<close>

theorem FindExact_finds:
  assumes "built grows d" and "Finalize grows d = Some (d', Inr ())" and "\<forall>n. grows ResultTable n"
  shows "\<exists>ids. FindExact grows d' v = Some (ids, ids \<noteq> []) \<and> distinct ids \<and>
    set ids = {i. i < length (symbols d) \<and> v \<noteq> [] \<and> v \<in> symbol_names d (symbols d ! i)}"
proof -
  note ok = built_ok [OF assms(1)]
  note f = Finalize_final [OF ok assms(2)]
  then have len: "length (symbols d') = length (symbols d)" "length (symbols d') < InvalidId"
    using same_symbols_nth ok by (auto simp: db_ok_def)
  have "symbol_names d' (symbols d' ! i) = symbol_names d (symbols d ! i)" if "i < length (symbols d)" for i
    using f that same_symbols_nth by (intro symbol_names_core) auto
  then have "{i. i < length (symbols d') \<and> v \<noteq> [] \<and> v \<in> symbol_names d' (symbols d' ! i)} =
      {i. i < length (symbols d) \<and> v \<noteq> [] \<and> v \<in> symbol_names d (symbols d ! i)}" using len by auto
  with FindExact_final [where grows = grows and v = v, OF conjunct1 [OF f] len(2) assms(3)] show ?thesis by simp
qed

text \<open>After \<open>Finalize\<close>, the binary search of \<open>TypeByIndex\<close> finds a type exactly when the walk over the
  unfinalized types finds one, and what it finds has the index.\<close>

theorem TypeByIndex_agrees:
  assumes "built grows d" and "Finalize grows d = Some (d', Inr ())" and "\<not> ready d" and "i \<noteq> InvalidId"
  shows "case (TypeByIndex d i, TypeByIndex d' i) of
      (Some None, Some None) \<Rightarrow> True
    | (Some (Some j), Some (Some k)) \<Rightarrow> ty_index (types d ! j) = i \<and> ty_index (types d' ! k) = i \<and>
        k < length (types d')
    | _ \<Rightarrow> False"
proof -
  note f = Finalize_final [OF built_ok [OF assms(1)] assms(2)]
  then have same: "set (types d') = set (types d)" by (metis set_mset_mset)
  have linear: "TypeByIndex d i = Some (find (\<lambda>k. ty_index (types d ! k) = i) [0..<length (types d)])"
    using assms(3,4) by (auto simp: TypeByIndex_def)
  obtain r where r: "TypeByIndex d' i = Some r" "case r of None \<Rightarrow> i \<notin> ty_index ` set (types d')
      | Some k \<Rightarrow> k < length (types d') \<and> ty_index (types d' ! k) = i"
    using TypeByIndex_final [OF conjunct1 [OF f] assms(4)] by blast
  show ?thesis
  proof (cases "find (\<lambda>k. ty_index (types d ! k) = i) [0..<length (types d)]")
    case None
    then have "i \<notin> ty_index ` set (types d')" unfolding same find_upt_None by (auto simp: in_set_conv_nth)
    then have "r = None" using r(2) by (cases r) auto
    then show ?thesis using None linear r(1) by simp
  next
    case (Some j)
    then have j: "j < length (types d)" "ty_index (types d ! j) = i" unfolding find_upt_Some by simp_all
    then have "i \<in> ty_index ` set (types d')" unfolding same by force
    then obtain k where "r = Some k" using r(2) by (cases r) auto
    then show ?thesis using Some linear r j by simp
  qed
qed

text \<open>C13: after \<open>Finalize\<close>, \<open>Symbolize\<close> of an address inside the image returns. It names no symbol only when
  every symbol with an address is above; otherwise the symbol is at or below the address, and the offset
  is the distance. When a function contains the address and begins within a megabyte of it, the symbol
  is a function that contains the address.\<close>

theorem Symbolize_names:
  assumes "built grows d" and "Finalize grows d = Some (d', Inr ())" and "image_base d = Some base"
    and "base + image_size d < 2 ^ 64" and "rva < image_size d"
  shows "\<exists>s. Symbolize grows d' (base + rva) False = Some s \<and> sz_rva s = rva \<and> sz_address s = base + rva \<and>
    (case sz_symbol s of
       None \<Rightarrow> \<forall>i < length (symbols d). sy_rva (symbols d ! i) \<noteq> 0 \<longrightarrow> rva < sy_rva (symbols d ! i)
     | Some i \<Rightarrow> i < length (symbols d) \<and> sy_rva (symbols d ! i) \<le> rva \<and>
         sz_offset s = rva - sy_rva (symbols d ! i)) \<and>
    (\<forall>j. function_at d rva j \<and> rva - sy_rva (symbols d ! j) \<le> 0x100000 \<longrightarrow>
       (\<exists>i. sz_symbol s = Some i \<and> function_at d rva i))"
proof -
  note f = Finalize_final [OF built_ok [OF assms(1)] assms(2)]
  then have final: "db_final d'" and same: "same_symbols (symbols d') (symbols d)" by simp_all
  note len = same_symbols_nth [OF same]
  have rvas: "sy_rva (symbols d' ! i) = sy_rva (symbols d ! i)" if "i < length (symbols d)" for i
    using len core_fields [of "symbols d' ! i" "symbols d ! i"] that by simp
  note same_fun = function_at_core [OF same]
  have at: "symbolized_rva d' (base + rva) False = (base + rva, rva)"
    using f assms(3-5) by (simp add: symbolized_rva_def)
  obtain l where l: "SourceForRva d' rva = Some l" using SourceForRva_final [OF final] by blast
  obtain frames b where frames: "InlineStack grows d' rva = Some (frames, b)"
    using InlineStack_total [of d' grows rva] final unfolding db_final_def by fastforce
  obtain c where c: "FunctionContainingRva d' rva = Some c" "case c of
      None \<Rightarrow> \<forall>j. function_at d' rva j \<longrightarrow> 0x100000 < rva - sy_rva (symbols d' ! j)
    | Some i \<Rightarrow> function_at d' rva i \<and> (\<forall>j. function_at d' rva j \<longrightarrow> sy_rva (symbols d' ! j) \<le> sy_rva (symbols d' ! i))"
    using FunctionContainingRva_final [OF final] by blast
  obtain r where r: "SymbolAtOrBeforeRva d' rva = Some r" "case r of
      None \<Rightarrow> \<forall>i < length (symbols d'). sy_rva (symbols d' ! i) \<noteq> 0 \<longrightarrow> rva < sy_rva (symbols d' ! i)
    | Some i \<Rightarrow> i < length (symbols d') \<and> sy_rva (symbols d' ! i) \<noteq> 0 \<and> sy_rva (symbols d' ! i) \<le> rva \<and>
        (\<forall>j < length (symbols d'). sy_rva (symbols d' ! j) \<le> rva \<longrightarrow> sy_rva (symbols d' ! j) \<le> sy_rva (symbols d' ! i))"
    using SymbolAtOrBeforeRva_final [OF final] by blast
  show ?thesis
  proof (cases c)
    case None
    then have "\<not> (function_at d rva j \<and> rva - sy_rva (symbols d ! j) \<le> 0x100000)" for j
      using c(2) rvas [of j] same_fun by (auto simp: function_at_def)
    then show ?thesis using None c(1) r at l frames len rvas
      by (cases r) (auto simp: Symbolize_def)
  next
    case (Some i)
    then have i: "function_at d rva i" using c(2) by (simp add: same_fun)
    then show ?thesis using Some c(1) at l frames rvas [of i]
      by (auto simp: Symbolize_def function_at_def)
  qed
qed

text \<open>A database with one function of 16 bytes, called \<^verbatim>\<open>a\<close>, and a type.\<close>

definition sample_symbol :: symbol where
  "sample_symbol = \<lparr>sy_id = 0, sy_name = 1, sy_decorated = 0, sy_qualified = 1, sy_base = 1, sy_kind = Function,
     sy_visibility = PublicVisibility, sy_source = ExactPdb, sy_flags = 0, sy_rva = 4096, sy_size = 16,
     sy_semantic = 0, sy_type = InvalidId, sy_module = InvalidId, sy_parent = InvalidId,
     sy_declaration = no_location\<rparr>"

definition sample_db :: database where
  "sample_db = db_empty\<lparr>strings := [[], [97]], symbols := [sample_symbol], image_base := Some 65536,
     image_size := 8192\<rparr>"

lemma sample_built: "built (\<lambda>t n. True) sample_db"
proof -
  let ?g = "\<lambda>t n. True"
  have 1: "built ?g (db_new ?g)" by (rule built.new) simp
  have 2: "built ?g (fst (Intern ?g (db_new ?g) [97]))"
    using 1 by (rule built.Intern) (simp_all add: db_new_def db_empty_def size_max_def)
  have 3: "built ?g (fst (AddSymbol ?g (fst (Intern ?g (db_new ?g) [97])) sample_symbol))"
    using 2 by (rule built.AddSymbol) (simp add: db_new_def db_empty_def Intern_def InvalidId_def)
  have "SetImage (fst (AddSymbol ?g (fst (Intern ?g (db_new ?g) [97])) sample_symbol)) (Some 65536) 8192 = sample_db"
    by (simp add: db_new_def db_empty_def Intern_def AddSymbol_def stored_text_def SetImage_def sample_db_def
        sample_symbol_def id32_def)
  then show ?thesis using built.SetImage [OF 3, of "Some 65536" 8192] by simp
qed

lemma sample_finalizes: "\<exists>d'. Finalize (\<lambda>t n. True) sample_db = Some (d', Inr ())"
  by (rule Finalize_granted [OF built_ok [OF sample_built]])

lemma sample_fields:
  "strings sample_db = [[], [97]]" "symbols sample_db = [sample_symbol]" "types sample_db = []"
  "\<not> ready sample_db" "image_base sample_db = Some 65536" "image_size sample_db = 8192"
  by (simp_all add: sample_db_def db_empty_def)

theorem built_well_formed_witness: "SymbolById sample_db 0 = Some 0 \<and> sy_id (symbols sample_db ! 0) = 0"
  using built_well_formed [OF sample_built] by (simp add: sample_fields)

theorem Intern_identifies_witness:
  "case Intern (\<lambda>t n. True) sample_db [98] of
      (d', Inl e) \<Rightarrow> e = AllocationFailure | (d', Inr i) \<Rightarrow> db_String d' i = [98] \<and> db_String d' 1 = [97]"
proof -
  have 1: "db_String sample_db 1 = [97]" "1 < length (strings sample_db)"
    by (simp_all add: db_String_def sample_fields)
  from Intern_identifies [where v = "[98]" and grows = "\<lambda>t n. True", OF sample_built] 1 show ?thesis
    by (auto simp: sample_fields size_max_def split: prod.splits sum.splits)
qed

theorem Finalize_indexes_witness:
  "\<exists>d' r. Finalize (\<lambda>t n. True) sample_db = Some (d', r) \<and> (case r of
      Inl e \<Rightarrow> e = AllocationFailure
    | Inr u \<Rightarrow> db_final d' \<and> strings d' = strings sample_db \<and> same_symbols (symbols d') (symbols sample_db) \<and>
        mset (types d') = mset (types sample_db) \<and> mset (source_lines d') = mset (source_lines sample_db))"
  by (rule Finalize_indexes [OF sample_built])

theorem FindExact_finds_witness:
  "\<exists>d' ids. Finalize (\<lambda>t n. True) sample_db = Some (d', Inr ()) \<and>
    FindExact (\<lambda>t n. True) d' [97] = Some (ids, True) \<and> set ids = {0}"
proof -
  obtain d' where d': "Finalize (\<lambda>t n. True) sample_db = Some (d', Inr ())" using sample_finalizes by blast
  have room: "\<forall>n. (\<lambda>t n. True) ResultTable (n :: nat)" by simp
  have only: "{i. i < length (symbols sample_db) \<and> [97] \<noteq> [] \<and>
      [97] \<in> symbol_names sample_db (symbols sample_db ! i)} = {0}"
    by (auto simp: sample_fields symbol_names_def sample_symbol_def db_String_def)
  from FindExact_finds [where v = "[97]", OF sample_built d' room] show ?thesis
    unfolding only using d' by fastforce
qed

theorem TypeByIndex_agrees_witness:
  "\<exists>d'. Finalize (\<lambda>t n. True) sample_db = Some (d', Inr ()) \<and> TypeByIndex d' 4096 = Some None"
proof -
  obtain d' where d': "Finalize (\<lambda>t n. True) sample_db = Some (d', Inr ())" using sample_finalizes by blast
  have "TypeByIndex sample_db 4096 = Some None" by (simp add: TypeByIndex_def sample_fields)
  with TypeByIndex_agrees [OF sample_built d', of 4096] d' show ?thesis
    by (auto simp: sample_fields InvalidId_def split: option.splits)
qed

theorem Symbolize_names_witness:
  "\<exists>d' s. Finalize (\<lambda>t n. True) sample_db = Some (d', Inr ()) \<and>
    Symbolize (\<lambda>t n. True) d' (65536 + 4100) False = Some s \<and> sz_symbol s = Some 0 \<and> sz_offset s = 4"
proof -
  obtain d' where d': "Finalize (\<lambda>t n. True) sample_db = Some (d', Inr ())" using sample_finalizes by blast
  have "\<exists>s. Symbolize (\<lambda>t n. True) d' (65536 + 4100) False = Some s \<and> sz_rva s = 4100 \<and>
      sz_address s = 65536 + 4100 \<and>
      (case sz_symbol s of
         None \<Rightarrow> \<forall>i < length (symbols sample_db). sy_rva (symbols sample_db ! i) \<noteq> 0 \<longrightarrow>
           4100 < sy_rva (symbols sample_db ! i)
       | Some i \<Rightarrow> i < length (symbols sample_db) \<and> sy_rva (symbols sample_db ! i) \<le> 4100 \<and>
           sz_offset s = 4100 - sy_rva (symbols sample_db ! i)) \<and>
      (\<forall>j. function_at sample_db 4100 j \<and> 4100 - sy_rva (symbols sample_db ! j) \<le> 0x100000 \<longrightarrow>
         (\<exists>i. sz_symbol s = Some i \<and> function_at sample_db 4100 i))"
    by (rule Symbolize_names [OF sample_built d']) (simp_all add: sample_fields)
  then obtain s where s: "Symbolize (\<lambda>t n. True) d' (65536 + 4100) False = Some s"
    "case sz_symbol s of None \<Rightarrow> 4100 < sy_rva sample_symbol
     | Some i \<Rightarrow> i < 1 \<and> sz_offset s = 4100 - sy_rva (symbols sample_db ! i)"
    by (auto simp: sample_fields sample_symbol_def split: option.splits)
  then show ?thesis using d' by (cases "sz_symbol s") (auto simp: sample_fields sample_symbol_def)
qed

end
