(* ===== verification/Msf.thy ===== *)
theory Msf
  imports Prelude
begin

text \<open>
  \<^verbatim>\<open>Reverse/Pdb.cpp\<close>, the container: a PDB is a file of blocks, in which a directory gives each stream
  its size and its blocks. \<open>msf_Open\<close> reads the directory of a file in memory, \<open>ReadStream\<close> copies a
  range of a stream out of its blocks. The file is a function from offsets to bytes and a size, and a
  read beyond the size has no result; a vector is the list it holds, and \<open>grant sz n\<close> whether the
  allocator has room for \<open>n\<close> elements of \<open>sz\<close> bytes. 64-bit arithmetic that the code checks is written
  with its checks.
\<close>

unbundle bit_operations_syntax

section \<open>Errors and bytes\<close>

datatype pdb_error =
    NoError | InvalidArgument | InvalidMsf | InvalidSuperBlock | InvalidStreamDirectory | InvalidStream
  | OutOfBounds | IntegerOverflow | AllocationFailure | MissingPdbInfo | InvalidPdbInfo | MissingDbi
  | InvalidDbi | AgeMismatch | IdentityMismatch | MissingImageIdentity | InvalidCodeViewRecord
  | InvalidTypeStream | InvalidTypeRecord | InvalidModuleInfo | InvalidModuleStream | InvalidLineInfo
  | UnsupportedFormat

record error_info =
  ecode :: pdb_error
  estream :: nat
  eoffset :: nat
  ekind :: nat

definition NoStream :: nat where "NoStream = 0xFFFFFFFF"

definition ErrorAt :: "pdb_error \<Rightarrow> nat \<Rightarrow> nat \<Rightarrow> error_info" where
  "ErrorAt code stream at = \<lparr>ecode = code, estream = stream, eoffset = at, ekind = 0\<rparr>"

definition DeletedStream :: nat where "DeletedStream = 0xFFFFFFFF"

record region =
  byte_at :: "nat \<Rightarrow> u8"
  rsize :: nat

definition read8 :: "region \<Rightarrow> nat \<Rightarrow> u8 option" where
  "read8 r i = (if i < rsize r then Some (byte_at r i) else None)"

definition ReadU16 :: "region \<Rightarrow> nat \<Rightarrow> u16 option" where
  "ReadU16 r i = do { a \<leftarrow> read8 r i; b \<leftarrow> read8 r (i + 1); Some (ucast a OR push_bit 8 (ucast b)) }"

definition ReadU32 :: "region \<Rightarrow> nat \<Rightarrow> u32 option" where
  "ReadU32 r i =
     do { a \<leftarrow> read8 r i; b \<leftarrow> read8 r (i + 1); c \<leftarrow> read8 r (i + 2); d \<leftarrow> read8 r (i + 3);
          Some (ucast a OR push_bit 8 (ucast b) OR push_bit 16 (ucast c) OR push_bit 24 (ucast d)) }"

definition ReadU64 :: "region \<Rightarrow> nat \<Rightarrow> u64 option" where
  "ReadU64 r i =
     do { x \<leftarrow> ReadU32 r i; y \<leftarrow> ReadU32 r (i + 4); Some (ucast x OR push_bit 32 (ucast y)) }"

text \<open>\<^verbatim>\<open>Memory::Copy\<close> out of a region.\<close>

definition read_bytes :: "region \<Rightarrow> nat \<Rightarrow> nat \<Rightarrow> u8 list option" where
  "read_bytes r at n = (if at + n \<le> rsize r then Some (map (byte_at r) [at..<at + n]) else None)"

definition region_of :: "u8 list \<Rightarrow> region" where
  "region_of xs = \<lparr>byte_at = (\<lambda>i. xs ! i), rsize = length xs\<rparr>"

text \<open>\<^verbatim>\<open>Value + Alignment - 1\<close> wraps around: adding \<^const>\<open>size_max\<close> subtracts 1.\<close>

definition msf_IsPowerOfTwo :: "nat \<Rightarrow> bool" where
  "msf_IsPowerOfTwo v \<longleftrightarrow> v \<noteq> 0 \<and> v AND (v - 1) = 0"

definition msf_AlignUp :: "nat \<Rightarrow> nat \<Rightarrow> nat" where
  "msf_AlignUp v a = (if a \<noteq> 0 then usz (v + a + size_max) div a * a else v)"

definition CheckedAdd :: "nat \<Rightarrow> nat \<Rightarrow> nat option" where
  "CheckedAdd a b = (let out = usz (a + b) in if out \<ge> a then Some out else None)"

definition CheckedMul :: "nat \<Rightarrow> nat \<Rightarrow> nat option" where
  "CheckedMul a b = (if a \<noteq> 0 \<and> b > size_max div a then None else Some (usz (a * b)))"

section \<open>The file\<close>

record descriptor =
  dsize :: nat
  dbegin :: nat
  dcount :: nat

record msf =
  mdata :: region
  mblock_size :: nat
  mblock_count :: nat
  streams :: "descriptor list"
  stream_blocks :: "nat list"
  mvalid :: bool

definition msf_Reset :: msf where
  "msf_Reset = \<lparr>mdata = \<lparr>byte_at = (\<lambda>_. 0), rsize = 0\<rparr>, mblock_size = 0, mblock_count = 0, streams = [],
     stream_blocks = [], mvalid = False\<rparr>"

definition msf_StreamCount :: "msf \<Rightarrow> nat" where
  "msf_StreamCount f = length (streams f)"

definition Msf7Magic :: "u8 list" where
  "Msf7Magic = [77, 105, 99, 114, 111, 115, 111, 102, 116, 32, 67, 47, 67, 43, 43, 32, 77, 83, 70, 32, 55,
     46, 48, 48, 13, 10, 0x1A, 68, 83, 0, 0, 0]"

text \<open>The loops of \<open>Open\<close>: the directory is copied out of its blocks, the streams are described, and
  their blocks are read. Each gives the file as the code leaves it.\<close>

type_synonym 'a msf_result = "(msf \<times> (error_info + 'a)) option"

fun copy_directory :: "msf \<Rightarrow> nat \<Rightarrow> nat list \<Rightarrow> nat \<Rightarrow> u8 list \<Rightarrow> u8 list msf_result" where
  "copy_directory f map_at [] left out = Some (f, Inr out)"
| "copy_directory f map_at (i # is) left out =
     do { b \<leftarrow> ReadU32 (mdata f) (map_at + i * 4);
          if unat b \<ge> mblock_count f then Some (f, Inl (ErrorAt InvalidStreamDirectory NoStream 0))
          else
            (let n = (if left > mblock_size f then mblock_size f else left)
             in do { chunk \<leftarrow> read_bytes (mdata f) (unat b * mblock_size f) n;
                     copy_directory f map_at is (left - n) (out @ chunk) }) }"

text \<open>The blocks of a stream of size \<open>v\<close>, as a 32-bit number.\<close>

definition blocks_of :: "nat \<Rightarrow> nat \<Rightarrow> nat" where
  "blocks_of bs v = (if v = DeletedStream then 0 else msf_AlignUp v bs div bs mod 2 ^ 32)"

fun describe_streams :: "region \<Rightarrow> nat list \<Rightarrow> msf \<Rightarrow> nat \<Rightarrow> nat \<Rightarrow> nat msf_result" where
  "describe_streams dir [] f at cursor = Some (f, Inr at)"
| "describe_streams dir (i # is) f at cursor =
     do { v \<leftarrow> ReadU32 dir at;
          let cnt = blocks_of (mblock_size f) (unat v);
          let f = f\<lparr>streams := (streams f)[i := \<lparr>dsize = unat v, dbegin = cursor, dcount = cnt\<rparr>]\<rparr>;
          if cnt > 0xFFFFFFFF - cursor then Some (f, Inl (ErrorAt IntegerOverflow NoStream 0))
          else describe_streams dir is f (at + 4) (cursor + cnt) }"

fun read_block_list :: "(nat \<Rightarrow> nat \<Rightarrow> bool) \<Rightarrow> region \<Rightarrow> nat \<Rightarrow> msf \<Rightarrow> nat \<Rightarrow> nat msf_result" where
  "read_block_list grant dir 0 f at = Some (f, Inr at)"
| "read_block_list grant dir (Suc k) f at =
     (if at + 4 > rsize dir then Some (f, Inl (ErrorAt InvalidStreamDirectory NoStream 0))
      else
        do { b \<leftarrow> ReadU32 dir at;
             if unat b \<ge> mblock_count f then Some (f, Inl (ErrorAt InvalidStreamDirectory NoStream 0))
             else if \<not> grant 4 (length (stream_blocks f) + 1)
             then Some (f, Inl (ErrorAt AllocationFailure NoStream 0))
             else read_block_list grant dir k (f\<lparr>stream_blocks := stream_blocks f @ [unat b]\<rparr>) (at + 4) })"

fun read_block_lists ::
  "(nat \<Rightarrow> nat \<Rightarrow> bool) \<Rightarrow> region \<Rightarrow> nat list \<Rightarrow> msf \<Rightarrow> nat \<Rightarrow> nat msf_result" where
  "read_block_lists grant dir [] f at = Some (f, Inr at)"
| "read_block_lists grant dir (i # is) f at =
     do { (f, r) \<leftarrow> read_block_list grant dir (dcount (streams f ! i)) f at;
          case r of Inl e \<Rightarrow> Some (f, Inl e) | Inr at \<Rightarrow> read_block_lists grant dir is f at }"

text \<open>A descriptor before it is filled in: \<^verbatim>\<open>Size{ 0xFFFFFFFFu }\<close>, the rest 0.\<close>

definition no_descriptor :: descriptor where
  "no_descriptor = \<lparr>dsize = 0xFFFFFFFF, dbegin = 0, dcount = 0\<rparr>"

definition open_directory :: "(nat \<Rightarrow> nat \<Rightarrow> bool) \<Rightarrow> u8 list \<Rightarrow> msf \<Rightarrow> unit msf_result" where
  "open_directory grant directory f =
     (let dir = region_of directory
      in if rsize dir < 4 then Some (f, Inl (ErrorAt InvalidStreamDirectory NoStream 0))
         else
           do { n \<leftarrow> ReadU32 dir 0;
                if unat n * 4 > rsize dir - 4 then Some (f, Inl (ErrorAt InvalidStreamDirectory NoStream 0))
                else if \<not> grant 12 (unat n) then Some (f, Inl (ErrorAt AllocationFailure NoStream 0))
                else
                  do { let f = f\<lparr>streams := replicate (unat n) no_descriptor\<rparr>;
                       (f, r) \<leftarrow> describe_streams dir [0..<unat n] f 4 0;
                       case r of
                         Inl e \<Rightarrow> Some (f, Inl e)
                       | Inr at \<Rightarrow>
                           do { (f, r) \<leftarrow> read_block_lists grant dir [0..<unat n] f at;
                                case r of
                                  Inl e \<Rightarrow> Some (f, Inl e)
                                | Inr at \<Rightarrow> Some (f\<lparr>mvalid := True\<rparr>, Inr ()) } } })"

text \<open>From the super block on: the map at block \<open>mp\<close> lists the blocks of the \<open>nd\<close> bytes of the directory.\<close>

definition load_directory :: "(nat \<Rightarrow> nat \<Rightarrow> bool) \<Rightarrow> nat \<Rightarrow> nat \<Rightarrow> msf \<Rightarrow> unit msf_result" where
  "load_directory grant mp nd f =
     (let dir_blocks = msf_AlignUp nd (mblock_size f) div mblock_size f
      in case (CheckedMul mp (mblock_size f), CheckedMul dir_blocks 4) of
           (Some map_at, Some map_bytes) \<Rightarrow>
             if usz (map_at + map_bytes) > rsize (mdata f)
             then Some (f, Inl (ErrorAt InvalidStreamDirectory NoStream 0))
             else if \<not> grant 1 nd then Some (f, Inl (ErrorAt AllocationFailure NoStream 0))
             else
               do { (f, d) \<leftarrow> copy_directory f map_at [0..<dir_blocks] nd [];
                    case d of
                      Inl e \<Rightarrow> Some (f, Inl e)
                    | Inr directory \<Rightarrow> open_directory grant directory f }
         | _ \<Rightarrow> Some (f, Inl (ErrorAt InvalidStreamDirectory NoStream 0)))"

text \<open>The fields of the super block: block size at 32, number of blocks at 40, bytes of the directory at 44,
  and the block of the directory's map at 52. \<open>Data\<close> is \<^term>\<open>None\<close> for the null pointer.\<close>

definition msf_Open :: "(nat \<Rightarrow> nat \<Rightarrow> bool) \<Rightarrow> region option \<Rightarrow> unit msf_result" where
  "msf_Open grant data =
     (case data of
        None \<Rightarrow> Some (msf_Reset, Inl (ErrorAt InvalidArgument NoStream 0))
      | Some r \<Rightarrow>
          if rsize r < 56 then Some (msf_Reset, Inl (ErrorAt InvalidArgument NoStream 0))
          else
            do { magic \<leftarrow> read_bytes r 0 32;
                 if magic \<noteq> Msf7Magic then Some (msf_Reset, Inl (ErrorAt InvalidMsf NoStream 0))
                 else
                   do { bs \<leftarrow> ReadU32 r 32; nb \<leftarrow> ReadU32 r 40; nd \<leftarrow> ReadU32 r 44; mp \<leftarrow> ReadU32 r 52;
                        if \<not> msf_IsPowerOfTwo (unat bs) \<or> unat bs < 512 \<or> nb = 0 \<or> nd = 0
                        then Some (msf_Reset, Inl (ErrorAt InvalidSuperBlock NoStream 0))
                        else
                          case CheckedMul (unat nb) (unat bs) of
                            None \<Rightarrow> Some (msf_Reset, Inl (ErrorAt OutOfBounds NoStream 0))
                          | Some full \<Rightarrow>
                              if full > rsize r then Some (msf_Reset, Inl (ErrorAt OutOfBounds NoStream 0))
                              else
                                load_directory grant (unat mp) (unat nd)
                                  (msf_Reset\<lparr>mdata := r, mblock_size := unat bs, mblock_count := unat nb\<rparr>) } })"

section \<open>Streams\<close>

text \<open>A stream of the file, by its index; \<^term>\<open>None\<close> is the empty \<^verbatim>\<open>MsfStream\<close>.\<close>

definition msf_Stream :: "msf \<Rightarrow> nat \<Rightarrow> nat option" where
  "msf_Stream f i = (if i < length (streams f) \<and> dsize (streams f ! i) \<noteq> DeletedStream then Some i else None)"

definition stream_Valid :: "msf \<Rightarrow> nat option \<Rightarrow> bool" where
  "stream_Valid f s = (case s of None \<Rightarrow> False
     | Some i \<Rightarrow> mvalid f \<and> i < length (streams f) \<and> dsize (streams f ! i) \<noteq> DeletedStream)"

definition stream_Size :: "msf \<Rightarrow> nat option \<Rightarrow> nat" where
  "stream_Size f s = (if stream_Valid f s then dsize (streams f ! the s) else 0)"

definition stream_Index :: "nat option \<Rightarrow> nat" where
  "stream_Index s = (case s of None \<Rightarrow> NoStream | Some i \<Rightarrow> i)"

text \<open>\<^verbatim>\<open>Take\<close>: what is left to read, up to the end of the block.\<close>

definition block_take :: "nat \<Rightarrow> nat \<Rightarrow> nat \<Rightarrow> nat" where
  "block_take bs at left = (if left < bs - at mod bs then left else bs - at mod bs)"

text \<open>The \<^verbatim>\<open>while (Left)\<close> loop: \<open>out\<close> is what has been written to the destination.\<close>

function read_stream_loop ::
  "msf \<Rightarrow> nat \<Rightarrow> nat \<Rightarrow> nat \<Rightarrow> nat \<Rightarrow> u8 list \<Rightarrow> (u8 list \<times> (error_info + unit)) option" where
  "read_stream_loop f i start at left out =
     (if left = 0 then Some (out, Inr ())
      else if mblock_size f = 0 then None
      else
        (let bi = at div mblock_size f; within = at mod mblock_size f
         in if bi \<ge> dcount (streams f ! i) then Some (out, Inl (ErrorAt InvalidStream i start))
            else if dbegin (streams f ! i) + bi \<ge> length (stream_blocks f) then None
            else
              (let physical = stream_blocks f ! (dbegin (streams f ! i) + bi);
                   n = block_take (mblock_size f) at left;
                   src = physical * mblock_size f + within
               in if src + n > rsize (mdata f) then Some (out, Inl (ErrorAt OutOfBounds i at))
                  else
                    case read_bytes (mdata f) src n of
                      None \<Rightarrow> None
                    | Some chunk \<Rightarrow> read_stream_loop f i start (at + n) (left - n) (out @ chunk))))"
  by pat_completeness auto
termination
  by (relation "measure (\<lambda>(f, i, start, at, left, out). left)") (auto simp: block_take_def)

declare read_stream_loop.simps [simp del]

text \<open>\<open>d\<close> says whether the destination is a pointer other than the null pointer.\<close>

definition ReadStream ::
  "msf \<Rightarrow> nat \<Rightarrow> nat \<Rightarrow> bool \<Rightarrow> nat \<Rightarrow> (u8 list \<times> (error_info + unit)) option" where
  "ReadStream f i at d n =
     (if \<not> mvalid f \<or> i \<ge> length (streams f) \<or> dsize (streams f ! i) = DeletedStream
      then Some ([], Inl (ErrorAt InvalidStream i at))
      else if \<not> d \<and> n \<noteq> 0 then Some ([], Inl (ErrorAt InvalidArgument i at))
      else if at > dsize (streams f ! i) \<or> n > dsize (streams f ! i) - at
      then Some ([], Inl (ErrorAt OutOfBounds i at))
      else read_stream_loop f i at at n [])"

definition stream_Read ::
  "msf \<Rightarrow> nat option \<Rightarrow> nat \<Rightarrow> bool \<Rightarrow> nat \<Rightarrow> (u8 list \<times> (error_info + unit)) option" where
  "stream_Read f s at d n =
     (if stream_Valid f s then ReadStream f (the s) at d n
      else Some ([], Inl (ErrorAt InvalidStream (stream_Index s) at)))"

text \<open>\<open>ReadAll\<close>: the vector it fills, and its result. A vector that was resized holds zeros.\<close>

definition stream_ReadAll ::
  "(nat \<Rightarrow> nat \<Rightarrow> bool) \<Rightarrow> msf \<Rightarrow> nat option \<Rightarrow> (u8 list \<times> (error_info + unit)) option" where
  "stream_ReadAll grant f s =
     (if \<not> stream_Valid f s then Some ([], Inl (ErrorAt InvalidStream (stream_Index s) 0))
      else if stream_Size f s \<noteq> 0 \<and> \<not> grant 1 (stream_Size f s)
      then Some ([], Inl (ErrorAt AllocationFailure (stream_Index s) 0))
      else if stream_Size f s = 0 then Some ([], Inr ())
      else
        do { (out, r) \<leftarrow> stream_Read f s 0 True (stream_Size f s);
             Some (out @ replicate (stream_Size f s - length out) 0, r) })"

section \<open>Reading within the bounds\<close>

lemma read8_Some: "i < rsize r \<Longrightarrow> read8 r i = Some (byte_at r i)"
  by (simp add: read8_def)

lemma ReadU32_total: "i + 4 \<le> rsize r \<Longrightarrow> \<exists>w. ReadU32 r i = Some w"
  by (simp add: ReadU32_def read8_Some)

lemma read_bytes_Some: "at + n \<le> rsize r \<Longrightarrow> read_bytes r at n = Some (map (byte_at r) [at..<at + n])"
  by (simp add: read_bytes_def)

text \<open>The number of blocks a size takes, and that they hold it.\<close>

lemma msf_AlignUp_small:
  "0 < a \<Longrightarrow> v + a < 2 ^ 64 \<Longrightarrow> msf_AlignUp v a = (v + a - 1) div a * a"
proof -
  assume a: "0 < a" and s: "v + a < 2 ^ 64"
  then have "usz (v + a + size_max) = v + a - 1"
    by (simp add: usz_def size_max_def mod_if)
  with a show ?thesis by (simp add: msf_AlignUp_def)
qed

lemma blocks_hold: "0 < a \<Longrightarrow> v + a < 2 ^ 64 \<Longrightarrow> v \<le> msf_AlignUp v a div a * a"
proof -
  assume a: "0 < a" and s: "v + a < 2 ^ 64"
  have "v + a - 1 < (v + a - 1) div a * a + a"
    using mod_less_divisor [OF a, of "v + a - 1"] div_mult_mod_eq [of "v + a - 1" a] by linarith
  with a show ?thesis by (simp add: msf_AlignUp_small [OF a s])
qed

lemma blocks_needed: "0 < a \<Longrightarrow> v + a < 2 ^ 64 \<Longrightarrow> msf_AlignUp v a div a \<le> v"
proof -
  assume a: "0 < a" and s: "v + a < 2 ^ 64"
  have "(v + a - 1) div a \<le> v"
  proof (cases v)
    case (Suc k)
    then have "(v + a - 1) div a = (k + a) div a" by simp
    also have "\<dots> = Suc (k div a)" using a by (simp add: div_add_self2)
    also have "\<dots> \<le> v" using Suc by simp
    finally show ?thesis .
  qed (use a in simp)
  then show ?thesis using a by (simp add: msf_AlignUp_small [OF a s])
qed

section \<open>The opened file\<close>

text \<open>What \<open>Open\<close> establishes: every block lies in the data, and each stream that exists has enough of
  them.\<close>

definition stream_fits :: "msf \<Rightarrow> descriptor \<Rightarrow> bool" where
  "stream_fits f d \<longleftrightarrow> dbegin d + dcount d \<le> length (stream_blocks f) \<and> dsize d < 2 ^ 32 \<and>
     (dsize d \<noteq> DeletedStream \<longrightarrow> dsize d \<le> dcount d * mblock_size f)"

definition msf_inv :: "msf \<Rightarrow> bool" where
  "msf_inv f \<longleftrightarrow> mvalid f \<and> 0 < mblock_size f \<and> mblock_count f * mblock_size f \<le> rsize (mdata f) \<and>
     (\<forall>d \<in> set (streams f). stream_fits f d) \<and> (\<forall>b \<in> set (stream_blocks f). b < mblock_count f)"

lemma block_in_data:
  assumes "b < c" and "c * s \<le> n" and "k \<le> s"
  shows "b * s + k \<le> (n::nat)"
proof -
  have "b * s + k \<le> Suc b * s" using assms(3) by simp
  also have "\<dots> \<le> c * s" using assms(1) by (intro mult_le_mono1) simp
  finally show ?thesis using assms(2) by simp
qed

text \<open>\<open>sbyte f i p\<close>: the byte at position \<open>p\<close> of stream \<open>i\<close>.\<close>

definition sbyte :: "msf \<Rightarrow> nat \<Rightarrow> nat \<Rightarrow> u8" where
  "sbyte f i p =
     byte_at (mdata f) (stream_blocks f ! (dbegin (streams f ! i) + p div mblock_size f) * mblock_size f
       + p mod mblock_size f)"

lemma sbyte_within:
  assumes "at mod s + k < s"
  shows "(at + k) div s = at div s" and "(at + k) mod s = at mod s + (k::nat)"
proof -
  have e: "at + k = (at mod s + k) + at div s * s" using div_mult_mod_eq [of at s] by linarith
  have s: "s \<noteq> 0" using assms by (cases s) simp_all
  have "(at + k) div s = at div s + (at mod s + k) div s" by (subst e) (rule div_mult_self1 [OF s])
  then show "(at + k) div s = at div s" using assms by simp
  have "(at + k) mod s = (at mod s + k) mod s" by (subst e) (rule mod_mult_self1)
  then show "(at + k) mod s = at mod s + k" using assms by simp
qed

lemma chunk_is_sbytes:
  assumes s: "s = mblock_size f" "0 < s" and n: "n \<le> s - at mod s"
    and b: "b = stream_blocks f ! (dbegin (streams f ! i) + at div s)"
  shows "map (byte_at (mdata f)) [b * s + at mod s..<b * s + at mod s + n] = map (sbyte f i) [at..<at + n]"
proof (rule nth_equalityI)
  fix k assume "k < length (map (byte_at (mdata f)) [b * s + at mod s..<b * s + at mod s + n])"
  then have k: "k < n" by simp
  have w: "at mod s + k < s" using k n s(2) by linarith
  show "map (byte_at (mdata f)) [b * s + at mod s..<b * s + at mod s + n] ! k = map (sbyte f i) [at..<at + n] ! k"
    using k sbyte_within [OF w] by (simp add: sbyte_def s(1) [symmetric] b add.assoc)
qed simp

lemma read_stream_loop_step:
  assumes s: "s = mblock_size f" and f: "msf_inv f" "i < length (streams f)"
    and d: "dsize (streams f ! i) \<noteq> DeletedStream" "at + left \<le> dsize (streams f ! i)" "0 < left"
    and n: "n = block_take s at left"
  shows "read_stream_loop f i start at left out =
    read_stream_loop f i start (at + n) (left - n) (out @ map (sbyte f i) [at..<at + n])"
proof -
  define b where "b = stream_blocks f ! (dbegin (streams f ! i) + at div s)"
  have fits: "stream_fits f (streams f ! i)" and s0: "0 < s"
    and data: "mblock_count f * s \<le> rsize (mdata f)" and blocks: "\<forall>b \<in> set (stream_blocks f). b < mblock_count f"
    using f by (simp_all add: msf_inv_def s)
  have "at < dcount (streams f ! i) * s" using fits d by (simp add: stream_fits_def s)
  then have bi: "at div s < dcount (streams f ! i)" using s0 by (simp add: div_less_iff_less_mult)
  then have at: "dbegin (streams f ! i) + at div s < length (stream_blocks f)"
    using fits by (simp add: stream_fits_def)
  have w: "at mod s < s" using s0 by simp
  have n': "n \<le> s - at mod s" by (simp add: n block_take_def)
  have "b * s + (at mod s + n) \<le> rsize (mdata f)"
    using block_in_data [OF _ data] blocks at n' w by (simp add: b_def)
  then have in_data: "b * s + at mod s + n \<le> rsize (mdata f)" by (simp add: add.assoc)
  have chunk: "read_bytes (mdata f) (b * s + at mod s) n = Some (map (sbyte f i) [at..<at + n])"
    using chunk_is_sbytes [OF s s0 n' b_def] by (simp add: read_bytes_Some [OF in_data])
  show ?thesis
    by (subst read_stream_loop.simps)
      (use d(3) s0 bi at in_data in
        \<open>simp add: Let_def s [symmetric] n [symmetric] b_def [symmetric] chunk\<close>)
qed

lemma read_stream_loop_reads:
  assumes "msf_inv f" and "i < length (streams f)" and "dsize (streams f ! i) \<noteq> DeletedStream"
    and "at + left \<le> dsize (streams f ! i)"
  shows "read_stream_loop f i start at left out = Some (out @ map (sbyte f i) [at..<at + left], Inr ())"
  using assms(4)
proof (induction left arbitrary: at out rule: less_induct)
  case (less left)
  show ?case
  proof (cases "left = 0")
    case True
    then show ?thesis by (simp add: read_stream_loop.simps)
  next
    case False
    define s where "s = mblock_size f"
    define n where "n = block_take s at left"
    have "0 < s" using assms(1) by (simp add: msf_inv_def s_def)
    then have n: "0 < n" "n \<le> left" using False by (auto simp: n_def block_take_def)
    have "[at..<at + left] = [at..<at + n] @ [at + n..<at + n + (left - n)]"
      using n(2) upt_add_eq_append [of at "at + n" "left - n"] by simp
    moreover have "read_stream_loop f i start (at + n) (left - n) (out @ map (sbyte f i) [at..<at + n]) =
        Some ((out @ map (sbyte f i) [at..<at + n]) @ map (sbyte f i) [at + n..<at + n + (left - n)], Inr ())"
      using n less.prems by (intro less.IH) simp_all
    ultimately show ?thesis
      using read_stream_loop_step [OF s_def assms(1-3) less.prems _ n_def] False by simp
  qed
qed

section \<open>Opening\<close>

text \<open>Descriptors that follow each other from block \<open>cursor\<close> on, each with the blocks its size takes.\<close>

fun laid_out :: "nat \<Rightarrow> nat \<Rightarrow> descriptor list \<Rightarrow> bool" where
  "laid_out bs cursor [] \<longleftrightarrow> True"
| "laid_out bs cursor (d # ds) \<longleftrightarrow> dbegin d = cursor \<and> dsize d < 2 ^ 32 \<and>
     (dsize d \<noteq> DeletedStream \<longrightarrow> dsize d \<le> dcount d * bs) \<and> laid_out bs (cursor + dcount d) ds"

lemma laid_out_within:
  "laid_out bs cursor ds \<Longrightarrow> d \<in> set ds \<Longrightarrow>
    dbegin d + dcount d \<le> cursor + sum_list (map dcount ds) \<and> dsize d < 2 ^ 32 \<and>
    (dsize d \<noteq> DeletedStream \<longrightarrow> dsize d \<le> dcount d * bs)"
proof (induction ds arbitrary: cursor)
  case (Cons e ds)
  show ?case
  proof (cases "d = e")
    case False
    then show ?thesis using Cons.IH [of "cursor + dcount e"] Cons.prems by simp
  qed (use Cons.prems in auto)
qed simp

lemma copy_directory_ok:
  assumes "\<forall>i \<in> set is. map_at + i * 4 + 4 \<le> rsize (mdata f)"
    and "mblock_count f * mblock_size f \<le> rsize (mdata f)" and "left \<le> length is * mblock_size f"
  shows "\<exists>r. copy_directory f map_at is left out = Some (f, r) \<and>
    (\<forall>d. r = Inr d \<longrightarrow> length d = length out + left)"
  using assms
proof (induction "is" arbitrary: left out)
  case (Cons i "is")
  define n where "n = (if left > mblock_size f then mblock_size f else left)"
  from Cons.prems(1) obtain b where b: "ReadU32 (mdata f) (map_at + i * 4) = Some b"
    using ReadU32_total [of "map_at + i * 4" "mdata f"] by auto
  have n: "n \<le> mblock_size f" "n \<le> left" by (simp_all add: n_def)
  have rest: "left - n \<le> length is * mblock_size f" using Cons.prems(3) unfolding n_def by auto
  show ?case
  proof (cases "unat b < mblock_count f")
    case True
    have c: "read_bytes (mdata f) (unat b * mblock_size f) n =
        Some (map (byte_at (mdata f)) [unat b * mblock_size f..<unat b * mblock_size f + n])"
      using block_in_data [OF True Cons.prems(2) n(1)] by (rule read_bytes_Some)
    define chunk where "chunk = map (byte_at (mdata f)) [unat b * mblock_size f..<unat b * mblock_size f + n]"
    obtain r where r: "copy_directory f map_at is (left - n) (out @ chunk) = Some (f, r)"
      "\<forall>d. r = Inr d \<longrightarrow> length d = length (out @ chunk) + (left - n)"
      using Cons.IH [OF _ Cons.prems(2) rest, of "out @ chunk"] Cons.prems(1) by auto
    have "length chunk = n" by (simp add: chunk_def)
    with b True c n(2) r show ?thesis by (auto simp: n_def [symmetric] chunk_def [symmetric] Let_def)
  qed (use b in simp)
qed simp

lemma describe_streams_ok:
  assumes "length (streams f) = n" and "i \<le> n" and "at + 4 * (n - i) \<le> rsize dir"
    and "0 < mblock_size f" and "mblock_size f < 2 ^ 32"
  shows "\<exists>ds r. describe_streams dir [i..<n] f at cursor = Some (f\<lparr>streams := take i (streams f) @ ds\<rparr>, r) \<and>
    length ds = n - i \<and>
    (\<forall>c. r = Inr c \<longrightarrow> c = at + 4 * (n - i) \<and> laid_out (mblock_size f) cursor ds)"
  using assms
proof (induction "n - i" arbitrary: i f at cursor)
  case 0
  then show ?case by simp
next
  case (Suc k)
  define bs where "bs = mblock_size f"
  from Suc have i: "i < n" by simp
  then have "at + 4 \<le> rsize dir" using Suc.prems(3) by simp
  then obtain v where v: "ReadU32 dir at = Some v" using ReadU32_total by blast
  define c where "c = blocks_of bs (unat v)"
  define g where "g = f\<lparr>streams := (streams f)[i := \<lparr>dsize = unat v, dbegin = cursor, dcount = c\<rparr>]\<rparr>"
  have v32: "unat v < 2 ^ 32" using unat_lt2p [of v] by simp
  have bs: "0 < bs" "unat v + bs < 2 ^ 64" using Suc.prems(4,5) v32 by (simp_all add: bs_def)
  have "msf_AlignUp (unat v) bs div bs < 2 ^ 32" using blocks_needed [OF bs] v32 by linarith
  then have c: "unat v \<noteq> DeletedStream \<longrightarrow> unat v \<le> c * bs" using blocks_hold [OF bs] by (simp add: c_def blocks_of_def)
  have step: "describe_streams dir [i..<n] f at cursor =
      (if c > 0xFFFFFFFF - cursor then Some (g, Inl (ErrorAt IntegerOverflow NoStream 0))
       else describe_streams dir [Suc i..<n] g (at + 4) (cursor + c))"
    using i v by (simp add: upt_conv_Cons Let_def bs_def [symmetric] c_def [symmetric] g_def [symmetric])
  have tk: "take (Suc i) (streams g) = take i (streams f) @ [\<lparr>dsize = unat v, dbegin = cursor, dcount = c\<rparr>]"
    using i Suc.prems(1) by (simp add: g_def take_Suc_nth)
  show ?case
  proof (cases "c > 0xFFFFFFFF - cursor")
    case True
    have "g = f\<lparr>streams := take i (streams f) @ drop i (streams g)\<rparr>"
      by (simp add: g_def) (metis append_take_drop_id order_refl take_update_cancel)
    then show ?thesis using True step Suc.prems(1) i
      by (intro exI [of _ "drop i (streams g)"]) (auto simp: g_def)
  next
    case False
    have pre: "k = n - Suc i" "length (streams g) = n" "Suc i \<le> n" "at + 4 + 4 * (n - Suc i) \<le> rsize dir"
      "0 < mblock_size g" "mblock_size g < 2 ^ 32"
      using Suc.hyps(2) Suc.prems i by (simp_all add: g_def)
    obtain ds r where r: "describe_streams dir [Suc i..<n] g (at + 4) (cursor + c) =
        Some (g\<lparr>streams := take (Suc i) (streams g) @ ds\<rparr>, r)" "length ds = n - Suc i"
      "\<forall>e. r = Inr e \<longrightarrow> e = at + 4 + 4 * (n - Suc i) \<and> laid_out (mblock_size g) (cursor + c) ds"
      using Suc.hyps(1) [OF pre] by blast
    define d where "d = \<lparr>dsize = unat v, dbegin = cursor, dcount = c\<rparr>"
    have "g\<lparr>streams := x\<rparr> = f\<lparr>streams := x\<rparr>" for x by (simp add: g_def)
    then have "describe_streams dir [i..<n] f at cursor = Some (f\<lparr>streams := take i (streams f) @ d # ds\<rparr>, r)"
      using False step r(1) tk by (simp add: d_def)
    moreover have "length (d # ds) = n - i" using r(2) i by simp
    moreover have "e = at + 4 * (n - i) \<and> laid_out (mblock_size f) cursor (d # ds)" if "r = Inr e" for e
    proof -
      have "mblock_size g = mblock_size f" by (simp add: g_def)
      then have "e = at + 4 + 4 * (n - Suc i)" "laid_out (mblock_size f) (cursor + c) ds" using r(3) that by simp_all
      then show ?thesis using c i v32 by (simp add: d_def bs_def)
    qed
    ultimately show ?thesis by blast
  qed
qed

lemma read_block_list_ok:
  "\<exists>bs r. read_block_list grant dir k f at = Some (f\<lparr>stream_blocks := stream_blocks f @ bs\<rparr>, r) \<and>
    (\<forall>b \<in> set bs. b < mblock_count f) \<and> (\<forall>c. r = Inr c \<longrightarrow> length bs = k)"
proof (induction k arbitrary: f at)
  case (Suc k)
  show ?case
  proof (cases "at + 4 \<le> rsize dir")
    case True
    then obtain b where b: "ReadU32 dir at = Some b" using ReadU32_total by blast
    define g where "g = f\<lparr>stream_blocks := stream_blocks f @ [unat b]\<rparr>"
    obtain bs r where r: "read_block_list grant dir k g (at + 4) = Some (g\<lparr>stream_blocks := stream_blocks g @ bs\<rparr>, r)"
      "\<forall>b \<in> set bs. b < mblock_count g" "\<forall>c. r = Inr c \<longrightarrow> length bs = k"
      using Suc.IH [of g "at + 4"] by blast
    show ?thesis
    proof (cases "unat b < mblock_count f \<and> grant 4 (length (stream_blocks f) + 1)")
      case t: True
      then have "read_block_list grant dir (Suc k) f at = read_block_list grant dir k g (at + 4)"
        using True b by (simp add: g_def)
      with r t show ?thesis by (intro exI [of _ "unat b # bs"] exI [of _ r]) (auto simp: g_def)
    next
      case False
      then show ?thesis using True b by (intro exI [of _ "[]"]) auto
    qed
  qed (intro exI [of _ "[]"], simp)
qed (intro exI [of _ "[]"], simp)

lemma read_block_lists_ok:
  "\<exists>bs r. read_block_lists grant dir is f at = Some (f\<lparr>stream_blocks := stream_blocks f @ bs\<rparr>, r) \<and>
    (\<forall>b \<in> set bs. b < mblock_count f) \<and>
    (\<forall>c. r = Inr c \<longrightarrow> length bs = sum_list (map (\<lambda>i. dcount (streams f ! i)) is))"
proof (induction "is" arbitrary: f at)
  case (Cons i "is")
  obtain bs r where r: "read_block_list grant dir (dcount (streams f ! i)) f at =
      Some (f\<lparr>stream_blocks := stream_blocks f @ bs\<rparr>, r)"
    "\<forall>b \<in> set bs. b < mblock_count f" "\<forall>c. r = Inr c \<longrightarrow> length bs = dcount (streams f ! i)"
    using read_block_list_ok by blast
  show ?case
  proof (cases r)
    case (Inl e)
    with r show ?thesis by (intro exI [of _ bs] exI [of _ "Inl e"]) simp
  next
    case (Inr c)
    obtain bs' r' where r': "read_block_lists grant dir is (f\<lparr>stream_blocks := stream_blocks f @ bs\<rparr>) c =
        Some (f\<lparr>stream_blocks := (stream_blocks f @ bs) @ bs'\<rparr>, r')"
      "\<forall>b \<in> set bs'. b < mblock_count f"
      "\<forall>c. r' = Inr c \<longrightarrow> length bs' = sum_list (map (\<lambda>i. dcount (streams f ! i)) is)"
      using Cons.IH [of "f\<lparr>stream_blocks := stream_blocks f @ bs\<rparr>" c] by auto
    show ?thesis using r r' Inr by (intro exI [of _ "bs @ bs'"] exI [of _ r']) auto
  qed
qed (intro exI [of _ "[]"], simp)

lemma power_of_two_below: "msf_IsPowerOfTwo v \<Longrightarrow> v < 2 ^ 32 \<Longrightarrow> v \<le> 2 ^ 31"
proof (rule ccontr)
  assume p: "msf_IsPowerOfTwo v" and v: "v < 2 ^ 32" and "\<not> v \<le> 2 ^ 31"
  then have "v div 2 ^ 31 = 1" "(v - 1) div 2 ^ 31 = 1" by (simp_all add: div_nat_eqI)
  then have "bit v 31" "bit (v - 1) 31" by (simp_all add: bit_iff_odd)
  then have "bit (v AND (v - 1)) 31" by (simp only: bit_and_iff simp_thms)
  with p show False by (simp add: msf_IsPowerOfTwo_def)
qed

text \<open>A file that is not open yet, with the block size and count of a super block that was accepted.\<close>

definition msf_fresh :: "msf \<Rightarrow> bool" where
  "msf_fresh f \<longleftrightarrow> \<not> mvalid f \<and> streams f = [] \<and> stream_blocks f = [] \<and> 0 < mblock_size f \<and>
     mblock_size f \<le> 2 ^ 31 \<and> mblock_count f * mblock_size f \<le> rsize (mdata f)"

text \<open>The outcomes of opening: a valid file, or an error and a file that is not valid.\<close>

definition msf_outcome :: "region \<Rightarrow> msf \<times> (error_info + unit) \<Rightarrow> bool" where
  "msf_outcome r out \<longleftrightarrow>
     (case out of (f, Inl e) \<Rightarrow> \<not> mvalid f | (f, Inr u) \<Rightarrow> msf_inv f \<and> mdata f = r)"

lemma open_directory_ok:
  assumes "msf_fresh f"
  shows "\<exists>out. open_directory grant directory f = Some out \<and> msf_outcome (mdata f) out"
proof -
  define dir where "dir = region_of directory"
  note fresh = assms [unfolded msf_fresh_def]
  show ?thesis
  proof (cases "rsize dir < 4")
    case True
    then show ?thesis using fresh by (simp add: open_directory_def msf_outcome_def dir_def [symmetric])
  next
    case False
    then obtain w where w: "ReadU32 dir 0 = Some w" using ReadU32_total [of 0 dir] by auto
    show ?thesis
    proof (cases "unat w * 4 > rsize dir - 4 \<or> \<not> grant 12 (unat w)")
      case True
      then show ?thesis using fresh w
        by (auto simp: open_directory_def msf_outcome_def dir_def [symmetric] Let_def)
    next
      case fits: False
      define n where "n = unat w"
      define g where "g = f\<lparr>streams := replicate n no_descriptor\<rparr>"
      obtain ds r where r: "describe_streams dir [0..<n] g 4 0 = Some (g\<lparr>streams := ds\<rparr>, r)" "length ds = n"
        "\<forall>c. r = Inr c \<longrightarrow> laid_out (mblock_size g) 0 ds"
        using describe_streams_ok [of g n 0 4 dir 0] fits False fresh by (fastforce simp: g_def n_def)
      define h where "h = g\<lparr>streams := ds\<rparr>"
      have start: "open_directory grant directory f =
          (case r of Inl e \<Rightarrow> Some (h, Inl e)
           | Inr at \<Rightarrow> do { (f, r) \<leftarrow> read_block_lists grant dir [0..<n] h at;
                           case r of Inl e \<Rightarrow> Some (f, Inl e) | Inr at \<Rightarrow> Some (f\<lparr>mvalid := True\<rparr>, Inr ()) })"
        using False fits w r(1)
        unfolding h_def
        by (simp add: open_directory_def dir_def [symmetric] n_def [symmetric] g_def [symmetric])
      show ?thesis
      proof (cases r)
        case (Inl e)
        then show ?thesis using fresh by (simp add: start msf_outcome_def h_def g_def)
      next
        case (Inr c)
        obtain bs r' where r': "read_block_lists grant dir [0..<n] h c =
            Some (h\<lparr>stream_blocks := stream_blocks h @ bs\<rparr>, r')" "\<forall>b \<in> set bs. b < mblock_count h"
          "\<forall>c. r' = Inr c \<longrightarrow> length bs = sum_list (map (\<lambda>i. dcount (streams h ! i)) [0..<n])"
          using read_block_lists_ok by blast
        have "map (\<lambda>i. dcount (streams h ! i)) [0..<n] = map dcount ds"
          using r(2) by (intro nth_equalityI) (simp_all add: h_def)
        then have total: "\<forall>c. r' = Inr c \<longrightarrow> length bs = sum_list (map dcount ds)" using r'(3) by simp
        have "\<forall>d \<in> set ds. dbegin d + dcount d \<le> sum_list (map dcount ds) \<and> dsize d < 2 ^ 32 \<and>
            (dsize d \<noteq> DeletedStream \<longrightarrow> dsize d \<le> dcount d * mblock_size f)"
          using laid_out_within [of "mblock_size g" 0 ds] r(3) Inr by (auto simp: g_def)
        then show ?thesis using r' Inr fresh total
          by (cases r') (auto simp: start msf_outcome_def msf_inv_def stream_fits_def h_def g_def)
      qed
    qed
  qed
qed

lemma CheckedMul_Some: "CheckedMul a b = Some c \<Longrightarrow> c = a * b"
proof (cases "a = 0")
  case False
  assume c: "CheckedMul a b = Some c"
  then have "b \<le> size_max div a" using False by (simp add: CheckedMul_def split: if_splits)
  then have "a * b \<le> size_max" using False by (simp add: less_eq_div_iff_mult_less_eq mult.commute)
  then have "a * b < 2 ^ 64" by (simp add: size_max_def)
  then show ?thesis using c by (simp add: CheckedMul_def split: if_splits)
qed (simp add: CheckedMul_def usz_def)

lemma CheckedMul_fits: "a * b < 2 ^ 64 \<Longrightarrow> CheckedMul a b = Some (a * b)"
proof -
  assume f: "a * b < 2 ^ 64"
  have "a \<noteq> 0 \<Longrightarrow> b \<le> size_max div a"
    using f by (simp add: less_eq_div_iff_mult_less_eq size_max_def mult.commute)
  then show ?thesis using f by (auto simp: CheckedMul_def)
qed

lemma load_directory_ok:
  assumes "msf_fresh f" and "rsize (mdata f) < 2 ^ 64" and "mp < 2 ^ 32" and "nd < 2 ^ 32"
  shows "\<exists>out. load_directory grant mp nd f = Some out \<and> msf_outcome (mdata f) out"
proof -
  define bs where "bs = mblock_size f"
  define blocks where "blocks = msf_AlignUp nd bs div bs"
  have bs: "0 < bs" "bs \<le> 2 ^ 31" and data: "mblock_count f * bs \<le> rsize (mdata f)" and invalid: "\<not> mvalid f"
    using assms(1) by (simp_all add: msf_fresh_def bs_def)
  have ndbs: "nd + bs < 2 ^ 64" using bs(2) assms(4) by simp
  have bad: "msf_outcome (mdata f) (f, Inl e)" for e using invalid by (simp add: msf_outcome_def)
  have blocks: "blocks < 2 ^ 32" using blocks_needed [OF bs(1) ndbs] assms(4) by (simp add: blocks_def)
  have left: "nd \<le> blocks * bs" using blocks_hold [OF bs(1) ndbs] by (simp add: blocks_def)
  have "mp * bs \<le> 2 ^ 32 * 2 ^ 31" using bs(2) assms(3) by (intro mult_le_mono) simp_all
  then have at: "mp * bs + blocks * 4 < 2 ^ 64" using blocks by simp
  have c: "CheckedMul mp bs = Some (mp * bs)" "CheckedMul blocks 4 = Some (blocks * 4)"
    using at by (simp_all add: CheckedMul_fits)
  show ?thesis
  proof (cases "mp * bs + blocks * 4 \<le> rsize (mdata f) \<and> grant 1 nd")
    case False
    then show ?thesis using bad at
      by (auto simp: load_directory_def bs_def [symmetric] blocks_def [symmetric] c Let_def)
  next
    case True
    have "\<forall>i \<in> set [0..<blocks]. mp * bs + i * 4 + 4 \<le> rsize (mdata f)" using True by auto
    from copy_directory_ok [OF this, of nd "[]"] data left obtain r where
      r: "copy_directory f (mp * bs) [0..<blocks] nd [] = Some (f, r)" by (auto simp: bs_def)
    have "load_directory grant mp nd f =
        (case r of Inl e \<Rightarrow> Some (f, Inl e) | Inr directory \<Rightarrow> open_directory grant directory f)"
      using True at by (simp add: load_directory_def bs_def [symmetric] blocks_def [symmetric] c r Let_def)
    then show ?thesis using bad open_directory_ok [OF assms(1)] by (cases r) auto
  qed
qed

lemma msf_Open_ok:
  assumes "rsize r < 2 ^ 64"
  shows "\<exists>out. msf_Open grant (Some r) = Some out \<and> msf_outcome r out"
proof -
  have bad: "msf_outcome r (msf_Reset, Inl e)" for e by (simp add: msf_outcome_def msf_Reset_def)
  show ?thesis
  proof (cases "rsize r < 56")
    case True
    then show ?thesis using bad by (simp add: msf_Open_def)
  next
    case False
    obtain magic where m: "read_bytes r 0 32 = Some magic" using False by (simp add: read_bytes_def)
    obtain bs nb nd mp where w: "ReadU32 r 32 = Some bs" "ReadU32 r 40 = Some nb" "ReadU32 r 44 = Some nd"
      "ReadU32 r 52 = Some mp"
      using False ReadU32_total [of 32 r] ReadU32_total [of 40 r] ReadU32_total [of 44 r]
        ReadU32_total [of 52 r] by auto
    define full where "full = CheckedMul (unat nb) (unat bs)"
    show ?thesis
    proof (cases "magic \<noteq> Msf7Magic \<or> \<not> msf_IsPowerOfTwo (unat bs) \<or> unat bs < 512 \<or> nb = 0 \<or> nd = 0 \<or>
        full = None \<or> the full > rsize r")
      case True
      then show ?thesis using False m w bad
        by (cases full) (auto simp: msf_Open_def full_def [symmetric])
    next
      case ok: False
      define f where "f = msf_Reset\<lparr>mdata := r, mblock_size := unat bs, mblock_count := unat nb\<rparr>"
      have b: "0 < unat bs" "unat bs \<le> 2 ^ 31" using ok power_of_two_below unat_lt2p [of bs] by auto
      have "unat nb * unat bs \<le> rsize r"
        using ok CheckedMul_Some [of "unat nb" "unat bs"] by (auto simp: full_def)
      then have "msf_fresh f" using b by (simp add: msf_fresh_def f_def msf_Reset_def)
      moreover have "unat nd < 2 ^ 32" "unat mp < 2 ^ 32" using unat_lt2p [of nd] unat_lt2p [of mp] by simp_all
      ultimately have "\<exists>out. load_directory grant (unat mp) (unat nd) f = Some out \<and> msf_outcome r out"
        using load_directory_ok [of f "unat mp" "unat nd" grant] assms by (simp add: f_def)
      moreover have "msf_Open grant (Some r) = load_directory grant (unat mp) (unat nd) f"
        using False ok m w by (auto simp: msf_Open_def full_def [symmetric] f_def [symmetric])
      ultimately show ?thesis by simp
    qed
  qed
qed

section \<open>Streams of an opened file\<close>

text \<open>Reading a stream of an opened file, on every argument.\<close>

lemma ReadStream_eq:
  assumes "msf_inv f"
  shows "ReadStream f i at d n =
    (if i \<ge> length (streams f) \<or> dsize (streams f ! i) = DeletedStream
     then Some ([], Inl (ErrorAt InvalidStream i at))
     else if \<not> d \<and> n \<noteq> 0 then Some ([], Inl (ErrorAt InvalidArgument i at))
     else if dsize (streams f ! i) < at + n then Some ([], Inl (ErrorAt OutOfBounds i at))
     else Some (map (sbyte f i) [at..<at + n], Inr ()))"
proof -
  have v: "mvalid f" using assms by (simp add: msf_inv_def)
  have range: "at > s \<or> n > s - at \<longleftrightarrow> s < at + n" for s :: nat by linarith
  show ?thesis
  proof (cases "i \<ge> length (streams f) \<or> dsize (streams f ! i) = DeletedStream \<or> dsize (streams f ! i) < at + n")
    case True
    then show ?thesis unfolding ReadStream_def range using v by auto
  next
    case False
    then have "read_stream_loop f i at at n [] = Some (map (sbyte f i) [at..<at + n], Inr ())"
      using read_stream_loop_reads [OF assms, of i at n at "[]"] by simp
    with False v show ?thesis unfolding ReadStream_def range by (simp add: read_stream_loop.simps [of f i at at 0])
  qed
qed

lemma stream_Valid_eq:
  "msf_inv f \<Longrightarrow> stream_Valid f (Some i) \<longleftrightarrow> i < length (streams f) \<and> dsize (streams f ! i) \<noteq> DeletedStream"
  by (simp add: stream_Valid_def msf_inv_def)

text \<open>The bytes of a stream.\<close>

definition stream_bytes :: "msf \<Rightarrow> nat \<Rightarrow> u8 list" where
  "stream_bytes f i = map (sbyte f i) [0..<dsize (streams f ! i)]"

lemma stream_ReadAll_eq:
  assumes "msf_inv f" and "stream_Valid f (Some i)"
  shows "stream_ReadAll grant f (Some i) =
    Some (if dsize (streams f ! i) = 0 \<or> grant 1 (dsize (streams f ! i)) then (stream_bytes f i, Inr ())
          else ([], Inl (ErrorAt AllocationFailure i 0)))"
  using assms stream_Valid_eq [OF assms(1), of i]
  by (simp add: stream_ReadAll_def stream_Size_def stream_Index_def stream_Read_def ReadStream_eq stream_bytes_def)

text \<open>C16: \<^verbatim>\<open>MsfFile::Open\<close> is safe on every file, however malformed: it reads nothing outside the bytes it is
  given and it returns. It leaves either an error and a file that is not valid, or a valid file over
  those bytes in which every stream has the blocks its size takes and every block lies inside the file.\<close>

theorem msf_Open_safe:
  assumes "rsize r < 2 ^ 64"
  shows "\<exists>f res. msf_Open grant (Some r) = Some (f, res) \<and>
    (case res of Inl e \<Rightarrow> \<not> mvalid f | Inr u \<Rightarrow> msf_inv f \<and> mdata f = r)"
  using msf_Open_ok [OF assms, of grant] by (auto simp: msf_outcome_def split: prod.splits)

text \<open>C17: after a successful \<^verbatim>\<open>Open\<close>, \<^verbatim>\<open>ReadStream\<close> never reads outside the file. It delivers the bytes of
  the stream from \<open>at\<close> on, each out of the block that holds its position, when the stream exists and
  has them, and otherwise writes nothing and says why: no such stream, a null destination, or a range
  beyond the stream's size.\<close>

theorem ReadStream_reads:
  assumes "rsize r < 2 ^ 64" and "msf_Open grant (Some r) = Some (f, Inr ())"
  shows "ReadStream f i at d n =
    (if i \<ge> length (streams f) \<or> dsize (streams f ! i) = DeletedStream
     then Some ([], Inl (ErrorAt InvalidStream i at))
     else if \<not> d \<and> n \<noteq> 0 then Some ([], Inl (ErrorAt InvalidArgument i at))
     else if dsize (streams f ! i) < at + n then Some ([], Inl (ErrorAt OutOfBounds i at))
     else Some (map (sbyte f i) [at..<at + n], Inr ()))"
proof -
  have "msf_inv f" using msf_Open_ok [OF assms(1), of grant] assms(2) by (auto simp: msf_outcome_def)
  then show ?thesis by (rule ReadStream_eq)
qed

text \<open>A file of four blocks of 512 bytes: the super block, the directory's map, the directory and the only
  stream, of three bytes.\<close>

definition sample_file :: region where
  "sample_file = \<lparr>byte_at = (\<lambda>i. if i < 32 then Msf7Magic ! i else if i = 33 then 2 else if i = 40 then 4
     else if i = 44 then 12 else if i = 52 then 1 else if i = 512 then 2 else if i = 1024 then 1
     else if i = 1028 then 3 else if i = 1032 then 3 else if i = 1536 then 10 else if i = 1537 then 20
     else if i = 1538 then 30 else 0), rsize = 2048\<rparr>"

definition sample_msf :: msf where
  "sample_msf = \<lparr>mdata = sample_file, mblock_size = 512, mblock_count = 4,
     streams = [\<lparr>dsize = 3, dbegin = 0, dcount = 1\<rparr>], stream_blocks = [3], mvalid = True\<rparr>"

lemma sample_opens: "msf_Open (\<lambda>_ _. True) (Some sample_file) = Some (sample_msf, Inr ())"
proof -
  have w: "ReadU32 sample_file 32 = Some 512" "ReadU32 sample_file 40 = Some 4" "ReadU32 sample_file 44 = Some 12"
    "ReadU32 sample_file 52 = Some 1" "ReadU32 sample_file 512 = Some 2"
    by (simp_all add: ReadU32_def read8_def sample_file_def)
  have m: "read_bytes sample_file 0 32 = Some Msf7Magic"
    by (simp add: read_bytes_def sample_file_def Msf7Magic_def upt_rec)
  have d: "read_bytes sample_file 1024 12 = Some [1, 0, 0, 0, 3, 0, 0, 0, 3, 0, 0, 0]"
    by (simp add: read_bytes_def sample_file_def upt_rec)
  have s: "rsize sample_file = 2048" by (simp add: sample_file_def)
  have p: "msf_IsPowerOfTwo 512" by (simp add: msf_IsPowerOfTwo_def)
  have c: "CheckedMul 4 512 = Some 2048" "CheckedMul 1 512 = Some 512" "CheckedMul 1 4 = Some 4"
    by (simp_all add: CheckedMul_fits)
  have a: "msf_AlignUp 12 512 = 512" "msf_AlignUp 3 512 = 512" by (simp_all add: msf_AlignUp_small)
  define f where "f = msf_Reset\<lparr>mdata := sample_file, mblock_size := 512, mblock_count := 4\<rparr>"
  have "msf_Open (\<lambda>_ _. True) (Some sample_file) = load_directory (\<lambda>_ _. True) 1 12 f"
    by (simp add: msf_Open_def s m w p c f_def)
  also have "\<dots> = open_directory (\<lambda>_ _. True) [1, 0, 0, 0, 3, 0, 0, 0, 3, 0, 0, 0] f"
    by (simp add: load_directory_def f_def c c [unfolded One_nat_def] a s w d upt_rec)
  also have "\<dots> = Some (sample_msf, Inr ())"
    by (simp add: open_directory_def region_of_def ReadU32_def read8_def f_def msf_Reset_def sample_msf_def
        blocks_of_def DeletedStream_def a upt_rec no_descriptor_def)
  finally show ?thesis .
qed

theorem msf_Open_safe_witness:
  "\<exists>f res. msf_Open (\<lambda>_ _. True) (Some sample_file) = Some (f, res) \<and>
    (case res of Inl e \<Rightarrow> \<not> mvalid f | Inr u \<Rightarrow> msf_inv f \<and> mdata f = sample_file)"
  by (rule msf_Open_safe) (simp add: sample_file_def)

theorem ReadStream_reads_witness: "ReadStream sample_msf 0 1 True 2 = Some ([20, 30], Inr ())"
  using ReadStream_reads [OF _ sample_opens, of 0 1 True 2]
  by (simp add: sample_msf_def sample_file_def sbyte_def DeletedStream_def upt_rec)

end
