(* ===== verification/Path.thy ===== *)
theory Path
  imports BasicString
begin

text \<open>
  \<^verbatim>\<open>FileSystem/Path\<close>: a path is a string of characters, here the string of theory BasicString with its
  storage, and the operations are the source's loops over string views, the vector of components and
  the appends to the result, each of which the allocator can refuse. A view of the path is the list
  of its characters.
\<close>

type_synonym path = "u8 bstr"

definition backslash :: u8 where "backslash = 92"
definition slash :: u8 where "slash = 47"
definition dot :: u8 where "dot = 46"

definition text_of :: "path \<Rightarrow> u8 list" where
  "text_of p = chars (str_View p)"

definition path_allocator :: "path \<Rightarrow> bool" where
  "path_allocator p = has_alloc (storage p)"

text \<open>\<^verbatim>\<open>Path{Allocator}\<close> and \<^verbatim>\<open>Path{Text, Allocator}\<close>: the constructors ignore the result of \<open>Assign\<close>.\<close>

definition path_empty :: "bool \<Rightarrow> path" where
  "path_empty al = str_empty 1 al"

definition path_make :: "(nat \<Rightarrow> bool) \<Rightarrow> bool \<Rightarrow> u8 list \<Rightarrow> path option" where
  "path_make alloc al text = do { (p, _) \<leftarrow> str_Assign alloc (path_empty al) (map Temp text); Some p }"

definition path_Empty :: "path \<Rightarrow> bool" where
  "path_Empty p \<longleftrightarrow> bsize p = 0"

definition path_IsAbsolute :: "path \<Rightarrow> bool" where
  "path_IsAbsolute p \<longleftrightarrow> \<not> path_Empty p \<and> str_Front p = Some backslash"

definition path_IsRoot :: "path \<Rightarrow> bool" where
  "path_IsRoot p \<longleftrightarrow> text_of p = [backslash]"

section \<open>Components\<close>

function scan_while :: "(u8 \<Rightarrow> bool) \<Rightarrow> u8 list \<Rightarrow> nat \<Rightarrow> nat" where
  "scan_while P text i = (if i < length text \<and> P (text ! i) then scan_while P text (Suc i) else i)"
  by pat_completeness auto
termination
  by (relation "measure (\<lambda>(P, text, i). length text - i)") auto

declare scan_while.simps [simp del]

lemma scan_while_ge: "i \<le> scan_while P text i"
  by (induction P "text" i rule: scan_while.induct) (subst scan_while.simps, auto)

lemma scan_while_stop: "scan_while P text i < length text \<Longrightarrow> \<not> P (text ! scan_while P text i)"
proof (induction P "text" i rule: scan_while.induct)
  case (1 P cs i)
  then show ?case by (cases "i < length cs \<and> P (cs ! i)") (auto simp: scan_while.simps [of P cs i])
qed

text \<open>The loop that \<open>Components\<close> and \<open>Normalized\<close> share: what is done with a part between separators is
  \<open>f\<close>, which gives the new state and whether to go on. A result of \<open>False\<close> is an early return.\<close>

function split_loop ::
  "(u8 \<Rightarrow> bool) \<Rightarrow> (u8 list \<Rightarrow> 's \<Rightarrow> ('s \<times> bool) option) \<Rightarrow> u8 list \<Rightarrow> nat \<Rightarrow> 's \<Rightarrow> ('s \<times> bool) option" where
  "split_loop separator f text start s =
     (if start < length text then
        (let first = scan_while separator text start
         in if first \<ge> length text then Some (s, True)
            else
              (let stop = scan_while (\<lambda>c. \<not> separator c) text first
               in case f (chars (view_Substr (Some text) first (stop - first))) s of
                    None \<Rightarrow> None
                  | Some (s, ok) \<Rightarrow>
                      if \<not> ok then Some (s, False) else split_loop separator f text stop s))
      else Some (s, True))"
  by pat_completeness auto
termination
proof (relation "measure (\<lambda>(separator, f, text, start, s). length text - start)")
  fix separator and f :: "u8 list \<Rightarrow> 's \<Rightarrow> ('s \<times> bool) option" and cs :: "u8 list" and start s
    and first stop y s' ok
  assume a: "start < length cs" "first = scan_while separator cs start" "\<not> length cs \<le> first"
    "stop = scan_while (\<lambda>c. \<not> separator c) cs first"
  then have less: "first < length cs" by simp
  with a(2) have "\<not> separator (cs ! first)" using scan_while_stop [of separator cs start] by simp
  with less have "scan_while (\<lambda>c. \<not> separator c) cs first = scan_while (\<lambda>c. \<not> separator c) cs (Suc first)"
    by (subst scan_while.simps) simp
  with a(4) have "stop = scan_while (\<lambda>c. \<not> separator c) cs (Suc first)" by simp
  then have "first < stop" using scan_while_ge Suc_le_eq by metis
  moreover have "start \<le> first" unfolding a(2) by (rule scan_while_ge)
  ultimately show "((separator, f, cs, stop, s'), separator, f, cs, start, s)
      \<in> measure (\<lambda>(separator, f, cs, start, s). length cs - start)" using a by simp
qed simp

declare split_loop.simps [simp del]

text \<open>A range-based \<^verbatim>\<open>for\<close> whose body can return early.\<close>

fun each :: "('x \<Rightarrow> 's \<Rightarrow> ('s \<times> bool) option) \<Rightarrow> 'x list \<Rightarrow> 's \<Rightarrow> ('s \<times> bool) option" where
  "each f [] s = Some (s, True)"
| "each f (x # xs) s = do { (s, ok) \<leftarrow> f x s; if ok then each f xs s else Some (s, False) }"

text \<open>A vector of views: a view is a pointer and a size, 16 bytes.\<close>

definition path_Components :: "(nat \<Rightarrow> bool) \<Rightarrow> path \<Rightarrow> u8 list vec option" where
  "path_Components alloc p =
     do { (v, ok) \<leftarrow> split_loop (\<lambda>c. c = backslash) (\<lambda>part v. vec_PushBack alloc v (Temp part))
                     (text_of p) 0 (vec_empty 16 (path_allocator p));
          if \<not> ok then vec_Clear v else Some v }"

section \<open>Normalisation\<close>

definition normalize_part ::
  "(nat \<Rightarrow> bool) \<Rightarrow> bool \<Rightarrow> u8 list \<Rightarrow> u8 list vec \<Rightarrow> (u8 list vec \<times> bool) option" where
  "normalize_part alloc absolute part v =
     (if part = [dot] then Some (v, True)
      else if part = [dot, dot] then
        (if vsize v \<noteq> 0 then do { (v, _) \<leftarrow> vec_PopBack v; Some (v, True) }
         else if \<not> absolute then vec_PushBack alloc v (Temp part)
         else Some (v, True))
      else vec_PushBack alloc v (Temp part))"

definition append_component :: "(nat \<Rightarrow> bool) \<Rightarrow> u8 list \<Rightarrow> path \<Rightarrow> (path \<times> bool) option" where
  "append_component alloc part r =
     do { (r, ok) \<leftarrow> (if bsize r \<noteq> 0 \<and> str_Back r \<noteq> Some backslash
                     then str_AppendChar alloc r backslash else Some (r, True));
          if \<not> ok then Some (r, False) else str_Append alloc r (map Temp part) }"

definition is_separator :: "u8 \<Rightarrow> bool" where
  "is_separator c \<longleftrightarrow> c = backslash \<or> c = slash"

text \<open>\<open>normalize_onto\<close> is \<open>Normalized\<close> once the result \<open>r\<close> has its leading separator.\<close>

definition normalize_onto :: "(nat \<Rightarrow> bool) \<Rightarrow> path \<Rightarrow> bool \<Rightarrow> path \<Rightarrow> path option" where
  "normalize_onto alloc p absolute r =
     do { (v, ok) \<leftarrow> split_loop is_separator (normalize_part alloc absolute) (text_of p) 0
                      (vec_empty 16 (path_allocator p));
          if \<not> ok then Some (path_empty (path_allocator p))
          else
            do { (r, ok) \<leftarrow> each (append_component alloc) (vec_items v) r;
                 if \<not> ok then Some (path_empty (path_allocator p))
                 else if path_Empty r \<and> absolute then
                   do { (r, ok) \<leftarrow> str_AppendChar alloc r backslash;
                        Some (if ok then r else path_empty (path_allocator p)) }
                 else Some r } }"

definition path_Normalized :: "(nat \<Rightarrow> bool) \<Rightarrow> path \<Rightarrow> path option" where
  "path_Normalized alloc p =
     (let absolute = path_IsAbsolute p
      in do { (r, ok) \<leftarrow> (if absolute then str_AppendChar alloc (path_empty (path_allocator p)) backslash
                         else Some (path_empty (path_allocator p), True));
              if \<not> ok then Some (path_empty (path_allocator p)) else normalize_onto alloc p absolute r })"

section \<open>Joining\<close>

text \<open>Both forms of \<open>Join\<close> on a copy \<open>r\<close> of the left path.\<close>

definition join_right :: "(nat \<Rightarrow> bool) \<Rightarrow> bool \<Rightarrow> path \<Rightarrow> u8 list \<Rightarrow> path option" where
  "join_right alloc al r right =
     do { (r, ok) \<leftarrow> (if text_of r = [] \<or> last (text_of r) \<noteq> backslash
                     then str_AppendChar alloc r backslash else Some (r, True));
          if \<not> ok then Some (path_empty al)
          else
            do { (r, ok) \<leftarrow> str_Append alloc r (map Temp right);
                 if \<not> ok then Some (path_empty al) else path_Normalized alloc r } }"

definition path_Join :: "(nat \<Rightarrow> bool) \<Rightarrow> path \<Rightarrow> path \<Rightarrow> path option" where
  "path_Join alloc p other =
     (if path_Empty p then path_make alloc (path_allocator p) (text_of other)
      else if path_Empty other then path_make alloc (path_allocator p) (text_of p)
      else
        do { r \<leftarrow> path_make alloc (path_allocator p) (text_of p);
             join_right alloc (path_allocator p) r (text_of other) })"

text \<open>The static form takes an allocator, \<open>al\<close> whether it is valid, and falls back on those of the two
  paths.\<close>

definition path_JoinWith :: "(nat \<Rightarrow> bool) \<Rightarrow> path \<Rightarrow> path \<Rightarrow> bool \<Rightarrow> path option" where
  "path_JoinWith alloc left right al =
     (let al = (if \<not> al then (if path_allocator left then path_allocator left else path_allocator right)
                else al)
      in if path_Empty left then path_make alloc al (text_of right)
         else if path_Empty right then path_make alloc al (text_of left)
         else do { r \<leftarrow> path_make alloc al (text_of left); join_right alloc al r (text_of right) })"

section \<open>Names\<close>

definition path_Parent :: "(nat \<Rightarrow> bool) \<Rightarrow> path \<Rightarrow> path option" where
  "path_Parent alloc p =
     do { q \<leftarrow> path_Normalized alloc p;
          if path_Empty q \<or> path_IsRoot q then Some q
          else
            do { at \<leftarrow> view_FindLastChar (str_View q) backslash NotFound;
                 if at = NotFound then Some (path_empty (path_allocator p))
                 else if at = 0 then path_make alloc (path_allocator p) [backslash]
                 else path_make alloc (path_allocator p) (chars (view_Substr (str_View q) 0 at)) } }"

definition path_FileName :: "path \<Rightarrow> u8 view option" where
  "path_FileName p =
     (if view_size (str_View p) = 0 \<or> path_IsRoot p then Some None
      else
        do { at \<leftarrow> view_FindLastChar (str_View p) backslash NotFound;
             Some (if at = NotFound then str_View p else view_Substr (str_View p) (at + 1) NotFound) })"

definition path_Extension :: "path \<Rightarrow> u8 view option" where
  "path_Extension p =
     do { name \<leftarrow> path_FileName p;
          at \<leftarrow> view_FindLastChar name dot NotFound;
          Some (if at = NotFound then None else view_Substr name (at + 1) NotFound) }"

definition path_Stem :: "path \<Rightarrow> u8 view option" where
  "path_Stem p =
     do { name \<leftarrow> path_FileName p;
          at \<leftarrow> view_FindLastChar name dot NotFound;
          Some (if at = NotFound then name else view_Substr name 0 at) }"

fun count_names :: "bool \<Rightarrow> u8 list \<Rightarrow> nat" where
  "count_names in_name [] = 0"
| "count_names in_name (c # cs) =
     (if is_separator c then count_names False cs
      else if \<not> in_name then Suc (count_names True cs)
      else count_names in_name cs)"

definition path_NameCount :: "path \<Rightarrow> nat" where
  "path_NameCount p = count_names False (text_of p)"

definition path_HasExtension :: "path \<Rightarrow> bool option" where
  "path_HasExtension p = do { e \<leftarrow> path_Extension p; Some (view_size e \<noteq> 0) }"

definition append_extension :: "(nat \<Rightarrow> bool) \<Rightarrow> bool \<Rightarrow> path \<Rightarrow> u8 list \<Rightarrow> path option" where
  "append_extension alloc al r extension =
     (if extension = [] then Some r
      else
        do { (r, ok) \<leftarrow> str_AppendChar alloc r dot;
             if \<not> ok then Some (path_empty al)
             else
               do { (r, ok) \<leftarrow> str_Append alloc r (map Temp extension);
                    Some (if ok then r else path_empty al) } })"

text \<open>\<open>NameOffset\<close> is where the name starts in the path.\<close>

definition path_ReplaceExtension :: "(nat \<Rightarrow> bool) \<Rightarrow> path \<Rightarrow> u8 list \<Rightarrow> path option" where
  "path_ReplaceExtension alloc p extension =
     do { r \<leftarrow> path_make alloc (path_allocator p) (text_of p);
          name \<leftarrow> path_FileName p;
          at \<leftarrow> view_FindLastChar name dot NotFound;
          if at = NotFound then append_extension alloc (path_allocator p) r extension
          else
            do { let name_offset = length (text_of p) - view_size name;
                 r \<leftarrow> str_Substr alloc r 0 (name_offset + at);
                 append_extension alloc (path_allocator p) r extension } }"

definition path_RemoveExtension :: "(nat \<Rightarrow> bool) \<Rightarrow> path \<Rightarrow> path option" where
  "path_RemoveExtension alloc p = path_ReplaceExtension alloc p []"

text \<open>In \<open>RelativeTo\<close> the vectors of components hold views into temporaries, the results of \<open>Normalized\<close>, that
  are gone at the end of the statement: reading a character of such a view has no result. The views
  themselves, their sizes and their number, are still there.\<close>

definition read_gone :: "u8 list \<Rightarrow> u8 list option" where
  "read_gone part = (if part = [] then Some [] else None)"

fun common_gone :: "u8 list list \<Rightarrow> u8 list list \<Rightarrow> nat option" where
  "common_gone (x # xs) (y # ys) =
     do { a \<leftarrow> read_gone x; b \<leftarrow> read_gone y;
          if a = b then map_option Suc (common_gone xs ys) else Some 0 }"
| "common_gone _ _ = Some 0"

definition join_text :: "(nat \<Rightarrow> bool) \<Rightarrow> u8 list \<Rightarrow> path \<Rightarrow> (path \<times> bool) option" where
  "join_text alloc part r =
     do { q \<leftarrow> path_make alloc False part; r \<leftarrow> path_Join alloc r q; Some (r, True) }"

definition path_RelativeTo :: "(nat \<Rightarrow> bool) \<Rightarrow> path \<Rightarrow> path \<Rightarrow> path option" where
  "path_RelativeTo alloc p base =
     do { target \<leftarrow> path_Normalized alloc p;
          target \<leftarrow> path_Components alloc target;
          base \<leftarrow> path_make alloc (path_allocator p) (text_of base);
          base \<leftarrow> path_Normalized alloc base;
          base \<leftarrow> path_Components alloc base;
          n \<leftarrow> common_gone (vec_items target) (vec_items base);
          (r, _) \<leftarrow> each (join_text alloc) (replicate (vsize base - n) [dot, dot])
                    (path_empty (path_allocator p));
          (r, _) \<leftarrow> each (\<lambda>part r. do { part \<leftarrow> read_gone part; join_text alloc part r })
                    (drop n (vec_items target)) r;
          Some r }"

section \<open>The parts of a text\<close>

function parts :: "(u8 \<Rightarrow> bool) \<Rightarrow> u8 list \<Rightarrow> u8 list list" where
  "parts P [] = []"
| "parts P (c # cs) =
     (if P c then parts P cs
      else (c # takeWhile (\<lambda>c. \<not> P c) cs) # parts P (dropWhile (\<lambda>c. \<not> P c) cs))"
  by pat_completeness auto
termination
  by (relation "measure (\<lambda>(P, cs). length cs)") (auto simp: less_Suc_eq_le length_dropWhile_le)

lemma parts_dropWhile: "parts P (dropWhile P cs) = parts P cs"
  by (induction cs) auto

lemma parts_nonempty: "part \<in> set (parts P cs) \<Longrightarrow> part \<noteq> [] \<and> (\<forall>c \<in> set part. \<not> P c)"
proof (induction P cs rule: parts.induct)
  case (2 P c cs)
  show ?case
  proof (cases "P c")
    case True
    from 2(3) have "part \<in> set (parts P cs)" by (simp only: parts.simps True if_True)
    then show ?thesis by (rule 2(1) [OF True])
  next
    case False
    from 2(3) have "part = c # takeWhile (\<lambda>c. \<not> P c) cs \<or> part \<in> set (parts P (dropWhile (\<lambda>c. \<not> P c) cs))"
      by (simp only: parts.simps False if_False list.set insert_iff)
    then show ?thesis
    proof
      assume "part = c # takeWhile (\<lambda>c. \<not> P c) cs"
      with False show ?thesis using set_takeWhileD by fastforce
    qed (rule 2(2) [OF False])
  qed
qed (simp only: parts.simps list.set empty_iff)

lemma parts_length: "length (concat (parts P cs)) \<le> length cs"
proof (induction P cs rule: parts.induct)
  case (2 P c cs)
  have "length cs = length (takeWhile (\<lambda>c. \<not> P c) cs) + length (dropWhile (\<lambda>c. \<not> P c) cs)"
    by (simp flip: length_append)
  with 2 show ?case by (cases "P c") simp_all
qed simp

lemma scan_while_eq:
  "i \<le> length cs \<Longrightarrow> scan_while P cs i = i + length (takeWhile P (drop i cs))"
proof (induction P cs i rule: scan_while.induct)
  case (1 P cs i)
  show ?case
  proof (cases "i < length cs")
    case True
    then have "drop i cs = cs ! i # drop (Suc i) cs" by (simp add: Cons_nth_drop_Suc)
    with 1 True show ?thesis by (subst scan_while.simps) simp
  qed (use 1(2) in \<open>simp add: scan_while.simps\<close>)
qed

lemma drop_scan: "i \<le> length cs \<Longrightarrow> drop (scan_while P cs i) cs = dropWhile P (drop i cs)"
  by (simp add: scan_while_eq dropWhile_eq_drop add.commute)

lemma scan_while_le: "i \<le> length cs \<Longrightarrow> scan_while P cs i \<le> length cs"
  using length_takeWhile_le [of P "drop i cs"] by (simp add: scan_while_eq)

lemma split_loop_each:
  assumes "length cs < NotFound"
  shows "start \<le> length cs \<Longrightarrow> split_loop P f cs start s = each f (parts P (drop start cs)) s"
proof (induction "length cs - start" arbitrary: start s rule: less_induct)
  case less
  let ?first = "scan_while P cs start"
  let ?stop = "scan_while (\<lambda>c. \<not> P c) cs ?first"
  have drop: "dropWhile P (drop start cs) = drop ?first cs" using drop_scan [OF less.prems] by simp
  then have parts: "parts P (drop start cs) = parts P (drop ?first cs)"
    using parts_dropWhile [of P "drop start cs"] by simp
  show ?case
  proof (cases "?first < length cs")
    case False
    with parts show ?thesis by (simp add: split_loop.simps [of P f cs start s])
  next
    case True
    have start: "start < length cs" using scan_while_ge [of start P cs] True by linarith
    have head: "\<not> P (cs ! ?first)" by (rule scan_while_stop [OF True])
    have hd: "drop ?first cs = cs ! ?first # drop (Suc ?first) cs" using True by (simp add: Cons_nth_drop_Suc)
    have stop: "?stop = Suc ?first + length (takeWhile (\<lambda>c. \<not> P c) (drop (Suc ?first) cs))"
      using True head by (subst scan_while.simps) (simp add: scan_while_eq)
    have le: "?stop \<le> length cs" by (rule scan_while_le [OF less_imp_le [OF True]])
    let ?part = "cs ! ?first # takeWhile (\<lambda>c. \<not> P c) (drop (Suc ?first) cs)"
    have part: "chars (view_Substr (Some cs) ?first (?stop - ?first)) = ?part"
    proof -
      have "take (?stop - ?first) (drop ?first cs) = ?part"
        unfolding hd stop by (simp add: takeWhile_eq_take [symmetric])
      then show ?thesis using le True assms by (auto simp: view_Substr_def chars_def view_size_def Let_def)
    qed
    have rest: "parts P (drop ?first cs) = ?part # parts P (drop ?stop cs)"
    proof -
      have "dropWhile (\<lambda>c. \<not> P c) (drop (Suc ?first) cs) = drop ?stop cs"
        unfolding stop dropWhile_eq_drop drop_drop by (subst add.commute) (rule refl)
      then show ?thesis unfolding hd by (simp only: parts.simps head if_False)
    qed
    have IH: "split_loop P f cs ?stop s' = each f (parts P (drop ?stop cs)) s'" for s'
      using less.hyps [of ?stop s'] start stop scan_while_ge [of start P cs] le by simp
    have "split_loop P f cs start s = (case f ?part s of None \<Rightarrow> None
        | Some (s, ok) \<Rightarrow> if \<not> ok then Some (s, False) else split_loop P f cs ?stop s)"
      using start True part by (subst split_loop.simps) (simp add: Let_def)
    then show ?thesis
      by (cases "f ?part s") (auto simp: parts rest IH)
  qed
qed

lemma PushBack_obj:
  assumes "vec_obj v xs"
  shows "vec_PushBack (machine mem) v (Temp x) = Some (v, False) \<or>
    (\<exists>v'. vec_PushBack (machine mem) v (Temp x) = Some (v', True) \<and> vec_obj v' (xs @ [x]))"
proof -
  have v: "vec_rep v xs" "has_alloc v" "vcap v < 2 ^ 63" using assms by (auto simp: vec_obj_def)
  from vec_PushBack_rep [OF v(1), of "machine mem" x] v(3) room_allocator [OF v(2)]
  show ?thesis using vec_obj_next [OF assms] by auto
qed

lemma PopBack_obj:
  assumes "vec_obj v xs" and "xs \<noteq> []"
  shows "\<exists>v'. vec_PopBack v = Some (v', True) \<and> vec_obj v' (butlast xs)"
  using vec_PopBack_rep [OF vec_obj_rep [OF assms(1)] assms(2)] vec_obj_kept [OF assms(1)] by blast

text \<open>\<open>refining R f g\<close>: the body \<open>f\<close> keeps the relation to an abstract state, on which it acts as \<open>g\<close>, or
  it returns early.\<close>

definition refining :: "('s \<Rightarrow> 'a \<Rightarrow> bool) \<Rightarrow> ('x \<Rightarrow> 's \<Rightarrow> ('s \<times> bool) option) \<Rightarrow> ('x \<Rightarrow> 'a \<Rightarrow> 'a) \<Rightarrow> 'x set \<Rightarrow> bool" where
  "refining R f g X \<longleftrightarrow> (\<forall>x \<in> X. \<forall>s a. R s a \<longrightarrow>
     (\<exists>s'. f x s = Some (s', False)) \<or> (\<exists>s'. f x s = Some (s', True) \<and> R s' (g x a)))"

lemma each_refines:
  assumes "refining R f g X" and "set xs \<subseteq> X" and "R s a"
  shows "(\<exists>s'. each f xs s = Some (s', False)) \<or> (\<exists>s'. each f xs s = Some (s', True) \<and> R s' (fold g xs a))"
  using assms(2,3)
proof (induction xs arbitrary: s a)
  case (Cons x xs)
  from assms(1) Cons.prems consider s' where "f x s = Some (s', False)"
    | s' where "f x s = Some (s', True)" "R s' (g x a)"
    unfolding refining_def by (metis list.set_intros(1) subsetD)
  then show ?case
  proof cases
    case 2
    with Cons.IH [of s' "g x a"] Cons.prems(1) show ?thesis by simp
  qed simp
qed simp

section \<open>The normal form\<close>

text \<open>What a part does to the components before it.\<close>

definition resolve :: "bool \<Rightarrow> u8 list \<Rightarrow> u8 list list \<Rightarrow> u8 list list" where
  "resolve absolute part ps =
     (if part = [dot] then ps
      else if part = [dot, dot] then (if ps \<noteq> [] then butlast ps else if absolute then ps else ps @ [part])
      else ps @ [part])"

lemma normalize_part_refines: "refining vec_obj (normalize_part (machine mem) absolute) (resolve absolute) UNIV"
proof -
  have "(\<exists>s'. normalize_part (machine mem) absolute part v = Some (s', False)) \<or>
      (\<exists>s'. normalize_part (machine mem) absolute part v = Some (s', True) \<and> vec_obj s' (resolve absolute part ps))"
    if v: "vec_obj v ps" for part v ps
  proof -
    have "vsize v = length ps" using vec_repD [OF vec_obj_rep [OF v]] by simp
    then show ?thesis
      using PushBack_obj [OF v, of mem part] PopBack_obj [OF v] v
      by (cases "part = [dot]"; cases "part = [dot, dot]"; cases "ps = []"; cases absolute)
        (auto simp: normalize_part_def resolve_def)
  qed
  then show ?thesis by (simp add: refining_def)
qed

text \<open>A path object and its text: a string with storage, or an empty one without.\<close>

definition path_like :: "path \<Rightarrow> u8 list \<Rightarrow> bool" where
  "path_like p cs \<longleftrightarrow> str_obj p cs \<or> str_null p \<and> cs = []"

lemma path_like_storage: "path_like p cs \<Longrightarrow> \<exists>xs. vec_obj (storage p) xs \<and> bsize p = length cs"
  by (auto simp: path_like_def str_obj_def str_null_def)

lemma path_like_text: "path_like p cs \<Longrightarrow> str_View p = Some cs \<and> text_of p = cs \<and> bsize p = length cs \<and> path_allocator p"
  using str_obj_View [of p cs]
  by (auto simp: path_like_def text_of_def chars_def str_null_def str_View_def str_CStr_def
      path_allocator_def str_obj_def vec_obj_def)

lemma path_like_empty: "path_like (path_empty True) []"
  by (simp add: path_like_def str_null_def path_empty_def str_empty_def vec_empty_def vec_obj_def vec_rep_def)

lemma finished_cases: "finished mem s q r ds \<Longrightarrow> r = Some (s, False) \<or> (\<exists>s'. r = Some (s', True) \<and> str_obj s' ds)"
  by (auto simp: finished_def)

lemma AppendChar_null:
  assumes "vec_obj (storage p) []" and "bsize p = 0"
  shows "finished mem p (request_more (storage p) 2) (str_AppendChar (machine mem) p c) [c :: u8]"
proof -
  have "finished mem p (request_more (storage p) (length [c] + 1))
    (do { (v, ok) \<leftarrow> vec_Resize (machine mem) (storage p) (length [c] + 1) (Temp 0);
          if \<not> ok then Some (p\<lparr>storage := v\<rparr>, False)
          else
            do { v \<leftarrow> storage_set v 0 c;
                 v \<leftarrow> storage_set v (length [c]) 0;
                 Some (\<lparr>storage = v, bsize = length [c]\<rparr>, True) } }) [c]"
  proof (rule resize_fill [OF assms(1)])
    fix v :: "u8 vec" assume "vec_rep v (take (length [c] + 1) [] @ replicate (length [c] + 1 - length []) 0)"
    then have "vec_rep v [0, 0 :: u8]" by (simp add: numeral_2_eq_2)
    from storage_set_rep [OF this, of 0 c]
    show "\<exists>v' ys. storage_set v 0 c = Some v' \<and> vec_rep v' ys \<and>
        length ys = length [c] + 1 \<and> take (length [c]) ys = [c] \<and> vec_kept v v'"
      by fastforce
  qed
  moreover have "usz (Suc (Suc 0)) = Suc (Suc 0)" by (rule usz_small) simp
  ultimately show ?thesis using assms(2)
    by (simp add: str_AppendChar_def numeral_2_eq_2 cong: if_cong)
qed

lemma path_AppendChar:
  assumes "path_like p cs"
  shows "(\<exists>q. str_AppendChar (machine mem) p c = Some (q, False)) \<or>
    (\<exists>q. str_AppendChar (machine mem) p c = Some (q, True) \<and> path_like q (cs @ [c]))"
proof (cases "str_obj p cs")
  case True
  from finished_cases [OF str_AppendChar_obj [OF True]] show ?thesis by (auto simp: path_like_def)
next
  case False
  then have null: "vec_obj (storage p) []" "bsize p = 0" "cs = []" using assms by (auto simp: path_like_def str_null_def)
  from finished_cases [OF AppendChar_null [OF null(1,2)]] null show ?thesis by (auto simp: path_like_def)
qed

lemma path_Append:
  assumes "path_like p cs" and "length ds < 2 ^ 63"
  shows "(\<exists>q. str_Append (machine mem) p (map Temp ds) = Some (q, False)) \<or>
    (\<exists>q. str_Append (machine mem) p (map Temp ds) = Some (q, True) \<and> path_like q (cs @ ds))"
proof (cases "str_obj p cs")
  case True
  from finished_cases [OF str_Append_obj [OF True assms(2)]] show ?thesis by (auto simp: path_like_def)
next
  case False
  then have null: "vec_obj (storage p) []" "bsize p = 0" "cs = []" using assms by (auto simp: path_like_def str_null_def)
  show ?thesis
  proof (cases "ds = []")
    case True
    with assms null show ?thesis by (simp add: str_Append_def)
  next
    case False
    from finished_cases [OF str_Assign_obj [OF null(1), of ds mem]] assms(2) False null
    show ?thesis by (auto simp: path_like_def str_Append_def str_Assign_def Let_def cong: if_cong)
  qed
qed

lemma path_make_like:
  assumes "length ds < 2 ^ 63"
  shows "\<exists>p. path_make (machine mem) True ds = Some p \<and> (path_like p [] \<or> path_like p ds)"
proof -
  have "vec_obj (storage (path_empty True)) []" using path_like_storage [OF path_like_empty]
    by (simp add: path_empty_def str_empty_def vec_empty_def vec_obj_def vec_rep_def)
  from finished_cases [OF str_Assign_obj [OF this, of ds mem]] assms path_like_empty
  show ?thesis by (auto simp: path_make_def path_like_def)
qed

lemma path_like_Back: "path_like p cs \<Longrightarrow> cs \<noteq> [] \<Longrightarrow> str_Back p = Some (last cs)"
  by (auto simp: path_like_def str_Back_def str_obj_def vec_obj_def storage_get_rep nth_append last_conv_nth)

lemma path_like_absolute: "path_like p cs \<Longrightarrow> path_IsAbsolute p \<longleftrightarrow> cs \<noteq> [] \<and> hd cs = backslash"
  by (cases cs) (auto simp: path_IsAbsolute_def path_Empty_def path_like_def str_null_def str_Front_def str_obj_def
      vec_obj_def storage_get_rep)

definition add_part :: "u8 list \<Rightarrow> u8 list \<Rightarrow> u8 list" where
  "add_part part cs = (if cs \<noteq> [] \<and> last cs \<noteq> backslash then cs @ [backslash] else cs) @ part"

lemma append_component_refines:
  "refining path_like (append_component (machine mem)) add_part {part. length part < 2 ^ 63}"
proof -
  have "(\<exists>q. append_component (machine mem) part p = Some (q, False)) \<or>
      (\<exists>q. append_component (machine mem) part p = Some (q, True) \<and> path_like q (add_part part cs))"
    if p: "path_like p cs" and "length part < 2 ^ 63" for part p cs
  proof (cases "cs \<noteq> [] \<and> last cs \<noteq> backslash")
    case True
    with p have c: "bsize p \<noteq> 0" "str_Back p \<noteq> Some backslash" using path_like_text [OF p] path_like_Back [OF p] by auto
    from path_AppendChar [OF p, of mem backslash] show ?thesis
    proof (elim disjE exE conjE)
      fix q assume "str_AppendChar (machine mem) p backslash = Some (q, True)" "path_like q (cs @ [backslash])"
      with path_Append [OF this(2) that(2), of mem] c True show ?thesis
        by (auto simp: append_component_def add_part_def)
    qed (use c in \<open>simp add: append_component_def\<close>)
  next
    case False
    then have "cs = [] \<or> str_Back p = Some backslash" using path_like_Back [OF p] by metis
    with path_like_text [OF p] have "\<not> (bsize p \<noteq> 0 \<and> str_Back p \<noteq> Some backslash)" by auto
    with path_Append [OF that, of mem] False show ?thesis
      by (auto simp: append_component_def add_part_def)
  qed
  then show ?thesis by (simp add: refining_def)
qed

definition absolute_text :: "u8 list \<Rightarrow> bool" where
  "absolute_text cs \<longleftrightarrow> cs \<noteq> [] \<and> hd cs = backslash"

definition normal_parts :: "u8 list \<Rightarrow> u8 list list" where
  "normal_parts cs = fold (resolve (absolute_text cs)) (parts is_separator cs) []"

definition normal :: "u8 list \<Rightarrow> u8 list" where
  "normal cs = fold add_part (normal_parts cs) (if absolute_text cs then [backslash] else [])"

lemma resolve_set: "set (fold (resolve absolute) xs ps) \<subseteq> set ps \<union> set xs"
  by (induction xs arbitrary: ps) (fastforce simp: resolve_def dest: in_set_butlastD split: if_splits)+

lemma part_length: "part \<in> set (parts P cs) \<Longrightarrow> length part \<le> length cs"
proof -
  assume "part \<in> set (parts P cs)"
  then have "length part \<le> sum_list (map length (parts P cs))" by (simp add: member_le_sum_list)
  with parts_length [of P cs] show ?thesis by (simp add: length_concat)
qed

lemma normal_parts_bound: "part \<in> set (normal_parts cs) \<Longrightarrow> length part \<le> length cs"
  using resolve_set [of "absolute_text cs" "parts is_separator cs" "[]"] part_length
  by (auto simp: normal_parts_def)

lemma normalize_onto_like:
  assumes "path_like p cs" and "length cs < 2 ^ 63" and "absolute = absolute_text cs"
    and "path_like r (if absolute then [backslash] else [])"
  shows "\<exists>r'. normalize_onto (machine mem) p absolute r = Some r' \<and> (r' = path_empty True \<or> path_like r' (normal cs))"
proof -
  note p = path_like_text [OF assms(1)]
  have v0: "vec_obj (vec_empty 16 True :: u8 list vec) []"
    by (simp add: vec_obj_def vec_rep_def vec_empty_def)
  have split: "split_loop is_separator (normalize_part (machine mem) absolute) cs 0 (vec_empty 16 True) =
      each (normalize_part (machine mem) absolute) (parts is_separator cs) (vec_empty 16 True)"
    using assms(2) by (subst split_loop_each) (simp_all add: size_max_def)
  note onto = normalize_onto_def split
  from each_refines [OF normalize_part_refines subset_UNIV v0, of mem absolute "parts is_separator cs"] show ?thesis
  proof (elim disjE exE conjE)
    fix v assume v: "each (normalize_part (machine mem) absolute) (parts is_separator cs) (vec_empty 16 True) = Some (v, True)"
      "vec_obj v (fold (resolve absolute) (parts is_separator cs) [])"
    have items: "vec_items v = normal_parts cs"
      using vec_rep_items [OF vec_obj_rep [OF v(2)]] by (simp add: normal_parts_def assms(3))
    have "set (normal_parts cs) \<subseteq> {part. length part < 2 ^ 63}"
      using normal_parts_bound assms(2) by fastforce
    from each_refines [OF append_component_refines this assms(4), of mem] show ?thesis
    proof (elim disjE exE conjE)
      fix q assume q: "each (append_component (machine mem)) (normal_parts cs) r = Some (q, True)"
        "path_like q (fold add_part (normal_parts cs) (if absolute then [backslash] else []))"
      have "xs \<noteq> [] \<Longrightarrow> fold add_part ps xs \<noteq> []" for ps xs
        by (induction ps arbitrary: xs) (auto simp: add_part_def)
      then have "\<not> (path_Empty q \<and> absolute)" using path_like_text [OF q(2)] by (auto simp: path_Empty_def)
      moreover have "path_like q (normal cs)" using q(2) by (simp add: normal_def assms(3))
      ultimately show ?thesis using p v(1) items q(1) by (auto simp: onto)
    qed (use p v(1) items in \<open>simp add: onto\<close>)
  qed (use p in \<open>simp add: onto\<close>)
qed

lemma path_Normalized_like:
  assumes "path_like p cs" and "length cs < 2 ^ 63"
  shows "\<exists>r. path_Normalized (machine mem) p = Some r \<and> (r = path_empty True \<or> path_like r (normal cs))"
proof -
  have abs: "path_IsAbsolute p = absolute_text cs" using path_like_absolute [OF assms(1)] by (simp add: absolute_text_def)
  show ?thesis
  proof (cases "absolute_text cs")
    case False
    with normalize_onto_like [OF assms refl, of "path_empty True" mem] path_like_empty path_like_text [OF assms(1)] abs
    show ?thesis by (simp add: path_Normalized_def)
  next
    case True
    from path_AppendChar [OF path_like_empty, of mem backslash] show ?thesis
    proof (elim disjE exE conjE)
      fix q assume "str_AppendChar (machine mem) (path_empty True) backslash = Some (q, True)" "path_like q ([] @ [backslash])"
      with normalize_onto_like [OF assms refl, of q mem] True path_like_text [OF assms(1)] abs
      show ?thesis by (simp add: path_Normalized_def)
    qed (use True path_like_text [OF assms(1)] abs in \<open>simp add: path_Normalized_def\<close>)
  qed
qed

section \<open>The normal form is canonical\<close>

definition stack_ok :: "bool \<Rightarrow> u8 list list \<Rightarrow> bool" where
  "stack_ok absolute ps \<longleftrightarrow> (\<forall>i < length ps. ps ! i \<noteq> [dot] \<and> (ps ! i = [dot, dot] \<longrightarrow> i = 0 \<and> \<not> absolute))"

lemma stack_ok_snoc:
  "stack_ok absolute (ps @ [p]) \<longleftrightarrow>
     stack_ok absolute ps \<and> p \<noteq> [dot] \<and> (p = [dot, dot] \<longrightarrow> ps = [] \<and> \<not> absolute)"
  by (auto simp: stack_ok_def nth_append less_Suc_eq)

lemma resolve_ok:
  assumes "stack_ok absolute ps"
  shows "stack_ok absolute (resolve absolute part ps)"
proof -
  have "stack_ok absolute (butlast ps)"
    using assms by (cases ps rule: rev_cases) (simp_all add: stack_ok_snoc)
  moreover have "stack_ok absolute []" "\<not> absolute \<Longrightarrow> stack_ok absolute [[dot, dot]]"
    by (simp_all add: stack_ok_def)
  ultimately show ?thesis using assms by (auto simp: resolve_def stack_ok_snoc)
qed

lemma fold_resolve_ok: "stack_ok absolute ps \<Longrightarrow> stack_ok absolute (fold (resolve absolute) xs ps)"
  by (induction xs arbitrary: ps) (simp_all add: resolve_ok)

lemma resolve_stack: "stack_ok absolute ps \<Longrightarrow> fold (resolve absolute) ps [] = ps"
  by (induction ps rule: rev_induct) (auto simp: stack_ok_snoc resolve_def)

lemma parts_append:
  assumes "ps \<noteq> []" and "\<forall>c \<in> set ps. \<not> P c" and "cs = [] \<or> P (hd cs)"
  shows "parts P (ps @ cs) = ps # parts P cs"
proof -
  obtain c qs where ps: "ps = c # qs" using assms(1) by (cases ps) auto
  have "takeWhile (\<lambda>c. \<not> P c) (qs @ cs) = qs" "dropWhile (\<lambda>c. \<not> P c) (qs @ cs) = cs"
    using assms(2,3) ps by (cases cs; auto simp: takeWhile_append dropWhile_append takeWhile_eq_all_conv)+
  then show ?thesis using assms(2) ps by simp
qed

text \<open>\<open>join ps\<close>: the parts with a separator between them.\<close>

fun join :: "u8 list list \<Rightarrow> u8 list" where
  "join [] = []"
| "join [p] = p"
| "join (p # ps) = p @ backslash # join ps"

definition part_ok :: "u8 list \<Rightarrow> bool" where
  "part_ok p \<longleftrightarrow> p \<noteq> [] \<and> (\<forall>c \<in> set p. \<not> is_separator c)"

lemma backslash_separator [simp]: "is_separator backslash"
  by (simp add: is_separator_def)

lemma part_ok_last: "part_ok p \<Longrightarrow> last (xs @ p) \<noteq> backslash"
  by (auto simp: part_ok_def is_separator_def dest: last_in_set)

lemma add_part_all:
  assumes "list_all part_ok ps" and "cs \<noteq> []" and "last cs \<noteq> backslash"
  shows "fold add_part ps cs = (if ps = [] then cs else cs @ backslash # join ps)"
  using assms
proof (induction ps arbitrary: cs)
  case (Cons p ps)
  then have "last (add_part p cs) \<noteq> backslash" "add_part p cs \<noteq> []" "add_part p cs = cs @ backslash # p"
    using part_ok_last [of p "cs @ [backslash]"] by (auto simp: add_part_def part_ok_def)
  with Cons show ?case by (cases ps) auto
qed simp

lemma normal_join:
  assumes "list_all part_ok ps"
  shows "fold add_part ps (if absolute then [backslash] else []) =
    (if absolute then [backslash] else []) @ join ps"
proof (cases ps)
  case (Cons p qs)
  let ?s = "if absolute then [backslash] else []"
  have "add_part p ?s = ?s @ p" by (simp add: add_part_def)
  moreover have "?s @ p \<noteq> []" "last (?s @ p) \<noteq> backslash"
    using assms Cons part_ok_last [of p ?s] by (auto simp: part_ok_def)
  ultimately show ?thesis using add_part_all [of qs "?s @ p"] assms Cons by (cases qs) auto
qed simp

lemma parts_join: "list_all part_ok ps \<Longrightarrow> parts is_separator (join ps) = ps"
  by (induction ps rule: join.induct) (auto simp: parts_append part_ok_def parts_append [of _ _ "[]", simplified])

lemma parts_part_ok: "list_all part_ok (parts is_separator cs)"
  using parts_nonempty by (fastforce simp: list_all_iff part_ok_def)

lemma normal_parts_ok: "list_all part_ok (normal_parts cs)" "stack_ok (absolute_text cs) (normal_parts cs)"
  using parts_part_ok [of cs] resolve_set [of "absolute_text cs" "parts is_separator cs" "[]"]
    fold_resolve_ok [of "absolute_text cs" "[]" "parts is_separator cs"]
  by (auto simp: normal_parts_def list_all_iff stack_ok_def)

lemma normal_text: "normal cs = (if absolute_text cs then [backslash] else []) @ join (normal_parts cs)"
  unfolding normal_def by (rule normal_join [OF normal_parts_ok(1)])

lemma join_head: "list_all part_ok ps \<Longrightarrow> \<not> absolute_text (join ps)"
  by (induction ps rule: join.induct) (auto simp: absolute_text_def part_ok_def is_separator_def hd_append)

lemma normal_absolute: "absolute_text (normal cs) = absolute_text cs"
  using join_head [OF normal_parts_ok(1), of cs] by (auto simp: normal_text absolute_text_def)

lemma parts_normal: "parts is_separator (normal cs) = normal_parts cs"
  by (simp add: normal_text parts_join [OF normal_parts_ok(1)])

lemma normal_normal: "normal (normal cs) = normal cs"
proof -
  have "normal_parts (normal cs) = normal_parts cs"
    using resolve_stack [OF normal_parts_ok(2), of cs]
    by (simp only: normal_parts_def [of "normal cs"] parts_normal normal_absolute)
  then have "(if absolute_text (normal cs) then [backslash] else []) @ join (normal_parts (normal cs)) =
      (if absolute_text cs then [backslash] else []) @ join (normal_parts cs)"
    by (simp only: normal_absolute)
  then show ?thesis unfolding normal_text [symmetric] .
qed

lemma join_length: "length (join ps) \<le> length (concat ps) + length ps"
  by (induction ps rule: join.induct) auto

lemma resolve_length: "length (concat (fold (resolve absolute) xs ps)) \<le> length (concat ps) + length (concat xs)"
proof (induction xs arbitrary: ps)
  case (Cons x xs)
  have "length (concat (resolve absolute x ps)) \<le> length (concat ps) + length x"
    by (cases ps rule: rev_cases) (auto simp: resolve_def)
  with Cons.IH [of "resolve absolute x ps"] show ?case by simp
qed simp

lemma parts_count: "list_all part_ok ps \<Longrightarrow> length ps \<le> length (concat ps)"
proof (induction ps)
  case (Cons p ps)
  then have "0 < length p" by (simp add: part_ok_def)
  moreover have "length ps \<le> length (concat ps)" using Cons by simp
  ultimately show ?case unfolding concat.simps length_append list.size by linarith
qed simp

lemma parts_number: "length (parts is_separator cs) \<le> length cs"
  using parts_count [OF parts_part_ok, of cs] parts_length [of is_separator cs] by simp

lemma normal_parts_size: "length (concat (normal_parts cs)) + length (normal_parts cs) \<le> 2 * length cs"
proof -
  have "length (concat (normal_parts cs)) \<le> length cs"
    using resolve_length [of "absolute_text cs" "parts is_separator cs" "[]"] parts_length [of is_separator cs]
    by (simp add: normal_parts_def)
  with parts_count [OF normal_parts_ok(1), of cs] show ?thesis by simp
qed

lemma normal_length: "length (normal cs) \<le> 2 * length cs + 1"
  using join_length [of "normal_parts cs"] normal_parts_size [of cs] by (simp add: normal_text)

section \<open>Memory\<close>

text \<open>\<open>granted mem b\<close>: the memory grants every request of at most \<open>b\<close> bytes. It then refuses none of the
  requests of \<open>Normalized\<close>, which are for the vector of components (16 bytes each, doubled when it is full)
  and for the text of the result.\<close>

definition granted :: "(nat \<Rightarrow> bool) \<Rightarrow> nat \<Rightarrow> bool" where
  "granted mem b \<longleftrightarrow> (\<forall>n \<le> b. mem n)"

definition normal_memory :: "u8 list \<Rightarrow> nat" where
  "normal_memory cs = 32 * length cs + 128"

lemma granted_bound: "granted (machine mem) b \<Longrightarrow> b < 2 ^ 63"
  by (auto simp: granted_def machine_def)

lemma granted_denies:
  assumes "granted (machine mem) b" and "\<And>n. r = Some n \<Longrightarrow> n * esize v \<le> b"
  shows "\<not> denies mem v r"
  using assms by (fastforce simp: denies_def granted_def machine_def split: option.splits)

lemma each_granted:
  assumes "\<And>x xs s a. P (x # xs) s a \<Longrightarrow> \<exists>s'. f x s = Some (s', True) \<and> P xs s' (g x a)"
  shows "P xs s a \<Longrightarrow> \<exists>s'. each f xs s = Some (s', True) \<and> P [] s' (fold g xs a)"
proof (induction xs arbitrary: s a)
  case (Cons x xs)
  from assms [OF Cons.prems] obtain s' where "f x s = Some (s', True)" "P xs s' (g x a)" by blast
  with Cons.IH show ?case by simp
qed simp

text \<open>\<open>views_obj v ps n\<close>: the vector of components \<open>ps\<close>, with at most \<open>n\<close> more to come.\<close>

definition views_obj :: "nat \<Rightarrow> 'x list \<Rightarrow> u8 list vec \<Rightarrow> u8 list list \<Rightarrow> bool" where
  "views_obj n rest v ps \<longleftrightarrow> vec_obj v ps \<and> esize v = 16 \<and> length ps + length rest \<le> n"

lemma PushBack_granted:
  assumes "views_obj n (x # rest) v ps" and "granted (machine mem) b" and "32 * n + 128 \<le> b"
  shows "\<exists>v'. vec_PushBack (machine mem) v (Temp y) = Some (v', True) \<and> views_obj n rest v' (ps @ [y])"
proof -
  have obj: "vec_obj v ps" and e: "esize v = 16" and n: "length ps < n"
    using assms(1) by (auto simp: views_obj_def)
  have v: "vec_rep v ps" "has_alloc v" "vcap v < 2 ^ 63" using obj by (auto simp: vec_obj_def)
  have "\<not> denies mem v (request_one v)"
  proof (rule granted_denies [OF assms(2)])
    fix k assume "request_one v = Some k"
    then have "vcap v = length ps" "k = grown v" using vec_repD(2) [OF v(1)] by (auto simp: request_one_def split: if_splits)
    then have "k \<le> 2 * length ps + 8" using v(3) by (auto simp: grown_def)
    then have "k * esize v \<le> (2 * length ps + 8) * 16" unfolding e by (rule mult_le_mono1)
    also have "\<dots> \<le> b" using n assms(3) by simp
    finally show "k * esize v \<le> b" .
  qed
  then have "\<not> starved (machine mem) v (request_one v)"
    using starved_denies [OF obj request_one_nonzero [OF v(3)]] by simp
  with vec_PushBack_rep [OF v(1), of "machine mem" y] v(3) room_allocator [OF v(2)] obtain v' where
    v': "vec_PushBack (machine mem) v (Temp y) = Some (v', True)" "vec_rep v' (ps @ [y])"
      "vec_same (machine mem) v v'" by auto
  moreover have "vec_obj v' (ps @ [y])" by (rule vec_obj_next [OF obj v'(2,3)])
  ultimately show ?thesis using e assms(1) by (auto simp: views_obj_def vec_same_def)
qed

lemma normalize_part_granted:
  assumes "views_obj n (part # rest) v ps" and "granted (machine mem) b" and "32 * n + 128 \<le> b"
  shows "\<exists>v'. normalize_part (machine mem) absolute part v = Some (v', True) \<and>
    views_obj n rest v' (resolve absolute part ps)"
proof -
  have v: "vec_obj v ps" "vsize v = length ps" "esize v = 16" "length ps + length rest < n"
    using assms(1) vec_repD(2) [OF vec_obj_rep, of v ps] by (auto simp: views_obj_def)
  have pop: "\<exists>v'. vec_PopBack v = Some (v', True) \<and> views_obj n rest v' (butlast ps)" if "ps \<noteq> []"
  proof -
    from vec_PopBack_rep [OF vec_obj_rep [OF v(1)] that] obtain v' where
      v': "vec_PopBack v = Some (v', True)" "vec_rep v' (butlast ps)" "vec_kept v v'" by blast
    with vec_obj_kept [OF v(1) v'(2,3)] v(3,4) show ?thesis by (auto simp: views_obj_def vec_kept_def)
  qed
  have keep: "views_obj n rest v ps" using v by (simp add: views_obj_def)
  show ?thesis
    using PushBack_granted [OF assms, of part] pop keep v(2)
    by (cases "part = [dot]"; cases "part = [dot, dot]"; cases "ps = []"; cases absolute)
      (auto simp: normalize_part_def resolve_def)
qed

text \<open>The text of the result, in storage of one byte per character.\<close>

definition byte_path :: "path \<Rightarrow> u8 list \<Rightarrow> bool" where
  "byte_path p cs \<longleftrightarrow> path_like p cs \<and> esize (storage p) = 1"

lemma finished_granted:
  assumes "finished mem s q r ds" and "granted (machine mem) b"
    and "\<And>n. q = Some n \<Longrightarrow> n * esize (storage s) \<le> b" and "esize (storage s) = 1"
  shows "\<exists>s'. r = Some (s', True) \<and> str_obj s' ds \<and> esize (storage s') = 1"
  using assms(1,4) granted_denies [OF assms(2,3)] by (auto simp: finished_def vec_same_def)

lemma AppendChar_granted:
  assumes "byte_path p cs" and "granted (machine mem) b" and "length cs + 2 \<le> b"
  shows "\<exists>q. str_AppendChar (machine mem) p c = Some (q, True) \<and> byte_path q (cs @ [c])"
proof -
  have e: "esize (storage p) = 1" and p: "path_like p cs" using assms(1) by (auto simp: byte_path_def)
  have fin: "finished mem p (request_more (storage p) (length cs + 2)) (str_AppendChar (machine mem) p c) (cs @ [c])"
  proof (cases "str_obj p cs")
    case True
    then show ?thesis using str_AppendChar_obj [OF True, of mem c] by (simp add: str_obj_def)
  next
    case False
    then have "vec_obj (storage p) []" "bsize p = 0" "cs = []" using p by (auto simp: path_like_def str_null_def)
    then show ?thesis using AppendChar_null [of p mem c] by (simp add: numeral_2_eq_2)
  qed
  have "\<And>n. request_more (storage p) (length cs + 2) = Some n \<Longrightarrow> n * esize (storage p) \<le> b"
    using e assms(3) by (simp add: request_more_def split: if_splits)
  from finished_granted [OF fin assms(2) this e] show ?thesis
    by (auto simp: byte_path_def path_like_def)
qed

lemma Append_granted:
  assumes "byte_path p cs" and "granted (machine mem) b" and "length cs + length ds + 1 \<le> b"
  shows "\<exists>q. str_Append (machine mem) p (map Temp ds) = Some (q, True) \<and> byte_path q (cs @ ds)"
proof (cases "ds = []")
  case True
  with assms(1) show ?thesis by (simp add: str_Append_def)
next
  case False
  have e: "esize (storage p) = 1" and p: "path_like p cs" using assms(1) by (auto simp: byte_path_def)
  have ds: "length ds < 2 ^ 63" using granted_bound [OF assms(2)] assms(3) by linarith
  have fin: "finished mem p (request_more (storage p) (length cs + length ds + 1))
      (str_Append (machine mem) p (map Temp ds)) (cs @ ds)"
  proof (cases "str_obj p cs")
    case True
    then show ?thesis using str_Append_obj [OF True ds, of mem] False by (simp add: str_obj_def)
  next
    case nf: False
    then have null: "vec_obj (storage p) []" "bsize p = 0" "cs = []" using p by (auto simp: path_like_def str_null_def)
    have "length ds + 1 < 2 ^ 64" "usz (length ds) = length ds" using ds by simp_all
    note len = this
    from str_Assign_obj [OF null(1) len(1), of mem] null len(2) False show ?thesis
      by (simp add: str_Append_def str_Assign_def Let_def cong: if_cong)
  qed
  have "\<And>n. request_more (storage p) (length cs + length ds + 1) = Some n \<Longrightarrow> n * esize (storage p) \<le> b"
    using e assms(3) by (simp add: request_more_def split: if_splits)
  from finished_granted [OF fin assms(2) this e] show ?thesis
    by (auto simp: byte_path_def path_like_def)
qed

lemma append_component_granted:
  assumes "byte_path p cs" and "granted (machine mem) b"
    and "length cs + length (concat (part # rest)) + length (part # rest) < b"
  shows "\<exists>q. append_component (machine mem) part p = Some (q, True) \<and> byte_path q (add_part part cs) \<and>
    length (add_part part cs) + length (concat rest) + length rest < b"
proof -
  have p: "path_like p cs" using assms(1) by (simp add: byte_path_def)
  note t = path_like_text [OF p]
  show ?thesis
  proof (cases "cs \<noteq> [] \<and> last cs \<noteq> backslash")
    case True
    then have c: "bsize p \<noteq> 0 \<and> str_Back p \<noteq> Some backslash" using t path_like_Back [OF p] by auto
    from assms(3) have "length cs + 2 \<le> b" by simp
    from AppendChar_granted [OF assms(1,2) this, of backslash] obtain q where
      q: "str_AppendChar (machine mem) p backslash = Some (q, True)" "byte_path q (cs @ [backslash])" by blast
    from assms(3) have "length (cs @ [backslash]) + length part + 1 \<le> b" by simp
    from Append_granted [OF q(2) assms(2) this] c q(1) True assms(3) show ?thesis
      by (auto simp: append_component_def add_part_def)
  next
    case False
    then have "cs = [] \<or> str_Back p = Some backslash" using path_like_Back [OF p] by metis
    then have c: "\<not> (bsize p \<noteq> 0 \<and> str_Back p \<noteq> Some backslash)" using t by auto
    from assms(3) have "length cs + length part + 1 \<le> b" by simp
    from Append_granted [OF assms(1,2) this] c False assms(3) show ?thesis
      by (auto simp: append_component_def add_part_def)
  qed
qed

lemma add_part_nonempty: "xs \<noteq> [] \<Longrightarrow> fold add_part ps xs \<noteq> []"
  by (induction ps arbitrary: xs) (auto simp: add_part_def)

lemma normalize_onto_granted:
  assumes "path_like p cs" and "granted (machine mem) (normal_memory cs)"
    and "absolute = absolute_text cs" and "byte_path r (if absolute then [backslash] else [])"
  shows "\<exists>r'. normalize_onto (machine mem) p absolute r = Some r' \<and> path_like r' (normal cs)"
proof -
  let ?ps = "parts is_separator cs"
  let ?n = "length ?ps"
  let ?s = "if absolute then [backslash] else []"
  note p = path_like_text [OF assms(1)]
  have b: "32 * ?n + 128 \<le> normal_memory cs"
    using parts_number [of cs] by (simp add: normal_memory_def)
  have v0: "views_obj ?n ?ps (vec_empty 16 True) []"
    by (simp add: views_obj_def vec_obj_def vec_rep_def vec_empty_def)
  have split: "split_loop is_separator (normalize_part (machine mem) absolute) cs 0 (vec_empty 16 True) =
      each (normalize_part (machine mem) absolute) ?ps (vec_empty 16 True)"
    using granted_bound [OF assms(2)] by (subst split_loop_each) (simp_all add: size_max_def normal_memory_def)
  from each_granted [where P = "views_obj ?n" and f = "normalize_part (machine mem) absolute" and
      g = "resolve absolute", OF normalize_part_granted [OF _ assms(2) b] v0] obtain v where
    v: "each (normalize_part (machine mem) absolute) ?ps (vec_empty 16 True) = Some (v, True)"
      "views_obj ?n ([] :: u8 list list) v (fold (resolve absolute) ?ps [])" by blast
  have items: "vec_items v = normal_parts cs"
    using v(2) vec_rep_items [OF vec_obj_rep] by (auto simp: views_obj_def normal_parts_def assms(3))
  let ?P = "\<lambda>rest r es. byte_path r es \<and>
      length es + length (concat rest) + length rest < normal_memory cs"
  have start: "?P (normal_parts cs) r ?s"
    using assms(4) normal_parts_size [of cs] by (simp add: normal_memory_def)
  have step: "\<exists>q. append_component (machine mem) part r = Some (q, True) \<and> ?P rest q (add_part part es)"
    if "?P (part # rest) r es" for part rest r es
    using append_component_granted [OF _ assms(2), of r es part rest] that by blast
  have "\<exists>q. each (append_component (machine mem)) (normal_parts cs) r = Some (q, True) \<and>
      ?P [] q (fold add_part (normal_parts cs) ?s)"
    using each_granted [where P = ?P and f = "append_component (machine mem)" and g = add_part, OF step start]
    by simp
  then obtain q where q: "each (append_component (machine mem)) (normal_parts cs) r = Some (q, True)"
      "byte_path q (fold add_part (normal_parts cs) ?s)" by blast
  from q(2) have like: "path_like q (fold add_part (normal_parts cs) ?s)" by (simp add: byte_path_def)
  have "\<not> (path_Empty q \<and> absolute)"
    using path_like_text [OF like] add_part_nonempty [of "[backslash]"] by (auto simp: path_Empty_def)
  moreover have "path_like q (normal cs)" using like by (simp add: normal_def assms(3))
  ultimately show ?thesis using p v(1) items q(1) by (auto simp: normalize_onto_def split)
qed

text \<open>With the memory it needs, \<open>Normalized\<close> gives the normal form.\<close>

lemma path_Normalized_granted:
  assumes "path_like p cs" and "granted (machine mem) (normal_memory cs)"
  shows "\<exists>r. path_Normalized (machine mem) p = Some r \<and> path_like r (normal cs)"
proof -
  have abs: "path_IsAbsolute p = absolute_text cs"
    using path_like_absolute [OF assms(1)] by (simp add: absolute_text_def)
  have al: "path_allocator p" using path_like_text [OF assms(1)] by simp
  have e: "byte_path (path_empty True) []"
    using path_like_empty by (simp add: byte_path_def path_empty_def str_empty_def vec_empty_def)
  show ?thesis
  proof (cases "absolute_text cs")
    case False
    with normalize_onto_granted [OF assms refl, of "path_empty True"] e al abs show ?thesis
      by (simp add: path_Normalized_def)
  next
    case True
    have "length ([] :: u8 list) + 2 \<le> normal_memory cs" by (simp add: normal_memory_def)
    from AppendChar_granted [OF e assms(2) this, of backslash] obtain q where
      q: "str_AppendChar (machine mem) (path_empty True) backslash = Some (q, True)"
        "byte_path q [backslash]" by auto
    with normalize_onto_granted [OF assms refl, of q] True al abs show ?thesis
      by (simp add: path_Normalized_def)
  qed
qed

text \<open>The directory, from the root, that a list of parts leads to when it is followed from \<open>dir\<close>.\<close>

fun walk :: "u8 list list \<Rightarrow> u8 list list \<Rightarrow> u8 list list" where
  "walk dir [] = dir"
| "walk dir (part # ps) =
     walk (if part = [dot] then dir else if part = [dot, dot] then butlast dir else dir @ [part]) ps"

lemma walk_resolve: "walk dir ps = fold (resolve True) ps dir"
  by (induction ps arbitrary: dir) (auto simp: resolve_def)

lemma walk_append: "walk dir (xs @ ys) = walk (walk dir xs) ys"
  by (induction xs arbitrary: dir) simp_all

text \<open>\<open>above_once n ps\<close>: followed from \<open>n - 1\<close> levels below where a path starts, the parts never lead more
  than one level above it.\<close>

fun above_once :: "nat \<Rightarrow> u8 list list \<Rightarrow> bool" where
  "above_once n [] = True"
| "above_once n (part # ps) =
     (if part = [dot] then above_once n ps
      else if part = [dot, dot] then n \<noteq> 0 \<and> above_once (n - 1) ps
      else above_once (Suc n) ps)"

definition level :: "u8 list list \<Rightarrow> nat" where
  "level ps = (if ps \<noteq> [] \<and> hd ps = [dot, dot] then length ps - 1 else length ps + 1)"

lemma walk_resolve_relative:
  "stack_ok False ps \<Longrightarrow> above_once (level ps) xs \<Longrightarrow>
    walk dir (fold (resolve False) xs ps) = walk (walk dir ps) xs"
proof (induction xs arbitrary: ps)
  case (Cons x xs)
  have ok: "stack_ok False (resolve False x ps)" by (rule resolve_ok [OF Cons.prems(1)])
  have "above_once (level (resolve False x ps)) xs \<and> walk dir (resolve False x ps) = walk (walk dir ps) [x]"
  proof (cases ps rule: rev_cases)
    case Nil
    with Cons.prems(2) show ?thesis by (auto simp: resolve_def level_def split: if_splits)
  next
    case (snoc qs q)
    from Cons.prems(1) have st: "q \<noteq> [dot]" "q = [dot, dot] \<longrightarrow> qs = []" by (auto simp: snoc stack_ok_snoc)
    have lv: "level ps = (if hd ps = [dot, dot] then length qs else length qs + 2)" by (simp add: level_def snoc)
    have hd: "qs \<noteq> [] \<Longrightarrow> hd ps = hd qs" by (simp add: snoc)
    have up: "walk dir (butlast ps) = butlast (walk dir ps)" if "q \<noteq> [dot, dot]"
      using st that by (simp add: snoc walk_append)
    consider "x = [dot]" | "x = [dot, dot]" "q = [dot, dot]" | "x = [dot, dot]" "q \<noteq> [dot, dot]"
      | "x \<noteq> [dot]" "x \<noteq> [dot, dot]" by blast
    then show ?thesis
    proof cases
      case 2
      with st Cons.prems(2) lv show ?thesis by (simp add: snoc)
    next
      case 3
      have "level (butlast ps) = level ps - 1"
        using 3(2) hd lv by (cases "qs = []") (auto simp: level_def snoc)
      with 3 Cons.prems(2) up show ?thesis by (simp add: resolve_def snoc)
    next
      case 4
      have "level (ps @ [x]) = Suc (level ps)" using 4 by (simp add: level_def snoc hd_append)
      with 4 Cons.prems(2) show ?thesis by (simp add: resolve_def walk_append)
    qed (use Cons.prems(2) in \<open>simp add: resolve_def\<close>)
  qed
  with Cons.IH [OF ok] show ?case by simp
qed simp

lemma count_names_parts:
  "count_names False cs = length (parts is_separator cs)"
  "count_names True cs = length (parts is_separator (dropWhile (\<lambda>c. \<not> is_separator c) cs))"
  by (induction cs) auto


section \<open>Properties\<close>

text \<open>C11: \<open>Normalized\<close>. For a path whose text is \<open>cs\<close> the result has a text in normal form: it is its own
  normal form, absolute when \<open>cs\<close> is, its parts are joined by one separator each, none of them is \<open>.\<close> and none
  but the first of a relative path is \<open>..\<close>. The parts are those that the rule for one part gives when it is
  applied to the parts of \<open>cs\<close> in turn. For an absolute path they are the directory that following the parts
  of \<open>cs\<close> from the root leads to; a relative path that never rises more than one level above its start leads
  from every directory to where \<open>cs\<close> leads (one that rises further need not: the code drops \<open>..\<close> behind
  \<open>..\<close>). The result is the empty path instead only when the memory does not grant all requests of up to
  \<open>normal_memory cs\<close> bytes.\<close>

theorem Normalized_canonical:
  assumes "path_like p cs" and "length cs < 2 ^ 63"
  shows "\<exists>r. path_Normalized (machine mem) p = Some r \<and>
    (r = path_empty True \<and> \<not> granted (machine mem) (normal_memory cs) \<or>
     (\<exists>ps. path_like r ((if absolute_text cs then [backslash] else []) @ join ps) \<and>
       parts is_separator (text_of r) = ps \<and> stack_ok (absolute_text cs) ps \<and>
       path_IsAbsolute r = path_IsAbsolute p \<and> normal (text_of r) = text_of r \<and>
       ps = fold (resolve (path_IsAbsolute p)) (parts is_separator cs) [] \<and>
       (path_IsAbsolute p \<longrightarrow> ps = walk [] (parts is_separator cs)) \<and>
       (\<not> path_IsAbsolute p \<and> above_once 1 (parts is_separator cs) \<longrightarrow>
         (\<forall>dir. walk dir ps = walk dir (parts is_separator cs)))))"
proof -
  obtain r where r: "path_Normalized (machine mem) p = Some r"
    "r = path_empty True \<and> \<not> granted (machine mem) (normal_memory cs) \<or> path_like r (normal cs)"
    using path_Normalized_like [OF assms, of mem] path_Normalized_granted [OF assms(1), of mem] by auto
  show ?thesis
  proof (cases "path_like r (normal cs)")
    case True
    have abs: "path_IsAbsolute r = absolute_text cs" "path_IsAbsolute p = absolute_text cs"
      using path_like_absolute [OF True] path_like_absolute [OF assms(1)] normal_absolute [of cs]
      by (simp_all add: absolute_text_def)
    have "path_like r ((if absolute_text cs then [backslash] else []) @ join (normal_parts cs))"
      using True normal_text [of cs] by simp
    moreover have "absolute_text cs \<longrightarrow> normal_parts cs = walk [] (parts is_separator cs)"
      by (simp add: normal_parts_def walk_resolve)
    moreover have "\<not> absolute_text cs \<and> above_once 1 (parts is_separator cs) \<longrightarrow>
        (\<forall>dir. walk dir (normal_parts cs) = walk dir (parts is_separator cs))"
      using walk_resolve_relative [of "[]" "parts is_separator cs"]
      by (simp add: normal_parts_def stack_ok_def level_def)
    moreover have "text_of r = normal cs" using path_like_text [OF True] by simp
    moreover have "normal_parts cs = fold (resolve (absolute_text cs)) (parts is_separator cs) []"
      by (simp add: normal_parts_def)
    ultimately show ?thesis
      using r(1) abs normal_parts_ok(2) [of cs] parts_normal [of cs] normal_normal [of cs]
      by (intro exI [of _ r] conjI disjI2 exI [of _ "normal_parts cs"]) simp_all
  qed (use r in simp)
qed

text \<open>\<open>NameCount\<close> is the number of parts of the text between separators of both kinds.\<close>

theorem NameCount_parts: "path_NameCount p = length (parts is_separator (text_of p))"
  by (simp add: path_NameCount_def count_names_parts)

text \<open>A path object with the text \<open>cs\<close> in storage of exactly its size.\<close>

definition path_text :: "u8 list \<Rightarrow> path" where
  "path_text cs =
     \<lparr>storage = \<lparr>slots = map Some (cs @ [0]), vsize = length cs + 1, vcap = length cs + 1, buffer = 1,
                 esize = 1, has_alloc = True\<rparr>,
      bsize = length cs\<rparr>"

lemma path_text_like: "length cs + 1 < 2 ^ 63 \<Longrightarrow> path_like (path_text cs) cs"
  by (auto simp: path_like_def str_obj_def path_text_def vec_obj_def vec_rep_def live_def nth_append intro!: nth_equalityI)

theorem Normalized_canonical_witness:
  "\<exists>r. path_Normalized (machine (\<lambda>_. True)) (path_text [92, 97, 92, 46, 46, 47, 98]) = Some r \<and>
    text_of r = [92, 98]"
proof -
  let ?cs = "[92, 97, 92, 46, 46, 47, 98] :: u8 list"
  have p: "path_like (path_text ?cs) ?cs" by (rule path_text_like) simp
  have parts: "parts is_separator ?cs = [[97], [46, 46], [98]]" and abs: "absolute_text ?cs"
    by (simp_all add: is_separator_def backslash_def slash_def absolute_text_def)
  have "granted (machine (\<lambda>_. True)) (normal_memory ?cs)"
    by (simp add: granted_def machine_def normal_memory_def)
  then obtain r ps where r: "path_Normalized (machine (\<lambda>_. True)) (path_text ?cs) = Some r"
    "path_like r ([backslash] @ join ps)" "ps = walk [] (parts is_separator ?cs)"
    using Normalized_canonical [OF p, of "\<lambda>_. True"] abs path_like_absolute [OF p]
    by (auto simp: absolute_text_def)
  have "walk [] (parts is_separator ?cs) = [[98]]" unfolding parts by (simp add: dot_def)
  with r show ?thesis using path_like_text [of r "[92, 98]"] by (auto simp: backslash_def)
qed

text \<open>\<open>..\<close> behind \<open>..\<close> cancels it: the normal form of \<open>..\..\<close> is the empty path, which leads nowhere, where
  the path leads two directories up.\<close>

theorem Normalized_loses_parents:
  "\<exists>r. path_Normalized (machine mem) (path_text [46, 46, 92, 46, 46]) = Some r \<and> text_of r = [] \<and>
     walk [d, e] (parts is_separator [46, 46, 92, 46, 46]) = [] \<and>
     walk [d, e] (parts is_separator (text_of r)) = [d, e]"
proof -
  let ?cs = "[46, 46, 92, 46, 46] :: u8 list"
  have parts: "parts is_separator ?cs = [[46, 46], [46, 46]]" and abs: "\<not> absolute_text ?cs"
    by (simp_all add: is_separator_def backslash_def slash_def absolute_text_def)
  have "normal_parts ?cs = []" by (simp only: normal_parts_def parts abs) (simp add: resolve_def dot_def)
  then have "normal ?cs = []" by (simp add: normal_def abs)
  moreover have "length ?cs < 2 ^ 63" "path_like (path_text ?cs) ?cs" by (simp_all add: path_text_like)
  ultimately obtain r where "path_Normalized (machine mem) (path_text ?cs) = Some r" "text_of r = []"
    using path_Normalized_like [of "path_text ?cs" ?cs mem] path_like_text path_like_text [OF path_like_empty] by fastforce
  then show ?thesis by (simp add: is_separator_def backslash_def slash_def dot_def)
qed

lemma parts_backslash: "list_all part_ok ps \<Longrightarrow> parts (\<lambda>c. c = backslash) (join ps) = ps"
proof (induction ps rule: join.induct)
  case (2 p)
  then show ?case using parts_append [of p "\<lambda>c. c = backslash" "[]"] by (auto simp: part_ok_def is_separator_def)
next
  case (3 p q ps)
  have "p \<noteq> []" "\<forall>c \<in> set p. c \<noteq> backslash" using 3(2) by (auto simp: part_ok_def is_separator_def)
  then have "parts (\<lambda>c. c = backslash) (join (p # q # ps)) = p # parts (\<lambda>c. c = backslash) (join (q # ps))"
    using parts_append [of p "\<lambda>c. c = backslash" "backslash # join (q # ps)"] by simp
  also have "\<dots> = p # q # ps" using 3 by simp
  finally show ?case .
qed simp

lemma each_early:
  assumes "\<And>x s a. R s a \<Longrightarrow> f x s = Some (s, False) \<or> (\<exists>s'. f x s = Some (s', True) \<and> R s' (g x a))" and "R s a"
  shows "\<exists>s' ok b. each f xs s = Some (s', ok) \<and> R s' b \<and> (ok \<longrightarrow> b = fold g xs a)"
  using assms(2)
proof (induction xs arbitrary: s a)
  case Nil
  then show ?case by (intro exI [of _ s] exI [of _ True] exI [of _ a]) simp
next
  case (Cons x xs)
  from assms(1) [OF Cons.prems, of x] Cons.IH Cons.prems show ?case by fastforce
qed

lemma path_Components_cases:
  assumes "path_like p cs" and "length cs < 2 ^ 63"
  shows "\<exists>v. path_Components (machine mem) p = Some v \<and> (vec_items v = [] \<or> vec_items v = parts (\<lambda>c. c = backslash) cs)"
proof -
  note p = path_like_text [OF assms(1)]
  have v0: "vec_obj (vec_empty 16 True :: u8 list vec) []"
    by (simp add: vec_obj_def vec_rep_def vec_empty_def)
  have split: "split_loop (\<lambda>c. c = backslash) (\<lambda>part v. vec_PushBack (machine mem) v (Temp part)) cs 0 (vec_empty 16 True) =
      each (\<lambda>part v. vec_PushBack (machine mem) v (Temp part)) (parts (\<lambda>c. c = backslash) cs) (vec_empty 16 True)"
    using assms(2) by (subst split_loop_each) (simp_all add: size_max_def)
  have fold: "fold (\<lambda>x xs. xs @ [x]) ps [] = ps" for ps :: "u8 list list"
    by (induction ps rule: rev_induct) simp_all
  obtain v ok xs where v: "each (\<lambda>part v. vec_PushBack (machine mem) v (Temp part)) (parts (\<lambda>c. c = backslash) cs)
      (vec_empty 16 True) = Some (v, ok)" "vec_obj v xs" "ok \<longrightarrow> xs = parts (\<lambda>c. c = backslash) cs"
    using each_early [where R = vec_obj and f = "\<lambda>part v. vec_PushBack (machine mem) v (Temp part)" and
        g = "\<lambda>x xs. xs @ [x]" and xs = "parts (\<lambda>c. c = backslash) cs", OF PushBack_obj v0] fold by auto
  obtain w where "vec_Clear v = Some w" "vec_items w = []"
    using vec_Clear_rep [OF vec_obj_rep [OF v(2)]] vec_rep_items by blast
  with v p split vec_rep_items [OF vec_obj_rep [OF v(2)]] show ?thesis
    by (cases ok) (simp_all add: path_Components_def)
qed

text \<open>The allocator has refused memory to \<open>Normalized\<close> or to its \<open>Components\<close>.\<close>

definition text_refused :: "(nat \<Rightarrow> bool) \<Rightarrow> path \<Rightarrow> bool" where
  "text_refused alloc p \<longleftrightarrow> path_Normalized alloc p = Some (path_empty True) \<or>
     (\<exists>t v. path_Normalized alloc p = Some t \<and> path_Components alloc t = Some v \<and> vec_items v = [])"

text \<open>\<open>RelativeTo\<close> has no defined result for a target with a component, whatever the base, unless the
  allocator refuses memory: the components are views of a normalised temporary whose storage is gone, and
  one of them is read, to be compared or to be joined.\<close>

theorem RelativeTo_reads_freed:
  assumes "path_like p cs" and "length cs < 2 ^ 62" and "normal_parts cs \<noteq> []"
  shows "path_RelativeTo (machine mem) p base = None \<or> text_refused (machine mem) p"
proof (cases "path_RelativeTo (machine mem) p base")
  case (Some r)
  have len: "length cs < 2 ^ 63" using assms(2) by simp
  from path_Normalized_like [OF assms(1) len] obtain t where
    t: "path_Normalized (machine mem) p = Some t" "t = path_empty True \<or> path_like t (normal cs)" by blast
  show ?thesis
  proof (cases "t = path_empty True")
    case True
    with t show ?thesis by (simp add: text_refused_def)
  next
    case False
    have "length (normal cs) < 2 ^ 63" using normal_length [of cs] assms(2) by simp
    with t False path_Components_cases obtain v where v: "path_Components (machine mem) t = Some v"
      "vec_items v = [] \<or> vec_items v = parts (\<lambda>c. c = backslash) (normal cs)" by blast
    have "parts (\<lambda>c. c = backslash) (normal cs) = normal_parts cs"
      using parts_backslash [OF normal_parts_ok(1)] by (simp add: normal_text)
    moreover obtain part rest where ps: "normal_parts cs = part # rest" using assms(3) by (cases "normal_parts cs") auto
    moreover have "part \<noteq> []" using normal_parts_ok(1) [of cs] ps by (simp add: part_ok_def)
    then have gone: "read_gone part = None" by (simp add: read_gone_def)
    then have "common_gone (part # rest) us = None \<or> common_gone (part # rest) us = Some 0" for us
      by (cases us) auto
    then have none: "common_gone (part # rest) us \<noteq> Some n \<or> n = 0" for us n by (metis option.distinct(1) option.inject)
    ultimately have "vec_items v = part # rest \<longrightarrow> False"
    proof (intro impI)
      assume "vec_items v = part # rest"
      with Some t(1) v(1) obtain us n a q where "common_gone (part # rest) us = Some n"
        "each (\<lambda>part r. do { part \<leftarrow> read_gone part; join_text (machine mem) part r }) (drop n (part # rest)) a = Some q"
        by (auto simp: path_RelativeTo_def Let_def split: Option.bind_splits)
      with none [of us n] gone show False by simp
    qed
    with t v ps \<open>parts _ (normal cs) = normal_parts cs\<close> show ?thesis by (auto simp: text_refused_def)
  qed
qed simp

theorem RelativeTo_reads_freed_witness:
  "path_RelativeTo (machine (\<lambda>_. True)) (path_text [97]) (path_text [97]) = None \<or>
   text_refused (machine (\<lambda>_. True)) (path_text [97])"
proof (rule RelativeTo_reads_freed)
  have "parts is_separator [97] = [[97]]" by (simp add: is_separator_def backslash_def slash_def)
  then show "normal_parts [97] \<noteq> []" by (simp only: normal_parts_def) (simp add: resolve_def dot_def)
qed (simp_all add: path_text_like)

text \<open>\<open>Join\<close> of two paths that are not empty gives the normal form of their texts with a separator between
  them, or the empty path when the allocator refuses memory; but when it refuses only the copy of the left
  path, which the constructor does not report, the result is the right path made absolute.\<close>

theorem Join_text:
  assumes "path_like p cs" and "path_like q ds" and "cs \<noteq> []" and "ds \<noteq> []"
    and "length cs < 2 ^ 61" and "length ds < 2 ^ 61"
  shows "\<exists>r. path_Join (machine mem) p q = Some r \<and>
    (r = path_empty True \<or>
     path_like r (normal ((if last cs = backslash then cs else cs @ [backslash]) @ ds)) \<or>
     (\<exists>copy. path_make (machine mem) True cs = Some copy \<and> text_of copy = []) \<and>
       path_like r (normal (backslash # ds)))"
proof -
  have p: "text_of p = cs" "\<not> path_Empty p" "path_allocator p" using path_like_text [OF assms(1)] assms(3) by (simp_all add: path_Empty_def)
  have q: "text_of q = ds" "\<not> path_Empty q" using path_like_text [OF assms(2)] assms(4) by (simp_all add: path_Empty_def)
  have step: "\<exists>r'. join_right (machine mem) True r ds = Some r' \<and>
      (r' = path_empty True \<or> path_like r' (normal ((if es = [] \<or> last es \<noteq> backslash then es @ [backslash] else es) @ ds)))"
    if r: "path_like r es" and es: "length es < 2 ^ 61" for r es
  proof -
    let ?es = "if es = [] \<or> last es \<noteq> backslash then es @ [backslash] else es"
    have "\<exists>r1 ok. (if es = [] \<or> last es \<noteq> backslash then str_AppendChar (machine mem) r backslash else Some (r, True)) =
        Some (r1, ok) \<and> (ok \<longrightarrow> path_like r1 ?es)"
      using path_AppendChar [OF r, of mem backslash] r by auto
    then obtain r1 ok where r1: "(if es = [] \<or> last es \<noteq> backslash then str_AppendChar (machine mem) r backslash
        else Some (r, True)) = Some (r1, ok)" "ok \<longrightarrow> path_like r1 ?es" by blast
    show ?thesis
    proof (cases ok)
      case True
      with r1(2) have rl: "path_like r1 ?es" by simp
      have "length ds < 2 ^ 63" using assms(6) by simp
      from path_Append [OF rl this, of mem] show ?thesis
      proof (elim disjE exE conjE)
        fix r2 assume r2: "str_Append (machine mem) r1 (map Temp ds) = Some (r2, True)" "path_like r2 (?es @ ds)"
        have "length (?es @ ds) < 2 ^ 63" using es assms(6) by (auto split: if_splits)
        from path_Normalized_like [OF r2(2) this, of mem] True r1(1) r2(1) path_like_text [OF r]
        show ?thesis by (simp add: join_right_def del: if_split)
      qed (use True r1(1) path_like_text [OF r] in \<open>simp add: join_right_def del: if_split\<close>)
    qed (use r1(1) path_like_text [OF r] in \<open>simp add: join_right_def del: if_split\<close>)
  qed
  have "length cs < 2 ^ 63" using assms(5) by simp
  from path_make_like [OF this, of mem] obtain r where
    r: "path_make (machine mem) True cs = Some r" "path_like r [] \<or> path_like r cs" by blast
  have join: "path_Join (machine mem) p q = join_right (machine mem) True r ds"
    using p q r(1) by (simp add: path_Join_def)
  show ?thesis using r(2)
  proof
    assume e: "path_like r []"
    then have "text_of r = []" using path_like_text by blast
    with step [OF e] r(1) show ?thesis unfolding join by auto
  next
    assume "path_like r cs"
    from step [OF this assms(5)] assms(3) show ?thesis unfolding join by (auto split: if_splits)
  qed
qed

theorem Join_text_witness:
  "\<exists>r. path_Join (machine (\<lambda>_. True)) (path_text [97]) (path_text [98]) = Some r \<and>
    (r = path_empty True \<or> path_like r (normal [97, backslash, 98]) \<or>
     (\<exists>copy. path_make (machine (\<lambda>_. True)) True [97] = Some copy \<and> text_of copy = []) \<and>
       path_like r (normal [backslash, 98]))"
proof -
  have "path_like (path_text [97]) [97]" "path_like (path_text [98]) [98]" by (simp_all add: path_text_like)
  from Join_text [OF this, of "\<lambda>_. True"] show ?thesis by (simp add: backslash_def)
qed

lemma FindLastChar_spec:
  assumes "length (chars v) < NotFound"
  shows "\<exists>at. view_FindLastChar v c NotFound = Some at \<and>
    (at = NotFound \<and> c \<notin> set (chars v) \<or>
     (\<exists>xs ys. chars v = xs @ c # ys \<and> at = length xs \<and> c \<notin> set ys))"
proof -
  let ?cs = "chars v"
  have find: "loop_find (rev [0..<length ?cs]) (\<lambda>i. do { x \<leftarrow> view_read v i; Some (x = c) }) =
      Some (find (\<lambda>i. ?cs ! i = c) (rev [0..<length ?cs]))"
    by (intro loop_find_eq) (simp add: view_size_chars)
  show ?thesis
  proof (cases "c \<in> set ?cs")
    case False
    then have "find (\<lambda>i. ?cs ! i = c) (rev [0..<length ?cs]) = None"
      by (auto simp: find_None_iff in_set_conv_nth)
    with find False show ?thesis
      by (auto simp: view_FindLastChar_def view_size_chars Let_def)
  next
    case True
    then obtain xs ys where split: "?cs = xs @ c # ys" "c \<notin> set ys" by (metis split_list_last)
    then have "find (\<lambda>i. ?cs ! i = c) (rev [0..<length ?cs]) = Some (length xs)"
      by (subst find_rev_upt_Some) (auto simp: nth_append nth_Cons' split: if_splits)
    with find split show ?thesis
      by (auto simp: view_FindLastChar_def view_size_chars Let_def)
  qed
qed

lemma chars_Substr_rest: "chars (view_Substr v at NotFound) = drop at (chars v)"
  by (auto simp: view_Substr_def view_size_chars chars_def split: option.splits)

lemma chars_Substr_front: "at < length (chars v) \<Longrightarrow> at < NotFound \<Longrightarrow> chars (view_Substr v 0 at) = take at (chars v)"
  by (auto simp: view_Substr_def view_size_chars chars_def Let_def split: option.splits)

text \<open>Cutting a view at its last \<open>c\<close>: what \<open>FileName\<close>, \<open>Stem\<close> and \<open>Extension\<close> have in common.\<close>

lemma cut_last:
  assumes "length (chars v) < NotFound"
  shows "\<exists>at. view_FindLastChar v c NotFound = Some at \<and>
    (if c \<in> set (chars v)
     then at \<noteq> NotFound \<and> c \<notin> set (chars (view_Substr v (at + 1) NotFound)) \<and>
       chars v = chars (view_Substr v 0 at) @ c # chars (view_Substr v (at + 1) NotFound)
     else at = NotFound)"
proof -
  obtain at where at: "view_FindLastChar v c NotFound = Some at"
    "at = NotFound \<and> c \<notin> set (chars v) \<or> (\<exists>xs ys. chars v = xs @ c # ys \<and> at = length xs \<and> c \<notin> set ys)"
    using FindLastChar_spec [OF assms] by blast
  show ?thesis
  proof (cases "c \<in> set (chars v)")
    case True
    with at(2) obtain xs ys where s: "chars v = xs @ c # ys" "at = length xs" "c \<notin> set ys" by blast
    then have "at < length (chars v)" by simp
    then have "at < NotFound" using assms by linarith
    then have "chars (view_Substr v 0 at) = xs" "chars (view_Substr v (at + 1) NotFound) = ys" "at \<noteq> NotFound"
      using chars_Substr_front [of at v] s by (simp_all add: chars_Substr_rest)
    with True s at(1) show ?thesis by simp
  qed (use at in auto)
qed

text \<open>The names of a path. \<open>FileName\<close> is what follows the last backslash; it is \<open>Stem\<close> alone when it has no
  dot, and else \<open>Stem\<close>, a dot and \<open>Extension\<close>, in which there is no other one.\<close>

theorem names_of_path:
  assumes "path_like p cs" and "length cs < 2 ^ 63"
  shows "\<exists>name stem extension. path_FileName p = Some name \<and> path_Stem p = Some stem \<and>
    path_Extension p = Some extension \<and>
    (\<exists>before. cs = before @ chars name \<and> (before = [] \<or> last before = backslash)) \<and>
    backslash \<notin> set (chars name) \<and> dot \<notin> set (chars extension) \<and>
    (if dot \<in> set (chars name) then chars name = chars stem @ dot # chars extension
     else chars stem = chars name \<and> chars extension = [])"
proof -
  note p = path_like_text [OF assms(1)]
  have len: "length cs < NotFound" using assms(2) by (simp add: size_max_def)
  have v: "chars (str_View p) = cs" using p by (simp add: chars_def)
  have "\<exists>name before. path_FileName p = Some name \<and> cs = before @ chars name \<and>
      (before = [] \<or> last before = backslash) \<and> backslash \<notin> set (chars name)"
  proof (cases "cs = [] \<or> cs = [backslash]")
    case True
    then have "path_FileName p = Some None"
      using p by (auto simp: path_FileName_def view_size_chars chars_def path_IsRoot_def)
    with True show ?thesis
      by (intro exI [of _ None] exI [of _ cs]) (auto simp: chars_def)
  next
    case False
    then have nr: "\<not> (view_size (str_View p) = 0 \<or> path_IsRoot p)"
      using p by (simp add: view_size_chars chars_def path_IsRoot_def)
    obtain at where at: "view_FindLastChar (str_View p) backslash NotFound = Some at"
      "if backslash \<in> set cs
       then at \<noteq> NotFound \<and> backslash \<notin> set (chars (view_Substr (str_View p) (at + 1) NotFound)) \<and>
         cs = chars (view_Substr (str_View p) 0 at) @ backslash # chars (view_Substr (str_View p) (at + 1) NotFound)
       else at = NotFound"
      using cut_last [of "str_View p" backslash] v len by auto
    show ?thesis
    proof (cases "backslash \<in> set cs")
      case True
      with at nr have "path_FileName p = Some (view_Substr (str_View p) (at + 1) NotFound)"
        by (simp add: path_FileName_def)
      moreover have "cs = (chars (view_Substr (str_View p) 0 at) @ [backslash]) @
          chars (view_Substr (str_View p) (at + 1) NotFound)" using True at(2) by simp
      moreover have "backslash \<notin> set (chars (view_Substr (str_View p) (at + 1) NotFound))"
        using True at(2) by simp
      moreover have "last (chars (view_Substr (str_View p) 0 at) @ [backslash]) = backslash" by simp
      ultimately show ?thesis by blast
    next
      case False
      with at nr have "path_FileName p = Some (str_View p)" by (simp add: path_FileName_def)
      with False v show ?thesis by (intro exI [of _ "str_View p"] exI [of _ "[]"]) simp
    qed
  qed
  then obtain name before where n: "path_FileName p = Some name" "cs = before @ chars name"
    "before = [] \<or> last before = backslash" "backslash \<notin> set (chars name)" by blast
  have "length (chars name) < NotFound" using len n(2) by simp
  from cut_last [OF this, of dot] obtain at where at: "view_FindLastChar name dot NotFound = Some at"
    "if dot \<in> set (chars name)
     then at \<noteq> NotFound \<and> dot \<notin> set (chars (view_Substr name (at + 1) NotFound)) \<and>
       chars name = chars (view_Substr name 0 at) @ dot # chars (view_Substr name (at + 1) NotFound)
     else at = NotFound" by blast
  let ?stem = "if dot \<in> set (chars name) then view_Substr name 0 at else name"
  let ?ext = "if dot \<in> set (chars name) then view_Substr name (at + 1) NotFound else None"
  have "path_Stem p = Some ?stem" "path_Extension p = Some ?ext"
    using at n(1) by (auto simp: path_Stem_def path_Extension_def split: if_splits)
  with n at(2) show ?thesis
    by (intro exI [of _ name] exI [of _ ?stem] exI [of _ ?ext]) (auto simp: chars_def [of None] split: if_splits)
qed

theorem names_of_path_witness:
  "\<exists>name stem extension. path_FileName (path_text [97, backslash, 98, dot, 99]) = Some name \<and>
    path_Stem (path_text [97, backslash, 98, dot, 99]) = Some stem \<and>
    path_Extension (path_text [97, backslash, 98, dot, 99]) = Some extension \<and>
    (\<exists>before. [97, backslash, 98, dot, 99] = before @ chars name \<and> (before = [] \<or> last before = backslash)) \<and>
    backslash \<notin> set (chars name) \<and> dot \<notin> set (chars extension) \<and>
    (if dot \<in> set (chars name) then chars name = chars stem @ dot # chars extension
     else chars stem = chars name \<and> chars extension = [])"
  by (rule names_of_path [OF path_text_like]) simp_all

end
