(* ===== verification/TypeRecords.thy ===== *)
theory TypeRecords
  imports Lookup Msf
begin

text \<open>
  The parsers of type records in \<^verbatim>\<open>Reverse/Pdb.cpp\<close>. A cursor is an offset into a region of bytes, and a read
  outside the region has no result. A parser takes the database and gives it back with the error it
  reports or the value it returns; a loop whose end depends on the data is a partial function.
\<close>

unbundle bit_operations_syntax

type_synonym 'a parsed = "(database \<times> (error_info + 'a)) option"

text \<open>A step that is taken when the one before reported no error.\<close>

definition on_ok :: "'a parsed \<Rightarrow> (database \<Rightarrow> 'a \<Rightarrow> 'b parsed) \<Rightarrow> 'b parsed" where
  "on_ok run next =
     (case run of
        None \<Rightarrow> None
      | Some (d, Inl e) \<Rightarrow> Some (d, Inl e)
      | Some (d, Inr x) \<Rightarrow> next d x)"

definition DbError :: "db_error \<Rightarrow> error_info" where
  "DbError e = ErrorAt (if e = db_error.AllocationFailure then pdb_error.AllocationFailure
     else pdb_error.InvalidArgument) NoStream 0"

text \<open>An operation of the database, with its error turned into one of the reader.\<close>

definition of_db :: "database \<times> (db_error + 'a) \<Rightarrow> 'a parsed" where
  "of_db out = (case out of (d, Inl e) \<Rightarrow> Some (d, Inl (DbError e)) | (d, Inr x) \<Rightarrow> Some (d, Inr x))"

definition bad_record :: "pdb_error \<Rightarrow> nat \<Rightarrow> nat \<Rightarrow> nat \<Rightarrow> error_info" where
  "bad_record code stream at kind = \<lparr>ecode = code, estream = stream, eoffset = at, ekind = kind\<rparr>"

section \<open>Texts and numbers\<close>

text \<open>The characters up to the terminator, \<^term>\<open>None\<close> inside for a null view when there is none.\<close>

fun cstr_scan :: "region \<Rightarrow> nat \<Rightarrow> nat \<Rightarrow> name \<Rightarrow> name option option" where
  "cstr_scan r at 0 cs = Some None"
| "cstr_scan r at (Suc n) cs =
     do { b \<leftarrow> read8 r at; if b = 0 then Some (Some cs) else cstr_scan r (at + 1) n (cs @ [sint b]) }"

definition CStr :: "region \<Rightarrow> nat \<Rightarrow> nat \<Rightarrow> name option option" where
  "CStr r at available = cstr_scan r at available []"

text \<open>\<open>ReadNumeric\<close> moves the cursor, also when it fails.\<close>

definition ReadNumeric :: "region \<Rightarrow> nat \<Rightarrow> nat \<Rightarrow> (nat \<times> nat option) option" where
  "ReadNumeric r c e =
     (if c + 2 > e then Some (c, None)
      else
        do { leaf \<leftarrow> ReadU16 r c;
             let c = c + 2;
             if leaf < 0x8000 then Some (c, Some (unat leaf))
             else if leaf = 0x8000 then
               if c + 1 > e then Some (c, None) else do { v \<leftarrow> read8 r c; Some (c + 1, Some (unat v)) }
             else if leaf = 0x8001 then
               if c + 2 > e then Some (c, None)
               else do { v \<leftarrow> ReadU16 r c; Some (c + 2, Some (unat (scast v :: u64))) }
             else if leaf = 0x8002 then
               if c + 2 > e then Some (c, None) else do { v \<leftarrow> ReadU16 r c; Some (c + 2, Some (unat v)) }
             else if leaf = 0x8003 then
               if c + 4 > e then Some (c, None)
               else do { v \<leftarrow> ReadU32 r c; Some (c + 4, Some (unat (scast v :: u64))) }
             else if leaf = 0x8004 then
               if c + 4 > e then Some (c, None) else do { v \<leftarrow> ReadU32 r c; Some (c + 4, Some (unat v)) }
             else if leaf = 0x8009 \<or> leaf = 0x800A then
               if c + 8 > e then Some (c, None) else do { v \<leftarrow> ReadU64 r c; Some (c + 8, Some (unat v)) }
             else Some (c, None) })"

section \<open>Fields\<close>

definition LF_MODIFIER :: nat where "LF_MODIFIER = 0x1001"
definition LF_POINTER :: nat where "LF_POINTER = 0x1002"
definition LF_PROCEDURE :: nat where "LF_PROCEDURE = 0x1008"
definition LF_MFUNCTION :: nat where "LF_MFUNCTION = 0x1009"
definition LF_BCLASS :: nat where "LF_BCLASS = 0x1400"
definition LF_INDEX :: nat where "LF_INDEX = 0x1404"
definition LF_ARGLIST :: nat where "LF_ARGLIST = 0x1201"
definition LF_FIELDLIST :: nat where "LF_FIELDLIST = 0x1203"
definition LF_BITFIELD :: nat where "LF_BITFIELD = 0x1205"
definition LF_ENUMERATE :: nat where "LF_ENUMERATE = 0x1502"
definition LF_ARRAY :: nat where "LF_ARRAY = 0x1503"
definition LF_CLASS :: nat where "LF_CLASS = 0x1504"
definition LF_STRUCTURE :: nat where "LF_STRUCTURE = 0x1505"
definition LF_UNION :: nat where "LF_UNION = 0x1506"
definition LF_ENUM :: nat where "LF_ENUM = 0x1507"
definition LF_ALIAS :: nat where "LF_ALIAS = 0x150A"
definition LF_MEMBER :: nat where "LF_MEMBER = 0x150D"
definition LF_STMEMBER :: nat where "LF_STMEMBER = 0x150E"
definition LF_METHOD :: nat where "LF_METHOD = 0x150F"
definition LF_NESTTYPE :: nat where "LF_NESTTYPE = 0x1510"
definition LF_ONEMETHOD :: nat where "LF_ONEMETHOD = 0x1511"
definition LF_FUNC_ID :: nat where "LF_FUNC_ID = 0x1601"
definition LF_MFUNC_ID :: nat where "LF_MFUNC_ID = 0x1602"
definition LF_STRING_ID :: nat where "LF_STRING_ID = 0x1605"

definition no_field :: field where
  "no_field = \<lparr>fd_name = 0, fd_type = InvalidId, fd_offset = 0, fd_value = 0, fd_attributes = 0,
     fd_static = False, fd_base_class = False, fd_enumerator = False\<rparr>"

text \<open>What an embedded record asks for: a field to be added, or to go on with another list of fields.\<close>

datatype field_step = Add nat field | Skip nat type_info

definition bad_field :: error_info where
  "bad_field = bad_record InvalidTypeRecord 2 0 0"

text \<open>The name at the cursor, stored under a field, and the cursor behind it.\<close>

definition name_field :: "growth \<Rightarrow> region \<Rightarrow> nat \<Rightarrow> nat \<Rightarrow> field \<Rightarrow> database \<Rightarrow> field_step parsed" where
  "name_field grows r c e f d =
     do { n \<leftarrow> CStr r c (e - c);
          case n of
            None \<Rightarrow> Some (d, Inl bad_field)
          | Some n \<Rightarrow>
              on_ok (of_db (Intern grows d n)) (\<lambda>d i. Some (d, Inr (Add (c + length n + 1) (f\<lparr>fd_name := i\<rparr>)))) }"

definition field_record ::
  "growth \<Rightarrow> region \<Rightarrow> nat \<Rightarrow> nat \<Rightarrow> nat \<Rightarrow> type_info \<Rightarrow> database \<Rightarrow> field_step parsed" where
  "field_record grows r kind c e info d =
     (if kind = LF_MEMBER then
        if c + 6 > e then Some (d, Inl bad_field)
        else
          do { a \<leftarrow> ReadU16 r c; t \<leftarrow> ReadU32 r (c + 2); (c, v) \<leftarrow> ReadNumeric r (c + 6) e;
               case v of
                 None \<Rightarrow> Some (d, Inl bad_field)
               | Some v \<Rightarrow> name_field grows r c e
                   (no_field\<lparr>fd_attributes := unat a, fd_type := unat t, fd_offset := v\<rparr>) d }
      else if kind = LF_STMEMBER then
        if c + 6 > e then Some (d, Inl bad_field)
        else
          do { a \<leftarrow> ReadU16 r c; t \<leftarrow> ReadU32 r (c + 2);
               name_field grows r (c + 6) e
                 (no_field\<lparr>fd_attributes := unat a, fd_type := unat t, fd_static := True\<rparr>) d }
      else if kind = LF_ENUMERATE then
        if c + 2 > e then Some (d, Inl bad_field)
        else
          do { a \<leftarrow> ReadU16 r c; (c, v) \<leftarrow> ReadNumeric r (c + 2) e;
               case v of
                 None \<Rightarrow> Some (d, Inl bad_field)
               | Some v \<Rightarrow> name_field grows r c e
                   (no_field\<lparr>fd_attributes := unat a, fd_value := v, fd_enumerator := True\<rparr>) d }
      else if kind = LF_INDEX then
        if c + 4 > e then Some (d, Inl bad_field)
        else do { t \<leftarrow> ReadU32 r c; Some (d, Inr (Skip (c + 4) (info\<lparr>ty_continuation := unat t\<rparr>))) }
      else if kind = LF_BCLASS then
        if c + 6 > e then Some (d, Inl bad_field)
        else
          do { a \<leftarrow> ReadU16 r c; t \<leftarrow> ReadU32 r (c + 2); (c, v) \<leftarrow> ReadNumeric r (c + 6) e;
               case v of
                 None \<Rightarrow> Some (d, Inl bad_field)
               | Some v \<Rightarrow> Some (d, Inr (Add c (no_field\<lparr>fd_attributes := unat a, fd_type := unat t,
                   fd_offset := v, fd_base_class := True\<rparr>))) }
      else if kind = LF_NESTTYPE \<or> kind = LF_METHOD then
        if c + 6 > e then Some (d, Inl bad_field)
        else do { t \<leftarrow> ReadU32 r (c + 2); name_field grows r (c + 6) e (no_field\<lparr>fd_type := unat t\<rparr>) d }
      else if kind = LF_ONEMETHOD then
        if c + 6 > e then Some (d, Inl bad_field)
        else
          do { a \<leftarrow> ReadU16 r c; t \<leftarrow> ReadU32 r (c + 2);
               let p = drop_bit 2 a AND 7;
               let c = c + 6;
               name_field grows r (if (p = 4 \<or> p = 6) \<and> c + 4 \<le> e then c + 4 else c) e
                 (no_field\<lparr>fd_attributes := unat a, fd_type := unat t\<rparr>) d }
      else Some (d, Inr (Skip e info)))"

partial_function (option) field_loop ::
  "growth \<Rightarrow> region \<Rightarrow> nat \<Rightarrow> nat \<Rightarrow> type_info \<Rightarrow> database \<Rightarrow> type_info parsed" where
  "field_loop grows r c e info d =
     (if c < e then
        do { b \<leftarrow> read8 r c;
             if b \<ge> 0xF0 then
               (let skip = unat (b AND 0x0F); skip = (if skip = 0 then 1 else skip)
                in if c + skip > e then Some (d, Inr info) else field_loop grows r (c + skip) e info d)
             else if c + 2 > e then Some (d, Inr info)
             else
               do { kind \<leftarrow> ReadU16 r c;
                    (d, out) \<leftarrow> field_record grows r (unat kind) (c + 2) e info d;
                    case out of
                      Inl err \<Rightarrow> Some (d, Inl err)
                    | Inr (Skip c info) \<Rightarrow> field_loop grows r c e info d
                    | Inr (Add c f) \<Rightarrow>
                        (case AddField grows d f of
                           (d, Inl err) \<Rightarrow> Some (d, Inl (DbError err))
                         | (d, Inr i) \<Rightarrow>
                             field_loop grows r c e (info\<lparr>ty_field_count := id32 (ty_field_count info + 1)\<rparr>) d) } }
      else Some (d, Inr info))"

definition ParseFieldList ::
  "growth \<Rightarrow> region \<Rightarrow> nat \<Rightarrow> nat \<Rightarrow> type_info \<Rightarrow> database \<Rightarrow> type_info parsed" where
  "ParseFieldList grows r c e info d =
     field_loop grows r c e
       (info\<lparr>ty_kind := FieldList, ty_field_begin := id32 (length (type_fields d))\<rparr>) d"

section \<open>Type records\<close>

definition no_type :: type_info where
  "no_type = \<lparr>ty_index = InvalidId, ty_kind = UnknownType, ty_name = 0, ty_unique = 0, ty_size = 0,
     ty_options = 0, ty_attributes = 0, ty_referent = InvalidId, ty_element = InvalidId,
     ty_index_type = InvalidId, ty_return = InvalidId, ty_class = InvalidId, ty_this = InvalidId,
     ty_underlying = InvalidId, ty_field_list = InvalidId, ty_derivation = InvalidId, ty_vtable = InvalidId,
     ty_continuation = InvalidId, ty_argument_list = InvalidId, ty_parent_scope = InvalidId,
     ty_convention = 0xFF, ty_members = 0, ty_parameters = 0, ty_this_adjustment = 0, ty_field_begin = 0,
     ty_field_count = 0, ty_parameter_begin = 0, ty_parameter_type_count = 0\<rparr>"

text \<open>A name the record must have, and one it may have; both give the cursor behind it.\<close>

definition type_name ::
  "growth \<Rightarrow> region \<Rightarrow> error_info \<Rightarrow> nat \<Rightarrow> nat \<Rightarrow> database \<Rightarrow> (nat \<times> nat) parsed" where
  "type_name grows r bad c e d =
     do { n \<leftarrow> CStr r c (e - c);
          case n of
            None \<Rightarrow> Some (d, Inl bad)
          | Some n \<Rightarrow> on_ok (of_db (Intern grows d n)) (\<lambda>d i. Some (d, Inr (c + length n + 1, i))) }"

definition optional_name :: "growth \<Rightarrow> region \<Rightarrow> nat \<Rightarrow> nat \<Rightarrow> nat \<Rightarrow> database \<Rightarrow> nat parsed" where
  "optional_name grows r c e old d =
     do { n \<leftarrow> CStr r c (e - c);
          case n of None \<Rightarrow> Some (d, Inr old) | Some n \<Rightarrow> of_db (Intern grows d n) }"

text \<open>The end of a class, structure or union: its size, its name and its unique name.\<close>

definition aggregate ::
  "growth \<Rightarrow> region \<Rightarrow> error_info \<Rightarrow> nat \<Rightarrow> nat \<Rightarrow> type_info \<Rightarrow> database \<Rightarrow> type_info parsed" where
  "aggregate grows r bad c e info d =
     do { (c, v) \<leftarrow> ReadNumeric r c e;
          case v of
            None \<Rightarrow> Some (d, Inl bad)
          | Some v \<Rightarrow>
              on_ok (type_name grows r bad c e d)
                (\<lambda>d (c, i).
                   let info = info\<lparr>ty_size := v, ty_name := i\<rparr>
                   in if ty_attributes info AND 0x0200 \<noteq> 0 \<and> c < e then
                        on_ok (optional_name grows r c e 0 d) (\<lambda>d u. Some (d, Inr (info\<lparr>ty_unique := u\<rparr>)))
                      else Some (d, Inr info)) }"

fun add_parameters ::
  "growth \<Rightarrow> region \<Rightarrow> nat \<Rightarrow> nat \<Rightarrow> type_info \<Rightarrow> database \<Rightarrow> type_info parsed" where
  "add_parameters grows r c 0 info d = Some (d, Inr info)"
| "add_parameters grows r c (Suc n) info d =
     do { t \<leftarrow> ReadU32 r c;
          on_ok (of_db (AddParameterType grows d (unat t)))
            (\<lambda>d i. add_parameters grows r (c + 4) n
               (info\<lparr>ty_parameter_type_count := id32 (ty_parameter_type_count info + 1)\<rparr>) d) }"

text \<open>A parser whose error is given more detail.\<close>

definition with_error :: "(error_info \<Rightarrow> error_info) \<Rightarrow> 'a parsed \<Rightarrow> 'a parsed" where
  "with_error g run = map_option (map_prod id (map_sum g id)) run"

text \<open>\<^verbatim>\<open>ReadU32(C) ? MakeIpiTypeIndex(ReadU32(C)) : 0\<close>\<close>

definition parent_scope :: "u32 \<Rightarrow> nat" where
  "parent_scope w = (if w \<noteq> 0 then MakeIpiTypeIndex (unat w) else 0)"

definition type_body ::
  "growth \<Rightarrow> region \<Rightarrow> nat \<Rightarrow> error_info \<Rightarrow> nat \<Rightarrow> nat \<Rightarrow> type_info \<Rightarrow> database \<Rightarrow> type_info parsed" where
  "type_body grows r kind bad c e info d =
     (if kind = LF_MODIFIER then
        if c + 6 > e then Some (d, Inl bad)
        else do { t \<leftarrow> ReadU32 r c; a \<leftarrow> ReadU16 r (c + 4);
                  Some (d, Inr (info\<lparr>ty_kind := Modifier, ty_referent := unat t, ty_attributes := ucast a\<rparr>)) }
      else if kind = LF_POINTER then
        if c + 8 > e then Some (d, Inl bad)
        else do { t \<leftarrow> ReadU32 r c; a \<leftarrow> ReadU32 r (c + 4);
                  Some (d, Inr (info\<lparr>ty_kind := Pointer, ty_referent := unat t, ty_attributes := a\<rparr>)) }
      else if kind = LF_PROCEDURE then
        if c + 12 > e then Some (d, Inl bad)
        else do { t \<leftarrow> ReadU32 r c; v \<leftarrow> read8 r (c + 4); o' \<leftarrow> read8 r (c + 5); n \<leftarrow> ReadU16 r (c + 6);
                  a \<leftarrow> ReadU32 r (c + 8);
                  Some (d, Inr (info\<lparr>ty_kind := Procedure, ty_return := unat t, ty_convention := unat v,
                    ty_options := ucast o', ty_parameters := unat n, ty_argument_list := unat a\<rparr>)) }
      else if kind = LF_MFUNCTION then
        if c + 24 > e then Some (d, Inl bad)
        else do { t \<leftarrow> ReadU32 r c; k \<leftarrow> ReadU32 r (c + 4); s \<leftarrow> ReadU32 r (c + 8); v \<leftarrow> read8 r (c + 12);
                  o' \<leftarrow> read8 r (c + 13); n \<leftarrow> ReadU16 r (c + 14); a \<leftarrow> ReadU32 r (c + 16); j \<leftarrow> ReadU32 r (c + 20);
                  Some (d, Inr (info\<lparr>ty_kind := MemberFunction, ty_return := unat t, ty_class := unat k,
                    ty_this := unat s, ty_convention := unat v, ty_options := ucast o', ty_parameters := unat n,
                    ty_argument_list := unat a, ty_this_adjustment := sint j\<rparr>)) }
      else if kind = LF_ARGLIST then
        if c + 4 > e then Some (d, Inl bad)
        else do { n \<leftarrow> ReadU32 r c;
                  if unat n * 4 > e - (c + 4) then Some (d, Inl bad)
                  else add_parameters grows r (c + 4) (unat n)
                    (info\<lparr>ty_kind := ArgumentList, ty_parameter_begin := id32 (length (parameter_types d))\<rparr>) d }
      else if kind = LF_FIELDLIST then
        with_error (\<lambda>err. err\<lparr>estream := estream bad, ekind := kind\<rparr>) (ParseFieldList grows r c e info d)
      else if kind = LF_BITFIELD then
        if c + 6 > e then Some (d, Inl bad)
        else do { t \<leftarrow> ReadU32 r c; n \<leftarrow> read8 r (c + 4); p \<leftarrow> read8 r (c + 5);
                  Some (d, Inr (info\<lparr>ty_kind := BitField, ty_underlying := unat t, ty_size := unat n,
                    ty_attributes := ucast p\<rparr>)) }
      else if kind = LF_ARRAY then
        if c + 8 > e then Some (d, Inl bad)
        else do { t \<leftarrow> ReadU32 r c; i \<leftarrow> ReadU32 r (c + 4); (c, v) \<leftarrow> ReadNumeric r (c + 8) e;
                  case v of
                    None \<Rightarrow> Some (d, Inl bad)
                  | Some v \<Rightarrow>
                      on_ok (optional_name grows r c e 0 d)
                        (\<lambda>d n. Some (d, Inr (info\<lparr>ty_kind := ArrayType, ty_element := unat t,
                           ty_index_type := unat i, ty_size := v, ty_name := n\<rparr>))) }
      else if kind = LF_CLASS \<or> kind = LF_STRUCTURE then
        if c + 16 > e then Some (d, Inl bad)
        else do { n \<leftarrow> ReadU16 r c; a \<leftarrow> ReadU16 r (c + 2); f \<leftarrow> ReadU32 r (c + 4); g \<leftarrow> ReadU32 r (c + 8);
                  v \<leftarrow> ReadU32 r (c + 12);
                  aggregate grows r bad (c + 16) e
                    (info\<lparr>ty_kind := (if kind = LF_CLASS then Class else Struct), ty_members := unat n,
                       ty_attributes := ucast a, ty_field_list := unat f, ty_derivation := unat g,
                       ty_vtable := unat v\<rparr>) d }
      else if kind = LF_UNION then
        if c + 8 > e then Some (d, Inl bad)
        else do { n \<leftarrow> ReadU16 r c; a \<leftarrow> ReadU16 r (c + 2); f \<leftarrow> ReadU32 r (c + 4);
                  aggregate grows r bad (c + 8) e
                    (info\<lparr>ty_kind := UnionType, ty_members := unat n, ty_attributes := ucast a,
                       ty_field_list := unat f\<rparr>) d }
      else if kind = LF_ENUM then
        if c + 12 > e then Some (d, Inl bad)
        else do { n \<leftarrow> ReadU16 r c; a \<leftarrow> ReadU16 r (c + 2); u \<leftarrow> ReadU32 r (c + 4); f \<leftarrow> ReadU32 r (c + 8);
                  on_ok (type_name grows r bad (c + 12) e d)
                    (\<lambda>d (_, i). Some (d, Inr (info\<lparr>ty_kind := Enum, ty_members := unat n, ty_attributes := ucast a,
                       ty_underlying := unat u, ty_field_list := unat f, ty_name := i\<rparr>))) }
      else if kind = LF_ALIAS then
        if c + 4 > e then Some (d, Inl bad)
        else do { u \<leftarrow> ReadU32 r c;
                  on_ok (type_name grows r bad (c + 4) e d)
                    (\<lambda>d (_, i). Some (d, Inr (info\<lparr>ty_kind := Alias, ty_underlying := unat u, ty_name := i\<rparr>))) }
      else if kind = LF_FUNC_ID then
        if c + 8 > e then Some (d, Inl bad)
        else do { p \<leftarrow> ReadU32 r c; t \<leftarrow> ReadU32 r (c + 4);
                  on_ok (optional_name grows r (c + 8) e 0 d)
                    (\<lambda>d i. Some (d, Inr (info\<lparr>ty_kind := FunctionId, ty_parent_scope := parent_scope p,
                       ty_referent := unat t, ty_name := i\<rparr>))) }
      else if kind = LF_MFUNC_ID then
        if c + 8 > e then Some (d, Inl bad)
        else do { k \<leftarrow> ReadU32 r c; t \<leftarrow> ReadU32 r (c + 4);
                  on_ok (optional_name grows r (c + 8) e 0 d)
                    (\<lambda>d i. Some (d, Inr (info\<lparr>ty_kind := MemberFunctionId, ty_class := unat k,
                       ty_referent := unat t, ty_name := i\<rparr>))) }
      else if kind = LF_STRING_ID then
        if c + 4 > e then Some (d, Inl bad)
        else do { p \<leftarrow> ReadU32 r c;
                  on_ok (optional_name grows r (c + 4) e 0 d)
                    (\<lambda>d i. Some (d, Inr (info\<lparr>ty_kind := StringIdType, ty_parent_scope := parent_scope p,
                       ty_name := i\<rparr>))) }
      else Some (d, Inr (info\<lparr>ty_kind := UnknownType\<rparr>)))"

definition ParseTypeRecord ::
  "growth \<Rightarrow> region \<Rightarrow> nat \<Rightarrow> nat \<Rightarrow> nat \<Rightarrow> nat \<Rightarrow> nat \<Rightarrow> database \<Rightarrow> unit parsed" where
  "ParseTypeRecord grows r index kind c n stream d =
     on_ok (type_body grows r kind (bad_record InvalidTypeRecord stream 0 kind) c (c + n)
              (no_type\<lparr>ty_index := index\<rparr>) d)
       (\<lambda>d info. of_db (AddType grows d info))"

section \<open>Primitive types\<close>

definition primitives :: "(nat \<times> string \<times> nat) list" where
  "primitives =
     [(0x0003, ''void'', 0), (0x0008, ''HRESULT'', 4), (0x0010, ''char'', 1), (0x0011, ''short'', 2),
      (0x0012, ''long'', 4), (0x0013, ''__int64'', 8), (0x0020, ''unsigned char'', 1),
      (0x0021, ''unsigned short'', 2), (0x0022, ''unsigned long'', 4), (0x0023, ''unsigned __int64'', 8),
      (0x0030, ''bool8'', 1), (0x0031, ''bool16'', 2), (0x0032, ''bool32'', 4), (0x0033, ''bool64'', 8),
      (0x0040, ''float'', 4), (0x0041, ''double'', 8), (0x0042, ''long double'', 10), (0x0043, ''float128'', 16),
      (0x0068, ''int8_t'', 1), (0x0069, ''uint8_t'', 1), (0x0072, ''int16_t'', 2), (0x0073, ''uint16_t'', 2),
      (0x0074, ''int32_t'', 4), (0x0075, ''uint32_t'', 4), (0x0076, ''int64_t'', 8), (0x0077, ''uint64_t'', 8),
      (0x0078, ''int128_t'', 16), (0x0079, ''uint128_t'', 16), (0x007A, ''char16_t'', 2),
      (0x007B, ''char32_t'', 4), (0x007C, ''char8_t'', 1)]"

definition name_of_string :: "string \<Rightarrow> name" where
  "name_of_string s = map (\<lambda>c. int (of_char c)) s"

definition pointer_size :: "nat \<Rightarrow> nat" where
  "pointer_size mode = (if mode = 6 then 8 else if mode = 7 then 16 else if mode \<ge> 4 then 4 else 2)"

fun add_pointers :: "growth \<Rightarrow> nat \<Rightarrow> nat list \<Rightarrow> database \<Rightarrow> unit parsed" where
  "add_pointers grows index [] d = Some (d, Inr ())"
| "add_pointers grows index (mode # modes) d =
     on_ok (of_db (AddType grows d (no_type\<lparr>ty_index := index OR push_bit 8 mode, ty_kind := Pointer,
        ty_referent := index, ty_size := pointer_size mode\<rparr>)))
       (\<lambda>d _. add_pointers grows index modes d)"

fun add_primitives :: "growth \<Rightarrow> (nat \<times> string \<times> nat) list \<Rightarrow> database \<Rightarrow> unit parsed" where
  "add_primitives grows [] d = Some (d, Inr ())"
| "add_primitives grows ((index, s, n) # ps) d =
     on_ok (of_db (Intern grows d (name_of_string s)))
       (\<lambda>d i. on_ok (of_db (AddType grows d (no_type\<lparr>ty_index := index, ty_kind := Primitive, ty_size := n,
                  ty_name := i\<rparr>)))
          (\<lambda>d _. on_ok (add_pointers grows index [1..<8] d) (\<lambda>d _. add_primitives grows ps d)))"

definition AddPrimitiveTypes :: "growth \<Rightarrow> database \<Rightarrow> unit parsed" where
  "AddPrimitiveTypes grows d = add_primitives grows primitives d"

section \<open>Type streams\<close>

partial_function (option) type_records ::
  "growth \<Rightarrow> region \<Rightarrow> nat \<Rightarrow> nat \<Rightarrow> nat \<Rightarrow> bool \<Rightarrow> nat \<Rightarrow> nat \<Rightarrow> database \<Rightarrow> unit parsed" where
  "type_records grows r stream header limit ipi at raw d =
     (if at < rsize r \<and> raw < limit then
        if at + 4 > rsize r then Some (d, Inl (bad_record InvalidTypeRecord stream (header + at) 0))
        else
          do { n \<leftarrow> ReadU16 r at; kind \<leftarrow> ReadU16 r (at + 2);
               if unat n < 2 \<or> at + 2 + unat n > rsize r
               then Some (d, Inl (bad_record InvalidTypeRecord stream (header + at) (unat kind)))
               else
                 do { (d, out) \<leftarrow> ParseTypeRecord grows r (if ipi then MakeIpiTypeIndex raw else raw) (unat kind)
                                   (at + 4) (unat n - 2) stream d;
                      case out of
                        Inl err \<Rightarrow> Some (d, Inl err)
                      | Inr _ \<Rightarrow> type_records grows r stream header limit ipi (msf_AlignUp (at + 2 + unat n) 4)
                                  (raw + 1) d } }
      else Some (d, Inr ()))"

text \<open>The fields of the stream's header: its size at 4, the first type index and the end of the indices at 8 and 12, the bytes
  of the records at 16. The header takes 56 bytes.\<close>

definition ParseTypeStream ::
  "(nat \<Rightarrow> nat \<Rightarrow> bool) \<Rightarrow> growth \<Rightarrow> msf \<Rightarrow> nat \<Rightarrow> bool \<Rightarrow> database \<Rightarrow> unit parsed" where
  "ParseTypeStream grant grows f index ipi d =
     (let s = msf_Stream f index; bad = ErrorAt InvalidTypeStream index 0
      in if \<not> stream_Valid f s \<or> stream_Size f s < 56 then Some (d, Inl bad)
         else
           do { (h, out) \<leftarrow> stream_Read f s 0 True 56;
                case out of
                  Inl e \<Rightarrow> Some (d, Inl e)
                | Inr _ \<Rightarrow>
                    do { header \<leftarrow> ReadU32 (region_of h) 4; first \<leftarrow> ReadU32 (region_of h) 8;
                         limit \<leftarrow> ReadU32 (region_of h) 12; n \<leftarrow> ReadU32 (region_of h) 16;
                         if unat header < 56 \<or> unat header > stream_Size f s then Some (d, Inl bad)
                         else
                           case CheckedAdd (unat header) (unat n) of
                             None \<Rightarrow> Some (d, Inl bad)
                           | Some end_of \<Rightarrow>
                               if end_of > stream_Size f s then Some (d, Inl bad)
                               else if \<not> grant 1 (unat n)
                               then Some (d, Inl (ErrorAt pdb_error.AllocationFailure index 0))
                               else
                                 do { (bs, out) \<leftarrow> stream_Read f s (unat header) (n \<noteq> 0) (unat n);
                                      case out of
                                        Inl e \<Rightarrow> Some (d, Inl e)
                                      | Inr _ \<Rightarrow> type_records grows (region_of bs) index (unat header) (unat limit)
                                                  ipi 0 (unat first) d } } })"

section \<open>Sound parsers\<close>

text \<open>An allocator that always has room for a text, and for a table of fewer than $2^{32} - 2$ elements at
  most; only the vectors that results are collected in are not limited. A parser is sound when it stays
  within its bytes, returns, leaves a database of the kind that theory Lookup describes, for the same
  image as \<open>z\<close>, and its value has the given property.\<close>

definition roomy :: "growth \<Rightarrow> bool" where
  "roomy grows \<longleftrightarrow> grows StringTable 1 \<and> (\<forall>n. grows (TextOf n) 1) \<and> (\<forall>t n. grows t n \<longrightarrow> t \<noteq> ResultTable \<longrightarrow> n < 2 ^ 32 - 2)"

definition built_as :: "database \<Rightarrow> growth \<Rightarrow> database \<Rightarrow> bool" where
  "built_as z grows d \<longleftrightarrow> built grows d \<and> image_base d = image_base z \<and> image_size d = image_size z \<and>
     identity d = identity z"

definition sound :: "database \<Rightarrow> growth \<Rightarrow> ('a \<Rightarrow> bool) \<Rightarrow> 'a parsed \<Rightarrow> bool" where
  "sound z grows Q run \<longleftrightarrow> (\<exists>d r. run = Some (d, r) \<and> built_as z grows d \<and> (\<forall>x. r = Inr x \<longrightarrow> Q x))"

named_theorems parsing

lemma sound_Inl [parsing]: "built_as z grows d \<Longrightarrow> sound z grows Q (Some (d, Inl e))"
  by (simp add: sound_def)

lemma sound_Inr [parsing]: "built_as z grows d \<Longrightarrow> Q x \<Longrightarrow> sound z grows Q (Some (d, Inr x))"
  by (simp add: sound_def)

lemma sound_on_ok:
  "sound z grows P run \<Longrightarrow> (\<And>d x. built_as z grows d \<Longrightarrow> P x \<Longrightarrow> sound z grows Q (next d x)) \<Longrightarrow>
    sound z grows Q (on_ok run next)"
  unfolding sound_def on_ok_def by (fastforce split: sum.splits)

lemma sound_weaken: "sound z grows P run \<Longrightarrow> (\<And>x. P x \<Longrightarrow> Q x) \<Longrightarrow> sound z grows Q run"
  unfolding sound_def by blast

lemma sound_of_db:
  "built_as z grows (fst out) \<Longrightarrow> (\<And>x. snd out = Inr x \<Longrightarrow> Q x) \<Longrightarrow> sound z grows Q (of_db out)"
  unfolding sound_def of_db_def by (auto split: prod.splits sum.splits)

lemma sound_if [parsing]:
  "(b \<Longrightarrow> sound z grows Q x) \<Longrightarrow> (\<not> b \<Longrightarrow> sound z grows Q y) \<Longrightarrow> sound z grows Q (if b then x else y)"
  by simp

lemma sound_option [parsing]:
  "(v = None \<Longrightarrow> sound z grows Q a) \<Longrightarrow> (\<And>x. v = Some x \<Longrightarrow> sound z grows Q (f x)) \<Longrightarrow>
    sound z grows Q (case v of None \<Rightarrow> a | Some x \<Rightarrow> f x)"
  by (cases v) simp_all

lemma read_total:
  "i < rsize r \<Longrightarrow> \<exists>b. read8 r i = Some b"
  "i + 2 \<le> rsize r \<Longrightarrow> \<exists>w. ReadU16 r i = Some w"
  "i + 4 \<le> rsize r \<Longrightarrow> \<exists>w'. ReadU32 r i = Some w'"
  "i + 8 \<le> rsize r \<Longrightarrow> \<exists>w''. ReadU64 r i = Some w''"
  by (simp_all add: read8_def ReadU16_def ReadU32_def ReadU64_def)

lemma sound_read [parsing]:
  "i < rsize r \<Longrightarrow> (\<And>b. sound z grows Q (f b)) \<Longrightarrow> sound z grows Q (read8 r i \<bind> f)"
  "i + 2 \<le> rsize r \<Longrightarrow> (\<And>w. sound z grows Q (g w)) \<Longrightarrow> sound z grows Q (ReadU16 r i \<bind> g)"
  "i + 4 \<le> rsize r \<Longrightarrow> (\<And>w'. sound z grows Q (h w')) \<Longrightarrow> sound z grows Q (ReadU32 r i \<bind> h)"
  using read_total [of i r] by auto

lemma sound_with_error: "sound z grows Q run \<Longrightarrow> sound z grows Q (with_error g run)"
  unfolding sound_def with_error_def by (elim exE conjE, rename_tac d r, case_tac r, auto)

text \<open>Texts and numbers are read up to the end of what is available.\<close>

lemma CStr_total:
  assumes "at + n \<le> rsize r"
  shows "\<exists>v. CStr r at n = Some v \<and> (\<forall>cs. v = Some cs \<longrightarrow> length cs < n)"
proof -
  have "\<exists>v. cstr_scan r at n cs = Some v \<and> (\<forall>cs'. v = Some cs' \<longrightarrow> length cs' < length cs + n)" for cs
    using assms
  proof (induction n arbitrary: at cs)
    case (Suc n)
    then obtain b where b: "read8 r at = Some b" using read_total(1) [of at r] by auto
    show ?case using b Suc.IH [of "at + 1" "cs @ [sint b]"] Suc.prems by auto
  qed simp
  from this [of "[]"] show ?thesis by (simp add: CStr_def)
qed

lemma sound_CStr [parsing]:
  "at + n \<le> rsize r \<Longrightarrow> sound z grows Q (f None) \<Longrightarrow> (\<And>cs. length cs < n \<Longrightarrow> sound z grows Q (f (Some cs))) \<Longrightarrow>
    sound z grows Q (CStr r at n \<bind> f)"
  using CStr_total [of at n r] by (metis bind.bind_lunit not_Some_eq)

lemma ReadNumeric_total:
  assumes "c \<le> e" and "e \<le> rsize r"
  shows "\<exists>c' v. ReadNumeric r c e = Some (c', v) \<and> c \<le> c' \<and> c' \<le> e"
proof (cases "c + 2 > e")
  case True
  then show ?thesis using assms by (simp add: ReadNumeric_def)
next
  case False
  then obtain leaf where "ReadU16 r c = Some leaf" using read_total(2) [of c r] assms by auto
  then show ?thesis
    using False assms read_total(1) [of "c + 2" r] read_total(2-4) [of "c + 2" r]
    by (auto simp: ReadNumeric_def Let_def)
qed

lemma sound_ReadNumeric [parsing]:
  "c \<le> e \<Longrightarrow> e \<le> rsize r \<Longrightarrow> (\<And>c' v. c \<le> c' \<Longrightarrow> c' \<le> e \<Longrightarrow> sound z grows Q (f (c', v))) \<Longrightarrow>
    sound z grows Q (ReadNumeric r c e \<bind> f)"
  using ReadNumeric_total [of c e r] by auto

text \<open>The operations of the database.\<close>

lemma roomy_bound: "roomy grows \<Longrightarrow> grows t n \<Longrightarrow> t \<noteq> ResultTable \<Longrightarrow> n < 2 ^ 32 - 2"
  by (simp add: roomy_def)

lemma built_asI:
  "built_as z grows d \<Longrightarrow> built grows d' \<Longrightarrow>
    image_base d' = image_base d \<and> image_size d' = image_size d \<and> identity d' = identity d \<Longrightarrow> built_as z grows d'"
  by (simp add: built_as_def)

lemma as_built: "built_as z grows d \<Longrightarrow> built grows d"
  by (simp add: built_as_def)

lemma built_Intern:
  assumes "roomy grows" and "built_as z grows d" and "length v < size_max"
  shows "built_as z grows (fst (Intern grows d v))"
proof (rule built_asI [OF assms(2)])
  note b = as_built [OF assms(2)]
  show "built grows (fst (Intern grows d v))"
  proof (cases "length (strings d) < 2 ^ 32 - 1")
    case True
    then show ?thesis using assms b by (intro built.Intern) (auto simp: roomy_def)
  next
    case False
    then have "\<not> grows StringTable (length (strings d) + 1)"
      using roomy_bound [OF assms(1), of StringTable "length (strings d) + 1"] by auto
    then show ?thesis using b by (auto simp: Intern_def split: option.splits)
  qed
qed (auto simp: Intern_def split: option.splits)

lemma built_AddType: "roomy grows \<Longrightarrow> built_as z grows d \<Longrightarrow> built_as z grows (fst (AddType grows d t))"
  using roomy_bound [of grows TypeTable "length (types d) + 1"] built.AddType [of grows d t]
  by (auto simp: AddType_def built_as_def)

lemma sound_Intern:
  "roomy grows \<Longrightarrow> built_as z grows d \<Longrightarrow> length v < size_max \<Longrightarrow> (\<And>i. Q i) \<Longrightarrow> sound z grows Q (of_db (Intern grows d v))"
  by (intro sound_of_db built_Intern) auto

lemma sound_AddType:
  "roomy grows \<Longrightarrow> built_as z grows d \<Longrightarrow> Q () \<Longrightarrow> sound z grows Q (of_db (AddType grows d t))"
  by (intro sound_of_db built_AddType) auto

text \<open>A text from the bytes of a region, stored.\<close>

lemma sound_Intern_then:
  assumes "roomy grows" and "built_as z grows d" and "length v < size_max"
    and "\<And>d i. built_as z grows d \<Longrightarrow> sound z grows Q (next d i)"
  shows "sound z grows Q (on_ok (of_db (Intern grows d v)) next)"
  using assms(4) by (intro sound_on_ok [OF sound_Intern [OF assms(1-3)]]) auto

section \<open>The parsers of types\<close>

lemma name_field_sound:
  assumes "roomy grows" and "built_as z grows d" and "c \<le> e" and "e \<le> rsize r" and "rsize r < 2 ^ 63"
  shows "sound z grows (\<lambda>s. \<exists>c' f'. s = Add c' f' \<and> c \<le> c' \<and> c' \<le> e) (name_field grows r c e f d)"
  unfolding name_field_def using assms
  by (intro parsing sound_Intern_then) (auto simp: size_max_def)

definition step_within :: "nat \<Rightarrow> nat \<Rightarrow> field_step \<Rightarrow> bool" where
  "step_within c e s \<longleftrightarrow> (case s of Add c' f \<Rightarrow> c \<le> c' \<and> c' \<le> e | Skip c' i \<Rightarrow> c \<le> c' \<and> c' \<le> e)"

lemma name_field_within:
  assumes "roomy grows" and "built_as z grows d" and "b \<le> c" and "c \<le> e" and "e \<le> rsize r" and "rsize r < 2 ^ 63"
  shows "sound z grows (step_within b e) (name_field grows r c e f d)"
  using name_field_sound [OF assms(1,2,4-6)]
  by (rule sound_weaken) (use assms(3) in \<open>auto simp: step_within_def\<close>)

lemma field_record_sound:
  assumes "roomy grows" and "built_as z grows d" and "c \<le> e" and "e \<le> rsize r" and "rsize r < 2 ^ 63"
  shows "sound z grows (step_within c e) (field_record grows r kind c e info d)"
  unfolding field_record_def Let_def using assms
  by (intro parsing name_field_within; (simp only: prod.case)?;
      (intro parsing name_field_within)?; (simp add: step_within_def)?)

lemma built_AddField: "built_as z grows d \<Longrightarrow> AddField grows d f = (d', r) \<Longrightarrow> built_as z grows d'"
  using built.AddField [of grows d f] by (auto simp: AddField_def built_as_def split: if_splits)

lemma built_AddParameterType: "built_as z grows d \<Longrightarrow> built_as z grows (fst (AddParameterType grows d i))"
  using built.AddParameterType [of grows d i] by (auto simp: AddParameterType_def built_as_def)

lemma field_loop_sound:
  assumes "roomy grows" and "built_as z grows d" and "c \<le> e" and "e \<le> rsize r" and "rsize r < 2 ^ 63"
  shows "sound z grows (\<lambda>_. True) (field_loop grows r c e info d)"
  using assms(2,3)
proof (induction "e - c" arbitrary: c info d rule: less_induct)
  case less
  show ?case
  proof (cases "c < e")
    case False
    then show ?thesis using less.prems by (subst field_loop.simps) (simp add: sound_Inr)
  next
    case c: True
    then obtain b where b: "read8 r c = Some b" using read_total(1) [of c r] assms(4) by auto
    define skip where "skip = (let n = unat (b AND 0x0F) in if n = 0 then 1 else n)"
    show ?thesis
    proof (cases "b \<ge> 0xF0")
      case True
      have s: "0 < skip" by (simp add: skip_def Let_def)
      have "sound z grows (\<lambda>_. True) (field_loop grows r (c + skip) e info d)" if "\<not> c + skip > e"
        using that s c less.prems by (intro less.hyps) auto
      then show ?thesis using c b True less.prems
        by (subst field_loop.simps) (simp add: Let_def skip_def sound_Inr)
    next
      case False
      show ?thesis
      proof (cases "c + 2 > e")
        case True
        then show ?thesis using c b False less.prems by (subst field_loop.simps) (simp add: sound_Inr)
      next
        case room: False
        then obtain kind where k: "ReadU16 r c = Some kind" using read_total(2) [of c r] assms(4) by auto
        obtain d' s where s: "field_record grows r (unat kind) (c + 2) e info d = Some (d', s)" "built_as z grows d'"
          "\<forall>x. s = Inr x \<longrightarrow> step_within (c + 2) e x"
          using field_record_sound [OF assms(1) less.prems(1) _ assms(4,5), of "c + 2" "unat kind" info] room
          unfolding sound_def by auto
        note unfolded = field_loop.simps [of grows r c e info d]
        have more: "sound z grows (\<lambda>_. True) (field_loop grows r c' e i d'')"
          if "c + 2 \<le> c'" "c' \<le> e" "built_as z grows d''" for c' i d''
          using that c by (intro less.hyps) auto
        show ?thesis
        proof (cases s)
          case (Inl err)
          then show ?thesis using c b False room k s(1,2) by (simp add: unfolded sound_Inl)
        next
          case (Inr x)
          then have w: "step_within (c + 2) e x" using s(3) by simp
          show ?thesis
          proof (cases x)
            case (Skip c' i)
            then show ?thesis using c b False room k s(1,2) w Inr more by (simp add: unfolded step_within_def)
          next
            case (Add c' f)
            obtain d'' out where o': "AddField grows d' f = (d'', out)" by fastforce
            have b': "built_as z grows d''" using built_AddField [OF s(2) o'] .
            show ?thesis using c b False room k s(1,2) w Inr Add o' b' more
              by (cases out) (simp_all add: unfolded step_within_def sound_Inl)
          qed
        qed
      qed
    qed
  qed
qed

lemma ParseFieldList_sound:
  "roomy grows \<Longrightarrow> built_as z grows d \<Longrightarrow> c \<le> e \<Longrightarrow> e \<le> rsize r \<Longrightarrow> rsize r < 2 ^ 63 \<Longrightarrow>
    sound z grows (\<lambda>_. True) (ParseFieldList grows r c e info d)"
  unfolding ParseFieldList_def by (rule field_loop_sound)

lemma type_name_sound:
  assumes "roomy grows" and "built_as z grows d" and "c \<le> e" and "e \<le> rsize r" and "rsize r < 2 ^ 63"
  shows "sound z grows (\<lambda>(c', i). c' \<le> e) (type_name grows r bad c e d)"
  unfolding type_name_def using assms
  by (intro parsing sound_Intern_then) (auto simp: size_max_def)

lemma optional_name_sound:
  assumes "roomy grows" and "built_as z grows d" and "c \<le> e" and "e \<le> rsize r" and "rsize r < 2 ^ 63"
  shows "sound z grows (\<lambda>_. True) (optional_name grows r c e old d)"
  unfolding optional_name_def using assms
  by (intro parsing sound_Intern) (auto simp: size_max_def)

lemma optional_name_then:
  assumes "roomy grows" and "built_as z grows d" and "c \<le> e" and "e \<le> rsize r" and "rsize r < 2 ^ 63"
    and "\<And>d i. built_as z grows d \<Longrightarrow> sound z grows Q (next d i)"
  shows "sound z grows Q (on_ok (optional_name grows r c e old d) next)"
  using assms(6) by (intro sound_on_ok [OF optional_name_sound [OF assms(1-5)]]) auto

lemma type_name_then:
  assumes "roomy grows" and "built_as z grows d" and "c \<le> e" and "e \<le> rsize r" and "rsize r < 2 ^ 63"
    and "\<And>d c' i. built_as z grows d \<Longrightarrow> c' \<le> e \<Longrightarrow> sound z grows Q (next d (c', i))"
  shows "sound z grows Q (on_ok (type_name grows r bad c e d) next)"
  using assms(6) by (intro sound_on_ok [OF type_name_sound [OF assms(1-5)]]) auto

lemma aggregate_sound:
  assumes "roomy grows" and "built_as z grows d" and "c \<le> e" and "e \<le> rsize r" and "rsize r < 2 ^ 63"
  shows "sound z grows (\<lambda>_. True) (aggregate grows r bad c e info d)"
  unfolding aggregate_def Let_def using assms
  by (intro parsing; (simp only: prod.case)?;
      (intro parsing type_name_then; (simp only: prod.case)?; (intro parsing optional_name_then; simp?)?)?)

lemma add_parameters_sound:
  assumes "roomy grows" and "built_as z grows d" and "c + 4 * n \<le> rsize r"
  shows "sound z grows (\<lambda>_. True) (add_parameters grows r c n info d)"
  using assms(2,3)
proof (induction n arbitrary: c info d)
  case (Suc n)
  have "sound z grows (\<lambda>_. True) (of_db (AddParameterType grows d x))" for x
    using Suc.prems(1) by (intro sound_of_db built_AddParameterType) auto
  with Suc show ?case by (simp, intro parsing sound_on_ok) auto
qed (simp add: sound_Inr)

lemma type_body_sound:
  assumes "roomy grows" and "built_as z grows d" and "c \<le> e" and "e \<le> rsize r" and "rsize r < 2 ^ 63"
  shows "sound z grows (\<lambda>_. True) (type_body grows r kind bad c e info d)"
  unfolding type_body_def using assms
  by (intro parsing add_parameters_sound type_name_then optional_name_then aggregate_sound
        sound_with_error ParseFieldList_sound;
      (simp only: prod.case)?;
      (intro parsing type_name_then optional_name_then; (simp only: prod.case)?; (intro parsing)?; simp?)?)

lemma ParseTypeRecord_sound:
  assumes "roomy grows" and "built_as z grows d" and "c + n \<le> rsize r" and "rsize r < 2 ^ 63"
  shows "sound z grows (\<lambda>_. True) (ParseTypeRecord grows r index kind c n stream d)"
  unfolding ParseTypeRecord_def using assms
  by (intro sound_on_ok [OF type_body_sound] sound_AddType) auto

lemma AddPrimitiveTypes_sound:
  assumes "roomy grows" and "built_as z grows d"
  shows "sound z grows (\<lambda>_. True) (AddPrimitiveTypes grows d)"
proof -
  have pointers: "sound z grows (\<lambda>_. True) (add_pointers grows index ms d)" if "built_as z grows d" for index ms d
    using that
    by (induction ms arbitrary: d) (auto intro!: sound_Inr sound_on_ok [OF sound_AddType [OF assms(1)]])
  have "sound z grows (\<lambda>_. True) (add_primitives grows ps d)"
    if "\<forall>(i, s, n) \<in> set ps. length s < size_max" for ps
    using assms(2) that
  proof (induction ps arbitrary: d)
    case (Cons p ps)
    obtain i s n where p: "p = (i, s, n)" using prod_cases3 by blast
    with Cons show ?case
      by (auto simp: name_of_string_def intro!: sound_Intern_then [OF assms(1)] sound_on_ok [OF pointers]
          sound_on_ok [OF sound_AddType [OF assms(1)]])
  qed (simp add: sound_Inr)
  moreover have "\<forall>(i, s, n) \<in> set primitives. length s < size_max" by (simp add: primitives_def size_max_def)
  ultimately show ?thesis unfolding AddPrimitiveTypes_def by blast
qed

lemma align_above: "v < 2 ^ 63 \<Longrightarrow> 0 < a \<Longrightarrow> a \<le> 4 \<Longrightarrow> v \<le> msf_AlignUp v a"
proof -
  assume v: "v < 2 ^ 63" and a: "0 < a" "a \<le> 4"
  have "v \<le> msf_AlignUp v a div a * a" using blocks_hold [of a v] v a by simp
  also have "\<dots> \<le> msf_AlignUp v a" by simp
  finally show ?thesis .
qed

lemma type_records_sound:
  assumes "roomy grows" and "built_as z grows d" and "rsize r < 2 ^ 62"
  shows "sound z grows (\<lambda>_. True) (type_records grows r stream header limit ipi at raw d)"
  using assms(2)
proof (induction "rsize r - at" arbitrary: at raw d rule: less_induct)
  case less
  note unfolded = type_records.simps [of grows r stream header limit ipi at raw d]
  show ?case
  proof (cases "at < rsize r \<and> raw < limit")
    case False
    then show ?thesis using less.prems by (auto simp: unfolded sound_Inr)
  next
    case at: True
    show ?thesis
    proof (cases "at + 4 > rsize r")
      case True
      then show ?thesis using at less.prems by (simp add: unfolded sound_Inl)
    next
      case False
      then obtain n kind where w: "ReadU16 r at = Some n" "ReadU16 r (at + 2) = Some kind"
        using read_total(2) [of at r] read_total(2) [of "at + 2" r] by auto
      show ?thesis
      proof (cases "unat n < 2 \<or> at + 2 + unat n > rsize r")
        case True
        then show ?thesis using at False w less.prems by (simp add: unfolded sound_Inl)
      next
        case fits: False
        define index where "index = (if ipi then MakeIpiTypeIndex raw else raw)"
        obtain d' s where s: "ParseTypeRecord grows r index (unat kind) (at + 4) (unat n - 2) stream d = Some (d', s)"
          "built_as z grows d'"
          using ParseTypeRecord_sound [OF assms(1) less.prems, of "at + 4" "unat n - 2" r] fits assms(3)
          unfolding sound_def by fastforce
        have "at < msf_AlignUp (at + 2 + unat n) 4"
          using align_above [of "at + 2 + unat n" 4] fits assms(3) by simp
        then have "sound z grows (\<lambda>_. True)
            (type_records grows r stream header limit ipi (msf_AlignUp (at + 2 + unat n) 4) (raw + 1) d')"
          using at s(2) by (intro less.hyps) auto
        then show ?thesis using at False w fits s
          by (cases s) (auto simp: unfolded index_def sound_Inl)
      qed
    qed
  qed
qed

text \<open>Reading from an opened file.\<close>

lemma stream_Read_full:
  assumes "msf_inv f"
  shows "(\<exists>e. stream_Read f s at b n = Some ([], Inl e)) \<or>
    (\<exists>bs. stream_Read f s at b n = Some (bs, Inr ()) \<and> length bs = n)"
  using assms by (auto simp: stream_Read_def ReadStream_eq)

lemma rsize_region_of [simp]: "rsize (region_of bs) = length bs"
  by (simp add: region_of_def)

lemma ParseTypeStream_sound:
  assumes "roomy grows" and "built_as z grows d" and "msf_inv f"
  shows "sound z grows (\<lambda>_. True) (ParseTypeStream grant grows f index ipi d)"
proof (cases "\<not> stream_Valid f (msf_Stream f index) \<or> stream_Size f (msf_Stream f index) < 56")
  case True
  then show ?thesis using assms(2) by (auto simp: ParseTypeStream_def Let_def sound_Inl)
next
  case False
  define s where "s = msf_Stream f index"
  have records: "sound z grows (\<lambda>_. True)
      (type_records grows (region_of bs) index header limit ipi 0 start d)" if "length bs < 2 ^ 32" for bs header limit start
    using that assms by (intro type_records_sound) auto
  have rest: "sound z grows (\<lambda>_. True)
      (do { (bs, out) \<leftarrow> stream_Read f s at b (unat (n :: u32));
            case out of Inl e \<Rightarrow> Some (d, Inl e)
            | Inr _ \<Rightarrow> type_records grows (region_of bs) index header limit ipi 0 start d })" for at b n header limit start
    using stream_Read_full [OF assms(3), of s at b "unat n"] records unat_lt2p [of n] assms(2)
    by (auto simp: sound_Inl)
  from stream_Read_full [OF assms(3), of s 0 True 56] show ?thesis
  proof (elim disjE exE conjE)
    fix e assume "stream_Read f s 0 True 56 = Some ([], Inl e)"
    then show ?thesis using False assms(2) by (simp add: ParseTypeStream_def s_def Let_def sound_Inl)
  next
    fix h assume h: "stream_Read f s 0 True 56 = Some (h, Inr ())" "length h = 56"
    then show ?thesis
      using False assms(2) unfolding ParseTypeStream_def s_def [symmetric] Let_def
      by (simp, intro parsing rest) (simp_all add: s_def)
  qed
qed

end
