(* ===== verification/Decorated.thy ===== *)
theory Decorated
  imports Database
begin

text \<open>
  \<^verbatim>\<open>SymbolDatabase::NormalizeMsvcName\<close>: the qualified and the base name out of the name that
  Microsoft's compiler gives a symbol. The characters 58, 63 and 64 are the colon, the question mark and
  the at sign.
\<close>

section \<open>Decorated names\<close>

text \<open>The loop over the parts of \<^verbatim>\<open>?Function@Class@Namespace@@\<close>; the flag is whether none was refused.\<close>

function msvc_components :: "growth \<Rightarrow> name \<Rightarrow> nat \<Rightarrow> name list \<Rightarrow> (name list \<times> bool) option" where
  "msvc_components grows v cursor cs =
     (if cursor < length v then
        do { at \<leftarrow> view_FindChar (view_Substr (Some v) cursor NotFound) 64 0;
             if at = NotFound \<or> at = 0 then Some (cs, True)
             else if \<not> grows ResultTable (length cs + 1) then Some (cs, False)
             else
               (let cs = cs @ [chars (view_Substr (Some v) cursor at)]
                in if cursor + at + 1 < length v \<and> v ! (cursor + at + 1) = 64 then Some (cs, True)
                   else msvc_components grows v (cursor + at + 1) cs) }
      else Some (cs, True))"
  by pat_completeness auto
termination
  by (relation "measure (\<lambda>(grows, v, cursor, cs). length v - cursor)") auto

declare msvc_components.simps [simp del]

text \<open>The parts appended from the outermost in, with \<^verbatim>\<open>::\<close> between them.\<close>

fun append_parts :: "growth \<Rightarrow> name list \<Rightarrow> name \<Rightarrow> name \<times> bool" where
  "append_parts grows [] q = (q, True)"
| "append_parts grows (p # ps) q =
     (if \<not> grows (TextOf (length (q @ p))) 1 then (q, False)
      else if ps = [] then (q @ p, True)
      else if \<not> grows (TextOf (length (q @ p) + 2)) 1 then (q @ p, False)
      else append_parts grows ps (q @ p @ [58, 58]))"

text \<open>\<open>Qualified\<close>, \<open>Base\<close> and the result.\<close>

definition NormalizeMsvcName :: "growth \<Rightarrow> name \<Rightarrow> (name \<times> name \<times> bool) option" where
  "NormalizeMsvcName grows v =
     (if v = [] then Some ([], [], False)
      else if v ! 0 \<noteq> 63 then
        if \<not> grows (TextOf (length v)) 1 then Some ([], [], False)
        else
          do { scope \<leftarrow> view_FindLast (Some v) (Some [58, 58]) NotFound;
               let base = (if scope = NotFound then v else chars (view_Substr (Some v) (scope + 2) NotFound));
               Some (if grows (TextOf (length base)) 1 then (v, base, True) else (v, [], False)) }
      else
        do { (cs, ok) \<leftarrow> msvc_components grows v 1 [];
             if \<not> ok then Some ([], [], False)
             else if cs = [] then
               Some (if grows (TextOf (length v)) 1 then (v, v, True) else ([], [], False))
             else if \<not> grows (TextOf (length (cs ! 0))) 1 then Some ([], [], False)
             else (case append_parts grows (rev cs) [] of (q, ok) \<Rightarrow> Some (q, cs ! 0, ok)) })"

section \<open>Termination and sizes\<close>

lemma view_FindChar_total:
  "view_size v < size_max \<Longrightarrow> \<exists>i. view_FindChar v c p = Some i \<and> (i = NotFound \<or> i < view_size v)"
proof -
  assume "view_size v < size_max"
  have "loop_find [p..<view_size v] (\<lambda>i. do { x \<leftarrow> view_read v i; Some (x = c) }) =
      Some (find (\<lambda>i. chars v ! i = c) [p..<view_size v])"
    by (rule loop_find_eq) auto
  then show ?thesis
    by (auto simp: view_FindChar_def find_upt_Some split: option.splits)
qed

lemma msvc_components_total:
  assumes "length v < size_max"
  shows "\<exists>ps ok. msvc_components grows v cursor cs = Some (cs @ ps, ok) \<and>
    sum_list (map (\<lambda>p. length p + 1) ps) \<le> length v - cursor"
proof (induction "length v - cursor" arbitrary: cursor cs rule: less_induct)
  case less
  show ?case
  proof (cases "cursor < length v")
    case False
    then show ?thesis by (subst msvc_components.simps) (simp, blast)
  next
    case True
    have tail: "view_Substr (Some v) cursor NotFound = Some (drop cursor v)"
      using True by (simp add: view_Substr_def view_size_def chars_def)
    obtain at where at: "view_FindChar (Some (drop cursor v)) (64::int) 0 = Some at"
      "at = NotFound \<or> at < length v - cursor"
      using view_FindChar_total [of "Some (drop cursor v)" 64 0] assms le_less_trans [OF diff_le_self assms] by (auto simp: view_size_def chars_def size_max_def)
    define part where "part = chars (view_Substr (Some v) cursor at)"
    have step: "msvc_components grows v cursor cs =
        (if at = NotFound \<or> at = 0 then Some (cs, True)
         else if \<not> grows ResultTable (length cs + 1) then Some (cs, False)
         else if cursor + at + 1 < length v \<and> v ! (cursor + at + 1) = 64 then Some (cs @ [part], True)
         else msvc_components grows v (cursor + at + 1) (cs @ [part]))"
      using True by (subst msvc_components.simps) (simp add: tail at(1) Let_def part_def)
    have part: "at \<noteq> NotFound \<Longrightarrow> length part \<le> at"
      using True by (simp add: part_def view_Substr_def view_size_def chars_def Let_def)
    obtain ps ok where ps: "msvc_components grows v (cursor + at + 1) (cs @ [part]) = Some ((cs @ [part]) @ ps, ok)"
      "sum_list (map (\<lambda>p. length p + 1) ps) \<le> length v - (cursor + at + 1)"
    proof -
      have "length v - (cursor + at + 1) < length v - cursor" using True by linarith
      from less [OF this, of "cs @ [part]"] that show ?thesis by blast
    qed
    show ?thesis
    proof (cases "at = NotFound \<or> at = 0 \<or> \<not> grows ResultTable (length cs + 1)")
      case True
      then show ?thesis by (auto simp: step)
    next
      case False
      then have "sum_list (map (\<lambda>p. length p + 1) (part # ps)) \<le> length v - cursor"
        "sum_list (map (\<lambda>p. length p + 1) [part]) \<le> length v - cursor"
        using part at(2) ps(2) by auto
      moreover have "msvc_components grows v cursor cs = Some (cs @ [part], True) \<or>
          msvc_components grows v cursor cs = Some (cs @ part # ps, ok)"
        using False ps(1) by (simp add: step)
      ultimately show ?thesis by blast
    qed
  qed
qed

lemma append_parts_length: "length (fst (append_parts grows ps q)) \<le> length q + 2 * sum_list (map (\<lambda>p. length p + 1) ps)"
proof (induction grows ps q rule: append_parts.induct)
  case (2 grows p ps q)
  then show ?case by (cases "grows (TextOf (length (q @ p))) 1 \<and> ps \<noteq> [] \<and> grows (TextOf (length (q @ p) + 2)) 1") auto
qed simp

text \<open>The function returns on every name, fails on the empty one, and the texts are at most twice as long.\<close>

lemma NormalizeMsvcName_total:
  assumes "2 * length v < size_max"
  shows "\<exists>out. NormalizeMsvcName grows v = Some out \<and> length (fst out) < size_max \<and>
    length (fst (snd out)) < size_max \<and> (snd (snd out) \<longrightarrow> v \<noteq> [])"
proof (cases "v = []")
  case True
  then show ?thesis by (simp add: NormalizeMsvcName_def size_max_def)
next
  case False
  show ?thesis
  proof (cases "v ! 0 = 63")
    case plain: False
    have "\<exists>s. view_FindLast (Some v) (Some [58, 58]) NotFound = Some s"
      using view_FindLast_search [of "Some [58, 58]" "Some v" NotFound]
      by (cases "2 \<le> length v") (auto simp: view_FindLast_def view_size_def chars_def)
    moreover have small: "length v < size_max" using assms by simp
    moreover have "length (chars (view_Substr (Some v) p NotFound)) < size_max" for p
      using small by (auto simp: view_Substr_def view_size_def chars_def Let_def)
    ultimately show ?thesis
      using False plain by (auto simp: NormalizeMsvcName_def Let_def)
  next
    case True
    obtain ps ok where ps: "msvc_components grows v 1 [] = Some (ps, ok)"
      "sum_list (map (\<lambda>p. length p + 1) ps) \<le> length v - 1"
      using msvc_components_total [of v grows 1 "[]"] assms by auto
    have len: "length p \<le> length v" if "p \<in> set ps" for p
      using member_le_sum_list [of "length p + 1" "map (\<lambda>p. length p + 1) ps"] that ps(2) by auto
    obtain q r where q: "append_parts grows (rev ps) [] = (q, r)" by fastforce
    have "length q \<le> 2 * sum_list (map (\<lambda>p. length p + 1) ps)"
      using append_parts_length [of grows "rev ps" "[]"] q by (simp add: rev_map [symmetric])
    then have "length q < size_max" using ps(2) assms by simp
    moreover have "ps \<noteq> [] \<Longrightarrow> length (ps ! 0) < size_max" using len [of "ps ! 0"] assms by fastforce
    ultimately show ?thesis using False True ps(1) q assms by (auto simp: NormalizeMsvcName_def size_max_def)
  qed
qed

section \<open>Names of Microsoft's compiler\<close>

text \<open>The qualified name of nested scopes, outermost first, and the decorated name that lists them innermost
  first.\<close>

fun scoped :: "name list \<Rightarrow> name" where
  "scoped [] = []"
| "scoped [p] = p"
| "scoped (p # ps) = p @ [58, 58] @ scoped ps"

definition at_terminated :: "name list \<Rightarrow> name" where
  "at_terminated ps = concat (map (\<lambda>p. p @ [64]) ps)"

lemma FindChar_part:
  assumes "v = pre @ p @ 64 # rest" and "64 \<notin> set p" and "length v < size_max"
  shows "view_FindChar (view_Substr (Some v) (length pre) NotFound) (64::int) 0 = Some (length p)"
    and "chars (view_Substr (Some v) (length pre) (length p)) = p"
proof -
  have "view_Substr (Some v) (length pre) NotFound = Some (p @ 64 # rest)"
    using assms(1) by (simp add: view_Substr_def view_size_def chars_def)
  moreover have "find (\<lambda>i. (p @ 64 # rest) ! i = 64) [0..<length (p @ 64 # rest)] = Some (length p)"
    unfolding find_upt_Some using assms(2) by (auto simp: nth_append set_conv_nth)
  moreover have "loop_find [0..<length (p @ 64 # rest)]
      (\<lambda>i. do { x \<leftarrow> view_read (Some (p @ 64 # rest)) i; Some (x = 64) }) =
      Some (find (\<lambda>i. (p @ 64 # rest) ! i = 64) [0..<length (p @ 64 # rest)])"
    by (rule loop_find_eq) (auto simp: view_read_def view_size_def chars_def)
  ultimately show "view_FindChar (view_Substr (Some v) (length pre) NotFound) 64 0 = Some (length p)"
    by (simp add: view_FindChar_def view_size_def chars_def)
  show "chars (view_Substr (Some v) (length pre) (length p)) = p"
    using assms(1,3) by (auto simp: view_Substr_def view_size_def chars_def)
qed

lemma msvc_components_parts:
  assumes "\<forall>n. grows ResultTable n" and "\<forall>p \<in> set ps. p \<noteq> [] \<and> 64 \<notin> set p" and "ps \<noteq> []"
    and "v = pre @ at_terminated ps @ 64 # rest" and "length v < size_max"
  shows "msvc_components grows v (length pre) cs = Some (cs @ ps, True)"
  using assms(2-4)
proof (induction ps arbitrary: pre cs)
  case (Cons p ps)
  define more where "more = at_terminated ps @ 64 # rest"
  have v: "v = pre @ p @ 64 # more" using Cons.prems(3) by (simp add: at_terminated_def more_def)
  have p: "p \<noteq> []" "64 \<notin> set p" using Cons.prems(1) by simp_all
  have n: "length p \<noteq> NotFound" using assms(5) v by simp
  have at: "v ! (length pre + length p + 1) = more ! 0" by (simp add: v nth_append)
  have "more \<noteq> []" by (simp add: more_def)
  then have len: "length pre + length p + 1 < length v" by (simp add: v)
  have step: "msvc_components grows v (length pre) cs =
      (if more ! 0 = 64 then Some (cs @ [p], True)
       else msvc_components grows v (length (pre @ p @ [64])) (cs @ [p]))"
    using FindChar_part [OF v p(2) assms(5)] p(1) n assms(1) len at
    by (subst msvc_components.simps) (simp add: Let_def)
  show ?case
  proof (cases ps)
    case Nil
    then show ?thesis using step by (simp add: more_def at_terminated_def)
  next
    case (Cons q qs)
    then have "more ! 0 \<noteq> 64" using Cons.prems(1)
      by (cases q) (auto simp: more_def at_terminated_def)
    moreover have "msvc_components grows v (length (pre @ p @ [64])) (cs @ [p]) = Some ((cs @ [p]) @ ps, True)"
      by (rule Cons.IH) (use Cons Cons.prems in \<open>simp_all add: at_terminated_def\<close>)
    ultimately show ?thesis using step by simp
  qed
qed simp

lemma append_parts_scoped:
  "\<forall>t n. grows t n \<Longrightarrow> append_parts grows ps q = (q @ scoped ps, True)"
  by (induction ps arbitrary: q rule: scoped.induct) simp_all

text \<open>C31: \<open>NormalizeMsvcName\<close> on a decorated name, the scopes from the innermost to the outermost with an
  at sign after each, one more at sign and the encoded type: the qualified name is the scopes from the
  outermost to the innermost with double colons between them, and the base name is the innermost.\<close>

theorem NormalizeMsvcName_decorated:
  assumes "\<forall>t n. grows t n" and "ps \<noteq> []" and "\<forall>p \<in> set ps. p \<noteq> [] \<and> 64 \<notin> set p"
    and "v = 63 # at_terminated ps @ 64 # rest" and "length v < size_max"
  shows "NormalizeMsvcName grows v = Some (scoped (rev ps), hd ps, True)"
proof -
  have "msvc_components grows v (length [63::int]) [] = Some ([] @ ps, True)"
    by (rule msvc_components_parts) (use assms in auto)
  then show ?thesis
    using assms(1,2,4) by (simp add: NormalizeMsvcName_def hd_conv_nth append_parts_scoped [OF assms(1)])
qed

text \<open>\<^verbatim>\<open>?ab@c@@Y\<close>\<close>

theorem NormalizeMsvcName_decorated_witness:
  "NormalizeMsvcName (\<lambda>t n. True) [63, 97, 98, 64, 99, 64, 64, 89] = Some ([99, 58, 58, 97, 98], [97, 98], True)"
  using NormalizeMsvcName_decorated [of "\<lambda>t n. True" "[[97, 98], [99]]" "[63, 97, 98, 64, 99, 64, 64, 89]" "[89]"]
  by (simp add: at_terminated_def size_max_def)

end
