(* ===== verification/ByteMemory.thy ===== *)
theory ByteMemory
  imports Prelude
begin

text \<open>
  The machine's memory as the code that follows raw pointers sees it: a partial map from addresses
  to bytes, in which a read of an unmapped address has no result, with the little-endian reads and
  writes of the unsigned types, and the layout of the structures that pointers are cast to.
\<close>

type_synonym memory = "u64 \<Rightarrow> u8 option"

definition read16 :: "memory \<Rightarrow> u64 \<Rightarrow> u16 option" where
  "read16 m a = do { x \<leftarrow> m a; y \<leftarrow> m (a + 1); Some (word_cat y x) }"

definition read32 :: "memory \<Rightarrow> u64 \<Rightarrow> u32 option" where
  "read32 m a = do { x \<leftarrow> read16 m a; y \<leftarrow> read16 m (a + 2); Some (word_cat y x) }"

definition read64 :: "memory \<Rightarrow> u64 \<Rightarrow> u64 option" where
  "read64 m a = do { x \<leftarrow> read32 m a; y \<leftarrow> read32 m (a + 4); Some (word_cat y x) }"

definition byte_of :: "u64 \<Rightarrow> nat \<Rightarrow> u8" where
  "byte_of v i = ucast (drop_bit (8 * i) v)"

definition write64 :: "memory \<Rightarrow> u64 \<Rightarrow> u64 \<Rightarrow> memory" where
  "write64 m a v b = (if unat (b - a) < 8 then Some (byte_of v (unat (b - a))) else m b)"

lemma read64_write64: "read64 (write64 m a v) a = Some v"
proof -
  have near: "write64 m a v (a + of_nat i) = Some (byte_of v i)" if "i < 8" for i
  proof -
    have "i < 2 ^ 64" using that by simp
    then have "unat (a + of_nat i - a) = i" by (simp add: unat_of_nat_small)
    with that show ?thesis by (simp add: write64_def)
  qed
  have b: "write64 m a v a = Some (byte_of v 0)" "write64 m a v (a + 1) = Some (byte_of v 1)"
    "write64 m a v (a + 2) = Some (byte_of v 2)" "write64 m a v (a + 3) = Some (byte_of v 3)"
    "write64 m a v (a + 4) = Some (byte_of v 4)" "write64 m a v (a + 5) = Some (byte_of v 5)"
    "write64 m a v (a + 6) = Some (byte_of v 6)" "write64 m a v (a + 7) = Some (byte_of v 7)"
    using near [of 0] near [of 1] near [of 2] near [of 3] near [of 4] near [of 5] near [of 6] near [of 7]
    by (simp_all only: of_nat_numeral of_nat_0 of_nat_1 add_0_right one_less_numeral_iff less_numeral_simps) simp_all
  have "read64 (write64 m a v) a = Some (word_cat
      (word_cat (word_cat (byte_of v 7) (byte_of v 6) :: u16) (word_cat (byte_of v 5) (byte_of v 4) :: u16) :: u32)
      (word_cat (word_cat (byte_of v 3) (byte_of v 2) :: u16) (word_cat (byte_of v 1) (byte_of v 0) :: u16) :: u32))"
    by (simp add: read64_def read32_def read16_def b add.assoc)
  moreover have "word_cat
      (word_cat (word_cat (byte_of v 7) (byte_of v 6) :: u16) (word_cat (byte_of v 5) (byte_of v 4) :: u16) :: u32)
      (word_cat (word_cat (byte_of v 3) (byte_of v 2) :: u16) (word_cat (byte_of v 1) (byte_of v 0) :: u16) :: u32) = v"
    by (rule bit_word_eqI) (auto simp: bit_word_cat_iff byte_of_def bit_ucast_iff bit_drop_bit_eq)
  ultimately show ?thesis by simp
qed

text \<open>A read above a write is not affected by it.\<close>

lemma write64_below:
  assumes "unat a + 8 \<le> unat b"
  shows "write64 m a v b = m b"
proof -
  have "unat (b - a) = unat b - unat a" using assms by (simp add: unat_sub word_le_nat_alt)
  with assms have "\<not> unat (b - a) < 8" by linarith
  then show ?thesis by (simp only: write64_def if_False)
qed

lemma unat_add_small: "unat b + k < 2 ^ 64 \<Longrightarrow> unat (b + of_nat k) = unat b + k" for b :: u64
  by (simp add: unat_word_ariths unat_of_nat_small)

lemma read64_above:
  assumes "\<And>i. i < 8 \<Longrightarrow> m' (b + of_nat i) = m (b + of_nat i)"
  shows "read64 m' b = read64 m b"
  using assms [of 0] assms [of 1] assms [of 2] assms [of 3] assms [of 4] assms [of 5] assms [of 6] assms [of 7]
  by (simp add: read64_def read32_def read16_def add.assoc)

text \<open>Two words in memory that do not overlap.\<close>

definition apart :: "u64 \<Rightarrow> u64 \<Rightarrow> bool" where
  "apart a b \<longleftrightarrow> unat a + 8 \<le> unat b \<or> unat b + 8 \<le> unat a"

lemma write64_other:
  assumes "unat b + 1 \<le> unat a \<or> unat a + 8 \<le> unat b" and "unat a + 8 \<le> 2 ^ 64"
  shows "write64 m a v b = m b"
proof (cases "unat a + 8 \<le> unat b")
  case True
  then show ?thesis by (rule write64_below)
next
  case False
  with assms have lt: "unat b < unat a" by simp
  have "unat (b - a) = 2 ^ 64 + unat b - unat a"
    using lt by (simp add: unat_sub_if_size word_size)
  then have "\<not> unat (b - a) < 8" using lt assms(2) by linarith
  then show ?thesis by (simp only: write64_def if_False)
qed

lemma read64_write64_apart:
  assumes "apart a b" and "unat a + 8 \<le> 2 ^ 64" and "unat b + 8 \<le> 2 ^ 64"
  shows "read64 (write64 m a v) b = read64 m b"
proof (rule read64_above)
  fix i :: nat assume i: "i < 8"
  with assms(3) have "unat (b + of_nat i) = unat b + i" by (intro unat_add_small) simp
  with i assms(1,2) show "write64 m a v (b + of_nat i) = m (b + of_nat i)"
    by (intro write64_other) (auto simp: apart_def)
qed

text \<open>The memory that holds \<open>bs\<close> at \<open>base\<close>, over another one.\<close>

definition bytes_at :: "u64 \<Rightarrow> u8 list \<Rightarrow> memory \<Rightarrow> memory" where
  "bytes_at base bs m a = (if unat (a - base) < length bs then Some (bs ! unat (a - base)) else m a)"

section \<open>Structures\<close>

text \<open>A structure is the list of its fields: name, width of an element in bytes and number of elements.
  \<open>offset_of fields name\<close> is the offset the compiler gives the field, each aligned to its width;
  \<open>packed_offset\<close> is the one under \<^verbatim>\<open>#pragma pack(push, 1)\<close>.\<close>

type_synonym layout = "(string \<times> nat \<times> nat) list"

definition round_up :: "nat \<Rightarrow> nat \<Rightarrow> nat" where
  "round_up n w = (n + w - 1) div w * w"

fun offset_from :: "nat \<Rightarrow> layout \<Rightarrow> string \<Rightarrow> nat" where
  "offset_from at [] name = at"
| "offset_from at ((f, w, k) # fs) name =
     (if f = name then round_up at w else offset_from (round_up at w + w * k) fs name)"

definition offset_of :: "layout \<Rightarrow> string \<Rightarrow> nat" where
  "offset_of fs name = offset_from 0 fs name"

fun packed_offset :: "layout \<Rightarrow> string \<Rightarrow> nat" where
  "packed_offset [] name = 0"
| "packed_offset ((f, w, k) # fs) name = (if f = name then 0 else w * k + packed_offset fs name)"

definition packed_size :: "layout \<Rightarrow> nat" where
  "packed_size fs = sum_list (map (\<lambda>(f, w, k). w * k) fs)"

definition field_at :: "u64 \<Rightarrow> layout \<Rightarrow> string \<Rightarrow> u64" where
  "field_at p fs name = p + of_nat (offset_of fs name)"

end
