(* ===== verification/Pe.thy ===== *)
theory Pe
  imports ByteMemory
begin

text \<open>
  \<^verbatim>\<open>Executable/Pe\<close>: the structures of \<open>Types.hpp\<close> as field lists, and the operations of \<open>Image\<close> on
  an image in memory. The code holds a bare pointer to the image and has no size for it, so each
  read is a read of the memory: it has no result when the address is not mapped. A pointer is an
  address, the null pointer is 0.
\<close>

section \<open>Structures\<close>

definition DosSignature :: u16 where "DosSignature = 0x5A4D"
definition NtSignature :: u32 where "NtSignature = 0x00004550"
definition OptionalHeader32Magic :: u16 where "OptionalHeader32Magic = 0x10B"
definition OptionalHeader64Magic :: u16 where "OptionalHeader64Magic = 0x20B"
definition DirectoryCount :: nat where "DirectoryCount = 16"

datatype directory_index =
    ExportDir | ImportDir | ResourceDir | ExceptionDir | SecurityDir | BaseRelocationDir | DebugDir
  | ArchitectureDir | GlobalPointerDir | TlsDir | LoadConfigDir | BoundImportDir | IatDir
  | DelayImportDir | ClrRuntimeDir | ReservedDir

fun directory_id :: "directory_index \<Rightarrow> nat" where
  "directory_id ExportDir = 0"
| "directory_id ImportDir = 1"
| "directory_id ResourceDir = 2"
| "directory_id ExceptionDir = 3"
| "directory_id SecurityDir = 4"
| "directory_id BaseRelocationDir = 5"
| "directory_id DebugDir = 6"
| "directory_id ArchitectureDir = 7"
| "directory_id GlobalPointerDir = 8"
| "directory_id TlsDir = 9"
| "directory_id LoadConfigDir = 10"
| "directory_id BoundImportDir = 11"
| "directory_id IatDir = 12"
| "directory_id DelayImportDir = 13"
| "directory_id ClrRuntimeDir = 14"
| "directory_id ReservedDir = 15"

definition DosHeader_fields :: layout where
  "DosHeader_fields =
     [(''Magic'', 2, 1), (''LastPageSize'', 2, 1), (''PageCount'', 2, 1), (''RelocationCount'', 2, 1),
      (''HeaderSize'', 2, 1), (''MinimumAllocation'', 2, 1), (''MaximumAllocation'', 2, 1),
      (''InitialStackSegment'', 2, 1), (''InitialStackPointer'', 2, 1), (''Checksum'', 2, 1),
      (''InitialInstructionPointer'', 2, 1), (''InitialCodeSegment'', 2, 1),
      (''RelocationTableOffset'', 2, 1), (''OverlayNumber'', 2, 1), (''Reserved0'', 2, 4),
      (''OemId'', 2, 1), (''OemInfo'', 2, 1), (''Reserved1'', 2, 10), (''NtHeaderOffset'', 4, 1)]"

definition FileHeader_fields :: layout where
  "FileHeader_fields =
     [(''Machine'', 2, 1), (''NumberOfSections'', 2, 1), (''TimeDateStamp'', 4, 1),
      (''SymbolTablePointer'', 4, 1), (''NumberOfSymbols'', 4, 1), (''OptionalHeaderSize'', 2, 1),
      (''Characteristics'', 2, 1)]"

text \<open>The directories are an array of pairs of 32-bit words, \<^verbatim>\<open>DataDirectory Directories[16]\<close>.\<close>

definition OptionalHeader32_fields :: layout where
  "OptionalHeader32_fields =
     [(''Magic'', 2, 1), (''MajorLinkerVersion'', 1, 1), (''MinorLinkerVersion'', 1, 1),
      (''SizeOfCode'', 4, 1), (''SizeOfInitializedData'', 4, 1), (''SizeOfUninitializedData'', 4, 1),
      (''EntryPointRva'', 4, 1), (''BaseOfCode'', 4, 1), (''BaseOfData'', 4, 1), (''ImageBase'', 4, 1),
      (''SectionAlignment'', 4, 1), (''FileAlignment'', 4, 1), (''MajorOperatingSystemVersion'', 2, 1),
      (''MinorOperatingSystemVersion'', 2, 1), (''MajorImageVersion'', 2, 1),
      (''MinorImageVersion'', 2, 1), (''MajorSubsystemVersion'', 2, 1),
      (''MinorSubsystemVersion'', 2, 1), (''Win32VersionValue'', 4, 1), (''SizeOfImage'', 4, 1),
      (''SizeOfHeaders'', 4, 1), (''Checksum'', 4, 1), (''Subsystem'', 2, 1),
      (''DllCharacteristics'', 2, 1), (''SizeOfStackReserve'', 4, 1), (''SizeOfStackCommit'', 4, 1),
      (''SizeOfHeapReserve'', 4, 1), (''SizeOfHeapCommit'', 4, 1), (''LoaderFlags'', 4, 1),
      (''NumberOfRvaAndSizes'', 4, 1), (''Directories'', 4, 2 * 16)]"

definition OptionalHeader64_fields :: layout where
  "OptionalHeader64_fields =
     [(''Magic'', 2, 1), (''MajorLinkerVersion'', 1, 1), (''MinorLinkerVersion'', 1, 1),
      (''SizeOfCode'', 4, 1), (''SizeOfInitializedData'', 4, 1), (''SizeOfUninitializedData'', 4, 1),
      (''EntryPointRva'', 4, 1), (''BaseOfCode'', 4, 1), (''ImageBase'', 8, 1),
      (''SectionAlignment'', 4, 1), (''FileAlignment'', 4, 1), (''MajorOperatingSystemVersion'', 2, 1),
      (''MinorOperatingSystemVersion'', 2, 1), (''MajorImageVersion'', 2, 1),
      (''MinorImageVersion'', 2, 1), (''MajorSubsystemVersion'', 2, 1),
      (''MinorSubsystemVersion'', 2, 1), (''Win32VersionValue'', 4, 1), (''SizeOfImage'', 4, 1),
      (''SizeOfHeaders'', 4, 1), (''Checksum'', 4, 1), (''Subsystem'', 2, 1),
      (''DllCharacteristics'', 2, 1), (''SizeOfStackReserve'', 8, 1), (''SizeOfStackCommit'', 8, 1),
      (''SizeOfHeapReserve'', 8, 1), (''SizeOfHeapCommit'', 8, 1), (''LoaderFlags'', 4, 1),
      (''NumberOfRvaAndSizes'', 4, 1), (''Directories'', 4, 2 * 16)]"

text \<open>\<open>NtHeaders32\<close> and \<open>NtHeaders64\<close>: the signature, the file header and the optional header behind one
  another; both headers end on a boundary that needs no padding.\<close>

definition file_header_offset :: nat where "file_header_offset = 4"
definition file_header_size :: nat where "file_header_size = packed_size FileHeader_fields"
definition optional_header_offset :: nat where "optional_header_offset = 4 + file_header_size"

section \<open>Image\<close>

definition NtSignaturePointer :: "memory \<Rightarrow> u64 \<Rightarrow> u64 option" where
  "NtSignaturePointer m base =
     (if base = 0 then Some 0
      else
        do { magic \<leftarrow> read16 m (field_at base DosHeader_fields ''Magic'');
             if magic \<noteq> DosSignature then Some 0
             else
               do { off \<leftarrow> read32 m (field_at base DosHeader_fields ''NtHeaderOffset'');
                    Some (base + ucast off) } })"

definition OptionalHeaderMagicPointer :: "memory \<Rightarrow> u64 \<Rightarrow> u64 option" where
  "OptionalHeaderMagicPointer m base =
     do { p \<leftarrow> NtSignaturePointer m base;
          if p = 0 then Some 0
          else
            do { v \<leftarrow> read32 m p;
                 if v \<noteq> NtSignature then Some 0 else Some (p + 4 + of_nat file_header_size) } }"

definition has_magic :: "u16 \<Rightarrow> memory \<Rightarrow> u64 \<Rightarrow> bool option" where
  "has_magic magic m base =
     do { p \<leftarrow> OptionalHeaderMagicPointer m base;
          if p = 0 then Some False else do { v \<leftarrow> read16 m p; Some (v = magic) } }"

definition Is32 :: "memory \<Rightarrow> u64 \<Rightarrow> bool option" where
  "Is32 m base = has_magic OptionalHeader32Magic m base"

definition Is64 :: "memory \<Rightarrow> u64 \<Rightarrow> bool option" where
  "Is64 m base = has_magic OptionalHeader64Magic m base"

definition IsValid :: "memory \<Rightarrow> u64 \<Rightarrow> bool option" where
  "IsValid m base =
     (if base = 0 then Some False
      else
        do { magic \<leftarrow> read16 m (field_at base DosHeader_fields ''Magic'');
             if magic \<noteq> DosSignature then Some False
             else
               do { p \<leftarrow> NtSignaturePointer m base;
                    if p = 0 then Some False
                    else
                      do { v \<leftarrow> read32 m p;
                           if v \<noteq> NtSignature then Some False
                           else
                             do { x \<leftarrow> Is32 m base; if x then Some True else Is64 m base } } } })"

text \<open>\<open>NtHeaders32\<close> and \<open>NtHeaders64\<close> return the same address.\<close>

definition NtHeaders :: "memory \<Rightarrow> u64 \<Rightarrow> u64 option" where
  "NtHeaders m base =
     do { off \<leftarrow> read32 m (field_at base DosHeader_fields ''NtHeaderOffset''); Some (base + ucast off) }"

definition FileHeader :: "memory \<Rightarrow> u64 \<Rightarrow> u64 option" where
  "FileHeader m base =
     do { valid \<leftarrow> IsValid m base;
          if \<not> valid then Some 0
          else do { nt \<leftarrow> NtHeaders m base; Some (nt + of_nat file_header_offset) } }"

definition optional_fields :: "bool \<Rightarrow> layout" where
  "optional_fields is64 = (if is64 then OptionalHeader64_fields else OptionalHeader32_fields)"

text \<open>A 32-bit field of the optional header, 0 for an image that is not valid.\<close>

definition optional_word :: "string \<Rightarrow> memory \<Rightarrow> u64 \<Rightarrow> u32 option" where
  "optional_word name m base =
     do { valid \<leftarrow> IsValid m base;
          if \<not> valid then Some 0
          else
            do { is64 \<leftarrow> Is64 m base;
                 nt \<leftarrow> NtHeaders m base;
                 read32 m (field_at (nt + of_nat optional_header_offset) (optional_fields is64) name) } }"

definition ImageSize :: "memory \<Rightarrow> u64 \<Rightarrow> u32 option" where
  "ImageSize m base = optional_word ''SizeOfImage'' m base"

definition EntryPointRva :: "memory \<Rightarrow> u64 \<Rightarrow> u32 option" where
  "EntryPointRva m base = optional_word ''EntryPointRva'' m base"

record directory =
  dindex :: directory_index
  drva :: u32
  dsize :: u32

definition directory_Empty :: "directory \<Rightarrow> bool" where
  "directory_Empty d \<longleftrightarrow> drva d = 0 \<or> dsize d = 0"

definition no_directory :: directory where
  "no_directory = \<lparr>dindex = ExportDir, drva = 0, dsize = 0\<rparr>"

definition GetDirectory :: "memory \<Rightarrow> u64 \<Rightarrow> directory_index \<Rightarrow> directory option" where
  "GetDirectory m base index =
     (let id = directory_id index
      in do { valid \<leftarrow> IsValid m base;
              if \<not> valid \<or> id \<ge> DirectoryCount then Some no_directory
              else
                do { is64 \<leftarrow> Is64 m base;
                     nt \<leftarrow> NtHeaders m base;
                     let opt = nt + of_nat optional_header_offset;
                     n \<leftarrow> read32 m (field_at opt (optional_fields is64) ''NumberOfRvaAndSizes'');
                     if id \<ge> unat n then Some no_directory
                     else
                       do { let entry = field_at opt (optional_fields is64) ''Directories'' + of_nat (8 * id);
                            rva \<leftarrow> read32 m entry;
                            sz \<leftarrow> read32 m (entry + 4);
                            Some \<lparr>dindex = index, drva = rva, dsize = sz\<rparr> } } })"

definition SectionHeaders :: "memory \<Rightarrow> u64 \<Rightarrow> u64 option" where
  "SectionHeaders m base =
     do { valid \<leftarrow> IsValid m base;
          if \<not> valid then Some 0
          else
            do { nt \<leftarrow> NtHeaders m base;
                 file \<leftarrow> FileHeader m base;
                 n \<leftarrow> read16 m (field_at file FileHeader_fields ''OptionalHeaderSize'');
                 Some (nt + 4 + of_nat file_header_size + ucast n) } }"

definition SectionCount :: "memory \<Rightarrow> u64 \<Rightarrow> u16 option" where
  "SectionCount m base =
     do { file \<leftarrow> FileHeader m base;
          if file = 0 then Some 0 else read16 m (field_at file FileHeader_fields ''NumberOfSections'') }"

definition RvaToPointer :: "memory \<Rightarrow> u64 \<Rightarrow> u32 \<Rightarrow> u64 option" where
  "RvaToPointer m base rva =
     (if base = 0 \<or> rva = 0 then Some 0
      else
        do { n \<leftarrow> ImageSize m base;
             if rva \<ge> n then Some 0 else Some (base + ucast rva) })"

section \<open>Offsets\<close>

lemma pe_offsets [simp]:
  "offset_of DosHeader_fields ''Magic'' = 0"
  "offset_of DosHeader_fields ''NtHeaderOffset'' = 60"
  "offset_of FileHeader_fields ''NumberOfSections'' = 2"
  "offset_of FileHeader_fields ''OptionalHeaderSize'' = 16"
  "offset_of OptionalHeader32_fields ''SizeOfImage'' = 56"
  "offset_of OptionalHeader64_fields ''SizeOfImage'' = 56"
  "offset_of OptionalHeader32_fields ''NumberOfRvaAndSizes'' = 92"
  "offset_of OptionalHeader64_fields ''NumberOfRvaAndSizes'' = 108"
  "offset_of OptionalHeader32_fields ''Directories'' = 96"
  "offset_of OptionalHeader64_fields ''Directories'' = 112"
  by code_simp+

lemma pe_sizes [simp]: "file_header_size = 20" "optional_header_offset = 24" "file_header_offset = 4"
  by code_simp+

end
