(* ===== verification/SymbolRecords.thy ===== *)
theory SymbolRecords
  imports TypeRecords Decorated Pe
begin

text \<open>
  The parser of symbol records in \<^verbatim>\<open>Reverse/Pdb.cpp\<close>: from addresses in sections to addresses in the image,
  the names of a symbol, the binary annotations of inline sites, and the records of one stream with the
  stack of scopes they open and close. The image is read from the machine's memory.
\<close>

unbundle bit_operations_syntax

section \<open>Addresses and names\<close>

definition SectionHeader_fields :: layout where
  "SectionHeader_fields =
     [(''Name'', 1, 8), (''Misc'', 4, 1), (''VirtualAddress'', 4, 1), (''SizeOfRawData'', 4, 1),
      (''PointerToRawData'', 4, 1), (''PointerToRelocations'', 4, 1), (''PointerToLineNumbers'', 4, 1),
      (''NumberOfRelocations'', 2, 1), (''NumberOfLineNumbers'', 2, 1), (''Characteristics'', 4, 1)]"

text \<open>The result inside is \<^term>\<open>None\<close> where the code returns false.\<close>

definition SegmentOffsetToRva :: "memory \<Rightarrow> u64 \<Rightarrow> u16 \<Rightarrow> nat \<Rightarrow> nat option option" where
  "SegmentOffsetToRva m base segment offset =
     (if segment = 0 then Some None
      else
        do { valid \<leftarrow> IsValid m base;
             if \<not> valid then Some None
             else
               do { headers \<leftarrow> SectionHeaders m base;
                    if headers = 0 then Some None
                    else
                      do { n \<leftarrow> SectionCount m base;
                           let i = unat segment - 1;
                           if i \<ge> unat n then Some None
                           else
                             do { va \<leftarrow> read32 m (field_at (headers + of_nat (packed_size SectionHeader_fields * i))
                                                    SectionHeader_fields ''VirtualAddress'');
                                  sz \<leftarrow> ImageSize m base;
                                  let candidate = usz (unat va + offset);
                                  Some (if candidate \<ge> unat sz then None else Some candidate) } } } })"

definition CodeFlag :: u32 where "CodeFlag = 1"
definition FunctionFlag :: u32 where "FunctionFlag = 2"
definition ManagedFlag :: u32 where "ManagedFlag = 4"
definition MsvcDecorated :: u32 where "MsvcDecorated = 8"
definition HasType :: u32 where "HasType = 64"
definition HasInlineSites :: u32 where "HasInlineSites = 256"

definition FillSymbolNames :: "growth \<Rightarrow> name \<Rightarrow> symbol \<Rightarrow> database \<Rightarrow> symbol parsed" where
  "FillSymbolNames grows raw v d =
     on_ok (of_db (Intern grows d raw))
       (\<lambda>d raw_id.
          do { (q, b, ok) \<leftarrow> NormalizeMsvcName grows raw;
               if \<not> ok then Some (d, Inl (ErrorAt pdb_error.AllocationFailure NoStream 0))
               else
                 on_ok (of_db (Intern grows d q))
                   (\<lambda>d q_id. on_ok (of_db (Intern grows d b))
                      (\<lambda>d b_id.
                         if raw = [] then None
                         else
                           (let decorated = (raw ! 0 = 63)
                            in Some (d, Inr (v\<lparr>sy_name := (if decorated \<and> q_id \<noteq> 0 then q_id else raw_id),
                                 sy_decorated := (if decorated then raw_id else EmptyStringId),
                                 sy_qualified := (if q_id \<noteq> 0 then q_id else raw_id),
                                 sy_base := (if b_id \<noteq> 0 then b_id else raw_id),
                                 sy_flags := (if decorated then sy_flags v OR MsvcDecorated else sy_flags v)\<rparr>))))) })"

section \<open>Binary annotations\<close>

text \<open>The cursor moves also when the decoding fails.\<close>

definition DecodeCompressedAnnotation :: "region \<Rightarrow> nat \<Rightarrow> nat \<Rightarrow> (nat \<times> u32 option) option" where
  "DecodeCompressedAnnotation r c e =
     (if c \<ge> e then Some (c, None)
      else
        do { first \<leftarrow> read8 r c;
             let c = c + 1;
             if first AND 0x80 = 0 then Some (c, Some (ucast first))
             else if first AND 0xC0 = 0x80 then
               if c \<ge> e then Some (c, None)
               else do { x \<leftarrow> read8 r c; Some (c + 1, Some (push_bit 8 (ucast (first AND 0x3F)) OR ucast x)) }
             else if first AND 0xE0 = 0xC0 then
               if c + 3 > e then Some (c, None)
               else
                 do { x \<leftarrow> read8 r c; y \<leftarrow> read8 r (c + 1); z \<leftarrow> read8 r (c + 2);
                      Some (c + 3, Some (push_bit 24 (ucast (first AND 0x1F)) OR push_bit 16 (ucast x) OR
                        push_bit 8 (ucast y) OR ucast z)) }
             else Some (c, None) })"

definition DecodeSignedAnnotation :: "u32 \<Rightarrow> int" where
  "DecodeSignedAnnotation v = (let magnitude = sint (drop_bit 1 v) in if v AND 1 \<noteq> 0 then - magnitude else magnitude)"

record annotation =
  an_op :: u32
  an_u1 :: u32
  an_u2 :: u32
  an_s1 :: int

definition no_annotation :: annotation where
  "no_annotation = \<lparr>an_op = 0, an_u1 = 0, an_u2 = 0, an_s1 = 0\<rparr>"

definition ReadAnnotation :: "region \<Rightarrow> nat \<Rightarrow> nat \<Rightarrow> (nat \<times> annotation option) option" where
  "ReadAnnotation r c e =
     do { (c, op) \<leftarrow> DecodeCompressedAnnotation r c e;
          case op of
            None \<Rightarrow> Some (c, None)
          | Some op \<Rightarrow>
              (let a = no_annotation\<lparr>an_op := op\<rparr>
               in if op \<in> {1, 2, 3, 4, 5, 7, 8, 9, 13} then
                    do { (c, v) \<leftarrow> DecodeCompressedAnnotation r c e;
                         Some (c, map_option (\<lambda>v. a\<lparr>an_u1 := v\<rparr>) v) }
                  else if op = 6 \<or> op = 10 then
                    do { (c, v) \<leftarrow> DecodeCompressedAnnotation r c e;
                         Some (c, map_option (\<lambda>v. a\<lparr>an_s1 := DecodeSignedAnnotation v\<rparr>) v) }
                  else if op = 11 then
                    do { (c, v) \<leftarrow> DecodeCompressedAnnotation r c e;
                         Some (c, map_option (\<lambda>v. a\<lparr>an_u1 := drop_bit 4 v,
                                 an_s1 := DecodeSignedAnnotation (v AND 0xF)\<rparr>) v) }
                  else if op = 12 then
                    do { (c, v) \<leftarrow> DecodeCompressedAnnotation r c e;
                         case v of
                           None \<Rightarrow> Some (c, None)
                         | Some v \<Rightarrow>
                             do { (c, w) \<leftarrow> DecodeCompressedAnnotation r c e;
                                  Some (c, map_option (\<lambda>w. a\<lparr>an_u1 := v, an_u2 := w\<rparr>) w) } }
                  else Some (c, None)) }"

record inline_range =
  ir_code :: nat
  ir_minimum :: nat
  ir_maximum :: nat
  ir_open :: "nat option"

text \<open>\<open>ir_open\<close> is \<^verbatim>\<open>OpenStart\<close> while \<^verbatim>\<open>Open\<close> is set.\<close>

definition start_range :: inline_range where
  "start_range = \<lparr>ir_code = 0, ir_minimum = size_max, ir_maximum = 0, ir_open = None\<rparr>"

definition annotate :: "annotation \<Rightarrow> inline_range \<Rightarrow> inline_range" where
  "annotate a s =
     (if an_op a \<in> {1, 3, 11} then
        (let code = usz (ir_code s + unat (an_u1 a))
         in s\<lparr>ir_code := code, ir_open := (case ir_open s of None \<Rightarrow> Some code | Some x \<Rightarrow> Some x)\<rparr>)
      else if an_op a = 4 then
        (let start = (case ir_open s of None \<Rightarrow> ir_code s | Some x \<Rightarrow> x); code = usz (ir_code s + unat (an_u1 a))
         in \<lparr>ir_code = code, ir_minimum = (if start < ir_minimum s then start else ir_minimum s),
             ir_maximum = (if code > ir_maximum s then code else ir_maximum s), ir_open = None\<rparr>)
      else if an_op a = 12 then
        (let code = usz (ir_code s + unat (an_u2 a)); past = usz (code + unat (an_u1 a))
         in \<lparr>ir_code = code, ir_minimum = (if code < ir_minimum s then code else ir_minimum s),
             ir_maximum = (if past > ir_maximum s then past else ir_maximum s), ir_open = None\<rparr>)
      else s)"

partial_function (option) annotation_loop ::
  "region \<Rightarrow> nat \<Rightarrow> nat \<Rightarrow> inline_range \<Rightarrow> inline_range option" where
  "annotation_loop r c e s =
     (if c < e then
        do { (c, a) \<leftarrow> ReadAnnotation r c e;
             case a of None \<Rightarrow> Some s | Some a \<Rightarrow> annotation_loop r c e (annotate a s) }
      else Some s)"

definition InlineAnnotationRange :: "region \<Rightarrow> nat \<Rightarrow> nat \<Rightarrow> nat \<Rightarrow> (nat \<times> nat) option option" where
  "InlineAnnotationRange r c e function_rva =
     do { s \<leftarrow> annotation_loop r c e start_range;
          Some (if ir_minimum s = size_max \<or> ir_maximum s \<le> ir_minimum s then None
                else Some (usz (function_rva + ir_minimum s), usz (function_rva + ir_maximum s))) }"

section \<open>Symbol records\<close>

definition S_END :: nat where "S_END = 0x0006"
definition S_THUNK32 :: nat where "S_THUNK32 = 0x1102"
definition S_LABEL32 :: nat where "S_LABEL32 = 0x1105"
definition S_CONSTANT :: nat where "S_CONSTANT = 0x1107"
definition S_UDT :: nat where "S_UDT = 0x1108"
definition S_BPREL32 :: nat where "S_BPREL32 = 0x110B"
definition S_LDATA32 :: nat where "S_LDATA32 = 0x110C"
definition S_GDATA32 :: nat where "S_GDATA32 = 0x110D"
definition S_PUB32 :: nat where "S_PUB32 = 0x110E"
definition S_LPROC32 :: nat where "S_LPROC32 = 0x110F"
definition S_GPROC32 :: nat where "S_GPROC32 = 0x1110"
definition S_REGREL32 :: nat where "S_REGREL32 = 0x1111"
definition S_LTHREAD32 :: nat where "S_LTHREAD32 = 0x1112"
definition S_GTHREAD32 :: nat where "S_GTHREAD32 = 0x1113"
definition S_LOCAL :: nat where "S_LOCAL = 0x113E"
definition S_LPROC32_ID :: nat where "S_LPROC32_ID = 0x1146"
definition S_GPROC32_ID :: nat where "S_GPROC32_ID = 0x1147"
definition S_INLINESITE :: nat where "S_INLINESITE = 0x114D"
definition S_INLINESITE_END :: nat where "S_INLINESITE_END = 0x114E"

definition no_symbol :: symbol where
  "no_symbol = \<lparr>sy_id = InvalidId, sy_name = 0, sy_decorated = 0, sy_qualified = 0, sy_base = 0,
     sy_kind = UnknownSymbol, sy_visibility = UnknownVisibility, sy_source = UnknownSource, sy_flags = 0,
     sy_rva = 0, sy_size = 0, sy_semantic = 0, sy_type = InvalidId, sy_module = InvalidId,
     sy_parent = InvalidId, sy_declaration = no_location\<rparr>"

definition no_local :: local_variable where
  "no_local = \<lparr>lv_name = 0, lv_type = InvalidId, lv_function = InvalidId, lv_offset = 0, lv_register = 0,
     lv_flags = 0, lv_register_relative = False, lv_frame_relative = False, lv_is_parameter = False\<rparr>"

definition no_site :: inline_site where
  "no_site = \<lparr>is_id = InvalidId, is_function = InvalidId, is_parent = InvalidId, is_inlinee = InvalidId,
     is_name = 0, is_declaration = no_location, is_start = 0, is_end = 0\<rparr>"

record scope_entry =
  sc_function :: nat
  sc_site :: nat

text \<open>What a stream of records is read for: the image, and what its symbols are marked with.\<close>

record record_source =
  rs_memory :: memory
  rs_base :: u64
  rs_module :: nat
  rs_source :: resolution
  rs_stream :: nat

definition CurrentFunction :: "scope_entry list \<Rightarrow> nat" where
  "CurrentFunction scopes =
     (case find (\<lambda>s. sc_function s \<noteq> InvalidId) (rev scopes) of None \<Rightarrow> InvalidId | Some s \<Rightarrow> sc_function s)"

definition CurrentSite :: "scope_entry list \<Rightarrow> nat" where
  "CurrentSite scopes =
     (case find (\<lambda>s. sc_site s \<noteq> InvalidId) (rev scopes) of None \<Rightarrow> InvalidId | Some s \<Rightarrow> sc_site s)"

definition AddSym :: "growth \<Rightarrow> symbol \<Rightarrow> name \<Rightarrow> database \<Rightarrow> nat parsed" where
  "AddSym grows v n d = on_ok (FillSymbolNames grows n v d) (\<lambda>d v. of_db (AddSymbol grows d v))"

text \<open>\<^verbatim>\<open>if (!N.Data() || !SegmentOffsetToRva(...)) break;\<close> gives \<^term>\<open>None\<close> inside.\<close>

definition located ::
  "record_source \<Rightarrow> region \<Rightarrow> nat \<Rightarrow> nat \<Rightarrow> u16 \<Rightarrow> u32 \<Rightarrow> (name \<times> nat) option option" where
  "located cx r at e segment offset =
     do { n \<leftarrow> CStr r at (e - at);
          case n of
            None \<Rightarrow> Some None
          | Some n \<Rightarrow>
              do { rva \<leftarrow> SegmentOffsetToRva (rs_memory cx) (rs_base cx) segment (unat offset);
                   Some (map_option (Pair n) rva) } }"

text \<open>A symbol that opens no scope.\<close>

definition add_symbol ::
  "growth \<Rightarrow> (name \<times> nat) option \<Rightarrow> symbol \<Rightarrow> scope_entry list \<Rightarrow> database \<Rightarrow> scope_entry list parsed" where
  "add_symbol grows at v scopes d =
     (case at of
        None \<Rightarrow> Some (d, Inr scopes)
      | Some (n, rva) \<Rightarrow> on_ok (AddSym grows (v\<lparr>sy_rva := rva\<rparr>) n d) (\<lambda>d _. Some (d, Inr scopes)))"

text \<open>A local variable, which is not added when its name does not end in the record.\<close>

definition add_local ::
  "growth \<Rightarrow> name option \<Rightarrow> local_variable \<Rightarrow> scope_entry list \<Rightarrow> database \<Rightarrow> scope_entry list parsed" where
  "add_local grows n l scopes d =
     (case n of
        None \<Rightarrow> Some (d, Inr scopes)
      | Some n \<Rightarrow>
          on_ok (of_db (Intern grows d n))
            (\<lambda>d i. on_ok (of_db (AddLocal grows d (l\<lparr>lv_name := i\<rparr>))) (\<lambda>d _. Some (d, Inr scopes))))"

definition procedure_record ::
  "growth \<Rightarrow> record_source \<Rightarrow> region \<Rightarrow> nat \<Rightarrow> nat \<Rightarrow> nat \<Rightarrow> scope_entry list \<Rightarrow> database \<Rightarrow>
    scope_entry list parsed" where
  "procedure_record grows cx r kind p e scopes d =
     do { segment \<leftarrow> ReadU16 r (p + 32); offset \<leftarrow> ReadU32 r (p + 28);
          at \<leftarrow> located cx r (p + 35) e segment offset;
          case at of
            None \<Rightarrow> Some (d, Inr scopes)
          | Some (n, rva) \<Rightarrow>
              do { sz \<leftarrow> ReadU32 r (p + 12); t \<leftarrow> ReadU32 r (p + 24);
                   let ty = (if kind = S_GPROC32_ID \<or> kind = S_LPROC32_ID then MakeIpiTypeIndex (unat t) else unat t);
                   on_ok
                     (AddSym grows
                        (no_symbol\<lparr>sy_kind := Function,
                           sy_visibility := (if kind = S_GPROC32 \<or> kind = S_GPROC32_ID then GlobalVisibility
                             else LocalVisibility),
                           sy_source := rs_source cx,
                           sy_flags := (if ty \<noteq> InvalidId then (CodeFlag OR FunctionFlag) OR HasType
                             else CodeFlag OR FunctionFlag),
                           sy_rva := rva, sy_size := unat sz, sy_type := ty, sy_module := rs_module cx,
                           sy_parent := CurrentFunction scopes\<rparr>) n d)
                     (\<lambda>d i. if grows ScopeTable (length scopes + 1)
                        then Some (d, Inr (scopes @ [\<lparr>sc_function = i, sc_site = InvalidId\<rparr>]))
                        else Some (d, Inl (ErrorAt pdb_error.AllocationFailure NoStream 0))) } }"

definition public_record ::
  "growth \<Rightarrow> record_source \<Rightarrow> region \<Rightarrow> nat \<Rightarrow> nat \<Rightarrow> scope_entry list \<Rightarrow> database \<Rightarrow> scope_entry list parsed" where
  "public_record grows cx r p e scopes d =
     do { segment \<leftarrow> ReadU16 r (p + 8); offset \<leftarrow> ReadU32 r (p + 4);
          at \<leftarrow> located cx r (p + 10) e segment offset;
          f \<leftarrow> ReadU32 r p;
          add_symbol grows at
            (no_symbol\<lparr>sy_kind := (if f AND 2 \<noteq> 0 then PublicFunction else GlobalVariable),
               sy_visibility := PublicVisibility, sy_source := rs_source cx, sy_module := rs_module cx,
               sy_flags := (if f AND 1 \<noteq> 0 then CodeFlag else 0) OR (if f AND 2 \<noteq> 0 then FunctionFlag else 0) OR
                 (if f AND 4 \<noteq> 0 then ManagedFlag else 0)\<rparr>) scopes d }"

definition data_record ::
  "growth \<Rightarrow> record_source \<Rightarrow> region \<Rightarrow> nat \<Rightarrow> nat \<Rightarrow> nat \<Rightarrow> scope_entry list \<Rightarrow> database \<Rightarrow>
    scope_entry list parsed" where
  "data_record grows cx r kind p e scopes d =
     do { segment \<leftarrow> ReadU16 r (p + 8); offset \<leftarrow> ReadU32 r (p + 4);
          at \<leftarrow> located cx r (p + 10) e segment offset;
          t \<leftarrow> ReadU32 r p;
          add_symbol grows at
            (no_symbol\<lparr>sy_kind := (if kind = S_GTHREAD32 \<or> kind = S_LTHREAD32 then ThreadLocal
                 else if kind = S_GDATA32 then GlobalVariable else StaticVariable),
               sy_visibility := (if kind = S_GDATA32 \<or> kind = S_GTHREAD32 then GlobalVisibility else LocalVisibility),
               sy_source := rs_source cx, sy_type := unat t, sy_module := rs_module cx,
               sy_parent := CurrentFunction scopes, sy_flags := HasType\<rparr>) scopes d }"

definition thunk_record ::
  "growth \<Rightarrow> record_source \<Rightarrow> region \<Rightarrow> nat \<Rightarrow> nat \<Rightarrow> scope_entry list \<Rightarrow> database \<Rightarrow> scope_entry list parsed" where
  "thunk_record grows cx r p e scopes d =
     do { segment \<leftarrow> ReadU16 r (p + 16); offset \<leftarrow> ReadU32 r (p + 12);
          at \<leftarrow> located cx r (p + 21) e segment offset;
          sz \<leftarrow> ReadU16 r (p + 18);
          add_symbol grows at
            (no_symbol\<lparr>sy_kind := Thunk, sy_visibility := LocalVisibility, sy_source := rs_source cx,
               sy_flags := CodeFlag OR FunctionFlag, sy_size := unat sz, sy_module := rs_module cx,
               sy_parent := CurrentFunction scopes\<rparr>) scopes d }"

definition label_record ::
  "growth \<Rightarrow> record_source \<Rightarrow> region \<Rightarrow> nat \<Rightarrow> nat \<Rightarrow> scope_entry list \<Rightarrow> database \<Rightarrow> scope_entry list parsed" where
  "label_record grows cx r p e scopes d =
     do { segment \<leftarrow> ReadU16 r (p + 4); offset \<leftarrow> ReadU32 r p;
          at \<leftarrow> located cx r (p + 7) e segment offset;
          add_symbol grows at
            (no_symbol\<lparr>sy_kind := Label, sy_visibility := LocalVisibility, sy_source := rs_source cx,
               sy_module := rs_module cx, sy_parent := CurrentFunction scopes\<rparr>) scopes d }"

text \<open>Types and constants have no address, so they keep 0.\<close>

definition unlocated_record ::
  "growth \<Rightarrow> record_source \<Rightarrow> region \<Rightarrow> symbol_kind \<Rightarrow> nat \<Rightarrow> nat \<Rightarrow> nat \<Rightarrow> scope_entry list \<Rightarrow> database \<Rightarrow>
    scope_entry list parsed" where
  "unlocated_record grows cx r kind p at e scopes d =
     do { n \<leftarrow> CStr r at (e - at);
          t \<leftarrow> ReadU32 r p;
          add_symbol grows (map_option (\<lambda>n. (n, 0)) n)
            (no_symbol\<lparr>sy_kind := kind, sy_visibility := LocalVisibility, sy_source := rs_source cx,
               sy_type := unat t, sy_module := rs_module cx, sy_parent := CurrentFunction scopes,
               sy_flags := HasType\<rparr>) scopes d }"

definition mark_sites :: "database \<Rightarrow> nat \<Rightarrow> database" where
  "mark_sites d i =
     (if i < length (symbols d)
      then d\<lparr>symbols := (symbols d)[i := (symbols d ! i)\<lparr>sy_flags := sy_flags (symbols d ! i) OR HasInlineSites\<rparr>]\<rparr>
      else d)"

definition inline_record ::
  "growth \<Rightarrow> region \<Rightarrow> nat \<Rightarrow> nat \<Rightarrow> scope_entry list \<Rightarrow> database \<Rightarrow> scope_entry list parsed" where
  "inline_record grows r p e scopes d =
     do { w \<leftarrow> ReadU32 r (p + 8);
          let owner = CurrentFunction scopes;
          let inlinee = MakeIpiTypeIndex (unat w);
          t \<leftarrow> TypeByIndex d inlinee;
          range \<leftarrow> (case SymbolById d owner of
                      None \<Rightarrow> Some None
                    | Some i \<Rightarrow> InlineAnnotationRange r (p + 12) e (sy_rva (symbols d ! i)));
          let bounds = (case range of None \<Rightarrow> (0, 0) | Some b \<Rightarrow> b);
          on_ok
            (of_db (AddInlineSite grows d
               (no_site\<lparr>is_function := owner, is_parent := CurrentSite scopes, is_inlinee := inlinee,
                  is_name := (case t of None \<Rightarrow> 0 | Some k \<Rightarrow> ty_name (types d ! k)),
                  is_start := fst bounds, is_end := snd bounds\<rparr>)))
            (\<lambda>d i. if \<not> grows ScopeTable (length scopes + 1)
               then Some (d, Inl (ErrorAt pdb_error.AllocationFailure NoStream 0))
               else Some (mark_sites d owner, Inr (scopes @ [\<lparr>sc_function = owner, sc_site = i\<rparr>]))) }"

text \<open>The \<^verbatim>\<open>switch\<close> over the kinds of records: \<open>n\<close> is the size of the record's payload, at \<open>p\<close>.\<close>

definition symbol_record ::
  "growth \<Rightarrow> record_source \<Rightarrow> region \<Rightarrow> nat \<Rightarrow> nat \<Rightarrow> nat \<Rightarrow> nat \<Rightarrow> scope_entry list \<Rightarrow> database \<Rightarrow>
    scope_entry list parsed" where
  "symbol_record grows cx r off kind p n scopes d =
     (let e = p + n;
          bad = Some (d, Inl (bad_record InvalidCodeViewRecord (rs_stream cx) off kind));
          skip = Some (d, Inr scopes)
      in if kind \<in> {S_GPROC32, S_LPROC32, S_GPROC32_ID, S_LPROC32_ID} then
           if n < 36 then bad else procedure_record grows cx r kind p e scopes d
         else if kind = S_PUB32 then
           if n < 11 then bad else public_record grows cx r p e scopes d
         else if kind \<in> {S_GDATA32, S_LDATA32, S_GTHREAD32, S_LTHREAD32} then
           if n < 11 then bad else data_record grows cx r kind p e scopes d
         else if kind = S_THUNK32 then
           if n < 22 then bad else thunk_record grows cx r p e scopes d
         else if kind = S_LABEL32 then
           if n < 8 then bad else label_record grows cx r p e scopes d
         else if kind = S_LOCAL then
           if n < 7 then skip
           else
             do { name \<leftarrow> CStr r (p + 6) (e - (p + 6)); t \<leftarrow> ReadU32 r p; f \<leftarrow> ReadU16 r (p + 4);
                  add_local grows name
                    (no_local\<lparr>lv_type := unat t, lv_flags := unat f, lv_function := CurrentFunction scopes,
                       lv_is_parameter := f AND 1 \<noteq> 0\<rparr>) scopes d }
         else if kind = S_BPREL32 then
           if n < 9 then skip
           else
             do { name \<leftarrow> CStr r (p + 8) (e - (p + 8)); o' \<leftarrow> ReadU32 r p; t \<leftarrow> ReadU32 r (p + 4);
                  add_local grows name
                    (no_local\<lparr>lv_offset := sint o', lv_type := unat t, lv_function := CurrentFunction scopes,
                       lv_frame_relative := True\<rparr>) scopes d }
         else if kind = S_REGREL32 then
           if n < 11 then skip
           else
             do { name \<leftarrow> CStr r (p + 10) (e - (p + 10)); o' \<leftarrow> ReadU32 r p; t \<leftarrow> ReadU32 r (p + 4);
                  reg \<leftarrow> ReadU16 r (p + 8);
                  add_local grows name
                    (no_local\<lparr>lv_offset := sint o', lv_type := unat t, lv_register := unat reg,
                       lv_function := CurrentFunction scopes, lv_register_relative := True\<rparr>) scopes d }
         else if kind = S_UDT then
           if n < 5 then skip else unlocated_record grows cx r UserDefinedType p (p + 4) e scopes d
         else if kind = S_CONSTANT then
           if n < 7 then skip
           else
             do { (q, v) \<leftarrow> ReadNumeric r (p + 4) e;
                  case v of None \<Rightarrow> skip | Some v \<Rightarrow> unlocated_record grows cx r Constant p q e scopes d }
         else if kind = S_INLINESITE then
           if n < 12 then skip else inline_record grows r p e scopes d
         else if kind = S_END \<or> kind = S_INLINESITE_END then Some (d, Inr (butlast scopes))
         else skip)"

partial_function (option) symbol_records ::
  "growth \<Rightarrow> record_source \<Rightarrow> region \<Rightarrow> nat \<Rightarrow> scope_entry list \<Rightarrow> database \<Rightarrow> unit parsed" where
  "symbol_records grows cx r off scopes d =
     (if off + 4 \<le> rsize r then
        do { n \<leftarrow> ReadU16 r off; kind \<leftarrow> ReadU16 r (off + 2);
             if n = 0 then symbol_records grows cx r (off + 2) scopes d
             else if unat n < 2 \<or> off + 2 + unat n > rsize r
             then Some (d, Inl (bad_record InvalidCodeViewRecord (rs_stream cx) off (unat kind)))
             else
               do { (d, out) \<leftarrow> symbol_record grows cx r off (unat kind) (off + 4) (unat n - 2) scopes d;
                    case out of
                      Inl err \<Rightarrow> Some (d, Inl err)
                    | Inr scopes \<Rightarrow> symbol_records grows cx r (off + 2 + unat n) scopes d } }
      else Some (d, Inr ()))"

definition ParseSymbolRecords :: "growth \<Rightarrow> record_source \<Rightarrow> region \<Rightarrow> database \<Rightarrow> unit parsed" where
  "ParseSymbolRecords grows cx r d = symbol_records grows cx r 0 [] d"

section \<open>Sound parsers\<close>

text \<open>The image can be read wherever its headers point to.\<close>

definition image_readable :: "memory \<Rightarrow> u64 \<Rightarrow> bool" where
  "image_readable m base \<longleftrightarrow> (\<forall>segment offset. SegmentOffsetToRva m base segment offset \<noteq> None)"

lemma sound_FillSymbolNames:
  assumes "roomy grows" and "built_as z grows d" and "2 * length n < size_max"
  shows "sound z grows (\<lambda>_. True) (FillSymbolNames grows n v d)"
proof -
  obtain q b ok where n: "NormalizeMsvcName grows n = Some (q, b, ok)" "length q < size_max" "length b < size_max"
    "ok \<longrightarrow> n \<noteq> []"
    using NormalizeMsvcName_total [OF assms(3), of grows] by (metis prod.collapse)
  show ?thesis
    unfolding FillSymbolNames_def n(1) bind.bind_lunit prod.case Let_def
    using assms n(2-4) by (intro sound_Intern_then parsing) auto
qed

lemma built_AddSymbol: "roomy grows \<Longrightarrow> built_as z grows d \<Longrightarrow> built_as z grows (fst (AddSymbol grows d v))"
  using roomy_bound [of grows SymbolTable "length (symbols d) + 1"] built.AddSymbol [of grows d v]
  by (cases "grows SymbolTable (length (symbols d) + 1)") (auto simp: AddSymbol_def InvalidId_def Let_def built_as_def)

lemma sound_AddSym:
  assumes "roomy grows" and "built_as z grows d" and "2 * length n < size_max"
  shows "sound z grows (\<lambda>_. True) (AddSym grows v n d)"
  unfolding AddSym_def using assms
  by (intro sound_on_ok [OF sound_FillSymbolNames] sound_of_db built_AddSymbol) auto

lemma sound_AddSym_then:
  assumes "roomy grows" and "built_as z grows d" and "2 * length n < size_max"
    and "\<And>d i. built_as z grows d \<Longrightarrow> sound z grows Q (next d i)"
  shows "sound z grows Q (on_ok (AddSym grows v n d) next)"
  using assms(4) by (intro sound_on_ok [OF sound_AddSym [OF assms(1-3)]]) auto

lemma located_total:
  assumes "image_readable (rs_memory cx) (rs_base cx)" and "at \<le> e" and "e \<le> rsize r"
  shows "\<exists>x. located cx r at e segment offset = Some x \<and> (\<forall>n rva. x = Some (n, rva) \<longrightarrow> length n < e - at)"
proof -
  obtain v where v: "CStr r at (e - at) = Some v" "\<forall>cs. v = Some cs \<longrightarrow> length cs < e - at"
    using CStr_total [of at "e - at" r] assms(2,3) by auto
  obtain rva where "SegmentOffsetToRva (rs_memory cx) (rs_base cx) segment (unat offset) = Some rva"
    using assms(1) unfolding image_readable_def by blast
  with v show ?thesis by (cases v) (auto simp: located_def)
qed

lemma sound_add_symbol:
  assumes "roomy grows" and "built_as z grows d" and "\<forall>n rva. at = Some (n, rva) \<longrightarrow> 2 * length n < size_max"
  shows "sound z grows (\<lambda>_. True) (add_symbol grows at v scopes d)"
  unfolding add_symbol_def using assms
  by (auto split: option.splits intro!: sound_Inr sound_AddSym_then)

lemma sound_add_local:
  assumes "roomy grows" and "built_as z grows d" and "\<forall>n. at = Some n \<longrightarrow> length n < size_max"
  shows "sound z grows (\<lambda>_. True) (add_local grows at l scopes d)"
proof -
  have "sound z grows (\<lambda>_. True) (of_db (AddLocal grows d l))" if "built_as z grows d" for d l
    using that built.AddLocal [of grows d l]
    by (intro sound_of_db) (auto simp: AddLocal_def built_as_def)
  note added = sound_on_ok [OF this]
  show ?thesis unfolding add_local_def using assms
    by (auto split: option.splits intro!: sound_Inr sound_Intern_then added)
qed

lemma sound_located [parsing]:
  assumes "image_readable (rs_memory cx) (rs_base cx)" and "at \<le> e" and "e \<le> rsize r"
    and "\<And>x. (\<And>n rva. x = Some (n, rva) \<Longrightarrow> length n < e - at) \<Longrightarrow> sound z grows Q (f x)"
  shows "sound z grows Q (located cx r at e segment offset \<bind> f)"
  using located_total [OF assms(1-3), of segment offset] assms(4) by auto

lemma procedure_record_sound:
  assumes "roomy grows" and "built_as z grows d" and "image_readable (rs_memory cx) (rs_base cx)"
    and "p + 36 \<le> e" and "e \<le> rsize r" and "rsize r < 2 ^ 62"
  shows "sound z grows (\<lambda>_. True) (procedure_record grows cx r kind p e scopes d)"
  unfolding procedure_record_def Let_def using assms
  by (intro parsing) (auto intro!: parsing sound_AddSym_then simp: size_max_def split: option.splits)

lemmas located_sound = sound_located parsing sound_add_symbol

lemma symbol_records_sound:
  assumes "roomy grows" and "built_as z grows d" and "image_readable (rs_memory cx) (rs_base cx)"
    and "e \<le> rsize r" and "rsize r < 2 ^ 62"
  shows public_record_sound: "p + 11 \<le> e \<Longrightarrow> sound z grows (\<lambda>_. True) (public_record grows cx r p e scopes d)"
    and data_record_sound: "p + 11 \<le> e \<Longrightarrow> sound z grows (\<lambda>_. True) (data_record grows cx r kind p e scopes d)"
    and thunk_record_sound: "p + 22 \<le> e \<Longrightarrow> sound z grows (\<lambda>_. True) (thunk_record grows cx r p e scopes d)"
    and label_record_sound: "p + 8 \<le> e \<Longrightarrow> sound z grows (\<lambda>_. True) (label_record grows cx r p e scopes d)"
    and unlocated_record_sound: "p + 4 \<le> at \<Longrightarrow> at \<le> e \<Longrightarrow>
      sound z grows (\<lambda>_. True) (unlocated_record grows cx r k p at e scopes d)"
  unfolding public_record_def data_record_def thunk_record_def label_record_def unlocated_record_def using assms
  by (intro parsing sound_add_symbol; force simp: size_max_def)+

text \<open>Annotations.\<close>

lemma DecodeCompressedAnnotation_total:
  assumes "e \<le> rsize r"
  shows "\<exists>c' v. DecodeCompressedAnnotation r c e = Some (c', v) \<and> c \<le> c' \<and> (v \<noteq> None \<longrightarrow> c < c' \<and> c' \<le> e)"
proof (cases "c < e")
  case True
  then obtain b where "read8 r c = Some b" using read_total(1) [of c r] assms by auto
  then show ?thesis
    using True assms read_total(1) [of "c + 1" r] read_total(1) [of "c + 2" r] read_total(1) [of "Suc (Suc (Suc c))" r]
    by (auto simp: DecodeCompressedAnnotation_def Let_def numeral_3_eq_3)
qed (simp add: DecodeCompressedAnnotation_def)

lemma ReadAnnotation_total:
  assumes "e \<le> rsize r"
  shows "\<exists>c' a. ReadAnnotation r c e = Some (c', a) \<and> (a \<noteq> None \<longrightarrow> c < c')"
proof -
  obtain c1 v where 1: "DecodeCompressedAnnotation r c e = Some (c1, v)" "v \<noteq> None \<longrightarrow> c < c1"
    using DecodeCompressedAnnotation_total [OF assms] by blast
  obtain c2 w where 2: "DecodeCompressedAnnotation r c1 e = Some (c2, w)" "c1 \<le> c2"
    using DecodeCompressedAnnotation_total [OF assms] by blast
  obtain c3 x where 3: "DecodeCompressedAnnotation r c2 e = Some (c3, x)" "c2 \<le> c3"
    using DecodeCompressedAnnotation_total [OF assms] by blast
  show ?thesis using 1 2 3 by (cases v; cases w) (auto simp: ReadAnnotation_def Let_def)
qed

lemma annotation_loop_total: "e \<le> rsize r \<Longrightarrow> \<exists>s'. annotation_loop r c e s = Some s'"
proof (induction "e - c" arbitrary: c s rule: less_induct)
  case less
  obtain c' a where a: "ReadAnnotation r c e = Some (c', a)" "a \<noteq> None \<longrightarrow> c < c'"
    using ReadAnnotation_total [OF less.prems] by blast
  show ?case
  proof (cases "c < e \<and> a \<noteq> None")
    case True
    then obtain x where "a = Some x" by auto
    moreover have "\<exists>s'. annotation_loop r c' e (annotate x s) = Some s'"
      using True a(2) less.prems by (intro less.hyps) auto
    ultimately show ?thesis using True a(1) by (subst annotation_loop.simps) simp
  next
    case False
    then show ?thesis using a(1) by (subst annotation_loop.simps) auto
  qed
qed

lemma InlineAnnotationRange_total: "e \<le> rsize r \<Longrightarrow> \<exists>x. InlineAnnotationRange r c e rva = Some x"
  using annotation_loop_total [of e r c start_range] by (auto simp: InlineAnnotationRange_def)

lemma TypeByIndex_total: "built_as z grows d \<Longrightarrow> \<exists>x. TypeByIndex d i = Some x"
  using built_not_ready [of grows d] as_built [of z grows d] by (simp add: TypeByIndex_def)

lemma built_AddInlineSite: "roomy grows \<Longrightarrow> built_as z grows d \<Longrightarrow> built_as z grows (fst (AddInlineSite grows d v))"
  using roomy_bound [of grows SiteTable "length (inline_sites d) + 1"] built.AddInlineSite [of grows d v]
  by (cases "grows SiteTable (length (inline_sites d) + 1)") (auto simp: AddInlineSite_def Let_def built_as_def)

lemma built_mark_sites: "built_as z grows d \<Longrightarrow> built_as z grows (mark_sites d i)"
  by (simp add: mark_sites_def built.FlagSymbol built_as_def)

lemma inline_record_sound:
  assumes "roomy grows" and "built_as z grows d" and "p + 12 \<le> e" and "e \<le> rsize r"
  shows "sound z grows (\<lambda>_. True) (inline_record grows r p e scopes d)"
proof -
  have 1: "sound z grows (\<lambda>_. True) (of_db (AddInlineSite grows d v))" for v
    using assms by (intro sound_of_db built_AddInlineSite) auto
  have 2: "\<exists>x. (case SymbolById d owner of None \<Rightarrow> Some None
      | Some i \<Rightarrow> InlineAnnotationRange r (p + 12) e (sy_rva (symbols d ! i))) = Some x" for owner
    using InlineAnnotationRange_total [OF assms(4)] by (auto split: option.splits)
  obtain w where w: "ReadU32 r (p + 8) = Some w" using read_total(3) [of "p + 8" r] assms(3,4) by auto
  obtain t where t: "TypeByIndex d (MakeIpiTypeIndex (unat w)) = Some t" using TypeByIndex_total [OF assms(2)] by blast
  obtain x where x: "(case SymbolById d (CurrentFunction scopes) of None \<Rightarrow> Some None
      | Some i \<Rightarrow> InlineAnnotationRange r (p + 12) e (sy_rva (symbols d ! i))) = Some x"
    using 2 by blast
  show ?thesis
    unfolding inline_record_def w t x Let_def bind.bind_lunit
    by (intro sound_on_ok [OF 1] parsing built_mark_sites) auto
qed

lemma symbol_record_sound:
  assumes "roomy grows" and "built_as z grows d" and "image_readable (rs_memory cx) (rs_base cx)"
    and "p + n \<le> rsize r" and "rsize r < 2 ^ 62"
  shows "sound z grows (\<lambda>_. True) (symbol_record grows cx r off kind p n scopes d)"
proof -
  note parts = procedure_record_sound [OF assms(1-3)] public_record_sound [OF assms(1-3)]
    data_record_sound [OF assms(1-3)] thunk_record_sound [OF assms(1-3)] label_record_sound [OF assms(1-3)]
    unlocated_record_sound [OF assms(1-3)] inline_record_sound [OF assms(1,2)] sound_add_local [OF assms(1,2)]
  show ?thesis
    unfolding symbol_record_def Let_def using assms
    by (intro parsing parts; (simp only: prod.case)?; (intro parsing parts)?; (simp add: size_max_def)?)
qed

lemma symbol_loop_sound:
  assumes "roomy grows" and "built_as z grows d" and "image_readable (rs_memory cx) (rs_base cx)"
    and "rsize r < 2 ^ 62"
  shows "sound z grows (\<lambda>_. True) (symbol_records grows cx r off scopes d)"
  using assms(2)
proof (induction "rsize r - off" arbitrary: off scopes d rule: less_induct)
  case less
  note unfolded = symbol_records.simps [of grows cx r off scopes d]
  show ?case
  proof (cases "off + 4 \<le> rsize r")
    case False
    then show ?thesis using less.prems by (simp add: unfolded sound_Inr)
  next
    case at: True
    then obtain n kind where w: "ReadU16 r off = Some n" "ReadU16 r (off + 2) = Some kind"
      using read_total(2) [of off r] read_total(2) [of "off + 2" r] by auto
    have rest: "sound z grows (\<lambda>_. True) (symbol_records grows cx r (off + 2 + k) scopes' d')"
      if "built_as z grows d'" for k scopes' d'
      using that at by (intro less.hyps) auto
    show ?thesis
    proof (cases "n = 0")
      case True
      then show ?thesis using at w rest [OF less.prems, of 0] by (simp add: unfolded)
    next
      case False
      show ?thesis
      proof (cases "unat n < 2 \<or> off + 2 + unat n > rsize r")
        case True
        then show ?thesis using at False w less.prems by (auto simp: unfolded sound_Inl)
      next
        case fits: False
        obtain d' s where s: "symbol_record grows cx r off (unat kind) (off + 4) (unat n - 2) scopes d = Some (d', s)"
          "built_as z grows d'"
          using symbol_record_sound [OF assms(1) less.prems assms(3), of "off + 4" "unat n - 2" r off "unat kind" scopes]
            fits assms(4) unfolding sound_def by auto
        show ?thesis using at False w fits s rest by (cases s) (simp_all add: unfolded sound_Inl)
      qed
    qed
  qed
qed

lemma ParseSymbolRecords_sound:
  "roomy grows \<Longrightarrow> built_as z grows d \<Longrightarrow> image_readable (rs_memory cx) (rs_base cx) \<Longrightarrow> rsize r < 2 ^ 62 \<Longrightarrow>
    sound z grows (\<lambda>_. True) (ParseSymbolRecords grows cx r d)"
  unfolding ParseSymbolRecords_def by (rule symbol_loop_sound)

end
