(* ===== verification/LineRecords.thy ===== *)
theory LineRecords
  imports SymbolRecords
begin

text \<open>
  The parser of line information in \<^verbatim>\<open>Reverse/Pdb.cpp\<close> (\<open>ParseC13\<close>) and of the smaller tables: the section
  map and the address maps. Line information is a sequence of subsections; the tables of strings and of
  files come first, then the lines and the inlined functions are read with them.
\<close>

section \<open>Subsections\<close>

definition DEBUG_S_LINES :: nat where "DEBUG_S_LINES = 0xF2"
definition DEBUG_S_STRINGTABLE :: nat where "DEBUG_S_STRINGTABLE = 0xF3"
definition DEBUG_S_FILECHKSMS :: nat where "DEBUG_S_FILECHKSMS = 0xF4"
definition DEBUG_S_INLINEELINES :: nat where "DEBUG_S_INLINEELINES = 0xF6"

record checksum_file =
  cf_offset :: nat
  cf_file :: nat

record inlinee_line =
  il_inlinee :: nat
  il_offset :: nat
  il_line :: nat

definition FindFile :: "checksum_file list \<Rightarrow> nat \<Rightarrow> nat" where
  "FindFile files offset =
     (case find (\<lambda>f. cf_offset f = offset) files of None \<Rightarrow> EmptyStringId | Some f \<Rightarrow> cf_file f)"

text \<open>A pointer into a region with what is left of it behind the pointer.\<close>

definition part_of :: "region \<Rightarrow> nat \<Rightarrow> nat \<Rightarrow> region" where
  "part_of r at n = \<lparr>byte_at = (\<lambda>i. byte_at r (at + i)), rsize = n\<rparr>"

text \<open>The first pass finds the two tables; the last one of each kind counts.\<close>

partial_function (option) find_tables ::
  "region \<Rightarrow> nat \<Rightarrow> region option \<Rightarrow> region option \<Rightarrow> (error_info + region option \<times> region option) option" where
  "find_tables r at strs checksums =
     (if at + 8 \<le> rsize r then
        do { k \<leftarrow> ReadU32 r at; n \<leftarrow> ReadU32 r (at + 4);
             if at + 8 + unat n > rsize r then Some (Inl (bad_record InvalidLineInfo NoStream at 0))
             else
               (let p = part_of r (at + 8) (unat n)
                in find_tables r (msf_AlignUp (at + 8 + unat n) 4)
                     (if unat k = DEBUG_S_STRINGTABLE then Some p else strs)
                     (if unat k = DEBUG_S_FILECHKSMS then Some p else checksums)) }
      else Some (Inr (strs, checksums)))"

partial_function (option) checksum_files ::
  "growth \<Rightarrow> region \<Rightarrow> region \<Rightarrow> nat \<Rightarrow> checksum_file list \<Rightarrow> database \<Rightarrow> checksum_file list parsed" where
  "checksum_files grows strs r at files d =
     (if at + 6 \<le> rsize r then
        do { name \<leftarrow> ReadU32 r at; cb \<leftarrow> read8 r (at + 4);
             if at + 6 + unat cb > rsize r then Some (d, Inr files)
             else
               (let next = msf_AlignUp (at + 6 + unat cb) 4
                in if unat name < rsize strs then
                     do { n \<leftarrow> CStr strs (unat name) (rsize strs - unat name);
                          case n of
                            None \<Rightarrow> checksum_files grows strs r next files d
                          | Some n \<Rightarrow>
                              (case Intern grows d n of
                                 (d, Inl err) \<Rightarrow> Some (d, Inl (DbError err))
                               | (d, Inr i) \<Rightarrow>
                                   if grows ChecksumTable (length files + 1)
                                   then checksum_files grows strs r next
                                          (files @ [\<lparr>cf_offset = id32 at, cf_file = i\<rparr>]) d
                                   else Some (d, Inl (ErrorAt pdb_error.AllocationFailure NoStream 0))) }
                   else checksum_files grows strs r next files d) }
      else Some (d, Inr files))"

section \<open>Lines\<close>

text \<open>The subsection of inlined functions, from \<open>p\<close> to \<open>e\<close>; with signature 1 each entry has a list of more
  files, which is skipped. The result is \<^term>\<open>Inl\<close> when the allocator refuses.\<close>

partial_function (option) inlinee_entries ::
  "growth \<Rightarrow> region \<Rightarrow> u32 \<Rightarrow> nat \<Rightarrow> nat \<Rightarrow> inlinee_line list \<Rightarrow> (error_info + inlinee_line list) option" where
  "inlinee_entries grows r signature p e xs =
     (if p + 12 \<le> e then
        do { t \<leftarrow> ReadU32 r p; f \<leftarrow> ReadU32 r (p + 4); l \<leftarrow> ReadU32 r (p + 8);
             let xs' = xs @ [\<lparr>il_inlinee = MakeIpiTypeIndex (unat t), il_offset = unat f, il_line = unat l\<rparr>];
             if \<not> grows InlineeTable (length xs + 1) then Some (Inl (ErrorAt pdb_error.AllocationFailure NoStream 0))
             else if signature = 1 \<and> p + 16 \<le> e then
               do { extra \<leftarrow> ReadU32 r (p + 12);
                    if p + 16 + unat extra * 4 > e then Some (Inr xs')
                    else inlinee_entries grows r signature (p + 16 + unat extra * 4) e xs' }
             else inlinee_entries grows r signature (p + 12) e xs' }
      else Some (Inr xs))"

text \<open>What the header of a subsection of lines says, with the files and the module they are read for.\<close>

record line_section =
  ls_base :: nat
  ls_size :: nat
  ls_columns :: bool
  ls_files :: "checksum_file list"
  ls_module :: nat

text \<open>Line \<open>i\<close> of the block of \<open>lines\<close> lines at \<open>p\<close>, which ends at \<open>block_end\<close>.\<close>

definition source_line_at ::
  "region \<Rightarrow> line_section \<Rightarrow> nat \<Rightarrow> nat \<Rightarrow> nat \<Rightarrow> nat \<Rightarrow> nat \<Rightarrow> source_line option" where
  "source_line_at r ls file p lines block_end i =
     do { delta \<leftarrow> ReadU32 r (p + i * 8); lf \<leftarrow> ReadU32 r (p + i * 8 + 4);
          past \<leftarrow> (if i + 1 < lines
                   then do { n \<leftarrow> ReadU32 r (p + (i + 1) * 8); Some (usz (ls_base ls + unat n)) }
                   else Some (usz (ls_base ls + ls_size ls)));
          col \<leftarrow> (let columns = p + lines * 8
                  in if ls_columns ls \<and> columns + (i + 1) * 4 \<le> block_end
                     then do { c \<leftarrow> ReadU16 r (columns + i * 4); Some (unat c) } else Some 0);
          Some \<lparr>sl_rva = usz (ls_base ls + unat delta), sl_end = past,
            sl_location = \<lparr>lfile = FindFile (ls_files ls) file, lline = unat (lf AND 0x00FFFFFF), lcolumn = col\<rparr>,
            sl_module = ls_module ls, sl_statement = (lf AND 0x80000000 \<noteq> 0)\<rparr> }"

fun add_lines ::
  "growth \<Rightarrow> region \<Rightarrow> line_section \<Rightarrow> nat \<Rightarrow> nat \<Rightarrow> nat \<Rightarrow> nat \<Rightarrow> nat list \<Rightarrow> database \<Rightarrow> unit parsed" where
  "add_lines grows r ls file p lines block_end [] d = Some (d, Inr ())"
| "add_lines grows r ls file p lines block_end (i # is) d =
     do { l \<leftarrow> source_line_at r ls file p lines block_end i;
          on_ok (of_db (AddSourceLine grows d l)) (\<lambda>d _. add_lines grows r ls file p lines block_end is d) }"

partial_function (option) line_blocks ::
  "growth \<Rightarrow> region \<Rightarrow> line_section \<Rightarrow> nat \<Rightarrow> nat \<Rightarrow> database \<Rightarrow> unit parsed" where
  "line_blocks grows r ls p e d =
     (if p + 12 \<le> e then
        do { file \<leftarrow> ReadU32 r p; lines \<leftarrow> ReadU32 r (p + 4); n \<leftarrow> ReadU32 r (p + 8);
             if p + unat n > e \<or> p + 12 + unat lines * 8 > e then Some (d, Inr ())
             else
               do { (d, out) \<leftarrow> add_lines grows r ls (unat file) (p + 12) (unat lines) (p + unat n)
                                 [0..<unat lines] d;
                    case out of
                      Inl err \<Rightarrow> Some (d, Inl err)
                    | Inr _ \<Rightarrow> line_blocks grows r ls (p + unat n) e d } }
      else Some (d, Inr ()))"

text \<open>One subsection of the last pass: \<open>k\<close> is its kind and \<open>n\<close> its size, its bytes are at \<open>p\<close>.\<close>

definition line_subsection ::
  "growth \<Rightarrow> region \<Rightarrow> memory \<Rightarrow> u64 \<Rightarrow> nat \<Rightarrow> checksum_file list \<Rightarrow> nat \<Rightarrow> nat \<Rightarrow> nat \<Rightarrow> inlinee_line list \<Rightarrow>
    database \<Rightarrow> inlinee_line list parsed" where
  "line_subsection grows r m base module files k p n inlinees d =
     (if k = DEBUG_S_INLINEELINES \<and> n \<ge> 4 then
        do { signature \<leftarrow> ReadU32 r p;
             out \<leftarrow> inlinee_entries grows r signature (p + 4) (p + n) inlinees;
             Some (d, out) }
      else if k = DEBUG_S_LINES \<and> n \<ge> 12 then
        do { reloc \<leftarrow> ReadU32 r p; segment \<leftarrow> ReadU16 r (p + 4); flags \<leftarrow> ReadU16 r (p + 6);
             code \<leftarrow> ReadU32 r (p + 8);
             rva \<leftarrow> SegmentOffsetToRva m base segment (unat reloc);
             case rva of
               None \<Rightarrow> Some (d, Inr inlinees)
             | Some rva \<Rightarrow>
                 on_ok (line_blocks grows r
                          \<lparr>ls_base = rva, ls_size = unat code, ls_columns = (flags AND 1 \<noteq> 0), ls_files = files,
                           ls_module = module\<rparr> (p + 12) (p + n) d)
                   (\<lambda>d _. Some (d, Inr inlinees)) }
      else Some (d, Inr inlinees))"

partial_function (option) line_subsections ::
  "growth \<Rightarrow> region \<Rightarrow> memory \<Rightarrow> u64 \<Rightarrow> nat \<Rightarrow> checksum_file list \<Rightarrow> nat \<Rightarrow> inlinee_line list \<Rightarrow> database \<Rightarrow>
    inlinee_line list parsed" where
  "line_subsections grows r m base module files at inlinees d =
     (if at + 8 \<le> rsize r then
        do { k \<leftarrow> ReadU32 r at; n \<leftarrow> ReadU32 r (at + 4);
             if at + 8 + unat n > rsize r then Some (d, Inr inlinees)
             else
               do { (d, out) \<leftarrow> line_subsection grows r m base module files (unat k) (at + 8) (unat n) inlinees d;
                    case out of
                      Inl err \<Rightarrow> Some (d, Inl err)
                    | Inr inlinees \<Rightarrow>
                        line_subsections grows r m base module files (msf_AlignUp (at + 8 + unat n) 4) inlinees d } }
      else Some (d, Inr inlinees))"

section \<open>Inline sites\<close>

text \<open>The end of the range of a function, for a site without one.\<close>

definition parent_end :: "symbol \<Rightarrow> nat" where
  "parent_end v = (if sy_size v \<noteq> 0 then usz (sy_rva v + sy_size v) else usz (sy_rva v + 1))"

definition complete_site ::
  "nat \<Rightarrow> checksum_file list \<Rightarrow> inlinee_line list \<Rightarrow> database \<Rightarrow> inline_site \<Rightarrow> inline_site option" where
  "complete_site module files inlinees d s =
     (case SymbolById d (is_function s) of
        None \<Rightarrow> Some s
      | Some i \<Rightarrow>
          if sy_module (symbols d ! i) \<noteq> module then Some s
          else
            do { t \<leftarrow> TypeByIndex d (is_inlinee s);
                 let s = (case t of None \<Rightarrow> s
                          | Some k \<Rightarrow> if ty_name (types d ! k) \<noteq> 0 then s\<lparr>is_name := ty_name (types d ! k)\<rparr> else s);
                 let s = (case find (\<lambda>x. il_inlinee x = is_inlinee s) inlinees of
                            None \<Rightarrow> s
                          | Some x \<Rightarrow> s\<lparr>is_declaration := (is_declaration s)
                                         \<lparr>lfile := FindFile files (il_offset x), lline := il_line x\<rparr>\<rparr>);
                 Some (if is_start s = 0 \<and> is_end s = 0
                       then s\<lparr>is_start := sy_rva (symbols d ! i), is_end := parent_end (symbols d ! i)\<rparr> else s) })"

fun complete_sites ::
  "nat \<Rightarrow> checksum_file list \<Rightarrow> inlinee_line list \<Rightarrow> database \<Rightarrow> inline_site list \<Rightarrow> inline_site list option" where
  "complete_sites module files inlinees d [] = Some []"
| "complete_sites module files inlinees d (s # ss) =
     do { t \<leftarrow> complete_site module files inlinees d s; ts \<leftarrow> complete_sites module files inlinees d ss;
          Some (t # ts) }"

definition ParseC13 ::
  "growth \<Rightarrow> region \<Rightarrow> memory \<Rightarrow> u64 \<Rightarrow> nat \<Rightarrow> region option \<Rightarrow> database \<Rightarrow> unit parsed" where
  "ParseC13 grows r m base module strs d =
     do { tables \<leftarrow> find_tables r 0 strs None;
          case tables of
            Inl err \<Rightarrow> Some (d, Inl err)
          | Inr (found, checksums) \<Rightarrow>
              on_ok (case (found, checksums) of
                       (Some t, Some c) \<Rightarrow> checksum_files grows t c 0 [] d
                     | _ \<Rightarrow> Some (d, Inr []))
                (\<lambda>d files. on_ok (line_subsections grows r m base module files 0 [] d)
                   (\<lambda>d inlinees.
                      do { sites \<leftarrow> complete_sites module files inlinees d (inline_sites d);
                           Some (d\<lparr>inline_sites := sites\<rparr>, Inr ()) })) }"

section \<open>Smaller tables\<close>

fun section_entries :: "growth \<Rightarrow> region \<Rightarrow> nat \<Rightarrow> nat \<Rightarrow> nat \<Rightarrow> database \<Rightarrow> unit parsed" where
  "section_entries grows r p n 0 d = Some (d, Inr ())"
| "section_entries grows r p n (Suc left) d =
     (if n \<ge> 20 then
        do { f \<leftarrow> ReadU16 r p; v \<leftarrow> ReadU16 r (p + 2); g \<leftarrow> ReadU16 r (p + 4); h \<leftarrow> ReadU16 r (p + 6);
             s \<leftarrow> ReadU16 r (p + 8); c \<leftarrow> ReadU16 r (p + 10); at \<leftarrow> ReadU32 r (p + 12); l \<leftarrow> ReadU32 r (p + 16);
             on_ok
               (of_db (AddSectionMap grows d
                  \<lparr>sm_flags = unat f, sm_overlay = unat v, sm_group = unat g, sm_frame = unat h,
                   sm_section_name = unat s, sm_class_name = unat c, sm_offset = unat at, sm_length = unat l\<rparr>))
               (\<lambda>d _. section_entries grows r (p + 20) (n - 20) left d) }
      else Some (d, Inr ()))"

definition ParseSectionMap :: "growth \<Rightarrow> region \<Rightarrow> nat \<Rightarrow> nat \<Rightarrow> database \<Rightarrow> unit parsed" where
  "ParseSectionMap grows r p n d =
     (if n < 4 then Some (d, Inr ())
      else do { lines \<leftarrow> ReadU16 r p; section_entries grows r (p + 4) (n - 4) (unat lines) d })"

text \<open>The entries at the multiples of 8 that fit.\<close>

fun omap_entries :: "growth \<Rightarrow> bool \<Rightarrow> region \<Rightarrow> nat list \<Rightarrow> database \<Rightarrow> unit parsed" where
  "omap_entries grows to_source r [] d = Some (d, Inr ())"
| "omap_entries grows to_source r (at # ats) d =
     do { x \<leftarrow> ReadU32 r at; y \<leftarrow> ReadU32 r (at + 4);
          let e = \<lparr>om_rva = unat x, om_mapped = unat y\<rparr>;
          on_ok (of_db (if to_source then AddOmapToSource grows d e else AddOmapFromSource grows d e))
            (\<lambda>d _. omap_entries grows to_source r ats d) }"

definition ParseOmap ::
  "(nat \<Rightarrow> nat \<Rightarrow> bool) \<Rightarrow> growth \<Rightarrow> msf \<Rightarrow> u16 \<Rightarrow> bool \<Rightarrow> database \<Rightarrow> unit parsed" where
  "ParseOmap grant grows f index to_source d =
     (if index = 0xFFFF then Some (d, Inr ())
      else
        (let s = msf_Stream f (unat index)
         in if \<not> stream_Valid f s then Some (d, Inr ())
            else
              do { (bs, out) \<leftarrow> stream_ReadAll grant f s;
                   case out of
                     Inl err \<Rightarrow> Some (d, Inl err)
                   | Inr _ \<Rightarrow>
                       omap_entries grows to_source (region_of bs) (map (\<lambda>i. i * 8) [0..<length bs div 8]) d }))"


section \<open>Sound parsers\<close>

lemma find_tables_total:
  assumes "rsize r < 2 ^ 62" and "\<forall>t. strs = Some t \<or> checksums = Some t \<longrightarrow> rsize t < 2 ^ 62"
  shows "\<exists>x. find_tables r at strs checksums = Some x \<and>
    (\<forall>s c t. x = Inr (s, c) \<and> (s = Some t \<or> c = Some t) \<longrightarrow> rsize t < 2 ^ 62)"
  using assms(2)
proof (induction "rsize r - at" arbitrary: at strs checksums rule: less_induct)
  case less
  note unfolded = find_tables.simps [of r at strs checksums]
  show ?case
  proof (cases "at + 8 \<le> rsize r")
    case False
    then show ?thesis using less.prems by (auto simp: unfolded)
  next
    case at: True
    then obtain k n where w: "ReadU32 r at = Some k" "ReadU32 r (at + 4) = Some n"
      using read_total(3) [of at r] read_total(3) [of "at + 4" r] by auto
    show ?thesis
    proof (cases "at + 8 + unat n > rsize r")
      case True
      then show ?thesis using at w by (simp add: unfolded)
    next
      case False
      have "at < msf_AlignUp (at + 8 + unat n) 4"
        using align_above [of "at + 8 + unat n" 4] False assms(1) by simp
      then have "rsize r - msf_AlignUp (at + 8 + unat n) 4 < rsize r - at" using at by simp
      from less.hyps [OF this] less.prems False assms(1) show ?thesis
        using at w by (simp add: unfolded Let_def part_of_def)
    qed
  qed
qed

lemma checksum_files_sound:
  assumes "roomy grows" and "built_as z grows d" and "rsize r < 2 ^ 62" and "rsize strs < 2 ^ 62"
  shows "sound z grows (\<lambda>_. True) (checksum_files grows strs r at files d)"
  using assms(2)
proof (induction "rsize r - at" arbitrary: at files d rule: less_induct)
  case less
  note unfolded = checksum_files.simps [of grows strs r at files d]
  show ?case
  proof (cases "at + 6 \<le> rsize r")
    case False
    then show ?thesis using less.prems by (simp add: unfolded sound_Inr)
  next
    case at: True
    then obtain name cb where w: "ReadU32 r at = Some name" "read8 r (at + 4) = Some cb"
      using read_total(3) [of at r] read_total(1) [of "at + 4" r] by auto
    show ?thesis
    proof (cases "at + 6 + unat cb > rsize r")
      case True
      then show ?thesis using at w less.prems by (simp add: unfolded sound_Inr)
    next
      case False
      define next_at where "next_at = msf_AlignUp (at + 6 + unat cb) 4"
      have "at < next_at"
        using align_above [of "at + 6 + unat cb" 4] False assms(3) by (simp add: next_at_def)
      then have more: "sound z grows (\<lambda>_. True) (checksum_files grows strs r next_at files' d')"
        if "built_as z grows d'" for files' d'
        using that at by (intro less.hyps) auto
      show ?thesis
      proof (cases "unat name < rsize strs")
        case True
        then obtain n where n: "CStr strs (unat name) (rsize strs - unat name) = Some n"
          "\<forall>cs. n = Some cs \<longrightarrow> length cs < rsize strs"
          using CStr_total [of "unat name" "rsize strs - unat name" strs] by fastforce
        show ?thesis
        proof (cases n)
          case None
          then show ?thesis using at w False True n(1) more less.prems by (simp add: unfolded next_at_def)
        next
          case (Some cs)
          obtain d' out where i: "Intern grows d cs = (d', out)" by fastforce
          have "length cs < size_max" using n(2) Some assms(4) by (simp add: size_max_def)
          then have "built_as z grows d'" using built_Intern [OF assms(1) less.prems, of cs] i by simp
          then show ?thesis using at w False True n(1) Some i more
            by (cases out) (simp_all add: unfolded next_at_def sound_Inl)
        qed
      next
        case past: False
        then show ?thesis using at w False more less.prems by (simp add: unfolded next_at_def)
      qed
    qed
  qed
qed

lemma inlinee_entries_total:
  "e \<le> rsize r \<Longrightarrow> \<exists>x. inlinee_entries grows r signature p e xs = Some x"
proof (induction "e - p" arbitrary: p xs rule: less_induct)
  case less
  note unfolded = inlinee_entries.simps [of grows r signature p e xs]
  show ?case
  proof (cases "p + 12 \<le> e")
    case False
    then show ?thesis by (simp add: unfolded)
  next
    case p: True
    then obtain t f l where w: "ReadU32 r p = Some t" "ReadU32 r (p + 4) = Some f" "ReadU32 r (p + 8) = Some l"
      using read_total(3) [of p r] read_total(3) [of "p + 4" r] read_total(3) [of "p + 8" r] less.prems by auto
    have more: "\<exists>x. inlinee_entries grows r signature (p + 12 + k) e ys = Some x" for k ys
      using p less.prems by (intro less.hyps) auto
    show ?thesis
    proof (cases "signature = 1 \<and> p + 16 \<le> e")
      case True
      then obtain x where "ReadU32 r (p + 12) = Some x" using read_total(3) [of "p + 12" r] less.prems by auto
      moreover have "\<exists>y. inlinee_entries grows r signature (p + 16 + unat x * 4) e ys = Some y" for ys
        using p less.prems by (intro less.hyps) auto
      ultimately show ?thesis unfolding unfolded using p w True by (simp add: Let_def)
    next
      case False
      then show ?thesis using p w more [of 0] by (auto simp: unfolded Let_def)
    qed
  qed
qed

lemma source_line_at_total:
  assumes "i < n" and "p + n * 8 \<le> e" and "block_end \<le> e" and "e \<le> rsize r"
  shows "\<exists>l. source_line_at r ls file p n block_end i = Some l"
proof -
  have "p + i * 8 + 8 \<le> p + n * 8" using assms(1) by simp
  then have 1: "p + i * 8 + 8 \<le> rsize r" using assms(2,4) by linarith
  have 2: "i + 1 < n \<Longrightarrow> p + (i + 1) * 8 + 4 \<le> rsize r"
  proof -
    assume "i + 1 < n"
    then have "(i + 1) * 8 + 8 \<le> n * 8" by simp
    then show ?thesis using assms(2,4) by linarith
  qed
  have 3: "p + n * 8 + (i + 1) * 4 \<le> block_end \<Longrightarrow> p + n * 8 + i * 4 + 2 \<le> rsize r" using assms(3,4) by simp
  obtain x y where "ReadU32 r (p + i * 8) = Some x" "ReadU32 r (p + i * 8 + 4) = Some y"
    using read_total(3) [of "p + i * 8" r] read_total(3) [of "p + i * 8 + 4" r] 1 by auto
  moreover have "i + 1 < n \<Longrightarrow> \<exists>z. ReadU32 r (p + (i + 1) * 8) = Some z"
    using read_total(3) 2 by blast
  moreover have "p + n * 8 + (i + 1) * 4 \<le> block_end \<Longrightarrow> \<exists>z. ReadU16 r (p + n * 8 + i * 4) = Some z"
    using read_total(2) 3 by blast
  ultimately show ?thesis by (auto simp: source_line_at_def Let_def)
qed

lemma built_AddSourceLine: "roomy grows \<Longrightarrow> built_as z grows d \<Longrightarrow> built_as z grows (fst (AddSourceLine grows d l))"
  using roomy_bound [of grows LineTable "length (source_lines d) + 1"] built.AddSourceLine [of grows d l]
  by (auto simp: AddSourceLine_def built_as_def)

lemma add_lines_sound:
  assumes "roomy grows" and "built_as z grows d" and "\<forall>i \<in> set is. i < n"
    and "p + n * 8 \<le> e" and "block_end \<le> e" and "e \<le> rsize r"
  shows "sound z grows (\<lambda>_. True) (add_lines grows r ls file p n block_end is d)"
  using assms(2,3)
proof (induction "is" arbitrary: d)
  case (Cons i "is")
  have 1: "sound z grows (\<lambda>_. True) (of_db (AddSourceLine grows d l))" for l
    using Cons.prems by (intro sound_of_db built_AddSourceLine [OF assms(1)]) auto
  obtain l where "source_line_at r ls file p n block_end i = Some l"
    using source_line_at_total [where i = i and ls = ls, OF _ assms(4-6)] Cons.prems by auto
  then show ?case using Cons by (simp, intro sound_on_ok [OF 1]) auto
qed (simp add: sound_Inr)

text \<open>A block of lines without size that has no lines either is read over and over, so the loops over blocks
  are sound only when they return.\<close>

definition sound_if_returns :: "database \<Rightarrow> growth \<Rightarrow> 'a parsed \<Rightarrow> bool" where
  "sound_if_returns z grows run \<longleftrightarrow> (\<forall>d r. run = Some (d, r) \<longrightarrow> built_as z grows d)"

lemma sound_returns: "sound z grows Q run \<Longrightarrow> sound_if_returns z grows run"
  by (auto simp: sound_def sound_if_returns_def)

lemma returns_on_ok:
  "sound_if_returns z grows run \<Longrightarrow> (\<And>d x. built_as z grows d \<Longrightarrow> sound_if_returns z grows (next d x)) \<Longrightarrow>
    sound_if_returns z grows (on_ok run next)"
  unfolding sound_if_returns_def on_ok_def by (fastforce split: option.splits sum.splits)

text \<open>A block without size or lines at \<open>p\<close>, or at one of the places that the loop over the blocks from \<open>p\<close> to
  \<open>e\<close> comes to.\<close>

inductive stuck_block :: "region \<Rightarrow> nat \<Rightarrow> nat \<Rightarrow> bool" for r e where
  EmptyBlock: "p + 12 \<le> e \<Longrightarrow> ReadU32 r (p + 4) = Some 0 \<Longrightarrow> ReadU32 r (p + 8) = Some 0 \<Longrightarrow> stuck_block r e p"
| BehindBlock: "p + 12 \<le> e \<Longrightarrow> ReadU32 r (p + 4) = Some lines \<Longrightarrow> ReadU32 r (p + 8) = Some n \<Longrightarrow>
    p + 12 + unat lines * 8 \<le> e \<Longrightarrow> p + unat n \<le> e \<Longrightarrow> stuck_block r e (p + unat n) \<Longrightarrow> stuck_block r e p"

text \<open>Such a block in one of the subsections of lines from \<open>at\<close> on.\<close>

inductive stuck_lines :: "region \<Rightarrow> nat \<Rightarrow> bool" for r where
  InSubsection: "at + 8 \<le> rsize r \<Longrightarrow> ReadU32 r at = Some k \<Longrightarrow> unat k = DEBUG_S_LINES \<Longrightarrow>
    ReadU32 r (at + 4) = Some n \<Longrightarrow> at + 8 + unat n \<le> rsize r \<Longrightarrow> 12 \<le> unat n \<Longrightarrow>
    stuck_block r (at + 8 + unat n) (at + 20) \<Longrightarrow> stuck_lines r at"
| BehindSubsection: "at + 8 \<le> rsize r \<Longrightarrow> ReadU32 r (at + 4) = Some n \<Longrightarrow> at + 8 + unat n \<le> rsize r \<Longrightarrow>
    stuck_lines r (msf_AlignUp (at + 8 + unat n) 4) \<Longrightarrow> stuck_lines r at"

lemma add_lines_grow:
  "add_lines grows r ls file p lines block_end is d = Some (d', Inr ()) \<Longrightarrow>
    length (source_lines d') = length (source_lines d) + length is \<and>
    (is \<noteq> [] \<longrightarrow> grows LineTable (length (source_lines d')))"
proof (induction "is" arbitrary: d)
  case (Cons i "is")
  from Cons.prems obtain l where l: "source_line_at r ls file p lines block_end i = Some l"
    by (auto simp: Option.bind_eq_Some_conv)
  let ?d = "d\<lparr>source_lines := source_lines d @ [l]\<rparr>"
  from Cons.prems l have g: "grows LineTable (length (source_lines d) + 1)"
    and rest: "add_lines grows r ls file p lines block_end is ?d = Some (d', Inr ())"
    by (auto simp: on_ok_def of_db_def AddSourceLine_def split: if_splits)
  from Cons.IH [OF rest] g show ?case by (cases "is") auto
qed simp

lemma line_blocks_total:
  assumes "roomy grows" and "e \<le> rsize r"
  shows "built_as z grows d \<Longrightarrow> \<not> stuck_block r e p \<Longrightarrow> line_blocks grows r ls p e d \<noteq> None"
proof (induction "(p, d)" arbitrary: p d
    rule: wf_induct_rule [OF wf_measures [of "[\<lambda>(p, d). e - p, \<lambda>(p, d). 2 ^ 32 - length (source_lines d)]"]])
  case 1
  note unfolded = line_blocks.simps [of grows r ls p e d]
  show ?case
  proof (cases "p + 12 \<le> e")
    case False
    then show ?thesis by (simp add: unfolded)
  next
    case p: True
    then obtain name k n where w: "ReadU32 r p = Some name" "ReadU32 r (p + 4) = Some k" "ReadU32 r (p + 8) = Some n"
      using read_total(3) [of p r] read_total(3) [of "p + 4" r] read_total(3) [of "p + 8" r] assms(2) by auto
    show ?thesis
    proof (cases "p + unat n > e \<or> p + 12 + unat k * 8 > e")
      case True
      then show ?thesis using p w by (simp add: unfolded)
    next
      case False
      then have fits: "p + unat n \<le> e" "p + 12 + unat k * 8 \<le> e" by simp_all
      from add_lines_sound [where ls = ls and p = "p + 12" and n = "unat k" and d = d and grows = grows,
          OF assms(1) 1(2) _ fits(2,1) assms(2), of "[0..<unat k]" "unat name"]
      obtain d' x where a: "add_lines grows r ls (unat name) (p + 12) (unat k) (p + unat n) [0..<unat k] d = Some (d', x)"
        "built_as z grows d'" by (auto simp: sound_def)
      show ?thesis
      proof (cases x)
        case (Inl err)
        then show ?thesis using p w False a by (simp add: unfolded)
      next
        case (Inr u)
        have ns: "\<not> stuck_block r e (p + unat n)"
          using 1(3) stuck_block.BehindBlock [OF p w(2,3) fits(2,1)] by blast
        have nz: "\<not> (k = 0 \<and> n = 0)" using 1(3) stuck_block.EmptyBlock [OF p, of r] w(2,3) by auto
        note grow = add_lines_grow [OF a(1) [unfolded Inr, folded unit_eq [of u, symmetric]], simplified]
        have "((p + unat n, d'), p, d) \<in> measures [\<lambda>(p, d). e - p, \<lambda>(p, d). 2 ^ 32 - length (source_lines d)]"
        proof (cases "n = 0")
          case False
          then have "0 < unat n" by (simp add: unat_gt_0)
          then have "e - (p + unat n) < e - p" using p by arith
          then show ?thesis by simp
        next
          case True
          then have k: "0 < unat k" using nz by (simp add: unat_gt_0)
          then have "length (source_lines d') < 2 ^ 32 - 2"
            using grow roomy_bound [OF assms(1)] by auto
          then show ?thesis using True k grow by simp
        qed
        from 1(1) [OF this a(2) ns] show ?thesis using p w False a(1) Inr by (simp add: unfolded)
      qed
    qed
  qed
qed

lemma line_blocks_returns:
  assumes "roomy grows" and "built_as z grows d" and "e \<le> rsize r"
  shows "sound_if_returns z grows (line_blocks grows r ls p e d)"
proof -
  have "built_as z grows (fst out)" if "line_blocks grows r ls p e d = Some out" for out
  proof -
    have "roomy grows \<longrightarrow> built_as z grows d \<longrightarrow> e \<le> rsize r \<longrightarrow> built_as z grows (fst out)"
    proof (rule line_blocks.raw_induct [OF _ that])
      fix f grows r ls p e d y
      assume IH: "\<And>grows r ls p e d y. f grows r ls p e d = Some y \<Longrightarrow>
          roomy grows \<longrightarrow> built_as z grows d \<longrightarrow> e \<le> rsize r \<longrightarrow> built_as z grows (fst y)"
        and run: "(if p + 12 \<le> e
          then do { name \<leftarrow> ReadU32 r p; lines \<leftarrow> ReadU32 r (p + 4); n \<leftarrow> ReadU32 r (p + 8);
                    if p + unat n > e \<or> p + 12 + unat lines * 8 > e then Some (d, Inr ())
                    else do { (d, out) \<leftarrow> add_lines grows r ls (unat name) (p + 12) (unat lines) (p + unat n)
                                            [0..<unat lines] d;
                              case out of Inl err \<Rightarrow> Some (d, Inl err) | Inr _ \<Rightarrow> f grows r ls (p + unat n) e d } }
          else Some (d, Inr ())) = Some y"
      show "roomy grows \<longrightarrow> built_as z grows d \<longrightarrow> e \<le> rsize r \<longrightarrow> built_as z grows (fst y)"
      proof (intro impI)
        assume g: "roomy grows" "built_as z grows d" "e \<le> rsize r"
        have lines: "built_as z grows d'"
          if "add_lines grows r ls k (p + 12) n b [0..<n] d = Some (d', x)" "p + 12 + n * 8 \<le> e" "b \<le> e" for k n b d' x
          using add_lines_sound [where ls = ls and p = "p + 12" and n = n and d = d, OF g(1,2) _ that(2,3) g(3), of "[0..<n]" k]
            that(1) by (auto simp: sound_def)
        show "built_as z grows (fst y)"
        proof (cases "p + 12 \<le> e")
          case False
          then show ?thesis using run g by auto
        next
          case True
          with run obtain name k n where w: "ReadU32 r p = Some name" "ReadU32 r (p + 4) = Some k"
            "ReadU32 r (p + 8) = Some n"
            by (auto simp: Option.bind_eq_Some_conv)
          show ?thesis
          proof (cases "p + unat n > e \<or> p + 12 + unat k * 8 > e")
            case out: True
            then show ?thesis using run True w g by auto
          next
            case False
            then obtain d' x where x: "add_lines grows r ls (unat name) (p + 12) (unat k) (p + unat n) [0..<unat k] d =
                Some (d', x)"
              "(case x of Inl err \<Rightarrow> Some (d', Inl err) | Inr _ \<Rightarrow> f grows r ls (p + unat n) e d') = Some y"
              using run True w by (simp add: Option.bind_eq_Some_conv) blast
            have "built_as z grows d'" using lines [OF x(1)] False by simp
            then show ?thesis using x(2) IH g by (cases x) auto
          qed
        qed
      qed
    qed
    with assms show ?thesis by blast
  qed
  then show ?thesis by (auto simp: sound_if_returns_def)
qed

lemma line_subsection_returns:
  assumes "roomy grows" and "built_as z grows d" and "image_readable m base" and "p + n \<le> rsize r"
  shows "sound_if_returns z grows (line_subsection grows r m base module files k p n inlinees d)"
proof (cases "k = DEBUG_S_INLINEELINES \<and> n \<ge> 4")
  case True
  obtain w where "ReadU32 r p = Some w" using read_total(3) [of p r] True assms(4) by auto
  moreover have "\<exists>x. inlinee_entries grows r signature (p + 4) (p + n) inlinees = Some x" for signature
    using assms(4) by (rule inlinee_entries_total)
  ultimately show ?thesis using True assms(2)
    by (auto simp: line_subsection_def sound_if_returns_def Option.bind_eq_Some_conv)
next
  case False
  show ?thesis
  proof (cases "k = DEBUG_S_LINES \<and> n \<ge> 12")
    case True
    then obtain w1 w2 w3 w4 where w: "ReadU32 r p = Some w1" "ReadU16 r (p + 4) = Some w2" "ReadU16 r (p + 6) = Some w3"
      "ReadU32 r (p + 8) = Some w4"
      using read_total(3) [of p r] read_total(2) [of "p + 4" r] read_total(2) [of "p + 6" r]
        read_total(3) [of "p + 8" r] assms(4) by auto
    obtain rva where rva: "SegmentOffsetToRva m base w2 (unat w1) = Some rva"
      using assms(3) unfolding image_readable_def by blast
    have add: "sound_if_returns z grows (Some (d, Inr x))" if "built_as z grows d" for d x
      using that by (simp add: sound_if_returns_def)
    show ?thesis
      using False True w rva assms(2)
        returns_on_ok [OF line_blocks_returns [OF assms(1,2,4)], OF add]
      by (cases rva) (auto simp: line_subsection_def add)
  next
    case other: False
    then show ?thesis using False assms(2) by (auto simp: line_subsection_def sound_if_returns_def)
  qed
qed

lemma line_subsections_returns:
  assumes "roomy grows" and "built_as z grows d" and "image_readable m base" and "rsize r < 2 ^ 62"
  shows "sound_if_returns z grows (line_subsections grows r m base module files at inlinees d)"
  using assms(2)
proof (induction "rsize r - at" arbitrary: at inlinees d rule: less_induct)
  case less
  note unfolded = line_subsections.simps [of grows r m base module files at inlinees d]
  show ?case
  proof (cases "at + 8 \<le> rsize r")
    case False
    then show ?thesis using less.prems by (simp add: unfolded sound_if_returns_def)
  next
    case at: True
    then obtain k n where w: "ReadU32 r at = Some k" "ReadU32 r (at + 4) = Some n"
      using read_total(3) [of at r] read_total(3) [of "at + 4" r] by auto
    show ?thesis
    proof (cases "at + 8 + unat n > rsize r")
      case True
      then show ?thesis using at w less.prems by (simp add: unfolded sound_if_returns_def)
    next
      case fits: False
      have more: "sound_if_returns z grows (line_subsections grows r m base module files
          (msf_AlignUp (at + 8 + unat n) 4) xs d')" if "built_as z grows d'" for xs d'
        using that at align_above [of "at + 8 + unat n" 4] fits assms(4) by (intro less.hyps) auto
      have sub: "sound_if_returns z grows (line_subsection grows r m base module files (unat k) (at + 8) (unat n) inlinees d)"
        using assms(1,3) less.prems fits by (intro line_subsection_returns) auto
      show ?thesis
      proof (cases "line_subsection grows r m base module files (unat k) (at + 8) (unat n) inlinees d")
        case None
        then show ?thesis using at w fits by (simp add: unfolded sound_if_returns_def)
      next
        case (Some out)
        obtain d' x where "out = (d', x)" by fastforce
        then show ?thesis using Some sub at w fits more [of d']
          by (cases x) (simp_all add: unfolded sound_if_returns_def)
      qed
    qed
  qed
qed

lemma line_subsection_total:
  assumes "roomy grows" and "built_as z grows d" and "image_readable m base" and "p + n \<le> rsize r"
    and "k = DEBUG_S_LINES \<and> 12 \<le> n \<longrightarrow> \<not> stuck_block r (p + n) (p + 12)"
  shows "line_subsection grows r m base module files k p n inlinees d \<noteq> None"
proof (cases "k = DEBUG_S_INLINEELINES \<and> n \<ge> 4")
  case True
  obtain w where "ReadU32 r p = Some w" using read_total(3) [of p r] True assms(4) by auto
  moreover obtain x where "inlinee_entries grows r w (p + 4) (p + n) inlinees = Some x"
    using inlinee_entries_total [OF assms(4)] by blast
  ultimately show ?thesis using True by (simp add: line_subsection_def)
next
  case False
  show ?thesis
  proof (cases "k = DEBUG_S_LINES \<and> n \<ge> 12")
    case True
    then obtain w1 w2 w3 w4 where w: "ReadU32 r p = Some w1" "ReadU16 r (p + 4) = Some w2" "ReadU16 r (p + 6) = Some w3"
      "ReadU32 r (p + 8) = Some w4"
      using read_total(3) [of p r] read_total(2) [of "p + 4" r] read_total(2) [of "p + 6" r]
        read_total(3) [of "p + 8" r] assms(4) by auto
    obtain rva where rva: "SegmentOffsetToRva m base w2 (unat w1) = Some rva"
      using assms(3) unfolding image_readable_def by blast
    have "line_blocks grows r ls (p + 12) (p + n) d \<noteq> None" for ls
      using line_blocks_total [OF assms(1,4,2)] assms(5) True by blast
    then show ?thesis
      using False True w rva
      by (cases rva) (auto simp: line_subsection_def on_ok_def split: option.splits sum.splits)
  qed (use False in \<open>auto simp: line_subsection_def\<close>)
qed

lemma line_subsections_total:
  assumes "roomy grows" and "image_readable m base" and "rsize r < 2 ^ 62"
  shows "built_as z grows d \<Longrightarrow> \<not> stuck_lines r at \<Longrightarrow>
    line_subsections grows r m base module files at inlinees d \<noteq> None"
proof (induction "rsize r - at" arbitrary: at inlinees d rule: less_induct)
  case less
  note unfolded = line_subsections.simps [of grows r m base module files at inlinees d]
  show ?case
  proof (cases "at + 8 \<le> rsize r")
    case False
    then show ?thesis by (simp add: unfolded)
  next
    case at: True
    then obtain k n where w: "ReadU32 r at = Some k" "ReadU32 r (at + 4) = Some n"
      using read_total(3) [of at r] read_total(3) [of "at + 4" r] by auto
    show ?thesis
    proof (cases "at + 8 + unat n > rsize r")
      case True
      then show ?thesis using at w by (simp add: unfolded)
    next
      case fits: False
      then have f: "at + 8 + unat n \<le> rsize r" by simp
      have "at + 8 + 12 = at + 20" by simp
      then have "unat k = DEBUG_S_LINES \<and> 12 \<le> unat n \<longrightarrow> \<not> stuck_block r (at + 8 + unat n) (at + 8 + 12)"
        using less.prems(2) stuck_lines.InSubsection [OF at w(1) _ w(2) f] by metis
      from line_subsection_total [OF assms(1) less.prems(1) assms(2) f this]
      obtain d' x where s: "line_subsection grows r m base module files (unat k) (at + 8) (unat n) inlinees d = Some (d', x)"
        by fastforce
      have "built_as z grows d'"
        using line_subsection_returns [where k = "unat k" and files = files and module = module and inlinees = inlinees,
            OF assms(1) less.prems(1) assms(2) f] s
        by (auto simp: sound_if_returns_def)
      moreover have "\<not> stuck_lines r (msf_AlignUp (at + 8 + unat n) 4)"
        using less.prems(2) stuck_lines.BehindSubsection [OF at w(2) f] by blast
      moreover have "rsize r - msf_AlignUp (at + 8 + unat n) 4 < rsize r - at"
        using at align_above [of "at + 8 + unat n" 4] fits assms(3) by auto
      ultimately have "line_subsections grows r m base module files (msf_AlignUp (at + 8 + unat n) 4) xs d' \<noteq> None" for xs
        using less.hyps by blast
      then show ?thesis using s at w fits by (cases x) (simp_all add: unfolded)
    qed
  qed
qed

lemma complete_site_id: "complete_site module files inlinees d s = Some t \<Longrightarrow> is_id t = is_id s"
  by (auto simp: complete_site_def Let_def split: option.splits if_splits Option.bind_splits)

lemma complete_sites_total:
  assumes "built_as z grows d"
  shows "\<exists>ts. complete_sites module files inlinees d ss = Some ts \<and> map is_id ts = map is_id ss"
proof (induction ss)
  case (Cons s ss)
  obtain x where "TypeByIndex d (is_inlinee s) = Some x" using TypeByIndex_total [OF assms] by blast
  then have "\<exists>t. complete_site module files inlinees d s = Some t"
    by (auto simp: complete_site_def Let_def split: option.splits)
  with Cons complete_site_id show ?case by fastforce
qed simp

lemma ParseC13_returns:
  assumes "roomy grows" and "built_as z grows d" and "image_readable m base" and "rsize r < 2 ^ 62"
    and "\<forall>t. strs = Some t \<longrightarrow> rsize t < 2 ^ 62"
  shows "sound_if_returns z grows (ParseC13 grows r m base module strs d)"
proof -
  obtain x where x: "find_tables r 0 strs None = Some x"
    "\<forall>s c t. x = Inr (s, c) \<and> (s = Some t \<or> c = Some t) \<longrightarrow> rsize t < 2 ^ 62"
    using find_tables_total [of r strs None 0] assms(4,5) by auto
  show ?thesis
  proof (cases x)
    case (Inl e)
    then show ?thesis using x(1) assms(2) by (simp add: ParseC13_def sound_if_returns_def)
  next
    case (Inr tables)
    obtain s c where t: "tables = (s, c)" by fastforce
    have files: "sound_if_returns z grows (case (s, c) of
        (Some t, Some c) \<Rightarrow> checksum_files grows t c 0 [] d | _ \<Rightarrow> Some (d, Inr []))"
    proof (cases "\<exists>u v. s = Some u \<and> c = Some v")
      case True
      then obtain u v where uv: "s = Some u" "c = Some v" by blast
      then have "rsize u < 2 ^ 62" "rsize v < 2 ^ 62" using x(2) Inr t by blast+
      then show ?thesis
        using sound_returns [OF checksum_files_sound [OF assms(1,2)]] by (simp add: uv)
    next
      case False
      then show ?thesis using assms(2) by (cases s; cases c) (simp_all add: sound_if_returns_def)
    qed
    have sites: "sound_if_returns z grows
        (do { sites \<leftarrow> complete_sites module files inlinees d (inline_sites d);
              Some (d\<lparr>inline_sites := sites\<rparr>, Inr ()) })" if d: "built_as z grows d" for d files inlinees
    proof -
      obtain ts where "complete_sites module files inlinees d (inline_sites d) = Some ts"
        "map is_id ts = map is_id (inline_sites d)"
        using complete_sites_total [OF d] by blast
      then show ?thesis using built.UpdateSites [OF as_built [OF d]] d by (simp add: sound_if_returns_def built_as_def)
    qed
    show ?thesis
      unfolding ParseC13_def x(1) Inr t bind.bind_lunit sum.case prod.case
      using files by (intro returns_on_ok line_subsections_returns [OF assms(1) _ assms(3,4)] sites) simp_all
  qed
qed

lemma ParseC13_total:
  assumes "roomy grows" and "built_as z grows d" and "image_readable m base" and "rsize r < 2 ^ 62"
    and "\<forall>t. strs = Some t \<longrightarrow> rsize t < 2 ^ 62" and "\<not> stuck_lines r 0"
  shows "ParseC13 grows r m base module strs d \<noteq> None"
proof -
  obtain x where x: "find_tables r 0 strs None = Some x"
    "\<forall>s c t. x = Inr (s, c) \<and> (s = Some t \<or> c = Some t) \<longrightarrow> rsize t < 2 ^ 62"
    using find_tables_total [of r strs None 0] assms(4,5) by auto
  show ?thesis
  proof (cases x)
    case (Inl e)
    then show ?thesis using x(1) by (simp add: ParseC13_def)
  next
    case (Inr tables)
    obtain s c where t: "tables = (s, c)" by fastforce
    have "sound z grows (\<lambda>_. True) (case (s, c) of
        (Some t, Some c) \<Rightarrow> checksum_files grows t c 0 [] d | _ \<Rightarrow> Some (d, Inr []))"
      using checksum_files_sound [OF assms(1,2)] x(2) Inr t assms(2)
      by (auto simp: sound_Inr split: option.splits)
    then obtain d1 files where f: "(case (s, c) of
        (Some t, Some c) \<Rightarrow> checksum_files grows t c 0 [] d | _ \<Rightarrow> Some (d, Inr [])) = Some (d1, files)"
      "built_as z grows d1" by (auto simp: sound_def)
    show ?thesis
    proof (cases files)
      case (Inl e)
      then show ?thesis using x(1) Inr t f(1) by (simp add: ParseC13_def on_ok_def)
    next
      case ok: (Inr fs)
      have "line_subsections grows r m base module fs 0 [] d1 \<noteq> None"
        by (rule line_subsections_total [OF assms(1,3,4) f(2) assms(6)])
      then obtain d2 y where l: "line_subsections grows r m base module fs 0 [] d1 = Some (d2, y)" by fastforce
      then have d2: "built_as z grows d2"
        using line_subsections_returns [where module = module and files = fs and at = 0 and inlinees = "[]",
            OF assms(1) f(2) assms(3,4)]
        by (auto simp: sound_if_returns_def)
      show ?thesis
      proof (cases y)
        case (Inl e)
        then show ?thesis using x(1) Inr t f(1) ok l by (simp add: ParseC13_def on_ok_def)
      next
        case (Inr inlinees)
        obtain ts where "complete_sites module fs inlinees d2 (inline_sites d2) = Some ts"
          using complete_sites_total [OF d2] by blast
        then show ?thesis using x(1) \<open>x = Inr tables\<close> t f(1) ok l Inr by (simp add: ParseC13_def on_ok_def)
      qed
    qed
  qed
qed

lemma ParseSectionMap_sound:
  assumes "built_as z grows d" and "p + n \<le> rsize r"
  shows "sound z grows (\<lambda>_. True) (ParseSectionMap grows r p n d)"
proof -
  have entries: "sound z grows (\<lambda>_. True) (section_entries grows r p n k d)"
    if "built_as z grows d" "p + n \<le> rsize r" for p n k d
    using that
  proof (induction k arbitrary: p n d)
    case (Suc k)
    have 1: "sound z grows (\<lambda>_. True) (of_db (AddSectionMap grows d e))" for e
      using Suc.prems built.AddSectionMap [of grows d e]
      by (intro sound_of_db) (auto simp: AddSectionMap_def built_as_def)
    show ?case using Suc.prems
      by (simp, intro impI parsing sound_on_ok [OF 1] conjI Suc.IH) (auto simp: sound_Inr)
  qed (simp add: sound_Inr)
  show ?thesis unfolding ParseSectionMap_def using assms
    by (intro parsing entries) auto
qed

lemma ParseOmap_sound:
  assumes "roomy grows" and "built_as z grows d" and "msf_inv f"
  shows "sound z grows (\<lambda>_. True) (ParseOmap grant grows f index to_source d)"
proof -
  have add: "sound z grows (\<lambda>_. True)
      (of_db (if b then AddOmapToSource grows d e else AddOmapFromSource grows d e))" if "built_as z grows d" for b d e
    using that roomy_bound [OF assms(1), of ToSourceTable "length (omap_to_source d) + 1"]
      roomy_bound [OF assms(1), of FromSourceTable "length (omap_from_source d) + 1"]
      built.AddOmapToSource [of grows d e] built.AddOmapFromSource [of grows d e]
    by (intro sound_of_db) (auto simp: AddOmapToSource_def AddOmapFromSource_def built_as_def)
  have entries: "sound z grows (\<lambda>_. True) (omap_entries grows b r ats d)"
    if "\<forall>at \<in> set ats. at + 8 \<le> rsize r" "built_as z grows d" for b r ats d
    using that
  proof (induction ats arbitrary: d)
    case (Cons at ats)
    then show ?case
      by (simp add: Let_def, intro parsing sound_on_ok [OF add]) auto
  qed (simp add: sound_Inr)
  have multiples: "\<forall>at \<in> set (map (\<lambda>i. i * 8) [0..<n div 8]). at + 8 \<le> n" for n :: nat by auto
  show ?thesis
  proof (cases "index = 0xFFFF \<or> \<not> stream_Valid f (msf_Stream f (unat index))")
    case True
    then show ?thesis using assms(2) by (auto simp: ParseOmap_def Let_def sound_Inr)
  next
    case False
    then obtain i where i: "msf_Stream f (unat index) = Some i" "stream_Valid f (Some i)"
      by (cases "msf_Stream f (unat index)") (auto simp: stream_Valid_def)
    show ?thesis
      using False i assms(2) entries [of "map (\<lambda>i. i * 8) [0..<n div 8]" for n]
      by (simp add: ParseOmap_def Let_def stream_ReadAll_eq [OF assms(3)] sound_Inl)
        (auto intro!: entries)
  qed
qed

text \<open>C32: a block of lines that has no size and no lines makes the loop over the blocks read it again and again:
  the parser of line information does not return.\<close>

theorem empty_line_block_loops:
  assumes "p + 12 \<le> e" and "e \<le> rsize r" and "ReadU32 r (p + 4) = Some 0" and "ReadU32 r (p + 8) = Some 0"
  shows "line_blocks grows r ls p e d = None"
proof -
  have "p + 12 \<le> e \<and> ReadU32 r (p + 4) = Some 0 \<and> ReadU32 r (p + 8) = Some 0 \<longrightarrow> False"
    if "line_blocks grows r ls p e d = Some out" for out
  proof (rule line_blocks.raw_induct [OF _ that])
    fix f grows r ls p e d y
    assume IH: "\<And>grows r ls p e d y. f grows r ls p e d = Some y \<Longrightarrow>
        p + 12 \<le> e \<and> ReadU32 r (p + 4) = Some 0 \<and> ReadU32 r (p + 8) = Some 0 \<longrightarrow> False"
      and run: "(if p + 12 \<le> e
        then do { name \<leftarrow> ReadU32 r p; lines \<leftarrow> ReadU32 r (p + 4); n \<leftarrow> ReadU32 r (p + 8);
                  if p + unat n > e \<or> p + 12 + unat lines * 8 > e then Some (d, Inr ())
                  else do { (d, out) \<leftarrow> add_lines grows r ls (unat name) (p + 12) (unat lines) (p + unat n)
                                          [0..<unat lines] d;
                            case out of Inl err \<Rightarrow> Some (d, Inl err) | Inr _ \<Rightarrow> f grows r ls (p + unat n) e d } }
        else Some (d, Inr ())) = Some y"
    show "p + 12 \<le> e \<and> ReadU32 r (p + 4) = Some 0 \<and> ReadU32 r (p + 8) = Some 0 \<longrightarrow> False"
    proof
      assume a: "p + 12 \<le> e \<and> ReadU32 r (p + 4) = Some 0 \<and> ReadU32 r (p + 8) = Some 0"
      then have "f grows r ls p e d = Some y" using run by (simp add: Option.bind_eq_Some_conv)
      from IH [OF this] a show False by blast
    qed
  qed
  then show ?thesis using assms by (cases "line_blocks grows r ls p e d") auto
qed

definition zero_block :: region where
  "zero_block = region_of (replicate 12 0)"

theorem empty_line_block_loops_witness:
  "line_blocks (\<lambda>t n. n < 10) zero_block
     \<lparr>ls_base = 4096, ls_size = 16, ls_columns = False, ls_files = [], ls_module = 0\<rparr> 0 12 db_empty = None"
  by (rule empty_line_block_loops)
    (simp_all add: zero_block_def region_of_def ReadU32_def read8_def)

end
