(* ===== verification/PeExports.thy ===== *)
theory PeExports
  imports Pe Database
begin

text \<open>
  The export table of an image, \<^verbatim>\<open>Image::Exports\<close>: one entry for each function with an address, with the
  name that the name table gives it. The texts are read from memory up to their terminator; \<open>grows\<close>
  stands for the allocator, as in theory Database.
\<close>

definition ExportDirectory_fields :: layout where
  "ExportDirectory_fields =
     [(''Characteristics'', 4, 1), (''TimeDateStamp'', 4, 1), (''MajorVersion'', 2, 1), (''MinorVersion'', 2, 1),
      (''NameRva'', 4, 1), (''Base'', 4, 1), (''NumberOfFunctions'', 4, 1), (''NumberOfNames'', 4, 1),
      (''AddressOfFunctionsRva'', 4, 1), (''AddressOfNamesRva'', 4, 1), (''AddressOfNameOrdinalsRva'', 4, 1)]"

record export =
  ex_name :: name
  ex_ordinal :: u16
  ex_rva :: u32
  ex_address :: u64
  ex_forwarded :: bool
  ex_forwarder :: name

partial_function (option) cstring_at :: "memory \<Rightarrow> u64 \<Rightarrow> name \<Rightarrow> name option" where
  "cstring_at m a cs = do { b \<leftarrow> m a; if b = 0 then Some cs else cstring_at m (a + 1) (cs @ [sint b]) }"

text \<open>The null pointer gives the empty string; a text that the allocator has no room for too.\<close>

definition ReadAsciiString :: "growth \<Rightarrow> memory \<Rightarrow> u64 \<Rightarrow> name option" where
  "ReadAsciiString grows m p =
     (if p = 0 then Some [] else do { cs \<leftarrow> cstring_at m p []; Some (stored_text grows cs) })"

text \<open>The first entry of the name table whose ordinal is \<open>i\<close>.\<close>

fun find_name :: "memory \<Rightarrow> u64 \<Rightarrow> nat \<Rightarrow> nat list \<Rightarrow> nat option option" where
  "find_name m ordinals i [] = Some None"
| "find_name m ordinals i (n # ns) =
     do { o' \<leftarrow> read16 m (ordinals + of_nat (2 * n)); if unat o' = i then Some (Some n) else find_name m ordinals i ns }"

definition export_name :: "growth \<Rightarrow> memory \<Rightarrow> u64 \<Rightarrow> u64 \<Rightarrow> u64 \<Rightarrow> nat \<Rightarrow> nat \<Rightarrow> name option" where
  "export_name grows m base names ordinals count_of_names i =
     (if names = 0 \<or> ordinals = 0 then Some []
      else
        do { found \<leftarrow> find_name m ordinals i [0..<count_of_names];
             case found of
               None \<Rightarrow> Some []
             | Some n \<Rightarrow>
                 do { rva \<leftarrow> read32 m (names + of_nat (4 * n)); p \<leftarrow> RvaToPointer m base rva;
                      ReadAsciiString grows m p } })"

text \<open>A function is forwarded when its address lies in the export directory itself; the end of the directory is
  computed with 32 bits.\<close>

definition is_forwarded :: "directory \<Rightarrow> u32 \<Rightarrow> bool" where
  "is_forwarded dir rva \<longleftrightarrow> rva \<ge> drva dir \<and> rva < drva dir + directory.dsize dir"

definition export_of ::
  "growth \<Rightarrow> memory \<Rightarrow> u64 \<Rightarrow> directory \<Rightarrow> u32 \<Rightarrow> u64 \<Rightarrow> u64 \<Rightarrow> nat \<Rightarrow> nat \<Rightarrow> u32 \<Rightarrow> export option" where
  "export_of grows m base dir ordinal_base names ordinals k i rva =
     do { f \<leftarrow> (if is_forwarded dir rva then do { p \<leftarrow> RvaToPointer m base rva; ReadAsciiString grows m p } else Some []);
          n \<leftarrow> export_name grows m base names ordinals k i;
          Some \<lparr>ex_name = n, ex_ordinal = ucast (ordinal_base + of_nat i), ex_rva = rva,
            ex_address = base + ucast rva, ex_forwarded = is_forwarded dir rva, ex_forwarder = f\<rparr> }"

text \<open>The loop over the functions; when the vector cannot grow, the result is empty.\<close>

fun export_loop ::
  "growth \<Rightarrow> memory \<Rightarrow> u64 \<Rightarrow> (nat \<Rightarrow> u32 \<Rightarrow> export option) \<Rightarrow> nat list \<Rightarrow> export list \<Rightarrow> export list option" where
  "export_loop grows m functions_at entry [] es = Some es"
| "export_loop grows m functions_at entry (i # is) es =
     do { rva \<leftarrow> read32 m (functions_at + of_nat (4 * i));
          if rva = 0 then export_loop grows m functions_at entry is es
          else
            do { e \<leftarrow> entry i rva;
                 if grows ResultTable (length es + 1) then export_loop grows m functions_at entry is (es @ [e])
                 else Some [] } }"

definition Exports :: "growth \<Rightarrow> memory \<Rightarrow> u64 \<Rightarrow> export list option" where
  "Exports grows m base =
     do { dir \<leftarrow> GetDirectory m base ExportDir;
          if directory_Empty dir then Some []
          else
            do { h \<leftarrow> RvaToPointer m base (drva dir);
                 if h = 0 then Some []
                 else
                   do { f_rva \<leftarrow> read32 m (field_at h ExportDirectory_fields ''AddressOfFunctionsRva'');
                        f \<leftarrow> RvaToPointer m base f_rva;
                        n_rva \<leftarrow> read32 m (field_at h ExportDirectory_fields ''AddressOfNamesRva'');
                        names \<leftarrow> RvaToPointer m base n_rva;
                        o_rva \<leftarrow> read32 m (field_at h ExportDirectory_fields ''AddressOfNameOrdinalsRva'');
                        ordinals \<leftarrow> RvaToPointer m base o_rva;
                        if f = 0 then Some []
                        else
                          do { n \<leftarrow> read32 m (field_at h ExportDirectory_fields ''NumberOfFunctions'');
                               k \<leftarrow> read32 m (field_at h ExportDirectory_fields ''NumberOfNames'');
                               b \<leftarrow> read32 m (field_at h ExportDirectory_fields ''Base'');
                               export_loop grows m f (export_of grows m base dir b names ordinals (unat k))
                                 [0..<unat n] [] } } } }"

end
