(* ===== verification/PdbFile.thy ===== *)
theory PdbFile
  imports LineRecords PeExports
begin

text \<open>
  The reader itself, \<^verbatim>\<open>PdbFile\<close> in \<^verbatim>\<open>Reverse/Pdb.cpp\<close>: \<open>Open\<close> reads the identity of a PDB,
  \<open>Populate\<close> checks it against the image and fills a database from the streams of the file: primitive
  types, type streams, section and address maps, symbol records, the modules with their symbols and
  lines, the exports of the image, and the indices of the database at the end.
\<close>

unbundle bit_operations_syntax

section \<open>Named streams\<close>

definition skip_bit_vector :: "region \<Rightarrow> nat \<Rightarrow> (nat \<times> bool) option" where
  "skip_bit_vector r at =
     (if at + 4 > rsize r then Some (at, False)
      else
        do { n \<leftarrow> ReadU32 r at;
             case CheckedMul (unat n) 4 of
               None \<Rightarrow> Some (at + 4, False)
             | Some k \<Rightarrow> if at + 4 + k > rsize r then Some (at + 4, False) else Some (at + 4 + k, True) })"

text \<open>The loop over the pairs of a name and a stream: \<open>texts\<close> are the names, the pairs start at \<open>at\<close>.\<close>

fun find_pair ::
  "msf \<Rightarrow> region \<Rightarrow> region \<Rightarrow> name \<Rightarrow> nat \<Rightarrow> nat \<Rightarrow> (error_info + nat option) option" where
  "find_pair f r texts v at 0 = Some (Inr None)"
| "find_pair f r texts v at (Suc left) =
     do { n \<leftarrow> ReadU32 r at; s \<leftarrow> ReadU32 r (at + 4);
          if unat n \<ge> rsize texts then find_pair f r texts v (at + 8) left
          else
            do { c \<leftarrow> CStr texts (unat n) (rsize texts - unat n);
                 if c = Some v then
                   if unat s \<ge> msf_StreamCount f then Some (Inl (ErrorAt InvalidPdbInfo 1 (at + 4)))
                   else Some (Inr (Some (unat s)))
                 else find_pair f r texts v (at + 8) left } }"

text \<open>The result is the stream, or \<^term>\<open>None\<close> when there is none of that name.\<close>

definition find_stream :: "msf \<Rightarrow> region \<Rightarrow> name \<Rightarrow> (error_info + nat option) option" where
  "find_stream f r v =
     do { n \<leftarrow> ReadU32 r 28;
          if 32 + unat n > rsize r then Some (Inl (ErrorAt InvalidPdbInfo 1 32))
          else
            (let texts = part_of r 32 (unat n); at = 32 + unat n
             in if at + 8 > rsize r then Some (Inl (ErrorAt InvalidPdbInfo 1 at))
                else
                  do { entries \<leftarrow> ReadU32 r at; capacity \<leftarrow> ReadU32 r (at + 4);
                       let at = at + 8;
                       if entries > capacity then Some (Inl (ErrorAt InvalidPdbInfo 1 at))
                       else
                         do { (at, ok) \<leftarrow> skip_bit_vector r at;
                              (at, ok) \<leftarrow> (if ok then skip_bit_vector r at else Some (at, False));
                              if \<not> ok then Some (Inl (ErrorAt InvalidPdbInfo 1 at))
                              else
                                case CheckedMul (unat entries) 8 of
                                  None \<Rightarrow> Some (Inl (ErrorAt InvalidPdbInfo 1 at))
                                | Some k \<Rightarrow>
                                    if at + k > rsize r then Some (Inl (ErrorAt InvalidPdbInfo 1 at))
                                    else find_pair f r texts v at (unat entries) } }) }"

definition FindNamedStream ::
  "(nat \<Rightarrow> nat \<Rightarrow> bool) \<Rightarrow> msf \<Rightarrow> name \<Rightarrow> (error_info + nat option) option" where
  "FindNamedStream grant f v =
     (let s = msf_Stream f 1
      in if \<not> stream_Valid f s \<or> stream_Size f s < 32 then Some (Inl (ErrorAt InvalidPdbInfo 1 0))
         else
           do { (bs, out) \<leftarrow> stream_ReadAll grant f s;
                case out of Inl e \<Rightarrow> Some (Inl e) | Inr _ \<Rightarrow> find_stream f (region_of bs) v })"

text \<open>The strings of the whole program, \<^term>\<open>None\<close> inside when the file has none.\<close>

definition OpenGlobalStringTable :: "(nat \<Rightarrow> nat \<Rightarrow> bool) \<Rightarrow> msf \<Rightarrow> (error_info + region option) option" where
  "OpenGlobalStringTable grant f =
     do { found \<leftarrow> FindNamedStream grant f (name_of_string ''/names'');
          case found of
            Inl e \<Rightarrow> Some (Inl e)
          | Inr None \<Rightarrow> Some (Inr None)
          | Inr (Some i) \<Rightarrow>
              (let s = msf_Stream f i
               in if \<not> stream_Valid f s \<or> stream_Size f s < 12 then Some (Inl (ErrorAt InvalidPdbInfo i 0))
                  else
                    do { (bs, out) \<leftarrow> stream_ReadAll grant f s;
                         case out of
                           Inl e \<Rightarrow> Some (Inl e)
                         | Inr _ \<Rightarrow>
                             (let r = region_of bs
                              in do { w \<leftarrow> ReadU32 r 0;
                                      if w \<noteq> 0xEFFEEFFE then Some (Inl (ErrorAt InvalidPdbInfo i 0))
                                      else
                                        do { n \<leftarrow> ReadU32 r 8;
                                             if unat n > rsize r - 12 then Some (Inl (ErrorAt InvalidPdbInfo i 8))
                                             else Some (Inr (Some (part_of r 12 (unat n)))) } }) }) }"

section \<open>Identities\<close>

text \<open>A GUID in a region and in memory.\<close>

definition guid_at :: "region \<Rightarrow> nat \<Rightarrow> guid option" where
  "guid_at r at =
     do { a \<leftarrow> ReadU32 r at; b \<leftarrow> ReadU16 r (at + 4); c \<leftarrow> ReadU16 r (at + 6); d \<leftarrow> read_bytes r (at + 8) 8;
          Some (a, b, c, d) }"

definition read_guid :: "memory \<Rightarrow> u64 \<Rightarrow> guid option" where
  "read_guid m p =
     do { a \<leftarrow> read32 m p; b \<leftarrow> read16 m (p + 4); c \<leftarrow> read16 m (p + 6);
          d0 \<leftarrow> m (p + 8); d1 \<leftarrow> m (p + 9); d2 \<leftarrow> m (p + 10); d3 \<leftarrow> m (p + 11);
          d4 \<leftarrow> m (p + 12); d5 \<leftarrow> m (p + 13); d6 \<leftarrow> m (p + 14); d7 \<leftarrow> m (p + 15);
          Some (a, b, c, [d0, d1, d2, d3, d4, d5, d6, d7]) }"

definition ImageDebugDirectory_fields :: layout where
  "ImageDebugDirectory_fields =
     [(''Characteristics'', 4, 1), (''TimeDateStamp'', 4, 1), (''MajorVersion'', 2, 1), (''MinorVersion'', 2, 1),
      (''Type'', 4, 1), (''SizeOfData'', 4, 1), (''AddressOfRawData'', 4, 1), (''PointerToRawData'', 4, 1)]"

definition RsdsHeader_fields :: layout where
  "RsdsHeader_fields = [(''Signature'', 4, 1), (''Guid'', 1, 16), (''Age'', 4, 1)]"

fun debug_entries :: "memory \<Rightarrow> u64 \<Rightarrow> u64 \<Rightarrow> nat list \<Rightarrow> pdb_identity option option" where
  "debug_entries m base entries [] = Some None"
| "debug_entries m base entries (i # is) =
     (let e = entries + of_nat (packed_size ImageDebugDirectory_fields * i)
      in do { t \<leftarrow> read32 m (e + of_nat (packed_offset ImageDebugDirectory_fields ''Type''));
              n \<leftarrow> read32 m (e + of_nat (packed_offset ImageDebugDirectory_fields ''SizeOfData''));
              a \<leftarrow> read32 m (e + of_nat (packed_offset ImageDebugDirectory_fields ''AddressOfRawData''));
              sz \<leftarrow> ImageSize m base;
              if t \<noteq> 2 \<or> unat n < packed_size RsdsHeader_fields \<or> unat a + packed_size RsdsHeader_fields > unat sz
              then debug_entries m base entries is
              else
                do { p \<leftarrow> RvaToPointer m base a;
                     if p = 0 then debug_entries m base entries is
                     else
                       do { w \<leftarrow> read32 m p;
                            if w \<noteq> 0x53445352 then debug_entries m base entries is
                            else
                              do { g \<leftarrow> read_guid m (p + of_nat (packed_offset RsdsHeader_fields ''Guid''));
                                   k \<leftarrow> read32 m (p + of_nat (packed_offset RsdsHeader_fields ''Age''));
                                   Some (Some \<lparr>id_guid = g, id_age = k\<rparr>) } } } })"

text \<open>The identity that the image names; the end of the directory is computed with 32 bits.\<close>

definition ImageIdentity :: "memory \<Rightarrow> u64 \<Rightarrow> pdb_identity option option" where
  "ImageIdentity m base =
     do { d \<leftarrow> GetDirectory m base DebugDir;
          if directory_Empty d then Some None
          else
            do { sz \<leftarrow> ImageSize m base;
                 if drva d + directory.dsize d > sz then Some None
                 else
                   do { entries \<leftarrow> RvaToPointer m base (drva d);
                        if entries = 0 then Some None
                        else debug_entries m base entries
                               [0..<unat (directory.dsize d) div packed_size ImageDebugDirectory_fields] } } }"

section \<open>Opening\<close>

record pdb_file =
  pf_msf :: msf
  pf_identity :: pdb_identity
  pf_valid :: bool

definition no_identity :: pdb_identity where
  "no_identity = \<lparr>id_guid = (0, 0, 0, replicate 8 0), id_age = 0\<rparr>"

text \<open>The header of stream 1: its age at 8, its GUID at 12. It takes 28 bytes.\<close>

definition PdbFile_Open ::
  "(nat \<Rightarrow> nat \<Rightarrow> bool) \<Rightarrow> region option \<Rightarrow> (pdb_file \<times> (error_info + unit)) option" where
  "PdbFile_Open grant data =
     do { (f, out) \<leftarrow> msf_Open grant data;
          let pdb = \<lparr>pf_msf = f, pf_identity = no_identity, pf_valid = False\<rparr>;
          case out of
            Inl e \<Rightarrow> Some (pdb, Inl e)
          | Inr _ \<Rightarrow>
              (let s = msf_Stream f 1
               in if \<not> stream_Valid f s \<or> stream_Size f s < 28
                  then Some (pdb, Inl (ErrorAt MissingPdbInfo 1 0))
                  else
                    do { (h, out) \<leftarrow> stream_Read f s 0 True 28;
                         case out of
                           Inl e \<Rightarrow> Some (pdb, Inl e)
                         | Inr _ \<Rightarrow>
                             do { k \<leftarrow> ReadU32 (region_of h) 8; g \<leftarrow> guid_at (region_of h) 12;
                                  let pdb = pdb\<lparr>pf_identity := \<lparr>id_guid = g, id_age = k\<rparr>\<rparr>;
                                  Some (if \<not> identity_Valid (pf_identity pdb)
                                        then (pdb, Inl (ErrorAt InvalidPdbInfo 1 0))
                                        else (pdb\<lparr>pf_valid := True\<rparr>, Inr ())) } }) }"

section \<open>Filling a database\<close>

datatype match_policy = RequireExact | AllowMissingImageIdentity | Ignore

record load_options =
  lo_policy :: match_policy
  lo_public :: bool
  lo_global :: bool
  lo_module_symbols :: bool
  lo_types :: bool
  lo_lines :: bool
  lo_inline :: bool
  lo_exports :: bool

text \<open>What the operation works on: the file, the image in memory, and the allocators of bytes and of tables.\<close>

record loader =
  ld_pdb :: pdb_file
  ld_memory :: memory
  ld_base :: u64
  ld_grant :: "nat \<Rightarrow> nat \<Rightarrow> bool"
  ld_grows :: growth

fun add_exports :: "growth \<Rightarrow> export list \<Rightarrow> database \<Rightarrow> unit parsed" where
  "add_exports grows [] d = Some (d, Inr ())"
| "add_exports grows (e # es) d =
     (if ex_name e = [] \<or> ex_forwarded e then add_exports grows es d
      else
        on_ok (AddSym grows
                 (no_symbol\<lparr>sy_kind := PublicFunction, sy_visibility := PublicVisibility, sy_source := PeExport,
                    sy_flags := CodeFlag OR FunctionFlag, sy_rva := unat (ex_rva e)\<rparr>) (ex_name e) d)
          (\<lambda>d _. add_exports grows es d))"

definition AddExports :: "loader \<Rightarrow> database \<Rightarrow> unit parsed" where
  "AddExports ld d =
     do { es \<leftarrow> Exports (ld_grows ld) (ld_memory ld) (ld_base ld); add_exports (ld_grows ld) es d }"

text \<open>The check of the identities: an error, or none.\<close>

definition check_identity :: "match_policy \<Rightarrow> pdb_identity \<Rightarrow> pdb_identity option \<Rightarrow> pdb_error option" where
  "check_identity policy own img =
     (if policy = Ignore then None
      else
        case img of
          None \<Rightarrow> if policy = RequireExact then Some MissingImageIdentity else None
        | Some i \<Rightarrow>
            if id_guid i \<noteq> id_guid own then Some IdentityMismatch
            else if id_age i \<noteq> id_age own then Some AgeMismatch else None)"

text \<open>The records of a stream, or of a part of one, given as bytes.\<close>

definition symbols_of :: "loader \<Rightarrow> nat \<Rightarrow> nat \<Rightarrow> u8 list \<Rightarrow> database \<Rightarrow> unit parsed" where
  "symbols_of ld module stream bs d =
     ParseSymbolRecords (ld_grows ld)
       \<lparr>rs_memory = ld_memory ld, rs_base = ld_base ld, rs_module = module, rs_source = ExactPdb, rs_stream = stream\<rparr>
       (region_of bs) d"

text \<open>\<open>n\<close> bytes of a module's stream from \<open>at\<close> on, handed to a parser.\<close>

definition with_part ::
  "loader \<Rightarrow> nat option \<Rightarrow> nat \<Rightarrow> nat \<Rightarrow> (u8 list \<Rightarrow> database \<Rightarrow> unit parsed) \<Rightarrow> database \<Rightarrow> unit parsed" where
  "with_part ld s at n parse d =
     (if n \<noteq> 0 \<and> \<not> ld_grant ld 1 n then Some (d, Inl (ErrorAt pdb_error.AllocationFailure NoStream 0))
      else
        do { (bs, out) \<leftarrow> stream_Read (pf_msf (ld_pdb ld)) s at (n \<noteq> 0) n;
             case out of Inl e \<Rightarrow> Some (d, Inl e) | Inr _ \<Rightarrow> parse bs d })"

definition module_streams ::
  "loader \<Rightarrow> load_options \<Rightarrow> region option \<Rightarrow> nat \<Rightarrow> module \<Rightarrow> database \<Rightarrow> unit parsed" where
  "module_streams ld opt strs mid v d =
     (if mod_stream v = 0xFFFF then Some (d, Inr ())
      else
        (let s = msf_Stream (pf_msf (ld_pdb ld)) (mod_stream v); bad = ErrorAt InvalidModuleStream (mod_stream v) 0
         in if \<not> stream_Valid (pf_msf (ld_pdb ld)) s then Some (d, Inl bad)
            else if mod_symbol_bytes v + mod_c11_bytes v + mod_c13_bytes v > stream_Size (pf_msf (ld_pdb ld)) s
            then Some (d, Inl bad)
            else
              on_ok
                (if lo_module_symbols opt \<and> mod_symbol_bytes v \<ge> 4
                 then with_part ld s 4 (mod_symbol_bytes v - 4) (symbols_of ld mid (mod_stream v)) d
                 else Some (d, Inr ()))
                (\<lambda>d _.
                   if (lo_lines opt \<or> lo_inline opt) \<and> mod_c13_bytes v \<noteq> 0
                   then with_part ld s (mod_symbol_bytes v + mod_c11_bytes v) (mod_c13_bytes v)
                          (\<lambda>bs. ParseC13 (ld_grows ld) (region_of bs) (ld_memory ld) (ld_base ld) mid strs) d
                   else Some (d, Inr ()))))"

text \<open>A module's header of 64 bytes: its stream at 34, the bytes of its symbols, of its old and of its new lines at
  36, 40 and 44; then its name and its object file. The value is the offset of the next one.\<close>

definition module_record ::
  "loader \<Rightarrow> load_options \<Rightarrow> region option \<Rightarrow> region \<Rightarrow> nat \<Rightarrow> nat \<Rightarrow> database \<Rightarrow> nat parsed" where
  "module_record ld opt strs r c e d =
     (let bad = Some (d, Inl (ErrorAt InvalidModuleInfo 3 c)); grows = ld_grows ld
      in if c + 64 > e then bad
         else
           do { n \<leftarrow> CStr r (c + 64) (e - (c + 64));
                case n of
                  None \<Rightarrow> bad
                | Some n \<Rightarrow>
                    (let at = c + 64 + length n + 1
                     in do { o' \<leftarrow> CStr r at (e - at);
                             case o' of
                               None \<Rightarrow> bad
                             | Some o' \<Rightarrow>
                                 do { s \<leftarrow> ReadU16 r (c + 34); b \<leftarrow> ReadU32 r (c + 36); b11 \<leftarrow> ReadU32 r (c + 40);
                                      b13 \<leftarrow> ReadU32 r (c + 44);
                                      on_ok (of_db (Intern grows d n))
                                        (\<lambda>d i. on_ok (of_db (Intern grows d o'))
                                          (\<lambda>d j.
                                             let v = \<lparr>mod_id = InvalidId, mod_name = i, mod_object = j,
                                                 mod_stream = unat s, mod_symbol_bytes = unat b,
                                                 mod_c11_bytes = unat b11, mod_c13_bytes = unat b13\<rparr>
                                             in on_ok (of_db (AddModule grows d v))
                                                  (\<lambda>d mid. on_ok (module_streams ld opt strs mid v d)
                                                     (\<lambda>d _. Some (d, Inr (msf_AlignUp (at + length o' + 1) 4)))))) } }) })"

partial_function (option) module_loop ::
  "loader \<Rightarrow> load_options \<Rightarrow> region option \<Rightarrow> region \<Rightarrow> nat \<Rightarrow> nat \<Rightarrow> database \<Rightarrow> unit parsed" where
  "module_loop ld opt strs r c e d =
     (if c < e then
        do { (d, out) \<leftarrow> module_record ld opt strs r c e d;
             case out of Inl err \<Rightarrow> Some (d, Inl err) | Inr c \<Rightarrow> module_loop ld opt strs r c e d }
      else Some (d, Inr ()))"

definition types_of :: "loader \<Rightarrow> nat \<Rightarrow> bool \<Rightarrow> database \<Rightarrow> unit parsed" where
  "types_of ld i ipi d =
     (if stream_Valid (pf_msf (ld_pdb ld)) (msf_Stream (pf_msf (ld_pdb ld)) i)
      then ParseTypeStream (ld_grant ld) (ld_grows ld) (pf_msf (ld_pdb ld)) i ipi d
      else Some (d, Inr ()))"

definition global_symbols :: "loader \<Rightarrow> load_options \<Rightarrow> u16 \<Rightarrow> database \<Rightarrow> unit parsed" where
  "global_symbols ld opt i d =
     (let f = pf_msf (ld_pdb ld); s = msf_Stream f (unat i)
      in if (lo_public opt \<or> lo_global opt) \<and> i \<noteq> 0xFFFF \<and> stream_Valid f s then
           do { (bs, out) \<leftarrow> stream_ReadAll (ld_grant ld) f s;
                case out of Inl e \<Rightarrow> Some (d, Inl e) | Inr _ \<Rightarrow> symbols_of ld InvalidId (unat i) bs d }
         else Some (d, Inr ()))"

text \<open>The header of stream 3: the fields that are read. It takes 64 bytes.\<close>

record dbi_header =
  dh_signature :: u32
  dh_age :: u32
  dh_symbols :: u16
  dh_modules :: u32
  dh_contributions :: u32
  dh_section_map :: u32
  dh_files :: u32
  dh_type_servers :: u32
  dh_optional :: u32
  dh_ec :: u32

definition dbi_header_of :: "region \<Rightarrow> dbi_header option" where
  "dbi_header_of h =
     do { v \<leftarrow> ReadU32 h 0; a \<leftarrow> ReadU32 h 8; s \<leftarrow> ReadU16 h 20; m \<leftarrow> ReadU32 h 24; c \<leftarrow> ReadU32 h 28;
          sm \<leftarrow> ReadU32 h 32; fi \<leftarrow> ReadU32 h 36; ts \<leftarrow> ReadU32 h 40; op \<leftarrow> ReadU32 h 48; ec \<leftarrow> ReadU32 h 52;
          Some \<lparr>dh_signature = v, dh_age = a, dh_symbols = s, dh_modules = m, dh_contributions = c,
            dh_section_map = sm, dh_files = fi, dh_type_servers = ts, dh_optional = op, dh_ec = ec\<rparr> }"

text \<open>The sizes are signed numbers, and none may be negative.\<close>

definition dbi_header_ok :: "dbi_header \<Rightarrow> bool" where
  "dbi_header_ok h \<longleftrightarrow> sint (dh_signature h) = - 1 \<and> sint (dh_modules h) \<ge> 0 \<and> sint (dh_contributions h) \<ge> 0 \<and>
     sint (dh_section_map h) \<ge> 0 \<and> sint (dh_files h) \<ge> 0 \<and> sint (dh_type_servers h) \<ge> 0 \<and>
     sint (dh_optional h) \<ge> 0 \<and> sint (dh_ec h) \<ge> 0"

definition section_map_at :: "dbi_header \<Rightarrow> nat" where
  "section_map_at h = 64 + unat (dh_modules h) + unat (dh_contributions h)"

definition optional_at :: "dbi_header \<Rightarrow> nat" where
  "optional_at h = section_map_at h + unat (dh_section_map h) + unat (dh_files h) + unat (dh_type_servers h) +
     unat (dh_ec h)"

text \<open>The address maps that the optional header names.\<close>

definition address_maps :: "loader \<Rightarrow> region \<Rightarrow> dbi_header \<Rightarrow> database \<Rightarrow> unit parsed" where
  "address_maps ld r h d =
     (if unat (dh_optional h) \<ge> 10 then
        do { to_src \<leftarrow> ReadU16 r (optional_at h + 6); from_src \<leftarrow> ReadU16 r (optional_at h + 8);
             on_ok (ParseOmap (ld_grant ld) (ld_grows ld) (pf_msf (ld_pdb ld)) to_src True d)
               (\<lambda>d _. ParseOmap (ld_grant ld) (ld_grows ld) (pf_msf (ld_pdb ld)) from_src False d) }
      else Some (d, Inr ()))"

text \<open>The contents of stream 3, once its header is accepted.\<close>

definition load_dbi ::
  "loader \<Rightarrow> load_options \<Rightarrow> region option \<Rightarrow> region \<Rightarrow> dbi_header \<Rightarrow> database \<Rightarrow> unit parsed" where
  "load_dbi ld opt strs r h d =
     (if optional_at h + unat (dh_optional h) > rsize r then Some (d, Inl (ErrorAt InvalidDbi 3 0))
      else
        on_ok (if dh_section_map h \<noteq> 0
               then ParseSectionMap (ld_grows ld) r (section_map_at h) (unat (dh_section_map h)) d
               else Some (d, Inr ()))
          (\<lambda>d _. on_ok (address_maps ld r h d)
             (\<lambda>d _. on_ok (global_symbols ld opt (dh_symbols h) d)
                (\<lambda>d _.
                   if lo_module_symbols opt \<or> lo_lines opt \<or> lo_inline opt
                   then module_loop ld opt strs r 64 (64 + unat (dh_modules h)) d
                   else Some (d, Inr ())))))"

definition load_types :: "loader \<Rightarrow> load_options \<Rightarrow> database \<Rightarrow> unit parsed" where
  "load_types ld opt d =
     (if lo_types opt then on_ok (types_of ld 2 False d) (\<lambda>d _. types_of ld 4 True d) else Some (d, Inr ()))"

definition global_strings :: "loader \<Rightarrow> load_options \<Rightarrow> (error_info + region option) option" where
  "global_strings ld opt =
     (if lo_lines opt \<or> lo_inline opt then OpenGlobalStringTable (ld_grant ld) (pf_msf (ld_pdb ld))
      else Some (Inr None))"

text \<open>Everything behind the check of the identities, up to the indices.\<close>

definition load_streams :: "loader \<Rightarrow> load_options \<Rightarrow> database \<Rightarrow> unit parsed" where
  "load_streams ld opt d =
     (let f = pf_msf (ld_pdb ld); s = msf_Stream f 3
      in if \<not> stream_Valid f s \<or> stream_Size f s < 64 then Some (d, Inl (ErrorAt MissingDbi 3 0))
         else
           do { (b, out) \<leftarrow> stream_Read f s 0 True 64;
                case out of
                  Inl e \<Rightarrow> Some (d, Inl e)
                | Inr _ \<Rightarrow>
                    do { h \<leftarrow> dbi_header_of (region_of b);
                         if \<not> dbi_header_ok h then Some (d, Inl (ErrorAt InvalidDbi 3 0))
                         else if dh_age h \<noteq> id_age (pf_identity (ld_pdb ld))
                         then Some (d, Inl (ErrorAt AgeMismatch 3 0))
                         else
                           on_ok (load_types ld opt d)
                             (\<lambda>d _.
                                do { strs \<leftarrow> global_strings ld opt;
                                     case strs of
                                       Inl e \<Rightarrow> Some (d, Inl e)
                                     | Inr strs \<Rightarrow>
                                         do { (bs, out) \<leftarrow> stream_ReadAll (ld_grant ld) f s;
                                              case out of
                                                Inl e \<Rightarrow> Some (d, Inl e)
                                              | Inr _ \<Rightarrow>
                                                  on_ok (load_dbi ld opt strs (region_of bs) h d)
                                                    (\<lambda>d _. if lo_exports opt then AddExports ld d
                                                           else Some (d, Inr ())) } }) } })"

text \<open>\<open>Populate\<close> up to \<open>Finalize\<close>, on the database it has reset.\<close>

definition load_database :: "loader \<Rightarrow> load_options \<Rightarrow> database \<Rightarrow> unit parsed" where
  "load_database ld opt d =
     on_ok (AddPrimitiveTypes (ld_grows ld) d)
       (\<lambda>d _.
          do { img \<leftarrow> ImageIdentity (ld_memory ld) (ld_base ld);
               case check_identity (lo_policy opt) (pf_identity (ld_pdb ld)) img of
                 Some code \<Rightarrow> Some (d, Inl (ErrorAt code NoStream 0))
               | None \<Rightarrow> load_streams ld opt d })"

definition Populate :: "loader \<Rightarrow> load_options \<Rightarrow> database \<Rightarrow> unit parsed" where
  "Populate ld opt d =
     (if \<not> pf_valid (ld_pdb ld) \<or> ld_base ld = 0 then Some (d, Inl (ErrorAt pdb_error.InvalidArgument NoStream 0))
      else
        do { valid \<leftarrow> IsValid (ld_memory ld) (ld_base ld);
             if \<not> valid then Some (d, Inl (ErrorAt UnsupportedFormat NoStream 0))
             else
               do { n \<leftarrow> ImageSize (ld_memory ld) (ld_base ld);
                    let d = db_Reset (ld_grows ld) d;
                    let d = SetImage d (Some (unat (ld_base ld))) (unat n);
                    let d = SetIdentity d (pf_identity (ld_pdb ld));
                    on_ok (load_database ld opt d)
                      (\<lambda>d _. do { out \<leftarrow> Finalize (ld_grows ld) d; of_db out }) } })"


section \<open>Sound loading\<close>

text \<open>The loader is sound but for the loop over blocks of lines: it has no result only when \<open>loops\<close>.\<close>

definition sound_or :: "bool \<Rightarrow> database \<Rightarrow> growth \<Rightarrow> ('a \<Rightarrow> bool) \<Rightarrow> 'a parsed \<Rightarrow> bool" where
  "sound_or loops z grows Q run \<longleftrightarrow>
     (run = None \<longrightarrow> loops) \<and> (\<forall>d r. run = Some (d, r) \<longrightarrow> built_as z grows d \<and> (\<forall>x. r = Inr x \<longrightarrow> Q x))"

lemma or_sound: "sound z grows Q run \<Longrightarrow> sound_or loops z grows Q run"
  by (auto simp: sound_def sound_or_def)

lemma or_returns:
  "sound_if_returns z grows run \<Longrightarrow> (\<not> loops \<Longrightarrow> run \<noteq> None) \<Longrightarrow> sound_or loops z grows (\<lambda>_. True) run"
  by (auto simp: sound_if_returns_def sound_or_def)

lemma or_Inl: "built_as z grows d \<Longrightarrow> sound_or loops z grows Q (Some (d, Inl e))"
  by (simp add: sound_or_def)

lemma or_Inr: "built_as z grows d \<Longrightarrow> Q x \<Longrightarrow> sound_or loops z grows Q (Some (d, Inr x))"
  by (simp add: sound_or_def)

lemma or_on_ok:
  "sound_or loops z grows P run \<Longrightarrow> (\<And>d x. built_as z grows d \<Longrightarrow> P x \<Longrightarrow> sound_or loops z grows Q (next d x)) \<Longrightarrow>
    sound_or loops z grows Q (on_ok run next)"
  unfolding sound_or_def on_ok_def by (fastforce split: option.splits sum.splits)

lemma or_then:
  "sound_or loops z grows (\<lambda>_. True) run \<Longrightarrow> (\<And>d x. built_as z grows d \<Longrightarrow> sound_or loops z grows Q (next d x)) \<Longrightarrow>
    sound_or loops z grows Q (on_ok run next)"
  by (rule or_on_ok) auto

lemma or_if:
  "(b \<Longrightarrow> sound_or loops z grows Q x) \<Longrightarrow> (\<not> b \<Longrightarrow> sound_or loops z grows Q y) \<Longrightarrow>
    sound_or loops z grows Q (if b then x else y)"
  by simp

text \<open>Names of streams.\<close>

lemma skip_bit_vector_total:
  "\<exists>x. skip_bit_vector r at = Some x"
proof (cases "at + 4 > rsize r")
  case False
  then obtain n where "ReadU32 r at = Some n" using read_total(3) [of at r] by auto
  then show ?thesis by (auto simp: skip_bit_vector_def split: option.splits)
qed (simp add: skip_bit_vector_def, blast)

lemma find_pair_total:
  "at + 8 * k \<le> rsize r \<Longrightarrow> \<exists>x. find_pair f r texts v at k = Some x"
proof (induction k arbitrary: at)
  case (Suc k)
  then obtain n s where "ReadU32 r at = Some n" "ReadU32 r (at + 4) = Some s"
    using read_total(3) [of at r] read_total(3) [of "at + 4" r] by auto
  moreover have "\<exists>x. find_pair f r texts v (at + 8) k = Some x" using Suc by simp
  moreover have "unat n < rsize texts \<Longrightarrow> \<exists>c. CStr texts (unat n) (rsize texts - unat n) = Some c"
    using CStr_total [of "unat n" "rsize texts - unat n" texts] by auto
  ultimately show ?case by (auto simp: Let_def)
qed simp

lemma find_stream_total:
  assumes "32 \<le> rsize r"
  shows "\<exists>x. find_stream f r v = Some x"
proof -
  obtain n where n: "ReadU32 r 28 = Some n" using read_total(3) [of 28 r] assms by auto
  show ?thesis
  proof (cases "32 + unat n + 8 > rsize r")
    case True
    then show ?thesis using n by (auto simp: find_stream_def Let_def)
  next
    case False
    then obtain a b where ab: "ReadU32 r (32 + unat n) = Some a" "ReadU32 r (36 + unat n) = Some b"
      using read_total(3) [of "32 + unat n" r] read_total(3) [of "36 + unat n" r] by auto
    obtain at1 ok1 where 1: "skip_bit_vector r (40 + unat n) = Some (at1, ok1)"
      using skip_bit_vector_total [of r "40 + unat n"] by auto
    obtain at2 ok2 where 2: "(if ok1 then skip_bit_vector r at1 else Some (at1, False)) = Some (at2, ok2)"
      using skip_bit_vector_total [of r at1] by (cases ok1) auto
    define rest where "rest = (if \<not> ok2 then Some (Inl (ErrorAt InvalidPdbInfo 1 at2))
        else case CheckedMul (unat a) 8 of
          None \<Rightarrow> Some (Inl (ErrorAt InvalidPdbInfo 1 at2))
        | Some k \<Rightarrow> if at2 + k > rsize r then Some (Inl (ErrorAt InvalidPdbInfo 1 at2))
                    else find_pair f r (part_of r 32 (unat n)) v at2 (unat a))"
    have "\<exists>x. rest = Some x"
      using find_pair_total [of at2 "unat a" r f "part_of r 32 (unat n)" v] CheckedMul_Some [of "unat a" 8]
      by (auto simp: rest_def mult.commute split: option.splits)
    moreover have "find_stream f r v =
        (if a > b then Some (Inl (ErrorAt InvalidPdbInfo 1 (40 + unat n))) else rest)"
      using False by (simp add: find_stream_def Let_def n ab 1 2 rest_def)
    ultimately show ?thesis by auto
  qed
qed

lemma stream_bytes_length [simp]: "length (stream_bytes f i) = descriptor.dsize (streams f ! i)"
  by (simp add: stream_bytes_def)

lemma stream_of_valid:
  assumes "msf_inv f" and "stream_Valid f (msf_Stream f i)"
  shows "msf_Stream f i = Some i" and "stream_Valid f (Some i)" and "stream_Size f (Some i) = descriptor.dsize (streams f ! i)"
    and "descriptor.dsize (streams f ! i) < 2 ^ 32"
proof -
  show 1: "msf_Stream f i = Some i" using assms(2) by (auto simp: msf_Stream_def stream_Valid_def split: if_splits)
  with assms(2) show 2: "stream_Valid f (Some i)" by simp
  then show "stream_Size f (Some i) = descriptor.dsize (streams f ! i)" by (simp add: stream_Size_def)
  have "streams f ! i \<in> set (streams f)" using 2 stream_Valid_eq [OF assms(1)] by auto
  then show "descriptor.dsize (streams f ! i) < 2 ^ 32" using assms(1) by (auto simp: msf_inv_def stream_fits_def)
qed

lemma FindNamedStream_total:
  assumes "msf_inv f"
  shows "\<exists>x. FindNamedStream grant f v = Some x"
proof (cases "stream_Valid f (msf_Stream f 1) \<and> stream_Size f (msf_Stream f 1) \<ge> 32")
  case True
  note s = stream_of_valid [OF assms, of 1]
  show ?thesis using True s find_stream_total [of "region_of (stream_bytes f 1)" f v]
    by (auto simp: FindNamedStream_def Let_def stream_ReadAll_eq [OF assms])
next
  case False
  then show ?thesis by (auto simp: FindNamedStream_def Let_def)
qed

lemma OpenGlobalStringTable_total:
  assumes "msf_inv f"
  shows "\<exists>x. OpenGlobalStringTable grant f = Some x \<and> (\<forall>t. x = Inr (Some t) \<longrightarrow> rsize t < 2 ^ 62)"
proof -
  obtain x where x: "FindNamedStream grant f (name_of_string ''/names'') = Some x"
    using FindNamedStream_total [OF assms] by blast
  show ?thesis
  proof (cases "\<exists>i. x = Inr (Some i) \<and> stream_Valid f (msf_Stream f i) \<and> stream_Size f (msf_Stream f i) \<ge> 12")
    case True
    then obtain i where i: "x = Inr (Some i)" "stream_Valid f (msf_Stream f i)" "stream_Size f (msf_Stream f i) \<ge> 12"
      by blast
    note s = stream_of_valid [OF assms i(2)]
    define r where "r = region_of (stream_bytes f i)"
    have len: "rsize r = descriptor.dsize (streams f ! i)" by (simp add: r_def)
    have "12 \<le> rsize r" using i(3) s len by simp
    then obtain w n where "ReadU32 r 0 = Some w" "ReadU32 r 8 = Some n"
      using read_total(3) [of 0 r] read_total(3) [of 8 r] by auto
    then show ?thesis using x i s len
      by (auto simp: OpenGlobalStringTable_def Let_def stream_ReadAll_eq [OF assms] r_def part_of_def)
  next
    case False
    then show ?thesis using x
      by (cases x; cases "projr x") (auto simp: OpenGlobalStringTable_def Let_def)
  qed
qed

text \<open>What the loader needs of the image: that its headers, its debug directory and its export table can be read,
  and that no name in it takes more than the memory of a machine.\<close>

definition image_ok :: "loader \<Rightarrow> bool" where
  "image_ok ld \<longleftrightarrow> image_readable (ld_memory ld) (ld_base ld) \<and>
     ImageIdentity (ld_memory ld) (ld_base ld) \<noteq> None \<and>
     (\<exists>es. Exports (ld_grows ld) (ld_memory ld) (ld_base ld) = Some es \<and>
       (\<forall>e \<in> set es. 2 * length (ex_name e) < size_max)) \<and>
     IsValid (ld_memory ld) (ld_base ld) \<noteq> None \<and> ImageSize (ld_memory ld) (ld_base ld) \<noteq> None"

definition loader_ok :: "loader \<Rightarrow> bool" where
  "loader_ok ld \<longleftrightarrow> roomy (ld_grows ld) \<and> image_ok ld \<and> msf_inv (pf_msf (ld_pdb ld))"

definition reads_lines :: "load_options \<Rightarrow> bool" where
  "reads_lines opt \<longleftrightarrow> lo_lines opt \<or> lo_inline opt"

text \<open>The record at \<open>c\<close> of a module names its stream, and where its lines stand there.\<close>

definition names_lines :: "region \<Rightarrow> nat \<Rightarrow> nat \<Rightarrow> nat \<Rightarrow> nat \<Rightarrow> bool" where
  "names_lines r c s at n \<longleftrightarrow> (\<exists>k b b11 b13.
     ReadU16 r (c + 34) = Some k \<and> ReadU32 r (c + 36) = Some b \<and> ReadU32 r (c + 40) = Some b11 \<and>
     ReadU32 r (c + 44) = Some b13 \<and> s = unat k \<and> at = unat b + unat b11 \<and> n = unat b13)"

text \<open>The lines of some module of the file have a block with neither size nor lines where the reader meets it
  (\<open>stuck_lines\<close>): with the options that read lines, the reader may not return.\<close>

definition has_stuck_lines :: "msf \<Rightarrow> bool" where
  "has_stuck_lines f \<longleftrightarrow> (\<exists>c s at n. names_lines (region_of (stream_bytes f 3)) c s at n \<and>
     s < length (streams f) \<and> at + n \<le> descriptor.dsize (streams f ! s) \<and>
     stuck_lines (region_of (map (sbyte f s) [at..<at + n])) 0)"

definition may_hang :: "loader \<Rightarrow> load_options \<Rightarrow> bool" where
  "may_hang ld opt \<longleftrightarrow> reads_lines opt \<and> has_stuck_lines (pf_msf (ld_pdb ld))"

lemma symbols_of_sound:
  assumes "loader_ok ld" and "built_as z (ld_grows ld) d" and "length bs < 2 ^ 62"
  shows "sound z (ld_grows ld) (\<lambda>_. True) (symbols_of ld mid stream bs d)"
  unfolding symbols_of_def using assms
  by (intro ParseSymbolRecords_sound) (simp_all add: loader_ok_def image_ok_def)

lemma with_part_sound:
  assumes "loader_ok ld" and "built_as z (ld_grows ld) d"
    and "\<And>bs i. length bs = n \<Longrightarrow> s = Some i \<Longrightarrow> i < length (streams (pf_msf (ld_pdb ld))) \<Longrightarrow>
      at + n \<le> descriptor.dsize (streams (pf_msf (ld_pdb ld)) ! i) \<Longrightarrow>
      bs = map (sbyte (pf_msf (ld_pdb ld)) i) [at..<at + n] \<Longrightarrow> sound_or loops z (ld_grows ld) Q (parse bs d)"
  shows "sound_or loops z (ld_grows ld) Q (with_part ld s at n parse d)"
proof -
  let ?f = "pf_msf (ld_pdb ld)"
  have inv: "msf_inv ?f" using assms(1) by (simp add: loader_ok_def)
  have "stream_Read ?f s at (n \<noteq> 0) n =
      (if stream_Valid ?f s then ReadStream ?f (the s) at (n \<noteq> 0) n
       else Some ([], Inl (ErrorAt InvalidStream (stream_Index s) at)))" by (simp add: stream_Read_def)
  then consider e where "stream_Read ?f s at (n \<noteq> 0) n = Some ([], Inl e)"
    | i where "stream_Read ?f s at (n \<noteq> 0) n = Some (map (sbyte ?f i) [at..<at + n], Inr ())"
      "s = Some i" "i < length (streams ?f)" "at + n \<le> descriptor.dsize (streams ?f ! i)"
    unfolding ReadStream_eq [OF inv] stream_Valid_def
    by (cases s) (auto split: if_splits)
  then show ?thesis
  proof cases
    case 1
    then show ?thesis using assms(2) by (auto simp: with_part_def intro!: or_if or_Inl)
  next
    case 2
    then have "sound_or loops z (ld_grows ld) Q (parse (map (sbyte ?f i) [at..<at + n]) d)"
      by (intro assms(3) [of _ i]) auto
    then show ?thesis using 2(1) assms(2) by (auto simp: with_part_def intro!: or_if or_Inl)
  qed
qed

lemma module_streams_sound:
  assumes "loader_ok ld" and "built_as z (ld_grows ld) d" and "\<forall>t. strs = Some t \<longrightarrow> rsize t < 2 ^ 62"
    and "mod_symbol_bytes v < 2 ^ 32" and "mod_c13_bytes v < 2 ^ 32"
    and "names_lines (region_of (stream_bytes (pf_msf (ld_pdb ld)) 3)) c (mod_stream v)
      (mod_symbol_bytes v + mod_c11_bytes v) (mod_c13_bytes v)"
  shows "sound_or (may_hang ld opt) z (ld_grows ld) (\<lambda>_. True) (module_streams ld opt strs mid v d)"
proof -
  have 1: "sound_or loops z (ld_grows ld) (\<lambda>_. True)
      (with_part ld s 4 (mod_symbol_bytes v - 4) (symbols_of ld mid (mod_stream v)) d)" for loops s
    using assms(1,2,4) by (intro with_part_sound or_sound symbols_of_sound) auto
  have 2: "sound_or (has_stuck_lines (pf_msf (ld_pdb ld))) z (ld_grows ld) (\<lambda>_. True)
      (with_part ld (msf_Stream (pf_msf (ld_pdb ld)) (mod_stream v)) (mod_symbol_bytes v + mod_c11_bytes v)
        (mod_c13_bytes v) (\<lambda>bs. ParseC13 (ld_grows ld) (region_of bs) (ld_memory ld) (ld_base ld) mid strs) d)"
    if d: "built_as z (ld_grows ld) d" for d
  proof (rule with_part_sound [OF assms(1) d])
    fix bs i
    assume l: "length bs = mod_c13_bytes v" and i: "msf_Stream (pf_msf (ld_pdb ld)) (mod_stream v) = Some i"
      "i < length (streams (pf_msf (ld_pdb ld)))"
      "mod_symbol_bytes v + mod_c11_bytes v + mod_c13_bytes v \<le> descriptor.dsize (streams (pf_msf (ld_pdb ld)) ! i)"
      "bs = map (sbyte (pf_msf (ld_pdb ld)) i)
        [mod_symbol_bytes v + mod_c11_bytes v..<mod_symbol_bytes v + mod_c11_bytes v + mod_c13_bytes v]"
    have "mod_stream v = i" using i(1) by (simp add: msf_Stream_def split: if_splits)
    with i assms(6) have stuck: "stuck_lines (region_of bs) 0 \<Longrightarrow> has_stuck_lines (pf_msf (ld_pdb ld))"
      unfolding has_stuck_lines_def by blast
    have size: "rsize (region_of bs) < 2 ^ 62" using l assms(5) by simp
    have "roomy (ld_grows ld)" "image_readable (ld_memory ld) (ld_base ld)"
      using assms(1) by (simp_all add: loader_ok_def image_ok_def)
    then show "sound_or (has_stuck_lines (pf_msf (ld_pdb ld))) z (ld_grows ld) (\<lambda>_. True)
        (ParseC13 (ld_grows ld) (region_of bs) (ld_memory ld) (ld_base ld) mid strs d)"
      using ParseC13_total [OF _ d _ size assms(3)] ParseC13_returns [OF _ d _ size assms(3)] stuck
      by (intro or_returns) blast+
  qed
  show ?thesis
    unfolding module_streams_def Let_def
    using assms(2) 1 2
    by (intro or_if or_then or_Inl or_Inr) (auto simp: reads_lines_def may_hang_def)
qed

lemma built_AddModule_then:
  assumes "built_as z grows d" and "\<And>d i. built_as z grows d \<Longrightarrow> sound_or loops z grows Q (next d i)"
  shows "sound_or loops z grows Q (on_ok (of_db (AddModule grows d v)) next)"
proof -
  have "sound z grows (\<lambda>_. True) (of_db (AddModule grows d v))"
    using assms(1) built.AddModule [of grows d v]
    by (intro sound_of_db) (auto simp: AddModule_def built_as_def Let_def)
  from or_then [OF or_sound [OF this]] show ?thesis using assms(2) by blast
qed

lemma or_Intern_then:
  assumes "roomy grows" and "built_as z grows d" and "length n < size_max"
    and "\<And>d i. built_as z grows d \<Longrightarrow> sound_or loops z grows Q (next d i)"
  shows "sound_or loops z grows Q (on_ok (of_db (Intern grows d n)) next)"
  using assms(4) by (intro or_then [OF or_sound [OF sound_Intern [OF assms(1-3)]]]) auto

lemma module_record_sound:
  assumes "loader_ok ld" and "built_as z (ld_grows ld) d" and "\<forall>t. strs = Some t \<longrightarrow> rsize t < 2 ^ 62"
    and "e \<le> rsize r" and "rsize r < 2 ^ 62" and "c < e" and "r = region_of (stream_bytes (pf_msf (ld_pdb ld)) 3)"
  shows "sound_or (may_hang ld opt) z (ld_grows ld) (\<lambda>c'. c < c') (module_record ld opt strs r c e d)"
proof (cases "c + 64 > e")
  case True
  then show ?thesis using assms(2) by (simp add: module_record_def Let_def or_Inl)
next
  case False
  have roomy: "roomy (ld_grows ld)" using assms(1) by (simp add: loader_ok_def)
  obtain n where n: "CStr r (c + 64) (e - (c + 64)) = Some n" "\<forall>cs. n = Some cs \<longrightarrow> length cs < e - (c + 64)"
    using CStr_total [of "c + 64" "e - (c + 64)" r] False assms(4) by auto
  show ?thesis
  proof (cases n)
    case None
    then show ?thesis using False n(1) assms(2) by (simp add: module_record_def Let_def or_Inl)
  next
    case (Some name)
    define at where "at = c + 64 + length name + 1"
    have at: "at \<le> e" using n(2) Some False by (simp add: at_def)
    obtain x where x: "CStr r at (e - at) = Some x" "\<forall>cs. x = Some cs \<longrightarrow> length cs < e - at"
      using CStr_total [of at "e - at" r] at assms(4) by auto
    show ?thesis
    proof (cases x)
      case None
      then show ?thesis using False n(1) Some x(1) [unfolded at_def] assms(2)
        by (simp add: module_record_def Let_def or_Inl)
    next
      case obj: (Some obj)
      obtain s b b11 b13 where w: "ReadU16 r (c + 34) = Some s" "ReadU32 r (c + 36) = Some b"
        "ReadU32 r (c + 40) = Some b11" "ReadU32 r (c + 44) = Some b13"
        using read_total(2) [of "c + 34" r] read_total(3) [of "c + 36" r] read_total(3) [of "c + 40" r]
          read_total(3) [of "c + 44" r] False assms(4) by auto
      have "at + length obj + 1 \<le> e" using x(2) obj at by auto
      then have "at + length obj + 1 \<le> msf_AlignUp (at + length obj + 1) 4"
        using assms(4,5) by (intro align_above) auto
      then have past: "c < msf_AlignUp (at + length obj + 1) 4" unfolding at_def by linarith
      have short: "length name < size_max" "length obj < size_max"
        using n(2) Some x(2) obj assms(4,5) by (auto simp: size_max_def)
      have run: "module_record ld opt strs r c e d =
          on_ok (of_db (Intern (ld_grows ld) d name))
            (\<lambda>d i. on_ok (of_db (Intern (ld_grows ld) d obj))
              (\<lambda>d j.
                 let v = \<lparr>mod_id = InvalidId, mod_name = i, mod_object = j, mod_stream = unat s,
                       mod_symbol_bytes = unat b, mod_c11_bytes = unat b11, mod_c13_bytes = unat b13\<rparr>
                 in on_ok (of_db (AddModule (ld_grows ld) d v))
                      (\<lambda>d mid. on_ok (module_streams ld opt strs mid v d)
                         (\<lambda>d _. Some (d, Inr (msf_AlignUp (at + length obj + 1) 4))))))"
        using False x(1) [unfolded at_def] by (simp add: module_record_def Let_def n(1) Some obj w at_def)
      have names: "names_lines (region_of (stream_bytes (pf_msf (ld_pdb ld)) 3)) c (unat s)
          (unat b + unat b11) (unat b13)"
        using w unfolding names_lines_def assms(7) [symmetric] by blast
      have b: "unat b < 2 ^ 32" "unat b13 < 2 ^ 32" using unat_lt2p [of b] unat_lt2p [of b13] by simp_all
      show ?thesis
        unfolding run Let_def using assms(1-3) past b names
        by (intro or_Intern_then [OF roomy _ short(1)] or_Intern_then [OF roomy _ short(2)] built_AddModule_then
            or_then module_streams_sound [where c = c] or_Inr) auto
    qed
  qed
qed

lemma module_loop_sound:
  assumes "loader_ok ld" and "built_as z (ld_grows ld) d" and "\<forall>t. strs = Some t \<longrightarrow> rsize t < 2 ^ 62"
    and "e \<le> rsize r" and "rsize r < 2 ^ 62" and "r = region_of (stream_bytes (pf_msf (ld_pdb ld)) 3)"
  shows "sound_or (may_hang ld opt) z (ld_grows ld) (\<lambda>_. True) (module_loop ld opt strs r c e d)"
  using assms(2)
proof (induction "e - c" arbitrary: c d rule: less_induct)
  case less
  note unfolded = module_loop.simps [of ld opt strs r c e d]
  show ?case
  proof (cases "c < e")
    case False
    then show ?thesis using less.prems by (simp add: unfolded or_Inr)
  next
    case True
    note step = module_record_sound [where opt = opt, OF assms(1) less.prems assms(3-5) True assms(6)]
    show ?thesis
    proof (cases "module_record ld opt strs r c e d")
      case None
      then show ?thesis using True step by (simp add: unfolded sound_or_def)
    next
      case (Some out)
      obtain d' x where out: "out = (d', x)" by fastforce
      have b: "built_as z (ld_grows ld) d'" "\<forall>c'. x = Inr c' \<longrightarrow> c < c'" using step Some out by (simp_all add: sound_or_def)
      have "sound_or (may_hang ld opt) z (ld_grows ld) (\<lambda>_. True) (module_loop ld opt strs r c' e d')"
        if "x = Inr c'" for c'
        using b that True by (intro less.hyps) auto
      then show ?thesis using True Some out b by (cases x) (simp_all add: unfolded or_Inl)
    qed
  qed
qed

lemma load_types_sound:
  assumes "loader_ok ld" and "built_as z (ld_grows ld) d"
  shows "sound_or loops z (ld_grows ld) (\<lambda>_. True) (load_types ld opt d)"
proof -
  have "sound_or loops z (ld_grows ld) (\<lambda>_. True) (types_of ld i ipi d)" if "built_as z (ld_grows ld) d" for i ipi d
    unfolding types_of_def using that assms(1)
    by (intro or_if or_sound ParseTypeStream_sound or_Inr) (auto simp: loader_ok_def)
  then show ?thesis unfolding load_types_def using assms(2) by (intro or_if or_then or_Inr) auto
qed

lemma global_symbols_sound:
  assumes "loader_ok ld" and "built_as z (ld_grows ld) d"
  shows "sound_or loops z (ld_grows ld) (\<lambda>_. True) (global_symbols ld opt i d)"
proof -
  define f where "f = pf_msf (ld_pdb ld)"
  have inv: "msf_inv f" using assms(1) by (simp add: loader_ok_def f_def)
  show ?thesis
  proof (cases "stream_Valid f (msf_Stream f (unat i))")
    case True
    note s = stream_of_valid [OF inv True]
    have "sound z (ld_grows ld) (\<lambda>_. True) (symbols_of ld InvalidId (unat i) (stream_bytes f (unat i)) d)"
      using s(4) by (intro symbols_of_sound assms) simp
    then show ?thesis using s(1,2) assms(2)
      by (auto simp: global_symbols_def Let_def f_def [symmetric] stream_ReadAll_eq [OF inv]
          intro: or_sound or_Inl or_Inr)
  next
    case False
    then show ?thesis using assms(2) by (simp add: global_symbols_def Let_def f_def [symmetric] or_Inr)
  qed
qed

lemma add_exports_sound:
  assumes "loader_ok ld" and "built_as z (ld_grows ld) d"
  shows "sound_or loops z (ld_grows ld) (\<lambda>_. True) (AddExports ld d)"
proof -
  have roomy: "roomy (ld_grows ld)" using assms(1) by (simp add: loader_ok_def)
  have "sound z (ld_grows ld) (\<lambda>_. True) (add_exports (ld_grows ld) es d)"
    if "\<forall>e \<in> set es. 2 * length (ex_name e) < size_max" "built_as z (ld_grows ld) d" for es d
    using that
  proof (induction es arbitrary: d)
    case (Cons e es)
    then show ?case by (auto intro!: sound_AddSym_then [OF roomy] parsing)
  qed (simp add: sound_Inr)
  then show ?thesis using assms by (auto simp: AddExports_def loader_ok_def image_ok_def intro!: or_sound)
qed

lemma address_maps_sound:
  assumes "loader_ok ld" and "built_as z (ld_grows ld) d" and "optional_at h + unat (dh_optional h) \<le> rsize r"
  shows "sound_or loops z (ld_grows ld) (\<lambda>_. True) (address_maps ld r h d)"
proof (cases "unat (dh_optional h) \<ge> 10")
  case True
  then obtain x y where "ReadU16 r (optional_at h + 6) = Some x" "ReadU16 r (optional_at h + 8) = Some y"
    using read_total(2) [of "optional_at h + 6" r] read_total(2) [of "optional_at h + 8" r] assms(3) by auto
  then show ?thesis using True assms(1,2)
    by (auto simp: address_maps_def loader_ok_def intro!: or_then [OF or_sound [OF ParseOmap_sound]]
          or_sound [OF ParseOmap_sound])
qed (simp add: address_maps_def assms(2) or_Inr)

lemma load_dbi_sound:
  assumes "loader_ok ld" and "built_as z (ld_grows ld) d" and "\<forall>t. strs = Some t \<longrightarrow> rsize t < 2 ^ 62"
    and "rsize r < 2 ^ 62" and "r = region_of (stream_bytes (pf_msf (ld_pdb ld)) 3)"
  shows "sound_or (may_hang ld opt) z (ld_grows ld) (\<lambda>_. True) (load_dbi ld opt strs r h d)"
proof (cases "optional_at h + unat (dh_optional h) > rsize r")
  case True
  then show ?thesis using assms(2) by (simp add: load_dbi_def or_Inl)
next
  case False
  have "section_map_at h + unat (dh_section_map h) \<le> rsize r" "64 + unat (dh_modules h) \<le> rsize r"
    using False by (auto simp: optional_at_def section_map_at_def)
  then show ?thesis
    unfolding load_dbi_def using False assms
    by (auto intro!: or_then or_sound [OF ParseSectionMap_sound] address_maps_sound global_symbols_sound
        module_loop_sound or_Inr)
qed

lemma load_streams_sound:
  assumes "loader_ok ld" and "built_as z (ld_grows ld) d"
  shows "sound_or (may_hang ld opt) z (ld_grows ld) (\<lambda>_. True) (load_streams ld opt d)"
proof -
  define f where "f = pf_msf (ld_pdb ld)"
  have inv: "msf_inv f" using assms(1) by (simp add: loader_ok_def f_def)
  note bad = or_Inl [OF assms(2)]
  show ?thesis
  proof (cases "\<not> stream_Valid f (msf_Stream f 3) \<or> stream_Size f (msf_Stream f 3) < 64")
    case True
    then show ?thesis using bad by (auto simp: load_streams_def Let_def f_def [symmetric])
  next
    case False
    then have valid: "stream_Valid f (msf_Stream f 3)" by simp
    note s = stream_of_valid [OF inv valid]
    from stream_Read_full [OF inv, of "msf_Stream f 3" 0 True 64] show ?thesis
    proof (elim disjE exE conjE)
      fix e assume "stream_Read f (msf_Stream f 3) 0 True 64 = Some ([], Inl e)"
      then show ?thesis using False bad by (simp add: load_streams_def Let_def f_def [symmetric])
    next
      fix b assume b: "stream_Read f (msf_Stream f 3) 0 True 64 = Some (b, Inr ())" "length b = 64"
      have "\<exists>h. dbi_header_of (region_of b) = Some h"
        using read_total(3) [of 0 "region_of b"] read_total(3) [of 8 "region_of b"] read_total(2) [of 20 "region_of b"]
          read_total(3) [of 24 "region_of b"] read_total(3) [of 28 "region_of b"] read_total(3) [of 32 "region_of b"]
          read_total(3) [of 36 "region_of b"] read_total(3) [of 40 "region_of b"] read_total(3) [of 48 "region_of b"]
          read_total(3) [of 52 "region_of b"] b(2) by (auto simp: dbi_header_of_def)
      then obtain h where h: "dbi_header_of (region_of b) = Some h" by blast
      obtain strs where strs: "global_strings ld opt = Some strs" "\<forall>t. strs = Inr (Some t) \<longrightarrow> rsize t < 2 ^ 62"
        using OpenGlobalStringTable_total [OF inv, of "ld_grant ld"]
        by (cases "lo_lines opt \<or> lo_inline opt") (auto simp: global_strings_def f_def)
      define rest where "rest = (\<lambda>d. case strs of
          Inl e \<Rightarrow> Some (d, Inl e)
        | Inr strs \<Rightarrow>
            do { (bs, out) \<leftarrow> stream_ReadAll (ld_grant ld) f (msf_Stream f 3);
                 case out of
                   Inl e \<Rightarrow> Some (d, Inl e)
                 | Inr _ \<Rightarrow> on_ok (load_dbi ld opt strs (region_of bs) h d)
                     (\<lambda>d _. if lo_exports opt then AddExports ld d else Some (d, Inr ())) })"
      have rest: "sound_or (may_hang ld opt) z (ld_grows ld) (\<lambda>_. True) (rest d)" if "built_as z (ld_grows ld) d" for d
      proof (cases strs)
        case (Inl e)
        then show ?thesis using that by (simp add: rest_def or_Inl)
      next
        case (Inr t)
        have "sound_or (may_hang ld opt) z (ld_grows ld) (\<lambda>_. True)
            (on_ok (load_dbi ld opt t (region_of (stream_bytes f 3)) h d)
              (\<lambda>d _. if lo_exports opt then AddExports ld d else Some (d, Inr ())))"
          using that strs(2) Inr s(4) assms(1)
          unfolding f_def
          by (intro or_then load_dbi_sound or_if add_exports_sound or_Inr) auto
        then show ?thesis using Inr s(1,2) that by (simp add: rest_def stream_ReadAll_eq [OF inv] or_Inl)
      qed
      have run: "load_streams ld opt d =
          (if \<not> dbi_header_ok h then Some (d, Inl (ErrorAt InvalidDbi 3 0))
           else if dh_age h \<noteq> id_age (pf_identity (ld_pdb ld)) then Some (d, Inl (ErrorAt AgeMismatch 3 0))
           else on_ok (load_types ld opt d) (\<lambda>d _. rest d))"
        using False b(1) h
        by (simp add: load_streams_def Let_def f_def [symmetric] strs(1) rest_def cong: if_cong)
      show ?thesis
        unfolding run by (intro or_if or_then load_types_sound rest or_Inl assms)
    qed
  qed
qed

lemma load_database_sound:
  assumes "loader_ok ld" and "built_as z (ld_grows ld) d"
  shows "sound_or (may_hang ld opt) z (ld_grows ld) (\<lambda>_. True) (load_database ld opt d)"
proof -
  obtain img where img: "ImageIdentity (ld_memory ld) (ld_base ld) = Some img"
    using assms(1) by (auto simp: loader_ok_def image_ok_def)
  have "sound_or (may_hang ld opt) z (ld_grows ld) (\<lambda>_. True)
      (case check_identity p own img of Some code \<Rightarrow> Some (d, Inl (ErrorAt code NoStream 0)) | None \<Rightarrow> load_streams ld opt d)"
    if "built_as z (ld_grows ld) d" for p own d
    using that load_streams_sound [OF assms(1)] by (auto split: option.splits intro: or_Inl)
  then show ?thesis
    unfolding load_database_def using assms
    by (auto simp: img loader_ok_def intro!: or_then [OF or_sound [OF AddPrimitiveTypes_sound]])
qed


section \<open>Loading a program\<close>

text \<open>What \<open>Populate\<close> gives when it succeeds: the finalized database of a well-formed one for this image.\<close>

definition loaded :: "loader \<Rightarrow> database \<Rightarrow> bool" where
  "loaded ld d' \<longleftrightarrow>
     (\<exists>d. built (ld_grows ld) d \<and> Finalize (ld_grows ld) d = Some (d', Inr ()) \<and> db_final d' \<and>
        same_symbols (symbols d') (symbols d) \<and> length (symbols d') < InvalidId \<and>
        identity d' = pf_identity (ld_pdb ld) \<and> image_base d' = Some (unat (ld_base ld)) \<and>
        Some (image_size d') = map_option unat (ImageSize (ld_memory ld) (ld_base ld)))"

lemma built_identity: "built grows d \<Longrightarrow> built grows (SetIdentity (SetImage d b n) k)"
  by (intro built.SetIdentity built.SetImage)

lemma Populate_cases:
  assumes "loader_ok ld"
  shows "case Populate ld opt d of
      None \<Rightarrow> may_hang ld opt
    | Some (d', Inl e) \<Rightarrow> True
    | Some (d', Inr u) \<Rightarrow> loaded ld d'"
proof -
  obtain valid n where image: "IsValid (ld_memory ld) (ld_base ld) = Some valid"
    "ImageSize (ld_memory ld) (ld_base ld) = Some n"
    using assms by (auto simp: loader_ok_def image_ok_def)
  show ?thesis
  proof (cases "pf_valid (ld_pdb ld) \<and> ld_base ld \<noteq> 0 \<and> valid")
    case False
    then show ?thesis using image by (auto simp: Populate_def)
  next
    case True
    define z where "z = SetIdentity (SetImage (db_Reset (ld_grows ld) d) (Some (unat (ld_base ld))) (unat n))
        (pf_identity (ld_pdb ld))"
    have "grows StringTable 1 \<Longrightarrow> built grows (db_Reset grows d)" for grows
      unfolding db_Reset_def by (rule built.new)
    then have z: "built_as z (ld_grows ld) z"
      using assms by (simp add: built_as_def z_def built_identity loader_ok_def roomy_def)
    have run: "Populate ld opt d =
        on_ok (load_database ld opt z) (\<lambda>d _. do { out \<leftarrow> Finalize (ld_grows ld) d; of_db out })"
      using True image by (simp add: Populate_def Let_def z_def)
    from load_database_sound [where opt = opt, OF assms z] show ?thesis
    proof (cases "load_database ld opt z")
      case None
      then show ?thesis using load_database_sound [where opt = opt, OF assms z]
        by (simp add: run on_ok_def sound_or_def)
    next
      case (Some out)
      obtain d1 x where out: "out = (d1, x)" by fastforce
      then have d1: "built_as z (ld_grows ld) d1"
        using load_database_sound [where opt = opt, OF assms z] Some by (simp add: sound_or_def)
      note ok = built_ok [OF as_built [OF d1]]
      obtain d' r where f: "Finalize (ld_grows ld) d1 = Some (d', r)" using Finalize_cases [OF ok] by blast
      have fields: "identity z = pf_identity (ld_pdb ld)" "image_base z = Some (unat (ld_base ld))"
        "image_size z = unat n"
        by (simp_all add: z_def SetIdentity_def SetImage_def)
      have "loaded ld d'" if "r = Inr ()"
        unfolding loaded_def
        using Finalize_final [OF ok f [unfolded that]] same_symbols_nth [of "symbols d'" "symbols d1"]
          ok d1 fields image f that
        by (intro exI [of _ d1]) (auto simp: built_as_def db_ok_def)
      then show ?thesis using Some out f
        by (cases x; cases r) (auto simp: run on_ok_def of_db_def)
    qed
  qed
qed

text \<open>C29: \<open>Populate\<close> on any opened file, however malformed, and an image that can be read, returns, so no byte
  outside the file or its streams is read. The one exception is a file that holds line information with an
  empty block where the reader meets it, read with the options for lines: there the reader may read the block
  over and over (\<open>empty_line_block_loops\<close>). When it reports success, the database is finalized, over
  well-formed tables, with the identity of the file and the place of the image.\<close>

theorem Populate_safe:
  assumes "loader_ok ld"
  shows "case Populate ld opt d of
      None \<Rightarrow> reads_lines opt \<and> has_stuck_lines (pf_msf (ld_pdb ld))
    | Some (d', Inl e) \<Rightarrow> True
    | Some (d', Inr u) \<Rightarrow> db_final d' \<and> identity d' = pf_identity (ld_pdb ld) \<and>
        image_base d' = Some (unat (ld_base ld)) \<and>
        Some (image_size d') = map_option unat (ImageSize (ld_memory ld) (ld_base ld))"
  using Populate_cases [OF assms, of opt d] by (auto simp: loaded_def may_hang_def split: option.splits prod.splits sum.splits)

lemma Symbolize_final:
  assumes "db_final d" and "image_base d = Some base" and "base + image_size d < 2 ^ 64" and "rva < image_size d"
  shows "\<exists>s. Symbolize grows d (base + rva) False = Some s \<and> sz_rva s = rva \<and>
    (\<forall>j. function_at d rva j \<and> rva - sy_rva (symbols d ! j) \<le> 0x100000 \<longrightarrow>
      (\<exists>i. sz_symbol s = Some i \<and> function_at d rva i))"
proof -
  have at: "symbolized_rva d (base + rva) False = (base + rva, rva)"
    using assms(2-4) by (simp add: symbolized_rva_def)
  obtain l where l: "SourceForRva d rva = Some l" using SourceForRva_final [OF assms(1)] by blast
  obtain frames b where frames: "InlineStack grows d rva = Some (frames, b)"
    using InlineStack_total [of d grows rva] assms(1) unfolding db_final_def by fastforce
  obtain c where c: "FunctionContainingRva d rva = Some c" "case c of
      None \<Rightarrow> \<forall>j. function_at d rva j \<longrightarrow> 0x100000 < rva - sy_rva (symbols d ! j)
    | Some i \<Rightarrow> function_at d rva i \<and> (\<forall>j. function_at d rva j \<longrightarrow> sy_rva (symbols d ! j) \<le> sy_rva (symbols d ! i))"
    using FunctionContainingRva_final [OF assms(1)] by blast
  obtain r where r: "SymbolAtOrBeforeRva d rva = Some r" using SymbolAtOrBeforeRva_final [OF assms(1)] by blast
  show ?thesis using c l frames r at
    by (cases c) (auto simp: Symbolize_def)
qed

text \<open>C30: the reader and the database together: after a \<open>Populate\<close> that succeeds, the database answers every
  query. \<open>FindExact\<close> gives exactly the symbols that have the text among their names, \<open>TypeByIndex\<close> finds
  a type exactly when there is one with the index, and every address in the image is symbolized, by a function
  that contains it when one that begins within a megabyte of it does.\<close>

theorem Populate_answers:
  assumes "loader_ok ld" and "\<forall>n. ld_grows ld ResultTable n" and "Populate ld opt d = Some (d', Inr ())"
    and "i \<noteq> InvalidId" and "unat (ld_base ld) + image_size d' < 2 ^ 64" and "rva < image_size d'"
  shows "\<exists>ids r s. FindExact (ld_grows ld) d' v = Some (ids, ids \<noteq> []) \<and> distinct ids \<and>
    set ids = {i. i < length (symbols d') \<and> v \<noteq> [] \<and> v \<in> symbol_names d' (symbols d' ! i)} \<and>
    TypeByIndex d' i = Some r \<and> (r \<noteq> None \<longleftrightarrow> i \<in> ty_index ` set (types d')) \<and>
    Symbolize (ld_grows ld) d' (unat (ld_base ld) + rva) False = Some s \<and> sz_rva s = rva \<and>
    (\<forall>j. function_at d' rva j \<and> rva - sy_rva (symbols d' ! j) \<le> 0x100000 \<longrightarrow>
      (\<exists>i. sz_symbol s = Some i \<and> function_at d' rva i))"
proof -
  have l: "db_final d'" "length (symbols d') < InvalidId" "image_base d' = Some (unat (ld_base ld))"
    using Populate_cases [OF assms(1), of opt d] assms(3) by (auto simp: loaded_def)
  obtain ids where ids: "FindExact (ld_grows ld) d' v = Some (ids, ids \<noteq> [])" "distinct ids"
    "set ids = {i. i < length (symbols d') \<and> v \<noteq> [] \<and> v \<in> symbol_names d' (symbols d' ! i)}"
    using FindExact_final [where grows = "ld_grows ld" and v = v, OF l(1,2) assms(2)] by blast
  obtain r where r: "TypeByIndex d' i = Some r" "case r of None \<Rightarrow> i \<notin> ty_index ` set (types d')
      | Some k \<Rightarrow> k < length (types d') \<and> ty_index (types d' ! k) = i"
    using TypeByIndex_final [OF l(1) assms(4)] by blast
  have "r \<noteq> None \<longleftrightarrow> i \<in> ty_index ` set (types d')" using r(2) by (cases r) force+
  with ids r(1) Symbolize_final [OF l(1,3) assms(5,6), of "ld_grows ld"] show ?thesis by blast
qed

text \<open>A valid image without directories or sections, and a file with only stream 3, whose tables are empty.\<close>

definition sample_image :: memory where
  "sample_image a = Some (if a = 0x10000 then 0x4D else if a = 0x10001 then 0x5A else if a = 0x1003C then 0x80
     else if a = 0x10080 then 0x50 else if a = 0x10081 then 0x45 else if a = 0x10098 then 0x0B
     else if a = 0x10099 then 0x02 else if a = 0x100D1 then 0x20 else 0)"

definition sample_pdb :: pdb_file where
  "sample_pdb = \<lparr>pf_msf = \<lparr>mdata = \<lparr>byte_at = (\<lambda>i. if 512 \<le> i \<and> i < 516 then 0xFF else if i = 520 then 1 else 0),
     rsize = 1024\<rparr>, mblock_size = 512, mblock_count = 2,
     streams = [no_descriptor, no_descriptor, no_descriptor, \<lparr>descriptor.dsize = 64, dbegin = 0, dcount = 1\<rparr>],
     stream_blocks = [1], mvalid = True\<rparr>, pf_identity = \<lparr>id_guid = (7, 0, 0, replicate 8 0), id_age = 1\<rparr>,
     pf_valid = True\<rparr>"

definition sample_loader :: loader where
  "sample_loader = \<lparr>ld_pdb = sample_pdb, ld_memory = sample_image, ld_base = 0x10000, ld_grant = (\<lambda>_ _. True),
     ld_grows = (\<lambda>t n. t = ResultTable \<or> n < 1000)\<rparr>"

definition sample_options :: load_options where
  "sample_options = \<lparr>lo_policy = Ignore, lo_public = False, lo_global = False, lo_module_symbols = False,
     lo_types = False, lo_lines = False, lo_inline = False, lo_exports = False\<rparr>"

lemma sample_words:
  "word_cat (90 :: u8) (77 :: u8) = (0x5A4D :: u16)" "word_cat (69 :: u8) (80 :: u8) = (0x4550 :: u16)"
  "word_cat (2 :: u8) (11 :: u8) = (0x20B :: u16)" "word_cat (32 :: u8) (0 :: u8) = (0x2000 :: u16)"
  by code_simp+

lemma sample_image_valid:
  "IsValid sample_image 0x10000 = Some True" "Is64 sample_image 0x10000 = Some True"
  "NtHeaders sample_image 0x10000 = Some 0x10080"
  by (simp_all add: IsValid_def Is32_def Is64_def has_magic_def OptionalHeaderMagicPointer_def NtSignaturePointer_def
      NtHeaders_def field_at_def sample_image_def read16_def read32_def sample_words DosSignature_def NtSignature_def
      OptionalHeader32Magic_def OptionalHeader64Magic_def)

lemma sample_image_fields:
  "ImageSize sample_image 0x10000 = Some 0x2000" "SectionCount sample_image 0x10000 = Some 0"
  "GetDirectory sample_image 0x10000 x = Some no_directory" "\<exists>h. SectionHeaders sample_image 0x10000 = Some h"
  by (simp_all add: ImageSize_def optional_word_def sample_image_valid optional_fields_def field_at_def
      SectionCount_def FileHeader_def GetDirectory_def SectionHeaders_def read16_def read32_def sample_image_def sample_words
      Let_def)

lemma sample_loader_ok: "loader_ok sample_loader"
proof -
  have "SegmentOffsetToRva sample_image 0x10000 s x = Some None" for s x
  proof -
    obtain h where "SectionHeaders sample_image 0x10000 = Some h" using sample_image_fields(4) by blast
    then show ?thesis by (simp add: SegmentOffsetToRva_def sample_image_valid sample_image_fields(1-3) Let_def)
  qed
  then have 1: "image_ok sample_loader"
    by (simp add: image_ok_def image_readable_def sample_loader_def ImageIdentity_def Exports_def sample_image_fields
        sample_image_valid directory_Empty_def no_directory_def)
  have 2: "msf_inv (pf_msf (ld_pdb sample_loader))"
    by (simp add: msf_inv_def stream_fits_def sample_loader_def sample_pdb_def no_descriptor_def DeletedStream_def)
  have "roomy (ld_grows sample_loader)" by (auto simp: roomy_def sample_loader_def)
  with 1 2 show ?thesis by (simp add: loader_ok_def)
qed

text \<open>The primitive types fit into the tables of the sample.\<close>

lemma add_pointers_granted:
  assumes "\<And>n. n < N \<Longrightarrow> grows TypeTable n" and "length (types d) + length ms < N"
    and "\<forall>x \<in> set ms. index OR push_bit 8 x \<noteq> InvalidId"
  shows "\<exists>ts. add_pointers grows index ms d = Some (d\<lparr>types := types d @ ts\<rparr>, Inr ()) \<and> length ts = length ms"
  using assms(2,3)
proof (induction ms arbitrary: d)
  case (Cons x ms)
  define t where "t = no_type\<lparr>ty_index := index OR push_bit 8 x, ty_kind := Pointer, ty_referent := index,
      ty_size := pointer_size x\<rparr>"
  have "AddType grows d t = (d\<lparr>types := types d @ [t]\<rparr>, Inr ())"
    using Cons.prems assms(1) by (simp add: AddType_def t_def)
  moreover obtain ts where "add_pointers grows index ms (d\<lparr>types := types d @ [t]\<rparr>) =
      Some (d\<lparr>types := types d @ [t] @ ts\<rparr>, Inr ())" "length ts = length ms"
    using Cons.IH [of "d\<lparr>types := types d @ [t]\<rparr>"] Cons.prems by auto
  ultimately show ?case
    by (intro exI [of _ "t # ts"]) (simp add: of_db_def on_ok_def t_def)
qed (intro exI [of _ "[]"], simp)

lemma Intern_granted:
  assumes "grows StringTable (length (strings d) + 1)"
  shows "\<exists>k ss. Intern grows d v = (d\<lparr>strings := ss\<rparr>, Inr k) \<and> length ss \<le> Suc (length (strings d))"
proof (cases "v = [] \<or> find (\<lambda>i. strings d ! i = v) [1..<length (strings d)] \<noteq> None")
  case True
  then have "\<exists>k. Intern grows d v = (d, Inr k)" by (auto simp: Intern_def)
  then show ?thesis by (metis database.surjective database.update_convs(5) le_SucI order_refl)
next
  case False
  then show ?thesis using assms by (auto simp: Intern_def)
qed

text \<open>Adding the primitive types leaves the symbols alone and adds at most eight types for each.\<close>

lemma add_primitives_granted:
  assumes "\<And>t n. n < 1000 \<Longrightarrow> grows t n" and "length (types d) + 8 * length ps < 1000"
    and "length (strings d) + length ps < 1000" and "\<forall>(i, s, n) \<in> set ps. i < 256 \<and> length s < 1000"
  shows "\<exists>d'. add_primitives grows ps d = Some (d', Inr ()) \<and> symbols d' = symbols d \<and>
    length (types d') \<le> length (types d) + 8 * length ps"
  using assms(2-4)
proof (induction ps arbitrary: d)
  case (Cons p ps)
  obtain i s n where p: "p = (i, s, n)" using prod_cases3 by blast
  have room: "grows StringTable (length (strings d) + 1)" using Cons.prems(2) by (intro assms(1)) simp
  obtain d1 k where i1: "Intern grows d (name_of_string s) = (d1, Inr k)" "symbols d1 = symbols d" "types d1 = types d"
      "length (strings d1) \<le> Suc (length (strings d))"
    using Intern_granted [where v = "name_of_string s" and d = d and grows = grows, OF room] by auto
  define t where "t = no_type\<lparr>ty_index := i, ty_kind := Primitive, ty_size := n, ty_name := k\<rparr>"
  define d2 where "d2 = d1\<lparr>types := types d1 @ [t]\<rparr>"
  have i: "i < 256" using Cons.prems(3) by (simp add: p)
  have a: "AddType grows d1 t = (d2, Inr ())"
    using Cons.prems(1) assms(1) i i1(3) by (simp add: AddType_def t_def d2_def InvalidId_def)
  have or_less: "i OR push_bit 8 x < 2 ^ 16" if "x < 8" for x
  proof -
    have "int i OR int (push_bit 8 x) < 2 ^ 16" using i that by (intro OR_upper) (simp_all add: push_bit_eq_mult)
    then show ?thesis by (simp add: of_nat_or_eq [symmetric])
  qed
  obtain ts where ts: "add_pointers grows i [1..<8] d2 = Some (d2\<lparr>types := types d2 @ ts\<rparr>, Inr ())" "length ts = 7"
    using add_pointers_granted [of 1000 grows d2 "[1..<8]" i] assms(1) Cons.prems(1) i1(3) or_less
    by (fastforce simp: d2_def InvalidId_def)
  define d3 where "d3 = d2\<lparr>types := types d2 @ ts\<rparr>"
  have len: "length (types d3) = length (types d) + 8" "strings d3 = strings d1" "symbols d3 = symbols d"
    using ts(2) i1 by (simp_all add: d3_def d2_def)
  have "\<exists>d'. add_primitives grows ps d3 = Some (d', Inr ()) \<and> symbols d' = symbols d3 \<and>
      length (types d') \<le> length (types d3) + 8 * length ps"
    using Cons.prems len i1(4) by (intro Cons.IH) auto
  then obtain d' where d': "add_primitives grows ps d3 = Some (d', Inr ())" "symbols d' = symbols d3"
    "length (types d') \<le> length (types d3) + 8 * length ps" by blast
  have "add_primitives grows (p # ps) d = Some (d', Inr ())"
    using i1(1) a ts(1) d'(1) by (simp add: p of_db_def on_ok_def t_def [symmetric] d3_def)
  with d' len show ?case by simp
qed simp

lemma Finalize_without_symbols:
  assumes "built grows d" and "symbols d = []" and "\<And>n. n < N \<Longrightarrow> grows TypeNameTable n" and "length (types d) < N"
  shows "\<exists>d'. Finalize grows d = Some (d', Inr ())"
proof -
  define e where "e = d\<lparr>name_index := [], type_name_index := [], address_index := []\<rparr>"
  have "\<exists>d'. index_types grows x ts = (d', True)" if "length (type_name_index x) + length ts < N" for x ts
    using that
  proof (induction ts arbitrary: x)
    case (Cons t ts)
    have "grows TypeNameTable (length (type_name_index x) + 1)" using Cons.prems by (intro assms(3)) simp
    then show ?case using Cons by auto
  qed simp
  then obtain f where "index_types grows e (types e) = (f, True)" using assms(4) by (fastforce simp: e_def)
  then show ?thesis using Finalize_cases [OF built_ok [OF assms(1)], of grows] assms(2)
    by (auto simp: Finalize_def e_def Option.bind_eq_Some_conv)
qed

definition sample_header :: "u8 list" where
  "sample_header = [0xFF, 0xFF, 0xFF, 0xFF, 0, 0, 0, 0, 1] @ replicate 55 0"

lemma sample_reads:
  "stream_Read (pf_msf sample_pdb) (Some 3) 0 True 64 = Some (sample_header, Inr ())"
  "stream_ReadAll g (pf_msf sample_pdb) (Some 3) = Some (if g 1 64 then
      (sample_header, Inr ())
    else ([], Inl (ErrorAt pdb_error.AllocationFailure 3 0)))"
proof -
  have inv: "msf_inv (pf_msf sample_pdb)" using sample_loader_ok by (simp add: loader_ok_def sample_loader_def)
  have valid: "stream_Valid (pf_msf sample_pdb) (Some 3)"
    by (simp add: stream_Valid_def sample_pdb_def DeletedStream_def)
  have size: "descriptor.dsize (streams (pf_msf sample_pdb) ! 3) = 64" by (simp add: sample_pdb_def)
  have bytes: "map (sbyte (pf_msf sample_pdb) 3) [0..<64] = sample_header"
    by (rule nth_equalityI) (auto simp: sbyte_def sample_pdb_def nth_append nth_Cons' sample_header_def)
  show "stream_Read (pf_msf sample_pdb) (Some 3) 0 True 64 = Some (sample_header, Inr ())"
    using valid stream_Valid_eq [OF inv, of 3] size bytes by (simp add: stream_Read_def ReadStream_eq [OF inv])
  show "stream_ReadAll g (pf_msf sample_pdb) (Some 3) = Some (if g 1 64 then
        (sample_header, Inr ())
      else ([], Inl (ErrorAt pdb_error.AllocationFailure 3 0)))"
    using stream_ReadAll_eq [OF inv valid] size bytes by (simp add: stream_bytes_def)
qed

lemma sample_streams: "load_streams sample_loader sample_options d = Some (d, Inr ())"
proof -
  have s: "msf_Stream (pf_msf sample_pdb) 3 = Some 3" "stream_Valid (pf_msf sample_pdb) (Some 3)"
    "stream_Size (pf_msf sample_pdb) (Some 3) = 64"
    by (simp_all add: msf_Stream_def stream_Valid_def stream_Size_def sample_pdb_def DeletedStream_def)
  define r where "r = region_of sample_header"
  have h: "dbi_header_of r = Some \<lparr>dh_signature = - 1, dh_age = 1, dh_symbols = 0, dh_modules = 0,
      dh_contributions = 0, dh_section_map = 0, dh_files = 0, dh_type_servers = 0, dh_optional = 0, dh_ec = 0\<rparr>"
    by (simp add: dbi_header_of_def ReadU32_def ReadU16_def read8_def r_def region_of_def nth_append nth_Cons'
        sample_header_def push_bit_eq_mult)
  have types: "load_types sample_loader sample_options d = Some (d, Inr ())" for d
    by (simp add: load_types_def sample_options_def)
  have dbi: "load_dbi sample_loader sample_options None r
      \<lparr>dh_signature = - 1, dh_age = 1, dh_symbols = 0, dh_modules = 0,
      dh_contributions = 0, dh_section_map = 0, dh_files = 0, dh_type_servers = 0, dh_optional = 0, dh_ec = 0\<rparr> d =
      Some (d, Inr ())" for d
    by (simp add: load_dbi_def optional_at_def section_map_at_def r_def sample_header_def on_ok_def address_maps_def
        global_symbols_def sample_options_def)
  have opts: "\<not> lo_lines sample_options" "\<not> lo_inline sample_options" "\<not> lo_exports sample_options"
    by (simp_all add: sample_options_def)
  have age: "id_age (pf_identity sample_pdb) = 1" by (simp add: sample_pdb_def)
  have ld: "ld_pdb sample_loader = sample_pdb" "ld_grant sample_loader = (\<lambda>_ _. True)"
    by (simp_all add: sample_loader_def)
  show ?thesis
    by (simp add: h dbi load_streams_def ld s sample_reads r_def [symmetric] dbi_header_ok_def on_ok_def types
        global_strings_def opts age)
qed

text \<open>The sample is loaded.\<close>

lemma sample_populates: "\<exists>d'. Populate sample_loader sample_options d = Some (d', Inr ())"
proof -
  let ?g = "ld_grows sample_loader"
  have g: "n < 1000 \<Longrightarrow> ?g t n" for t n by (simp add: sample_loader_def)
  define z where "z = SetIdentity (SetImage (db_Reset ?g d) (Some 0x10000) 0x2000) (pf_identity sample_pdb)"
  have z: "built_as z ?g z"
    by (simp add: built_as_def z_def db_Reset_def built_identity built.new g)
  have fields: "types z = []" "symbols z = []" "length (strings z) = 1"
    by (simp_all add: z_def SetIdentity_def SetImage_def db_Reset_def db_new_def db_empty_def g)
  have ps: "length primitives = 31" "\<forall>(i, s, n) \<in> set primitives. i < 256 \<and> length s < 1000"
    by (simp_all add: primitives_def)
  obtain d1 where d1: "AddPrimitiveTypes ?g z = Some (d1, Inr ())" "symbols d1 = []" "length (types d1) \<le> 248"
    using add_primitives_granted [where grows = ?g and d = z and ps = primitives, OF g] ps fields
    unfolding AddPrimitiveTypes_def by auto
  have "built ?g d1"
    using AddPrimitiveTypes_sound [OF _ z] d1(1) sample_loader_ok by (simp add: sound_def loader_ok_def built_as_def)
  then obtain d' where d': "Finalize ?g d1 = Some (d', Inr ())"
    using Finalize_without_symbols [of ?g d1 1000] d1(2,3) g by auto
  have ld: "ld_pdb sample_loader = sample_pdb" "ld_memory sample_loader = sample_image" "ld_base sample_loader = 0x10000"
    by (simp_all add: sample_loader_def)
  have id: "ImageIdentity sample_image 0x10000 = Some None"
    by (simp add: ImageIdentity_def sample_image_fields directory_Empty_def no_directory_def)
  have policy: "lo_policy sample_options = Ignore" by (simp add: sample_options_def)
  have valid: "pf_valid sample_pdb" by (simp add: sample_pdb_def)
  have "load_database sample_loader sample_options z = Some (d1, Inr ())"
    by (simp add: load_database_def d1(1) on_ok_def ld id check_identity_def policy sample_streams)
  then have "Populate sample_loader sample_options d = Some (d', Inr ())"
    by (simp add: Populate_def ld valid sample_image_valid sample_image_fields Let_def z_def [symmetric] on_ok_def d'
        of_db_def)
  then show ?thesis by blast
qed

theorem Populate_safe_witness:
  "\<exists>d'. Populate sample_loader sample_options db_empty = Some (d', Inr ()) \<and> db_final d' \<and>
    image_base d' = Some 65536 \<and> image_size d' = 8192"
proof -
  obtain d' where d': "Populate sample_loader sample_options db_empty = Some (d', Inr ())"
    using sample_populates by blast
  have "ld_memory sample_loader = sample_image" "ld_base sample_loader = 0x10000" by (simp_all add: sample_loader_def)
  with Populate_safe [OF sample_loader_ok, of sample_options db_empty] d' show ?thesis
    by (simp add: sample_image_fields)
qed

theorem Populate_answers_witness:
  "\<exists>d' r s. Populate sample_loader sample_options db_empty = Some (d', Inr ()) \<and>
    TypeByIndex d' 4096 = Some r \<and> Symbolize (ld_grows sample_loader) d' 65552 False = Some s \<and> sz_rva s = 16"
proof -
  obtain d' where d': "Populate sample_loader sample_options db_empty = Some (d', Inr ())"
    using sample_populates by blast
  have ld: "ld_memory sample_loader = sample_image" "ld_base sample_loader = 0x10000" by (simp_all add: sample_loader_def)
  have n: "image_size d' = 8192"
    using Populate_cases [OF sample_loader_ok, of sample_options db_empty] d' ld
    by (auto simp: loaded_def sample_image_fields)
  have "\<forall>n. ld_grows sample_loader ResultTable n" by (simp add: sample_loader_def)
  from Populate_answers [where i = 4096 and rva = 16 and v = "[]", OF sample_loader_ok this d'] n ld d' show ?thesis
    by (auto simp: InvalidId_def)
qed

end
