(* ===== verification/Unwinder.thy ===== *)
theory Unwinder
  imports Pe
begin

text \<open>
  \<^verbatim>\<open>Architecture/X64/Unwind\<close>: finding the runtime function of an address in the exception directory
  of an image, and unwinding one frame of the stack by its unwind codes. A result of \<^term>\<open>None\<close> is a
  read of unmapped memory, or that the function does not return.
\<close>

unbundle bit_operations_syntax

record ctx =
  rip :: u64
  rsp :: u64
  rbx :: u64
  rbp :: u64
  rsi :: u64
  rdi :: u64
  r12 :: u64
  r13 :: u64
  r14 :: u64
  r15 :: u64

datatype unwind_error =
    InvalidImage | InvalidContext | MissingExceptionDirectory | InvalidExceptionDirectory
  | InvalidRuntimeFunction | InvalidUnwindInfo | UnsupportedUnwindVersion
  | UnsupportedUnwindOperation | UnsupportedRegister | InvalidStackProgress

record frame =
  caller :: ctx
  return_slot :: u64

record unwinder =
  ubase :: u64
  uimage_size :: nat
  ufunctions :: u64
  ucount :: nat

definition AlignedCodeCount :: "nat \<Rightarrow> nat" where
  "AlignedCodeCount n = (n + 1) div 2 * 2"

definition RangeValid :: "nat \<Rightarrow> nat \<Rightarrow> nat \<Rightarrow> bool" where
  "RangeValid offset sz limit \<longleftrightarrow> offset \<le> limit \<and> sz \<le> limit - offset"

section \<open>Unwind codes\<close>

text \<open>A code slot: \<^verbatim>\<open>CodeOffset\<close> and \<^verbatim>\<open>OperationAndInfo\<close>.\<close>

type_synonym slot = "u8 \<times> u8"

definition Operation :: "slot \<Rightarrow> nat" where
  "Operation c = unat (snd c AND 0x0F)"

definition OperationInfo :: "slot \<Rightarrow> nat" where
  "OperationInfo c = unat (drop_bit 4 (snd c))"

definition OperationSlotCount :: "slot \<Rightarrow> nat" where
  "OperationSlotCount c =
     (if Operation c = 1 then (if OperationInfo c = 1 then 3 else 2)
      else if Operation c = 4 \<or> Operation c = 8 then 2
      else if Operation c = 5 \<or> Operation c = 9 then 3
      else 1)"

definition code_at :: "memory \<Rightarrow> u64 \<Rightarrow> nat \<Rightarrow> slot option" where
  "code_at m codes i =
     do { x \<leftarrow> m (codes + of_nat (2 * i)); y \<leftarrow> m (codes + of_nat (2 * i) + 1); Some (x, y) }"

definition ReadUint16 :: "memory \<Rightarrow> u64 \<Rightarrow> nat \<Rightarrow> u16 option" where
  "ReadUint16 m codes i =
     do { c \<leftarrow> code_at m codes i; Some (ucast (fst c) OR push_bit 8 (ucast (snd c))) }"

definition ReadUint32 :: "memory \<Rightarrow> u64 \<Rightarrow> nat \<Rightarrow> u32 option" where
  "ReadUint32 m codes i =
     do { x \<leftarrow> ReadUint16 m codes i;
          y \<leftarrow> ReadUint16 m codes (i + 1);
          Some (ucast x OR push_bit 16 (ucast y)) }"

text \<open>\<open>Register\<close> returns a pointer to the field; here the value and the update of it.\<close>

definition Register :: "nat \<Rightarrow> bool" where
  "Register rid \<longleftrightarrow> rid \<in> {3, 5, 6, 7, 12, 13, 14, 15}"

definition get_register :: "nat \<Rightarrow> ctx \<Rightarrow> u64" where
  "get_register rid c =
     (if rid = 3 then rbx c else if rid = 5 then rbp c else if rid = 6 then rsi c
      else if rid = 7 then rdi c else if rid = 12 then r12 c else if rid = 13 then r13 c
      else if rid = 14 then r14 c else r15 c)"

definition set_register :: "nat \<Rightarrow> u64 \<Rightarrow> ctx \<Rightarrow> ctx" where
  "set_register rid v c =
     (if rid = 3 then c\<lparr>rbx := v\<rparr> else if rid = 5 then c\<lparr>rbp := v\<rparr> else if rid = 6 then c\<lparr>rsi := v\<rparr>
      else if rid = 7 then c\<lparr>rdi := v\<rparr> else if rid = 12 then c\<lparr>r12 := v\<rparr> else if rid = 13 then c\<lparr>r13 := v\<rparr>
      else if rid = 14 then c\<lparr>r14 := v\<rparr> else c\<lparr>r15 := v\<rparr>)"

text \<open>The cases of the \<^verbatim>\<open>switch\<close> in \<open>VirtualUnwind\<close>, one definition per operation: the context after the
  code at \<^verbatim>\<open>Index\<close>, and how many slots it took.\<close>

type_synonym code_result = "(unwind_error + ctx \<times> nat) option"

definition unwind_push :: "memory \<Rightarrow> nat \<Rightarrow> ctx \<Rightarrow> code_result" where
  "unwind_push m info c =
     (if \<not> Register info then Some (Inl UnsupportedRegister)
      else
        do { v \<leftarrow> read64 m (rsp c);
             let c = set_register info v c;
             Some (Inr (c\<lparr>rsp := rsp c + 8\<rparr>, 1)) })"

definition unwind_alloc_large :: "memory \<Rightarrow> u64 \<Rightarrow> nat \<Rightarrow> nat \<Rightarrow> nat \<Rightarrow> ctx \<Rightarrow> code_result" where
  "unwind_alloc_large m codes n index info c =
     (if info = 0 then
        if index + 1 \<ge> n then Some (Inl InvalidUnwindInfo)
        else do { v \<leftarrow> ReadUint16 m codes (index + 1); Some (Inr (c\<lparr>rsp := rsp c + ucast v * 8\<rparr>, 2)) }
      else if info = 1 then
        if index + 2 \<ge> n then Some (Inl InvalidUnwindInfo)
        else do { v \<leftarrow> ReadUint32 m codes (index + 1); Some (Inr (c\<lparr>rsp := rsp c + ucast v\<rparr>, 3)) }
      else Some (Inl InvalidUnwindInfo))"

definition unwind_alloc_small :: "nat \<Rightarrow> ctx \<Rightarrow> code_result" where
  "unwind_alloc_small info c = Some (Inr (c\<lparr>rsp := rsp c + (of_nat info * 8 + 8)\<rparr>, 1))"

definition unwind_frame_pointer :: "memory \<Rightarrow> u64 \<Rightarrow> ctx \<Rightarrow> code_result" where
  "unwind_frame_pointer m header c =
     do { frame_byte \<leftarrow> m (header + 3);
          let rid = unat (frame_byte AND 0x0F);
          let offset = unat (drop_bit 4 frame_byte);
          if \<not> Register rid then Some (Inl UnsupportedRegister)
          else Some (Inr (c\<lparr>rsp := get_register rid c - of_nat offset * 16\<rparr>, 1)) }"

definition unwind_save :: "memory \<Rightarrow> u64 \<Rightarrow> nat \<Rightarrow> nat \<Rightarrow> nat \<Rightarrow> ctx \<Rightarrow> code_result" where
  "unwind_save m codes n index info c =
     (if index + 1 \<ge> n then Some (Inl InvalidUnwindInfo)
      else if \<not> Register info then Some (Inl UnsupportedRegister)
      else
        do { v \<leftarrow> ReadUint16 m codes (index + 1);
             x \<leftarrow> read64 m (rsp c + ucast v * 8);
             Some (Inr (set_register info x c, 2)) })"

definition unwind_save_far :: "memory \<Rightarrow> u64 \<Rightarrow> nat \<Rightarrow> nat \<Rightarrow> nat \<Rightarrow> ctx \<Rightarrow> code_result" where
  "unwind_save_far m codes n index info c =
     (if index + 2 \<ge> n then Some (Inl InvalidUnwindInfo)
      else if \<not> Register info then Some (Inl UnsupportedRegister)
      else
        do { v \<leftarrow> ReadUint32 m codes (index + 1);
             x \<leftarrow> read64 m (rsp c + ucast v);
             Some (Inr (set_register info x c, 3)) })"

definition unwind_code ::
  "memory \<Rightarrow> u64 \<Rightarrow> u64 \<Rightarrow> nat \<Rightarrow> nat \<Rightarrow> slot \<Rightarrow> ctx \<Rightarrow> code_result" where
  "unwind_code m header codes n index code c =
     (let op = Operation code; info = OperationInfo code
      in if op = 0 then unwind_push m info c
         else if op = 1 then unwind_alloc_large m codes n index info c
         else if op = 2 then unwind_alloc_small info c
         else if op = 3 then unwind_frame_pointer m header c
         else if op = 4 then unwind_save m codes n index info c
         else if op = 5 then unwind_save_far m codes n index info c
         else if op = 8 then
           if index + 1 \<ge> n then Some (Inl InvalidUnwindInfo) else Some (Inr (c, 2))
         else if op = 9 then
           if index + 2 \<ge> n then Some (Inl InvalidUnwindInfo) else Some (Inr (c, 3))
         else Some (Inl UnsupportedUnwindOperation))"

text \<open>\<open>skip\<close>: the code belongs to an instruction of the prolog that has not been executed yet.\<close>

lemma unwind_code_slots: "unwind_code m header codes n index code c = Some (Inr (c', k)) \<Longrightarrow> 0 < k"
  by (auto simp: unwind_code_def unwind_push_def unwind_alloc_large_def unwind_alloc_small_def
      unwind_frame_pointer_def unwind_save_def unwind_save_far_def Let_def
      split: if_splits Option.bind_splits)

lemma OperationSlotCount_pos: "0 < OperationSlotCount code"
  by (simp add: OperationSlotCount_def)

function unwind_codes ::
  "memory \<Rightarrow> u64 \<Rightarrow> u64 \<Rightarrow> nat \<Rightarrow> nat option \<Rightarrow> nat \<Rightarrow> ctx \<Rightarrow> (unwind_error + ctx) option" where
  "unwind_codes m header codes n prolog index c =
     (if index < n then
        case code_at m codes index of
          None \<Rightarrow> None
        | Some code \<Rightarrow>
            if index + OperationSlotCount code > n then Some (Inl InvalidUnwindInfo)
            else if (case prolog of None \<Rightarrow> False | Some offset \<Rightarrow> unat (fst code) > offset) then
              unwind_codes m header codes n prolog (index + OperationSlotCount code) c
            else
              (case unwind_code m header codes n index code c of
                 None \<Rightarrow> None
               | Some (Inl e) \<Rightarrow> Some (Inl e)
               | Some (Inr (c, k)) \<Rightarrow> unwind_codes m header codes n prolog (index + k) c)
      else Some (Inr c))"
  by pat_completeness auto
termination
  by (relation "measure (\<lambda>(m, header, codes, n, prolog, index, c). n - index)")
    (auto dest: unwind_code_slots simp: OperationSlotCount_pos intro!: diff_less_mono2)

declare unwind_codes.simps [simp del]

section \<open>The unwinder\<close>

text \<open>A runtime function is three 32-bit words: the addresses of its begin, its end and its unwind
  information, relative to the image.\<close>

definition function_begin :: "memory \<Rightarrow> u64 \<Rightarrow> u32 option" where
  "function_begin m f = read32 m f"

definition function_end :: "memory \<Rightarrow> u64 \<Rightarrow> u32 option" where
  "function_end m f = read32 m (f + 4)"

definition function_info :: "memory \<Rightarrow> u64 \<Rightarrow> u32 option" where
  "function_info m f = read32 m (f + 8)"

definition empty_unwinder :: unwinder where
  "empty_unwinder = \<lparr>ubase = 0, uimage_size = 0, ufunctions = 0, ucount = 0\<rparr>"

definition make_unwinder :: "memory \<Rightarrow> u64 \<Rightarrow> unwinder option" where
  "make_unwinder m base =
     do { valid \<leftarrow> IsValid m base;
          is64 \<leftarrow> (if valid then Is64 m base else Some False);
          if \<not> valid \<or> \<not> is64 then Some empty_unwinder
          else
            do { d \<leftarrow> GetDirectory m base ExceptionDir;
                 if directory_Empty d \<or> unat (dsize d) mod 12 \<noteq> 0 then Some empty_unwinder
                 else
                   do { n \<leftarrow> ImageSize m base;
                        if \<not> RangeValid (unat (drva d)) (unat (dsize d)) (unat n) then Some empty_unwinder
                        else
                          Some \<lparr>ubase = base, uimage_size = unat n,
                                ufunctions = base + ucast (drva d), ucount = unat (dsize d) div 12\<rparr> } } }"

definition unwinder_Valid :: "unwinder \<Rightarrow> bool" where
  "unwinder_Valid u \<longleftrightarrow> ubase u \<noteq> 0 \<and> uimage_size u \<noteq> 0 \<and> ufunctions u \<noteq> 0 \<and> ucount u \<noteq> 0"

definition unwinder_Contains :: "unwinder \<Rightarrow> u64 \<Rightarrow> bool" where
  "unwinder_Contains u address \<longleftrightarrow>
     \<not> (ubase u = 0 \<or> uimage_size u = 0) \<and> address \<ge> ubase u \<and> unat (address - ubase u) < uimage_size u"

function lookup_loop :: "memory \<Rightarrow> u64 \<Rightarrow> u32 \<Rightarrow> nat \<Rightarrow> nat \<Rightarrow> nat option option" where
  "lookup_loop m functions rva first cnt =
     (if cnt \<noteq> 0 then
        case function_begin m (functions + of_nat (12 * (first + cnt div 2))) of
          None \<Rightarrow> None
        | Some low \<Rightarrow>
            if rva < low then lookup_loop m functions rva first (cnt div 2)
            else
              (case function_end m (functions + of_nat (12 * (first + cnt div 2))) of
                 None \<Rightarrow> None
               | Some high \<Rightarrow>
                   if rva \<ge> high then
                     lookup_loop m functions rva (first + cnt div 2 + 1) (cnt - (cnt div 2 + 1))
                   else Some (Some (first + cnt div 2)))
      else Some None)"
  by pat_completeness auto
termination
  by (relation "measure (\<lambda>(m, functions, rva, first, cnt). cnt)") auto

declare lookup_loop.simps [simp del]

text \<open>The address of the runtime function, 0 when there is none.\<close>

definition LookupRuntimeFunction :: "memory \<Rightarrow> unwinder \<Rightarrow> u64 \<Rightarrow> u64 option" where
  "LookupRuntimeFunction m u address =
     (if \<not> unwinder_Valid u \<or> \<not> unwinder_Contains u address then Some 0
      else
        do { i \<leftarrow> lookup_loop m (ufunctions u) (ucast (address - ubase u)) 0 (ucount u);
             Some (case i of None \<Rightarrow> 0 | Some i \<Rightarrow> ufunctions u + of_nat (12 * i)) })"

record function_range =
  range_begin :: u64
  range_end :: u64
  begin_rva :: u32
  end_rva :: u32
  info_rva :: u32

definition FindRuntimeFunction :: "memory \<Rightarrow> unwinder \<Rightarrow> u64 \<Rightarrow> function_range option option" where
  "FindRuntimeFunction m u address =
     do { f \<leftarrow> LookupRuntimeFunction m u address;
          if f = 0 then Some None
          else
            do { low \<leftarrow> function_begin m f;
                 high \<leftarrow> function_end m f;
                 info \<leftarrow> function_info m f;
                 Some (Some \<lparr>range_begin = ubase u + ucast low, range_end = ubase u + ucast high,
                             begin_rva = low, end_rva = high, info_rva = info\<rparr>) } }"

text \<open>The body of the \<^verbatim>\<open>for (;;)\<close> loop, for one unwind information: it ends the loop with a context, or
  goes on with the chained function, whose address it gives. \<open>first\<close> is the relative address of the
  instruction while \<^verbatim>\<open>FirstInfo\<close> holds.\<close>

definition unwind_info ::
  "memory \<Rightarrow> unwinder \<Rightarrow> u32 option \<Rightarrow> u64 \<Rightarrow> ctx \<Rightarrow>
    (unwind_error + ctx \<times> u64 option) option" where
  "unwind_info m u first f c =
     do { info \<leftarrow> function_info m f;
          if info = 0 \<or> unat info \<ge> uimage_size u then Some (Inl InvalidRuntimeFunction)
          else
            do { let header = ubase u + ucast info;
                 version_flags \<leftarrow> m header;
                 if version_flags AND 0x07 \<noteq> 1 then Some (Inl UnsupportedUnwindVersion)
                 else
                   do { n \<leftarrow> m (header + 2);
                        if \<not> RangeValid (unat info + 4) (2 * unat n) (uimage_size u)
                        then Some (Inl InvalidUnwindInfo)
                        else
                          do { prolog \<leftarrow>
                                 (case first of
                                    None \<Rightarrow> Some None
                                  | Some rva \<Rightarrow>
                                      do { low \<leftarrow> function_begin m f;
                                           let offset = unat (rva - low);
                                           prolog_size \<leftarrow> m (header + 1);
                                           Some (if offset \<le> unat prolog_size then Some offset else None) });
                               r \<leftarrow> unwind_codes m header (header + 4) (unat n) prolog 0 c;
                               case r of
                                 Inl e \<Rightarrow> Some (Inl e)
                               | Inr c \<Rightarrow>
                                   if drop_bit 3 version_flags AND 0x04 = 0 then Some (Inr (c, None))
                                   else
                                     (let chained = unat info + 4 + 2 * AlignedCodeCount (unat n)
                                      in if \<not> RangeValid chained 12 (uimage_size u)
                                         then Some (Inl InvalidUnwindInfo)
                                         else Some (Inr (c, Some (ubase u + of_nat chained)))) } } } }"

partial_function (option) unwind_chain ::
  "memory \<Rightarrow> unwinder \<Rightarrow> u32 option \<Rightarrow> u64 \<Rightarrow> ctx \<Rightarrow> (unwind_error + ctx) option" where
  "unwind_chain m u first f c =
     Option.bind (unwind_info m u first f c) (\<lambda>r.
       case r of
         Inl e \<Rightarrow> Some (Inl e)
       | Inr (c, None) \<Rightarrow> Some (Inr c)
       | Inr (c, Some f) \<Rightarrow> unwind_chain m u None f c)"

definition pop_return :: "memory \<Rightarrow> ctx \<Rightarrow> frame option" where
  "pop_return m c =
     do { v \<leftarrow> read64 m (rsp c);
          Some \<lparr>caller = c\<lparr>rip := v, rsp := rsp c + 8\<rparr>, return_slot = rsp c\<rparr> }"

definition VirtualUnwind :: "memory \<Rightarrow> unwinder \<Rightarrow> ctx \<Rightarrow> (unwind_error + frame) option" where
  "VirtualUnwind m u current =
     (if \<not> unwinder_Valid u \<or> rip current = 0 \<or> rsp current = 0 \<or> \<not> unwinder_Contains u (rip current)
      then Some (Inl InvalidContext)
      else
        do { f \<leftarrow> LookupRuntimeFunction m u (rip current);
             if f = 0 then do { fr \<leftarrow> pop_return m current; Some (Inr fr) }
             else
               do { r \<leftarrow> unwind_chain m u (Some (ucast (rip current - ubase u))) f current;
                    case r of
                      Inl e \<Rightarrow> Some (Inl e)
                    | Inr c \<Rightarrow>
                        do { fr \<leftarrow> pop_return m c;
                             if rsp (caller fr) \<le> rsp current then Some (Inl InvalidStackProgress)
                             else Some (Inr fr) } } })"

section \<open>The table of functions\<close>

text \<open>\<open>function_table m tbl fs\<close>: the memory at \<open>tbl\<close> holds the begin and end addresses \<open>fs\<close>.\<close>

definition function_table :: "memory \<Rightarrow> u64 \<Rightarrow> (u32 \<times> u32) list \<Rightarrow> bool" where
  "function_table m tbl fs \<longleftrightarrow> (\<forall>i < length fs.
     function_begin m (tbl + of_nat (12 * i)) = Some (fst (fs ! i)) \<and>
     function_end m (tbl + of_nat (12 * i)) = Some (snd (fs ! i)))"

text \<open>The order the format prescribes: no range is empty or reaches into a later one.\<close>

definition function_order :: "(u32 \<times> u32) list \<Rightarrow> bool" where
  "function_order fs \<longleftrightarrow> (\<forall>i < length fs. fst (fs ! i) \<le> snd (fs ! i)) \<and>
     (\<forall>j < length fs. \<forall>i < j. snd (fs ! i) \<le> fst (fs ! j))"

definition in_function :: "u32 \<Rightarrow> u32 \<times> u32 \<Rightarrow> bool" where
  "in_function rva f \<longleftrightarrow> fst f \<le> rva \<and> rva < snd f"

lemma lookup_loop_finds:
  assumes "function_table m tbl fs" and "function_order fs" and "first + cnt \<le> length fs"
    and "\<And>i. i < length fs \<Longrightarrow> in_function rva (fs ! i) \<Longrightarrow> first \<le> i \<and> i < first + cnt"
  shows "\<exists>r. lookup_loop m tbl rva first cnt = Some r \<and>
    (case r of None \<Rightarrow> (\<forall>i < length fs. \<not> in_function rva (fs ! i))
     | Some i \<Rightarrow> i < length fs \<and> in_function rva (fs ! i))"
  using assms(3,4)
proof (induction cnt arbitrary: first rule: less_induct)
  case (less cnt)
  show ?case
  proof (cases "cnt = 0")
    case True
    with less.prems(2) show ?thesis by (fastforce simp: lookup_loop.simps)
  next
    case False
    let ?i = "first + cnt div 2"
    have i: "?i < length fs" "cnt div 2 < cnt" using less.prems(1) False by auto
    with assms(1) have rd: "function_begin m (tbl + of_nat (12 * ?i)) = Some (fst (fs ! ?i))"
      "function_end m (tbl + of_nat (12 * ?i)) = Some (snd (fs ! ?i))"
      unfolding function_table_def by blast+
    note loop = lookup_loop.simps [of m tbl rva first cnt]
    have order: "fst (fs ! k) \<le> snd (fs ! k)" "j < k \<Longrightarrow> snd (fs ! j) \<le> fst (fs ! k)" if "k < length fs" for j k
      using assms(2) that unfolding function_order_def by blast+
    consider (below) "rva < fst (fs ! ?i)" | (above) "\<not> rva < fst (fs ! ?i)" "snd (fs ! ?i) \<le> rva"
      | (here) "\<not> rva < fst (fs ! ?i)" "\<not> snd (fs ! ?i) \<le> rva" by blast
    then show ?thesis
    proof cases
      case below
      have "\<exists>r. lookup_loop m tbl rva first (cnt div 2) = Some r \<and>
        (case r of None \<Rightarrow> (\<forall>i < length fs. \<not> in_function rva (fs ! i))
         | Some i \<Rightarrow> i < length fs \<and> in_function rva (fs ! i))"
      proof (rule less.IH [OF i(2)])
        show "first + cnt div 2 \<le> length fs" using i(1) by simp
        fix k assume k: "k < length fs" "in_function rva (fs ! k)"
        have "\<not> ?i \<le> k"
        proof
          assume "?i \<le> k"
          then have "fst (fs ! ?i) \<le> fst (fs ! k)"
            using order(1) [OF i(1)] order(2) [OF k(1), of ?i] by (cases "?i = k") auto
          with below k(2) show False by (auto simp: in_function_def)
        qed
        with less.prems(2) [OF k] show "first \<le> k \<and> k < ?i" by simp
      qed
      with below False rd show ?thesis by (simp add: loop)
    next
      case above
      have "\<exists>r. lookup_loop m tbl rva (?i + 1) (cnt - (cnt div 2 + 1)) = Some r \<and>
        (case r of None \<Rightarrow> (\<forall>i < length fs. \<not> in_function rva (fs ! i))
         | Some i \<Rightarrow> i < length fs \<and> in_function rva (fs ! i))"
      proof (rule less.IH)
        show "cnt - (cnt div 2 + 1) < cnt" using False by simp
        show "?i + 1 + (cnt - (cnt div 2 + 1)) \<le> length fs" using less.prems(1) i(2) by simp
        fix k assume k: "k < length fs" "in_function rva (fs ! k)"
        have "\<not> k \<le> ?i"
        proof
          assume "k \<le> ?i"
          then have "snd (fs ! k) \<le> snd (fs ! ?i)"
            using order(1) [OF i(1)] order(2) [OF i(1), of k] by (cases "k = ?i") auto
          with above k(2) show False by (auto simp: in_function_def)
        qed
        with less.prems(2) [OF k] i(2) show "?i + 1 \<le> k \<and> k < ?i + 1 + (cnt - (cnt div 2 + 1))" by auto
      qed
      with above False rd show ?thesis by (simp add: loop)
    next
      case here
      then have "lookup_loop m tbl rva first cnt = Some (Some ?i)" using False rd by (simp add: loop)
      with here i(1) show ?thesis by (auto simp: in_function_def)
    qed
  qed
qed

text \<open>C10: \<open>LookupRuntimeFunction\<close> searches the exception directory correctly. When the directory holds the
  ranges \<open>fs\<close> in the order the format prescribes, the result for an address of the image is the address of
  the entry whose range holds it, and the null pointer exactly when no entry does; and an image whose
  directory is mapped always gives a result.\<close>

theorem LookupRuntimeFunction_finds:
  assumes "function_table m (ufunctions u) fs" and "function_order fs" and "length fs = ucount u"
    and "unwinder_Valid u" and "unwinder_Contains u address"
    and "unat (ufunctions u) + 12 * ucount u < 2 ^ 64"
  shows "case LookupRuntimeFunction m u address of
      None \<Rightarrow> False
    | Some f \<Rightarrow>
        if f = 0 then \<forall>i < length fs. \<not> in_function (ucast (address - ubase u)) (fs ! i)
        else \<exists>i < length fs. f = ufunctions u + of_nat (12 * i) \<and>
               in_function (ucast (address - ubase u)) (fs ! i)"
proof -
  let ?rva = "ucast (address - ubase u) :: u32"
  obtain r where r: "lookup_loop m (ufunctions u) ?rva 0 (ucount u) = Some r"
    "case r of None \<Rightarrow> (\<forall>i < length fs. \<not> in_function ?rva (fs ! i))
     | Some i \<Rightarrow> i < length fs \<and> in_function ?rva (fs ! i)"
    using lookup_loop_finds [OF assms(1,2), of 0 "ucount u" ?rva] assms(3) by auto
  have eq: "LookupRuntimeFunction m u address =
      Some (case r of None \<Rightarrow> 0 | Some i \<Rightarrow> ufunctions u + of_nat (12 * i))"
    using assms(4,5) r(1) by (simp add: LookupRuntimeFunction_def)
  have nz: "ufunctions u + of_nat (12 * i) \<noteq> 0" if "i < ucount u" for i
  proof -
    have "unat (ufunctions u + of_nat (12 * i)) = unat (ufunctions u) + 12 * i"
      using assms(6) that by (intro unat_add_small) linarith
    moreover have "unat (ufunctions u) \<noteq> 0" using assms(4) by (simp add: unwinder_Valid_def unat_eq_zero)
    ultimately show ?thesis by (metis add_is_0 unat_0)
  qed
  show ?thesis using r(2) nz assms(3) by (auto simp: eq split: option.splits)
qed

definition table_image :: memory where
  "table_image = bytes_at 0x1040
     [0x10, 0, 0, 0, 0x20, 0, 0, 0, 0, 0, 0, 0,
      0x20, 0, 0, 0, 0x30, 0, 0, 0, 0, 0, 0, 0,
      0x40, 0, 0, 0, 0x60, 0, 0, 0, 0, 0, 0, 0] Map.empty"

definition table_unwinder :: unwinder where
  "table_unwinder = \<lparr>ubase = 0x1000, uimage_size = 0x100, ufunctions = 0x1040, ucount = 3\<rparr>"

theorem LookupRuntimeFunction_finds_witness:
  "LookupRuntimeFunction table_image table_unwinder 0x1025 = Some 0x104C"
proof -
  let ?fs = "[(0x10, 0x20), (0x20, 0x30), (0x40, 0x60)] :: (u32 \<times> u32) list"
  have "function_table table_image (ufunctions table_unwinder) ?fs" by code_simp
  moreover have "function_order ?fs" by code_simp
  moreover have "unwinder_Valid table_unwinder" "unwinder_Contains table_unwinder 0x1025" by code_simp+
  moreover have "unat (ufunctions table_unwinder) + 12 * ucount table_unwinder < 2 ^ 64"
    "ufunctions table_unwinder = 0x1040" "ubase table_unwinder = 0x1000" "ucount table_unwinder = 3"
    by (simp_all add: table_unwinder_def)
  ultimately show ?thesis
    using LookupRuntimeFunction_finds [of table_image table_unwinder ?fs "0x1025"]
    by (auto simp: in_function_def All_less_Suc Ex_less_Suc nth_Cons' split: option.splits if_splits)
qed

text \<open>The constructor of the unwinder takes over an exception directory only when it lies inside the image
  and is a whole number of entries; any other image leaves the unwinder empty, so not valid.\<close>

theorem make_unwinder_in_image:
  "case make_unwinder m base of
     None \<Rightarrow> True
   | Some u \<Rightarrow>
       (\<not> unwinder_Valid u \<and> u = empty_unwinder) \<or>
       (IsValid m base = Some True \<and> Is64 m base = Some True \<and>
        (\<exists>d. GetDirectory m base ExceptionDir = Some d \<and> ubase u = base \<and>
          ImageSize m base = Some (of_nat (uimage_size u)) \<and>
          ufunctions u = base + ucast (drva d) \<and> unat (dsize d) = 12 * ucount u \<and> 0 < ucount u \<and>
          unat (drva d) + 12 * ucount u \<le> uimage_size u))"
proof (cases "make_unwinder m base")
  case (Some u)
  show ?thesis
  proof (cases "u = empty_unwinder")
    case True
    with Some show ?thesis by (simp add: unwinder_Valid_def empty_unwinder_def)
  next
    case False
    obtain valid is64 where v: "IsValid m base = Some valid" "Is64 m base = Some is64 \<or> \<not> valid" 
      using Some by (auto simp: make_unwinder_def split: Option.bind_splits if_splits)
    with Some False have v: "IsValid m base = Some True" "Is64 m base = Some True"
      by (auto simp: make_unwinder_def split: if_splits)
    obtain d n where d: "GetDirectory m base ExceptionDir = Some d" "ImageSize m base = Some n"
      using Some v False by (auto simp: make_unwinder_def split: Option.bind_splits if_splits)
    have u: "u = \<lparr>ubase = base, uimage_size = unat n, ufunctions = base + ucast (drva d), ucount = unat (dsize d) div 12\<rparr>"
      "unat (dsize d) mod 12 = 0" "\<not> directory_Empty d" "RangeValid (unat (drva d)) (unat (dsize d)) (unat n)"
      using Some v d False by (auto simp: make_unwinder_def split: if_splits)
    have sz: "unat (dsize d) = 12 * ucount u" "0 < unat (dsize d)"
      using u(1-3) by (auto simp: directory_Empty_def unat_gt_0)
    have parts: "ubase u = base" "uimage_size u = unat n" "ufunctions u = base + ucast (drva d)"
      by (simp_all only: u(1) unwinder.simps)
    have "unat (drva d) + 12 * ucount u \<le> uimage_size u"
      using u(4) sz(1) parts(2) unfolding RangeValid_def by linarith
    moreover have "ImageSize m base = Some (of_nat (uimage_size u))" using d(2) parts(2) by simp
    ultimately show ?thesis using Some v d(1) sz parts by auto
  qed
qed simp

end
