(* ===== verification/Prolog.thy ===== *)
theory Prolog
  imports Unwinder
begin

text \<open>
  What \<open>VirtualUnwind\<close> is for: a model of the prologs that the unwind codes describe, the encoding of a
  prolog as codes, and the proof that unwinding undoes a prolog, wherever in the function it has stopped.
\<close>

unbundle bit_operations_syntax

section \<open>Prologs\<close>

text \<open>The instructions of a prolog that have an unwind code, and what they do to the registers and the
  memory. The header of the unwind information names the frame register and its scaled offset. A prolog
  is the list of its instructions, the last executed first, which is the order of their codes.\<close>

datatype prolog_op =
    Push nat
  | AllocSmall nat
  | AllocLarge u16
  | AllocHuge u32
  | SetFrame
  | Save nat u16
  | SaveFar nat u32

fun op_size :: "prolog_op \<Rightarrow> u64" where
  "op_size (Push r) = 8"
| "op_size (AllocSmall k) = of_nat k * 8 + 8"
| "op_size (AllocLarge v) = ucast v * 8"
| "op_size (AllocHuge v) = ucast v"
| "op_size _ = 0"

fun op_slot :: "prolog_op \<Rightarrow> ctx \<Rightarrow> (u64 \<times> nat) list" where
  "op_slot (Push r) c = [(rsp c - 8, r)]"
| "op_slot (Save r v) c = [(rsp c + ucast v * 8, r)]"
| "op_slot (SaveFar r v) c = [(rsp c + ucast v, r)]"
| "op_slot _ c = []"

definition op_context :: "nat \<Rightarrow> nat \<Rightarrow> prolog_op \<Rightarrow> ctx \<Rightarrow> ctx" where
  "op_context fr fo op c =
     (if op = SetFrame then set_register fr (rsp c + of_nat fo * 16) c else c\<lparr>rsp := rsp c - op_size op\<rparr>)"

fun op_memory :: "prolog_op \<Rightarrow> ctx \<Rightarrow> memory \<Rightarrow> memory" where
  "op_memory op c m = fold (\<lambda>(a, r) m. write64 m a (get_register r c)) (op_slot op c) m"

fun prolog_context :: "nat \<Rightarrow> nat \<Rightarrow> prolog_op list \<Rightarrow> ctx \<Rightarrow> ctx" where
  "prolog_context fr fo [] c = c"
| "prolog_context fr fo (op # ops) c = op_context fr fo op (prolog_context fr fo ops c)"

fun prolog_memory :: "nat \<Rightarrow> nat \<Rightarrow> prolog_op list \<Rightarrow> ctx \<Rightarrow> memory \<Rightarrow> memory" where
  "prolog_memory fr fo [] c m = m"
| "prolog_memory fr fo (op # ops) c m =
     op_memory op (prolog_context fr fo ops c) (prolog_memory fr fo ops c m)"

fun prolog_slots :: "nat \<Rightarrow> nat \<Rightarrow> prolog_op list \<Rightarrow> ctx \<Rightarrow> (u64 \<times> nat) list" where
  "prolog_slots fr fo [] c = []"
| "prolog_slots fr fo (op # ops) c =
     op_slot op (prolog_context fr fo ops c) @ prolog_slots fr fo ops c"

fun saves :: "prolog_op \<Rightarrow> nat set" where
  "saves (Push r) = {r}"
| "saves (Save r v) = {r}"
| "saves (SaveFar r v) = {r}"
| "saves _ = {}"

text \<open>A prolog saves a register once, and the frame register before it is set; the slots it saves to and
  the return address are apart, and do not wrap around.\<close>

fun well_formed_prolog :: "nat \<Rightarrow> nat \<Rightarrow> prolog_op list \<Rightarrow> ctx \<Rightarrow> bool" where
  "well_formed_prolog fr fo [] c = (unat (rsp c) + 8 < 2 ^ 64)"
| "well_formed_prolog fr fo (op # ops) c =
     (well_formed_prolog fr fo ops c \<and>
      (\<forall>r \<in> saves op. Register r \<and> r \<notin> \<Union> (saves ` set ops)) \<and>
      (\<forall>(a, r) \<in> set (op_slot op (prolog_context fr fo ops c)).
         unat a + 8 \<le> 2 ^ 64 \<and> apart a (rsp c) \<and>
         (\<forall>(b, q) \<in> set (prolog_slots fr fo ops c). apart a b)) \<and>
      (case op of AllocSmall k \<Rightarrow> k < 16
       | SetFrame \<Rightarrow> Register fr \<and> fr \<in> \<Union> (saves ` set ops) \<and> SetFrame \<notin> set ops
       | _ \<Rightarrow> True))"

definition encode16 :: "u16 \<Rightarrow> slot" where
  "encode16 v = (ucast v, ucast (drop_bit 8 v))"

definition op_code :: "nat \<Rightarrow> nat \<Rightarrow> u8" where
  "op_code op info = of_nat (op + 16 * info)"

fun encode_op :: "u8 \<Rightarrow> prolog_op \<Rightarrow> slot list" where
  "encode_op at (Push r) = [(at, op_code 0 r)]"
| "encode_op at (AllocSmall k) = [(at, op_code 2 k)]"
| "encode_op at (AllocLarge v) = [(at, op_code 1 0), encode16 v]"
| "encode_op at (AllocHuge v) = [(at, op_code 1 1), encode16 (ucast v), encode16 (ucast (drop_bit 16 v))]"
| "encode_op at SetFrame = [(at, op_code 3 0)]"
| "encode_op at (Save r v) = [(at, op_code 4 r), encode16 v]"
| "encode_op at (SaveFar r v) = [(at, op_code 5 r), encode16 (ucast v), encode16 (ucast (drop_bit 16 v))]"

section \<open>Undoing an instruction\<close>

fun undo :: "nat \<Rightarrow> nat \<Rightarrow> memory \<Rightarrow> prolog_op \<Rightarrow> ctx \<Rightarrow> ctx option" where
  "undo fr fo m (Push r) c =
     do { v \<leftarrow> read64 m (rsp c); Some ((set_register r v c)\<lparr>rsp := rsp c + 8\<rparr>) }"
| "undo fr fo m SetFrame c = Some (c\<lparr>rsp := get_register fr c - of_nat fo * 16\<rparr>)"
| "undo fr fo m (Save r v) c =
     do { x \<leftarrow> read64 m (rsp c + ucast v * 8); Some (set_register r x c) }"
| "undo fr fo m (SaveFar r v) c =
     do { x \<leftarrow> read64 m (rsp c + ucast v); Some (set_register r x c) }"
| "undo fr fo m op c = Some (c\<lparr>rsp := rsp c + op_size op\<rparr>)"

fun undo_all :: "nat \<Rightarrow> nat \<Rightarrow> memory \<Rightarrow> prolog_op list \<Rightarrow> ctx \<Rightarrow> ctx option" where
  "undo_all fr fo m [] c = Some c"
| "undo_all fr fo m (op # ops) c = do { c \<leftarrow> undo fr fo m op c; undo_all fr fo m ops c }"

lemma Register_cases:
  assumes "Register r"
  obtains "r = 3" | "r = 5" | "r = 6" | "r = 7" | "r = 12" | "r = 13" | "r = 14" | "r = 15"
  using assms by (auto simp: Register_def)

lemma get_set_register: "Register r \<Longrightarrow> Register q \<Longrightarrow>
    get_register q (set_register r v c) = (if q = r then v else get_register q c)"
  by (erule Register_cases; erule Register_cases; simp add: get_register_def set_register_def)

lemma rsp_set_register [simp]: "rsp (set_register r v c) = rsp c"
  by (simp add: set_register_def)

lemma rip_set_register [simp]: "rip (set_register r v c) = rip c"
  by (simp add: set_register_def)

lemma get_register_rsp [simp]: "get_register r (c\<lparr>rsp := v\<rparr>) = get_register r c"
  by (simp add: get_register_def)

lemma ctx_eqI:
  assumes "rip c = rip c'" and "rsp c = rsp c'" and "\<And>r. Register r \<Longrightarrow> get_register r c = get_register r c'"
  shows "c = (c' :: ctx)"
  using assms(1,2) assms(3) [of 3] assms(3) [of 5] assms(3) [of 6] assms(3) [of 7]
    assms(3) [of 12] assms(3) [of 13] assms(3) [of 14] assms(3) [of 15]
  by (simp add: Register_def get_register_def)

text \<open>The invariant of the walk: the prolog \<open>ops\<close> was entered with \<open>c0\<close> and is still to be undone from
  \<open>c\<close>, and the memory \<open>m\<close> holds the entry values in its slots.\<close>

definition undoable :: "nat \<Rightarrow> nat \<Rightarrow> memory \<Rightarrow> ctx \<Rightarrow> prolog_op list \<Rightarrow> ctx \<Rightarrow> bool" where
  "undoable fr fo m c0 ops c \<longleftrightarrow>
     (rsp c = rsp (prolog_context fr fo ops c0) \<or> (\<exists>ops'. ops = SetFrame # ops')) \<and>
     (SetFrame \<in> set ops \<longrightarrow> get_register fr c = get_register fr (prolog_context fr fo ops c0)) \<and>
     (\<forall>r. Register r \<longrightarrow> r \<notin> \<Union> (saves ` set ops) \<longrightarrow> get_register r c = get_register r c0) \<and>
     (\<forall>(a, r) \<in> set (prolog_slots fr fo ops c0). read64 m a = Some (get_register r c0))"

lemma well_formed_frame:
  assumes "well_formed_prolog fr fo ops c0" and "SetFrame \<in> set ops"
  shows "Register fr \<and> fr \<in> \<Union> (saves ` set ops)"
  using assms by (induction ops) auto

lemma prolog_context_step:
  "op \<noteq> SetFrame \<Longrightarrow> prolog_context fr fo (op # ops) c =
    (prolog_context fr fo ops c)\<lparr>rsp := rsp (prolog_context fr fo ops c) - op_size op\<rparr>"
  by (simp add: op_context_def)

lemma undoableI:
  assumes "rsp c = rsp (prolog_context fr fo ops c0)"
    and "SetFrame \<in> set ops \<Longrightarrow> get_register fr c = get_register fr (prolog_context fr fo ops c0)"
    and "\<And>r. Register r \<Longrightarrow> r \<notin> \<Union> (saves ` set ops) \<Longrightarrow> get_register r c = get_register r c0"
    and "\<And>a r. (a, r) \<in> set (prolog_slots fr fo ops c0) \<Longrightarrow> read64 m a = Some (get_register r c0)"
  shows "undoable fr fo m c0 ops c"
  using assms by (auto simp: undoable_def)

lemma undoableD:
  assumes "undoable fr fo m c0 (op # ops) c" and "op \<noteq> SetFrame"
  shows "rsp c = rsp (prolog_context fr fo ops c0) - op_size op"
    and "SetFrame \<in> set ops \<Longrightarrow> get_register fr c = get_register fr (prolog_context fr fo ops c0)"
    and "Register r \<Longrightarrow> r \<notin> saves op \<Longrightarrow> r \<notin> \<Union> (saves ` set ops) \<Longrightarrow> get_register r c = get_register r c0"
    and "(a, q) \<in> set (op_slot op (prolog_context fr fo ops c0)) \<Longrightarrow> read64 m a = Some (get_register q c0)"
    and "(a, q) \<in> set (prolog_slots fr fo ops c0) \<Longrightarrow> read64 m a = Some (get_register q c0)"
proof -
  have u: "rsp c = rsp (prolog_context fr fo (op # ops) c0)"
    "SetFrame \<in> set (op # ops) \<longrightarrow> get_register fr c = get_register fr (prolog_context fr fo (op # ops) c0)"
    "\<forall>r. Register r \<longrightarrow> r \<notin> \<Union> (saves ` set (op # ops)) \<longrightarrow> get_register r c = get_register r c0"
    "\<forall>(a, r) \<in> set (prolog_slots fr fo (op # ops) c0). read64 m a = Some (get_register r c0)"
    using assms unfolding undoable_def by blast+
  show "rsp c = rsp (prolog_context fr fo ops c0) - op_size op"
    using u(1) by (simp only: prolog_context_step [OF assms(2)]) simp
  show "get_register fr c = get_register fr (prolog_context fr fo ops c0)" if "SetFrame \<in> set ops"
    using u(2) that by (simp only: prolog_context_step [OF assms(2)]) simp
  show "get_register r c = get_register r c0" if "Register r" "r \<notin> saves op" "r \<notin> \<Union> (saves ` set ops)"
    using u(3) that by auto
  show "read64 m a = Some (get_register q c0)" if "(a, q) \<in> set (op_slot op (prolog_context fr fo ops c0))"
    using u(4) that by auto
  show "read64 m a = Some (get_register q c0)" if "(a, q) \<in> set (prolog_slots fr fo ops c0)"
    using u(4) that by auto
qed

text \<open>An instruction that saves \<open>r\<close> at \<open>a\<close> is undone by reading the slot.\<close>

lemma undoable_restore:
  assumes wf: "well_formed_prolog fr fo (op # ops) c0" and u: "undoable fr fo m c0 (op # ops) c"
    and op: "op_slot op (prolog_context fr fo ops c0) = [(a, r)]" "saves op = {r}"
  shows "read64 m a = Some (get_register r c0)"
    and "undoable fr fo m c0 ops ((set_register r (get_register r c0) c)\<lparr>rsp := rsp (prolog_context fr fo ops c0)\<rparr>)"
proof -
  have ne: "op \<noteq> SetFrame" using op(2) by auto
  have r: "Register r" "r \<notin> \<Union> (saves ` set ops)" using wf op(2) by auto
  show "read64 m a = Some (get_register r c0)"
    using undoableD(4) [OF u ne] op(1) by simp
  show "undoable fr fo m c0 ops ((set_register r (get_register r c0) c)\<lparr>rsp := rsp (prolog_context fr fo ops c0)\<rparr>)"
  proof (rule undoableI)
    assume s: "SetFrame \<in> set ops"
    then have "Register fr" "fr \<noteq> r" using well_formed_frame [of fr fo ops c0] wf r(2) by auto
    then show "get_register fr ((set_register r (get_register r c0) c)\<lparr>rsp := rsp (prolog_context fr fo ops c0)\<rparr>) =
        get_register fr (prolog_context fr fo ops c0)"
      using undoableD(2) [OF u ne s] r(1) by (simp add: get_set_register)
  next
    fix q assume "Register q" "q \<notin> \<Union> (saves ` set ops)"
    then show "get_register q ((set_register r (get_register r c0) c)\<lparr>rsp := rsp (prolog_context fr fo ops c0)\<rparr>) =
        get_register q c0"
      using undoableD(3) [OF u ne, of q] r(1) op(2) by (simp add: get_set_register)
  qed (use undoableD(5) [OF u ne] in simp_all)
qed

lemma undoable_allocate:
  assumes "undoable fr fo m c0 (op # ops) c" and "op \<noteq> SetFrame" and "saves op = {}"
  shows "undoable fr fo m c0 ops (c\<lparr>rsp := rsp c + op_size op\<rparr>)"
  using undoableD [OF assms(1,2)] assms(3) by (intro undoableI) auto

lemma undoable_frame:
  assumes "well_formed_prolog fr fo (SetFrame # ops) c0" and "undoable fr fo m c0 (SetFrame # ops) c"
  shows "undoable fr fo m c0 ops (c\<lparr>rsp := get_register fr c - of_nat fo * 16\<rparr>)"
proof -
  have fr: "Register fr" "fr \<in> \<Union> (saves ` set ops)" "SetFrame \<notin> set ops" using assms(1) by auto
  have "get_register fr c = rsp (prolog_context fr fo ops c0) + of_nat fo * 16"
    using assms(2) fr(1) by (simp add: undoable_def op_context_def get_set_register)
  then have "get_register fr c - of_nat fo * 16 = rsp (prolog_context fr fo ops c0)" by simp
  moreover have "\<forall>r. Register r \<longrightarrow> r \<notin> \<Union> (saves ` set ops) \<longrightarrow> get_register r c = get_register r c0"
    "\<forall>(a, r) \<in> set (prolog_slots fr fo ops c0). read64 m a = Some (get_register r c0)"
    using assms(2) by (simp_all add: undoable_def)
  ultimately show ?thesis using fr(3) by (intro undoableI) auto
qed

lemma rsp_same: "c\<lparr>rsp := rsp c\<rparr> = (c :: ctx)"
  by simp

lemma undo_step:
  assumes wf: "well_formed_prolog fr fo (op # ops) c0" and u: "undoable fr fo m c0 (op # ops) c"
  obtains c' where "undo fr fo m op c = Some c'" and "undoable fr fo m c0 ops c'" and "rip c' = rip c"
proof (cases "op = SetFrame")
  case True
  with undoable_frame [of fr fo ops c0 m c] wf u that show ?thesis by simp
next
  case ne: False
  note rsp_c = undoableD(1) [OF u ne]
  show ?thesis
  proof (cases "saves op = {}")
    case True
    then have "undo fr fo m op c = Some (c\<lparr>rsp := rsp c + op_size op\<rparr>)" using ne by (cases op) simp_all
    with undoable_allocate [OF u ne True] that show ?thesis by simp
  next
    case False
    then obtain a r where slot: "op_slot op (prolog_context fr fo ops c0) = [(a, r)]" "saves op = {r}"
      using ne by (cases op) auto
    note restore = undoable_restore [OF wf u slot]
    have "undo fr fo m op c = Some ((set_register r (get_register r c0) c)\<lparr>rsp := rsp (prolog_context fr fo ops c0)\<rparr>)"
      using slot rsp_c restore(1) ne rsp_same [of "set_register r (get_register r c0) c"] by (cases op) auto
    with restore(2) that show ?thesis by simp
  qed
qed

lemma undo_all_restores:
  assumes "well_formed_prolog fr fo ops c0" and "undoable fr fo m c0 ops c"
  shows "undo_all fr fo m ops c = Some (c0\<lparr>rip := rip c\<rparr>)"
  using assms
proof (induction ops arbitrary: c)
  case Nil
  then show ?case by (simp add: undoable_def) (rule ctx_eqI; simp add: get_register_def)
next
  case (Cons op ops)
  then obtain c' where "undo fr fo m op c = Some c'" "undoable fr fo m c0 ops c'" "rip c' = rip c"
    by (elim undo_step)
  with Cons show ?case by simp
qed

section \<open>What a prolog leaves behind\<close>

lemma op_slot_saves: "(a, r) \<in> set (op_slot op c) \<Longrightarrow> saves op = {r} \<and> op \<noteq> SetFrame"
  by (cases op) auto

lemma op_slot_cases: "op_slot op c = [] \<or> (\<exists>a r. op_slot op c = [(a, r)])"
  by (cases op) auto

lemma prolog_registers:
  assumes "well_formed_prolog fr fo ops c0" and "Register q" and "SetFrame \<in> set ops \<Longrightarrow> q \<noteq> fr"
  shows "get_register q (prolog_context fr fo ops c0) = get_register q c0"
  using assms
proof (induction ops)
  case (Cons op ops)
  then have "Register fr" if "op = SetFrame" using that by simp
  with Cons show ?case by (cases "op = SetFrame") (auto simp: op_context_def get_set_register)
qed simp

lemma prolog_slots_room:
  assumes "well_formed_prolog fr fo ops c0" and "(a, r) \<in> set (prolog_slots fr fo ops c0)"
  shows "unat a + 8 \<le> 2 ^ 64 \<and> r \<in> \<Union> (saves ` set ops)"
  using assms by (induction ops) (auto dest: op_slot_saves)

lemma well_formed_entry: "well_formed_prolog fr fo ops c0 \<Longrightarrow> unat (rsp c0) + 8 < 2 ^ 64"
  by (induction ops) auto

text \<open>Every slot of the prolog holds the value its register had on entry.\<close>

lemma prolog_memory_slots:
  assumes "well_formed_prolog fr fo ops c0" and "(b, q) \<in> set (prolog_slots fr fo ops c0)"
  shows "read64 (prolog_memory fr fo ops c0 m) b = Some (get_register q c0)"
  using assms
proof (induction ops)
  case (Cons op ops)
  then have wf: "well_formed_prolog fr fo ops c0" by simp
  let ?c = "prolog_context fr fo ops c0"
  show ?case
  proof (cases "op_slot op ?c = []")
    case True
    with Cons.IH [OF wf] Cons.prems(2) show ?thesis by simp
  next
    case False
    then obtain a r where slot: "op_slot op ?c = [(a, r)]" using op_slot_cases [of op ?c] by auto
    then have saves: "saves op = {r}" by (metis op_slot_saves list.set_intros(1))
    with Cons.prems(1) have r: "Register r" "r \<notin> \<Union> (saves ` set ops)" by auto
    have room: "unat a + 8 \<le> 2 ^ 64" "\<forall>(b, q) \<in> set (prolog_slots fr fo ops c0). apart a b"
      using Cons.prems(1) slot by auto
    show ?thesis
    proof (cases "(b, q) \<in> set (prolog_slots fr fo ops c0)")
      case True
      with room have "apart a b" "unat b + 8 \<le> 2 ^ 64" using prolog_slots_room [OF wf] by auto
      with room(1) Cons.IH [OF wf True] show ?thesis by (simp add: slot read64_write64_apart)
    next
      case False
      with Cons.prems(2) slot have "b = a" "q = r" by auto
      moreover have "get_register r ?c = get_register r c0"
        using well_formed_frame [OF wf] r by (intro prolog_registers [OF wf]) auto
      ultimately show ?thesis by (simp add: slot read64_write64)
    qed
  qed
qed simp

lemma prolog_memory_return:
  assumes "well_formed_prolog fr fo ops c0"
  shows "read64 (prolog_memory fr fo ops c0 m) (rsp c0) = read64 m (rsp c0)"
  using assms
proof (induction ops)
  case (Cons op ops)
  let ?c = "prolog_context fr fo ops c0"
  have wf: "well_formed_prolog fr fo ops c0" and room: "unat (rsp c0) + 8 \<le> 2 ^ 64"
    using Cons.prems well_formed_entry [OF Cons.prems] by simp_all
  show ?case
  proof (cases "op_slot op ?c = []")
    case True
    with Cons.IH [OF wf] show ?thesis by simp
  next
    case False
    then obtain a r where slot: "op_slot op ?c = [(a, r)]" using op_slot_cases [of op ?c] by auto
    with Cons.prems have "apart a (rsp c0)" "unat a + 8 \<le> 2 ^ 64" by auto
    with Cons.IH [OF wf] room show ?thesis by (simp add: slot read64_write64_apart)
  qed
qed simp

text \<open>The body of the function keeps what the calling convention asks of it: the registers that the prolog
  did not save, the frame register, the stack pointer unless the frame register was set last, the slots
  and the return address.\<close>

definition body :: "nat \<Rightarrow> nat \<Rightarrow> prolog_op list \<Rightarrow> ctx \<Rightarrow> ctx \<Rightarrow> memory \<Rightarrow> ctx \<Rightarrow> memory \<Rightarrow> bool" where
  "body fr fo ops c0 c m c' m' \<longleftrightarrow>
     (rsp c' = rsp c \<or> (\<exists>ops'. ops = SetFrame # ops')) \<and>
     (SetFrame \<in> set ops \<longrightarrow> get_register fr c' = get_register fr c) \<and>
     (\<forall>r. Register r \<longrightarrow> r \<notin> \<Union> (saves ` set ops) \<longrightarrow> get_register r c' = get_register r c) \<and>
     (\<forall>(a, r) \<in> set (prolog_slots fr fo ops c0). read64 m' a = read64 m a) \<and>
     read64 m' (rsp c0) = read64 m (rsp c0)"

lemma body_refl: "body fr fo ops c0 c m c m"
  by (auto simp: body_def)

lemma body_undoable:
  assumes wf: "well_formed_prolog fr fo ops c0"
    and "body fr fo ops c0 (prolog_context fr fo ops c0) (prolog_memory fr fo ops c0 m0) c m"
  shows "undoable fr fo m c0 ops c"
proof -
  have "get_register r (prolog_context fr fo ops c0) = get_register r c0"
    if "Register r" "r \<notin> \<Union> (saves ` set ops)" for r
    using well_formed_frame [OF wf] that by (intro prolog_registers [OF wf]) auto
  with assms(2) prolog_memory_slots [OF wf, of _ _ m0] show ?thesis
    unfolding undoable_def body_def by fastforce
qed

section \<open>The codes of a prolog\<close>

fun encode_prolog :: "(u8 \<times> prolog_op) list \<Rightarrow> slot list" where
  "encode_prolog [] = []"
| "encode_prolog ((at, op) # ops) = encode_op at op @ encode_prolog ops"

fun encodable :: "prolog_op \<Rightarrow> bool" where
  "encodable (Push r) = Register r"
| "encodable (AllocSmall k) = (k < 16)"
| "encodable (Save r v) = Register r"
| "encodable (SaveFar r v) = Register r"
| "encodable op = True"

definition holds_codes :: "memory \<Rightarrow> u64 \<Rightarrow> slot list \<Rightarrow> bool" where
  "holds_codes m codes xs \<longleftrightarrow> (\<forall>i < length xs. code_at m codes i = Some (xs ! i))"

lemma Operation_op_code:
  assumes "op < 16" and "info < 16"
  shows "Operation (at, op_code op info) = op" and "OperationInfo (at, op_code op info) = info"
proof -
  have n: "op + 16 * info < 2 ^ 8" using assms by simp
  then have u: "unat (op_code op info) = op + 16 * info"
    unfolding op_code_def by (intro unat_of_nat_small) simp
  have "unat (op_code op info AND 0x0F) = take_bit 4 (unat (op_code op info))"
    unfolding unsigned_take_bit_eq [symmetric] by (simp add: take_bit_eq_mask mask_eq_exp_minus_1)
  with u assms(1) show "Operation (at, op_code op info) = op"
    by (simp add: Operation_def take_bit_eq_mod)
  have "unat (drop_bit 4 (op_code op info)) = unat (op_code op info) div 16"
    by (simp add: unat_drop_bit_eq) (simp add: drop_bit_eq_div)
  with u assms show "OperationInfo (at, op_code op info) = info" by (simp add: OperationInfo_def)
qed

lemma decode16: "(ucast (fst (encode16 v)) OR push_bit 8 (ucast (snd (encode16 v))) :: u16) = v"
  by (rule bit_word_eqI) (auto simp: encode16_def bit_or_iff bit_push_bit_iff bit_ucast_iff bit_drop_bit_eq)

lemma decode32: "(ucast (ucast v :: u16) OR push_bit 16 (ucast (ucast (drop_bit 16 v) :: u16)) :: u32) = v"
  by (rule bit_word_eqI) (auto simp: bit_or_iff bit_push_bit_iff bit_ucast_iff bit_drop_bit_eq)

lemma ReadUint16_encode:
  "code_at m codes i = Some (encode16 v) \<Longrightarrow> ReadUint16 m codes i = Some v"
  by (simp add: ReadUint16_def decode16)

lemma ReadUint32_encode:
  "code_at m codes i = Some (encode16 (ucast v)) \<Longrightarrow>
   code_at m codes (Suc i) = Some (encode16 (ucast (drop_bit 16 v))) \<Longrightarrow> ReadUint32 m codes i = Some v"
  by (simp add: ReadUint32_def ReadUint16_encode decode32)

section \<open>Walking the codes\<close>

definition executed :: "nat option \<Rightarrow> (u8 \<times> prolog_op) list \<Rightarrow> prolog_op list" where
  "executed prolog ops =
     map snd (filter (\<lambda>(at, op). case prolog of None \<Rightarrow> True | Some offset \<Rightarrow> unat at \<le> offset) ops)"

lemma Register_less_16: "Register r \<Longrightarrow> r < 16"
  by (auto simp: Register_def)

lemma encode_op_slots:
  "encodable op \<Longrightarrow> \<exists>code rest. encode_op at op = code # rest \<and> fst code = at \<and>
     OperationSlotCount code = Suc (length rest)"
  by (cases op) (auto simp: OperationSlotCount_def Operation_op_code Register_less_16)

lemma unwind_code_encoded:
  assumes "encodable op" and "m (header + 3) = Some (op_code fr fo)" and "op = SetFrame \<Longrightarrow> Register fr"
    and "fr < 16" and "fo < 16"
    and "\<And>k. k < length (encode_op at op) \<Longrightarrow> code_at m codes (i + k) = Some (encode_op at op ! k)"
    and "i + length (encode_op at op) \<le> n"
  shows "unwind_code m header codes n i (hd (encode_op at op)) c =
    map_option (\<lambda>c. Inr (c, length (encode_op at op))) (undo fr fo m op c)"
proof -
  have frame: "unat (op_code fr fo AND 0x0F) = fr" "unat (drop_bit 4 (op_code fr fo)) = fo"
    using Operation_op_code [OF assms(4,5)]
    by (simp_all add: Operation_def OperationInfo_def)
  show ?thesis
  proof (cases op)
    case (Push r)
    with assms(1) show ?thesis
      by (cases "read64 m (rsp c)") (simp_all add: unwind_code_def unwind_push_def Operation_op_code Register_less_16)
  next
    case (AllocSmall k)
    with assms(1) show ?thesis
      by (simp add: unwind_code_def unwind_alloc_small_def Operation_op_code)
  next
    case (AllocLarge v)
    with assms(6) [of 1] assms(7) show ?thesis
      by (simp add: unwind_code_def unwind_alloc_large_def Operation_op_code ReadUint16_encode)
  next
    case (AllocHuge v)
    with assms(6) [of 1] assms(6) [of 2] assms(7) show ?thesis
      by (simp add: unwind_code_def unwind_alloc_large_def Operation_op_code ReadUint32_encode)
  next
    case SetFrame
    with assms(2,3) frame show ?thesis
      by (simp add: unwind_code_def unwind_frame_pointer_def Operation_op_code)
  next
    case (Save r v)
    with assms(1) assms(6) [of 1] assms(7) show ?thesis
      by (cases "read64 m (rsp c + ucast v * 8)")
        (simp_all add: unwind_code_def unwind_save_def Operation_op_code ReadUint16_encode Register_less_16)
  next
    case (SaveFar r v)
    with assms(1) assms(6) [of 1] assms(6) [of 2] assms(7) show ?thesis
      by (cases "read64 m (rsp c + ucast v)")
        (simp_all add: unwind_code_def unwind_save_far_def Operation_op_code ReadUint32_encode Register_less_16)
  qed
qed

lemma unwind_codes_undo:
  assumes "\<And>at op. (at, op) \<in> set ops \<Longrightarrow> encodable op"
    and "m (header + 3) = Some (op_code fr fo)" and "fr < 16" and "fo < 16"
    and "SetFrame \<in> set (executed prolog ops) \<Longrightarrow> Register fr"
    and "holds_codes m codes (xs @ encode_prolog ops)"
  shows "unwind_codes m header codes (length (xs @ encode_prolog ops)) prolog (length xs) c =
    map_option Inr (undo_all fr fo m (executed prolog ops) c)"
  using assms(1,6,5)
proof (induction ops arbitrary: xs c)
  case Nil
  then show ?case by (simp add: unwind_codes.simps executed_def)
next
  case (Cons p ops)
  obtain at op where p: "p = (at, op)" by fastforce
  let ?n = "length (xs @ encode_prolog (p # ops))"
  have enc: "encodable op" using Cons.prems(1) [of at op] p by simp
  then obtain code rest where code: "encode_op at op = code # rest" "fst code = at"
    "OperationSlotCount code = Suc (length rest)" using encode_op_slots by blast
  have at_k: "code_at m codes (length xs + k) = Some (encode_op at op ! k)" if "k < length (encode_op at op)" for k
    using Cons.prems(2) that p by (auto simp: holds_codes_def nth_append)
  have encs: "encodable op" if "(at, op) \<in> set ops" for at op
    using Cons.prems(1) that by (meson list.set_intros(2))
  have running: "set (executed prolog ops) \<subseteq> set (executed prolog (p # ops))" by (auto simp: executed_def)
  have IH: "unwind_codes m header codes ?n prolog (length xs + length (encode_op at op)) c' =
      map_option Inr (undo_all fr fo m (executed prolog ops) c')" for c'
    using Cons.IH [where xs = "xs @ encode_op at op" and c = c'] Cons.prems(2,3) encs running p by auto
  have first: "code_at m codes (length xs) = Some code" using at_k [of 0] code(1) by simp
  have n: "length xs < ?n" "\<not> ?n < length xs + OperationSlotCount code" using p code by simp_all
  show ?case
  proof (cases "case prolog of None \<Rightarrow> False | Some offset \<Rightarrow> unat at > offset")
    case True
    then have "executed prolog (p # ops) = executed prolog ops" by (simp add: executed_def p split: option.splits)
    moreover have "unwind_codes m header codes ?n prolog (length xs) c =
        unwind_codes m header codes ?n prolog (length xs + length (encode_op at op)) c"
      using n first True code by (subst unwind_codes.simps) (simp split: option.splits)
    ultimately show ?thesis using IH by simp
  next
    case False
    then have run: "executed prolog (p # ops) = op # executed prolog ops"
      by (auto simp: executed_def p split: option.splits)
    have un: "unwind_code m header codes ?n (length xs) code c' =
        map_option (\<lambda>c. Inr (c, length (encode_op at op))) (undo fr fo m op c')" for c'
      using unwind_code_encoded [OF enc assms(2) _ assms(3,4) at_k, of ?n] Cons.prems(3) run code(1) p by simp
    have "unwind_codes m header codes ?n prolog (length xs) c =
        (case undo fr fo m op c of None \<Rightarrow> None
         | Some c' \<Rightarrow> unwind_codes m header codes ?n prolog (length xs + length (encode_op at op)) c')"
      using n first False code(2) un [of c]
      by (subst unwind_codes.simps) (simp split: option.splits)
    then show ?thesis using IH run by (simp split: option.splits)
  qed
qed

section \<open>A frame\<close>

text \<open>\<open>describes m u f psize fr fo ops\<close>: the unwind information of the runtime function at \<open>f\<close> is that of
  the prolog \<open>ops\<close>, in which each instruction comes with the offset of the one behind it.\<close>

definition describes ::
  "memory \<Rightarrow> unwinder \<Rightarrow> u64 \<Rightarrow> u8 \<Rightarrow> nat \<Rightarrow> nat \<Rightarrow> (u8 \<times> prolog_op) list \<Rightarrow> bool" where
  "describes m u f psize fr fo ops \<longleftrightarrow>
     (case function_info m f of
        None \<Rightarrow> False
      | Some info \<Rightarrow>
          let header = ubase u + ucast info; codes = encode_prolog ops
          in info \<noteq> 0 \<and> unat info + 4 + 2 * length codes \<le> uimage_size u \<and> length codes < 256 \<and>
             m header = Some 1 \<and> m (header + 1) = Some psize \<and>
             m (header + 2) = Some (of_nat (length codes)) \<and> m (header + 3) = Some (op_code fr fo) \<and>
             holds_codes m (header + 4) codes \<and> fr < 16 \<and> fo < 16 \<and> (\<forall>(at, op) \<in> set ops. encodable op))"

definition prolog_offset :: "unwinder \<Rightarrow> u32 \<Rightarrow> u8 \<Rightarrow> u64 \<Rightarrow> nat option" where
  "prolog_offset u low psize address =
     (let offset = unat (ucast (address - ubase u) - low)
      in if offset \<le> unat psize then Some offset else None)"

lemma bind_map_Inr: "Option.bind (map_option Inr x) g = Option.bind x (\<lambda>y. g (Inr y))"
  by (cases x) simp_all

lemma unwind_info_described:
  assumes "describes m u f psize fr fo ops" and "function_begin m f = Some low"
    and "SetFrame \<in> set (executed (prolog_offset u low psize address) ops) \<Longrightarrow> Register fr"
  shows "unwind_info m u (Some (ucast (address - ubase u))) f c =
    map_option (\<lambda>c. Inr (c, None)) (undo_all fr fo m (executed (prolog_offset u low psize address) ops) c)"
proof -
  obtain info where info: "function_info m f = Some info"
    using assms(1) by (auto simp: describes_def split: option.splits)
  let ?header = "ubase u + ucast info" and ?n = "length (encode_prolog ops)"
  have d: "info \<noteq> 0" "unat info + 4 + 2 * ?n \<le> uimage_size u" "?n < 256" "m ?header = Some 1"
    "m (?header + 1) = Some psize" "m (?header + 2) = Some (of_nat ?n)" "m (?header + 3) = Some (op_code fr fo)"
    "holds_codes m (?header + 4) (encode_prolog ops)" "fr < 16" "fo < 16" "\<forall>(at, op) \<in> set ops. encodable op"
    using assms(1) by (simp_all add: describes_def info Let_def)
  have n: "unat (of_nat ?n :: u8) = ?n" using d(3) by (intro unat_of_nat_small) simp
  have walk: "unwind_codes m ?header (?header + 4) ?n (prolog_offset u low psize address) 0 c =
      map_option Inr (undo_all fr fo m (executed (prolog_offset u low psize address) ops) c)"
    using unwind_codes_undo [where xs = "[]" and ops = ops and m = m and header = ?header and fr = fr and
        fo = fo and codes = "?header + 4" and prolog = "prolog_offset u low psize address" and c = c]
      d(7-11) assms(3) by auto
  have "RangeValid (unat info + 4) (2 * ?n) (uimage_size u)" "\<not> uimage_size u \<le> unat info"
    using d(2) by (auto simp: RangeValid_def)
  then show ?thesis
    using d(1,4,5,6) walk unfolding unwind_info_def
    by (simp add: info n assms(2) prolog_offset_def Let_def bind_map_Inr map_conv_bind_option comp_def)
qed

text \<open>C9: \<open>VirtualUnwind\<close> undoes a prolog. Let a function be entered with the registers \<open>c0\<close> and the return
  address \<open>ret\<close> on the stack, let the instructions of its prolog that end at or before the current offset
  have been executed (all of them behind the prolog, where the body may also have run, within the calling
  convention), and let the image hold the unwind information of that prolog: its codes, last instruction
  first, for pushes, allocations of each of the three sizes, the frame register and saves near and far.
  Then the frame found is the caller's: the instruction pointer is \<open>ret\<close>, the stack pointer the one behind
  the return address, and every nonvolatile register has its value on entry.\<close>

theorem VirtualUnwind_restores:
  assumes "describes m u f psize fr fo ops" and "function_begin m f = Some low"
    and "running = executed (prolog_offset u low psize (rip c)) ops"
    and "LookupRuntimeFunction m u (rip c) = Some f" and "f \<noteq> 0"
    and "unwinder_Valid u" and "unwinder_Contains u (rip c)" and "rip c \<noteq> 0" and "rsp c \<noteq> 0"
    and "well_formed_prolog fr fo running c0" and "read64 m0 (rsp c0) = Some ret" and "rsp c \<le> rsp c0"
    and "body fr fo running c0 (prolog_context fr fo running c0) (prolog_memory fr fo running c0 m0) c m"
  shows "VirtualUnwind m u c =
    Some (Inr \<lparr>caller = c0\<lparr>rip := ret, rsp := rsp c0 + 8\<rparr>, return_slot = rsp c0\<rparr>)"
proof -
  have frame: "SetFrame \<in> set running \<Longrightarrow> Register fr" using well_formed_frame [OF assms(10)] by blast
  have "undo_all fr fo m running c = Some (c0\<lparr>rip := rip c\<rparr>)"
    using undo_all_restores [OF assms(10) body_undoable [OF assms(10,13)]] .
  with frame unwind_info_described [OF assms(1,2), of "rip c" c] assms(3)
  have "unwind_chain m u (Some (ucast (rip c - ubase u))) f c = Some (Inr (c0\<lparr>rip := rip c\<rparr>))"
    by (subst unwind_chain.simps) simp
  moreover have "read64 m (rsp c0) = Some ret"
    using assms(11,13) prolog_memory_return [OF assms(10), of m0] by (simp add: body_def)
  moreover have "\<not> rsp c0 + 8 \<le> rsp c"
  proof -
    have "unat (rsp c0 + 8) = unat (rsp c0) + 8"
      using unat_add_small [of "rsp c0" 8] well_formed_entry [OF assms(10)] by simp
    with assms(12) show ?thesis by (simp add: word_le_nat_alt)
  qed
  ultimately show ?thesis using assms(4-9) by (simp add: VirtualUnwind_def pop_return_def)
qed

section \<open>An image with one function\<close>

definition frame_codes :: "(u8 \<times> prolog_op) list" where
  "frame_codes = [(9, SetFrame), (5, AllocSmall 3), (1, Push 5)]"

text \<open>An image with the function, its unwind information, and the stack with the return address.\<close>

definition frame_image :: memory where
  "frame_image = bytes_at 0x8000 [0x34, 0x12, 0, 0, 0, 0, 0, 0]
     (bytes_at 0x10100 [0x40, 0, 0, 0, 0x80, 0, 0, 0, 0x80, 1, 0, 0]
       (bytes_at 0x10180 [1, 9, 3, 0x25, 9, 3, 5, 0x32, 1, 0x50] Map.empty))"

definition frame_unwinder :: unwinder where
  "frame_unwinder = \<lparr>ubase = 0x10000, uimage_size = 0x200, ufunctions = 0x10100, ucount = 1\<rparr>"

definition frame_entry :: ctx where
  "frame_entry = \<lparr>rip = 0x10040, rsp = 0x8000, rbx = 3, rbp = 0x77, rsi = 6, rdi = 7,
     r12 = 12, r13 = 13, r14 = 14, r15 = 15\<rparr>"

definition frame_memory :: memory where
  "frame_memory = prolog_memory 5 2 (map snd frame_codes) frame_entry frame_image"

definition frame_stop :: ctx where
  "frame_stop = (prolog_context 5 2 (map snd frame_codes) frame_entry)\<lparr>rip := 0x10050, rsp := 0x7000\<rparr>"

lemma frame_memory_at: "frame_memory = write64 frame_image 0x7FF8 0x77"
  by (simp add: frame_memory_def frame_codes_def frame_entry_def get_register_def)

lemmas frame_reads = frame_memory_at frame_image_def bytes_at_def write64_def byte_of_def

lemma frame_cells:
  "frame_memory 0x10100 = Some 0x40" "frame_memory 0x10101 = Some 0" "frame_memory 0x10102 = Some 0" "frame_memory 0x10103 = Some 0"
  "frame_memory 0x10104 = Some 0x80" "frame_memory 0x10105 = Some 0" "frame_memory 0x10106 = Some 0" "frame_memory 0x10107 = Some 0"
  "frame_memory 0x10108 = Some 0x80" "frame_memory 0x10109 = Some 1" "frame_memory 0x1010A = Some 0" "frame_memory 0x1010B = Some 0"
  by (simp_all add: frame_reads)

lemma frame_info_cells:
  "frame_memory 0x10180 = Some 1" "frame_memory 0x10181 = Some 9" "frame_memory 0x10182 = Some 3" "frame_memory 0x10183 = Some 0x25"
  "frame_memory 0x10184 = Some 9" "frame_memory 0x10185 = Some 3" "frame_memory 0x10186 = Some 5" "frame_memory 0x10187 = Some 0x32"
  "frame_memory 0x10188 = Some 1" "frame_memory 0x10189 = Some 0x50"
  by (simp_all add: frame_reads)

lemma frame_words: "function_begin frame_memory 0x10100 = Some 0x40" "function_end frame_memory 0x10100 = Some 0x80"
  "function_info frame_memory 0x10100 = Some 0x180"
  by (simp_all add: function_begin_def function_end_def function_info_def read32_def read16_def frame_cells word_cat_eq)

lemma frame_described: "describes frame_memory frame_unwinder 0x10100 9 5 2 frame_codes" 
  by (simp add: describes_def frame_words frame_unwinder_def frame_info_cells frame_codes_def op_code_def
     holds_codes_def All_less_Suc code_at_def nth_Cons' Register_def)

theorem VirtualUnwind_restores_witness:
  "VirtualUnwind frame_memory frame_unwinder frame_stop =
    Some (Inr \<lparr>caller = frame_entry\<lparr>rip := 0x1234, rsp := 0x8008\<rparr>, return_slot = 0x8000\<rparr>)"
proof -
  have stop: "rip frame_stop = 0x10050" "rsp frame_stop = 0x7000" "rsp frame_entry = 0x8000"
    by (simp_all add: frame_stop_def frame_entry_def)
  have "map snd frame_codes = executed (prolog_offset frame_unwinder 0x40 9 (rip frame_stop)) frame_codes"
    by (simp add: stop executed_def prolog_offset_def frame_unwinder_def frame_codes_def)
  moreover have "LookupRuntimeFunction frame_memory frame_unwinder (rip frame_stop) = Some 0x10100"
    by (simp add: stop LookupRuntimeFunction_def lookup_loop.simps frame_words unwinder_Valid_def
        unwinder_Contains_def frame_unwinder_def)
  moreover have "unwinder_Valid frame_unwinder" "unwinder_Contains frame_unwinder (rip frame_stop)"
    by (simp_all add: stop unwinder_Valid_def unwinder_Contains_def frame_unwinder_def)
  moreover have "well_formed_prolog 5 2 (map snd frame_codes) frame_entry"
    by (simp add: frame_codes_def frame_entry_def apart_def Register_def)
  moreover have "read64 frame_image (rsp frame_entry) = Some 0x1234"
    by (simp add: stop read64_def read32_def read16_def frame_image_def bytes_at_def word_cat_eq)
  moreover have "body 5 2 (map snd frame_codes) frame_entry (prolog_context 5 2 (map snd frame_codes) frame_entry)
      (prolog_memory 5 2 (map snd frame_codes) frame_entry frame_image) frame_stop frame_memory"
    by (simp add: body_def frame_codes_def frame_stop_def frame_memory_def get_register_def)
  ultimately show ?thesis
    using VirtualUnwind_restores [OF frame_described frame_words(1), of "map snd frame_codes" frame_stop
        frame_entry frame_image "0x1234"]
    by (simp add: stop)
qed

section \<open>Progress\<close>

text \<open>A walk over a stack: the first \<open>n\<close> frames, each unwound from the caller of the one before it, up to the first
  that \<open>VirtualUnwind\<close> does not give.\<close>

primrec unwind_walk :: "memory \<Rightarrow> unwinder \<Rightarrow> nat \<Rightarrow> ctx \<Rightarrow> frame list" where
  "unwind_walk m u 0 c = []"
| "unwind_walk m u (Suc n) c =
     (case VirtualUnwind m u c of Some (Inr fr) \<Rightarrow> fr # unwind_walk m u n (caller fr) | _ \<Rightarrow> [])"

text \<open>Eight bytes that can be read do not lie across the end of the addresses when address 0 cannot be read.\<close>

lemma read64_below_end:
  assumes "m 0 = None" and "read64 m p = Some v" and "p \<noteq> 0"
  shows "p - 1 < p + 7"
proof -
  have readable: "p + of_nat k \<noteq> 0" if "k < 8" for k
  proof -
    have "k \<in> {0, 1, 2, 3, 4, 5, 6, 7}" using that by auto
    then show ?thesis using assms(1,2)
      by (auto simp: read64_def read32_def read16_def add.assoc split: Option.bind_splits)
  qed
  have "unat p + 7 < 2 ^ 64"
  proof (rule ccontr)
    assume "\<not> unat p + 7 < 2 ^ 64"
    moreover have "unat p < 2 ^ 64" using unat_lt2p [of p] by simp
    ultimately have "2 ^ 64 - unat p < 8" by linarith
    moreover have "p + of_nat (2 ^ 64 - unat p) = 0"
      using \<open>unat p < 2 ^ 64\<close> by (simp add: of_nat_diff word_eq_iff_unsigned)
    ultimately show False using readable by blast
  qed
  then have "unat (p + 7) = unat p + 7" using unat_add_small [of p 7] by simp
  moreover have "unat (p - 1) = unat p - 1" using assms(3) by (simp add: unat_minus_one)
  moreover have "0 < unat p" using assms(3) by (simp add: unat_gt_0)
  ultimately show ?thesis by (simp add: word_less_nat_alt)
qed

lemma VirtualUnwind_step:
  assumes "m 0 = None" and "VirtualUnwind m u c = Some (Inr fr)"
  shows "rsp c - 1 < rsp (caller fr) - 1" and "rsp (caller fr) = return_slot fr + 8"
    and "read64 m (return_slot fr) = Some (rip (caller fr))"
proof -
  have sp: "rsp c \<noteq> 0" using assms(2) by (auto simp: VirtualUnwind_def split: if_splits)
  show popped: "rsp (caller fr) = return_slot fr + 8" "read64 m (return_slot fr) = Some (rip (caller fr))"
    using assms(2)
    by (auto simp: VirtualUnwind_def pop_return_def split: option.splits sum.splits Option.bind_splits if_splits)
  have "rsp c < rsp (caller fr) \<or> return_slot fr = rsp c"
    using assms(2)
    by (auto simp: VirtualUnwind_def pop_return_def split: option.splits sum.splits Option.bind_splits if_splits)
  then show "rsp c - 1 < rsp (caller fr) - 1"
  proof
    assume "rsp c < rsp (caller fr)"
    moreover from this have "rsp (caller fr) \<noteq> 0" by auto
    moreover have "0 < unat (rsp c)" using sp by (simp add: unat_gt_0)
    ultimately show ?thesis using sp by (simp add: word_less_nat_alt unat_minus_one)
  next
    assume "return_slot fr = rsp c"
    with popped read64_below_end [where m = m and p = "rsp c", OF assms(1) _ sp] show ?thesis by (simp add: add_diff_eq [symmetric])
  qed
qed

text \<open>C38: no stack is walked forever. In a memory whose address 0 cannot be read, each frame of a walk takes its
  return address from the slot below its stack pointer, and the byte below the stack pointer, the last one taken
  off the stack, has a strictly higher address from frame to frame, also where a stack ends with the address
  space. A walk therefore has fewer frames than there are addresses from the stack pointer on.\<close>

theorem VirtualUnwind_progress:
  assumes "m 0 = None"
  shows "sorted_wrt (<) ((rsp c - 1) # map (\<lambda>fr. rsp (caller fr) - 1) (unwind_walk m u n c)) \<and>
    unat (rsp c - 1) + length (unwind_walk m u n c) < 2 ^ 64 \<and>
    (\<forall>fr \<in> set (unwind_walk m u n c).
       rsp (caller fr) = return_slot fr + 8 \<and> read64 m (return_slot fr) = Some (rip (caller fr)))"
proof (induction n arbitrary: c)
  case 0
  then show ?case using unat_lt2p [of "rsp c - 1"] by simp
next
  case (Suc n)
  show ?case
  proof (cases "\<exists>fr. VirtualUnwind m u c = Some (Inr fr)")
    case True
    then obtain fr where fr: "VirtualUnwind m u c = Some (Inr fr)" by blast
    note step = VirtualUnwind_step [OF assms fr]
    have "unat (rsp c - 1) < unat (rsp (caller fr) - 1)" using step(1) by (simp add: word_less_nat_alt)
    then show ?thesis using Suc.IH [of "caller fr"] step fr by (auto intro: order.strict_trans)
  next
    case False
    then have "unwind_walk m u (Suc n) c = []" by (auto split: option.splits sum.splits)
    then show ?thesis using unat_lt2p [of "rsp c - 1"] by simp
  qed
qed

text \<open>A stack with two return addresses, the first into the image and outside its one function.\<close>

definition walked_image :: memory where
  "walked_image = bytes_at 0x8000 [0x20, 0, 1, 0, 0, 0, 0, 0, 0x34, 0x12, 0, 0, 0, 0, 0, 0]
     (bytes_at 0x10100 [0x40, 0, 0, 0, 0x80, 0, 0, 0, 0x80, 1, 0, 0] Map.empty)"

lemma walked_words: "function_begin walked_image 0x10100 = Some 0x40" "function_end walked_image 0x10100 = Some 0x80"
  "read64 walked_image 0x8000 = Some 0x10020" "read64 walked_image 0x8008 = Some 0x1234"
  by (simp_all add: function_begin_def function_end_def read64_def read32_def read16_def walked_image_def
      bytes_at_def word_cat_eq)

lemma walked_frames:
  "VirtualUnwind walked_image frame_unwinder (frame_entry\<lparr>rip := 0x10010\<rparr>) =
    Some (Inr \<lparr>caller = frame_entry\<lparr>rip := 0x10020, rsp := 0x8008\<rparr>, return_slot = 0x8000\<rparr>)"
  "VirtualUnwind walked_image frame_unwinder (frame_entry\<lparr>rip := 0x10020, rsp := 0x8008\<rparr>) =
    Some (Inr \<lparr>caller = frame_entry\<lparr>rip := 0x1234, rsp := 0x8010\<rparr>, return_slot = 0x8008\<rparr>)"
  "VirtualUnwind walked_image frame_unwinder (frame_entry\<lparr>rip := 0x1234, rsp := 0x8010\<rparr>) = Some (Inl InvalidContext)"
  by (simp_all add: VirtualUnwind_def pop_return_def frame_entry_def unwinder_Valid_def
      unwinder_Contains_def frame_unwinder_def LookupRuntimeFunction_def lookup_loop.simps walked_words)

theorem VirtualUnwind_progress_witness:
  "map (rsp \<circ> caller) (unwind_walk walked_image frame_unwinder 3 (frame_entry\<lparr>rip := 0x10010\<rparr>)) = [0x8008, 0x8010] \<and>
   sorted_wrt (<) ((rsp frame_entry - 1) #
     map (\<lambda>fr. rsp (caller fr) - 1) (unwind_walk walked_image frame_unwinder 3 (frame_entry\<lparr>rip := 0x10010\<rparr>)))"
proof -
  have "walked_image 0 = None" by (simp add: walked_image_def bytes_at_def)
  from VirtualUnwind_progress [where m = walked_image and c = "frame_entry\<lparr>rip := 0x10010\<rparr>" and u = frame_unwinder and n = 3, OF this] show ?thesis
    unfolding numeral_3_eq_3 by (simp add: walked_frames)
qed

section \<open>A chain without an end\<close>

text \<open>A runtime function whose unwind information, without codes, is chained to the function entry behind it,
  which names the same information again.\<close>

definition chained_image :: memory where
  "chained_image = bytes_at 0x10100 [0x40, 0, 0, 0, 0x80, 0, 0, 0, 0x80, 1, 0, 0]
     (bytes_at 0x10180 [0x21, 0, 0, 0, 0, 0, 0, 0, 0, 0, 0, 0, 0x80, 1, 0, 0] Map.empty)"

lemma chained_words:
  "function_begin chained_image 0x10100 = Some 0x40" "function_end chained_image 0x10100 = Some 0x80"
  "function_info chained_image 0x10100 = Some 0x180" "function_info chained_image 0x10184 = Some 0x180"
  by (simp_all add: function_begin_def function_end_def function_info_def read32_def read16_def
      chained_image_def bytes_at_def word_cat_eq)

lemma chained_info:
  assumes "f = 0x10100 \<or> f = 0x10184 \<and> first = None"
  shows "unwind_info chained_image frame_unwinder first f c = Some (Inr (c, Some 0x10184))"
proof -
  have cells: "chained_image 0x10180 = Some 0x21" "chained_image 0x10181 = Some 0" "chained_image 0x10182 = Some 0"
    by (simp_all add: chained_image_def bytes_at_def)
  show ?thesis
    using assms by (auto simp: unwind_info_def chained_words cells frame_unwinder_def RangeValid_def
      unwind_codes.simps AlignedCodeCount_def Let_def split: option.splits)
qed

lemma chained_never_returns:
  assumes "f = 0x10100 \<or> f = 0x10184 \<and> first = None"
  shows "unwind_chain chained_image frame_unwinder first f c = None"
proof -
  have "\<not> (m = chained_image \<and> u = frame_unwinder \<and> (f = 0x10100 \<or> f = 0x10184 \<and> first = None))"
    if "unwind_chain m u first f c = Some r" for m u first f c r
  proof (rule unwind_chain.raw_induct [OF _ that])
    fix chain :: "memory \<Rightarrow> unwinder \<Rightarrow> u32 option \<Rightarrow> u64 \<Rightarrow> ctx \<Rightarrow> (unwind_error + ctx) option"
      and m u first f c r
    assume IH: "\<And>m u first f c r. chain m u first f c = Some r \<Longrightarrow>
        \<not> (m = chained_image \<and> u = frame_unwinder \<and> (f = 0x10100 \<or> f = 0x10184 \<and> first = None))"
      and step: "Option.bind (unwind_info m u first f c) (\<lambda>r.
          case r of Inl e \<Rightarrow> Some (Inl e) | Inr (c, None) \<Rightarrow> Some (Inr c)
          | Inr (c, Some f) \<Rightarrow> chain m u None f c) = Some r"
    show "\<not> (m = chained_image \<and> u = frame_unwinder \<and> (f = 0x10100 \<or> f = 0x10184 \<and> first = None))"
    proof
      assume a: "m = chained_image \<and> u = frame_unwinder \<and> (f = 0x10100 \<or> f = 0x10184 \<and> first = None)"
      with step chained_info [of f first c] have "chain chained_image frame_unwinder None 0x10184 c = Some r"
        by simp
      with IH show False by blast
    qed
  qed
  with assms show ?thesis by (cases "unwind_chain chained_image frame_unwinder first f c") blast+
qed

text \<open>C39: a chain of unwind information that names itself makes \<open>VirtualUnwind\<close> loop for ever: every pass
  of its loop succeeds, with reads of the image only, and goes on with the same chained entry.\<close>

theorem VirtualUnwind_never_returns:
  "LookupRuntimeFunction chained_image frame_unwinder (rip frame_stop) = Some 0x10100 \<and>
   unwind_info chained_image frame_unwinder (Some 0x50) 0x10100 frame_stop = Some (Inr (frame_stop, Some 0x10184)) \<and>
   unwind_info chained_image frame_unwinder None 0x10184 frame_stop = Some (Inr (frame_stop, Some 0x10184)) \<and>
   VirtualUnwind chained_image frame_unwinder frame_stop = None"
proof -
  have stop: "rip frame_stop = 0x10050" "rsp frame_stop = 0x7000"
    by (simp_all add: frame_stop_def)
  have lookup: "LookupRuntimeFunction chained_image frame_unwinder (rip frame_stop) = Some 0x10100"
    by (simp add: stop LookupRuntimeFunction_def lookup_loop.simps chained_words unwinder_Valid_def
        unwinder_Contains_def frame_unwinder_def)
  moreover have "unwinder_Valid frame_unwinder" "unwinder_Contains frame_unwinder (rip frame_stop)"
    by (simp_all add: stop unwinder_Valid_def unwinder_Contains_def frame_unwinder_def)
  then have "VirtualUnwind chained_image frame_unwinder frame_stop = None"
    using lookup stop chained_never_returns [of "0x10100"] by (simp add: VirtualUnwind_def)
  ultimately show ?thesis using chained_info by simp
qed

end
