(* ===== verification/TextFormat.thy ===== *)
theory TextFormat
  imports Sinks Utf
begin

unbundle bit_operations_syntax

text \<open>
  Formatting of text (\<^verbatim>\<open>IO/Text/Format.hpp\<close>): the specification of a field and its parser, the formatters, and
  \<open>VPrint\<close>, \<open>Print\<close> and \<open>Format\<close> over a format text. A text is the list of its bytes, a formatter writes to
  the sink \<open>w\<close>, whose state is threaded; what \<open>FormatString\<close> checks at compile time is a function as well.
  The formatter of floating-point numbers is not modelled.
\<close>

section \<open>Specifications\<close>

datatype alignment = DefaultAlign | LeftAlign | RightAlign | CenterAlign

datatype sign_mode = NegativeOnly | AlwaysSign | SpaceSign

record format_spec =
  sp_fill :: byte
  sp_align :: alignment
  sp_sign :: sign_mode
  sp_width :: nat
  sp_precision :: nat
  sp_presentation :: byte
  sp_alternate :: bool
  sp_zero :: bool
  sp_upper :: bool
  sp_debug :: bool

definition no_precision :: nat where "no_precision = 2 ^ 64 - 1"

definition default_spec :: format_spec where
  "default_spec = \<lparr>sp_fill = 32, sp_align = DefaultAlign, sp_sign = NegativeOnly, sp_width = 0,
     sp_precision = no_precision, sp_presentation = 0, sp_alternate = False, sp_zero = False, sp_upper = False,
     sp_debug = False\<rparr>"

definition ascii :: "string \<Rightarrow> byte list" where
  "ascii cs = map of_char cs"

definition format_error :: "error_code \<Rightarrow> nat \<Rightarrow> io_error" where
  "format_error c at = Semantic c Format at 0"

definition ValidatePresentation :: "format_spec \<Rightarrow> string \<Rightarrow> io_error + unit" where
  "ValidatePresentation sp allowed =
     (if sp_presentation sp = 0 \<or> sp_presentation sp \<in> set (ascii allowed) then Inr ()
      else Inl (format_error InvalidFormat 0))"

text \<open>\<open>ParseFormatSpec\<close>, part by part; each takes the rest of the text and gives what is left of it. The
  characters are 60 for \<^verbatim>\<open><\<close>, 62 for \<^verbatim>\<open>>\<close>, 94 for \<^verbatim>\<open>^\<close>, 43 for \<^verbatim>\<open>+\<close>, 45 for \<^verbatim>\<open>-\<close>, 35 for \<^verbatim>\<open>#\<close> and 46 for
  the period.\<close>

definition is_align :: "byte \<Rightarrow> bool" where
  "is_align c \<longleftrightarrow> c = 60 \<or> c = 62 \<or> c = 94"

definition is_digit :: "byte \<Rightarrow> bool" where
  "is_digit c \<longleftrightarrow> 48 \<le> c \<and> c \<le> 57"

fun parse_fill :: "byte list \<Rightarrow> format_spec \<Rightarrow> byte list \<times> format_spec" where
  "parse_fill (c # d # cs) sp = (if is_align d then (d # cs, sp\<lparr>sp_fill := c\<rparr>) else (c # d # cs, sp))"
| "parse_fill cs sp = (cs, sp)"

fun parse_align :: "byte list \<Rightarrow> format_spec \<Rightarrow> byte list \<times> format_spec" where
  "parse_align (c # cs) sp =
     (if c = 60 then (cs, sp\<lparr>sp_align := LeftAlign\<rparr>)
      else if c = 62 then (cs, sp\<lparr>sp_align := RightAlign\<rparr>)
      else if c = 94 then (cs, sp\<lparr>sp_align := CenterAlign\<rparr>)
      else (c # cs, sp))"
| "parse_align [] sp = ([], sp)"

fun parse_sign :: "byte list \<Rightarrow> format_spec \<Rightarrow> byte list \<times> format_spec" where
  "parse_sign (c # cs) sp =
     (if c = 43 then (cs, sp\<lparr>sp_sign := AlwaysSign\<rparr>)
      else if c = 45 then (cs, sp\<lparr>sp_sign := NegativeOnly\<rparr>)
      else if c = 32 then (cs, sp\<lparr>sp_sign := SpaceSign\<rparr>)
      else (c # cs, sp))"
| "parse_sign [] sp = ([], sp)"

fun parse_alternate :: "byte list \<Rightarrow> format_spec \<Rightarrow> byte list \<times> format_spec" where
  "parse_alternate (c # cs) sp = (if c = 35 then (cs, sp\<lparr>sp_alternate := True\<rparr>) else (c # cs, sp))"
| "parse_alternate [] sp = ([], sp)"

fun parse_zero :: "byte list \<Rightarrow> format_spec \<Rightarrow> byte list \<times> format_spec" where
  "parse_zero (c # cs) sp = (if c = 48 then (cs, sp\<lparr>sp_zero := True\<rparr>) else (c # cs, sp))"
| "parse_zero [] sp = ([], sp)"

text \<open>A decimal number, which may end before the size range does.\<close>

fun parse_number :: "nat \<Rightarrow> byte list \<Rightarrow> (io_error + byte list \<times> nat)" where
  "parse_number n [] = Inr ([], n)"
| "parse_number n (c # cs) =
     (if is_digit c then
        (if n > (2 ^ 64 - 1 - 9) div 10 then Inl (format_error OverflowCode 0)
         else parse_number (n * 10 + unat c - 48) cs)
      else Inr (c # cs, n))"

definition parse_width :: "byte list \<Rightarrow> format_spec \<Rightarrow> io_error + byte list \<times> format_spec" where
  "parse_width cs sp =
     (case parse_number (sp_width sp) cs of Inl e \<Rightarrow> Inl e | Inr (cs, n) \<Rightarrow> Inr (cs, sp\<lparr>sp_width := n\<rparr>))"

fun parse_precision :: "byte list \<Rightarrow> format_spec \<Rightarrow> io_error + byte list \<times> format_spec" where
  "parse_precision (c # cs) sp =
     (if c = 46 then
        (case parse_number 0 cs of Inl e \<Rightarrow> Inl e | Inr (cs, n) \<Rightarrow> Inr (cs, sp\<lparr>sp_precision := n\<rparr>))
      else Inr (c # cs, sp))"
| "parse_precision [] sp = Inr ([], sp)"

fun parse_presentation :: "byte list \<Rightarrow> format_spec \<Rightarrow> byte list \<times> format_spec" where
  "parse_presentation (c # cs) sp =
     (cs, sp\<lparr>sp_presentation := c, sp_upper := 65 \<le> c \<and> c \<le> 90, sp_debug := c = 63\<rparr>)"
| "parse_presentation [] sp = ([], sp)"

definition ParseFormatSpec :: "byte list \<Rightarrow> format_spec \<Rightarrow> io_error + format_spec" where
  "ParseFormatSpec cs sp =
     (let n = length cs;
          (cs, sp) = parse_fill cs sp; (cs, sp) = parse_align cs sp; (cs, sp) = parse_sign cs sp;
          (cs, sp) = parse_alternate cs sp; (cs, sp) = parse_zero cs sp
      in case parse_width cs sp of
           Inl e \<Rightarrow> Inl e
         | Inr (cs, sp) \<Rightarrow>
             (case parse_precision cs sp of
                Inl e \<Rightarrow> Inl e
              | Inr (cs, sp) \<Rightarrow>
                  (case parse_presentation cs sp of
                     (cs, sp) \<Rightarrow>
                       if cs \<noteq> [] then Inl (format_error InvalidFormat (n - length cs)) else Inr sp)))"

section \<open>Writing\<close>

definition succeed :: "'s io_action" where
  "succeed s = Some (s, Inr ())"

definition fails :: "io_error \<Rightarrow> 's io_action" where
  "fails e s = Some (s, Inl e)"

text \<open>One action after the other, unless the first reports an error.\<close>

definition then_do :: "'s io_action \<Rightarrow> 's io_action \<Rightarrow> 's io_action" where
  "then_do f g s = do { (s, r) \<leftarrow> f s; case r of Inl e \<Rightarrow> Some (s, Inl e) | Inr _ \<Rightarrow> g s }"

definition when_valid :: "io_error + unit \<Rightarrow> 's io_action \<Rightarrow> 's io_action" where
  "when_valid r f = (case r of Inl e \<Rightarrow> fails e | Inr _ \<Rightarrow> f)"

definition WriteBytes :: "'s write_some \<Rightarrow> byte list \<Rightarrow> 's io_action" where
  "WriteBytes w bs s = WriteAll w s bs"

function Repeat :: "'s write_some \<Rightarrow> byte \<Rightarrow> nat \<Rightarrow> 's io_action" where
  "Repeat w c n =
     (if n = 0 then succeed
      else (let chunk = (if n < 32 then n else 32)
            in then_do (WriteBytes w (replicate chunk c)) (Repeat w c (n - chunk))))"
  by pat_completeness auto
termination by (relation "measure (\<lambda>(w, c, n). n)") auto

declare Repeat.simps [simp del]

definition padding_of :: "format_spec \<Rightarrow> nat \<Rightarrow> nat" where
  "padding_of sp n = (if sp_width sp > n then sp_width sp - n else 0)"

definition left_of :: "alignment \<Rightarrow> alignment \<Rightarrow> nat \<Rightarrow> nat" where
  "left_of usual a padding =
     (let a = (if a = DefaultAlign then usual else a)
      in if a = RightAlign then padding else if a = CenterAlign then padding div 2 else 0)"

definition WritePadded :: "'s write_some \<Rightarrow> byte list \<Rightarrow> format_spec \<Rightarrow> 's io_action" where
  "WritePadded w v sp =
     (let padding = padding_of sp (length v); left = left_of LeftAlign (sp_align sp) padding
      in then_do (Repeat w (sp_fill sp) left)
           (then_do (WriteBytes w v) (Repeat w (sp_fill sp) (padding - left))))"

text \<open>A precision cuts the text, and then cuts back to the start of a character.\<close>

fun cut_back :: "byte list \<Rightarrow> nat \<Rightarrow> nat" where
  "cut_back v 0 = 0"
| "cut_back v (Suc n) = (if Suc n < length v \<and> v ! Suc n AND 0xC0 = 0x80 then cut_back v n else Suc n)"

definition text_length :: "byte list \<Rightarrow> format_spec \<Rightarrow> nat" where
  "text_length v sp =
     (if sp_precision sp \<noteq> no_precision \<and> sp_precision sp < length v then cut_back v (sp_precision sp)
      else length v)"

text \<open>A character of a text in quotes, and the size of it that is used for the padding.\<close>

definition hex_upper :: "byte \<Rightarrow> byte" where
  "hex_upper v = (if v < 10 then 48 + v else 65 + v - 10)"

definition escape :: "byte \<Rightarrow> byte list" where
  "escape c =
     (if c = 34 then [92, 34] else if c = 92 then [92, 92] else if c = 10 then [92, 110]
      else if c = 13 then [92, 114] else if c = 9 then [92, 116]
      else if c < 0x20 \<or> c = 0x7F then [92, 120, hex_upper (drop_bit 4 c), hex_upper (c AND 0xF)]
      else [c])"

definition escaped_size :: "byte \<Rightarrow> nat" where
  "escaped_size c =
     (if c = 34 \<or> c = 92 \<or> c = 10 \<or> c = 13 \<or> c = 9 then 2 else if c < 0x20 \<or> c = 0x7F then 4 else 1)"

fun write_escaped :: "'s write_some \<Rightarrow> byte list \<Rightarrow> 's io_action" where
  "write_escaped w [] = succeed"
| "write_escaped w (c # cs) = then_do (WriteBytes w (escape c)) (write_escaped w cs)"

definition WriteFormattedText :: "'s write_some \<Rightarrow> byte list \<Rightarrow> format_spec \<Rightarrow> 's io_action" where
  "WriteFormattedText w v sp =
     (let v = take (text_length v sp) v
      in if \<not> sp_debug sp then WritePadded w v sp
         else
           (let n = 2 + sum_list (map escaped_size v);
                padding = padding_of sp n; left = left_of LeftAlign (sp_align sp) padding
            in then_do (Repeat w (sp_fill sp) left)
                 (then_do (WriteBytes w [34])
                   (then_do (write_escaped w v)
                     (then_do (WriteBytes w [34]) (Repeat w (sp_fill sp) (padding - left)))))))"

section \<open>Integers\<close>

definition Digit :: "byte \<Rightarrow> bool \<Rightarrow> byte" where
  "Digit v upper = (if v < 10 then 48 + v else (if upper then 65 else 97) + v - 10)"

text \<open>The digits, the least first, into an array of 65; there is no result when it is full.\<close>

function digit_loop :: "nat \<Rightarrow> bool \<Rightarrow> nat \<Rightarrow> byte list \<Rightarrow> byte list option" where
  "digit_loop base upper v ds =
     (if length ds \<ge> 65 then None
      else
        (let ds = ds @ [Digit (of_nat (v mod base)) upper]
         in if v div base = 0 then Some ds else digit_loop base upper (v div base) ds))"
  by pat_completeness auto
termination by (relation "measure (\<lambda>(base, upper, v, ds). 65 - length ds)") auto

declare digit_loop.simps [simp del]

definition base_of :: "byte \<Rightarrow> nat" where
  "base_of p =
     (if p = 98 \<or> p = 66 then 2 else if p = 111 then 8 else if p = 120 \<or> p = 88 \<or> p = 112 then 16 else 10)"

definition upper_of :: "format_spec \<Rightarrow> bool" where
  "upper_of sp \<longleftrightarrow> sp_upper sp \<or> sp_presentation sp = 88 \<or> sp_presentation sp = 66"

definition number_prefix :: "format_spec \<Rightarrow> bool \<Rightarrow> byte list" where
  "number_prefix sp negative =
     (if negative then [45] else if sp_sign sp = AlwaysSign then [43] else if sp_sign sp = SpaceSign then [32] else []) @
     (if sp_alternate sp \<or> sp_presentation sp = 112 then
        (if base_of (sp_presentation sp) = 2 then [48, if upper_of sp then 66 else 98]
         else if base_of (sp_presentation sp) = 8 then [48]
         else if base_of (sp_presentation sp) = 16 then [48, if upper_of sp then 88 else 120]
         else [])
      else [])"

fun write_each :: "'s write_some \<Rightarrow> byte list \<Rightarrow> 's io_action" where
  "write_each w [] = succeed"
| "write_each w (d # ds) = then_do (WriteBytes w [d]) (write_each w ds)"

definition FormatUnsigned :: "'s write_some \<Rightarrow> u64 \<Rightarrow> bool \<Rightarrow> format_spec \<Rightarrow> 's io_action" where
  "FormatUnsigned w v negative sp s =
     do { ds \<leftarrow> digit_loop (base_of (sp_presentation sp)) (upper_of sp) (unat v) [];
          let prefix = number_prefix sp negative;
              padding = padding_of sp (length prefix + length ds);
              zeros = sp_zero sp \<and> sp_align sp = DefaultAlign;
              left = left_of RightAlign (sp_align sp) padding
          in then_do
               (if zeros then then_do (WriteBytes w prefix) (Repeat w 48 padding)
                else then_do (Repeat w (sp_fill sp) left) (WriteBytes w prefix))
               (then_do (write_each w (rev ds))
                 (if zeros then succeed else Repeat w (sp_fill sp) (padding - left))) s }"

text \<open>The integer formatter: of a signed type when \<open>is_signed\<close>.\<close>

definition magnitude_of :: "bool \<Rightarrow> 'a::len word \<Rightarrow> u64" where
  "magnitude_of is_signed v =
     (if is_signed \<and> sint v < 0 then - (scast v + 1) + 1 else if is_signed then scast v else ucast v)"

definition FormatInteger :: "'s write_some \<Rightarrow> bool \<Rightarrow> 'a::len word \<Rightarrow> format_spec \<Rightarrow> 's io_action" where
  "FormatInteger w is_signed v sp =
     when_valid (ValidatePresentation sp ''dbBoxX'')
       (FormatUnsigned w (magnitude_of is_signed v) (is_signed \<and> sint v < 0) sp)"

definition FormatBool :: "'s write_some \<Rightarrow> bool \<Rightarrow> format_spec \<Rightarrow> 's io_action" where
  "FormatBool w v sp =
     when_valid (ValidatePresentation sp ''s?'') (WritePadded w (ascii (if v then ''true'' else ''false'')) sp)"

definition FormatChar :: "'s write_some \<Rightarrow> byte \<Rightarrow> format_spec \<Rightarrow> 's io_action" where
  "FormatChar w v sp = when_valid (ValidatePresentation sp ''c?'') (WritePadded w [v] sp)"

definition FormatPointer :: "'s write_some \<Rightarrow> u64 \<Rightarrow> format_spec \<Rightarrow> 's io_action" where
  "FormatPointer w v sp =
     when_valid (ValidatePresentation sp ''p'')
       (let sp = sp\<lparr>sp_presentation := 112, sp_alternate := True\<rparr>;
            sp = (if sp_width sp = 0 then sp\<lparr>sp_width := 18, sp_zero := True\<rparr> else sp)
        in FormatUnsigned w v False sp)"

section \<open>Texts and characters\<close>

definition FormatText :: "'s write_some \<Rightarrow> byte list \<Rightarrow> format_spec \<Rightarrow> 's io_action" where
  "FormatText w v sp = when_valid (ValidatePresentation sp ''s?'') (WriteFormattedText w v sp)"

text \<open>UTF-16 (and wide) text is converted first; the conversion has no result only where it has none itself.\<close>

definition FormatUtf16 ::
  "'s write_some \<Rightarrow> (nat \<Rightarrow> bool) \<Rightarrow> u16 list \<Rightarrow> format_spec \<Rightarrow> 's io_action" where
  "FormatUtf16 w alloc v sp =
     when_valid (ValidatePresentation sp ''s?'')
       (\<lambda>s. do { r \<leftarrow> Utf16ToUtf8 alloc True Reject v;
                case r of
                  Inl e \<Rightarrow> Some (s, Inl e)
                | Inr t \<Rightarrow> (case str_View t of None \<Rightarrow> None | Some cs \<Rightarrow> WriteFormattedText w cs sp s) })"

text \<open>UTF-32 text is encoded into a memory sink.\<close>

fun encode_all :: "(nat \<Rightarrow> bool) \<Rightarrow> u32 list \<Rightarrow> byte vec io_action" where
  "encode_all alloc [] = succeed"
| "encode_all alloc (c # cs) =
     (case EncodeUtf8 c of
        Inl e \<Rightarrow> fails e
      | Inr bs \<Rightarrow> then_do (WriteBytes (memory_write alloc) bs) (encode_all alloc cs))"

definition FormatUtf32 ::
  "'s write_some \<Rightarrow> (nat \<Rightarrow> bool) \<Rightarrow> u32 list \<Rightarrow> format_spec \<Rightarrow> 's io_action" where
  "FormatUtf32 w alloc v sp =
     when_valid (ValidatePresentation sp ''s?'')
       (\<lambda>s. do { (b, r) \<leftarrow> encode_all alloc v (vec_empty 1 True);
                case r of
                  Inl e \<Rightarrow> Some (s, Inl e)
                | Inr _ \<Rightarrow> WriteFormattedText w (vec_items b) sp s })"

text \<open>The pointers to text with a terminator, which may be null, and the arrays, whose terminator is left out.\<close>

definition FormatCString :: "('c::zero list \<Rightarrow> format_spec \<Rightarrow> 's io_action) \<Rightarrow> 'c list \<Rightarrow> 'c list option \<Rightarrow>
    format_spec \<Rightarrow> 's io_action" where
  "FormatCString f null v sp = f (case v of None \<Rightarrow> null | Some cs \<Rightarrow> cs) sp"

definition FormatArray :: "('c::zero list \<Rightarrow> format_spec \<Rightarrow> 's io_action) \<Rightarrow> 'c list \<Rightarrow> format_spec \<Rightarrow> 's io_action" where
  "FormatArray f v sp = f (if v \<noteq> [] \<and> last v = 0 then butlast v else v) sp"

definition FormatChar32 :: "'s write_some \<Rightarrow> u32 \<Rightarrow> format_spec \<Rightarrow> 's io_action" where
  "FormatChar32 w v sp =
     when_valid (ValidatePresentation sp ''c?'')
       (case EncodeUtf8 v of Inl e \<Rightarrow> fails e | Inr bs \<Rightarrow> WriteFormattedText w bs sp)"

definition FormatChar16 :: "'s write_some \<Rightarrow> u16 \<Rightarrow> format_spec \<Rightarrow> 's io_action" where
  "FormatChar16 w v sp =
     when_valid (ValidatePresentation sp ''c?'')
       (if 0xD800 \<le> v \<and> v \<le> 0xDFFF then fails (format_error InvalidEncoding 0)
        else case EncodeUtf8 (ucast v) of Inl e \<Rightarrow> fails e | Inr bs \<Rightarrow> WriteFormattedText w bs sp)"

section \<open>Values of the library\<close>

type_synonym guid_value = "u32 \<times> u16 \<times> u16 \<times> u8 list"

fun write_guid_bytes :: "'s write_some \<Rightarrow> format_spec \<Rightarrow> nat \<Rightarrow> u8 list \<Rightarrow> 's io_action" where
  "write_guid_bytes w part i [] = succeed"
| "write_guid_bytes w part i (b # bs) =
     then_do (if i = 2 then WriteBytes w [45] else succeed)
       (then_do (FormatUnsigned w (ucast b) False (part\<lparr>sp_width := 2\<rparr>)) (write_guid_bytes w part (i + 1) bs))"

definition guid_part :: "format_spec \<Rightarrow> format_spec" where
  "guid_part sp = sp\<lparr>sp_width := 0, sp_zero := True, sp_presentation := if sp_upper sp then 88 else 120\<rparr>"

definition FormatGuid :: "'s write_some \<Rightarrow> guid_value \<Rightarrow> format_spec \<Rightarrow> 's io_action" where
  "FormatGuid w g sp =
     when_valid (ValidatePresentation sp ''xX?'')
       (let part = guid_part sp
        in case g of
             (d1, d2, d3, d4) \<Rightarrow>
               then_do (FormatUnsigned w (ucast d1) False (part\<lparr>sp_width := 8\<rparr>))
                 (then_do (WriteBytes w [45])
                   (then_do (FormatUnsigned w (ucast d2) False (part\<lparr>sp_width := 4\<rparr>))
                     (then_do (WriteBytes w [45])
                       (then_do (FormatUnsigned w (ucast d3) False (part\<lparr>sp_width := 4\<rparr>))
                         (then_do (WriteBytes w [45]) (write_guid_bytes w part 0 d4)))))))"

definition ErrorBit :: u64 where "ErrorBit = 0x8000000000000000"

definition MakeError :: "u64 \<Rightarrow> u64" where
  "MakeError c = ErrorBit OR c"

definition IsError :: "u64 \<Rightarrow> bool" where
  "IsError c \<longleftrightarrow> c AND ErrorBit = ErrorBit"

definition IsWarning :: "u64 \<Rightarrow> bool" where
  "IsWarning c \<longleftrightarrow> c \<noteq> 0 \<and> \<not> IsError c"

definition IsSuccess :: "u64 \<Rightarrow> bool" where
  "IsSuccess c \<longleftrightarrow> c = 0"

definition error_names :: "(u64 \<times> string) list" where
  "error_names =
     [(1, ''LoadError''), (2, ''InvalidParameter''), (3, ''Unsupported''), (4, ''BadBufferSize''),
      (5, ''BufferTooSmall''), (6, ''NotReady''), (7, ''DeviceError''), (8, ''WriteProtected''),
      (9, ''OutOfResources''), (10, ''VolumeCorrupted''), (11, ''VolumeFull''), (12, ''NoMedia''),
      (13, ''MediaChanged''), (14, ''NotFound''), (15, ''AccessDenied''), (16, ''NoResponse''),
      (17, ''NoMapping''), (18, ''Timeout''), (19, ''NotStarted''), (20, ''AlreadyStarted''),
      (21, ''Aborted''), (22, ''IcmpError''), (23, ''TftpError''), (24, ''ProtocolError''),
      (25, ''IncompatibleVersion''), (26, ''SecurityViolation''), (27, ''CrcError''), (28, ''EndOfMedia''),
      (31, ''EndOfFile''), (32, ''InvalidLanguage''), (33, ''CompromisedData''), (34, ''IpAddressConflict''),
      (35, ''HttpError''), (100, ''NetworkUnreachable''), (101, ''HostUnreachable''),
      (102, ''ProtocolUnreachable''), (103, ''PortUnreachable''), (104, ''ConnectionFin''),
      (105, ''ConnectionReset''), (106, ''ConnectionRefused'')]"

definition warning_names :: "(u64 \<times> string) list" where
  "warning_names =
     [(1, ''WarnUnknownGlyph''), (2, ''WarnDeleteFailure''), (3, ''WarnWriteFailure''),
      (4, ''WarnBufferTooSmall''), (5, ''WarnStaleData''), (6, ''WarnFileSystem''), (7, ''WarnResetRequired'')]"

definition StatusName :: "u64 \<Rightarrow> string option" where
  "StatusName c =
     map_of ((0, ''Success'') # map (\<lambda>(n, s). (MakeError n, s)) error_names @ warning_names) c"

definition FormatStatus :: "'s write_some \<Rightarrow> u64 \<Rightarrow> format_spec \<Rightarrow> 's io_action" where
  "FormatStatus w v sp =
     when_valid (ValidatePresentation sp ''s?'')
       (case StatusName v of
          Some s \<Rightarrow> FormatCString (FormatText w) (ascii ''null'') (Some (ascii s)) sp
        | None \<Rightarrow>
            then_do (WriteBytes w (ascii ''UnknownStatus(''))
              (then_do (FormatUnsigned w v False (default_spec\<lparr>sp_presentation := 88, sp_alternate := True\<rparr>))
                (WriteBytes w (ascii '')''))))"

fun error_number :: "error_code \<Rightarrow> u8" where
  "error_number Firmware = 0" | "error_number InvalidArgument = 1" | "error_number Closed = 2"
| "error_number EndOfFile = 3" | "error_number UnexpectedEndOfFile = 4" | "error_number WouldBlock = 5"
| "error_number NoProgress = 6" | "error_number OverflowCode = 7" | "error_number InvalidFormat = 8"
| "error_number InvalidEncoding = 9" | "error_number OutOfMemory = 10" | "error_number Unsupported = 11"
| "error_number Cancelled = 12" | "error_number TimedOut = 13"

fun operation_number :: "operation \<Rightarrow> u8" where
  "operation_number NoOperation = 0" | "operation_number Open = 1" | "operation_number Read = 2"
| "operation_number Write = 3" | "operation_number Flush = 4" | "operation_number Seek = 5"
| "operation_number Truncate = 6" | "operation_number Close = 7" | "operation_number Wait = 8"
| "operation_number Encode = 9" | "operation_number Decode = 10" | "operation_number Format = 11"
| "operation_number Parse = 12" | "operation_number AllocateOp = 13"

definition FormatError :: "'s write_some \<Rightarrow> io_error \<Rightarrow> format_spec \<Rightarrow> 's io_action" where
  "FormatError w e sp =
     when_valid (ValidatePresentation sp ''?'')
       (then_do (WriteBytes w (ascii ''io_error(code=''))
         (then_do (FormatInteger w False (error_number (code e)) default_spec)
           (then_do (WriteBytes w (ascii '', operation=''))
             (then_do (FormatInteger w False (operation_number (during e)) default_spec)
               (then_do
                 (if status e \<noteq> 0 then
                    then_do (WriteBytes w (ascii '', status='')) (FormatStatus w (status e) default_spec)
                  else succeed)
                 (then_do (WriteBytes w (ascii '', offset=''))
                   (then_do (FormatInteger w False (of_nat (offset e) :: u64) default_spec)
                     (then_do (WriteBytes w (ascii '', transferred=''))
                       (then_do (FormatInteger w False (of_nat (transferred e) :: u64) default_spec)
                         (WriteBytes w (ascii '')'')))))))))))"

text \<open>The formatters of compound values take those of their parts.\<close>

definition FormatOptional ::
  "'s write_some \<Rightarrow> ('v \<Rightarrow> format_spec \<Rightarrow> 's io_action) \<Rightarrow> 'v option \<Rightarrow> format_spec \<Rightarrow> 's io_action" where
  "FormatOptional w f v sp = (case v of None \<Rightarrow> WritePadded w (ascii ''nullopt'') sp | Some x \<Rightarrow> f x sp)"

definition FormatNull :: "'s write_some \<Rightarrow> format_spec \<Rightarrow> 's io_action" where
  "FormatNull w sp = WriteFormattedText w (ascii ''nullptr'') sp"

definition nested_spec :: "format_spec \<Rightarrow> format_spec" where
  "nested_spec sp = default_spec\<lparr>sp_debug := sp_debug sp\<rparr>"

definition FormatExpected ::
  "'s write_some \<Rightarrow> ('v \<Rightarrow> format_spec \<Rightarrow> 's io_action) \<Rightarrow> ('e \<Rightarrow> format_spec \<Rightarrow> 's io_action) \<Rightarrow> 'e + 'v \<Rightarrow>
    format_spec \<Rightarrow> 's io_action" where
  "FormatExpected w f g v sp =
     when_valid (ValidatePresentation sp ''?'')
       (then_do (WriteBytes w (ascii (case v of Inr _ \<Rightarrow> ''expected('' | Inl _ \<Rightarrow> ''unexpected('')))
         (then_do (case v of Inr x \<Rightarrow> f x (nested_spec sp) | Inl e \<Rightarrow> g e (nested_spec sp))
           (WriteBytes w (ascii '')''))))"

definition FormatExpectedVoid ::
  "'s write_some \<Rightarrow> ('e \<Rightarrow> format_spec \<Rightarrow> 's io_action) \<Rightarrow> 'e + unit \<Rightarrow> format_spec \<Rightarrow> 's io_action" where
  "FormatExpectedVoid w g v sp =
     when_valid (ValidatePresentation sp ''?'')
       (case v of
          Inr _ \<Rightarrow> WriteBytes w (ascii ''expected()'')
        | Inl e \<Rightarrow>
            then_do (WriteBytes w (ascii ''unexpected(''))
              (then_do (g e (nested_spec sp)) (WriteBytes w (ascii '')''))))"

text \<open>The elements of a range, and those of a tuple, with a comma and a space in between.\<close>

fun write_separated :: "'s write_some \<Rightarrow> bool \<Rightarrow> 's io_action list \<Rightarrow> 's io_action" where
  "write_separated w first [] = succeed"
| "write_separated w first (f # fs) =
     then_do (if first then succeed else WriteBytes w (ascii '', '')) (then_do f (write_separated w False fs))"

definition FormatRange ::
  "'s write_some \<Rightarrow> ('v \<Rightarrow> format_spec \<Rightarrow> 's io_action) \<Rightarrow> 'v list \<Rightarrow> format_spec \<Rightarrow> 's io_action" where
  "FormatRange w f vs sp =
     when_valid (ValidatePresentation sp ''?'')
       (then_do (WriteBytes w (ascii ''[''))
         (then_do (write_separated w True (map (\<lambda>v. f v (nested_spec sp)) vs)) (WriteBytes w (ascii '']''))))"

definition FormatTuple ::
  "'s write_some \<Rightarrow> (format_spec \<Rightarrow> 's io_action) list \<Rightarrow> format_spec \<Rightarrow> 's io_action" where
  "FormatTuple w fs sp =
     when_valid (ValidatePresentation sp ''?'')
       (then_do (WriteBytes w (ascii ''(''))
         (then_do (write_separated w True (map (\<lambda>f. f (nested_spec sp)) fs)) (WriteBytes w (ascii '')''))))"

section \<open>Dumps\<close>

record hex_dump =
  hd_bytes :: "byte list"
  hd_address :: u64
  hd_width :: nat
  hd_show_address :: bool
  hd_show_text :: bool

definition BytesPerLine :: "nat \<Rightarrow> hex_dump \<Rightarrow> hex_dump" where
  "BytesPerLine n d = d\<lparr>hd_width := if n \<noteq> 0 then n else 16\<rparr>"

definition hex_spec :: "nat \<Rightarrow> format_spec" where
  "hex_spec n = default_spec\<lparr>sp_presentation := 88, sp_zero := True, sp_width := n\<rparr>"

fun dump_bytes :: "'s write_some \<Rightarrow> byte list \<Rightarrow> nat \<Rightarrow> 's io_action" where
  "dump_bytes w bs 0 = succeed"
| "dump_bytes w bs (Suc n) =
     then_do
       (case bs of
          b # _ \<Rightarrow> FormatUnsigned w (ucast b) False (hex_spec 2)
        | [] \<Rightarrow> WriteBytes w (ascii ''  ''))
       (then_do (WriteBytes w (ascii '' '')) (dump_bytes w (tl bs) n))"

definition dump_char :: "byte \<Rightarrow> byte" where
  "dump_char b = (if 0x20 \<le> b \<and> b \<le> 0x7E then b else 46)"

definition dump_line :: "'s write_some \<Rightarrow> hex_dump \<Rightarrow> nat \<Rightarrow> 's io_action" where
  "dump_line w d at =
     (let line = take (hd_width d) (drop at (hd_bytes d))
      in then_do
           (if hd_show_address d then
              then_do (FormatUnsigned w (hd_address d + of_nat at) False (hex_spec 16)) (WriteBytes w (ascii ''  ''))
            else succeed)
           (then_do (dump_bytes w line (hd_width d))
             (then_do
               (if hd_show_text d then
                  then_do (WriteBytes w (ascii '' |''))
                    (then_do (write_each w (map dump_char line)) (WriteBytes w (ascii ''|'')))
                else succeed)
               (if at + length line < length (hd_bytes d) then WriteBytes w [10] else succeed))))"

text \<open>The width is not zero: the loop steps by it.\<close>

function dump_lines :: "'s write_some \<Rightarrow> hex_dump \<Rightarrow> nat \<Rightarrow> 's io_action" where
  "dump_lines w d at =
     (if at < length (hd_bytes d) \<and> hd_width d \<noteq> 0
      then then_do (dump_line w d at) (dump_lines w d (at + hd_width d)) else succeed)"
  by pat_completeness auto
termination by (relation "measure (\<lambda>(w, d, at). length (hd_bytes d) - at)") auto

declare dump_lines.simps [simp del]

definition FormatHexDump :: "'s write_some \<Rightarrow> hex_dump \<Rightarrow> format_spec \<Rightarrow> 's io_action" where
  "FormatHexDump w d sp = when_valid (ValidatePresentation sp []) (dump_lines w d 0)"

section \<open>Format texts\<close>

text \<open>What \<open>FormatString\<close> checks when the program is compiled: the number of fields of a valid text. The
  characters are 123 for an opening and 125 for a closing brace, and 58 for a colon.\<close>

definition skip_if :: "(byte \<Rightarrow> bool) \<Rightarrow> byte list \<Rightarrow> byte list" where
  "skip_if f cs = (case cs of c # r \<Rightarrow> if f c then r else cs | [] \<Rightarrow> [])"

definition known_presentations :: "byte list" where
  "known_presentations = ascii ''aAeEfFgGboxXBdpc?''"

definition ValidateSpec :: "byte list \<Rightarrow> bool" where
  "ValidateSpec cs =
     (let cs = (if 1 < length cs \<and> is_align (cs ! 1) then tl cs else cs);
          cs = skip_if is_align cs;
          cs = skip_if (\<lambda>c. c = 43 \<or> c = 45 \<or> c = 32) cs;
          cs = skip_if (\<lambda>c. c = 35) cs;
          cs = skip_if (\<lambda>c. c = 48) cs;
          cs = dropWhile is_digit cs;
          cs = (if cs \<noteq> [] \<and> hd cs = 46 then dropWhile is_digit (tl cs) else cs)
      in case cs of [] \<Rightarrow> True | c # r \<Rightarrow> c \<in> set known_presentations \<and> r = [])"

abbreviation field_text :: "byte list \<Rightarrow> byte list" where
  "field_text cs \<equiv> takeWhile (\<lambda>c. c \<noteq> 125) cs"

abbreviation behind_field :: "byte list \<Rightarrow> byte list" where
  "behind_field cs \<equiv> dropWhile (\<lambda>c. c \<noteq> 125) cs"

function count_fields :: "byte list \<Rightarrow> nat option" where
  "count_fields [] = Some 0"
| "count_fields (c # cs) =
     (if c = 123 then
        (if cs \<noteq> [] \<and> hd cs = 123 then count_fields (tl cs)
         else if 123 \<in> set (field_text cs) \<or> behind_field cs = [] then None
         else if field_text cs \<noteq> [] \<and> (hd (field_text cs) \<noteq> 58 \<or> \<not> ValidateSpec (tl (field_text cs))) then None
         else map_option Suc (count_fields (tl (behind_field cs))))
      else if c = 125 then (if cs \<noteq> [] \<and> hd cs = 125 then count_fields (tl cs) else None)
      else count_fields cs)"
  by pat_completeness auto
termination
  by (relation "measure length") (auto simp: less_Suc_eq_le intro: le_trans [OF diff_le_self] length_dropWhile_le)

definition FormatString_ok :: "byte list \<Rightarrow> nat \<Rightarrow> bool" where
  "FormatString_ok cs n \<longleftrightarrow> count_fields cs = Some n"

text \<open>The loop that \<open>VPrint\<close> and \<open>Print\<close> have in common: \<open>i\<close> is the index of the rest \<open>cs\<close> of the format text, \<open>lit\<close>
  the text since \<^verbatim>\<open>LiteralStart\<close> and \<open>k\<close> the index of the argument. They differ in what they do with a field,
  which starts at the index it is given, and at the end.\<close>

function print_loop ::
  "'s write_some \<Rightarrow> (nat \<Rightarrow> nat \<Rightarrow> byte list \<Rightarrow> 's io_action) \<Rightarrow> (nat \<Rightarrow> 's io_action) \<Rightarrow> nat \<Rightarrow> byte list \<Rightarrow>
    byte list \<Rightarrow> nat \<Rightarrow> 's io_action" where
  "print_loop w field_step finish i lit [] k = then_do (finish k) (WriteBytes w lit)"
| "print_loop w field_step finish i lit (c # cs) k =
     (if c \<noteq> 123 \<and> c \<noteq> 125 then print_loop w field_step finish (i + 1) (lit @ [c]) cs k
      else if cs \<noteq> [] \<and> hd cs = c
      then then_do (WriteBytes w (lit @ [c])) (print_loop w field_step finish (i + 2) [] (tl cs) k)
      else if c = 125 then fails (format_error InvalidFormat i)
      else then_do (WriteBytes w lit)
        (if behind_field cs = [] then fails (format_error InvalidFormat i)
         else if field_text cs \<noteq> [] \<and> hd (field_text cs) \<noteq> 58 then fails (format_error InvalidFormat i)
         else then_do (field_step i k (tl (field_text cs)))
           (print_loop w field_step finish (i + length (field_text cs) + 2) [] (tl (behind_field cs)) (k + 1))))"
  by pat_completeness auto
termination
  by (relation "measure (\<lambda>(w, f, g, i, lit, cs, k). length cs)")
    (auto simp: less_Suc_eq_le intro: le_trans [OF diff_le_self] length_dropWhile_le)

type_synonym 's argument = "format_spec \<Rightarrow> 's io_action"

definition vprint_field :: "'s argument list \<Rightarrow> nat \<Rightarrow> nat \<Rightarrow> byte list \<Rightarrow> 's io_action" where
  "vprint_field args i k field =
     (if k \<ge> length args then fails (format_error InvalidFormat k)
      else case ParseFormatSpec field default_spec of Inl e \<Rightarrow> fails e | Inr sp \<Rightarrow> (args ! k) sp)"

definition VPrint :: "'s write_some \<Rightarrow> byte list \<Rightarrow> 's argument list \<Rightarrow> 's io_action" where
  "VPrint w cs args =
     print_loop w (vprint_field args)
       (\<lambda>k. if k \<noteq> length args then fails (format_error InvalidFormat k) else succeed) 0 [] cs 0"

definition FormatArgument :: "'s argument list \<Rightarrow> nat \<Rightarrow> 's argument" where
  "FormatArgument args k = (if k < length args then args ! k else (\<lambda>sp. fails (format_error InvalidFormat k)))"

definition print_field :: "'s argument list \<Rightarrow> nat \<Rightarrow> nat \<Rightarrow> byte list \<Rightarrow> 's io_action" where
  "print_field args i k field =
     (case ParseFormatSpec field default_spec of
        Inl e \<Rightarrow> fails e
      | Inr sp \<Rightarrow> if args \<noteq> [] then FormatArgument args k sp else fails (format_error InvalidFormat i))"

definition Print :: "'s write_some \<Rightarrow> byte list \<Rightarrow> 's argument list \<Rightarrow> 's io_action" where
  "Print w cs args = print_loop w (print_field args) (\<lambda>k. succeed) 0 [] cs 0"

definition Println :: "'s write_some \<Rightarrow> byte list \<Rightarrow> 's argument list \<Rightarrow> 's io_action" where
  "Println w cs args = then_do (Print w cs args) (WriteBytes w [10])"

text \<open>\<open>Format\<close> prints into a memory sink and copies its bytes to a string.\<close>

definition FormatToString ::
  "(nat \<Rightarrow> bool) \<Rightarrow> byte list \<Rightarrow> byte vec argument list \<Rightarrow> (io_error + byte bstr) option" where
  "FormatToString alloc cs args =
     do { (b, r) \<leftarrow> Print (memory_write alloc) cs args (vec_empty 1 True);
          case r of
            Inl e \<Rightarrow> Some (Inl e)
          | Inr _ \<Rightarrow>
              do { (t, ok) \<leftarrow> str_Assign alloc (str_empty 1 True) (map Temp (vec_items b));
                   Some (if ok then Inr t else Inl no_room) } }"

end
