(* ===== verification/TextScan.thy ===== *)
theory TextScan
  imports TextFormat
begin

text \<open>
  Scanning of text (\<^verbatim>\<open>IO/Text/Scan.hpp\<close>): integers of any width, with a sign, a prefix that gives the base and
  separators; truth values, GUIDs and strings. The parser of floating-point numbers is not modelled.
\<close>

section \<open>Integers\<close>

record parse_options =
  po_base :: nat
  po_sign :: bool
  po_separators :: bool
  po_entire :: bool

definition default_options :: parse_options where
  "default_options = \<lparr>po_base = 0, po_sign = True, po_separators = True, po_entire = True\<rparr>"

definition parse_error :: "error_code \<Rightarrow> nat \<Rightarrow> io_error" where
  "parse_error c at = Semantic c Parse at 0"

definition DigitValue :: "byte \<Rightarrow> nat" where
  "DigitValue c =
     (if 48 \<le> c \<and> c \<le> 57 then unat (c - 48)
      else if 97 \<le> c \<and> c \<le> 122 then unat (c - 97 + 10)
      else if 65 \<le> c \<and> c \<le> 90 then unat (c - 65 + 10)
      else 0xFF)"

text \<open>The base that the character behind a zero stands for: 120 is \<^verbatim>\<open>x\<close>, 98 is \<^verbatim>\<open>b\<close> and 111 is \<^verbatim>\<open>o\<close>.\<close>

definition prefix_base :: "byte \<Rightarrow> nat" where
  "prefix_base c =
     (if c = 120 \<or> c = 88 then 16 else if c = 98 \<or> c = 66 then 2 else if c = 111 \<or> c = 79 then 8 else 10)"

text \<open>The base, and the length of the prefix.\<close>

definition detect_base :: "nat \<Rightarrow> byte list \<Rightarrow> nat \<times> nat" where
  "detect_base base cs =
     (let p = (if 1 < length cs \<and> cs ! 0 = 48 then prefix_base (cs ! 1) else 10)
      in if base = 0 then (p, if p \<noteq> 10 then 2 else 0)
         else (base, if p \<noteq> 10 \<and> p = base then 2 else 0))"

text \<open>The digits: the position, the magnitude, whether a digit was seen, and whether the last was a separator.\<close>

fun integer_loop ::
  "parse_options \<Rightarrow> nat \<Rightarrow> nat \<Rightarrow> byte list \<Rightarrow> nat \<Rightarrow> bool \<Rightarrow> bool \<Rightarrow> io_error + nat \<times> nat \<times> bool \<times> bool" where
  "integer_loop opts base i [] m seen separated = Inr (i, m, seen, separated)"
| "integer_loop opts base i (c # cs) m seen separated =
     (if po_separators opts \<and> c = 95 then
        (if \<not> seen \<or> separated then Inl (parse_error InvalidFormat i)
         else integer_loop opts base (i + 1) cs m seen True)
      else if DigitValue c \<ge> base then
        (if po_entire opts then Inl (parse_error InvalidFormat i) else Inr (i, m, seen, separated))
      else if m > (2 ^ 64 - 1 - DigitValue c) div base then Inl (parse_error OverflowCode i)
      else integer_loop opts base (i + 1) cs (m * base + DigitValue c) True False)"

text \<open>The value of the type: signed when \<open>is_signed\<close>.\<close>

definition integer_value :: "bool \<Rightarrow> bool \<Rightarrow> nat \<Rightarrow> nat \<Rightarrow> io_error + 'a::len word" where
  "integer_value is_signed negative i m =
     (if is_signed then
        (let maximum = 2 ^ (LENGTH('a) - 1) - 1
         in if m > (if negative then maximum + 1 else maximum) then Inl (parse_error OverflowCode i)
            else if negative then
              (if m = maximum + 1 then Inr (of_int (- int maximum - 1)) else Inr (of_int (- int m)))
            else Inr (of_nat m))
      else if negative \<or> m > 2 ^ LENGTH('a) - 1 then Inl (parse_error OverflowCode i)
      else Inr (of_nat m))"

definition ParseInteger :: "bool \<Rightarrow> byte list \<Rightarrow> parse_options \<Rightarrow> io_error + 'a::len word" where
  "ParseInteger is_signed cs opts =
     (let has_sign = po_sign opts \<and> cs \<noteq> [] \<and> (hd cs = 43 \<or> hd cs = 45);
          negative = has_sign \<and> hd cs = 45;
          i = (if has_sign then 1 else 0)
      in if i = length cs then Inl (parse_error InvalidFormat i)
         else
           (case detect_base (po_base opts) (drop i cs) of
              (base, n) \<Rightarrow>
                if base < 2 \<or> base > 36 then Inl (parse_error InvalidArgument 0)
                else
                  (case integer_loop opts base (i + n) (drop (i + n) cs) 0 False False of
                     Inl e \<Rightarrow> Inl e
                   | Inr (i, m, seen, separated) \<Rightarrow>
                       if \<not> seen \<or> separated then Inl (parse_error InvalidFormat i)
                       else integer_value is_signed negative i m)))"

section \<open>Other values\<close>

definition ParseBool :: "byte list \<Rightarrow> io_error + bool" where
  "ParseBool cs =
     (if cs = ascii ''true'' \<or> cs = ascii ''1'' then Inr True
      else if cs = ascii ''false'' \<or> cs = ascii ''0'' then Inr False
      else Inl (parse_error InvalidFormat 0))"

text \<open>A number of hexadecimal digits of a GUID, from the index \<open>i\<close> on.\<close>

fun hex_loop :: "byte list \<Rightarrow> nat \<Rightarrow> nat \<Rightarrow> u64 \<Rightarrow> io_error + u64" where
  "hex_loop cs i 0 v = Inr v"
| "hex_loop cs i (Suc n) v =
     (if DigitValue (cs ! i) \<ge> 16 then Inl (parse_error InvalidFormat i)
      else hex_loop cs (i + 1) n (push_bit 4 v OR of_nat (DigitValue (cs ! i))))"

fun guid_bytes :: "byte list \<Rightarrow> nat list \<Rightarrow> io_error + u8 list" where
  "guid_bytes cs [] = Inr []"
| "guid_bytes cs (i # is) =
     (case hex_loop cs i 2 0 of
        Inl e \<Rightarrow> Inl e
      | Inr v \<Rightarrow> (case guid_bytes cs is of Inl e \<Rightarrow> Inl e | Inr bs \<Rightarrow> Inr (ucast v # bs)))"

definition ParseGuid :: "byte list \<Rightarrow> io_error + guid_value" where
  "ParseGuid cs =
     (if length cs \<noteq> 36 \<or> cs ! 8 \<noteq> 45 \<or> cs ! 13 \<noteq> 45 \<or> cs ! 18 \<noteq> 45 \<or> cs ! 23 \<noteq> 45
      then Inl (parse_error InvalidFormat 0)
      else
        (case (hex_loop cs 0 8 0, hex_loop cs 9 4 0, hex_loop cs 14 4 0) of
           (Inr d1, Inr d2, Inr d3) \<Rightarrow>
             (case guid_bytes cs [19, 21, 24, 26, 28, 30, 32, 34] of
                Inl e \<Rightarrow> Inl e
              | Inr bs \<Rightarrow> Inr (ucast d1, ucast d2, ucast d3, bs))
         | (Inl e, _, _) \<Rightarrow> Inl e
         | (_, Inl e, _) \<Rightarrow> Inl e
         | (_, _, Inl e) \<Rightarrow> Inl e))"

definition ParseString :: "(nat \<Rightarrow> bool) \<Rightarrow> byte list \<Rightarrow> (io_error + byte bstr) option" where
  "ParseString alloc cs =
     do { (t, ok) \<leftarrow> str_Assign alloc (str_empty 1 True) (map Temp cs);
          Some (if ok then Inr t else Inl no_room) }"

end
