(* ===== verification/TextOutput.thy ===== *)
theory TextOutput
  imports TextScan
begin

unbundle bit_operations_syntax

text \<open>
  What the formatters write. An action \<open>renders\<close> a text when it does nothing but write the text piece by piece;
  over any sink it then writes the text, or reports an error of the sink behind a part of it. The texts of
  padded values, of quoted texts and of integers are given, and the text that a checked format text gives.
\<close>

section \<open>Rendering\<close>

fun write_pieces :: "'s write_some \<Rightarrow> byte list list \<Rightarrow> 's io_action" where
  "write_pieces w [] = succeed"
| "write_pieces w (p # ps) = then_do (WriteBytes w p) (write_pieces w ps)"

definition renders :: "'s write_some \<Rightarrow> 's io_action \<Rightarrow> byte list \<Rightarrow> bool" where
  "renders w f t \<longleftrightarrow> (\<exists>ps. concat ps = t \<and> f = write_pieces w ps)"

named_theorems rendering

lemma then_do_simps [simp]:
  "then_do succeed f = f" "then_do f succeed = f" "then_do (fails e) f = fails e"
  "then_do (then_do f g) h = then_do f (then_do g h)"
  by (auto simp: then_do_def succeed_def fails_def fun_eq_iff split: Option.bind_split sum.split)

lemma write_pieces_append: "write_pieces w (ps @ qs) = then_do (write_pieces w ps) (write_pieces w qs)"
  by (induction ps) simp_all

lemma renders_succeed [rendering]: "renders w succeed []"
  by (auto simp: renders_def intro: exI [of _ "[]"])

lemma renders_WriteBytes [rendering]: "renders w (WriteBytes w bs) bs"
  by (auto simp: renders_def intro: exI [of _ "[bs]"])

lemma renders_then [rendering]: "renders w f a \<Longrightarrow> renders w g b \<Longrightarrow> renders w (then_do f g) (a @ b)"
  unfolding renders_def using write_pieces_append by (metis concat_append)

lemma renders_eq: "renders w f a \<Longrightarrow> a = b \<Longrightarrow> renders w f b"
  by simp

lemma renders_write_each [rendering]: "renders w (write_each w ds) ds"
proof (induction ds)
  case (Cons d ds)
  from renders_then [OF renders_WriteBytes [of w "[d]"] Cons] show ?case by simp
qed (simp add: renders_succeed)

lemma renders_Repeat [rendering]: "renders w (Repeat w c n) (replicate n c)"
proof (induction n rule: less_induct)
  case (less n)
  show ?case
  proof (cases "n = 0")
    case False
    let ?k = "if n < 32 then n else 32"
    have "renders w (Repeat w c (n - ?k)) (replicate (n - ?k) c)" using False by (intro less) auto
    from renders_then [OF renders_WriteBytes this, of "replicate ?k c"] show ?thesis
      using False by (subst Repeat.simps) (auto simp: Let_def replicate_add [symmetric])
  qed (simp add: Repeat.simps renders_succeed)
qed

text \<open>Over a sink: all of the text is written, or an error of the sink is reported behind a part of it.\<close>

context sink
begin

lemma write_pieces_law:
  assumes "ready s" and "length (concat ps) < 2 ^ 63"
  shows "\<exists>s' r n. write_pieces write_some ps s = Some (s', r) \<and> ready s' \<and>
    sunk s' = sunk s @ take n (concat ps) \<and>
    (case r of Inl e \<Rightarrow> n < length (concat ps) | Inr _ \<Rightarrow> n = length (concat ps))"
  using assms
proof (induction ps arbitrary: s)
  case (Cons p ps)
  have "length p < 2 ^ 63" using Cons.prems(2) by simp
  from WriteAll_law [OF Cons.prems(1) this] obtain s1 r1 n1 where
    s1: "WriteAll write_some s p = Some (s1, r1)" "ready s1" "sunk s1 = sunk s @ take n1 p"
    "case r1 of Inl e \<Rightarrow> n1 < length p | Inr _ \<Rightarrow> n1 = length p" by blast
  show ?case
  proof (cases r1)
    case (Inl e)
    then show ?thesis
      using s1 by (intro exI [of _ s1] exI [of _ "Inl e"] exI [of _ n1]) (simp add: then_do_def WriteBytes_def)
  next
    case (Inr u)
    have "length (concat ps) < 2 ^ 63" using Cons.prems(2) by simp
    from Cons.IH [OF s1(2) this] obtain s2 r2 n2 where
      s2: "write_pieces write_some ps s1 = Some (s2, r2)" "ready s2" "sunk s2 = sunk s1 @ take n2 (concat ps)"
      "case r2 of Inl e \<Rightarrow> n2 < length (concat ps) | Inr _ \<Rightarrow> n2 = length (concat ps)" by blast
    then show ?thesis
      using s1 Inr
      by (intro exI [of _ s2] exI [of _ r2] exI [of _ "length p + n2"])
        (cases r2, simp_all add: then_do_def WriteBytes_def)
  qed
qed (simp add: succeed_def)

lemma renders_law:
  assumes "renders write_some f t" and "ready s" and "length t < 2 ^ 63"
  shows "\<exists>s' r n. f s = Some (s', r) \<and> ready s' \<and> sunk s' = sunk s @ take n t \<and>
    (case r of Inl e \<Rightarrow> n < length t | Inr _ \<Rightarrow> n = length t)"
proof -
  obtain ps where ps: "concat ps = t" "f = write_pieces write_some ps" using assms(1) by (auto simp: renders_def)
  from write_pieces_law [OF assms(2), of ps, unfolded ps(1), OF assms(3)] show ?thesis unfolding ps(2) .
qed

end

section \<open>The texts\<close>

definition padded :: "alignment \<Rightarrow> format_spec \<Rightarrow> byte list \<Rightarrow> byte list" where
  "padded usual sp v =
     (let n = padding_of sp (length v); left = left_of usual (sp_align sp) n
      in replicate left (sp_fill sp) @ v @ replicate (n - left) (sp_fill sp))"

definition formatted_text :: "format_spec \<Rightarrow> byte list \<Rightarrow> byte list" where
  "formatted_text sp v =
     (let v = take (text_length v sp) v
      in padded LeftAlign sp (if sp_debug sp then [34] @ concat (map escape v) @ [34] else v))"

lemma renders_WritePadded [rendering]: "renders w (WritePadded w v sp) (padded LeftAlign sp v)"
  unfolding WritePadded_def padded_def Let_def by (intro rendering)

lemma renders_write_escaped [rendering]: "renders w (write_escaped w v) (concat (map escape v))"
proof (induction v)
  case (Cons c v)
  from renders_then [OF renders_WriteBytes [of w "escape c"] Cons] show ?case by simp
qed (simp add: renders_succeed)

lemma escaped_length: "length (concat (map escape v)) = sum_list (map escaped_size v)"
  by (induction v) (auto simp: escape_def escaped_size_def)

lemma renders_WriteFormattedText [rendering]: "renders w (WriteFormattedText w v sp) (formatted_text sp v)"
proof (cases "sp_debug sp")
  case True
  let ?v = "take (text_length v sp) v"
  let ?n = "padding_of sp (2 + sum_list (map escaped_size ?v))"
  let ?left = "left_of LeftAlign (sp_align sp) ?n"
  have "renders w (WriteFormattedText w v sp) (replicate ?left (sp_fill sp) @ [34] @ concat (map escape ?v) @ [34] @
      replicate (?n - ?left) (sp_fill sp))"
    using True unfolding WriteFormattedText_def Let_def by (simp only: not_True_eq_False if_False) (intro rendering)
  moreover have "length ([34] @ concat (map escape ?v) @ [34]) = 2 + sum_list (map escaped_size ?v)"
    by (simp only: length_append escaped_length) simp
  ultimately show ?thesis using True by (simp add: formatted_text_def padded_def Let_def)
next
  case False
  then show ?thesis
    using renders_WritePadded [of w "take (text_length v sp) v" sp] by (simp add: WriteFormattedText_def formatted_text_def)
qed

section \<open>Integers\<close>

text \<open>The digits of a number, the greatest first.\<close>

fun radix :: "nat \<Rightarrow> nat \<Rightarrow> nat list" where
  "radix base v = (if v < base \<or> base < 2 then [v] else radix base (v div base) @ [v mod base])"

declare radix.simps [simp del]

definition digits_of :: "nat \<Rightarrow> bool \<Rightarrow> nat \<Rightarrow> byte list" where
  "digits_of base upper v = map (\<lambda>d. Digit (of_nat d) upper) (radix base v)"

lemma radix_length: "2 \<le> base \<Longrightarrow> v < base ^ k \<Longrightarrow> 0 < k \<Longrightarrow> length (radix base v) \<le> k"
proof (induction base v arbitrary: k rule: radix.induct)
  case (1 base v)
  show ?case
  proof (cases "v < base")
    case False
    then have k: "k \<noteq> 1" using "1.prems"(2) by auto
    then obtain j where j: "k = Suc j" "0 < j" using "1.prems"(3) by (cases k) auto
    have "v div base < base ^ j" using "1.prems"(1,2) j(1) by (simp add: less_mult_imp_div_less mult.commute)
    then have "length (radix base (v div base)) \<le> j" using "1.IH" [OF _ "1.prems"(1) _ j(2)] False "1.prems"(1) by simp
    then show ?thesis using False "1.prems"(1) j(1) by (simp add: radix.simps [of base v])
  qed (use "1.prems"(3) in \<open>simp add: radix.simps [of base v]\<close>)
qed

lemma digit_loop_digits:
  assumes "2 \<le> base" and "length ds + length (radix base v) \<le> 65"
  shows "digit_loop base upper v ds = Some (ds @ rev (digits_of base upper v))"
  using assms
proof (induction base v arbitrary: ds rule: radix.induct)
  case (1 base v)
  show ?case
  proof (cases "v < base")
    case True
    then show ?thesis
      using "1.prems" by (subst digit_loop.simps) (simp add: radix.simps [of base v] digits_of_def)
  next
    case False
    then have r: "radix base v = radix base (v div base) @ [v mod base]" using "1.prems"(1) by (simp add: radix.simps [of base v])
    let ?d = "Digit (of_nat (v mod base)) upper"
    have n: "v div base \<noteq> 0" using False "1.prems"(1) by (simp add: div_eq_0_iff)
    have "digit_loop base upper (v div base) (ds @ [?d]) = Some ((ds @ [?d]) @ rev (digits_of base upper (v div base)))"
      using "1.IH" [of "ds @ [?d]"] False "1.prems" r by simp
    then show ?thesis using n "1.prems"(2) r by (subst digit_loop.simps) (simp add: digits_of_def)
  qed
qed

lemma base_of_cases: "base_of p = 2 \<or> base_of p = 8 \<or> base_of p = 10 \<or> base_of p = 16"
  by (simp add: base_of_def)

definition number_text :: "format_spec \<Rightarrow> bool \<Rightarrow> nat \<Rightarrow> byte list" where
  "number_text sp negative v =
     (let prefix = number_prefix sp negative;
          ds = digits_of (base_of (sp_presentation sp)) (upper_of sp) v
      in if sp_zero sp \<and> sp_align sp = DefaultAlign
         then prefix @ replicate (padding_of sp (length prefix + length ds)) 48 @ ds
         else padded RightAlign sp (prefix @ ds))"

lemma renders_FormatUnsigned [rendering]:
  "renders w (FormatUnsigned w v negative sp) (number_text sp negative (unat v))"
proof -
  let ?b = "base_of (sp_presentation sp)" and ?ds = "digits_of (base_of (sp_presentation sp)) (upper_of sp) (unat v)"
  have b: "2 \<le> ?b" using base_of_cases [of "sp_presentation sp"] by auto
  have "unat v < 2 ^ 64" using unat_lt2p [of v] by simp
  also have "(2 :: nat) ^ 64 \<le> ?b ^ 64" by (rule power_mono [OF b]) simp
  finally have "length (radix ?b (unat v)) \<le> 64" by (intro radix_length b) simp_all
  then have ds: "digit_loop ?b (upper_of sp) (unat v) [] = Some (rev ?ds)"
    using digit_loop_digits [OF b, of "[]"] by simp
  show ?thesis
  proof (cases "sp_zero sp \<and> sp_align sp = DefaultAlign")
    case True
    then have z: "(sp_zero sp \<and> sp_align sp = DefaultAlign) = True" by simp
    have "renders w (then_do (then_do (WriteBytes w (number_prefix sp negative))
        (Repeat w 48 (padding_of sp (length (number_prefix sp negative) + length ?ds))))
        (write_each w ?ds)) ((number_prefix sp negative @
        replicate (padding_of sp (length (number_prefix sp negative) + length ?ds)) 48) @ ?ds)"
      by (intro rendering)
    moreover have "FormatUnsigned w v negative sp = then_do (then_do (WriteBytes w (number_prefix sp negative))
        (Repeat w 48 (padding_of sp (length (number_prefix sp negative) + length ?ds)))) (write_each w ?ds)"
      by (rule ext) (simp only: FormatUnsigned_def ds Option.bind.simps Let_def z if_True length_rev rev_rev_ident then_do_simps(2))
    ultimately show ?thesis using True by (simp add: number_text_def Let_def)
  next
    case False
    then have z: "(sp_zero sp \<and> sp_align sp = DefaultAlign) = False" by simp
    let ?n = "padding_of sp (length (number_prefix sp negative) + length ?ds)"
    let ?left = "left_of RightAlign (sp_align sp) ?n"
    have "renders w (then_do (then_do (Repeat w (sp_fill sp) ?left) (WriteBytes w (number_prefix sp negative)))
        (then_do (write_each w ?ds) (Repeat w (sp_fill sp) (?n - ?left))))
        ((replicate ?left (sp_fill sp) @ number_prefix sp negative) @ ?ds @ replicate (?n - ?left) (sp_fill sp))"
      by (intro rendering)
    moreover have "FormatUnsigned w v negative sp =
        then_do (then_do (Repeat w (sp_fill sp) ?left) (WriteBytes w (number_prefix sp negative)))
        (then_do (write_each w ?ds) (Repeat w (sp_fill sp) (?n - ?left)))"
      by (rule ext) (simp only: FormatUnsigned_def ds Option.bind.simps Let_def z if_False length_rev rev_rev_ident)
    ultimately show ?thesis using False by (auto simp: number_text_def padded_def Let_def)
  qed
qed

text \<open>What a formatter of integers writes for \<open>v\<close>, when the presentation suits it.\<close>

definition integer_text :: "bool \<Rightarrow> 'a::len word \<Rightarrow> format_spec \<Rightarrow> byte list" where
  "integer_text is_signed v sp =
     number_text sp (is_signed \<and> sint v < 0) (if is_signed then nat \<bar>sint v\<bar> else unat v)"

lemma magnitude_value:
  assumes "LENGTH('a) \<le> 64"
  shows "unat (magnitude_of is_signed (v :: 'a::len word)) = (if is_signed then nat \<bar>sint v\<bar> else unat v)"
proof (cases is_signed)
  case False
  have "unat v < 2 ^ LENGTH('a)" by (rule unat_lt2p)
  also have "\<dots> \<le> 2 ^ 64" using assms by (intro power_increasing) simp_all
  finally have "take_bit 64 (unat v) = unat v" by (simp add: take_bit_nat_eq_self)
  with False show ?thesis by (simp add: magnitude_of_def unat_ucast)
next
  case True
  have e: "(- (x + 1) + 1 :: u64) = - x" for x by simp
  have m: "magnitude_of True v = word_of_int \<bar>sint v\<bar>"
  proof (cases "sint v < 0")
    case True
    then have "magnitude_of True v = - word_of_int (sint v)" unfolding magnitude_of_def e scast_eq by simp
    then show ?thesis unfolding wi_hom_neg using True by simp
  next
    case False
    then show ?thesis unfolding magnitude_of_def scast_eq by simp
  qed
  have "- (2 ^ (LENGTH('a) - 1)) \<le> sint v" "sint v < 2 ^ (LENGTH('a) - 1)"
    by (rule sint_ge) (rule sint_lt)
  then have "\<bar>sint v\<bar> \<le> 2 ^ (LENGTH('a) - 1)" by simp
  also have "\<dots> \<le> 2 ^ 63" using assms by (intro power_increasing) simp_all
  finally have "\<bar>sint v\<bar> < 2 ^ 64" by simp
  then have "unat (word_of_int \<bar>sint v\<bar> :: u64) = nat \<bar>sint v\<bar>"
    by (simp add: unsigned_of_int take_bit_int_eq_self)
  with m True show ?thesis by simp
qed

lemma renders_FormatInteger [rendering]:
  fixes v :: "'a::len word"
  assumes "LENGTH('a) \<le> 64" and "ValidatePresentation sp ''dbBoxX'' = Inr ()"
  shows "renders w (FormatInteger w is_signed v sp) (integer_text is_signed v sp)"
  using renders_FormatUnsigned [of w "magnitude_of is_signed v" "is_signed \<and> sint v < 0" sp]
  by (simp only: FormatInteger_def when_valid_def assms(2) sum.case integer_text_def magnitude_value [OF assms(1)])

end
