(* ===== verification/TextNumbers.thy ===== *)
theory TextNumbers
  imports TextOutput
begin

unbundle bit_operations_syntax

text \<open>
  Numbers as text: which values \<open>ParseInteger\<close> accepts, and that it reads back what \<open>FormatInteger\<close> and
  \<open>FormatGuid\<close> have written.
\<close>

section \<open>Digits\<close>

definition value_of :: "nat \<Rightarrow> nat \<Rightarrow> nat list \<Rightarrow> nat" where
  "value_of base m ds = foldl (\<lambda>m d. m * base + d) m ds"

lemma value_of_simps [simp]:
  "value_of base m [] = m" "value_of base m (d # ds) = value_of base (m * base + d) ds"
  "value_of base m (xs @ ys) = value_of base (value_of base m xs) ys"
  by (simp_all add: value_of_def)

lemma value_of_ge: "0 < base \<Longrightarrow> m \<le> value_of base m ds"
proof (induction ds arbitrary: m)
  case (Cons d ds)
  have "m \<le> m * base + d" using Cons.prems by (cases base) simp_all
  then show ?case using Cons.IH [OF Cons.prems, of "m * base + d"] by simp
qed simp

lemma value_of_zeros: "value_of base 0 (replicate n 0) = 0"
  by (induction n) simp_all

lemma value_of_radix: "2 \<le> base \<Longrightarrow> value_of base 0 (radix base v) = v"
  by (induction base v rule: radix.induct) (subst radix.simps, simp)

lemma radix_digits: "2 \<le> base \<Longrightarrow> d \<in> set (radix base v) \<Longrightarrow> d < base"
proof (induction base v rule: radix.induct)
  case (1 base v)
  then show ?case by (cases "v < base") (auto simp: radix.simps [of base v])
qed

lemma radix_nonempty [simp]: "radix base v \<noteq> []"
  by (subst radix.simps) simp

lemma Digit_reads:
  assumes "d < 36"
  shows "DigitValue (Digit (of_nat d) u) = d" and "Digit (of_nat d) u \<notin> {95, 43, 45}"
proof -
  have "\<forall>d \<in> set [0..<36]. DigitValue (Digit (of_nat d) u) = d \<and> Digit (of_nat d) u \<notin> {95, 43, 45}"
    by (cases u) (simp_all add: upt_conv_Cons Digit_def DigitValue_def)
  with assms show "DigitValue (Digit (of_nat d) u) = d" "Digit (of_nat d) u \<notin> {95, 43, 45}" by simp_all
qed

lemma integer_loop_digits:
  assumes "2 \<le> base" and "base \<le> 36" and "\<forall>d \<in> set ds. d < base"
  shows "if value_of base m ds < 2 ^ 64
    then integer_loop opts base i (map (\<lambda>d. Digit (of_nat d) u) ds) m seen separated =
      Inr (i + length ds, value_of base m ds, seen \<or> ds \<noteq> [], separated \<and> ds = [])
    else m < 2 ^ 64 \<longrightarrow> (\<exists>j. integer_loop opts base i (map (\<lambda>d. Digit (of_nat d) u) ds) m seen separated =
      Inl (parse_error OverflowCode j))"
  using assms(3)
proof (induction ds arbitrary: i m seen separated)
  case (Cons d ds)
  let ?m = "m * base + d"
  have d: "d < 36" "d < base" using Cons.prems assms(2) by auto
  note D = Digit_reads [OF d(1), of u]
  have fits: "m \<le> (2 ^ 64 - 1 - d) div base \<longleftrightarrow> ?m < 2 ^ 64"
  proof -
    have "m \<le> (2 ^ 64 - 1 - d) div base \<longleftrightarrow> m * base \<le> 2 ^ 64 - 1 - d"
      using assms(1) by (simp add: less_eq_div_iff_mult_less_eq)
    also have "\<dots> \<longleftrightarrow> ?m < 2 ^ 64" using d(1) by auto
    finally show ?thesis .
  qed
  have step: "integer_loop opts base i (map (\<lambda>d. Digit (of_nat d) u) (d # ds)) m seen separated =
      (if ?m < 2 ^ 64 then integer_loop opts base (i + 1) (map (\<lambda>d. Digit (of_nat d) u) ds) ?m True False
       else Inl (parse_error OverflowCode i))"
    using D d(2) fits by auto
  have ge: "?m \<le> value_of base ?m ds" using value_of_ge [of base ?m ds] assms(1) by simp
  show ?case
  proof (cases "?m < 2 ^ 64")
    case True
    then show ?thesis using Cons.IH [of ?m "i + 1" True False] Cons.prems unfolding step by auto
  next
    case False
    then have "\<not> value_of base m (d # ds) < 2 ^ 64" using ge by simp
    then show ?thesis using False unfolding step by auto
  qed
qed simp

text \<open>Digits of the base are not taken for a prefix, and do not begin with a sign.\<close>

lemma prefix_base_digit:
  assumes "d < base" and "base \<le> 36"
  shows "prefix_base (Digit (of_nat d) u) = 10 \<or> prefix_base (Digit (of_nat d) u) \<noteq> base"
proof -
  have "\<forall>d \<in> set [0..<36]. prefix_base (Digit (of_nat d) u) = 10 \<or> prefix_base (Digit (of_nat d) u) \<le> d"
    by (cases u) (simp_all add: upt_conv_Cons Digit_def prefix_base_def)
  with assms show ?thesis by auto
qed

lemma detect_base_digits:
  assumes "ds \<noteq> []" and "\<forall>d \<in> set ds. d < base" and "base \<le> 36" and "base \<noteq> 0"
  shows "detect_base base (map (\<lambda>d. Digit (of_nat d) u) ds) = (base, 0)"
proof (cases ds)
  case (Cons d es)
  then show ?thesis
  proof (cases es)
    case (Cons e fs)
    then have "e < base" using \<open>ds = d # es\<close> assms(2) by simp
    from prefix_base_digit [OF this assms(3), of u] show ?thesis
      using \<open>ds = d # es\<close> Cons assms(4) by (auto simp: detect_base_def Let_def)
  qed (use assms(4) in \<open>simp add: detect_base_def Let_def\<close>)
qed (use assms(1) in simp)

lemma detect_base_decimal:
  assumes "ds \<noteq> []" and "\<forall>d \<in> set ds. d < 10"
  shows "detect_base 0 (map (\<lambda>d. Digit (of_nat d) u) ds) = (10, 0)"
proof (cases ds)
  case (Cons d es)
  then show ?thesis
  proof (cases es)
    case (Cons e fs)
    then have "e < 10" using \<open>ds = d # es\<close> assms(2) by simp
    moreover have "\<forall>e \<in> set [0..<10]. prefix_base (Digit (of_nat e) u) = 10"
      by (simp add: upt_conv_Cons Digit_def prefix_base_def)
    ultimately show ?thesis using \<open>ds = d # es\<close> Cons by (auto simp: detect_base_def Let_def)
  qed (simp add: detect_base_def Let_def)
qed (use assms(1) in simp)

definition largest :: "bool \<Rightarrow> nat \<Rightarrow> nat" where
  "largest is_signed n = (if is_signed then 2 ^ (n - 1) - 1 else 2 ^ n - 1)"

lemma largest_bound: "n \<le> 64 \<Longrightarrow> largest is_signed n < 2 ^ 64"
proof -
  assume n: "n \<le> 64"
  have "(2 :: nat) ^ k - 1 < 2 ^ 64" if "k \<le> 64" for k
  proof -
    have "(2 :: nat) ^ k \<le> 2 ^ 64" using that by (intro power_increasing) simp_all
    then show ?thesis by simp
  qed
  then show ?thesis using n by (simp add: largest_def)
qed

text \<open>C25: the digits of a number in any base. \<open>ParseInteger\<close> gives its value when the value is one of the type, of any
  width up to 64 bits, signed or not, and reports an overflow otherwise: neither the digits nor the limit are
  off by one.\<close>

theorem ParseInteger_digits:
  fixes ds :: "nat list"
  assumes "LENGTH('a::len) \<le> 64" and "2 \<le> base" and "base \<le> 36" and "ds \<noteq> []" and "\<forall>d \<in> set ds. d < base"
    and "po_base opts = base"
  shows "if foldl (\<lambda>m d. m * base + d) 0 ds \<le> (if is_signed then 2 ^ (LENGTH('a) - 1) - 1 else 2 ^ LENGTH('a) - 1)
    then (ParseInteger is_signed (map (\<lambda>d. Digit (of_nat d) upper) ds) opts :: io_error + 'a word) =
      Inr (of_nat (foldl (\<lambda>m d. m * base + d) 0 ds))
    else \<exists>e. (ParseInteger is_signed (map (\<lambda>d. Digit (of_nat d) upper) ds) opts :: io_error + 'a word) = Inl e \<and>
      code e = OverflowCode"
proof -
  let ?cs = "map (\<lambda>d. Digit (of_nat d) upper) ds" and ?n = "value_of base 0 ds"
  have "hd ds < 36" using assms(3-5) by (cases ds) auto
  from Digit_reads(2) [OF this, of upper] have sign: "hd ?cs \<noteq> 43" "hd ?cs \<noteq> 45"
    using assms(4) by (auto simp: hd_map)
  have p: "(ParseInteger is_signed ?cs opts :: io_error + 'a word) =
      (case integer_loop opts base 0 ?cs 0 False False of
         Inl e \<Rightarrow> Inl e
       | Inr (i, m, seen, separated) \<Rightarrow>
           if \<not> seen \<or> separated then Inl (parse_error InvalidFormat i) else integer_value is_signed False i m)"
    using sign assms(2-6) detect_base_digits [OF assms(4,5,3), of upper] by (simp add: ParseInteger_def Let_def)
  show ?thesis
  proof (cases "?n < 2 ^ 64")
    case True
    then have "integer_loop opts base 0 ?cs 0 False False = Inr (length ds, ?n, True, False)"
      using integer_loop_digits [OF assms(2,3,5), of 0 opts 0 upper False False] assms(4) by simp
    then have q: "(ParseInteger is_signed ?cs opts :: io_error + 'a word) = integer_value is_signed False (length ds) ?n"
      by (simp add: p)
    show ?thesis
      unfolding q value_of_def [symmetric] integer_value_def Let_def
      by (cases is_signed) (simp_all add: parse_error_def Semantic_def not_le)
  next
    case False
    then have "\<not> ?n \<le> largest is_signed LENGTH('a)" using largest_bound [OF assms(1), of is_signed] by simp
    moreover obtain j where "integer_loop opts base 0 ?cs 0 False False = Inl (parse_error OverflowCode j)"
      using integer_loop_digits [OF assms(2,3,5), of 0 opts 0 upper False False] False by auto
    ultimately show ?thesis by (simp add: p value_of_def [symmetric] largest_def parse_error_def Semantic_def)
  qed
qed

theorem ParseInteger_digits_witness:
  "(ParseInteger True [49, 50, 55] (default_options\<lparr>po_base := 10\<rparr>) :: io_error + 8 word) = Inr 127 \<and>
   (\<exists>e. (ParseInteger True [49, 50, 56] (default_options\<lparr>po_base := 10\<rparr>) :: io_error + 8 word) = Inl e \<and>
     code e = OverflowCode)"
  using ParseInteger_digits [where 'a = 8, of 10 "[1, 2, 7]" "default_options\<lparr>po_base := 10\<rparr>" True False]
    ParseInteger_digits [where 'a = 8, of 10 "[1, 2, 8]" "default_options\<lparr>po_base := 10\<rparr>" True False]
  by (simp add: Digit_def default_options_def)

section \<open>Round trip\<close>

text \<open>The text of a number: a sign, a prefix that gives the base, and digits.\<close>

lemma ParseInteger_text:
  assumes base: "2 \<le> base" "base \<le> 36" and ds: "ds \<noteq> []" "\<forall>d \<in> set ds. d < base"
    and fits: "value_of base 0 ds < 2 ^ 64"
    and sign: "sign = [] \<or> sign = [43] \<or> sign = [45]" "po_sign opts"
    and prefix: "prefix = [] \<or> hd prefix = 48"
    and detects: "detect_base (po_base opts) (prefix @ map (\<lambda>d. Digit (of_nat d) upper) ds) = (base, length prefix)"
  shows "ParseInteger is_signed (sign @ prefix @ map (\<lambda>d. Digit (of_nat d) upper) ds) opts =
    integer_value is_signed (sign = [45]) (length sign + length prefix + length ds) (value_of base 0 ds)"
proof -
  let ?ds = "map (\<lambda>d. Digit (of_nat d) upper) ds"
  have "hd ds < 36" using ds base(2) by (cases ds) auto
  from Digit_reads(2) [OF this, of upper] have "hd ?ds \<noteq> 43" "hd ?ds \<noteq> 45" using ds(1) by (auto simp: hd_map)
  then have h: "hd (prefix @ ?ds) \<noteq> 43" "hd (prefix @ ?ds) \<noteq> 45" using prefix by (auto simp: hd_append)
  have loop: "integer_loop opts base i ?ds 0 False False = Inr (i + length ds, value_of base 0 ds, True, False)" for i
    using integer_loop_digits [OF base ds(2), of 0 opts i upper False False] fits ds(1) by simp
  have d: "drop (length sign) (sign @ prefix @ ?ds) = prefix @ ?ds"
    "drop (length sign + length prefix) (sign @ prefix @ ?ds) = ?ds" by simp_all
  show ?thesis using sign(1)
  proof (elim disjE)
    assume "sign = []"
    then show ?thesis using h ds(1) base d detects loop by (simp add: ParseInteger_def Let_def)
  next
    assume "sign = [43]"
    then show ?thesis using ds(1) base d detects loop sign(2) by (simp add: ParseInteger_def Let_def)
  next
    assume "sign = [45]"
    then show ?thesis using ds(1) base d detects loop sign(2) by (simp add: ParseInteger_def Let_def)
  qed
qed

lemma integer_value_inverse:
  fixes v :: "'a::len word"
  shows "integer_value is_signed (is_signed \<and> sint v < 0) i (if is_signed then nat \<bar>sint v\<bar> else unat v) = Inr v"
proof (cases is_signed)
  case False
  have "unat v \<le> 2 ^ LENGTH('a) - 1" using unat_lt2p [of v] by linarith
  then show ?thesis using False by (simp add: integer_value_def)
next
  case True
  let ?h = "2 ^ (LENGTH('a) - 1) :: int"
  have b: "- ?h \<le> sint v" "sint v < ?h" by (rule sint_ge) (rule sint_lt)
  have e: "int (2 ^ (LENGTH('a) - 1) - 1) = ?h - 1" by (simp add: of_nat_diff)
  show ?thesis
  proof (cases "sint v < 0")
    case neg: True
    have m: "nat \<bar>sint v\<bar> \<le> 2 ^ (LENGTH('a) - 1) - 1 + 1" using b neg by (simp add: nat_le_iff)
    have "- (2 ^ (LENGTH('a) - Suc 0)) = v" if "- sint v = 2 ^ (LENGTH('a) - Suc 0)"
    proof -
      have "v = of_int (sint v)" by simp
      also have "sint v = - (2 ^ (LENGTH('a) - Suc 0))" using that by simp
      finally show ?thesis by simp
    qed
    then show ?thesis using True neg m e by (simp add: integer_value_def Let_def)
  next
    case False
    then have "nat \<bar>sint v\<bar> \<le> 2 ^ (LENGTH('a) - 1) - 1" using b e by linarith
    then show ?thesis using True False by (simp add: integer_value_def Let_def)
  qed
qed

text \<open>The text of an integer that is not padded with the fill character.\<close>

definition sign_text :: "format_spec \<Rightarrow> bool \<Rightarrow> byte list" where
  "sign_text sp negative =
     (if negative then [45] else if sp_sign sp = AlwaysSign then [43] else if sp_sign sp = SpaceSign then [32] else [])"

definition base_text :: "format_spec \<Rightarrow> byte list" where
  "base_text sp =
     (if (sp_alternate sp \<or> sp_presentation sp = 112) \<and> base_of (sp_presentation sp) \<in> {2, 16}
      then [48, if base_of (sp_presentation sp) = 2 then (if upper_of sp then 66 else 98)
                else (if upper_of sp then 88 else 120)]
      else [])"

definition octal_zero :: "format_spec \<Rightarrow> nat" where
  "octal_zero sp = (if (sp_alternate sp \<or> sp_presentation sp = 112) \<and> base_of (sp_presentation sp) = 8 then 1 else 0)"

lemma number_prefix_parts:
  "number_prefix sp negative = sign_text sp negative @ base_text sp @ replicate (octal_zero sp) 48"
  using base_of_cases [of "sp_presentation sp"]
  by (auto simp: number_prefix_def sign_text_def base_text_def octal_zero_def)

lemma number_text_plain:
  assumes "sp_width sp = 0 \<or> sp_zero sp \<and> sp_align sp = DefaultAlign"
  shows "\<exists>n. number_text sp negative v =
    sign_text sp negative @ base_text sp @
    map (\<lambda>d. Digit (of_nat d) (upper_of sp)) (replicate n 0 @ radix (base_of (sp_presentation sp)) v)"
proof -
  let ?n = "if sp_zero sp \<and> sp_align sp = DefaultAlign
    then padding_of sp (length (number_prefix sp negative) + length (digits_of (base_of (sp_presentation sp)) (upper_of sp) v))
    else 0"
  have z: "Digit 0 u = 48" for u by (simp add: Digit_def)
  have "number_text sp negative v = number_prefix sp negative @ replicate ?n 48 @
      digits_of (base_of (sp_presentation sp)) (upper_of sp) v"
    using assms by (auto simp: number_text_def padded_def padding_of_def left_of_def Let_def)
  then show ?thesis
    by (intro exI [of _ "octal_zero sp + ?n"]) (simp add: number_prefix_parts digits_of_def map_replicate_const z replicate_add)
qed

lemma number_text_length:
  assumes "v < 2 ^ 64" and "sp_width sp < 2 ^ 62"
  shows "length (number_text sp negative v) \<le> max 67 (sp_width sp)"
proof -
  let ?b = "base_of (sp_presentation sp)"
  let ?d = "length (digits_of ?b (upper_of sp) v)" and ?p = "length (number_prefix sp negative)"
  have b: "2 \<le> ?b" using base_of_cases [of "sp_presentation sp"] by auto
  note assms(1)
  also have "(2 :: nat) ^ 64 \<le> ?b ^ 64" by (rule power_mono [OF b]) simp
  finally have d: "?d \<le> 64" using radix_length [OF b] by (simp add: digits_of_def)
  have p: "?p \<le> 3" by (simp add: number_prefix_def)
  have l: "left_of usual a n \<le> n" for usual a n by (simp add: left_of_def Let_def)
  have "length (number_text sp negative v) = ?p + ?d + padding_of sp (?p + ?d)"
    using l [of RightAlign "sp_align sp" "padding_of sp (?p + ?d)"] by (simp add: number_text_def padded_def Let_def)
  also have "\<dots> = max (?p + ?d) (sp_width sp)" by (simp add: padding_of_def)
  finally show ?thesis using d p by simp
qed

text \<open>Over a fixed buffer that has the room an action that renders a text succeeds.\<close>

lemma fixed_write_all:
  assumes "fixed_ready s" and "length p \<le> length (fbuffer s) - fsize s"
  shows "\<exists>s'. WriteAll fixed_write s p = Some (s', Inr ()) \<and> fixed_ready s' \<and>
    length (fbuffer s') = length (fbuffer s) \<and> fsize s' = fsize s + length p \<and>
    fixed_Written s' = fixed_Written s @ p"
proof (cases "p = []")
  case True
  then show ?thesis using assms by (simp add: WriteAll_def write_loop.simps)
next
  case False
  from fixed_write_law [OF assms(1), of p] obtain s1 r where s1:
    "fixed_write s p = Some (s1, r)" "fixed_ready s1" "length (fbuffer s1) = length (fbuffer s)"
    "case r of
       Inl e \<Rightarrow> s1 = s \<and> p \<noteq> [] \<and> fsize s = length (fbuffer s) \<and>
         e = Semantic OverflowCode Write (fsize s) (fsize s)
     | Inr n \<Rightarrow> n = min (length p) (length (fbuffer s) - fsize s) \<and> fsize s1 = fsize s + n \<and>
         fixed_Written s1 = fixed_Written s @ take n p" by blast
  have lim: "length p < 2 ^ 63" using assms unfolding fixed_ready_def by linarith
  obtain n where r: "r = Inr n" using s1(4) False assms(2) by (cases r) auto
  then have "n = length p" using s1(4) assms(2) by simp
  then show ?thesis
    using s1 r False lim
    by (simp add: WriteAll_def write_loop.simps [of fixed_write p s 0] write_loop.simps [of fixed_write p s1 "length p"])
qed

lemma fixed_pieces:
  assumes "fixed_ready s" and "length (concat ps) \<le> length (fbuffer s) - fsize s"
  shows "\<exists>s'. write_pieces fixed_write ps s = Some (s', Inr ()) \<and> fixed_Written s' = fixed_Written s @ concat ps"
  using assms
proof (induction ps arbitrary: s)
  case (Cons p ps)
  have "length p \<le> length (fbuffer s) - fsize s" using Cons.prems(2) by simp
  from fixed_write_all [OF Cons.prems(1) this] obtain s1 where s1:
    "WriteAll fixed_write s p = Some (s1, Inr ())" "fixed_ready s1" "length (fbuffer s1) = length (fbuffer s)"
    "fsize s1 = fsize s + length p" "fixed_Written s1 = fixed_Written s @ p" by blast
  have "length (concat ps) \<le> length (fbuffer s1) - fsize s1" using Cons.prems(2) s1(3,4) by simp
  from Cons.IH [OF s1(2) this] show ?case using s1 by (auto simp: then_do_def WriteBytes_def)
qed (simp add: succeed_def)

lemma renders_fixed:
  assumes "renders fixed_write f t" and "fixed_ready s" and "length t \<le> length (fbuffer s) - fsize s"
  shows "\<exists>s'. f s = Some (s', Inr ()) \<and> fixed_Written s' = fixed_Written s @ t"
  using assms fixed_pieces [OF assms(2)] by (auto simp: renders_def)

text \<open>C24: an integer of any type up to 64 bits, formatted in any of the bases, with a prefix or without, in capitals
  or not, padded with zeros to any width, into a buffer that has the room: the formatter succeeds, and
  \<open>ParseInteger\<close>, told that there may be a sign, reads back the integer from the text, given the base or left to
  find it from the prefix. Two options of the formatter are left out: the octal prefix, whose single zero is not
  one that the parser looks for, and a space in the place of a plus sign, which the parser refuses.\<close>

theorem Integer_round_trip:
  fixes v :: "'a::len word"
  assumes "LENGTH('a) \<le> 64" and "ValidatePresentation sp ''dbBoxX'' = Inr ()" and "sp_sign sp \<noteq> SpaceSign"
    and "sp_width sp = 0 \<or> sp_zero sp \<and> sp_align sp = DefaultAlign"
    and "po_base opts = base_of (sp_presentation sp) \<or>
      po_base opts = 0 \<and> (base_of (sp_presentation sp) = 10 \<or> base_of (sp_presentation sp) \<noteq> 8 \<and> sp_alternate sp)"
    and "po_sign opts" and "fixed_ready s" and "max 67 (sp_width sp) \<le> length (fbuffer s) - fsize s" and "sp_width sp < 2 ^ 62"
  shows "\<exists>s' cs. FormatInteger fixed_write is_signed v sp s = Some (s', Inr ()) \<and>
    fixed_Written s' = fixed_Written s @ cs \<and> ParseInteger is_signed cs opts = Inr v"
proof -
  let ?neg = "is_signed \<and> sint v < 0" and ?m = "if is_signed then nat \<bar>sint v\<bar> else unat v"
  let ?b = "base_of (sp_presentation sp)" and ?t = "integer_text is_signed v sp"
  have m: "?m < 2 ^ 64"
    using magnitude_value [OF assms(1), of is_signed v] unat_lt2p [of "magnitude_of is_signed v"] by simp
  have t: "?t = number_text sp ?neg ?m" by (simp only: integer_text_def)
  have "length ?t \<le> length (fbuffer s) - fsize s"
    using number_text_length [OF m assms(9), of ?neg] assms(8) unfolding t by linarith
  from renders_fixed [OF renders_FormatInteger [OF assms(1,2)] assms(7) this] obtain s' where
    s': "FormatInteger fixed_write is_signed v sp s = Some (s', Inr ())" "fixed_Written s' = fixed_Written s @ ?t" by blast
  from number_text_plain [OF assms(4), of ?neg ?m] obtain n where n:
    "?t = sign_text sp ?neg @ base_text sp @ map (\<lambda>d. Digit (of_nat d) (upper_of sp)) (replicate n 0 @ radix ?b ?m)"
    (is "_ = _ @ _ @ map _ ?ds") unfolding t by blast
  have b: "2 \<le> ?b" "?b \<le> 36" using base_of_cases [of "sp_presentation sp"] by auto
  have ds: "?ds \<noteq> []" "\<forall>d \<in> set ?ds. d < ?b" using radix_digits [OF b(1)] b(1) by auto
  have val: "value_of ?b 0 ?ds = ?m" using value_of_zeros value_of_radix [OF b(1)] by simp
  have detects: "detect_base (po_base opts) (base_text sp @ map (\<lambda>d. Digit (of_nat d) (upper_of sp)) ?ds) =
      (?b, length (base_text sp))"
  proof (cases "base_text sp = []")
    case True
    have "po_base opts = ?b \<or> po_base opts = 0 \<and> ?b = 10"
      using assms(5) True base_of_cases [of "sp_presentation sp"] by (auto simp: base_text_def)
    then show ?thesis
      using detect_base_digits [OF ds b(2)] detect_base_decimal [OF ds(1)] ds(2) b(1) True by auto
  next
    case False
    then have two: "?b = 2 \<or> ?b = 16" "sp_alternate sp \<or> sp_presentation sp = 112"
      unfolding base_text_def by (simp_all split: if_split_asm)
    then have "po_base opts = ?b \<or> po_base opts = 0" using assms(5) by auto
    with two show ?thesis
      by (elim disjE; cases "upper_of sp") (simp_all add: base_text_def detect_base_def prefix_base_def)
  qed
  have parts: "value_of ?b 0 ?ds < 2 ^ 64" "sign_text sp ?neg = [] \<or> sign_text sp ?neg = [43] \<or> sign_text sp ?neg = [45]"
    "base_text sp = [] \<or> hd (base_text sp) = 48"
    using m assms(3) by (simp_all only: val, simp_all add: sign_text_def base_text_def)
  have "(ParseInteger is_signed ?t opts :: io_error + 'a word) =
      integer_value is_signed (sign_text sp ?neg = [45]) (length (sign_text sp ?neg) + length (base_text sp) + length ?ds) ?m"
    using ParseInteger_text [OF b ds parts(1,2) assms(6) parts(3) detects] unfolding n val .
  moreover have "(sign_text sp ?neg = [45]) = ?neg" using assms(3) by (cases "sp_sign sp") (auto simp: sign_text_def)
  ultimately have "ParseInteger is_signed ?t opts = Inr v" by (simp only: integer_value_inverse)
  with s' show ?thesis by blast
qed

theorem Integer_round_trip_witness:
  "\<exists>s' cs. FormatInteger fixed_write True (- 128 :: 8 word)
      (default_spec\<lparr>sp_presentation := 120, sp_alternate := True, sp_zero := True, sp_width := 8\<rparr>)
      \<lparr>fbuffer = replicate 80 0, fsize = 0\<rparr> = Some (s', Inr ()) \<and>
    fixed_Written s' = cs \<and> ParseInteger True cs default_options = Inr (- 128 :: 8 word)"
proof -
  let ?sp = "default_spec\<lparr>sp_presentation := 120, sp_alternate := True, sp_zero := True, sp_width := 8\<rparr>"
    and ?s = "\<lparr>fbuffer = replicate 80 0, fsize = 0\<rparr> :: fixed_sink"
  have "ValidatePresentation ?sp ''dbBoxX'' = Inr ()" by (simp add: ValidatePresentation_def default_spec_def ascii_def)
  moreover have "fixed_ready ?s" "fixed_Written ?s = []" by (simp_all add: fixed_ready_def fixed_Written_def)
  ultimately show ?thesis
    using Integer_round_trip [of ?sp default_options ?s True "- 128 :: 8 word"]
    by (simp add: default_spec_def default_options_def base_of_def)
qed

end
