(* ===== verification/TextGuid.thy ===== *)
theory TextGuid
  imports TextNumbers
begin

text \<open>
  GUIDs as text: the parser of GUIDs reads back what the formatter has written, in small letters or capitals.
\<close>

unbundle bit_operations_syntax

section \<open>Hexadecimal digits\<close>

definition hex_digits :: "nat \<Rightarrow> nat \<Rightarrow> bool \<Rightarrow> byte list" where
  "hex_digits n v upper = map (\<lambda>d. Digit (of_nat d) upper) (replicate (n - length (radix 16 v)) 0 @ radix 16 v)"

lemma hex_digits_length: "v < 16 ^ n \<Longrightarrow> 0 < n \<Longrightarrow> length (hex_digits n v upper) = n"
  using radix_length [of 16 v n] by (simp add: hex_digits_def)

lemma hex_shift:
  fixes x :: u64
  assumes "d < 16"
  shows "push_bit 4 x OR of_nat d = x * 16 + of_nat d"
proof -
  have d: "of_nat d < (2 :: u64) ^ 4" using assms by (simp add: word_less_nat_alt unat_of_nat take_bit_nat_eq_self)
  have "push_bit 4 x AND of_nat d = 0"
  proof (rule bit_word_eqI)
    fix n assume "n < LENGTH(64)"
    then show "bit (push_bit 4 x AND of_nat d) n = bit (0 :: u64) n"
      using bit_take_less [OF d, of n] by (auto simp: bit_and_iff bit_push_bit_iff)
  qed
  then show ?thesis by (simp add: or_is_plus push_bit_eq_mult mult.commute)
qed

lemma hex_loop_reads:
  assumes "\<forall>d \<in> set ds. d < 16" and "take (length ds) (drop i cs) = map (\<lambda>d. Digit (of_nat d) upper) ds"
    and "i + length ds \<le> length cs"
  shows "hex_loop cs i (length ds) (of_nat m) = Inr (of_nat (value_of 16 m ds))"
  using assms
proof (induction ds arbitrary: i m)
  case (Cons d ds)
  have i: "i < length cs" using Cons.prems(3) by simp
  then have dr: "drop i cs = cs ! i # drop (Suc i) cs" by (rule Cons_nth_drop_Suc [symmetric])
  have c: "cs ! i = Digit (of_nat d) upper"
    and rest: "take (length ds) (drop (i + 1) cs) = map (\<lambda>d. Digit (of_nat d) upper) ds"
    using Cons.prems(2) unfolding dr by simp_all
  have d: "d < 16" using Cons.prems(1) by simp
  have "DigitValue (cs ! i) = d" unfolding c using Digit_reads(1) [of d upper] d by simp
  moreover have "push_bit 4 (of_nat m :: u64) OR of_nat d = of_nat (m * 16 + d)" using hex_shift [OF d] by simp
  moreover have "hex_loop cs (i + 1) (length ds) (of_nat (m * 16 + d)) = Inr (of_nat (value_of 16 (m * 16 + d) ds))"
    using Cons.prems rest by (intro Cons.IH) simp_all
  ultimately show ?case using d by simp
qed simp

lemma hex_loop_digits:
  assumes "v < 16 ^ n" and "0 < n" and "take n (drop i cs) = hex_digits n v upper" and "i + n \<le> length cs"
  shows "hex_loop cs i n 0 = Inr (of_nat v)"
proof -
  let ?ds = "replicate (n - length (radix 16 v)) 0 @ radix 16 v"
  have n: "length ?ds = n" using radix_length [of 16 v n] assms(1,2) by simp
  have "\<forall>d \<in> set ?ds. d < 16" using radix_digits [of 16 _ v] by auto
  from hex_loop_reads [OF this, of i cs upper 0] show ?thesis
    using assms(3,4) value_of_zeros value_of_radix [of 16 v] unfolding n by (simp add: hex_digits_def)
qed

section \<open>GUIDs\<close>

definition plain_guid_spec :: "format_spec \<Rightarrow> bool" where
  "plain_guid_spec sp \<longleftrightarrow> sp_align sp = DefaultAlign \<and> sp_sign sp = NegativeOnly \<and> \<not> sp_alternate sp"

lemma number_text_part:
  assumes "plain_guid_spec sp" and "v < 16 ^ n" and "0 < n"
  shows "number_text (guid_part sp\<lparr>sp_width := n\<rparr>) False v = hex_digits n v (sp_upper sp)"
proof -
  have z: "Digit 0 u = 48" for u by (simp add: Digit_def)
  have "length (radix 16 v) \<le> n" using radix_length [of 16 v n] assms(2,3) by simp
  then show ?thesis
    using assms(1)
    by (auto simp: number_text_def guid_part_def plain_guid_spec_def number_prefix_def base_of_def upper_of_def
        digits_of_def hex_digits_def padding_of_def map_replicate_const z Let_def)
qed

fun guid_tail :: "bool \<Rightarrow> nat \<Rightarrow> u8 list \<Rightarrow> byte list" where
  "guid_tail upper i [] = []"
| "guid_tail upper i (b # bs) = (if i = 2 then [45] else []) @ hex_digits 2 (unat b) upper @ guid_tail upper (i + 1) bs"

definition guid_text :: "bool \<Rightarrow> guid_value \<Rightarrow> byte list" where
  "guid_text upper g =
     (case g of
        (d1, d2, d3, d4) \<Rightarrow>
          hex_digits 8 (unat d1) upper @ [45] @ hex_digits 4 (unat d2) upper @ [45] @ hex_digits 4 (unat d3) upper @
          [45] @ guid_tail upper 0 d4)"

lemma renders_part:
  fixes v :: "'a::len word"
  assumes "plain_guid_spec sp" and "LENGTH('a) \<le> 64" and "unat v < 16 ^ n" and "0 < n"
  shows "renders w (FormatUnsigned w (ucast v) False (guid_part sp\<lparr>sp_width := n\<rparr>)) (hex_digits n (unat v) (sp_upper sp))"
proof -
  have "unat (ucast v :: u64) = unat v" using magnitude_value [OF assms(2), of False v] by (simp add: magnitude_of_def)
  then show ?thesis
    using renders_FormatUnsigned [of w "ucast v" False "guid_part sp\<lparr>sp_width := n\<rparr>"]
      number_text_part [OF assms(1,3,4)] by simp
qed

lemma unat_bounds: "unat (a :: u8) < 16 ^ 2" "unat (b :: u16) < 16 ^ 4" "unat (c :: u32) < 16 ^ 8"
  using unat_lt2p [of a] unat_lt2p [of b] unat_lt2p [of c] by simp_all

lemma renders_tail:
  assumes "plain_guid_spec sp"
  shows "renders w (write_guid_bytes w (guid_part sp) i bs) (guid_tail (sp_upper sp) i bs)"
proof (induction bs arbitrary: i)
  case (Cons b bs)
  have "renders w (if i = 2 then WriteBytes w [45] else succeed) (if i = 2 then [45] else [])"
    by (simp add: rendering)
  from renders_then [OF this renders_then [OF renders_part [OF assms _ unat_bounds(1), where v = b and w = w] Cons, of "i + 1"]]
  show ?case by simp
qed (simp add: renders_succeed)

lemma renders_FormatGuid:
  assumes "plain_guid_spec sp" and "ValidatePresentation sp ''xX?'' = Inr ()"
  shows "renders w (FormatGuid w g sp) (guid_text (sp_upper sp) g)"
proof -
  obtain d1 d2 d3 d4 where g: "g = (d1, d2, d3, d4)" by (cases g)
  have "renders w (FormatUnsigned w (ucast d1) False (guid_part sp\<lparr>sp_width := 8\<rparr>)) (hex_digits 8 (unat d1) (sp_upper sp))"
    "renders w (FormatUnsigned w (ucast d2) False (guid_part sp\<lparr>sp_width := 4\<rparr>)) (hex_digits 4 (unat d2) (sp_upper sp))"
    "renders w (FormatUnsigned w (ucast d3) False (guid_part sp\<lparr>sp_width := 4\<rparr>)) (hex_digits 4 (unat d3) (sp_upper sp))"
    by (rule renders_part [OF assms(1)]; simp add: unat_bounds [simplified])+
  then show ?thesis
    unfolding FormatGuid_def when_valid_def assms(2) sum.case Let_def g prod.case guid_text_def
    by (intro rendering renders_tail [OF assms(1)])
qed

lemma byte_digits_length [simp]: "length (hex_digits 2 (unat (b :: u8)) u) = 2"
  by (rule hex_digits_length [OF unat_bounds(1)]) simp

lemma word_digits_length [simp]:
  "length (hex_digits 4 (unat (b :: u16)) u) = 4" "length (hex_digits 8 (unat (c :: u32)) u) = 8"
  by (rule hex_digits_length [OF unat_bounds(2)], simp) (rule hex_digits_length [OF unat_bounds(3)], simp)

lemma guid_text_parts:
  assumes "cs = guid_text u (d1, d2, d3, [b0, b1, b2, b3, b4, b5, b6, b7])"
  shows "length cs = 36" "cs ! 8 = 45" "cs ! 13 = 45" "cs ! 18 = 45" "cs ! 23 = 45"
    "take 8 (drop 0 cs) = hex_digits 8 (unat d1) u" "take 4 (drop 9 cs) = hex_digits 4 (unat d2) u"
    "take 4 (drop 14 cs) = hex_digits 4 (unat d3) u"
    "take 2 (drop 19 cs) = hex_digits 2 (unat b0) u" "take 2 (drop 21 cs) = hex_digits 2 (unat b1) u"
    "take 2 (drop 24 cs) = hex_digits 2 (unat b2) u" "take 2 (drop 26 cs) = hex_digits 2 (unat b3) u"
    "take 2 (drop 28 cs) = hex_digits 2 (unat b4) u" "take 2 (drop 30 cs) = hex_digits 2 (unat b5) u"
    "take 2 (drop 32 cs) = hex_digits 2 (unat b6) u" "take 2 (drop 34 cs) = hex_digits 2 (unat b7) u"
  unfolding assms guid_text_def by (simp_all add: nth_append)

text \<open>C27: a GUID that is formatted without an alignment, a sign or a prefix of its own, in small letters or capitals,
  into a buffer that has the room, is written as 36 characters, and the parser gives it back.\<close>

theorem Guid_round_trip:
  assumes "plain_guid_spec sp" and "ValidatePresentation sp ''xX?'' = Inr ()" and "length d4 = 8"
    and "fixed_ready s" and "36 \<le> length (fbuffer s) - fsize s"
  shows "\<exists>s' cs. FormatGuid fixed_write (d1, d2, d3, d4) sp s = Some (s', Inr ()) \<and>
    fixed_Written s' = fixed_Written s @ cs \<and> length cs = 36 \<and> ParseGuid cs = Inr (d1, d2, d3, d4)"
proof -
  obtain b0 b1 b2 b3 b4 b5 b6 b7 where d4: "d4 = [b0, b1, b2, b3, b4, b5, b6, b7]"
    using assms(3) by (auto simp: numeral_eq_Suc length_Suc_conv)
  obtain cs where cs: "cs = guid_text (sp_upper sp) (d1, d2, d3, d4)" by blast
  note parts = guid_text_parts [OF cs [unfolded d4]]
  from renders_FormatGuid [OF assms(1,2), of fixed_write "(d1, d2, d3, d4)"]
  have "renders fixed_write (FormatGuid fixed_write (d1, d2, d3, d4) sp) cs" unfolding cs .
  from renders_fixed [OF this assms(4)] obtain s' where s':
    "FormatGuid fixed_write (d1, d2, d3, d4) sp s = Some (s', Inr ())" "fixed_Written s' = fixed_Written s @ cs"
    using parts(1) assms(5) by auto
  have data: "hex_loop cs 0 8 0 = Inr (of_nat (unat d1))" "hex_loop cs 9 4 0 = Inr (of_nat (unat d2))"
    "hex_loop cs 14 4 0 = Inr (of_nat (unat d3))"
    by (rule hex_loop_digits [OF unat_bounds(3) _ parts(6)] hex_loop_digits [OF unat_bounds(2) _ parts(7)]
        hex_loop_digits [OF unat_bounds(2) _ parts(8)]; simp add: parts(1))+
  note byte = hex_loop_digits [OF unat_bounds(1)]
  have bytes: "hex_loop cs 19 2 0 = Inr (of_nat (unat b0))" "hex_loop cs 21 2 0 = Inr (of_nat (unat b1))"
    "hex_loop cs 24 2 0 = Inr (of_nat (unat b2))" "hex_loop cs 26 2 0 = Inr (of_nat (unat b3))"
    "hex_loop cs 28 2 0 = Inr (of_nat (unat b4))" "hex_loop cs 30 2 0 = Inr (of_nat (unat b5))"
    "hex_loop cs 32 2 0 = Inr (of_nat (unat b6))" "hex_loop cs 34 2 0 = Inr (of_nat (unat b7))"
    by (rule byte [OF _ parts(9)] byte [OF _ parts(10)] byte [OF _ parts(11)] byte [OF _ parts(12)]
        byte [OF _ parts(13)] byte [OF _ parts(14)] byte [OF _ parts(15)] byte [OF _ parts(16)];
        simp add: parts(1))+
  have narrow: "ucast (of_nat (unat v) :: u64) = v" if "LENGTH('a) \<le> 64" for v :: "'a::len word"
    by (rule word_unat_eq_iff [THEN iffD2])
      (use that in \<open>simp add: unat_ucast unsigned_of_nat take_bit_take_bit min_def take_bit_nat_eq_self\<close>)
  have "ParseGuid cs = Inr (d1, d2, d3, d4)"
    using parts(1-5) data bytes narrow [of d1] narrow [of d2] narrow [of d3] narrow [of b0] narrow [of b1]
      narrow [of b2] narrow [of b3] narrow [of b4] narrow [of b5] narrow [of b6] narrow [of b7]
    by (simp add: ParseGuid_def d4)
  with s' parts(1) show ?thesis by blast
qed

theorem Guid_round_trip_witness:
  "\<exists>s' cs. FormatGuid fixed_write (0x5B1B31A1, 0x9562, 0x11D2, [0x8E, 0x3F, 0, 0xA0, 0xC9, 0x69, 0x72, 0x3B]) default_spec
      \<lparr>fbuffer = replicate 40 0, fsize = 0\<rparr> = Some (s', Inr ()) \<and>
    fixed_Written s' = cs \<and> length cs = 36 \<and>
    ParseGuid cs = Inr (0x5B1B31A1, 0x9562, 0x11D2, [0x8E, 0x3F, 0, 0xA0, 0xC9, 0x69, 0x72, 0x3B])"
proof -
  let ?s = "\<lparr>fbuffer = replicate 40 0, fsize = 0\<rparr> :: fixed_sink"
  have "plain_guid_spec default_spec" "ValidatePresentation default_spec ''xX?'' = Inr ()" "fixed_ready ?s" "fixed_Written ?s = []"
    by (simp_all add: plain_guid_spec_def default_spec_def ValidatePresentation_def fixed_ready_def fixed_Written_def)
  then show ?thesis
    using Guid_round_trip [of default_spec "[0x8E, 0x3F, 0, 0xA0, 0xC9, 0x69, 0x72, 0x3B]" ?s "0x5B1B31A1" "0x9562" "0x11D2"]
    by simp
qed

end
