(* ===== verification/TextPrint.thy ===== *)
theory TextPrint
  imports TextNumbers
begin

text \<open>
  Format texts. A format text is given by its pieces, characters and fields; what \<open>FormatString\<close> checks when a
  program is compiled, what \<open>ParseFormatSpec\<close> reads when it runs, and what \<open>Print\<close> and \<open>VPrint\<close> write are
  compared on it. A precision cuts a text only where a character begins.
\<close>

unbundle bit_operations_syntax

section \<open>The check of a specification and its parser\<close>

lemma parse_parts:
  "fst (parse_fill cs sp) = (if 1 < length cs \<and> is_align (cs ! 1) then tl cs else cs)"
  "fst (parse_align cs sp) = skip_if is_align cs"
  "fst (parse_sign cs sp) = skip_if (\<lambda>c. c = 43 \<or> c = 45 \<or> c = 32) cs"
  "fst (parse_alternate cs sp) = skip_if (\<lambda>c. c = 35) cs"
  "fst (parse_zero cs sp) = skip_if (\<lambda>c. c = 48) cs"
  "fst (parse_presentation cs sp) = tl cs"
proof -
  show "fst (parse_fill cs sp) = (if 1 < length cs \<and> is_align (cs ! 1) then tl cs else cs)"
    by (induction cs sp rule: parse_fill.induct) simp_all
qed (cases cs; simp add: skip_if_def is_align_def)+

lemma parse_presentations [simp]:
  "sp_presentation (snd (parse_fill cs sp)) = sp_presentation sp"
  "sp_presentation (snd (parse_align cs sp)) = sp_presentation sp"
  "sp_presentation (snd (parse_sign cs sp)) = sp_presentation sp"
  "sp_presentation (snd (parse_alternate cs sp)) = sp_presentation sp"
  "sp_presentation (snd (parse_zero cs sp)) = sp_presentation sp"
proof -
  show "sp_presentation (snd (parse_fill cs sp)) = sp_presentation sp"
    by (induction cs sp rule: parse_fill.induct) simp_all
qed (cases cs; simp)+

lemma parse_number_rest:
  "case parse_number n cs of Inl e \<Rightarrow> code e = OverflowCode | Inr (r, m) \<Rightarrow> r = dropWhile is_digit cs"
  by (induction n cs rule: parse_number.induct) (auto simp: format_error_def Semantic_def split: sum.splits)

lemma parse_width_rest:
  "case parse_width cs sp of Inl e \<Rightarrow> code e = OverflowCode
   | Inr (r, sp') \<Rightarrow> r = dropWhile is_digit cs \<and> sp_presentation sp' = sp_presentation sp"
  using parse_number_rest [of cs "sp_width sp"] by (auto simp: parse_width_def split: sum.splits)

lemma parse_precision_rest:
  "case parse_precision cs sp of Inl e \<Rightarrow> code e = OverflowCode
   | Inr (r, sp') \<Rightarrow> r = (if cs \<noteq> [] \<and> hd cs = 46 then dropWhile is_digit (tl cs) else cs) \<and>
       sp_presentation sp' = sp_presentation sp"
proof (cases cs)
  case (Cons c r)
  then show ?thesis using parse_number_rest [of r 0] by (auto split: sum.splits)
qed simp

text \<open>What is left for the presentation, as the check has it.\<close>

definition front :: "byte list \<Rightarrow> byte list" where
  "front cs =
     skip_if (\<lambda>c. c = 48) (skip_if (\<lambda>c. c = 35) (skip_if (\<lambda>c. c = 43 \<or> c = 45 \<or> c = 32) (skip_if is_align
       (if 1 < length cs \<and> is_align (cs ! 1) then tl cs else cs))))"

definition last_part :: "byte list \<Rightarrow> byte list" where
  "last_part cs =
     (let cs = dropWhile is_digit (front cs) in if cs \<noteq> [] \<and> hd cs = 46 then dropWhile is_digit (tl cs) else cs)"

lemma ValidateSpec_last:
  "ValidateSpec cs \<longleftrightarrow> (case last_part cs of [] \<Rightarrow> True | c # r \<Rightarrow> c \<in> set known_presentations \<and> r = [])"
  by (simp add: ValidateSpec_def last_part_def front_def Let_def)

lemma skip_if_subset: "set (skip_if f cs) \<subseteq> set cs"
  by (auto simp: skip_if_def split: list.splits)

lemma last_part_subset: "set (last_part cs) \<subseteq> set cs"
proof -
  have "set (front cs) \<subseteq> set (if 1 < length cs \<and> is_align (cs ! 1) then tl cs else cs)"
    unfolding front_def using skip_if_subset by (meson order_trans)
  also have "\<dots> \<subseteq> set cs" by (cases cs) auto
  finally have f: "set (front cs) \<subseteq> set cs" .
  have "set (dropWhile is_digit xs) \<subseteq> set xs" for xs by (auto dest: set_dropWhileD)
  moreover have "set (tl xs) \<subseteq> set xs" for xs :: "byte list" by (cases xs) auto
  ultimately show ?thesis using f unfolding last_part_def Let_def by (auto split: if_splits) (meson subsetD)+
qed

lemma ParseFormatSpec_last:
  "case ParseFormatSpec cs sp of
     Inl e \<Rightarrow> code e = OverflowCode \<or> code e = InvalidFormat \<and> 1 < length (last_part cs)
   | Inr sp' \<Rightarrow> length (last_part cs) \<le> 1 \<and>
       sp_presentation sp' = (if last_part cs = [] then sp_presentation sp else hd (last_part cs))"
proof -
  obtain c1 s1 where 1: "parse_fill cs sp = (c1, s1)" by fastforce
  obtain c2 s2 where 2: "parse_align c1 s1 = (c2, s2)" by fastforce
  obtain c3 s3 where 3: "parse_sign c2 s2 = (c3, s3)" by fastforce
  obtain c4 s4 where 4: "parse_alternate c3 s3 = (c4, s4)" by fastforce
  obtain c5 s5 where 5: "parse_zero c4 s4 = (c5, s5)" by fastforce
  have c5: "c5 = front cs"
    using parse_parts(1) [of cs sp] parse_parts(2) [of c1 s1] parse_parts(3) [of c2 s2] parse_parts(4) [of c3 s3]
      parse_parts(5) [of c4 s4] 1 2 3 4 5 by (simp add: front_def)
  have s5: "sp_presentation s5 = sp_presentation sp"
    using parse_presentations(1) [of cs sp] parse_presentations(2) [of c1 s1] parse_presentations(3) [of c2 s2]
      parse_presentations(4) [of c3 s3] parse_presentations(5) [of c4 s4] 1 2 3 4 5 by simp
  note start = ParseFormatSpec_def Let_def 1 2 3 4 5 prod.case
  show ?thesis
  proof (cases "parse_width c5 s5")
    case (Inl e)
    then show ?thesis using parse_width_rest [of c5 s5] by (simp add: start)
  next
    case (Inr w)
    obtain c6 s6 where 6: "w = (c6, s6)" by fastforce
    have w: "c6 = dropWhile is_digit (front cs)" "sp_presentation s6 = sp_presentation sp"
      using parse_width_rest [of c5 s5] Inr 6 c5 s5 by simp_all
    show ?thesis
    proof (cases "parse_precision c6 s6")
      case (Inl e)
      then show ?thesis using parse_precision_rest [of c6 s6] \<open>parse_width c5 s5 = Inr w\<close> 6 by (simp add: start)
    next
      case p: (Inr q)
      obtain c7 s7 where 7: "q = (c7, s7)" by fastforce
      have q: "c7 = last_part cs" "sp_presentation s7 = sp_presentation sp"
        using parse_precision_rest [of c6 s6] p 7 w by (simp_all add: last_part_def)
      show ?thesis
      proof (cases c7)
        case Nil
        then show ?thesis using Inr p 6 7 q by (simp add: start)
      next
        case (Cons c r)
        then show ?thesis
          using Inr p 6 7 q by (cases r) (simp_all add: start format_error_def Semantic_def)
      qed
    qed
  qed
qed

text \<open>C26: the check of a field at compile time and the parser of it at run time agree. When the parser gives a
  specification, the check accepts the field exactly when the presentation is one it knows; when the parser
  reports a malformed field, the check refuses it; the only error left to an accepted field is a width or a
  precision that is too large.\<close>

theorem ValidateSpec_agrees:
  assumes "0 \<notin> set cs"
  shows "case ParseFormatSpec cs default_spec of
      Inr sp \<Rightarrow> ValidateSpec cs \<longleftrightarrow> sp_presentation sp = 0 \<or> sp_presentation sp \<in> set known_presentations
    | Inl e \<Rightarrow> code e = OverflowCode \<or> code e = InvalidFormat \<and> \<not> ValidateSpec cs"
proof (cases "last_part cs")
  case Nil
  then show ?thesis
    using ParseFormatSpec_last [of cs default_spec]
    by (auto simp: ValidateSpec_last default_spec_def split: sum.splits)
next
  case (Cons c r)
  then have "c \<noteq> 0" using last_part_subset [of cs] assms by auto
  with Cons show ?thesis
    using ParseFormatSpec_last [of cs default_spec]
    by (cases r) (auto simp: ValidateSpec_last default_spec_def split: sum.splits)
qed

theorem ValidateSpec_agrees_witness:
  "case ParseFormatSpec (ascii ''*^+#10.3X'') default_spec of
      Inr sp \<Rightarrow> ValidateSpec (ascii ''*^+#10.3X'') \<longleftrightarrow> sp_presentation sp = 0 \<or> sp_presentation sp \<in> set known_presentations
    | Inl e \<Rightarrow> code e = OverflowCode \<or> code e = InvalidFormat \<and> \<not> ValidateSpec (ascii ''*^+#10.3X'')"
  by (rule ValidateSpec_agrees) (simp add: ascii_def)

text \<open>The presentation of texts is not among those the check knows, so a field that the parser and the formatter of
  texts accept is refused when the program is compiled.\<close>

lemma s_presentation_refused:
  "\<not> ValidateSpec (ascii ''s'')" and
  "\<exists>sp. ParseFormatSpec (ascii ''s'') default_spec = Inr sp \<and> ValidatePresentation sp ''s?'' = Inr ()"
  by (simp_all add: ValidateSpec_def ParseFormatSpec_def parse_width_def ValidatePresentation_def ascii_def skip_if_def
      is_align_def is_digit_def known_presentations_def default_spec_def)

section \<open>Pieces of a format text\<close>

text \<open>A character, or a field with or without a specification.\<close>

datatype piece = Char byte | Field "byte list option"

fun piece_text :: "piece \<Rightarrow> byte list" where
  "piece_text (Char c) = (if c = 123 \<or> c = 125 then [c, c] else [c])"
| "piece_text (Field None) = [123, 125]"
| "piece_text (Field (Some f)) = 123 # 58 # f @ [125]"

definition format_text :: "piece list \<Rightarrow> byte list" where
  "format_text ps = concat (map piece_text ps)"

fun well_formed :: "piece \<Rightarrow> bool" where
  "well_formed (Char c) \<longleftrightarrow> True"
| "well_formed (Field None) \<longleftrightarrow> True"
| "well_formed (Field (Some f)) \<longleftrightarrow> ValidateSpec f \<and> 123 \<notin> set f \<and> 125 \<notin> set f"

fun field_specs :: "piece list \<Rightarrow> byte list list" where
  "field_specs [] = []"
| "field_specs (Char c # ps) = field_specs ps"
| "field_specs (Field f # ps) = (case f of None \<Rightarrow> [] | Some f \<Rightarrow> f) # field_specs ps"

fun expand :: "piece list \<Rightarrow> byte list list \<Rightarrow> byte list" where
  "expand [] ts = []"
| "expand (Char c # ps) ts = c # expand ps ts"
| "expand (Field f # ps) [] = expand ps []"
| "expand (Field f # ps) (t # ts) = t @ expand ps ts"

lemma format_text_simps [simp]:
  "format_text [] = []" "format_text (p # ps) = piece_text p @ format_text ps"
  by (simp_all add: format_text_def)

lemma field_until:
  "125 \<notin> set f \<Longrightarrow> field_text (f @ 125 # r) = f" "125 \<notin> set f \<Longrightarrow> behind_field (f @ 125 # r) = 125 # r"
  by (induction f) auto

lemma count_fields_pieces:
  "\<forall>p \<in> set ps. well_formed p \<Longrightarrow> count_fields (format_text ps) = Some (length (field_specs ps))"
proof (induction ps)
  case (Cons p ps)
  then have IH: "count_fields (format_text ps) = Some (length (field_specs ps))" by simp
  show ?case
  proof (cases p)
    case (Char c)
    then show ?thesis using IH by simp
  next
    case (Field f)
    show ?thesis
    proof (cases f)
      case None
      then show ?thesis using IH Field by simp
    next
      case (Some s)
      then have s: "ValidateSpec s" "123 \<notin> set s" "125 \<notin> set s" using Cons.prems Field by simp_all
      have "125 \<notin> set (58 # s)" using s(3) by simp
      note u = field_until [OF this, of "format_text ps", unfolded append_Cons]
      show ?thesis using Field Some s IH u by simp
    qed
  qed
qed simp

lemma print_loop_pieces:
  assumes "\<forall>p \<in> set ps. well_formed p" and "length ts = length (field_specs ps)"
    and "\<forall>i. \<forall>j < length ts. renders w (field_step i (k + j) (field_specs ps ! j)) (ts ! j)"
    and "renders w (finish (k + length ts)) []"
  shows "renders w (print_loop w field_step finish i lit (format_text ps) k) (lit @ expand ps ts)"
  using assms
proof (induction ps arbitrary: i lit k ts)
  case Nil
  then show ?case using renders_then [OF Nil.prems(4) renders_WriteBytes [of w lit]] by simp
next
  case (Cons p ps)
  show ?case
  proof (cases p)
    case (Char c)
    have IH: "renders w (print_loop w field_step finish i lit (format_text ps) k) (lit @ expand ps ts)" for i lit
      using Cons.prems Char by (intro Cons.IH) simp_all
    show ?thesis
    proof (cases "c = 123 \<or> c = 125")
      case True
      have "renders w (then_do (WriteBytes w (lit @ [c])) (print_loop w field_step finish (i + 2) [] (format_text ps) k))
          ((lit @ [c]) @ [] @ expand ps ts)"
        by (intro rendering IH)
      then show ?thesis using True Char by auto
    next
      case False
      then show ?thesis using Char IH [of "i + 1" "lit @ [c]"] by simp
    qed
  next
    case (Field f)
    obtain t us where t: "ts = t # us" using Cons.prems(2) Field by (cases ts) auto
    let ?s = "case f of None \<Rightarrow> [] | Some f \<Rightarrow> f"
    have step: "renders w (field_step i k ?s) t" using Cons.prems(3) [rule_format, of 0 i] t Field by simp
    have IH: "renders w (print_loop w field_step finish i lit (format_text ps) (k + 1)) (lit @ expand ps us)" for i lit
    proof (rule Cons.IH)
      show "\<forall>i. \<forall>j < length us. renders w (field_step i (k + 1 + j) (field_specs ps ! j)) (us ! j)"
      proof (intro allI impI)
        fix i j assume "j < length us"
        then show "renders w (field_step i (k + 1 + j) (field_specs ps ! j)) (us ! j)"
          using Cons.prems(3) [rule_format, of "Suc j" i] t Field by simp
      qed
    qed (use Cons.prems t Field in simp_all)
    have all: "renders w (then_do (WriteBytes w lit)
        (then_do (field_step i k ?s) (print_loop w field_step finish i' [] (format_text ps) (k + 1))))
        (lit @ t @ [] @ expand ps us)" for i'
      by (intro rendering step IH)
    show ?thesis
    proof (cases f)
      case None
      then show ?thesis using all [of "i + 2"] Field t by simp
    next
      case (Some s)
      then have "125 \<notin> set (58 # s)" using Cons.prems(1) Field by simp
      note u = field_until [OF this, of "format_text ps", unfolded append_Cons]
      show ?thesis using all [of "i + length (58 # s) + 2"] Field Some t u by simp
    qed
  qed
qed

text \<open>C23: a format text is the text of its pieces, in which a brace is written twice and a field may have a
  specification. \<open>FormatString\<close> accepts it with as many arguments as it has fields; when every argument writes its
  text for the specification of its field, \<open>Print\<close> and the checking \<open>VPrint\<close> write the characters and, in their
  places, the texts of the arguments, with braces undone.\<close>

theorem Print_pieces:
  assumes "\<forall>p \<in> set ps. well_formed p" and "length (field_specs ps) = length args" and "length ts = length args"
    and "\<forall>j < length args. \<exists>sp. ParseFormatSpec (field_specs ps ! j) default_spec = Inr sp \<and>
      renders w ((args ! j) sp) (ts ! j)"
  shows "FormatString_ok (format_text ps) (length args) \<and>
    renders w (Print w (format_text ps) args) (expand ps ts) \<and>
    renders w (VPrint w (format_text ps) args) (expand ps ts)"
proof (intro conjI)
  show "FormatString_ok (format_text ps) (length args)"
    using count_fields_pieces [OF assms(1)] assms(2) by (simp add: FormatString_ok_def)
  have p: "renders w (print_field args i j (field_specs ps ! j)) (ts ! j)"
    and v: "renders w (vprint_field args i j (field_specs ps ! j)) (ts ! j)" if "j < length ts" for i j
  proof -
    from that assms(3,4) obtain sp where
      "ParseFormatSpec (field_specs ps ! j) default_spec = Inr sp" "renders w ((args ! j) sp) (ts ! j)" by auto
    then show "renders w (print_field args i j (field_specs ps ! j)) (ts ! j)"
      "renders w (vprint_field args i j (field_specs ps ! j)) (ts ! j)"
      using that assms(3) by (auto simp: print_field_def vprint_field_def FormatArgument_def)
  qed
  have len: "length ts = length (field_specs ps)" using assms(2,3) by simp
  show "renders w (Print w (format_text ps) args) (expand ps ts)"
    using print_loop_pieces [OF assms(1) len, where k = 0 and lit = "[]" and i = 0 and w = w
        and field_step = "print_field args" and finish = "\<lambda>k. succeed"] p renders_succeed [of w]
    by (simp add: Print_def)
  show "renders w (VPrint w (format_text ps) args) (expand ps ts)"
    using print_loop_pieces [OF assms(1) len, where k = 0 and lit = "[]" and i = 0 and w = w
        and field_step = "vprint_field args"
        and finish = "\<lambda>k. if k \<noteq> length args then fails (format_error InvalidFormat k) else succeed"]
      v assms(3) renders_succeed [of w]
    by (simp add: VPrint_def)
qed

theorem Print_pieces_witness:
  "FormatString_ok (ascii ''a{{{:>4}|{}'') 2 \<and>
   renders fixed_write (Print fixed_write (ascii ''a{{{:>4}|{}'')
     [WriteFormattedText fixed_write (ascii ''ok''), WriteFormattedText fixed_write (ascii ''end'')])
     (ascii ''a{  ok|end'') \<and>
   renders fixed_write (VPrint fixed_write (ascii ''a{{{:>4}|{}'')
     [WriteFormattedText fixed_write (ascii ''ok''), WriteFormattedText fixed_write (ascii ''end'')])
     (ascii ''a{  ok|end'')"
proof -
  let ?ps = "[Char 97, Char 123, Field (Some (ascii ''>4'')), Char 124, Field None]"
    and ?args = "[WriteFormattedText fixed_write (ascii ''ok''), WriteFormattedText fixed_write (ascii ''end'')]"
    and ?sp = "default_spec\<lparr>sp_align := RightAlign, sp_width := 4\<rparr>"
  have parse: "ParseFormatSpec (ascii ''>4'') default_spec = Inr ?sp" "ParseFormatSpec [] default_spec = Inr default_spec"
    by (simp_all add: ParseFormatSpec_def ascii_def is_align_def is_digit_def parse_width_def default_spec_def)
  have texts: "formatted_text ?sp (ascii ''ok'') = ascii ''  ok''" "formatted_text default_spec (ascii ''end'') = ascii ''end''"
    by (simp_all add: formatted_text_def padded_def padding_of_def left_of_def text_length_def default_spec_def
        ascii_def numeral_2_eq_2)
  have "\<forall>p \<in> set ?ps. well_formed p"
    by (simp add: ValidateSpec_def ascii_def skip_if_def is_align_def is_digit_def)
  moreover have "\<forall>j < length ?args. \<exists>sp. ParseFormatSpec (field_specs ?ps ! j) default_spec = Inr sp \<and>
      renders fixed_write ((?args ! j) sp) ([ascii ''  ok'', ascii ''end''] ! j)"
  proof (intro allI impI)
    fix j assume "j < length ?args"
    then have "j = 0 \<or> j = 1" by auto
    then show "\<exists>sp. ParseFormatSpec (field_specs ?ps ! j) default_spec = Inr sp \<and>
        renders fixed_write ((?args ! j) sp) ([ascii ''  ok'', ascii ''end''] ! j)"
    proof (elim disjE)
      assume "j = 0"
      then show ?thesis
        using parse(1) renders_WriteFormattedText [of fixed_write "ascii ''ok''" ?sp] by (auto simp: texts)
    next
      assume "j = 1"
      then show ?thesis
        using parse(2) renders_WriteFormattedText [of fixed_write "ascii ''end''" default_spec] by (auto simp: texts)
    qed
  qed
  ultimately have "FormatString_ok (format_text ?ps) (length ?args) \<and>
      renders fixed_write (Print fixed_write (format_text ?ps) ?args) (expand ?ps [ascii ''  ok'', ascii ''end'']) \<and>
      renders fixed_write (VPrint fixed_write (format_text ?ps) ?args) (expand ?ps [ascii ''  ok'', ascii ''end''])"
    by (intro Print_pieces) simp_all
  moreover have "format_text ?ps = ascii ''a{{{:>4}|{}''" "expand ?ps [ascii ''  ok'', ascii ''end''] = ascii ''a{  ok|end''"
    by (simp_all add: ascii_def)
  ultimately show ?thesis by (simp only: list.size numeral_2_eq_2 One_nat_def add_0 add_0_right add_Suc_right)
qed

section \<open>Precision\<close>

text \<open>The first byte of a character is no continuation byte, the others are.\<close>

lemma encode_shape:
  assumes "IsValidCodePoint c"
  obtains b bs where "EncodeUtf8 c = Inr (b # bs)" and "b AND 0xC0 \<noteq> 0x80" and "\<forall>x \<in> set bs. x AND 0xC0 = 0x80"
proof -
  have lead: "(ucast (k OR x) :: byte) AND 0xC0 \<noteq> 0x80" if "bit k 6" for k x :: u32
  proof
    assume "(ucast (k OR x) :: byte) AND 0xC0 = 0x80"
    then have "bit ((ucast (k OR x) :: byte) AND 0xC0) 6 = bit (0x80 :: byte) 6" by simp
    then show False using that by (simp only: word_bits) simp
  qed
  have one: "(ucast c :: byte) AND 0xC0 \<noteq> 0x80" if "c \<le> 0x7F"
  proof
    assume "(ucast c :: byte) AND 0xC0 = 0x80"
    then have "bit ((ucast c :: byte) AND 0xC0) 7 = bit (0x80 :: byte) 7" by simp
    then have "bit c 7" by (simp only: word_bits) simp
    moreover have "c < 2 ^ 7" using that by (simp add: word_le_nat_alt word_less_nat_alt)
    ultimately show False using bit_take_less [of c 7 7] by simp
  qed
  have tags: "bit (0xC0 :: u32) 6" "bit (0xE0 :: u32) 6" "bit (0xF0 :: u32) 6" by (simp_all add: bit_high)
  from EncodeUtf8_valid [OF assms] show ?thesis
    using that one tags [THEN lead] cont_byte_tag by (auto split: if_splits)
qed

lemma cut_back_at:
  assumes "b \<le> n" and "n < length v" and "\<forall>j. b < j \<and> j \<le> n \<longrightarrow> v ! j AND 0xC0 = 0x80"
    and "b = 0 \<or> v ! b AND 0xC0 \<noteq> 0x80"
  shows "cut_back v n = b"
  using assms
proof (induction n)
  case (Suc n)
  then show ?case by (cases "b = Suc n") auto
qed simp

lemma utf8_of_append [simp]: "utf8_of (xs @ ys) = utf8_of xs @ utf8_of ys"
  by (simp add: utf8_of_def)

lemma utf8_prefix:
  assumes "n < length (utf8_of cps)"
  shows "\<exists>k < length cps. length (utf8_of (take k cps)) \<le> n \<and> n < length (utf8_of (take (Suc k) cps))"
  using assms
proof (induction cps rule: rev_induct)
  case (snoc c cps)
  show ?case
  proof (cases "n < length (utf8_of cps)")
    case True
    from snoc.IH [OF this] obtain k where "k < length cps" "length (utf8_of (take k cps)) \<le> n"
      "n < length (utf8_of (take (Suc k) cps))" by blast
    then show ?thesis by (intro exI [of _ k]) simp
  next
    case False
    then show ?thesis using snoc.prems by (intro exI [of _ "length cps"]) simp
  qed
qed simp

text \<open>C28: a precision that cuts a text of code points in UTF-8 leaves whole characters, and as many as the precision
  has room for.\<close>

theorem Precision_whole_characters:
  assumes "\<forall>c \<in> set cps. IsValidCodePoint c" and "sp_precision sp < length (utf8_of cps)"
    and "sp_precision sp \<noteq> no_precision"
  shows "\<exists>k < length cps. take (text_length (utf8_of cps) sp) (utf8_of cps) = utf8_of (take k cps) \<and>
    length (utf8_of (take k cps)) \<le> sp_precision sp \<and> sp_precision sp < length (utf8_of (take (Suc k) cps))"
proof -
  let ?n = "sp_precision sp" and ?v = "utf8_of cps"
  from utf8_prefix [OF assms(2)] obtain k where k: "k < length cps" "length (utf8_of (take k cps)) \<le> ?n"
    "?n < length (utf8_of (take (Suc k) cps))" by blast
  let ?a = "utf8_of (take k cps)" and ?r = "utf8_of (drop (Suc k) cps)"
  have "IsValidCodePoint (cps ! k)" using assms(1) k(1) by simp
  from encode_shape [OF this] obtain b bs where b: "EncodeUtf8 (cps ! k) = Inr (b # bs)" "b AND 0xC0 \<noteq> 0x80"
    "\<forall>x \<in> set bs. x AND 0xC0 = 0x80" by blast
  have "cps = take k cps @ cps ! k # drop (Suc k) cps" using k(1) by (rule id_take_nth_drop)
  then have "?v = utf8_of (take k cps @ cps ! k # drop (Suc k) cps)" by simp
  then have v: "?v = ?a @ (b # bs) @ ?r" using b(1) by (simp only: utf8_of_append utf8_of_simps sum.case)
  have n: "?n < length ?a + length (b # bs)" using k(3) b(1) by (simp add: take_Suc_conv_app_nth k(1))
  have inner: "\<forall>j. length ?a < j \<and> j \<le> ?n \<longrightarrow> ?v ! j AND 0xC0 = 0x80"
  proof (intro allI impI)
    fix j assume "length ?a < j \<and> j \<le> ?n"
    then obtain i where i: "j = length ?a + Suc i" "i < length bs" using n by (auto dest!: less_imp_Suc_add)
    then show "?v ! j AND 0xC0 = 0x80" unfolding v using b(3) by (simp add: nth_append)
  qed
  have "?v ! length ?a = b" unfolding v by simp
  then have "cut_back ?v ?n = length ?a" using cut_back_at [OF k(2) assms(2) inner] b(2) by simp
  then have "take (text_length ?v sp) ?v = ?a" using assms(2,3) v by (simp add: text_length_def)
  with k show ?thesis by blast
qed

theorem Precision_whole_characters_witness:
  "\<exists>k < 3. take (text_length (utf8_of [65, 0x20AC, 66]) (default_spec\<lparr>sp_precision := 3\<rparr>)) (utf8_of [65, 0x20AC, 66]) =
      utf8_of (take k [65, 0x20AC, 66]) \<and>
    length (utf8_of (take k [65, 0x20AC, 66])) \<le> 3 \<and> 3 < length (utf8_of (take (Suc k) [65, 0x20AC, 66]))"
  using Precision_whole_characters [of "[65, 0x20AC, 66]" "default_spec\<lparr>sp_precision := 3\<rparr>"]
  by (simp add: IsValidCodePoint_def EncodeUtf8_def no_precision_def default_spec_def numeral_3_eq_3)

end
